(* ===== verification/Prelude.thy ===== *)
theory Prelude
  imports Main "HOL-Library.Word" "HOL-Library.Sublist"
begin

text \<open>
  Shared vocabulary of the development: the parts of the Rust language and of its standard library
  that the modelled sources use, and the generic lemmas and interfaces the components share.

  \<^item> \<^emph>\<open>Strings.\<close> A Rust \<open>str\<close> is its UTF-8 byte sequence, an Isabelle \<open>string\<close> whose
    characters are bytes: \<open>len()\<close> is \<open>length\<close>, \<open>chars()\<close> cuts the bytes into the encodings
    of the Unicode scalars, and the trimming functions work on those encodings.
  \<^item> \<^emph>\<open>Machine integers.\<close> \<open>u8\<close>, \<open>u32\<close>, \<open>u64\<close> are words; saturating operations are written
    out. Lengths and byte counts (\<open>usize\<close>) are \<open>nat\<close>: a sum of lengths of live objects
    cannot leave the address space.
  \<^item> \<^emph>\<open>JSON.\<close> \<open>serde_json::Value\<close> with the \<open>preserve_order\<close> feature: objects are association
    lists in insertion order.
  \<^item> \<^emph>\<open>BTreeMap.\<close> An association list with strictly increasing keys.
  \<^item> \<^emph>\<open>Interfaces.\<close> The locales \<open>ordered_map\<close>, \<open>step_system\<close> and \<open>monotone_system\<close>, which
    the components interpret.
\<close>

named_theorems rust_str \<open>facts about the string functions of the Rust standard library\<close>
named_theorems sat_arith \<open>saturating machine arithmetic read as natural numbers\<close>
named_theorems btree \<open>facts about sorted association lists\<close>

type_synonym u8 = "8 word"
type_synonym u16 = "16 word"
type_synonym u32 = "32 word"
type_synonym u64 = "64 word"

section \<open>Saturating arithmetic\<close>

definition saturating_add :: "'a::len word \<Rightarrow> 'a word \<Rightarrow> 'a word" where
  "saturating_add a b = (if unat a + unat b < 2 ^ LENGTH('a) then a + b else - 1)"

definition saturating_sub :: "'a::len word \<Rightarrow> 'a word \<Rightarrow> 'a word" where
  "saturating_sub a b = (if a < b then 0 else a - b)"

text \<open>\<open>usize::saturating_add\<close> on a 64-bit target, with \<open>usize\<close> values as \<open>nat\<close>.\<close>

definition usize_saturating_add :: "nat \<Rightarrow> nat \<Rightarrow> nat" where
  "usize_saturating_add a b = min (2 ^ 64 - 1) (a + b)"

text \<open>The conversion \<open>n as u64\<close> of a \<open>usize\<close>: it keeps the low bits.\<close>

definition as_u64 :: "nat \<Rightarrow> u64" where
  "as_u64 n = word_of_nat n"

section \<open>Strings\<close>

definition byte_val :: "char \<Rightarrow> nat" where
  "byte_val c = of_char c"

text \<open>\<open>char::len_utf8\<close>, read off the leading byte of the encoding.\<close>

definition utf8_width :: "char \<Rightarrow> nat" where
  "utf8_width c =
     (if byte_val c < 192 then 1 else if byte_val c < 224 then 2
      else if byte_val c < 240 then 3 else 4)"

function chars :: "string \<Rightarrow> string list" where
  "chars [] = []"
| "chars (c # cs) =
     (c # take (utf8_width c - 1) cs) # chars (drop (utf8_width c - 1) cs)"
  by pat_completeness auto
termination
  by (relation "measure length") auto

text \<open>
  \<open>char::is_whitespace\<close> on the encoding of one scalar: the ASCII white space, U+0085, U+00A0,
  U+1680, U+2000 to U+200A, U+2028, U+2029, U+202F, U+205F and U+3000.
\<close>

definition is_whitespace :: "string \<Rightarrow> bool" where
  "is_whitespace ch =
     (case map byte_val ch of
        [a] \<Rightarrow> a = 32 \<or> (9 \<le> a \<and> a \<le> 13)
      | [a, b] \<Rightarrow> a = 194 \<and> (b = 133 \<or> b = 160)
      | [a, b, c] \<Rightarrow>
          (a = 225 \<and> b = 154 \<and> c = 128)
          \<or> (a = 226 \<and> b = 128 \<and> ((128 \<le> c \<and> c \<le> 138) \<or> c = 168 \<or> c = 169 \<or> c = 175))
          \<or> (a = 226 \<and> b = 129 \<and> c = 159)
          \<or> (a = 227 \<and> b = 128 \<and> c = 128)
      | _ \<Rightarrow> False)"

definition drop_end_while :: "('a \<Rightarrow> bool) \<Rightarrow> 'a list \<Rightarrow> 'a list" where
  "drop_end_while P xs = rev (dropWhile P (rev xs))"

definition trim_end :: "string \<Rightarrow> string" where
  "trim_end s = concat (drop_end_while is_whitespace (chars s))"

definition trim_start :: "string \<Rightarrow> string" where
  "trim_start s = concat (dropWhile is_whitespace (chars s))"

definition trim :: "string \<Rightarrow> string" where
  "trim s = concat (drop_end_while is_whitespace (dropWhile is_whitespace (chars s)))"

definition is_ascii_uppercase :: "char \<Rightarrow> bool" where
  "is_ascii_uppercase c \<longleftrightarrow> 65 \<le> byte_val c \<and> byte_val c \<le> 90"

definition is_ascii_lowercase :: "char \<Rightarrow> bool" where
  "is_ascii_lowercase c \<longleftrightarrow> 97 \<le> byte_val c \<and> byte_val c \<le> 122"

definition is_ascii_digit :: "char \<Rightarrow> bool" where
  "is_ascii_digit c \<longleftrightarrow> 48 \<le> byte_val c \<and> byte_val c \<le> 57"

definition is_ascii_hexdigit :: "char \<Rightarrow> bool" where
  "is_ascii_hexdigit c \<longleftrightarrow>
     is_ascii_digit c \<or> (65 \<le> byte_val c \<and> byte_val c \<le> 70) \<or> (97 \<le> byte_val c \<and> byte_val c \<le> 102)"

definition ascii_lower_byte :: "char \<Rightarrow> char" where
  "ascii_lower_byte c = (if is_ascii_uppercase c then char_of (byte_val c + 32) else c)"

definition ascii_upper_byte :: "char \<Rightarrow> char" where
  "ascii_upper_byte c = (if is_ascii_lowercase c then char_of (byte_val c - 32) else c)"

definition to_ascii_lowercase :: "string \<Rightarrow> string" where
  "to_ascii_lowercase s = map ascii_lower_byte s"

definition to_ascii_uppercase :: "string \<Rightarrow> string" where
  "to_ascii_uppercase s = map ascii_upper_byte s"

definition starts_with :: "string \<Rightarrow> string \<Rightarrow> bool" where
  "starts_with s p \<longleftrightarrow> take (length p) s = p"

definition ends_with :: "string \<Rightarrow> string \<Rightarrow> bool" where
  "ends_with s p \<longleftrightarrow> length p \<le> length s \<and> drop (length s - length p) s = p"

definition strip_prefix :: "string \<Rightarrow> string \<Rightarrow> string option" where
  "strip_prefix s p = (if starts_with s p then Some (drop (length p) s) else None)"

definition strip_suffix :: "string \<Rightarrow> string \<Rightarrow> string option" where
  "strip_suffix s p = (if ends_with s p then Some (take (length s - length p) s) else None)"

text \<open>\<open>String::truncate\<close>: \<open>None\<close> is the panic at a position inside a character.\<close>

definition is_char_boundary :: "string \<Rightarrow> nat \<Rightarrow> bool" where
  "is_char_boundary s n \<longleftrightarrow> n = 0 \<or> n = length s \<or> (n < length s \<and> \<not> (128 \<le> byte_val (s ! n) \<and> byte_val (s ! n) < 192))"

definition truncate_string :: "nat \<Rightarrow> string \<Rightarrow> string option" where
  "truncate_string n s = (if n \<le> length s then if is_char_boundary s n then Some (take n s) else None else Some s)"

fun contains_str :: "string \<Rightarrow> string \<Rightarrow> bool" where
  "contains_str [] p = (p = [])"
| "contains_str (c # cs) p = (starts_with (c # cs) p \<or> contains_str cs p)"

text \<open>\<open>str::split_whitespace\<close>: the maximal runs of characters that are not white space.\<close>

fun split_ws_acc :: "string list \<Rightarrow> string \<Rightarrow> string list" where
  "split_ws_acc [] w = (if w = [] then [] else [w])"
| "split_ws_acc (c # cs) w =
     (if is_whitespace c then (if w = [] then split_ws_acc cs [] else w # split_ws_acc cs [])
      else split_ws_acc cs (w @ c))"

definition split_whitespace :: "string \<Rightarrow> string list" where
  "split_whitespace s = split_ws_acc (chars s) []"

fun join_with :: "string \<Rightarrow> string list \<Rightarrow> string" where
  "join_with sep [] = []"
| "join_with sep [w] = w"
| "join_with sep (w # v # ws) = w @ sep @ join_with sep (v # ws)"

text \<open>
  \<open>str::lines\<close>: the text is cut after each line feed, a carriage return before the line feed is
  dropped, and an empty rest after the last line feed is no line.
\<close>

definition strip_cr :: "string \<Rightarrow> string" where
  "strip_cr l = (if l \<noteq> [] \<and> byte_val (last l) = 13 then butlast l else l)"

fun lines_acc :: "string \<Rightarrow> string \<Rightarrow> string list" where
  "lines_acc [] l = (if l = [] then [] else [l])"
| "lines_acc (c # cs) l =
     (if byte_val c = 10 then strip_cr l # lines_acc cs [] else lines_acc cs (l @ [c]))"

definition lines :: "string \<Rightarrow> string list" where
  "lines s = lines_acc s []"

fun show_nat :: "nat \<Rightarrow> string" where
  "show_nat n = (if n < 10 then [char_of (48 + n)] else show_nat (n div 10) @ [char_of (48 + n mod 10)])"

declare show_nat.simps [simp del]

section \<open>JSON values\<close>

text \<open>
  \<open>serde_json::Value\<close>. A number is an integer or a floating-point literal, which the modelled code
  never computes with and which is kept as its text.
\<close>

datatype json =
    JNull
  | JBool bool
  | JInt int
  | JFloat string
  | JString string
  | JArray "json list"
  | JObject "(string \<times> json) list"

fun json_get :: "json \<Rightarrow> string \<Rightarrow> json option" where
  "json_get (JObject kvs) k = map_of kvs k"
| "json_get _ k = None"

fun json_as_str :: "json \<Rightarrow> string option" where
  "json_as_str (JString s) = Some s"
| "json_as_str _ = None"

fun json_as_array :: "json \<Rightarrow> json list option" where
  "json_as_array (JArray xs) = Some xs"
| "json_as_array _ = None"

fun json_is_boolean :: "json \<Rightarrow> bool" where
  "json_is_boolean (JBool b) = True"
| "json_is_boolean _ = False"

fun json_is_null :: "json \<Rightarrow> bool" where
  "json_is_null JNull = True"
| "json_is_null _ = False"

text \<open>\<open>Map::insert\<close> with \<open>preserve_order\<close>: an existing key keeps its position.\<close>

fun obj_insert :: "string \<Rightarrow> json \<Rightarrow> (string \<times> json) list \<Rightarrow> (string \<times> json) list" where
  "obj_insert k v [] = [(k, v)]"
| "obj_insert k v ((k', v') # kvs) =
     (if k = k' then (k, v) # kvs else (k', v') # obj_insert k v kvs)"

section \<open>BTreeMap\<close>

fun bt_insert :: "'k::linorder \<Rightarrow> 'v \<Rightarrow> ('k \<times> 'v) list \<Rightarrow> ('k \<times> 'v) list" where
  "bt_insert k v [] = [(k, v)]"
| "bt_insert k v ((k', v') # m) =
     (if k < k' then (k, v) # (k', v') # m
      else if k = k' then (k, v) # m
      else (k', v') # bt_insert k v m)"

definition bt_get :: "('k \<times> 'v) list \<Rightarrow> 'k \<Rightarrow> 'v option" where
  "bt_get m k = map_of m k"

definition bt_inv :: "('k::linorder \<times> 'v) list \<Rightarrow> bool" where
  "bt_inv m \<longleftrightarrow> sorted_wrt (<) (map fst m)"

fun find_map :: "('a \<Rightarrow> 'b option) \<Rightarrow> 'a list \<Rightarrow> 'b option" where
  "find_map f [] = None"
| "find_map f (x # xs) = (case f x of Some y \<Rightarrow> Some y | None \<Rightarrow> find_map f xs)"

section \<open>Lemmas on machine arithmetic\<close>

lemma unat_less_exp: "unat (a :: 'a::len word) < 2 ^ LENGTH('a)"
  by transfer (simp add: take_bit_eq_mod nat_less_iff)

lemma unat_saturating_add [sat_arith]:
  fixes a b :: "'a::len word"
  shows "unat (saturating_add a b) = min (2 ^ LENGTH('a) - 1) (unat a + unat b)"
proof -
  have "unat (- 1 :: 'a word) = 2 ^ LENGTH('a) - 1"
    by (simp add: unsigned_minus_1_eq_mask mask_eq_exp_minus_1)
  then show ?thesis
    by (auto simp: saturating_add_def unat_word_ariths)
qed

lemma unat_saturating_sub [sat_arith]:
  fixes a b :: "'a::len word"
  shows "unat (saturating_sub a b) = unat a - unat b"
  by (auto simp: saturating_sub_def word_less_nat_alt unat_sub word_le_nat_alt not_less)

lemma saturating_add_0 [simp]: "saturating_add a 0 = a"
  by (simp add: saturating_add_def)

lemma le_saturating_add: "a \<le> saturating_add a b"
proof -
  have "unat a < 2 ^ LENGTH('a)"
    by (rule unat_less_exp)
  then have "unat a \<le> 2 ^ LENGTH('a) - 1"
    by linarith
  then show ?thesis
    by (simp add: word_le_nat_alt unat_saturating_add del: One_nat_def)
qed

lemma saturating_add_mono: "a \<le> a' \<Longrightarrow> saturating_add a b \<le> saturating_add a' b"
  by (simp add: word_le_nat_alt unat_saturating_add)

lemma unat_as_u64: "n < 2 ^ 64 \<Longrightarrow> unat (as_u64 n) = n"
  by (simp add: as_u64_def unat_of_nat)

section \<open>Lemmas on strings\<close>

lemma utf8_width_pos [simp]: "0 < utf8_width c"
  by (simp add: utf8_width_def)

lemma concat_chars [simp, rust_str]: "concat (chars s) = s"
  by (induction s rule: chars.induct) auto

lemma chars_nonempty: "ch \<in> set (chars s) \<Longrightarrow> ch \<noteq> []"
  by (induction s rule: chars.induct) auto

lemma sum_list_chars [rust_str]: "sum_list (map length (chars s)) = length s"
  by (metis concat_chars length_concat)

lemma concat_drop_end_while_length: "length (concat (drop_end_while P xs)) \<le> length (concat xs)"
proof -
  have "sum_list (map length (dropWhile P ys)) \<le> sum_list (map length ys)" for ys :: "'a list list"
    by (induction ys) auto
  from this [of "rev xs"] show ?thesis
    by (simp add: drop_end_while_def length_concat sum_list_rev flip: rev_map)
qed

lemma length_trim [rust_str]: "length (trim s) \<le> length s"
proof -
  have "length (concat (dropWhile P ys)) \<le> length (concat ys)" for P and ys :: "string list"
    by (induction ys) auto
  then have "length (concat (dropWhile is_whitespace (chars s))) \<le> length s"
    by (metis concat_chars)
  then show ?thesis
    unfolding trim_def using concat_drop_end_while_length le_trans by blast
qed

lemma contains_str_iff [rust_str]: "contains_str s p \<longleftrightarrow> sublist p s"
proof (induction s)
  case Nil
  then show ?case by simp
next
  case (Cons c s)
  have "starts_with (c # s) p \<longleftrightarrow> prefix p (c # s)"
    by (metis append_take_drop_id append_eq_conv_conj prefix_def starts_with_def)
  with Cons.IH show ?case
    by (simp add: sublist_Cons_right)
qed

section \<open>Lemmas on sorted association lists\<close>

lemma set_fst_bt_insert [btree]: "fst ` set (bt_insert k v m) = insert k (fst ` set m)"
  by (induction k v m rule: bt_insert.induct) auto

lemma bt_insert_inv [btree]: "bt_inv m \<Longrightarrow> bt_inv (bt_insert k v m)"
proof (induction k v m rule: bt_insert.induct)
  case (1 k v)
  then show ?case by (simp add: bt_inv_def)
next
  case (2 k v k' v' m)
  have "fst ` set (bt_insert k v m) = insert k (fst ` set m)"
    by (rule set_fst_bt_insert)
  with "2.prems" "2.IH" show ?case
    by (auto simp: bt_inv_def)
qed

lemma bt_get_insert [btree]:
  "bt_inv m \<Longrightarrow> bt_get (bt_insert k v m) j = (if j = k then Some v else bt_get m j)"
  by (induction k v m rule: bt_insert.induct) (auto simp: bt_inv_def bt_get_def)

lemma bt_get_None_iff [btree]: "bt_get m k = None \<longleftrightarrow> k \<notin> fst ` set m"
  by (simp add: bt_get_def map_of_eq_None_iff)

lemma bt_inv_distinct [btree]: "bt_inv m \<Longrightarrow> distinct (map fst m)"
  by (simp add: bt_inv_def strict_sorted_iff)

lemma bt_get_Some_iff [btree]: "bt_inv m \<Longrightarrow> bt_get m k = Some v \<longleftrightarrow> (k, v) \<in> set m"
  by (simp add: bt_get_def bt_inv_distinct)

lemma find_map_append: "find_map f (xs @ ys) = (case find_map f xs of Some y \<Rightarrow> Some y | None \<Rightarrow> find_map f ys)"
  by (induction xs) (auto split: option.splits)

lemma find_map_None_iff: "find_map f xs = None \<longleftrightarrow> (\<forall>x \<in> set xs. f x = None)"
  by (induction xs) (auto split: option.splits)

lemma find_map_Some_split:
  "find_map f xs = Some y \<longleftrightarrow>
     (\<exists>us x vs. xs = us @ x # vs \<and> f x = Some y \<and> (\<forall>u \<in> set us. f u = None))"
proof
  show "find_map f xs = Some y \<Longrightarrow>
      \<exists>us x vs. xs = us @ x # vs \<and> f x = Some y \<and> (\<forall>u \<in> set us. f u = None)"
  proof (induction xs)
    case Nil
    then show ?case by simp
  next
    case (Cons a xs)
    show ?case
    proof (cases "f a")
      case None
      with Cons obtain us x vs where "xs = us @ x # vs" "f x = Some y" "\<forall>u \<in> set us. f u = None"
        by auto
      with None show ?thesis
        by (intro exI [of _ "a # us"] exI [of _ x] exI [of _ vs]) simp
    next
      case (Some b)
      with Cons.prems show ?thesis
        by (intro exI [of _ "[]"] exI [of _ a] exI [of _ xs]) simp
    qed
  qed
next
  assume "\<exists>us x vs. xs = us @ x # vs \<and> f x = Some y \<and> (\<forall>u \<in> set us. f u = None)"
  then obtain us x vs where "xs = us @ x # vs" "f x = Some y" "\<forall>u \<in> set us. f u = None"
    by blast
  moreover have "find_map f us = None"
    using calculation(3) by (simp add: find_map_None_iff)
  ultimately show "find_map f xs = Some y"
    by (simp add: find_map_append)
qed

lemma map_of_obj_insert: "map_of (obj_insert k v kvs) = (map_of kvs)(k \<mapsto> v)"
  by (induction k v kvs rule: obj_insert.induct) auto

lemma set_obj_insert: "set (obj_insert k v kvs) \<subseteq> insert (k, v) (set kvs)"
  by (induction k v kvs rule: obj_insert.induct) auto

section \<open>Runs\<close>

text \<open>How often a condition holds of the operation and the state before it along a run.\<close>

fun count_events :: "('op \<Rightarrow> 's \<Rightarrow> bool) \<Rightarrow> ('op \<Rightarrow> 's \<Rightarrow> 's) \<Rightarrow> 'op list \<Rightarrow> 's \<Rightarrow> nat" where
  "count_events P step [] s = 0"
| "count_events P step (op # ops) s = of_bool (P op s) + count_events P step ops (step op s)"

lemma count_events_static:
  "count_events (\<lambda>op s. P op) step ops s = 0 \<longleftrightarrow> list_all (\<lambda>op. \<not> P op) ops"
  by (induction ops arbitrary: s) auto

text \<open>A separator that does not occur in a part fixes where the part ends.\<close>

lemma split_first_sep:
  assumes "xs @ z # ys = xs' @ z # ys'" and "z \<notin> set xs" and "z \<notin> set xs'"
  shows "xs = xs' \<and> ys = ys'"
proof -
  have "takeWhile (\<lambda>c. c \<noteq> z) (us @ z # vs) = us" if "z \<notin> set us" for us vs
    using that by (induction us) auto
  then have "xs = xs'"
    using assms by metis
  with assms(1) show ?thesis by simp
qed

lemma split_last_sep:
  assumes "xs @ z # ys = xs' @ z # ys'" and "z \<notin> set ys" and "z \<notin> set ys'"
  shows "xs = xs' \<and> ys = ys'"
proof -
  have "rev ys @ z # rev xs = rev ys' @ z # rev xs'"
    using arg_cong [OF assms(1), of rev] by simp
  then show ?thesis
    using split_first_sep [of "rev ys" z "rev xs" "rev ys'" "rev xs'"] assms(2,3) by simp
qed

lemma show_nat_digits: "set (show_nat n) \<subseteq> char_of ` {48..57::nat}"
proof (induction n rule: show_nat.induct)
  case (1 n)
  show ?case
  proof (cases "n < 10")
    case False
    have "show_nat n = show_nat (n div 10) @ [char_of (48 + n mod 10)]" using False by (subst show_nat.simps) simp
    moreover have "48 + n mod 10 \<in> {48..57::nat}" by auto
    ultimately show ?thesis using 1 [OF False] by (auto intro!: imageI)
  qed (auto simp: show_nat.simps [of n])
qed

lemma digit_inj: "(m::nat) < 10 \<Longrightarrow> n < 10 \<Longrightarrow> (char_of (48 + m) :: char) = char_of (48 + n) \<Longrightarrow> m = n"
  using arg_cong [of "char_of (48 + m) :: char" "char_of (48 + n)" "of_char :: char \<Rightarrow> nat"] by simp

lemma show_nat_nonempty [simp]: "show_nat n \<noteq> []" "[] \<noteq> show_nat n"
  by (subst show_nat.simps, simp)+

lemma show_nat_inj: "show_nat m = show_nat n \<Longrightarrow> m = n"
proof (induction m arbitrary: n rule: show_nat.induct)
  case (1 m)
  show ?case
  proof (cases "m < 10")
    case True
    then have "\<not> 10 \<le> n" using 1(2) by (auto simp: show_nat.simps [of m] show_nat.simps [of n] split: if_splits)
    with True 1(2) show ?thesis by (auto simp: show_nat.simps [of m] show_nat.simps [of n] intro: digit_inj split: if_splits)
  next
    case False
    then have n: "\<not> n < 10" using 1(2) by (auto simp: show_nat.simps [of m] show_nat.simps [of n] split: if_splits)
    with False 1(2) have "show_nat (m div 10) = show_nat (n div 10)" "(char_of (48 + m mod 10) :: char) = char_of (48 + n mod 10)"
      by (simp_all add: show_nat.simps [of m] show_nat.simps [of n])
    then have "m div 10 = n div 10" "m mod 10 = n mod 10"
      using 1(1) [OF False, of "n div 10"] digit_inj [of "m mod 10" "n mod 10"] by simp_all
    then show ?thesis by (metis div_mult_mod_eq)
  qed
qed

section \<open>Lines of a text\<close>

definition single_line :: "string \<Rightarrow> bool" where
  "single_line s \<longleftrightarrow> CHR 0x0A \<notin> set s \<and> CHR 0x0D \<notin> set s"

lemma byte_val_inject: "byte_val c = byte_val d \<longleftrightarrow> c = d"
  by (simp add: byte_val_def)

lemma byte_val_LF: "byte_val c = 10 \<longleftrightarrow> c = CHR 0x0A"
  using byte_val_inject [of c "CHR 0x0A"] by (simp add: byte_val_def)

lemma lines_acc_line:
  "CHR 0x0A \<notin> set l \<Longrightarrow> lines_acc (l @ CHR 0x0A # cs) acc = strip_cr (acc @ l) # lines_acc cs []"
  by (induction l arbitrary: acc) (auto simp: byte_val_LF)

lemma lines_acc_rest: "CHR 0x0A \<notin> set l \<Longrightarrow> lines_acc l acc = (if acc @ l = [] then [] else [acc @ l])"
  by (induction l arbitrary: acc) (auto simp: byte_val_LF)

lemma byte_val_CR: "byte_val c = 13 \<longleftrightarrow> c = CHR 0x0D"
  using byte_val_inject [of c "CHR 0x0D"] by (simp add: byte_val_def)

lemma strip_cr_single: "single_line l \<Longrightarrow> strip_cr l = l"
  by (auto simp: strip_cr_def byte_val_CR single_line_def dest: last_in_set)

text \<open>A text of terminated lines is cut back into them.\<close>

lemma lines_of_terminated:
  "list_all single_line ls \<Longrightarrow> lines (concat (map (\<lambda>l. l @ [CHR 0x0A]) ls)) = ls"
proof -
  have "list_all single_line ls \<Longrightarrow> lines_acc (concat (map (\<lambda>l. l @ [CHR 0x0A]) ls)) [] = ls"
    by (induction ls) (simp_all add: lines_acc_line strip_cr_single single_line_def [THEN iffD1])
  then show "list_all single_line ls \<Longrightarrow> ?thesis" by (simp add: lines_def)
qed

section \<open>Interfaces\<close>

text \<open>
  \<open>ordered_map\<close> is what the clients of a \<open>BTreeMap\<close> rely on: lookups after an insertion, and the
  order of the entries an iteration visits.
\<close>

locale ordered_map =
  fixes empty :: "'m"
    and insert_map :: "'k::linorder \<Rightarrow> 'v \<Rightarrow> 'm \<Rightarrow> 'm"
    and lookup :: "'m \<Rightarrow> 'k \<Rightarrow> 'v option"
    and entries :: "'m \<Rightarrow> ('k \<times> 'v) list"
    and invar :: "'m \<Rightarrow> bool"
  assumes invar_empty: "invar empty"
    and invar_insert: "invar m \<Longrightarrow> invar (insert_map k v m)"
    and lookup_empty: "lookup empty k = None"
    and lookup_insert: "invar m \<Longrightarrow> lookup (insert_map k v m) j = (if j = k then Some v else lookup m j)"
    and entries_lookup: "invar m \<Longrightarrow> (k, v) \<in> set (entries m) \<longleftrightarrow> lookup m k = Some v"
    and entries_sorted: "invar m \<Longrightarrow> sorted_wrt (<) (map fst (entries m))"
begin

text \<open>
  The entry a reverse search finds first is the one with the greatest key among those it accepts.
\<close>

lemma last_match_greatest:
  assumes inv: "invar m"
    and found: "find_map (\<lambda>(k, v). if P v then Some (k, v) else None) (rev (entries m)) = Some (k, v)"
  shows "lookup m k = Some v" and "P v"
    and "\<And>j w. lookup m j = Some w \<Longrightarrow> P w \<Longrightarrow> j \<le> k"
proof -
  let ?f = "\<lambda>(k, v). if P v then Some (k, v) else None"
  from found obtain us x vs where split: "rev (entries m) = us @ x # vs"
    and fx: "?f x = Some (k, v)" and us: "\<forall>u \<in> set us. ?f u = None"
    by (auto simp: find_map_Some_split)
  from fx have x: "x = (k, v)" and pv: "P v"
    by (auto split: prod.splits if_splits)
  from split have ent: "entries m = rev vs @ x # rev us"
    by (metis append.assoc append_Cons append_Nil rev.simps(2) rev_append rev_rev_ident)
  show "lookup m k = Some v"
    using entries_lookup [OF inv, of k v] ent x by simp
  show "P v" by (rule pv)
  fix j w
  assume "lookup m j = Some w" and pw: "P w"
  then have "(j, w) \<in> set (rev vs @ x # rev us)"
    using entries_lookup [OF inv, of j w] ent by simp
  moreover have "(j, w) \<notin> set us"
    using us pw by (auto dest: bspec [where x = "(j, w)"])
  ultimately have "(j, w) \<in> set vs \<or> (j, w) = x"
    by auto
  moreover have "\<forall>y \<in> set vs. fst y < k"
    using entries_sorted [OF inv] unfolding ent x by (auto simp: sorted_wrt_append)
  ultimately show "j \<le> k"
    by (auto simp: x intro: less_imp_le)
qed

lemma no_match_none:
  assumes "invar m"
    and "find_map (\<lambda>(k, v). if P v then Some (k, v) else None) (rev (entries m)) = None"
    and "lookup m k = Some v"
  shows "\<not> P v"
proof -
  have "(k, v) \<in> set (rev (entries m))"
    using assms(1,3) entries_lookup by simp
  then have "(if P v then Some (k, v) else None) = None"
    using assms(2) unfolding find_map_None_iff by (auto dest: bspec [where x = "(k, v)"])
  then show ?thesis by (simp split: if_splits)
qed

end

interpretation bt: ordered_map "[]" bt_insert bt_get "\<lambda>m. m" bt_inv
proof (unfold_locales, goal_cases)
  case 1
  show ?case by (simp add: bt_inv_def)
next
  case (2 m k v)
  then show ?case by (rule bt_insert_inv)
next
  case (3 k)
  show ?case by (simp add: bt_get_def)
next
  case (4 m k v j)
  then show ?case by (rule bt_get_insert)
next
  case (5 m k v)
  then show ?case by (simp add: bt_get_Some_iff)
next
  case (6 m)
  then show ?case by (simp add: bt_inv_def)
qed

text \<open>
  \<open>step_system\<close> is the contract of a stateful component: every operation keeps the component's
  invariant. Its consequence is stated once: every sequence of operations keeps it.
\<close>

locale step_system =
  fixes step :: "'op \<Rightarrow> 's \<Rightarrow> 's"
    and invar :: "'s \<Rightarrow> bool"
  assumes step_invar: "invar s \<Longrightarrow> invar (step op s)"
begin

lemma run_invar: "invar s \<Longrightarrow> invar (fold step ops s)"
  by (induction ops arbitrary: s) (auto intro: step_invar)

end

text \<open>
  \<open>monotone_system\<close> adds a preorder on states that every operation respects under the invariant:
  what has been recorded is never taken back.
\<close>

locale monotone_system = step_system step invar
  for step :: "'op \<Rightarrow> 's \<Rightarrow> 's" and invar :: "'s \<Rightarrow> bool" +
  fixes below :: "'s \<Rightarrow> 's \<Rightarrow> bool"
  assumes below_refl: "below s s"
    and below_trans: "below s t \<Longrightarrow> below t u \<Longrightarrow> below s u"
    and step_below: "invar s \<Longrightarrow> below s (step op s)"
begin

lemma run_below: "invar s \<Longrightarrow> below s (fold step ops s)"
proof (induction ops arbitrary: s)
  case Nil
  show ?case by (simp add: below_refl)
next
  case (Cons op ops)
  have "below s (step op s)" by (rule step_below) (rule Cons.prems)
  moreover have "below (step op s) (fold step ops (step op s))"
    by (rule Cons.IH) (rule step_invar, rule Cons.prems)
  ultimately show ?case by (auto intro: below_trans)
qed

end

text \<open>
  \<open>credit_system\<close> is the contract of a component with a budget: outside the operations that renew it,
  every event spends at least one unit of credit. Its consequence: without a renewal there are at
  most as many events as there is credit.
\<close>

locale credit_system = step_system step invar
  for step :: "'op \<Rightarrow> 's \<Rightarrow> 's" and invar :: "'s \<Rightarrow> bool" +
  fixes event :: "'op \<Rightarrow> 's \<Rightarrow> bool"
    and renews :: "'op \<Rightarrow> 's \<Rightarrow> bool"
    and credit :: "'s \<Rightarrow> nat"
  assumes step_spends: "invar s \<Longrightarrow> \<not> renews op s \<Longrightarrow> of_bool (event op s) + credit (step op s) \<le> credit s"
begin

lemma events_bound:
  "invar s \<Longrightarrow> count_events renews step ops s = 0 \<Longrightarrow> count_events event step ops s \<le> credit s"
proof (induction ops arbitrary: s)
  case (Cons op ops)
  then have "count_events event step ops (step op s) \<le> credit (step op s)"
    by (auto intro!: Cons.IH step_invar split: if_splits)
  moreover have "of_bool (event op s) + credit (step op s) \<le> credit s"
    using Cons.prems by (intro step_spends) (auto split: if_splits)
  ultimately show ?case by simp
qed simp

end

end
