(* ===== verification/Telemetry.thy ===== *)
theory Telemetry
  imports Prelude
begin

text \<open>
  The telemetry of the enhanced runtime (\<open>crates/vellum-enhanced-codex/src/telemetry.rs\<close>): the
  event kinds and their wire names, the event fields, the in-memory sink and the guard that refuses
  secret field names.

  SHA-256 and the hexadecimal encoding come from the crates \<open>sha2\<close> and \<open>hex\<close>. They enter as the
  parameter \<open>sha\<close>, the function from a byte string to the hexadecimal text of its digest.
\<close>

named_theorems telemetry_simps \<open>unfolding the telemetry sink\<close>

section \<open>Events\<close>

datatype enhanced_event_kind =
    SessionFeaturesApplied
  | ToolCallAdmitted
  | ToolCallCompleted
  | ToolDuplicateDetected
  | ToolDuplicateSuppressed
  | ToolCallIdCollision
  | ContextPruneStarted
  | ContextPruneCompleted
  | ContextCompactionAvoided
  | ContextOverflowRetry
  | ContextOverflowRetryRefused
  | ContextPressureChecked
  | ContextProjectionApplied
  | ContextProjectionRestored
  | ContextProjectionCleared
  | ContinuationEvaluated
  | ContinuationAllowed
  | ContinuationExhausted
  | ToolRepetitionObserved
  | ToolRepetitionNoticeAppended
  | IntentContinuationDetected

fun kind_name :: "enhanced_event_kind \<Rightarrow> string" where
  "kind_name SessionFeaturesApplied = ''enhanced.session.features_applied''"
| "kind_name ToolCallAdmitted = ''enhanced.tool.call_admitted''"
| "kind_name ToolCallCompleted = ''enhanced.tool.call_completed''"
| "kind_name ToolDuplicateDetected = ''enhanced.tool.duplicate_detected''"
| "kind_name ToolDuplicateSuppressed = ''enhanced.tool.duplicate_suppressed''"
| "kind_name ToolCallIdCollision = ''enhanced.tool.call_id_collision''"
| "kind_name ContextPruneStarted = ''enhanced.context.prune_started''"
| "kind_name ContextPruneCompleted = ''enhanced.context.prune_completed''"
| "kind_name ContextCompactionAvoided = ''enhanced.context.compaction_avoided''"
| "kind_name ContextOverflowRetry = ''enhanced.context.overflow_retry''"
| "kind_name ContextOverflowRetryRefused = ''enhanced.context.overflow_retry_refused''"
| "kind_name ContextProjectionApplied = ''enhanced.context.projection_applied''"
| "kind_name ContextProjectionRestored = ''enhanced.context.projection_restored''"
| "kind_name ContextProjectionCleared = ''enhanced.context.projection_cleared''"
| "kind_name ContextPressureChecked = ''enhanced.context.pressure_checked''"
| "kind_name ContinuationEvaluated = ''enhanced.continuation.evaluated''"
| "kind_name ContinuationAllowed = ''enhanced.continuation.allowed''"
| "kind_name ContinuationExhausted = ''enhanced.continuation.exhausted''"
| "kind_name ToolRepetitionObserved = ''enhanced.tool.repetition_observed''"
| "kind_name ToolRepetitionNoticeAppended = ''enhanced.tool.repetition_notice_appended''"
| "kind_name IntentContinuationDetected = ''enhanced.continuation.intent_detected''"

text \<open>The fields of an event; the prefix \<open>f_\<close> keeps them apart from the fields of the plans.\<close>

record enhanced_event_fields =
  f_thread_id_hash :: "string option"
  f_runtime_digest :: "string option"
  f_feature_profile :: "string option"
  f_provider_id :: "string option"
  f_model_id :: "string option"
  f_request_index :: "u64 option"
  f_call_id_hash :: "string option"
  f_before_token_estimate :: "u64 option"
  f_after_token_estimate :: "u64 option"
  f_chars_removed :: "u64 option"
  f_retry_index :: "u8 option"
  f_continuation_index :: "u8 option"
  f_unfinished_signal_count :: "u64 option"
  f_outcome :: "string option"
  f_succeeded :: "bool option"
  f_consecutive_count :: "u8 option"
  f_input_fingerprint_hash :: "string option"
  f_result_fingerprint_hash :: "string option"
  f_observation_reason :: "string option"

definition no_fields :: enhanced_event_fields where
  "no_fields = \<lparr>f_thread_id_hash = None, f_runtime_digest = None, f_feature_profile = None,
     f_provider_id = None, f_model_id = None, f_request_index = None, f_call_id_hash = None,
     f_before_token_estimate = None, f_after_token_estimate = None, f_chars_removed = None,
     f_retry_index = None, f_continuation_index = None, f_unfinished_signal_count = None,
     f_outcome = None, f_succeeded = None, f_consecutive_count = None,
     f_input_fingerprint_hash = None, f_result_fingerprint_hash = None,
     f_observation_reason = None\<rparr>"

record enhanced_event =
  ev_kind :: enhanced_event_kind
  ev_name :: string
  ev_fields :: enhanced_event_fields

definition new_event :: "enhanced_event_kind \<Rightarrow> enhanced_event_fields \<Rightarrow> enhanced_event" where
  "new_event kind flds = \<lparr>ev_kind = kind, ev_name = kind_name kind, ev_fields = flds\<rparr>"

definition hash_identifier :: "(string \<Rightarrow> string) \<Rightarrow> string \<Rightarrow> string" where
  "hash_identifier sha v = ''sha256:'' @ sha v"

section \<open>Secret field names\<close>

definition FORBIDDEN_FIELD_NAMES :: "string list" where
  "FORBIDDEN_FIELD_NAMES =
     [''api_key'', ''api-key'', ''apikey'', ''authorization'', ''auth'', ''cookie'', ''prompt'',
      ''raw_prompt'', ''raw_tool_output'', ''tool_output'', ''user_text'', ''reasoning'',
      ''encrypted_content'', ''patch'', ''raw_patch'']"

definition ch_test :: "(char \<Rightarrow> bool) \<Rightarrow> string \<Rightarrow> bool" where
  "ch_test P ch = (case ch of [c] \<Rightarrow> P c | _ \<Rightarrow> False)"

definition starts_word :: "string option \<Rightarrow> string \<Rightarrow> string option \<Rightarrow> bool" where
  "starts_word previous character nxt \<longleftrightarrow>
     ch_test is_ascii_uppercase character \<and>
     (case previous of
        None \<Rightarrow> False
      | Some p \<Rightarrow>
          ch_test is_ascii_lowercase p \<or> ch_test is_ascii_digit p
          \<or> (ch_test is_ascii_uppercase p \<and>
             (case nxt of None \<Rightarrow> False | Some n \<Rightarrow> ch_test is_ascii_lowercase n)))"

definition ch_to_ascii_lowercase :: "string \<Rightarrow> string" where
  "ch_to_ascii_lowercase ch = (case ch of [c] \<Rightarrow> [ascii_lower_byte c] | _ \<Rightarrow> ch)"

definition first_of :: "'a list \<Rightarrow> 'a option" where
  "first_of xs = (case xs of [] \<Rightarrow> None | x # _ \<Rightarrow> Some x)"

fun normalize_loop :: "string option \<Rightarrow> string list \<Rightarrow> string \<Rightarrow> string" where
  "normalize_loop previous [] normalized = normalized"
| "normalize_loop previous (character # rest) normalized =
     normalize_loop (Some character) rest
       ((if starts_word previous character (first_of rest) \<and> \<not> ends_with normalized ''_''
         then normalized @ ''_'' else normalized)
        @ ch_to_ascii_lowercase character)"

definition dashes_to_underscores :: "string \<Rightarrow> string" where
  "dashes_to_underscores s = map (\<lambda>c. if c = CHR ''-'' then CHR ''_'' else c) s"

definition normalize_field_name :: "string \<Rightarrow> string" where
  "normalize_field_name name = normalize_loop None (chars (dashes_to_underscores (trim name))) []"

definition field_name_is_forbidden :: "string \<Rightarrow> bool" where
  "field_name_is_forbidden name =
     (let normalized = normalize_field_name name
      in list_ex (\<lambda>forbidden. contains_str normalized forbidden) FORBIDDEN_FIELD_NAMES)"

section \<open>The sink\<close>

record memory_telemetry =
  events :: "enhanced_event list"
  sink_thread_id_hash :: "string option"

definition default_telemetry :: memory_telemetry where
  "default_telemetry = \<lparr>events = [], sink_thread_id_hash = None\<rparr>"

definition for_thread :: "(string \<Rightarrow> string) \<Rightarrow> string \<Rightarrow> memory_telemetry" where
  "for_thread sha thread_id =
     \<lparr>events = [], sink_thread_id_hash = Some (hash_identifier sha thread_id)\<rparr>"

definition stamp :: "memory_telemetry \<Rightarrow> enhanced_event \<Rightarrow> enhanced_event" where
  "stamp t e =
     (if f_thread_id_hash (ev_fields e) = None
      then e\<lparr>ev_fields := (ev_fields e)\<lparr>f_thread_id_hash := sink_thread_id_hash t\<rparr>\<rparr>
      else e)"

definition emit :: "enhanced_event \<Rightarrow> memory_telemetry \<Rightarrow> memory_telemetry" where
  "emit e t = t\<lparr>events := events t @ [stamp t e]\<rparr>"

definition emit_all :: "enhanced_event list \<Rightarrow> memory_telemetry \<Rightarrow> memory_telemetry" where
  "emit_all es t = fold emit es t"

definition count_kind :: "enhanced_event_kind \<Rightarrow> memory_telemetry \<Rightarrow> nat" where
  "count_kind k t = length (filter (\<lambda>e. ev_kind e = k) (events t))"

section \<open>Specification vocabulary\<close>

text \<open>A byte that normalisation leaves alone.\<close>

definition plain_field_char :: "char \<Rightarrow> bool" where
  "plain_field_char c \<longleftrightarrow> byte_val c < 128 \<and> \<not> is_ascii_uppercase c \<and> c \<noteq> CHR ''-''"

section \<open>Lemmas\<close>

lemma ev_kind_new_event [simp]: "ev_kind (new_event k f) = k"
  and ev_name_new_event [simp]: "ev_name (new_event k f) = kind_name k"
  and ev_fields_new_event [simp]: "ev_fields (new_event k f) = f"
  by (simp_all add: new_event_def)

lemma ev_kind_stamp [simp]: "ev_kind (stamp t e) = ev_kind e"
  and ev_name_stamp [simp]: "ev_name (stamp t e) = ev_name e"
  by (simp_all add: stamp_def)

lemma stamp_cong: "sink_thread_id_hash t = sink_thread_id_hash t' \<Longrightarrow> stamp t = stamp t'"
  by (simp add: stamp_def fun_eq_iff)

lemma sink_thread_id_hash_emit_all [simp]: "sink_thread_id_hash (emit_all es t) = sink_thread_id_hash t"
  by (induction es arbitrary: t) (simp_all add: emit_all_def emit_def)

lemma events_emit_all: "events (emit_all es t) = events t @ map (stamp t) es"
proof (induction es arbitrary: t)
  case Nil
  show ?case by (simp add: emit_all_def)
next
  case (Cons e es)
  have "stamp (emit e t) = stamp t"
    by (rule stamp_cong) (simp add: emit_def)
  with Cons.IH [of "emit e t"] show ?case
    by (simp add: emit_all_def emit_def)
qed

lemma emit_eq_emit_all: "emit e t = emit_all [e] t"
  by (simp add: emit_all_def)

lemma emit_all_append: "emit_all fs (emit_all es t) = emit_all (es @ fs) t"
  by (simp add: emit_all_def)

lemma emit_all_Nil [simp]: "emit_all [] t = t"
  by (simp add: emit_all_def)

lemmas telemetry_sink_simps = emit_eq_emit_all emit_all_append

lemma count_kind_emit_all:
  "count_kind k (emit_all es t) = count_kind k t + length (filter (\<lambda>e. ev_kind e = k) es)"
  by (simp add: count_kind_def events_emit_all filter_map comp_def)

lemma stamped_thread_hash:
  assumes "sink_thread_id_hash t = Some h"
  shows "f_thread_id_hash (ev_fields (stamp t e)) \<noteq> None"
  using assms by (simp add: stamp_def)

lemma kind_name_inj: "kind_name k = kind_name k' \<Longrightarrow> k = k'"
  by (cases k; cases k') simp_all

lemma ends_with_single: "ends_with s [c] \<longleftrightarrow> s \<noteq> [] \<and> last s = c"
proof (cases s rule: rev_cases)
  case Nil
  then show ?thesis by (simp add: ends_with_def)
next
  case (snoc xs x)
  then show ?thesis by (auto simp: ends_with_def)
qed

lemma chars_ascii: "\<forall>c \<in> set s. byte_val c < 128 \<Longrightarrow> chars s = map (\<lambda>c. [c]) s"
  by (induction s) (auto simp: utf8_width_def)

lemma normalize_loop_plain:
  "\<forall>c \<in> set s. plain_field_char c \<Longrightarrow> normalize_loop p (map (\<lambda>c. [c]) s) acc = acc @ s"
proof (induction s arbitrary: p acc)
  case Nil
  then show ?case by simp
next
  case (Cons c s)
  have lower: "ascii_lower_byte c = c"
    using Cons.prems by (simp add: plain_field_char_def ascii_lower_byte_def)
  have "\<not> starts_word p [c] n" for n
    using Cons.prems by (simp add: starts_word_def ch_test_def plain_field_char_def)
  moreover have "normalize_loop (Some [c]) (map (\<lambda>c. [c]) s) (acc @ [c]) = (acc @ [c]) @ s"
    using Cons.prems by (intro Cons.IH) simp
  ultimately show ?case
    by (simp add: ch_to_ascii_lowercase_def lower)
qed

lemma dashes_to_underscores_plain:
  "\<forall>c \<in> set s. plain_field_char c \<Longrightarrow> dashes_to_underscores s = s"
  by (induction s) (auto simp: dashes_to_underscores_def plain_field_char_def)

text \<open>Normalisation leaves a trimmed lower-case ASCII name without dashes as it is.\<close>

lemma normalize_field_name_plain:
  assumes "trim name = name" and plain: "\<forall>c \<in> set name. plain_field_char c"
  shows "normalize_field_name name = name"
proof -
  have "chars name = map (\<lambda>c. [c]) name"
    using plain by (intro chars_ascii) (auto simp: plain_field_char_def)
  then show ?thesis
    using assms by (simp add: normalize_field_name_def dashes_to_underscores_plain normalize_loop_plain)
qed

end
