(* ===== verification/Config.thy ===== *)
theory Config
  imports Prelude
begin

text \<open>
  Feature flags and ablation profiles (\<open>crates/vellum-enhanced-codex/src/config.rs\<close>).

  \<open>parse_strict\<close> ends in \<open>serde_json::from_value\<close> with the derived deserializer, which is third-party
  code: it is the parameter \<open>from_value\<close>, \<open>None\<close> standing for its error.
\<close>

record enhanced_runtime_features =
  qwen_tool_reliability :: bool
  deepseek_context_recovery :: bool
  qwen_bounded_continuation :: bool
  repetition_notice :: bool
  intent_continuation :: bool

definition FEATURE_FLAG_KEYS :: "string list" where
  "FEATURE_FLAG_KEYS =
     [''qwenToolReliability'', ''deepseekContextRecovery'', ''qwenBoundedContinuation'',
      ''repetitionNotice'', ''intentContinuation'']"

datatype feature_flag_error = NotObject | UnknownFlag string | NotBoolean string

definition all_off :: enhanced_runtime_features where
  "all_off = \<lparr>qwen_tool_reliability = False, deepseek_context_recovery = False,
     qwen_bounded_continuation = False, repetition_notice = False, intent_continuation = False\<rparr>"

definition all_on :: enhanced_runtime_features where
  "all_on = \<lparr>qwen_tool_reliability = True, deepseek_context_recovery = True,
     qwen_bounded_continuation = True, repetition_notice = False, intent_continuation = False\<rparr>"

definition any_enabled :: "enhanced_runtime_features \<Rightarrow> bool" where
  "any_enabled f \<longleftrightarrow>
     qwen_tool_reliability f \<or> deepseek_context_recovery f \<or> qwen_bounded_continuation f
     \<or> repetition_notice f \<or> intent_continuation f"

definition experimental_any_enabled :: "enhanced_runtime_features \<Rightarrow> bool" where
  "experimental_any_enabled f \<longleftrightarrow> repetition_notice f \<or> intent_continuation f"

text \<open>The loop over the keys of the object: the first offending key decides the error.\<close>

fun check_flags :: "(string \<times> json) list \<Rightarrow> feature_flag_error option" where
  "check_flags [] = None"
| "check_flags ((key, v) # rest) =
     (if key \<notin> set FEATURE_FLAG_KEYS then Some (UnknownFlag key)
      else if \<not> json_is_boolean v then Some (NotBoolean key)
      else check_flags rest)"

fun parse_strict ::
  "(json \<Rightarrow> enhanced_runtime_features option) \<Rightarrow> json \<Rightarrow> feature_flag_error + enhanced_runtime_features"
where
  "parse_strict from_value (JObject kvs) =
     (case check_flags kvs of
        Some e \<Rightarrow> Inl e
      | None \<Rightarrow> (case from_value (JObject kvs) of None \<Rightarrow> Inl NotObject | Some f \<Rightarrow> Inr f))"
| "parse_strict from_value _ = Inl NotObject"

datatype ablation_profile = E0 | E1 | E2 | E3 | E4 | E5

definition profile_parse :: "string \<Rightarrow> ablation_profile option" where
  "profile_parse v =
     (let u = to_ascii_uppercase (trim v) in
      if u = ''E0'' \<or> u = ''B0'' then Some E0
      else if u = ''E1'' then Some E1
      else if u = ''E2'' then Some E2
      else if u = ''E3'' then Some E3
      else if u = ''E4'' then Some E4
      else if u = ''E5'' then Some E5
      else None)"

fun profile_as_str :: "ablation_profile \<Rightarrow> string" where
  "profile_as_str E0 = ''E0''"
| "profile_as_str E1 = ''E1''"
| "profile_as_str E2 = ''E2''"
| "profile_as_str E3 = ''E3''"
| "profile_as_str E4 = ''E4''"
| "profile_as_str E5 = ''E5''"

fun profile_features :: "ablation_profile \<Rightarrow> enhanced_runtime_features" where
  "profile_features E0 = all_off"
| "profile_features E1 = all_off\<lparr>qwen_tool_reliability := True\<rparr>"
| "profile_features E2 = all_off\<lparr>deepseek_context_recovery := True\<rparr>"
| "profile_features E3 = all_off\<lparr>qwen_bounded_continuation := True\<rparr>"
| "profile_features E4 =
     \<lparr>qwen_tool_reliability = True, deepseek_context_recovery = True,
      qwen_bounded_continuation = False, repetition_notice = False, intent_continuation = False\<rparr>"
| "profile_features E5 = all_on"

section \<open>Lemmas\<close>

lemma check_flags_None:
  "check_flags kvs = None \<longleftrightarrow> (\<forall>(k, v) \<in> set kvs. k \<in> set FEATURE_FLAG_KEYS \<and> json_is_boolean v)"
  by (induction kvs rule: check_flags.induct) auto

lemma check_flags_first:
  assumes "check_flags kvs = Some e"
  shows "\<exists>us k v vs. kvs = us @ (k, v) # vs \<and> check_flags us = None \<and>
    (if k \<notin> set FEATURE_FLAG_KEYS then e = UnknownFlag k else \<not> json_is_boolean v \<and> e = NotBoolean k)"
  using assms
proof (induction kvs rule: check_flags.induct)
  case 1
  then show ?case by simp
next
  case (2 key v rest)
  show ?case
  proof (cases "key \<in> set FEATURE_FLAG_KEYS \<and> json_is_boolean v")
    case True
    with 2 obtain us k w vs where "rest = us @ (k, w) # vs" "check_flags us = None"
      "if k \<notin> set FEATURE_FLAG_KEYS then e = UnknownFlag k else \<not> json_is_boolean w \<and> e = NotBoolean k"
      by auto
    with True show ?thesis
      by (intro exI [of _ "(key, v) # us"] exI [of _ k] exI [of _ w] exI [of _ vs]) simp
  next
    case False
    with "2.prems" show ?thesis
      by (intro exI [of _ "[]"] exI [of _ key] exI [of _ v] exI [of _ rest]) (auto split: if_splits)
  qed
qed

lemma profile_parse_as_str: "profile_parse (profile_as_str p) = Some p"
  by (cases p; hypsubst; code_simp)


section \<open>Properties\<close>

text \<open>
  Feature flags are parsed strictly. Only an object whose keys are known flags with boolean values
  is accepted, and of a rejected object the first offending key decides the error.
\<close>

theorem parse_strict_accepts_iff:
  "(parse_strict from_value v = Inr f \<longleftrightarrow>
      (\<exists>kvs. v = JObject kvs \<and> from_value v = Some f \<and>
         list_all (\<lambda>(k, x). k \<in> set FEATURE_FLAG_KEYS \<and> json_is_boolean x) kvs)) \<and>
   (parse_strict from_value v = Inl (UnknownFlag k) \<longleftrightarrow>
      (\<exists>us x vs. v = JObject (us @ (k, x) # vs) \<and> k \<notin> set FEATURE_FLAG_KEYS \<and>
         list_all (\<lambda>(k, x). k \<in> set FEATURE_FLAG_KEYS \<and> json_is_boolean x) us))"
proof (cases v)
  case (JObject kvs)
  have none: "check_flags us = None \<longleftrightarrow> list_all (\<lambda>(k, x). k \<in> set FEATURE_FLAG_KEYS \<and> json_is_boolean x) us" for us
    by (simp add: check_flags_None list_all_iff)
  have app: "check_flags us = None \<Longrightarrow> check_flags (us @ ws) = check_flags ws" for us ws
    by (induction us rule: check_flags.induct) (auto split: if_splits)
  have "check_flags kvs = Some (UnknownFlag k) \<longleftrightarrow>
    (\<exists>us x vs. kvs = us @ (k, x) # vs \<and> k \<notin> set FEATURE_FLAG_KEYS \<and> check_flags us = None)"
  proof
    assume "check_flags kvs = Some (UnknownFlag k)"
    from check_flags_first [OF this] show "\<exists>us x vs. kvs = us @ (k, x) # vs \<and> k \<notin> set FEATURE_FLAG_KEYS \<and> check_flags us = None"
      by (auto split: if_splits)
  qed (auto simp: app)
  then show ?thesis
    unfolding JObject none [symmetric] by (auto simp: app split: option.splits)
qed simp_all

end
