(* ===== verification/Notifications.thy ===== *)
theory Notifications
  imports Telemetry Config
begin

text \<open>
  The two App Server notifications of the enhanced fork
  (\<open>crates/vellum-enhanced-codex/src/notifications.rs\<close>).

  The derived serializers are third-party code: \<open>encode\<close> is \<open>serde_json::to_value\<close> on the event
  fields and \<open>encode_params\<close> is \<open>serde_json::to_value\<close> on the identity parameters (\<open>None\<close> for an
  error).
\<close>

definition ENHANCED_IDENTITY_NOTIFICATION :: string where
  "ENHANCED_IDENTITY_NOTIFICATION = ''vellum/enhancedRuntimeIdentity''"

definition ENHANCED_EVENT_NOTIFICATION :: string where
  "ENHANCED_EVENT_NOTIFICATION = ''vellum/enhancedEvent''"

record enhanced_port_flags =
  port_qwen_tool_reliability :: bool
  port_deepseek_context_recovery :: bool
  port_qwen_bounded_continuation :: bool
  port_repetition_notice :: bool
  port_intent_continuation :: bool

record enhanced_runtime_identity_params =
  id_enhanced_commit :: string
  id_runtime_digest :: string
  id_feature_profile :: string
  id_ports :: enhanced_port_flags

definition port_flags_from :: "enhanced_runtime_features \<Rightarrow> enhanced_port_flags" where
  "port_flags_from f =
     \<lparr>port_qwen_tool_reliability = qwen_tool_reliability f,
      port_deepseek_context_recovery = deepseek_context_recovery f,
      port_qwen_bounded_continuation = qwen_bounded_continuation f,
      port_repetition_notice = repetition_notice f,
      port_intent_continuation = intent_continuation f\<rparr>"

definition identity_notification ::
  "(enhanced_runtime_identity_params \<Rightarrow> json option) \<Rightarrow> string \<Rightarrow> string \<Rightarrow> string \<Rightarrow>
     enhanced_runtime_features \<Rightarrow> json"
where
  "identity_notification encode_params enhanced_commit runtime_digest feature_profile features =
     (let params = \<lparr>id_enhanced_commit = enhanced_commit, id_runtime_digest = runtime_digest,
                    id_feature_profile = feature_profile, id_ports = port_flags_from features\<rparr>
      in JObject [(''method'', JString ENHANCED_IDENTITY_NOTIFICATION),
                  (''params'', case encode_params params of Some v \<Rightarrow> v | None \<Rightarrow> JNull)])"

fun keep_fields :: "(string \<times> json) list \<Rightarrow> (string \<times> json) list \<Rightarrow> (string \<times> json) list" where
  "keep_fields [] acc = acc"
| "keep_fields ((key, v) # encoded) acc =
     (if json_is_null v \<or> field_name_is_forbidden key then keep_fields encoded acc
      else keep_fields encoded (obj_insert key v acc))"

definition notification_fields :: "(enhanced_event_fields \<Rightarrow> json option) \<Rightarrow> enhanced_event \<Rightarrow> (string \<times> json) list" where
  "notification_fields encode e =
     (case encode (ev_fields e) of Some (JObject encoded) \<Rightarrow> keep_fields encoded [] | _ \<Rightarrow> [])"

definition event_notification :: "(enhanced_event_fields \<Rightarrow> json option) \<Rightarrow> enhanced_event \<Rightarrow> json" where
  "event_notification encode e =
     JObject [(''method'', JString ENHANCED_EVENT_NOTIFICATION),
              (''params'', JObject [(''name'', JString (ev_name e)),
                                    (''fields'', JObject (notification_fields encode e))])]"

text \<open>The names the fields have on the wire: \<open>rename_all = "camelCase"\<close> on \<open>EnhancedEventFields\<close>.\<close>

definition wire_field_names :: "string list" where
  "wire_field_names =
     [''threadIdHash'', ''runtimeDigest'', ''featureProfile'', ''providerId'', ''modelId'',
      ''requestIndex'', ''callIdHash'', ''beforeTokenEstimate'', ''afterTokenEstimate'',
      ''charsRemoved'', ''retryIndex'', ''continuationIndex'', ''unfinishedSignalCount'',
      ''outcome'', ''succeeded'', ''consecutiveCount'', ''inputFingerprintHash'',
      ''resultFingerprintHash'', ''observationReason'']"

text \<open>The same names in the spelling the guard compares.\<close>

definition snake_field_names :: "string list" where
  "snake_field_names =
     [''thread_id_hash'', ''runtime_digest'', ''feature_profile'', ''provider_id'', ''model_id'',
      ''request_index'', ''call_id_hash'', ''before_token_estimate'', ''after_token_estimate'',
      ''chars_removed'', ''retry_index'', ''continuation_index'', ''unfinished_signal_count'',
      ''outcome'', ''succeeded'', ''consecutive_count'', ''input_fingerprint_hash'',
      ''result_fingerprint_hash'', ''observation_reason'']"

text \<open>\<open>telemetry::profile_label\<close>\<close>

definition profile_label :: "ablation_profile \<Rightarrow> string" where
  "profile_label profile = profile_as_str profile"

section \<open>Lemmas\<close>

lemma keep_fields_sound:
  "(k, v) \<in> set (keep_fields encoded acc) \<Longrightarrow>
     (k, v) \<in> set acc \<or> ((k, v) \<in> set encoded \<and> \<not> json_is_null v \<and> \<not> field_name_is_forbidden k)"
proof (induction encoded acc rule: keep_fields.induct)
  case (1 acc)
  then show ?case by simp
next
  case (2 key w encoded acc)
  then show ?case
    using set_obj_insert [of key w acc] by (auto split: if_splits)
qed

lemma keep_fields_lookup:
  "distinct (map fst encoded) \<Longrightarrow>
     map_of (keep_fields encoded acc) k =
       (case map_of encoded k of
          Some v \<Rightarrow> if json_is_null v \<or> field_name_is_forbidden k then map_of acc k else Some v
        | None \<Rightarrow> map_of acc k)"
proof (induction encoded acc rule: keep_fields.induct)
  case (1 acc)
  then show ?case by simp
next
  case (2 key w encoded acc)
  then have "map_of encoded key = None"
    by (simp add: map_of_eq_None_iff)
  with 2 show ?case
    by (auto simp: map_of_obj_insert split: option.splits)
qed

lemma normalized_wire_field_names: "map normalize_field_name wire_field_names = snake_field_names"
  by (simp add: wire_field_names_def snake_field_names_def normalize_field_name_def trim_def
      dashes_to_underscores_def utf8_width_def byte_val_def is_whitespace_def drop_end_while_def
      starts_word_def ch_test_def is_ascii_uppercase_def is_ascii_lowercase_def is_ascii_digit_def
      first_of_def ends_with_single ch_to_ascii_lowercase_def ascii_lower_byte_def char_of_def bit_0)

lemma snake_field_names_allowed:
  "list_all (\<lambda>n. \<not> list_ex (contains_str n) FORBIDDEN_FIELD_NAMES) snake_field_names"
  by (simp add: snake_field_names_def FORBIDDEN_FIELD_NAMES_def starts_with_def)

lemma wire_field_names_allowed: "n \<in> set wire_field_names \<Longrightarrow> \<not> field_name_is_forbidden n"
proof -
  assume "n \<in> set wire_field_names"
  then have "normalize_field_name n \<in> set snake_field_names"
    using normalized_wire_field_names by (metis image_eqI set_map)
  with snake_field_names_allowed show ?thesis
    by (simp add: field_name_is_forbidden_def Let_def list_all_iff)
qed


section \<open>Properties\<close>

text \<open>
  A notification carries exactly the measurements the event has: for an encoder that writes the
  fields under their wire names, each once, a field is sent iff it is not null. The secret guard never
  drops one of the runtime's own fields.
\<close>

theorem notification_carries_measurements:
  assumes "encode (ev_fields e) = Some (JObject encoded)"
    and "distinct (map fst encoded)" and "set (map fst encoded) \<subseteq> set wire_field_names"
  shows "map_of (notification_fields encode e) k =
    (case map_of encoded k of Some v \<Rightarrow> if json_is_null v then None else Some v | None \<Rightarrow> None)"
proof (cases "map_of encoded k")
  case None
  then show ?thesis
    using assms(1) keep_fields_lookup [OF assms(2), of "[]" k] by (simp add: notification_fields_def)
next
  case (Some v)
  then have "k \<in> set wire_field_names"
    using assms(3) by (force dest: map_of_SomeD)
  then show ?thesis
    using assms(1) keep_fields_lookup [OF assms(2), of "[]" k] Some
    by (simp add: notification_fields_def wire_field_names_allowed)
qed

theorem notification_carries_measurements_witness:
  "let encode = \<lambda>_. Some (JObject [(''callIdHash'', JNull), (''outcome'', JString ''execute'')]);
       e = new_event ToolCallAdmitted no_fields
   in map_of (notification_fields encode e) ''outcome'' = Some (JString ''execute'') \<and>
      map_of (notification_fields encode e) ''callIdHash'' = None"
proof -
  let ?enc = "[(''callIdHash'', JNull), (''outcome'', JString ''execute'')]"
  let ?e = "new_event ToolCallAdmitted no_fields"
  have "distinct (map fst ?enc)" "set (map fst ?enc) \<subseteq> set wire_field_names"
    by (simp_all add: wire_field_names_def)
  note sent = notification_carries_measurements [of "\<lambda>_. Some (JObject ?enc)" ?e, OF HOL.refl this]
  show ?thesis
    unfolding Let_def using sent [of "''outcome''"] sent [of "''callIdHash''"] by simp
qed

end
