(* ===== verification/Gateway.thy ===== *)
theory Gateway
  imports Prelude
begin

text \<open>
  The isolation guard of the thin provider gateway
  (\<open>crates/vellum-enhanced-codex/src/gateway.rs\<close>).
\<close>

datatype gateway_operation =
    AuthInjection | EndpointMapping | ResponsesChatTranslation | SseNormalization
  | ProviderErrorMapping | UsageAccounting

datatype forbidden_gateway_operation =
    SemanticCompaction | CanonicalCheckpoint | HistoryTaskRecovery | ActionRecoveryPrompt
  | AutoContinuation | LoopDecision | SubagentDecision | SemanticFrontier | RollingLocal

record gateway_mutation_guard =
  allowed :: "gateway_operation list"
  forbidden_attempts :: "forbidden_gateway_operation list"

datatype gateway_isolation_error = LegacyMutation u64

definition default_guard :: gateway_mutation_guard where
  "default_guard = \<lparr>allowed = [], forbidden_attempts = []\<rparr>"

definition record_allowed :: "gateway_operation \<Rightarrow> gateway_mutation_guard \<Rightarrow> gateway_mutation_guard" where
  "record_allowed operation g = g\<lparr>allowed := allowed g @ [operation]\<rparr>"

definition record_forbidden :: "forbidden_gateway_operation \<Rightarrow> gateway_mutation_guard \<Rightarrow> gateway_mutation_guard" where
  "record_forbidden operation g = g\<lparr>forbidden_attempts := forbidden_attempts g @ [operation]\<rparr>"

definition legacy_harness_mutation_count :: "gateway_mutation_guard \<Rightarrow> u64" where
  "legacy_harness_mutation_count g = as_u64 (length (forbidden_attempts g))"

definition assert_isolated :: "gateway_mutation_guard \<Rightarrow> gateway_isolation_error + unit" where
  "assert_isolated g =
     (let count = legacy_harness_mutation_count g
      in if count = 0 then Inr () else Inl (LegacyMutation count))"

text \<open>One recorded operation, and the number of forbidden ones in a run.\<close>

datatype guard_op = Allowed gateway_operation | Forbidden forbidden_gateway_operation

fun guard_step :: "guard_op \<Rightarrow> gateway_mutation_guard \<Rightarrow> gateway_mutation_guard" where
  "guard_step (Allowed operation) g = record_allowed operation g"
| "guard_step (Forbidden operation) g = record_forbidden operation g"

fun is_forbidden_op :: "guard_op \<Rightarrow> bool" where
  "is_forbidden_op (Forbidden _) = True"
| "is_forbidden_op (Allowed _) = False"

section \<open>Lemmas\<close>

lemma forbidden_attempts_step:
  "length (forbidden_attempts (guard_step op g)) =
     length (forbidden_attempts g) + (if is_forbidden_op op then 1 else 0)"
  by (cases op) (simp_all add: record_allowed_def record_forbidden_def)

lemma forbidden_attempts_run:
  "length (forbidden_attempts (fold guard_step ops g)) =
     length (forbidden_attempts g) + length (filter is_forbidden_op ops)"
  by (induction ops arbitrary: g) (simp_all add: forbidden_attempts_step)

lemma assert_isolated_iff:
  "length (forbidden_attempts g) < 2 ^ 64 \<Longrightarrow> assert_isolated g = Inr () \<longleftrightarrow> forbidden_attempts g = []"
  by (auto simp: assert_isolated_def legacy_harness_mutation_count_def Let_def as_u64_def
      word_of_nat_eq_0_iff dest: nat_dvd_not_less)


section \<open>Properties\<close>

text \<open>
  The gateway counts as isolated exactly when no forbidden operation was recorded, and otherwise
  the error reports how many were.
\<close>

theorem isolated_iff_nothing_forbidden:
  assumes "length ops < 2 ^ 64"
  shows "assert_isolated (fold guard_step ops default_guard) =
    (if list_ex is_forbidden_op ops
     then Inl (LegacyMutation (word_of_nat (length (filter is_forbidden_op ops)))) else Inr ())"
proof -
  let ?g = "fold guard_step ops default_guard"
  have len: "length (forbidden_attempts ?g) = length (filter is_forbidden_op ops)"
    by (simp add: forbidden_attempts_run default_guard_def)
  moreover have "length (filter is_forbidden_op ops) < 2 ^ 64"
    using length_filter_le [of is_forbidden_op ops] assms by (rule le_less_trans)
  ultimately have "assert_isolated ?g = Inr () \<longleftrightarrow> \<not> list_ex is_forbidden_op ops"
    by (simp add: assert_isolated_iff list_ex_iff flip: length_0_conv) (simp add: filter_empty_conv)
  then show ?thesis
    by (auto simp: assert_isolated_def legacy_harness_mutation_count_def as_u64_def len Let_def split: if_splits)
qed

theorem isolated_iff_nothing_forbidden_witness:
  "assert_isolated (fold guard_step [Allowed AuthInjection, Forbidden AutoContinuation] default_guard) =
     Inl (LegacyMutation 1)"
  using isolated_iff_nothing_forbidden [of "[Allowed AuthInjection, Forbidden AutoContinuation]"] by simp

end
