(* ===== verification/Digest.thy ===== *)
theory Digest
  imports Config
begin

text \<open>
  The identity of a runtime install (\<open>crates/vellum-enhanced-codex/src/digest.rs\<close>): the inputs of the
  digest, their validation, and the byte string that is hashed. \<open>sha\<close> is SHA-256 followed by the
  hexadecimal encoding.
\<close>

section \<open>Data\<close>

record digest_inputs_t =
  di_codex_upstream_commit :: string
  di_enhanced_codex_commit :: string
  di_qwen_source_commit :: string
  di_deepseek_source_commit :: string
  di_feature_defaults :: enhanced_runtime_features
  di_build_profile :: string
  di_target_triple :: string
  di_artifact_sha256 :: string

datatype digest_error = Incomplete string | NotGitSha string string | NotSha256 string string

section \<open>Operations\<close>

definition is_pinned_git_sha :: "string \<Rightarrow> bool" where
  "is_pinned_git_sha v \<longleftrightarrow> length v = 40 \<and> list_all is_ascii_hexdigit v"

definition is_sha256_digest :: "string \<Rightarrow> bool" where
  "is_sha256_digest v =
     (let w = (case strip_prefix v ''sha256:'' of Some w \<Rightarrow> w | None \<Rightarrow> v)
      in length w = 64 \<and> list_all is_ascii_hexdigit w)"

text \<open>The loop over the commit fields.\<close>

fun check_commits :: "(string \<times> string) list \<Rightarrow> digest_error option" where
  "check_commits [] = None"
| "check_commits ((field, v) # rest) =
     (if trim v = [] then Some (Incomplete field)
      else if \<not> is_pinned_git_sha v then Some (NotGitSha field v)
      else check_commits rest)"

definition validate_inputs :: "digest_inputs_t \<Rightarrow> digest_error + unit" where
  "validate_inputs i =
     (case check_commits
        [(''codexUpstreamCommit'', di_codex_upstream_commit i),
         (''enhancedCodexCommit'', di_enhanced_codex_commit i),
         (''qwenCodeSourceCommit'', di_qwen_source_commit i),
         (''deepseekHarnessSourceCommit'', di_deepseek_source_commit i)] of
        Some e \<Rightarrow> Inl e
      | None \<Rightarrow>
          if trim (di_build_profile i) = [] then Inl (Incomplete ''buildProfile'')
          else if trim (di_target_triple i) = [] then Inl (Incomplete ''targetTriple'')
          else if trim (di_artifact_sha256 i) = [] then Inl (Incomplete ''artifactSha256'')
          else if \<not> is_sha256_digest (di_artifact_sha256 i)
            then Inl (NotSha256 ''artifactSha256'' (di_artifact_sha256 i))
          else Inr ())"

definition bool_flag :: "bool \<Rightarrow> string" where
  "bool_flag v = (if v then ''1'' else ''0'')"

text \<open>\<open>u64::to_le_bytes\<close>.\<close>

definition to_le_bytes :: "u64 \<Rightarrow> string" where
  "to_le_bytes w = map (\<lambda>i. char_of (unat w div 256 ^ i mod 256)) [0..<8]"

definition feed :: "string \<Rightarrow> string \<Rightarrow> string" where
  "feed key v = key @ [CHR 0x00] @ to_le_bytes (as_u64 (length v)) @ v @ [CHR 0x00]"

text \<open>The bytes the hasher has received when \<open>compute_runtime_digest\<close> finalizes it.\<close>

definition digest_preimage :: "digest_inputs_t \<Rightarrow> string" where
  "digest_preimage i =
     feed ''codexUpstreamCommit'' (di_codex_upstream_commit i) @
     feed ''enhancedCodexCommit'' (di_enhanced_codex_commit i) @
     feed ''qwenCodeSourceCommit'' (di_qwen_source_commit i) @
     feed ''deepseekHarnessSourceCommit'' (di_deepseek_source_commit i) @
     feed ''qwenToolReliability'' (bool_flag (qwen_tool_reliability (di_feature_defaults i))) @
     feed ''deepseekContextRecovery'' (bool_flag (deepseek_context_recovery (di_feature_defaults i))) @
     feed ''qwenBoundedContinuation'' (bool_flag (qwen_bounded_continuation (di_feature_defaults i))) @
     feed ''repetitionNotice'' (bool_flag (repetition_notice (di_feature_defaults i))) @
     feed ''intentContinuation'' (bool_flag (intent_continuation (di_feature_defaults i))) @
     feed ''buildProfile'' (di_build_profile i) @
     feed ''targetTriple'' (di_target_triple i) @
     feed ''artifactSha256'' (di_artifact_sha256 i)"

definition compute_runtime_digest :: "(string \<Rightarrow> string) \<Rightarrow> digest_inputs_t \<Rightarrow> digest_error + string" where
  "compute_runtime_digest sha i =
     (case validate_inputs i of
        Inl e \<Rightarrow> Inl e
      | Inr _ \<Rightarrow> Inr (''sha256:'' @ sha (digest_preimage i)))"

section \<open>Specification vocabulary\<close>

text \<open>Every string of the inputs fits into memory, so that its length is a \<open>u64\<close>.\<close>

definition inputs_fit :: "digest_inputs_t \<Rightarrow> bool" where
  "inputs_fit i \<longleftrightarrow>
     list_all (\<lambda>s. length s < 2 ^ 64)
       [di_codex_upstream_commit i, di_enhanced_codex_commit i, di_qwen_source_commit i,
        di_deepseek_source_commit i, di_build_profile i, di_target_triple i, di_artifact_sha256 i]"

text \<open>The sample of the unit tests.\<close>

definition sample_inputs :: digest_inputs_t where
  "sample_inputs =
     \<lparr>di_codex_upstream_commit = replicate 40 CHR ''a'', di_enhanced_codex_commit = replicate 40 CHR ''b'',
      di_qwen_source_commit = replicate 40 CHR ''c'', di_deepseek_source_commit = replicate 40 CHR ''d'',
      di_feature_defaults = all_on, di_build_profile = ''enhanced-mvp-v1'',
      di_target_triple = ''x86_64-pc-windows-msvc'', di_artifact_sha256 = ''sha256:'' @ replicate 64 CHR ''f''\<rparr>"

section \<open>Lemmas\<close>

lemma hexdigit_head: "is_ascii_hexdigit c \<Longrightarrow> byte_val c < 128 \<and> \<not> is_whitespace [c]"
  by (auto simp: is_ascii_hexdigit_def is_ascii_digit_def is_whitespace_def)

lemma trim_ascii_head:
  assumes "byte_val c < 128" and "\<not> is_whitespace [c]"
  shows "trim (c # s) \<noteq> []"
proof -
  have ch: "chars (c # s) = [c] # chars s" using assms(1) by (simp add: utf8_width_def)
  have "[c] \<in> set (drop_end_while is_whitespace ([c] # chars s))"
    using assms(2) by (auto simp: drop_end_while_def dropWhile_append)
  moreover have "trim (c # s) = concat (drop_end_while is_whitespace ([c] # chars s))"
    unfolding trim_def ch using assms(2) by (simp del: chars.simps)
  ultimately show ?thesis by (metis concat_eq_Nil_conv list.distinct(1))
qed

lemma trim_hexdigit: "is_ascii_hexdigit c \<Longrightarrow> trim (c # s) \<noteq> []"
  using hexdigit_head [of c] trim_ascii_head by blast

lemma trim_git_sha: "is_pinned_git_sha v \<Longrightarrow> trim v \<noteq> []"
  by (cases v) (auto simp: is_pinned_git_sha_def trim_hexdigit)

lemma trim_sha256: "is_sha256_digest v \<Longrightarrow> trim v \<noteq> []"
proof (cases "starts_with v ''sha256:''")
  case True
  then obtain w where "v = CHR ''s'' # w"
    by (cases v) (auto simp: starts_with_def)
  then show ?thesis
    using trim_ascii_head [of "CHR ''s''" w] by (simp add: is_whitespace_def byte_val_def)
next
  case False
  assume "is_sha256_digest v"
  with False show ?thesis
    by (cases v) (auto simp: is_sha256_digest_def strip_prefix_def trim_hexdigit)
qed

lemma check_commits_None: "check_commits fs = None \<longleftrightarrow> list_all (\<lambda>(f, v). is_pinned_git_sha v) fs"
  by (induction fs rule: check_commits.induct) (auto dest: trim_git_sha)

lemma validate_inputs_ok:
  "validate_inputs i = Inr () \<longleftrightarrow>
     list_all is_pinned_git_sha [di_codex_upstream_commit i, di_enhanced_codex_commit i,
       di_qwen_source_commit i, di_deepseek_source_commit i] \<and>
     trim (di_build_profile i) \<noteq> [] \<and> trim (di_target_triple i) \<noteq> [] \<and>
     is_sha256_digest (di_artifact_sha256 i)"
proof -
  let ?fs = "[(''codexUpstreamCommit'', di_codex_upstream_commit i),
         (''enhancedCodexCommit'', di_enhanced_codex_commit i),
         (''qwenCodeSourceCommit'', di_qwen_source_commit i),
         (''deepseekHarnessSourceCommit'', di_deepseek_source_commit i)]"
  have "check_commits ?fs = None \<longleftrightarrow> list_all is_pinned_git_sha [di_codex_upstream_commit i,
    di_enhanced_codex_commit i, di_qwen_source_commit i, di_deepseek_source_commit i]"
    unfolding check_commits_None by simp
  then show ?thesis
    unfolding validate_inputs_def by (auto dest: trim_sha256 split: option.split simp del: check_commits.simps)
qed

lemma digits_determine:
  fixes n m b :: nat
  assumes "\<And>i. i < k \<Longrightarrow> n div b ^ i mod b = m div b ^ i mod b"
  shows "n mod b ^ k = m mod b ^ k"
  using assms
proof (induction k)
  case (Suc k)
  have "n mod (b ^ k * b) = b ^ k * (n div b ^ k mod b) + n mod b ^ k"
    and "m mod (b ^ k * b) = b ^ k * (m div b ^ k mod b) + m mod b ^ k"
    by (rule mod_mult2_eq)+
  with Suc show ?case by (simp add: mult.commute)
qed simp

lemma to_le_bytes_inj: "to_le_bytes v = to_le_bytes w \<Longrightarrow> v = w"
proof -
  assume eq: "to_le_bytes v = to_le_bytes w"
  have "unat v div 256 ^ i mod 256 = unat w div 256 ^ i mod 256" if "i < 8" for i
  proof -
    have "char_of (unat v div 256 ^ i mod 256) = (char_of (unat w div 256 ^ i mod 256) :: char)"
      using eq that unfolding to_le_bytes_def by (simp only: map_eq_conv) simp
    then have "of_char (char_of (unat v div 256 ^ i mod 256)) = (of_char (char_of (unat w div 256 ^ i mod 256)) :: nat)"
      by simp
    then show ?thesis by (simp add: of_char_of)
  qed
  then have "unat v mod 256 ^ 8 = unat w mod 256 ^ 8" by (rule digits_determine)
  moreover have "unat v < 256 ^ 8" "unat w < 256 ^ 8"
    using unat_less_exp [of v] unat_less_exp [of w] by simp_all
  ultimately show "v = w" by (simp add: word_unat_eq_iff)
qed

lemma length_to_le_bytes [simp]: "length (to_le_bytes w) = 8"
  by (simp add: to_le_bytes_def)

text \<open>The frame of one field is self-delimiting.\<close>

lemma feed_append_inj:
  assumes "length v < 2 ^ 64" and "length w < 2 ^ 64"
  shows "feed key v @ r = feed key w @ s \<longleftrightarrow> v = w \<and> r = s"
proof
  assume "feed key v @ r = feed key w @ s"
  then have eq: "to_le_bytes (as_u64 (length v)) @ v @ CHR 0x00 # r = to_le_bytes (as_u64 (length w)) @ w @ CHR 0x00 # s"
    by (simp add: feed_def)
  then have "to_le_bytes (as_u64 (length v)) = to_le_bytes (as_u64 (length w))"
    by (simp add: append_eq_append_conv)
  then have "length v = length w"
    using to_le_bytes_inj unat_as_u64 assms by metis
  with eq show "v = w \<and> r = s"
    by (simp add: append_eq_append_conv)
qed simp

lemma bool_flag_inj [simp]: "bool_flag a = bool_flag b \<longleftrightarrow> a = b"
  and length_bool_flag: "length (bool_flag a) < 2 ^ 64"
  by (auto simp: bool_flag_def)

lemma feed_inj: "length v < 2 ^ 64 \<Longrightarrow> length w < 2 ^ 64 \<Longrightarrow> feed key v = feed key w \<longleftrightarrow> v = w"
  using feed_append_inj [of v w key "[]" "[]"] by simp

lemma digest_preimage_inj:
  assumes "inputs_fit i" and "inputs_fit j" and "digest_preimage i = digest_preimage j"
  shows "i = j"
proof -
  have fit: "length (di_codex_upstream_commit x) < 2 ^ 64" "length (di_enhanced_codex_commit x) < 2 ^ 64"
    "length (di_qwen_source_commit x) < 2 ^ 64" "length (di_deepseek_source_commit x) < 2 ^ 64"
    "length (di_build_profile x) < 2 ^ 64" "length (di_target_triple x) < 2 ^ 64"
    "length (di_artifact_sha256 x) < 2 ^ 64" if "inputs_fit x" for x
    using that unfolding inputs_fit_def by simp_all
  note small = fit [OF assms(1)] fit [OF assms(2)] length_bool_flag
  from assms(3) show ?thesis
    unfolding digest_preimage_def
    by (simp only: feed_append_inj [OF small(1) small(8)] feed_append_inj [OF small(2) small(9)]
        feed_append_inj [OF small(3) small(10)] feed_append_inj [OF small(4) small(11)]
        feed_append_inj [OF length_bool_flag length_bool_flag] feed_append_inj [OF small(5) small(12)]
        feed_append_inj [OF small(6) small(13)] feed_inj [OF small(7) small(14)] bool_flag_inj) simp
qed

section \<open>Properties\<close>

text \<open>
  Two installs with the same runtime digest are the same install, or their hashed byte strings
  are a SHA-256 collision: the framing of the fields is injective.
\<close>

theorem runtime_digest_identifies_install:
  assumes "inputs_fit i" and "inputs_fit j"
    and "compute_runtime_digest sha i = Inr d" and "compute_runtime_digest sha j = Inr d" and "i \<noteq> j"
  shows "digest_preimage i \<noteq> digest_preimage j \<and> sha (digest_preimage i) = sha (digest_preimage j)"
proof -
  have "digest_preimage i \<noteq> digest_preimage j"
    using digest_preimage_inj assms(1,2,5) by blast
  then show ?thesis
    using assms(3,4) by (auto simp: compute_runtime_digest_def split: sum.splits)
qed

theorem runtime_digest_identifies_install_witness:
  "let j = sample_inputs\<lparr>di_build_profile := ''other''\<rparr>
   in digest_preimage sample_inputs \<noteq> digest_preimage j"
proof -
  let ?j = "sample_inputs\<lparr>di_build_profile := ''other''\<rparr>"
  have hex: "is_ascii_hexdigit c" if "c \<in> {CHR ''a'', CHR ''b'', CHR ''c'', CHR ''d'', CHR ''f''}" for c
    using that by (auto simp: is_ascii_hexdigit_def byte_val_def)
  have ok: "validate_inputs sample_inputs = Inr ()" "validate_inputs ?j = Inr ()"
    unfolding validate_inputs_ok
    by (simp_all add: sample_inputs_def is_pinned_git_sha_def is_sha256_digest_def strip_prefix_def starts_with_def
        list_all_iff hex trim_ascii_head byte_val_def is_whitespace_def)
  have "inputs_fit sample_inputs" "inputs_fit ?j"
    by (simp_all add: inputs_fit_def sample_inputs_def)
  moreover have "sample_inputs \<noteq> ?j" by (simp add: sample_inputs_def)
  ultimately show ?thesis
    using runtime_digest_identifies_install [of sample_inputs ?j "\<lambda>_. ''x''" "''sha256:x''"]
    by (simp add: compute_runtime_digest_def ok)
qed

text \<open>
  A digest is computed exactly for a complete identity: four pinned commits, a build profile and
  a target that are not blank, and a SHA-256 artifact digest.
\<close>

theorem runtime_digest_iff_complete:
  "(\<exists>d. compute_runtime_digest sha i = Inr d) \<longleftrightarrow>
     list_all is_pinned_git_sha [di_codex_upstream_commit i, di_enhanced_codex_commit i,
       di_qwen_source_commit i, di_deepseek_source_commit i] \<and>
     trim (di_build_profile i) \<noteq> [] \<and> trim (di_target_triple i) \<noteq> [] \<and>
     is_sha256_digest (di_artifact_sha256 i)"
  unfolding validate_inputs_ok [symmetric]
  by (auto simp: compute_runtime_digest_def split: sum.splits)

end
