(* ===== verification/Lockfile.thy ===== *)
theory Lockfile
  imports Digest "HOL-Library.List_Lexorder" "HOL-Library.Char_ord"
begin

text \<open>
  The lock file that pins an enhanced runtime (\<open>crates/vellum-enhanced-codex/src/lockfile.rs\<close>).
  \<open>parse\<close> starts with the derived JSON decoder: it is the parameter \<open>from_slice\<close>, \<open>Inl\<close> holding the
  message of its error. \<open>artifacts\<close> is a \<open>BTreeMap\<close> from target triples, a sorted association list.
\<close>

section \<open>Data\<close>

definition LOCKFILE_SCHEMA_VERSION :: u32 where
  "LOCKFILE_SCHEMA_VERSION = 2"

definition BUILD_PROFILE_ENHANCED_MVP_V1 :: string where
  "BUILD_PROFILE_ENHANCED_MVP_V1 = ''enhanced-mvp-v1''"

definition CODEX_UPSTREAM_COMMIT :: string where
  "CODEX_UPSTREAM_COMMIT = ''83086188ae0614bd882818ff1aa23f3194962012''"

definition QWEN_CODE_SOURCE_COMMIT :: string where
  "QWEN_CODE_SOURCE_COMMIT = ''2b8f73c1e9cf8b355ec46c4623398c27b458b076''"

definition DEEPSEEK_HARNESS_SOURCE_COMMIT :: string where
  "DEEPSEEK_HARNESS_SOURCE_COMMIT = ''dd6322d604e00eec1ba5e0c8541159906a21094a''"

record enhanced_runtime_artifact =
  era_artifact_sha256 :: string

record enhanced_runtime_lock_file =
  schema_version :: u32
  codex_upstream_commit :: string
  enhanced_codex_commit :: "string option"
  qwen_code_source_commit :: string
  deepseek_harness_source_commit :: string
  build_profile :: string
  artifact_sha256 :: "string option"
  target_triple :: "string option"
  artifacts :: "(string \<times> enhanced_runtime_artifact) list"

datatype lock_file_error =
    Json string
  | UnsupportedSchema u32
  | EmptyField string
  | FloatingRevision string string
  | InvalidDigest string string

section \<open>Operations\<close>

definition mvp_pins :: enhanced_runtime_lock_file where
  "mvp_pins =
     \<lparr>schema_version = LOCKFILE_SCHEMA_VERSION, codex_upstream_commit = CODEX_UPSTREAM_COMMIT,
      enhanced_codex_commit = None, qwen_code_source_commit = QWEN_CODE_SOURCE_COMMIT,
      deepseek_harness_source_commit = DEEPSEEK_HARNESS_SOURCE_COMMIT,
      build_profile = BUILD_PROFILE_ENHANCED_MVP_V1, artifact_sha256 = None, target_triple = None,
      artifacts = []\<rparr>"

definition require_git_sha :: "string \<Rightarrow> string \<Rightarrow> lock_file_error + unit" where
  "require_git_sha field v =
     (if trim v = [] then Inl (EmptyField field)
      else if v \<in> {''main'', ''master'', ''latest''} \<or> starts_with v ''unreleased'' \<or> \<not> is_pinned_git_sha v
      then Inl (FloatingRevision field v)
      else Inr ())"

text \<open>The loops of \<open>validate\<close>: the first offending field or artifact decides the error.\<close>

fun require_all :: "(string \<times> string) list \<Rightarrow> lock_file_error + unit" where
  "require_all [] = Inr ()"
| "require_all ((name, v) # rest) =
     (case require_git_sha name v of Inl e \<Rightarrow> Inl e | Inr _ \<Rightarrow> require_all rest)"

fun check_artifacts :: "enhanced_runtime_artifact list \<Rightarrow> lock_file_error + unit" where
  "check_artifacts [] = Inr ()"
| "check_artifacts (a # rest) =
     (if \<not> is_sha256_digest (era_artifact_sha256 a)
      then Inl (InvalidDigest ''artifacts.*.artifactSha256'' (era_artifact_sha256 a))
      else check_artifacts rest)"

definition validate_lock :: "enhanced_runtime_lock_file \<Rightarrow> lock_file_error + unit" where
  "validate_lock l =
     (if schema_version l \<notin> {1, LOCKFILE_SCHEMA_VERSION} then Inl (UnsupportedSchema (schema_version l))
      else case require_all
          [(''codexUpstreamCommit'', codex_upstream_commit l),
           (''qwenCodeSourceCommit'', qwen_code_source_commit l),
           (''deepseekHarnessSourceCommit'', deepseek_harness_source_commit l)] of
        Inl e \<Rightarrow> Inl e
      | Inr _ \<Rightarrow>
          (case (case enhanced_codex_commit l of
                   Some commit \<Rightarrow>
                     if trim commit \<noteq> [] then require_git_sha ''enhancedCodexCommit'' commit else Inr ()
                 | None \<Rightarrow> Inr ()) of
             Inl e \<Rightarrow> Inl e
           | Inr _ \<Rightarrow>
               if trim (build_profile l) = [] \<or> build_profile l \<in> {''main'', ''master'', ''latest''}
               then Inl (FloatingRevision ''buildProfile'' (build_profile l))
               else
                 (case artifact_sha256 l of
                    Some artifact \<Rightarrow>
                      if trim artifact \<noteq> [] \<and> \<not> is_sha256_digest artifact
                      then Inl (InvalidDigest ''artifactSha256'' artifact)
                      else check_artifacts (map snd (artifacts l))
                  | None \<Rightarrow> check_artifacts (map snd (artifacts l)))))"

definition parse_lock ::
  "(string \<Rightarrow> string + enhanced_runtime_lock_file) \<Rightarrow> string \<Rightarrow> lock_file_error + enhanced_runtime_lock_file"
where
  "parse_lock from_slice bytes =
     (case from_slice bytes of
        Inl e \<Rightarrow> Inl (Json e)
      | Inr l \<Rightarrow> (case validate_lock l of Inl e \<Rightarrow> Inl e | Inr _ \<Rightarrow> Inr l))"

definition artifact_for_target :: "enhanced_runtime_lock_file \<Rightarrow> string \<Rightarrow> string option" where
  "artifact_for_target l target =
     (case bt_get (artifacts l) target of
        Some a \<Rightarrow> Some (era_artifact_sha256 a)
      | None \<Rightarrow>
          if artifacts l = [] \<and> target_triple l = Some target then artifact_sha256 l else None)"

definition identity_complete_for_target :: "enhanced_runtime_lock_file \<Rightarrow> string \<Rightarrow> bool" where
  "identity_complete_for_target l target \<longleftrightarrow>
     (case enhanced_codex_commit l of Some v \<Rightarrow> is_pinned_git_sha v | None \<Rightarrow> False) \<and>
     (case artifact_for_target l target of Some v \<Rightarrow> is_sha256_digest v | None \<Rightarrow> False)"

definition identity_complete :: "enhanced_runtime_lock_file \<Rightarrow> bool" where
  "identity_complete l \<longleftrightarrow>
     (case enhanced_codex_commit l of Some v \<Rightarrow> is_pinned_git_sha v | None \<Rightarrow> False) \<and>
     (case artifact_sha256 l of Some v \<Rightarrow> is_sha256_digest v | None \<Rightarrow> False) \<and>
     (case target_triple l of Some v \<Rightarrow> trim v \<noteq> [] | None \<Rightarrow> False)"

definition non_empty :: "string option \<Rightarrow> string option" where
  "non_empty v = (case v of Some s \<Rightarrow> if s \<noteq> [] then Some s else None | None \<Rightarrow> None)"

definition digest_inputs ::
  "enhanced_runtime_lock_file \<Rightarrow> enhanced_runtime_features \<Rightarrow> string \<Rightarrow> digest_error + digest_inputs_t"
where
  "digest_inputs l feature_defaults target =
     (case non_empty (enhanced_codex_commit l) of
        None \<Rightarrow> Inl (Incomplete ''enhancedCodexCommit'')
      | Some enhanced \<Rightarrow>
          (case non_empty (artifact_for_target l target) of
             None \<Rightarrow> Inl (Incomplete ''artifactSha256'')
           | Some artifact \<Rightarrow>
               (let inputs =
                  \<lparr>di_codex_upstream_commit = codex_upstream_commit l, di_enhanced_codex_commit = enhanced,
                   di_qwen_source_commit = qwen_code_source_commit l,
                   di_deepseek_source_commit = deepseek_harness_source_commit l,
                   di_feature_defaults = feature_defaults, di_build_profile = build_profile l,
                   di_target_triple = target, di_artifact_sha256 = artifact\<rparr>
                in case validate_inputs inputs of Inl e \<Rightarrow> Inl e | Inr _ \<Rightarrow> Inr inputs)))"

definition runtime_digest ::
  "(string \<Rightarrow> string) \<Rightarrow> enhanced_runtime_lock_file \<Rightarrow> enhanced_runtime_features \<Rightarrow> string \<Rightarrow> digest_error + string"
where
  "runtime_digest sha l feature_defaults target =
     (case digest_inputs l feature_defaults target of
        Inl e \<Rightarrow> Inl e
      | Inr inputs \<Rightarrow> compute_runtime_digest sha inputs)"

section \<open>Lemmas\<close>

lemma hex_not_word:
  assumes "is_pinned_git_sha v"
  shows "v \<notin> {''main'', ''master'', ''latest''}" and "\<not> starts_with v ''unreleased''"
proof -
  show "v \<notin> {''main'', ''master'', ''latest''}"
    using assms by (auto simp: is_pinned_git_sha_def)
  show "\<not> starts_with v ''unreleased''"
  proof
    assume "starts_with v ''unreleased''"
    then have "set ''unreleased'' \<subseteq> set v"
      unfolding starts_with_def by (metis set_take_subset)
    then have "CHR ''u'' \<in> set v" by simp
    then have "is_ascii_hexdigit (CHR ''u'')"
      using assms by (auto simp: is_pinned_git_sha_def list_all_iff)
    then show False by (simp add: is_ascii_hexdigit_def is_ascii_digit_def byte_val_def)
  qed
qed

lemma require_git_sha_ok: "require_git_sha field v = Inr () \<longleftrightarrow> is_pinned_git_sha v"
  using hex_not_word [of v] trim_git_sha [of v] by (auto simp: require_git_sha_def)

lemma require_all_ok: "require_all fs = Inr () \<longleftrightarrow> list_all (\<lambda>(n, v). is_pinned_git_sha v) fs"
proof (induction fs rule: require_all.induct)
  case (2 name v rest)
  then show ?case
    using require_git_sha_ok [of name v] by (cases "require_git_sha name v") auto
qed simp

lemma check_artifacts_ok: "check_artifacts as = Inr () \<longleftrightarrow> list_all (\<lambda>a. is_sha256_digest (era_artifact_sha256 a)) as"
  by (induction as) auto

lemma case_unit_sum: "(case x of Inl e \<Rightarrow> Inl e | Inr _ \<Rightarrow> y) = Inr u \<longleftrightarrow> x = Inr () \<and> y = Inr u"
  by (cases x) auto

lemma validate_lock_ok:
  "validate_lock l = Inr () \<longleftrightarrow>
     schema_version l \<in> {1, LOCKFILE_SCHEMA_VERSION} \<and>
     list_all is_pinned_git_sha [codex_upstream_commit l, qwen_code_source_commit l, deepseek_harness_source_commit l] \<and>
     pred_option (\<lambda>c. trim c = [] \<or> is_pinned_git_sha c) (enhanced_codex_commit l) \<and>
     trim (build_profile l) \<noteq> [] \<and> build_profile l \<notin> {''main'', ''master'', ''latest''} \<and>
     pred_option (\<lambda>a. trim a = [] \<or> is_sha256_digest a) (artifact_sha256 l) \<and>
     list_all (\<lambda>(t, a). is_sha256_digest (era_artifact_sha256 a)) (artifacts l)"
proof -
  have arts: "check_artifacts (map snd (artifacts l)) = Inr () \<longleftrightarrow>
    list_all (\<lambda>(t, a). is_sha256_digest (era_artifact_sha256 a)) (artifacts l)"
    by (auto simp: check_artifacts_ok list_all_iff)
  show ?thesis
    unfolding validate_lock_def
    by (auto simp: case_unit_sum require_all_ok require_git_sha_ok arts split: option.split simp del: require_all.simps)
qed


lemma validate_lock_digest:
  assumes "validate_lock l = Inr ()"
  shows "(\<exists>i. digest_inputs l f target = Inr i) \<longleftrightarrow>
    identity_complete_for_target l target \<and> trim target \<noteq> []"
proof -
  let ?i = "\<lambda>enhanced artifact. \<lparr>di_codex_upstream_commit = codex_upstream_commit l, di_enhanced_codex_commit = enhanced,
    di_qwen_source_commit = qwen_code_source_commit l, di_deepseek_source_commit = deepseek_harness_source_commit l,
    di_feature_defaults = f, di_build_profile = build_profile l, di_target_triple = target, di_artifact_sha256 = artifact\<rparr>"
  have ok: "validate_inputs (?i e a) = Inr () \<longleftrightarrow> is_pinned_git_sha e \<and> is_sha256_digest a \<and> trim target \<noteq> []" for e a
    using assms unfolding validate_lock_ok validate_inputs_ok by auto
  have ne: "is_pinned_git_sha e \<Longrightarrow> e \<noteq> []" "is_sha256_digest a \<Longrightarrow> a \<noteq> []" for e a
    by (auto simp: is_pinned_git_sha_def is_sha256_digest_def strip_prefix_def starts_with_def)
  show ?thesis
  proof (cases "enhanced_codex_commit l")
    case None
    then show ?thesis by (simp add: digest_inputs_def non_empty_def identity_complete_for_target_def)
  next
    case (Some e)
    then show ?thesis
      using ok [of e] ne by (cases "artifact_for_target l target")
        (auto simp: digest_inputs_def non_empty_def identity_complete_for_target_def case_unit_sum Let_def
          split: if_splits sum.splits)
  qed
qed

lemma digest_inputs_valid: "digest_inputs l f target = Inr i \<Longrightarrow> validate_inputs i = Inr ()"
  by (auto simp: digest_inputs_def Let_def split: option.splits sum.splits)

section \<open>Properties\<close>

text \<open>
  A lock file is accepted exactly when its schema is known and nothing in it floats: the three
  source commits are full commit ids, a given build commit is one too, the build profile is neither
  blank nor a branch name, and every artifact is a SHA-256 digest.
\<close>

theorem accepted_lock_is_pinned:
  "(\<exists>l'. parse_lock from_slice bytes = Inr l') \<longleftrightarrow>
     (\<exists>l. from_slice bytes = Inr l \<and>
        schema_version l \<in> {1, LOCKFILE_SCHEMA_VERSION} \<and>
        list_all is_pinned_git_sha [codex_upstream_commit l, qwen_code_source_commit l, deepseek_harness_source_commit l] \<and>
        pred_option (\<lambda>c. trim c = [] \<or> is_pinned_git_sha c) (enhanced_codex_commit l) \<and>
        trim (build_profile l) \<noteq> [] \<and> build_profile l \<notin> {''main'', ''master'', ''latest''} \<and>
        pred_option (\<lambda>a. trim a = [] \<or> is_sha256_digest a) (artifact_sha256 l) \<and>
        list_all (\<lambda>(t, a). is_sha256_digest (era_artifact_sha256 a)) (artifacts l))"
proof -
  have "(\<exists>l'. parse_lock from_slice bytes = Inr l') \<longleftrightarrow>
    (\<exists>l. from_slice bytes = Inr l \<and> validate_lock l = Inr ())"
    by (auto simp: parse_lock_def split: sum.split)
  then show ?thesis by (simp add: validate_lock_ok)
qed

text \<open>
  For an accepted lock file the completeness test decides the digest: a runtime digest exists for
  a target exactly when the identity is complete for that target and the target is not blank.
\<close>

theorem digest_exists_iff_identity_complete:
  assumes "parse_lock from_slice bytes = Inr l"
  shows "(\<exists>d. runtime_digest sha l f target = Inr d) \<longleftrightarrow>
    identity_complete_for_target l target \<and> trim target \<noteq> []"
proof -
  have "validate_lock l = Inr ()"
    using assms by (auto simp: parse_lock_def split: sum.splits)
  moreover have "(\<exists>d. runtime_digest sha l f target = Inr d) \<longleftrightarrow> (\<exists>i. digest_inputs l f target = Inr i)"
    by (auto simp: runtime_digest_def compute_runtime_digest_def digest_inputs_valid split: sum.splits)
  ultimately show ?thesis by (simp add: validate_lock_digest)
qed

lemma mvp_pins_valid: "validate_lock mvp_pins = Inr ()"
proof -
  have "trim BUILD_PROFILE_ENHANCED_MVP_V1 \<noteq> []"
    using trim_ascii_head [of "CHR ''e''"] by (simp add: BUILD_PROFILE_ENHANCED_MVP_V1_def byte_val_def is_whitespace_def)
  then show ?thesis
    unfolding validate_lock_ok
    by (simp add: mvp_pins_def CODEX_UPSTREAM_COMMIT_def QWEN_CODE_SOURCE_COMMIT_def
        DEEPSEEK_HARNESS_SOURCE_COMMIT_def BUILD_PROFILE_ENHANCED_MVP_V1_def is_pinned_git_sha_def
        is_ascii_hexdigit_def is_ascii_digit_def byte_val_def)
qed

theorem digest_exists_iff_identity_complete_witness:
  "\<not> (\<exists>d. runtime_digest (\<lambda>s. s) mvp_pins all_on ''x86_64-pc-windows-msvc'' = Inr d)"
proof -
  have "parse_lock (\<lambda>_. Inr mvp_pins) [] = Inr mvp_pins"
    by (simp add: parse_lock_def mvp_pins_valid)
  from digest_exists_iff_identity_complete [OF this] show ?thesis
    by (simp add: identity_complete_for_target_def mvp_pins_def)
qed

end
