(* ===== verification/Bounded_Continuation.thy ===== *)
theory Bounded_Continuation
  imports Telemetry
begin

text \<open>
  Bounded auto-continuation (\<open>crates/vellum-enhanced-codex/src/bounded_continuation.rs\<close>): a turn
  that stops with deterministic unfinished work may be continued, at most \<open>max\<close> times per user
  input. A continuation is first reserved (\<open>plan_turn_stop\<close>), then committed when the model stream
  starts or released when it does not.

  The mutable budget is passed explicitly: an operation returns its result and the new budget.
\<close>

section \<open>Data\<close>

definition MAX_AUTO_CONTINUATIONS :: u8 where
  "MAX_AUTO_CONTINUATIONS = 2"

datatype unfinished_signal =
    NativePlanIncomplete | NativeSubagentWorkRemaining | StructuredPendingWork | IntentToContinue

record auto_continuation_budget =
  used :: u8
  budget_max :: u8
  reserved :: "u8 option"

definition default_budget :: auto_continuation_budget where
  "default_budget = \<lparr>used = 0, budget_max = MAX_AUTO_CONTINUATIONS, reserved = None\<rparr>"

definition reset_for_user_input :: "auto_continuation_budget \<Rightarrow> auto_continuation_budget" where
  "reset_for_user_input b = b\<lparr>used := 0, reserved := None\<rparr>"

definition reserved_index :: "auto_continuation_budget \<Rightarrow> u8 option" where
  "reserved_index b = reserved b"

record reserved_continuation =
  rc_index :: u8

record turn_stop_context =
  cancelled :: bool
  user_steer_pending :: bool
  unfinished :: "unfinished_signal list"
  intent_continuation_enabled :: bool
  natural_stop :: bool
  assistant_final_text :: "string option"

datatype continuation_decision =
    AllowStop | Continue u8 | StopCancelled | StopUserSteer | StopBudgetExhausted

record continuation_plan =
  cp_decision :: continuation_decision
  cp_reservation :: "reserved_continuation option"
  cp_events :: "enhanced_event list"

datatype continuation_commit_error = NoReservation

definition CONTINUE_NUDGE :: string where
  "CONTINUE_NUDGE =
     ''Continue the unfinished deterministic work. Do not wait for a new user message.''"

section \<open>The trailing-intent detector\<close>

definition is_quoted :: "string \<Rightarrow> bool" where
  "is_quoted text =
     (let bytes = map byte_val (trim text)
      in 2 \<le> length bytes \<and>
         ((hd bytes = 34 \<and> last bytes = 34) \<or> (hd bytes = 39 \<and> last bytes = 39)))"

text \<open>
  The loop over \<open>char_indices\<close>: \<open>index\<close> is the byte offset of the next character, \<open>start\<close> the
  offset after the last sentence end that is followed by more text.
\<close>

fun sentence_start :: "nat \<Rightarrow> string list \<Rightarrow> nat \<Rightarrow> nat" where
  "sentence_start index [] start = start"
| "sentence_start index (character # rest) start =
     sentence_start (index + length character) rest
       (if character \<in> {''.'', ''!'', ''?''} \<and> trim (concat rest) \<noteq> []
        then index + length character else start)"

definition last_line_of :: "string \<Rightarrow> string" where
  "last_line_of trimmed =
     trim (case find (\<lambda>line. trim line \<noteq> []) (rev (lines trimmed)) of Some l \<Rightarrow> l | None \<Rightarrow> [])"

definition last_unquoted_sentence :: "string \<Rightarrow> string" where
  "last_unquoted_sentence text =
     (let trimmed = trim text in
      if trimmed = [] then []
      else let last_line = last_line_of trimmed in
        if is_quoted last_line then []
        else trim (drop (sentence_start 0 (chars last_line) 0) last_line))"

definition normalize_sentence :: "string \<Rightarrow> string" where
  "normalize_sentence text =
     to_ascii_lowercase
       (join_with '' ''
         (split_whitespace
           (drop_end_while (\<lambda>c. c \<in> {CHR ''.'', CHR ''!'', CHR '',''}) (trim text))))"

definition continue_phrases :: "string list" where
  "continue_phrases =
     [''i will continue immediately'', ''i'' @ [CHR 39] @ ''ll continue immediately'',
      ''i will continue now'', ''i'' @ [CHR 39] @ ''ll continue now'',
      ''let me continue immediately'', ''continuing immediately'']"

definition trailing_intent_to_continue :: "string \<Rightarrow> bool" where
  "trailing_intent_to_continue text =
     (let lst = last_unquoted_sentence text in
      if lst = [] \<or> 80 < length lst then False
      else normalize_sentence lst \<in> set continue_phrases)"

section \<open>Planning, committing, releasing\<close>

definition intent_detected :: "turn_stop_context \<Rightarrow> bool" where
  "intent_detected ctx \<longleftrightarrow>
     intent_continuation_enabled ctx \<and> natural_stop ctx \<and>
     (case assistant_final_text ctx of None \<Rightarrow> False | Some t \<Rightarrow> trailing_intent_to_continue t)"

definition effective_unfinished :: "turn_stop_context \<Rightarrow> unfinished_signal list" where
  "effective_unfinished ctx =
     (let signals = filter (\<lambda>signal. signal \<noteq> NativeSubagentWorkRemaining) (unfinished ctx)
      in if intent_detected ctx \<and> IntentToContinue \<notin> set signals
         then signals @ [IntentToContinue] else signals)"

definition consumed :: "auto_continuation_budget \<Rightarrow> u8" where
  "consumed b = max (used b) (case reserved b of None \<Rightarrow> 0 | Some r \<Rightarrow> r)"

definition plan_turn_stop ::
  "turn_stop_context \<Rightarrow> auto_continuation_budget \<Rightarrow> continuation_plan \<times> auto_continuation_budget"
where
  "plan_turn_stop ctx b =
     (if cancelled ctx then
        (\<lparr>cp_decision = StopCancelled, cp_reservation = None, cp_events = []\<rparr>, b\<lparr>reserved := None\<rparr>)
      else if user_steer_pending ctx then
        (\<lparr>cp_decision = StopUserSteer, cp_reservation = None, cp_events = []\<rparr>, reset_for_user_input b)
      else if effective_unfinished ctx = [] then
        (\<lparr>cp_decision = AllowStop, cp_reservation = None, cp_events = []\<rparr>, b)
      else if budget_max b \<le> consumed b then
        (\<lparr>cp_decision = StopBudgetExhausted, cp_reservation = None,
          cp_events = [new_event ContinuationExhausted
                         (no_fields\<lparr>f_continuation_index := Some (consumed b)\<rparr>)]\<rparr>, b)
      else
        (let index = saturating_add (consumed b) 1;
             intent_events =
               (if intent_detected ctx
                then [new_event IntentContinuationDetected
                        (no_fields\<lparr>f_continuation_index := Some index,
                                   f_observation_reason := Some ''trailing_continue_immediately''\<rparr>)]
                else [])
         in (\<lparr>cp_decision = Continue index, cp_reservation = Some \<lparr>rc_index = index\<rparr>,
               cp_events = intent_events @
                 [new_event ContinuationAllowed (no_fields\<lparr>f_continuation_index := Some index\<rparr>)]\<rparr>,
             b\<lparr>reserved := Some index\<rparr>)))"

definition commit_continuation ::
  "reserved_continuation \<Rightarrow> auto_continuation_budget \<Rightarrow>
     (continuation_commit_error + unit) \<times> auto_continuation_budget"
where
  "commit_continuation r b =
     (if reserved b \<noteq> Some (rc_index r) then (Inl NoReservation, b)
      else (Inr (), b\<lparr>used := rc_index r, reserved := None\<rparr>))"

definition release_continuation :: "auto_continuation_budget \<Rightarrow> auto_continuation_budget" where
  "release_continuation b = b\<lparr>reserved := None\<rparr>"

section \<open>Runs of budget operations\<close>

text \<open>
  The operations a turn loop performs on a budget. \<open>commits\<close> counts the continuations that really
  started, that is the commits that returned \<open>Ok\<close>.
\<close>

datatype budget_op =
    UserInput
  | PlanStop turn_stop_context
  | Commit reserved_continuation
  | Release

fun budget_step :: "budget_op \<Rightarrow> auto_continuation_budget \<Rightarrow> auto_continuation_budget" where
  "budget_step UserInput b = reset_for_user_input b"
| "budget_step (PlanStop ctx) b = snd (plan_turn_stop ctx b)"
| "budget_step (Commit r) b = snd (commit_continuation r b)"
| "budget_step Release b = release_continuation b"

fun committed :: "budget_op \<Rightarrow> auto_continuation_budget \<Rightarrow> bool" where
  "committed (Commit r) b = (fst (commit_continuation r b) = Inr ())"
| "committed _ b = False"

abbreviation commits :: "budget_op list \<Rightarrow> auto_continuation_budget \<Rightarrow> nat" where
  "commits \<equiv> count_events committed budget_step"

text \<open>An operation that starts a new user turn: new input, or a stop with a pending user steer.\<close>

fun resets :: "budget_op \<Rightarrow> bool" where
  "resets UserInput = True"
| "resets (PlanStop ctx) = (\<not> cancelled ctx \<and> user_steer_pending ctx)"
| "resets _ = False"

fun is_plan :: "budget_op \<Rightarrow> bool" where
  "is_plan (PlanStop _) = True"
| "is_plan _ = False"

definition budget_inv :: "auto_continuation_budget \<Rightarrow> bool" where
  "budget_inv b \<longleftrightarrow>
     used b \<le> budget_max b \<and>
     (case reserved b of None \<Rightarrow> True | Some r \<Rightarrow> used b < r \<and> r \<le> budget_max b)"

section \<open>Lemmas\<close>

lemma budget_inv_default: "budget_inv default_budget"
  by (simp add: budget_inv_def default_budget_def)

lemma saturating_succ_bounds:
  fixes c m :: u8
  assumes "c < m"
  shows "c < saturating_add c 1" and "saturating_add c 1 \<le> m"
proof -
  have "unat c < unat m" and "unat m < 256"
    using assms unat_less_exp [of m] by (simp_all add: word_less_nat_alt)
  moreover have "unat (saturating_add c 1) = min 255 (unat c + 1)"
    using unat_saturating_add [of c 1] by simp
  ultimately show "c < saturating_add c 1" and "saturating_add c 1 \<le> m"
    by (simp_all add: word_less_nat_alt word_le_nat_alt)
qed

lemma budget_max_step [simp]: "budget_max (budget_step op b) = budget_max b"
  by (cases op)
    (simp_all add: reset_for_user_input_def plan_turn_stop_def commit_continuation_def
      release_continuation_def Let_def)

lemma plan_budget_inv:
  assumes "budget_inv b"
  shows "budget_inv (snd (plan_turn_stop ctx b))"
proof (cases "consumed b < budget_max b")
  case True
  have "used b \<le> consumed b"
    by (simp add: consumed_def)
  then have "used b < saturating_add (consumed b) 1"
    using saturating_succ_bounds(1) [OF True] by (rule le_less_trans)
  with assms saturating_succ_bounds(2) [OF True] show ?thesis
    by (auto simp: plan_turn_stop_def budget_inv_def reset_for_user_input_def Let_def split: option.splits)
next
  case False
  with assms show ?thesis
    by (auto simp: plan_turn_stop_def budget_inv_def reset_for_user_input_def not_less split: option.splits)
qed

lemma budget_step_inv: "budget_inv b \<Longrightarrow> budget_inv (budget_step op b)"
proof (cases op)
  case (PlanStop ctx)
  assume "budget_inv b"
  then show ?thesis
    by (simp add: PlanStop plan_budget_inv)
qed (auto simp: budget_inv_def reset_for_user_input_def commit_continuation_def
       release_continuation_def split: option.splits)

text \<open>
  Under the invariant the distance to the maximum is the number of continuations left: an operation
  that starts no new user turn spends at least what it commits.
\<close>

lemma budget_step_spends:
  assumes "budget_inv b" and "\<not> resets op"
  shows "of_bool (committed op b) + (unat (budget_max b) - unat (used (budget_step op b)))
           \<le> unat (budget_max b) - unat (used b)"
proof (cases op)
  case (Commit r)
  with assms(1) show ?thesis
    by (auto simp: commit_continuation_def budget_inv_def word_less_nat_alt word_le_nat_alt
        split: option.splits)
next
  case (PlanStop ctx)
  with assms(2) show ?thesis
    by (auto simp: plan_turn_stop_def Let_def)
next
  case UserInput
  with assms(2) show ?thesis by simp
next
  case Release
  then show ?thesis by (simp add: release_continuation_def)
qed

interpretation budget: credit_system budget_step budget_inv committed "\<lambda>op b. resets op"
  "\<lambda>b. unat (budget_max b) - unat (used b)"
  by unfold_locales (rule budget_step_inv, assumption, use budget_step_spends in simp)


lemma effective_unfinished_nonempty:
  "effective_unfinished ctx \<noteq> [] \<longleftrightarrow>
     (\<exists>s \<in> set (unfinished ctx). s \<noteq> NativeSubagentWorkRemaining) \<or> intent_detected ctx"
  by (auto simp: effective_unfinished_def Let_def filter_empty_conv)

lemma budget_max_run [simp]: "budget_max (fold budget_step ops b) = budget_max b"
  by (induction ops arbitrary: b) simp_all

lemma commits_from_default:
  assumes "list_all (\<lambda>op. \<not> resets op) ops"
  shows "commits ops (fold budget_step before default_budget) \<le> 2"
proof -
  let ?b = "fold budget_step before default_budget"
  have "budget_inv ?b" by (rule budget.run_invar) (rule budget_inv_default)
  then have "commits ops ?b \<le> unat (budget_max ?b) - unat (used ?b)"
    by (rule budget.events_bound) (simp add: count_events_static assms)
  also have "\<dots> \<le> 2" by (simp add: default_budget_def MAX_AUTO_CONTINUATIONS_def)
  finally show ?thesis .
qed

lemma commits_without_plan:
  assumes "list_all (\<lambda>op. \<not> is_plan op) before" and "list_all (\<lambda>op. \<not> is_plan op) ops"
  shows "commits ops (fold budget_step before default_budget) = 0"
proof -
  have step: "reserved (budget_step op b) = None" if "reserved b = None" "\<not> is_plan op" for op b
    using that by (cases op)
      (simp_all add: reset_for_user_input_def commit_continuation_def release_continuation_def)
  have run: "reserved b = None \<Longrightarrow> list_all (\<lambda>op. \<not> is_plan op) xs \<Longrightarrow> reserved (fold budget_step xs b) = None" for xs b
    by (induction xs arbitrary: b) (simp_all add: step)
  have "reserved b = None \<Longrightarrow> list_all (\<lambda>op. \<not> is_plan op) xs \<Longrightarrow> commits xs b = 0" for xs b
  proof (induction xs arbitrary: b)
    case (Cons op xs)
    then show ?case by (cases op) (simp_all add: step commit_continuation_def del: budget_step.simps)
  qed simp
  with assms show ?thesis by (simp add: run default_budget_def)
qed

section \<open>Properties\<close>

text \<open>
  Whatever happened before, between two operations that start a new user turn at most two
  automatic continuations are started.
\<close>

theorem at_most_two_continuations:
  assumes "list_all (\<lambda>op. \<not> resets op) ops"
  shows "commits ops (fold budget_step before default_budget) \<le> 2"
  using assms by (rule commits_from_default)

theorem at_most_two_continuations_witness:
  "let ctx = \<lparr>cancelled = False, user_steer_pending = False, unfinished = [NativePlanIncomplete],
        intent_continuation_enabled = False, natural_stop = True, assistant_final_text = None\<rparr>;
       ops = [PlanStop ctx, Commit \<lparr>rc_index = 1\<rparr>, PlanStop ctx, Commit \<lparr>rc_index = 2\<rparr>,
              PlanStop ctx, Commit \<lparr>rc_index = 3\<rparr>]
   in list_all (\<lambda>op. \<not> resets op) ops \<and> commits ops (fold budget_step [UserInput] default_budget) \<le> 2"
  unfolding Let_def by (intro conjI at_most_two_continuations) simp_all

text \<open>
  A stopped turn is continued exactly when it was neither cancelled nor steered by the user, some
  signal of unfinished work other than native subagent work is present (or the closing sentence
  announces a continuation), and budget is left.
\<close>

theorem continuation_granted_iff:
  "(\<exists>i. cp_decision (fst (plan_turn_stop ctx b)) = Continue i) \<longleftrightarrow>
     \<not> cancelled ctx \<and> \<not> user_steer_pending ctx \<and>
     ((\<exists>s \<in> set (unfinished ctx). s \<noteq> NativeSubagentWorkRemaining) \<or> intent_detected ctx) \<and>
     consumed b < budget_max b"
  by (auto simp: plan_turn_stop_def Let_def effective_unfinished_nonempty [symmetric])

text \<open>
  The reservation protocol. A reservation can be committed once, which spends the budget up to
  its index; a released reservation costs nothing and can no longer be committed.
\<close>

theorem reservation_protocol:
  assumes "budget_inv b" and "plan_turn_stop ctx b = (p, b')" and "cp_reservation p = Some r"
  shows "cp_decision p = Continue (rc_index r) \<and>
    used b < rc_index r \<and> rc_index r \<le> budget_max b \<and>
    fst (commit_continuation r b') = Inr () \<and>
    used (snd (commit_continuation r b')) = rc_index r \<and>
    fst (commit_continuation r (snd (commit_continuation r b'))) = Inl NoReservation \<and>
    used (release_continuation b') = used b \<and>
    fst (commit_continuation r (release_continuation b')) = Inl NoReservation"
proof -
  have c: "consumed b < budget_max b" and r: "rc_index r = saturating_add (consumed b) 1"
    and d: "cp_decision p = Continue (rc_index r)" and b': "b' = b\<lparr>reserved := Some (rc_index r)\<rparr>"
    using assms(2,3) by (auto simp: plan_turn_stop_def Let_def split: if_splits)
  have "used b \<le> consumed b" by (simp add: consumed_def)
  also have "consumed b < rc_index r" using saturating_succ_bounds(1) [OF c] r by simp
  finally show ?thesis
    using saturating_succ_bounds(2) [OF c] d
    by (simp add: b' r [symmetric] commit_continuation_def release_continuation_def)
qed

theorem reservation_protocol_witness:
  "let ctx = \<lparr>cancelled = False, user_steer_pending = False, unfinished = [StructuredPendingWork],
        intent_continuation_enabled = False, natural_stop = False, assistant_final_text = None\<rparr>;
       (p, b') = plan_turn_stop ctx default_budget;
       r = \<lparr>rc_index = 1\<rparr>
   in cp_reservation p = Some r \<and> fst (commit_continuation r b') = Inr () \<and>
      used (snd (commit_continuation r b')) = 1"
proof -
  let ?ctx = "\<lparr>cancelled = False, user_steer_pending = False, unfinished = [StructuredPendingWork],
        intent_continuation_enabled = False, natural_stop = False, assistant_final_text = None\<rparr>"
  let ?r = "\<lparr>rc_index = (1 :: u8)\<rparr>"
  obtain p b' where plan: "plan_turn_stop ?ctx default_budget = (p, b')" by fastforce
  then have "cp_reservation p = Some ?r"
    by (auto simp: plan_turn_stop_def effective_unfinished_def intent_detected_def default_budget_def
        consumed_def MAX_AUTO_CONTINUATIONS_def saturating_add_def Let_def)
  with reservation_protocol [OF budget_inv_default plan this] show ?thesis
    by (simp add: plan)
qed

text \<open>
  A closing line in quotation marks never counts as an announced continuation, whatever it says.
\<close>

theorem quoted_line_is_no_intent:
  assumes "is_quoted (last_line_of (trim final_text))"
  shows "\<not> trailing_intent_to_continue final_text"
  using assms by (simp add: trailing_intent_to_continue_def last_unquoted_sentence_def Let_def)

theorem quoted_line_is_no_intent_witness:
  "let final_text = [CHR 34] @ ''I will continue now.'' @ [CHR 34]
   in \<not> trailing_intent_to_continue final_text \<and> trailing_intent_to_continue ''I will continue now.''"
proof -
  have "is_quoted (last_line_of (trim ([CHR 34] @ ''I will continue now.'' @ [CHR 34])))"
    by code_simp
  moreover have "trailing_intent_to_continue ''I will continue now.''"
    by code_simp
  ultimately show ?thesis
    unfolding Let_def using quoted_line_is_no_intent by blast
qed

end
