(* ===== verification/F64.thy ===== *)
theory F64
  imports Prelude
begin

text \<open>
  The part of Rust's \<open>f64\<close> (IEEE 754 binary64, round to nearest, ties to even) that the modelled code
  computes with: the conversion from \<open>u64\<close>, multiplication, \<open>floor\<close> and the saturating conversion
  back to \<open>u64\<close>. A finite value is a sign, a significand and a binary exponent, \<open>m * 2 ^ e\<close>.
\<close>

datatype f64 = F64_NaN | F64_Inf bool | F64_Fin bool nat int

fun bit_len :: "nat \<Rightarrow> nat" where
  "bit_len n = (if n = 0 then 0 else Suc (bit_len (n div 2)))"

declare bit_len.simps [simp del]

text \<open>Drop the low \<open>k\<close> bits of a significand, rounding to nearest and ties to even.\<close>

definition round_shift :: "nat \<Rightarrow> nat \<Rightarrow> nat" where
  "round_shift m k =
     (let q = m div 2 ^ k; r = m mod 2 ^ k
      in if 2 ^ k < 2 * r \<or> (2 ^ k = 2 * r \<and> odd q) then q + 1 else q)"

definition f64_pack :: "bool \<Rightarrow> nat \<Rightarrow> int \<Rightarrow> f64" where
  "f64_pack s m e =
     (if m \<noteq> 0 \<and> 1024 < int (bit_len m) + e then F64_Inf s else F64_Fin s m e)"

text \<open>Round an exact result to 53 significant bits, or fewer near the smallest exponent.\<close>

definition f64_round :: "bool \<Rightarrow> nat \<Rightarrow> int \<Rightarrow> f64" where
  "f64_round s m e =
     (let k = max (int (bit_len m) - 53) (- 1074 - e)
      in if k \<le> 0 then f64_pack s m e else f64_pack s (round_shift m (nat k)) (e + k))"

definition f64_of_u64 :: "u64 \<Rightarrow> f64" where
  "f64_of_u64 n = f64_round False (unat n) 0"

fun f64_mul :: "f64 \<Rightarrow> f64 \<Rightarrow> f64" where
  "f64_mul F64_NaN _ = F64_NaN"
| "f64_mul _ F64_NaN = F64_NaN"
| "f64_mul (F64_Inf s) (F64_Inf t) = F64_Inf (s \<noteq> t)"
| "f64_mul (F64_Inf s) (F64_Fin t m e) = (if m = 0 then F64_NaN else F64_Inf (s \<noteq> t))"
| "f64_mul (F64_Fin t m e) (F64_Inf s) = (if m = 0 then F64_NaN else F64_Inf (s \<noteq> t))"
| "f64_mul (F64_Fin s m e) (F64_Fin t n f) = f64_round (s \<noteq> t) (m * n) (e + f)"

text \<open>\<open>f64::floor\<close>: the greatest integral value not above the argument.\<close>

fun f64_floor :: "f64 \<Rightarrow> f64" where
  "f64_floor F64_NaN = F64_NaN"
| "f64_floor (F64_Inf s) = F64_Inf s"
| "f64_floor (F64_Fin s m e) =
     (if 0 \<le> e then F64_Fin s m e
      else let q = m div 2 ^ nat (- e); r = m mod 2 ^ nat (- e)
           in F64_Fin s (if s \<and> r \<noteq> 0 then q + 1 else q) 0)"

text \<open>\<open>x as u64\<close>: truncation towards zero, saturating at both ends, and 0 for NaN.\<close>

fun f64_to_u64 :: "f64 \<Rightarrow> u64" where
  "f64_to_u64 F64_NaN = 0"
| "f64_to_u64 (F64_Inf s) = (if s then 0 else - 1)"
| "f64_to_u64 (F64_Fin s m e) =
     (if s then 0
      else let v = (if 0 \<le> e then m * 2 ^ nat e else m div 2 ^ nat (- e))
           in if v < 2 ^ 64 then word_of_nat v else - 1)"

section \<open>Lemmas\<close>

lemma bit_len_less: "n < 2 ^ bit_len n"
proof (induction n rule: bit_len.induct)
  case (1 n)
  show ?case
  proof (cases "n = 0")
    case True
    then show ?thesis by (simp add: bit_len.simps)
  next
    case False
    with 1 have "n div 2 < 2 ^ bit_len (n div 2)" by simp
    then have "n < 2 * 2 ^ bit_len (n div 2)" by linarith
    with False show ?thesis by (simp add: bit_len.simps [of n])
  qed
qed

lemma bit_len_le: "n < 2 ^ k \<Longrightarrow> bit_len n \<le> k"
proof (induction k arbitrary: n)
  case 0
  then show ?case by (simp add: bit_len.simps)
next
  case (Suc k)
  then have "n div 2 < 2 ^ k" by simp
  then have "bit_len (n div 2) \<le> k" by (rule Suc.IH)
  then show ?case by (simp add: bit_len.simps [of n])
qed

text \<open>Integers of at most 53 bits convert exactly.\<close>

lemma f64_of_u64_exact: "unat n < 2 ^ 53 \<Longrightarrow> f64_of_u64 n = F64_Fin False (unat n) 0"
proof -
  assume "unat n < 2 ^ 53"
  then have "bit_len (unat n) \<le> 53" by (rule bit_len_le)
  then show ?thesis
    by (simp add: f64_of_u64_def f64_round_def f64_pack_def)
qed

end
