(* ===== verification/Context_Pruner.thy ===== *)
theory Context_Pruner
  imports Telemetry F64
begin

text \<open>
  The deterministic tool-result pruner (\<open>crates/vellum-enhanced-codex/src/context_pruner.rs\<close>): under
  context pressure every long tool result keeps its head and its tail, with one marker in place of
  what is left out.
\<close>

section \<open>Data\<close>

record tool_result_prune_policy =
  trigger_ratio :: f64
  min_text_bytes :: nat
  keep_head_bytes :: nat
  keep_tail_bytes :: nat

text \<open>The double nearest to 0.85 is \<open>7656119366529843 * 2 ^ -53\<close>.\<close>

definition default_prune_policy :: tool_result_prune_policy where
  "default_prune_policy = \<lparr>trigger_ratio = F64_Fin False 7656119366529843 (- 53),
     min_text_bytes = 2000, keep_head_bytes = 400, keep_tail_bytes = 800\<rparr>"

record content_block =
  block_kind :: string
  block_text :: "string option"

datatype surface_item =
    User string
  | System string
  | Developer string
  | Assistant string
  | ToolCall string string string string
  | ToolResult string string string "content_block list"
  | Control string string

record model_visible_surface =
  items :: "surface_item list"
  generation :: u64
  item_token_estimates :: "u64 option list"

record prune_outcome =
  po_surface :: model_visible_surface
  rewritten :: bool
  bytes_removed :: u64
  before_token_estimate :: u64
  after_token_estimate :: u64
  po_events :: "enhanced_event list"

section \<open>Measuring a surface\<close>

definition text_len :: "content_block \<Rightarrow> nat" where
  "text_len b = (case block_text b of None \<Rightarrow> 0 | Some t \<Rightarrow> length t)"

fun item_bytes :: "surface_item \<Rightarrow> nat" where
  "item_bytes (User text) = length text"
| "item_bytes (System text) = length text"
| "item_bytes (Developer text) = length text"
| "item_bytes (Assistant text) = length text"
| "item_bytes (ToolCall call_id tool_name tool_type arguments) =
     length call_id + length tool_name + length tool_type + length arguments"
| "item_bytes (ToolResult call_id tool_name tool_type blocks) =
     length call_id + length tool_name + length tool_type + sum_list (map text_len blocks)"
| "item_bytes (Control key v) = length key + length v"

text \<open>\<open>(bytes as u64).div_ceil(4)\<close>\<close>

definition div_ceil4 :: "u64 \<Rightarrow> u64" where
  "div_ceil4 w = (if w mod 4 = 0 then w div 4 else w div 4 + 1)"

definition item_tokens :: "model_visible_surface \<Rightarrow> nat \<Rightarrow> surface_item \<Rightarrow> u64" where
  "item_tokens s index item =
     (case (if index < length (item_token_estimates s) then item_token_estimates s ! index else None) of
        Some t \<Rightarrow> t
      | None \<Rightarrow> div_ceil4 (as_u64 (item_bytes item)))"

definition estimated_tokens :: "model_visible_surface \<Rightarrow> u64" where
  "estimated_tokens s =
     fold (\<lambda>t acc. saturating_add acc t)
       (map (\<lambda>(index, item). item_tokens s index item) (List.enumerate 0 (items s))) 0"

definition byte_count :: "model_visible_surface \<Rightarrow> nat" where
  "byte_count s = sum_list (map item_bytes (items s))"

fun call_id_of :: "surface_item \<Rightarrow> string option" where
  "call_id_of (ToolCall call_id _ _ _) = Some call_id"
| "call_id_of _ = None"

fun result_id_of :: "surface_item \<Rightarrow> string option" where
  "result_id_of (ToolResult call_id _ _ _) = Some call_id"
| "result_id_of _ = None"

definition tool_pairs_intact :: "model_visible_surface \<Rightarrow> bool" where
  "tool_pairs_intact s \<longleftrightarrow>
     List.map_filter call_id_of (items s) = List.map_filter result_id_of (items s)"

section \<open>Pruning one tool result\<close>

text \<open>
  The cursor over the bytes of all text blocks, whether the marker has been written, and the bytes
  kept so far. \<open>head_end\<close>, \<open>tail_start\<close> and \<open>marker\<close> are the values of the enclosing function.
\<close>

record prune_cursor =
  cursor :: nat
  marker_inserted :: bool
  kept_bytes :: nat

fun prune_chars :: "nat \<Rightarrow> nat \<Rightarrow> string \<Rightarrow> string list \<Rightarrow> string \<Rightarrow> prune_cursor \<Rightarrow> string \<times> prune_cursor" where
  "prune_chars head_end tail_start marker [] kept c = (kept, c)"
| "prune_chars head_end tail_start marker (character # rest) kept c =
     (let width = length character in
      if cursor c < head_end \<or> tail_start \<le> cursor c then
        prune_chars head_end tail_start marker rest (kept @ character)
          (c\<lparr>kept_bytes := kept_bytes c + width, cursor := cursor c + width\<rparr>)
      else if \<not> marker_inserted c then
        prune_chars head_end tail_start marker rest (kept @ marker)
          (c\<lparr>marker_inserted := True, cursor := cursor c + width\<rparr>)
      else
        prune_chars head_end tail_start marker rest kept (c\<lparr>cursor := cursor c + width\<rparr>))"

fun prune_block_loop ::
  "nat \<Rightarrow> nat \<Rightarrow> string \<Rightarrow> content_block list \<Rightarrow> prune_cursor \<Rightarrow> content_block list \<times> prune_cursor"
where
  "prune_block_loop head_end tail_start marker [] c = ([], c)"
| "prune_block_loop head_end tail_start marker (block # rest) c =
     (case block_text block of
        None \<Rightarrow>
          (let (rest', c') = prune_block_loop head_end tail_start marker rest c
           in (block # rest', c'))
      | Some text \<Rightarrow>
          (let (kept, c1) = prune_chars head_end tail_start marker (chars text) [] c;
               (rest', c2) = prune_block_loop head_end tail_start marker rest c1
           in (block\<lparr>block_text := Some kept\<rparr> # rest', c2)))"

definition omitted_marker :: "nat \<Rightarrow> string" where
  "omitted_marker omitted = [CHR 10] @ ''[... omitted '' @ show_nat omitted @ '' bytes ...]'' @ [CHR 10]"

definition prune_blocks ::
  "tool_result_prune_policy \<Rightarrow> content_block list \<Rightarrow> content_block list \<times> u64"
where
  "prune_blocks policy blocks =
     (let total_bytes = sum_list (map text_len blocks) in
      if total_bytes < min_text_bytes policy then (blocks, 0)
      else let keep = usize_saturating_add (keep_head_bytes policy) (keep_tail_bytes policy) in
        if total_bytes \<le> keep then (blocks, 0)
        else
          let head_end = keep_head_bytes policy;
              tail_start = total_bytes - keep_tail_bytes policy;
              omitted = tail_start - head_end;
              marker = omitted_marker omitted;
              (blocks', c) = prune_block_loop head_end tail_start marker blocks
                               \<lparr>cursor = 0, marker_inserted = False, kept_bytes = 0\<rparr>
          in (blocks', as_u64 (total_bytes - kept_bytes c)))"

section \<open>Pruning a surface\<close>

text \<open>The loop over the items; a tool result that lost bytes is marked as rewritten.\<close>

fun prune_item :: "tool_result_prune_policy \<Rightarrow> surface_item \<Rightarrow> surface_item \<times> bool" where
  "prune_item policy (ToolResult call_id tool_name tool_type blocks) =
     (let (blocks', removed) = prune_blocks policy blocks
      in (ToolResult call_id tool_name tool_type blocks', 0 < removed))"
| "prune_item policy item = (item, False)"

text \<open>The host estimate of a rewritten item is dropped.\<close>

definition clear_estimates :: "bool list \<Rightarrow> u64 option list \<Rightarrow> u64 option list" where
  "clear_estimates rewritten_items estimates =
     map (\<lambda>(index, e). if index < length rewritten_items \<and> rewritten_items ! index then None else e)
       (List.enumerate 0 estimates)"

definition prune_items :: "tool_result_prune_policy \<Rightarrow> model_visible_surface \<Rightarrow> model_visible_surface" where
  "prune_items policy s =
     (let pruned = map (prune_item policy) (items s)
      in s\<lparr>items := map fst pruned,
           item_token_estimates := clear_estimates (map snd pruned) (item_token_estimates s)\<rparr>)"

definition prune_trigger :: "tool_result_prune_policy \<Rightarrow> u64 \<Rightarrow> u64" where
  "prune_trigger policy context_window_tokens =
     f64_to_u64 (f64_floor (f64_mul (f64_of_u64 context_window_tokens) (trigger_ratio policy)))"

definition apply_pressure_prune ::
  "model_visible_surface \<Rightarrow> tool_result_prune_policy \<Rightarrow> u64 \<Rightarrow> prune_outcome"
where
  "apply_pressure_prune surface policy context_window_tokens =
     (let before = estimated_tokens surface;
          trigger = prune_trigger policy context_window_tokens
      in if before < trigger then
           \<lparr>po_surface = surface, rewritten = False, bytes_removed = 0,
            before_token_estimate = before, after_token_estimate = before, po_events = []\<rparr>
         else
           let pruned = prune_items policy surface;
               removed = as_u64 (byte_count surface - byte_count pruned);
               nxt = pruned\<lparr>generation := saturating_add (generation surface) (if 0 < removed then 1 else 0)\<rparr>;
               after = estimated_tokens nxt
           in \<lparr>po_surface = nxt, rewritten = 0 < removed, bytes_removed = removed,
               before_token_estimate = before, after_token_estimate = after,
               po_events =
                 [new_event ContextPruneStarted (no_fields\<lparr>f_before_token_estimate := Some before\<rparr>),
                  new_event ContextPruneCompleted
                    (no_fields\<lparr>f_before_token_estimate := Some before,
                               f_after_token_estimate := Some after,
                               f_chars_removed := Some removed\<rparr>)]\<rparr>)"

section \<open>Reference description of the kept text\<close>

text \<open>The characters of all text blocks in order, and each with the byte offset it starts at.\<close>

definition text_of :: "content_block \<Rightarrow> string" where
  "text_of b = (case block_text b of None \<Rightarrow> [] | Some t \<Rightarrow> t)"

definition all_chars :: "content_block list \<Rightarrow> string list" where
  "all_chars blocks = concat (map (\<lambda>b. chars (text_of b)) blocks)"

fun at_offsets :: "nat \<Rightarrow> string list \<Rightarrow> (nat \<times> string) list" where
  "at_offsets k [] = []"
| "at_offsets k (ch # chs) = (k, ch) # at_offsets (k + length ch) chs"

definition chars_where :: "(nat \<Rightarrow> bool) \<Rightarrow> (nat \<times> string) list \<Rightarrow> string" where
  "chars_where P ocs = concat (map snd (filter (\<lambda>(k, _). P k) ocs))"

text \<open>
  What the result is meant to be: the characters that start before \<open>head_end\<close>, the marker if a
  character was left out, and the characters that start at or after \<open>tail_start\<close>.
\<close>

definition pruned_text :: "nat \<Rightarrow> nat \<Rightarrow> string \<Rightarrow> string list \<Rightarrow> string" where
  "pruned_text head_end tail_start marker chs =
     (let ocs = at_offsets 0 chs
      in chars_where (\<lambda>k. k < head_end) ocs
         @ (if list_ex (\<lambda>(k, _). head_end \<le> k \<and> k < tail_start) ocs then marker else [])
         @ chars_where (\<lambda>k. tail_start \<le> k) ocs)"

abbreviation total_text :: "content_block list \<Rightarrow> nat" where
  "total_text blocks \<equiv> sum_list (map text_len blocks)"

text \<open>The two early returns of \<open>prune_blocks\<close> are not taken.\<close>

definition prunes :: "tool_result_prune_policy \<Rightarrow> content_block list \<Rightarrow> bool" where
  "prunes policy blocks \<longleftrightarrow>
     min_text_bytes policy \<le> total_text blocks \<and>
     keep_head_bytes policy + keep_tail_bytes policy < total_text blocks"

definition tail_start_of :: "tool_result_prune_policy \<Rightarrow> content_block list \<Rightarrow> nat" where
  "tail_start_of policy blocks = total_text blocks - keep_tail_bytes policy"

definition marker_of :: "tool_result_prune_policy \<Rightarrow> content_block list \<Rightarrow> string" where
  "marker_of policy blocks = omitted_marker (tail_start_of policy blocks - keep_head_bytes policy)"

definition start_cursor :: prune_cursor where
  "start_cursor = \<lparr>cursor = 0, marker_inserted = False, kept_bytes = 0\<rparr>"

text \<open>The parts of an item the pruner may not touch.\<close>

fun item_shape :: "surface_item \<Rightarrow> surface_item" where
  "item_shape (ToolResult call_id tool_name tool_type blocks) =
     ToolResult call_id tool_name tool_type
       (map (\<lambda>b. b\<lparr>block_text := map_option (\<lambda>_. []) (block_text b)\<rparr>) blocks)"
| "item_shape item = item"

definition long_blocks :: "content_block list" where
  "long_blocks = [\<lparr>block_kind = ''text'', block_text = Some (replicate 2500 (CHR ''x''))\<rparr>]"

text \<open>A surface with one long tool result, at which the properties are instantiated.\<close>

definition long_surface :: model_visible_surface where
  "long_surface = \<lparr>items = [ToolCall ''c1'' ''read'' ''function'' ''{}'',
      ToolResult ''c1'' ''read'' ''function''
        long_blocks],
    generation = 3, item_token_estimates = []\<rparr>"

text \<open>A policy that leaves out less than the marker takes, and a surface it applies to.\<close>

definition tight_policy :: tool_result_prune_policy where
  "tight_policy = \<lparr>trigger_ratio = F64_Fin False 0 0, min_text_bytes = 2, keep_head_bytes = 2, keep_tail_bytes = 2\<rparr>"

definition tight_surface :: model_visible_surface where
  "tight_surface = \<lparr>items = [ToolResult ''c'' ''t'' ''f'' [\<lparr>block_kind = ''text'', block_text = Some ''abcdef''\<rparr>]],
            generation = 0, item_token_estimates = []\<rparr>"

section \<open>Lemmas on the cursor loop\<close>

lemma chars_where_Nil [simp]: "chars_where P [] = []"
  and chars_where_Cons [simp]:
    "chars_where P ((k, ch) # ocs) = (if P k then ch else []) @ chars_where P ocs"
  by (simp_all add: chars_where_def)

lemma at_offsets_ge: "(j, ch) \<in> set (at_offsets k chs) \<Longrightarrow> k \<le> j"
  by (induction k chs rule: at_offsets.induct) fastforce+

lemma chars_where_none: "(\<And>j ch. (j, ch) \<in> set ocs \<Longrightarrow> \<not> P j) \<Longrightarrow> chars_where P ocs = []"
  by (induction ocs) (auto simp: chars_where_def)

lemma prune_chars_kept:
  "prune_chars he ts m chs kept c =
     (kept @ fst (prune_chars he ts m chs [] c), snd (prune_chars he ts m chs [] c))"
proof (induction chs arbitrary: kept c)
  case Nil
  show ?case by simp
next
  case (Cons ch chs)
  show ?case
    by (simp only: prune_chars.simps Let_def append_Nil)
      (simp add: Cons.IH [of "kept @ _"] Cons.IH [of kept] Cons.IH [of ch] Cons.IH [of m])
qed

lemma prune_chars_append:
  "prune_chars he ts m (xs @ ys) [] c =
     (let (k1, c1) = prune_chars he ts m xs [] c;
          (k2, c2) = prune_chars he ts m ys [] c1
      in (k1 @ k2, c2))"
proof (induction xs arbitrary: c)
  case Nil
  show ?case by (simp add: split_beta)
next
  case (Cons ch xs)
  show ?case
    by (simp add: Let_def prune_chars_kept [of he ts m _ ch] prune_chars_kept [of he ts m _ m]
        Cons.IH split_beta)
qed

lemma chars_where_ge_none:
  "b \<le> k \<Longrightarrow> chars_where (\<lambda>j. j < b) (at_offsets k chs) = []"
  by (rule chars_where_none) (auto dest: at_offsets_ge)

lemma list_ex_middle_none:
  "b \<le> k \<Longrightarrow> \<not> list_ex (\<lambda>(j, _). a \<le> j \<and> j < b) (at_offsets k chs)"
  by (auto simp: list_ex_iff dest: at_offsets_ge)

text \<open>The streaming loop computes the reference text.\<close>

lemma prune_chars_spec:
  assumes "he \<le> ts"
  shows "fst (prune_chars he ts m chs [] c) =
     chars_where (\<lambda>k. k < he) (at_offsets (cursor c) chs)
     @ (if \<not> marker_inserted c \<and> list_ex (\<lambda>(k, _). he \<le> k \<and> k < ts) (at_offsets (cursor c) chs)
        then m else [])
     @ chars_where (\<lambda>k. ts \<le> k) (at_offsets (cursor c) chs)"
proof (induction chs arbitrary: c)
  case Nil
  show ?case by simp
next
  case (Cons ch chs)
  consider (head) "cursor c < he" | (tail) "he \<le> cursor c" "ts \<le> cursor c"
    | (middle) "he \<le> cursor c" "cursor c < ts"
    by linarith
  then show ?case
  proof cases
    case head
    with assms show ?thesis
      by (simp add: Let_def prune_chars_kept [of he ts m _ ch] Cons.IH)
  next
    case tail
    then show ?thesis
      by (simp add: Let_def prune_chars_kept [of he ts m _ ch] Cons.IH chars_where_ge_none
          list_ex_middle_none)
  next
    case middle
    then show ?thesis
      by (simp add: Let_def prune_chars_kept [of he ts m _ m] Cons.IH chars_where_ge_none)
  qed
qed

lemma prune_chars_cursor:
  "cursor (snd (prune_chars he ts m chs [] c)) = cursor c + sum_list (map length chs)"
proof (induction chs arbitrary: c)
  case Nil
  show ?case by simp
next
  case (Cons ch chs)
  show ?case
    by (simp add: Let_def prune_chars_kept [of he ts m _ ch] prune_chars_kept [of he ts m _ m] Cons.IH)
qed

text \<open>\<open>kept_bytes\<close> counts what is kept of the original text, the marker not included.\<close>

lemma prune_chars_kept_bytes:
  assumes "he \<le> ts"
  shows "kept_bytes (snd (prune_chars he ts m chs [] c)) =
     kept_bytes c + length (chars_where (\<lambda>k. k < he) (at_offsets (cursor c) chs))
       + length (chars_where (\<lambda>k. ts \<le> k) (at_offsets (cursor c) chs))"
proof (induction chs arbitrary: c)
  case Nil
  show ?case by simp
next
  case (Cons ch chs)
  with assms show ?case
    by (simp add: Let_def prune_chars_kept [of he ts m _ ch] prune_chars_kept [of he ts m _ m]
        chars_where_ge_none)
qed

lemma prune_block_loop_texts:
  "fst (prune_chars he ts m (all_chars blocks) [] c) =
     concat (map text_of (fst (prune_block_loop he ts m blocks c)))"
  "snd (prune_chars he ts m (all_chars blocks) [] c) = snd (prune_block_loop he ts m blocks c)"
proof (induction blocks arbitrary: c)
  case Nil
  { case 1 show ?case by (simp add: all_chars_def) }
  { case 2 show ?case by (simp add: all_chars_def) }
next
  case (Cons b blocks)
  have all: "all_chars (b # blocks) = chars (text_of b) @ all_chars blocks"
    by (simp add: all_chars_def)
  { case 1 show ?case
      using Cons.IH by (cases "block_text b") (simp_all add: all prune_chars_append split_beta Let_def text_of_def) }
  { case 2 show ?case
      using Cons.IH by (cases "block_text b") (simp_all add: all prune_chars_append split_beta Let_def text_of_def) }
qed

lemma prune_block_loop_shape:
  "map (\<lambda>b. b\<lparr>block_text := map_option (\<lambda>_. []) (block_text b)\<rparr>) (fst (prune_block_loop he ts m blocks c)) =
   map (\<lambda>b. b\<lparr>block_text := map_option (\<lambda>_. []) (block_text b)\<rparr>) blocks"
proof (induction blocks arbitrary: c)
  case Nil
  show ?case by simp
next
  case (Cons b blocks)
  then show ?case
    by (cases "block_text b") (simp_all add: split_beta Let_def)
qed

lemma text_len_text_of: "text_len b = length (text_of b)"
  by (simp add: text_len_def text_of_def split: option.splits)

lemma sum_text_len: "sum_list (map text_len blocks) = length (concat (map text_of blocks))"
  by (induction blocks) (simp_all add: text_len_text_of)

lemma all_chars_length: "sum_list (map length (all_chars blocks)) = sum_list (map text_len blocks)"
  by (induction blocks) (simp_all add: all_chars_def sum_list_chars text_len_text_of)

lemma all_chars_width: "ch \<in> set (all_chars blocks) \<Longrightarrow> ch \<noteq> [] \<and> length ch \<le> 4"
proof -
  have width: "ch \<in> set (chars s) \<Longrightarrow> length ch \<le> 4" for s
    by (induction s rule: chars.induct) (auto simp: utf8_width_def split: if_splits)
  assume "ch \<in> set (all_chars blocks)"
  then show ?thesis
    by (auto simp: all_chars_def intro: width dest: chars_nonempty)
qed

text \<open>The head overruns its budget by at most three bytes, the tail never.\<close>

lemma head_bound:
  "\<forall>ch \<in> set chs. length ch \<le> 4 \<Longrightarrow> k < he \<Longrightarrow>
     length (chars_where (\<lambda>j. j < he) (at_offsets k chs)) \<le> he + 3 - k"
proof (induction k chs rule: at_offsets.induct)
  case (1 k)
  then show ?case by simp
next
  case (2 k ch chs)
  show ?case
  proof (cases "k + length ch < he")
    case True
    with 2 show ?thesis by fastforce
  next
    case False
    moreover have "length ch \<le> 4" and "k < he"
      using "2.prems" by simp_all
    ultimately show ?thesis by (simp add: chars_where_ge_none)
  qed
qed

lemma tail_bound:
  "length (chars_where (\<lambda>j. ts \<le> j) (at_offsets k chs)) \<le> k + sum_list (map length chs) - max ts k"
proof (induction k chs rule: at_offsets.induct)
  case (1 k)
  then show ?case by simp
next
  case (2 k ch chs)
  then show ?case by (auto simp: max_def split: if_splits)
qed

text \<open>What a loop that drops nothing leaves behind is the original text.\<close>

lemma prune_block_loop_unchanged:
  assumes "\<not> list_ex (\<lambda>(k, _). he \<le> k \<and> k < ts) (at_offsets (cursor c) (all_chars blocks))"
  shows "fst (prune_block_loop he ts m blocks c) = blocks"
proof -
  have all_kept: "fst (prune_chars he ts m chs kept c) = kept @ concat chs"
    if "\<not> list_ex (\<lambda>(k, _). he \<le> k \<and> k < ts) (at_offsets (cursor c) chs)" for chs kept c
    using that by (induction chs arbitrary: kept c) (auto simp: Let_def)
  have offsets_append: "at_offsets k (xs @ ys) = at_offsets k xs @ at_offsets (k + sum_list (map length xs)) ys"
    for k xs ys
    by (induction k xs rule: at_offsets.induct) (auto simp: add.assoc)
  show ?thesis
    using assms
  proof (induction blocks arbitrary: c)
    case Nil
    show ?case by simp
  next
    case (Cons b blocks)
    have all: "all_chars (b # blocks) = chars (text_of b) @ all_chars blocks"
      by (simp add: all_chars_def)
    show ?case
    proof (cases "block_text b")
      case None
      with Cons show ?thesis by (simp add: all text_of_def split_beta)
    next
      case (Some t)
      let ?c = "snd (prune_chars he ts m (chars t) [] c)"
      have "fst (prune_chars he ts m (chars t) [] c) = t"
        using Cons.prems all_kept [of c "chars t" "[]"]
        by (simp add: all Some text_of_def offsets_append)
      moreover have "fst (prune_block_loop he ts m blocks ?c) = blocks"
        using Cons.prems by (intro Cons.IH) (simp add: all Some text_of_def offsets_append prune_chars_cursor)
      ultimately show ?thesis
        using Some by (simp add: split_beta Let_def)
    qed
  qed
qed

section \<open>Lemmas on one tool result\<close>

lemma prune_blocks_not: "\<not> prunes policy blocks \<Longrightarrow> total_text blocks < 2 ^ 64 \<Longrightarrow> prune_blocks policy blocks = (blocks, 0)"
  by (auto simp: prunes_def prune_blocks_def usize_saturating_add_def Let_def)

lemma prune_blocks_loop:
  assumes "prunes policy blocks"
  shows "prune_blocks policy blocks =
    (let (blocks', c) = prune_block_loop (keep_head_bytes policy) (tail_start_of policy blocks)
                          (marker_of policy blocks) blocks start_cursor
     in (blocks', as_u64 (total_text blocks - kept_bytes c)))"
  using assms
  by (simp add: prunes_def prune_blocks_def usize_saturating_add_def Let_def tail_start_of_def
      marker_of_def start_cursor_def)

lemma prunes_head_tail: "prunes policy blocks \<Longrightarrow> keep_head_bytes policy < tail_start_of policy blocks"
  unfolding prunes_def tail_start_of_def by linarith

lemma prune_blocks_text:
  assumes "prunes policy blocks"
  shows "concat (map text_of (fst (prune_blocks policy blocks))) =
    pruned_text (keep_head_bytes policy) (tail_start_of policy blocks) (marker_of policy blocks)
      (all_chars blocks)"
  using prune_chars_spec [OF less_imp_le [OF prunes_head_tail [OF assms]], of "marker_of policy blocks"
      "all_chars blocks" start_cursor]
  by (simp add: prune_blocks_loop [OF assms] split_beta Let_def pruned_text_def start_cursor_def
      flip: prune_block_loop_texts(1))

lemma prune_blocks_length:
  assumes "prunes policy blocks"
  shows "total_text (fst (prune_blocks policy blocks)) \<le>
    keep_head_bytes policy + 3 + keep_tail_bytes policy + length (marker_of policy blocks)"
proof -
  let ?he = "keep_head_bytes policy" and ?ts = "tail_start_of policy blocks" and ?chs = "all_chars blocks"
  have "length (chars_where (\<lambda>j. j < ?he) (at_offsets 0 ?chs)) \<le> ?he + 3"
  proof (cases "0 < ?he")
    case True
    then show ?thesis
      using head_bound [of ?chs 0 ?he] all_chars_width by auto
  next
    case False
    then show ?thesis
      using chars_where_ge_none [of ?he 0 ?chs] by simp
  qed
  moreover have "length (chars_where (\<lambda>j. ?ts \<le> j) (at_offsets 0 ?chs)) \<le> keep_tail_bytes policy"
    using tail_bound [of ?ts 0 ?chs] assms by (simp add: all_chars_length tail_start_of_def)
  ultimately show ?thesis
    by (simp add: sum_text_len prune_blocks_text [OF assms] pruned_text_def Let_def)
qed

lemma prune_blocks_shape:
  "total_text blocks < 2 ^ 64 \<Longrightarrow>
     map (\<lambda>b. b\<lparr>block_text := map_option (\<lambda>_. []) (block_text b)\<rparr>) (fst (prune_blocks policy blocks)) =
     map (\<lambda>b. b\<lparr>block_text := map_option (\<lambda>_. []) (block_text b)\<rparr>) blocks"
  by (cases "prunes policy blocks")
    (simp_all add: prune_blocks_not prune_blocks_loop split_beta Let_def prune_block_loop_shape)

text \<open>A tool result that is reported as not rewritten is returned as it was.\<close>

lemma chars_where_all:
  "(\<And>ch. ch \<in> set chs \<Longrightarrow> ch \<noteq> []) \<Longrightarrow>
   length (chars_where (\<lambda>j. j < he) (at_offsets k chs)) + length (chars_where (\<lambda>j. ts \<le> j) (at_offsets k chs))
     = sum_list (map length chs) \<Longrightarrow> he \<le> ts \<Longrightarrow>
   \<not> list_ex (\<lambda>(j, _). he \<le> j \<and> j < ts) (at_offsets k chs)"
proof (induction k chs rule: at_offsets.induct)
  case (1 k)
  then show ?case by simp
next
  case (2 k ch chs)
  have le: "length (chars_where (\<lambda>j. j < he) (at_offsets j' xs)) + length (chars_where (\<lambda>j. ts \<le> j) (at_offsets j' xs))
     \<le> sum_list (map length xs)" for j' xs
    using \<open>he \<le> ts\<close> by (induction j' xs rule: at_offsets.induct) auto
  have "ch \<noteq> []" using "2.prems" by simp
  with 2 le [of "k + length ch" chs] show ?case
    by (auto split: if_splits)
qed

lemma prune_blocks_zero:
  assumes "snd (prune_blocks policy blocks) = 0" and small: "total_text blocks < 2 ^ 64"
  shows "fst (prune_blocks policy blocks) = blocks"
proof (cases "prunes policy blocks")
  case True
  let ?he = "keep_head_bytes policy" and ?ts = "tail_start_of policy blocks" and ?chs = "all_chars blocks"
  let ?c = "snd (prune_block_loop ?he ?ts (marker_of policy blocks) blocks start_cursor)"
  note le = less_imp_le [OF prunes_head_tail [OF True]]
  have kept: "kept_bytes ?c = length (chars_where (\<lambda>k. k < ?he) (at_offsets 0 ?chs))
      + length (chars_where (\<lambda>k. ?ts \<le> k) (at_offsets 0 ?chs))"
    using prune_chars_kept_bytes [OF le, of "marker_of policy blocks" ?chs start_cursor]
    by (simp add: prune_block_loop_texts(2) start_cursor_def)
  have "as_u64 (total_text blocks - kept_bytes ?c) = 0"
    using assms(1) by (simp add: prune_blocks_loop [OF True] split_beta Let_def)
  then have "total_text blocks \<le> kept_bytes ?c"
    using small unat_as_u64 [of "total_text blocks - kept_bytes ?c"] by simp
  moreover have "kept_bytes ?c \<le> total_text blocks"
  proof -
    have "length (chars_where (\<lambda>j. j < ?he) (at_offsets k xs)) + length (chars_where (\<lambda>j. ?ts \<le> j) (at_offsets k xs))
       \<le> sum_list (map length xs)" for k xs
      using le by (induction k xs rule: at_offsets.induct) auto
    from this [of 0 ?chs] show ?thesis by (simp add: kept all_chars_length)
  qed
  ultimately have "\<not> list_ex (\<lambda>(k, _). ?he \<le> k \<and> k < ?ts) (at_offsets 0 ?chs)"
    using le by (intro chars_where_all) (auto simp: kept all_chars_length dest: all_chars_width)
  then show ?thesis
    by (simp add: prune_blocks_loop [OF True] split_beta Let_def prune_block_loop_unchanged start_cursor_def)
next
  case False
  with small show ?thesis by (simp add: prune_blocks_not)
qed

section \<open>Lemmas on a surface\<close>

lemma length_show_nat: "n < 10 ^ k \<Longrightarrow> 0 < k \<Longrightarrow> length (show_nat n) \<le> k"
proof (induction n arbitrary: k rule: show_nat.induct)
  case (1 n)
  show ?case
  proof (cases "n < 10")
    case True
    with "1.prems" show ?thesis by (simp add: show_nat.simps [of n])
  next
    case False
    from "1.prems"(2) obtain j where k: "k = Suc j"
      by (cases k) simp_all
    with False "1.prems"(1) have "0 < j"
      by (cases j) simp_all
    with k have "n div 10 < 10 ^ j"
      using "1.prems"(1) k by (simp add: less_mult_imp_div_less mult.commute)
    with \<open>0 < j\<close> have "length (show_nat (n div 10)) \<le> j"
      using "1.IH" [OF False] by blast
    with False k show ?thesis by (simp add: show_nat.simps [of n])
  qed
qed

lemma length_omitted_marker: "n < 2 ^ 64 \<Longrightarrow> length (omitted_marker n) \<le> 46"
proof -
  assume "n < 2 ^ 64"
  then have "n < 10 ^ 20" by (rule less_trans) simp
  then have "length (show_nat n) \<le> 20" by (rule length_show_nat) simp
  then show ?thesis by (simp add: omitted_marker_def)
qed

lemma default_prune_shrinks:
  assumes "prunes default_prune_policy blocks" and "total_text blocks < 2 ^ 64"
  shows "total_text (fst (prune_blocks default_prune_policy blocks)) < total_text blocks"
proof -
  have "length (marker_of default_prune_policy blocks) \<le> 46"
    unfolding marker_of_def
    by (rule length_omitted_marker, rule le_less_trans [OF _ assms(2)]) (simp add: tail_start_of_def)
  moreover have "2000 \<le> total_text blocks"
    using assms(1) by (simp add: prunes_def default_prune_policy_def)
  ultimately show ?thesis
    using prune_blocks_length [OF assms(1)] by (simp add: default_prune_policy_def)
qed

lemma prune_item_shape: "item_bytes i < 2 ^ 64 \<Longrightarrow> item_shape (fst (prune_item policy i)) = item_shape i"
  by (cases i) (simp_all add: split_beta prune_blocks_shape)

lemma prune_item_ids [simp]:
  "call_id_of (fst (prune_item policy i)) = call_id_of i"
  "result_id_of (fst (prune_item policy i)) = result_id_of i"
  by (cases i; simp add: split_beta)+

lemma prune_item_unmarked:
  assumes "item_bytes i < 2 ^ 64" and "\<not> snd (prune_item policy i)"
  shows "fst (prune_item policy i) = i"
proof (cases i)
  case (ToolResult call_id tool_name tool_type blocks)
  then have "snd (prune_blocks policy blocks) = 0" and "total_text blocks < 2 ^ 64"
    using assms by (simp_all add: split_beta word_gt_0)
  then have "fst (prune_blocks policy blocks) = blocks"
    by (rule prune_blocks_zero)
  with ToolResult show ?thesis by (simp add: split_beta)
qed simp_all

lemma prune_item_default:
  assumes "item_bytes i < 2 ^ 64"
  shows "fst (prune_item default_prune_policy i) = i \<or>
         item_bytes (fst (prune_item default_prune_policy i)) < item_bytes i"
proof (cases i)
  case (ToolResult call_id tool_name tool_type blocks)
  then have small: "total_text blocks < 2 ^ 64" using assms by simp
  show ?thesis
  proof (cases "prunes default_prune_policy blocks")
    case True
    from default_prune_shrinks [OF this small] ToolResult show ?thesis by (simp add: split_beta)
  next
    case False
    then have "prune_blocks default_prune_policy blocks = (blocks, 0)"
      using small by (rule prune_blocks_not)
    with ToolResult show ?thesis by simp
  qed
qed simp_all

lemma item_bytes_le_byte_count: "i \<in> set (items s) \<Longrightarrow> item_bytes i \<le> byte_count s"
  by (simp add: byte_count_def member_le_sum_list)

lemma items_prune_items: "items (prune_items policy s) = map (\<lambda>i. fst (prune_item policy i)) (items s)"
  by (simp add: prune_items_def Let_def comp_def)

lemma sum_list_strict_or_equal:
  fixes g :: "'a \<Rightarrow> nat"
  assumes "\<And>x. x \<in> set xs \<Longrightarrow> h x = x \<or> g (h x) < g x"
  shows "map h xs = xs \<or> sum_list (map (\<lambda>x. g (h x)) xs) < sum_list (map g xs)"
  using assms
proof (induction xs)
  case Nil
  then show ?case by simp
next
  case (Cons x xs)
  then have IH: "map h xs = xs \<or> sum_list (map (\<lambda>x. g (h x)) xs) < sum_list (map g xs)" by simp
  then have "sum_list (map (\<lambda>x. g (h x)) xs) \<le> sum_list (map g xs)"
  proof
    assume "map h xs = xs"
    then have "map g (map h xs) = map g xs"
      by (rule arg_cong)
    then have "map (\<lambda>x. g (h x)) xs = map g xs"
      by (simp only: map_map comp_def)
    then show ?thesis by (simp only: order_refl)
  qed simp
  with Cons.prems [of x] IH show ?case
    by (auto simp del: map_map map_eq_conv)
qed

lemma default_prune_items:
  assumes "byte_count s < 2 ^ 64"
  shows "items (prune_items default_prune_policy s) = items s \<or>
         byte_count (prune_items default_prune_policy s) < byte_count s"
proof -
  have "fst (prune_item default_prune_policy i) = i \<or>
        item_bytes (fst (prune_item default_prune_policy i)) < item_bytes i" if "i \<in> set (items s)" for i
    using item_bytes_le_byte_count [OF that] assms by (intro prune_item_default) linarith
  then show ?thesis
    unfolding byte_count_def items_prune_items
    using sum_list_strict_or_equal [of "items s" "\<lambda>i. fst (prune_item default_prune_policy i)" item_bytes]
    by (simp add: comp_def)
qed

lemma less_saturating_succ: "a \<noteq> - 1 \<Longrightarrow> a < saturating_add a (1 :: 'a::len word)"
proof -
  assume "a \<noteq> - 1"
  then have "saturating_add a 1 \<noteq> a"
    by (auto simp: saturating_add_def)
  with le_saturating_add [of a 1] show ?thesis by simp
qed

lemma as_u64_pos: "n < 2 ^ 64 \<Longrightarrow> 0 < as_u64 n \<longleftrightarrow> 0 < n"
  by (metis bot_nat_0.not_eq_extremum unat_0 unat_as_u64 unat_gt_0 word_gt_0)

lemma unat_div_ceil4: "unat (div_ceil4 w) = (unat w + 3) div 4"
proof -
  have q: "unat (w div 4) = unat w div 4" and r: "unat (w mod 4) = unat w mod 4"
    by (simp_all add: unat_div unat_mod)
  have "unat w div 4 + 1 < 2 ^ 64"
    using unat_less_exp [of w] by simp
  then have "unat (w div 4 + 1) = unat w div 4 + 1"
    by (simp add: unat_word_ariths q)
  moreover have "w mod 4 = 0 \<longleftrightarrow> unat w mod 4 = 0"
    by (metis r unat_eq_0)
  moreover have "(n + 3) div 4 = (if n mod 4 = 0 then n div 4 else n div 4 + 1)" for n :: nat
    by presburger
  ultimately show ?thesis
    by (simp add: div_ceil4_def q)
qed

lemma div_ceil4_mono: "m \<le> n \<Longrightarrow> n < 2 ^ 64 \<Longrightarrow> div_ceil4 (as_u64 m) \<le> div_ceil4 (as_u64 n)"
  by (simp add: word_le_nat_alt unat_div_ceil4 unat_as_u64 div_le_mono)

lemma fold_saturating_mono:
  fixes a b :: u64
  shows "list_all2 (\<le>) xs ys \<Longrightarrow> a \<le> b \<Longrightarrow>
    fold (\<lambda>t acc. saturating_add acc t) xs a \<le> fold (\<lambda>t acc. saturating_add acc t) ys b"
proof (induction xs ys arbitrary: a b rule: list_all2_induct)
  case Nil
  then show ?case by simp
next
  case (Cons x xs y ys)
  then have "saturating_add a x \<le> saturating_add b y"
    by (simp add: word_le_nat_alt unat_saturating_add)
  then show ?case by (simp add: Cons.IH)
qed

lemma estimated_tokens_mono:
  assumes "length (items s) = length (items t)"
    and "\<And>i. i < length (items s) \<Longrightarrow> item_tokens s i (items s ! i) \<le> item_tokens t i (items t ! i)"
  shows "estimated_tokens s \<le> estimated_tokens t"
  unfolding estimated_tokens_def
  by (rule fold_saturating_mono) (use assms in \<open>auto simp: list_all2_conv_all_nth nth_enumerate_eq\<close>)

lemma estimates_prune_items:
  "i < length (items s) \<Longrightarrow> i < length (item_token_estimates s) \<Longrightarrow>
     item_token_estimates (prune_items policy s) ! i =
       (if snd (prune_item policy (items s ! i)) then None else item_token_estimates s ! i)"
  by (simp add: prune_items_def clear_estimates_def Let_def nth_enumerate_eq)

lemma length_estimates_prune_items [simp]:
  "length (item_token_estimates (prune_items policy s)) = length (item_token_estimates s)"
  by (simp add: prune_items_def clear_estimates_def Let_def)

text \<open>The host measures an item at no less than its bytes: what the comment on the field assumes.\<close>

lemma item_tokens_prune:
  assumes i: "i < length (items s)" and small: "byte_count s < 2 ^ 64"
    and host: "\<And>t. i < length (item_token_estimates s) \<Longrightarrow> item_token_estimates s ! i = Some t \<Longrightarrow>
       div_ceil4 (as_u64 (item_bytes (items s ! i))) \<le> t"
  shows "item_tokens (prune_items default_prune_policy s) i (items (prune_items default_prune_policy s) ! i)
       \<le> item_tokens s i (items s ! i)"
proof -
  let ?x = "items s ! i" and ?y = "fst (prune_item default_prune_policy (items s ! i))"
  have "item_bytes ?x \<le> byte_count s" using i by (intro item_bytes_le_byte_count) simp
  with small have x: "item_bytes ?x < 2 ^ 64" by linarith
  have "item_bytes ?y \<le> item_bytes ?x" using prune_item_default [OF x] by auto
  then have le: "div_ceil4 (as_u64 (item_bytes ?y)) \<le> div_ceil4 (as_u64 (item_bytes ?x))"
    using x by (rule div_ceil4_mono)
  have same: "\<not> snd (prune_item default_prune_policy ?x) \<Longrightarrow> ?y = ?x"
    using x by (rule prune_item_unmarked)
  show ?thesis
    using le same host order_trans [OF le]
    by (auto simp: item_tokens_def items_prune_items i estimates_prune_items split: option.splits)
qed

lemma item_tokens_generation [simp]: "item_tokens (s\<lparr>generation := g\<rparr>) = item_tokens s"
  by (simp add: item_tokens_def fun_eq_iff)

lemma estimated_tokens_generation [simp]: "estimated_tokens (s\<lparr>generation := g\<rparr>) = estimated_tokens s"
  by (simp add: estimated_tokens_def)

lemma byte_count_generation [simp]: "byte_count (s\<lparr>generation := g\<rparr>) = byte_count s"
  by (simp add: byte_count_def)

lemma apply_pressure_prune_cases:
  obtains (below) "po_surface (apply_pressure_prune s policy w) = s"
      "\<not> rewritten (apply_pressure_prune s policy w)"
    | (pruned) "items (po_surface (apply_pressure_prune s policy w)) = items (prune_items policy s)"
      "generation (po_surface (apply_pressure_prune s policy w)) = saturating_add (generation s)
          (if rewritten (apply_pressure_prune s policy w) then 1 else 0)"
      "rewritten (apply_pressure_prune s policy w) \<longleftrightarrow> 0 < as_u64 (byte_count s - byte_count (prune_items policy s))"
      "byte_count (po_surface (apply_pressure_prune s policy w)) = byte_count (prune_items policy s)"
  by (cases "estimated_tokens s < prune_trigger policy w") (simp_all add: apply_pressure_prune_def Let_def)

lemma total_text_long_blocks: "total_text long_blocks = 2500"
  by (simp add: long_blocks_def text_len_def)

lemma byte_count_long_surface: "byte_count long_surface = 2530"
  by (simp add: byte_count_def long_surface_def total_text_long_blocks)

lemma tight_trigger: "prune_trigger tight_policy 100 = 0"
    by (simp add: prune_trigger_def f64_of_u64_exact f64_round_def f64_pack_def bit_len.simps tight_policy_def)

lemma tight_chars: "chars ''abcdef'' = [''a'', ''b'', ''c'', ''d'', ''e'', ''f'']"
  by (simp add: utf8_width_def byte_val_def)

lemma tight_blocks:
  "fst (prune_blocks tight_policy [\<lparr>block_kind = ''text'', block_text = Some ''abcdef''\<rparr>]) =
   [\<lparr>block_kind = ''text'', block_text = Some (''ab'' @ omitted_marker 2 @ ''ef'')\<rparr>]"
proof -
  have "prunes tight_policy [\<lparr>block_kind = ''text'', block_text = Some ''abcdef''\<rparr>]"
    by (simp add: prunes_def tight_policy_def text_len_def)
  moreover have "keep_head_bytes tight_policy = 2"
    "tail_start_of tight_policy [\<lparr>block_kind = ''text'', block_text = Some ''abcdef''\<rparr>] = 4"
    by (simp_all add: tail_start_of_def tight_policy_def text_len_def)
  ultimately show ?thesis
    by (simp add: prune_blocks_loop marker_of_def split_beta tight_chars start_cursor_def Let_def del: chars.simps)
qed

lemma length_omitted_marker_2: "length (omitted_marker 2) = 27"
  by (simp add: omitted_marker_def show_nat.simps)

lemma tight_items: "items (prune_items tight_policy tight_surface) =
   [ToolResult ''c'' ''t'' ''f'' [\<lparr>block_kind = ''text'', block_text = Some (''ab'' @ omitted_marker 2 @ ''ef'')\<rparr>]]"
  by (simp add: items_prune_items tight_surface_def split_beta tight_blocks)

lemma default_prune_outcome:
  assumes "byte_count s < 2 ^ 64"
  shows "let r = apply_pressure_prune s default_prune_policy w in
    (rewritten r \<longleftrightarrow> items (po_surface r) \<noteq> items s) \<and>
    (rewritten r \<longrightarrow> byte_count (po_surface r) < byte_count s) \<and>
    (rewritten r \<longrightarrow> generation s \<noteq> - 1 \<longrightarrow> generation s < generation (po_surface r))"
proof (cases rule: apply_pressure_prune_cases [of s default_prune_policy w])
  case below
  then show ?thesis by (simp add: Let_def)
next
  case pruned
  let ?p = "prune_items default_prune_policy s" and ?r = "apply_pressure_prune s default_prune_policy w"
  have "byte_count s - byte_count ?p < 2 ^ 64" using assms by linarith
  then have rew: "rewritten ?r \<longleftrightarrow> byte_count ?p < byte_count s"
    using pruned(3) by (simp add: as_u64_pos)
  have "items ?p = items s \<Longrightarrow> byte_count ?p = byte_count s"
    by (simp add: byte_count_def)
  then have "rewritten ?r \<longleftrightarrow> items (po_surface ?r) \<noteq> items s"
    using pruned(1) rew default_prune_items [OF assms] by auto
  moreover have "rewritten ?r \<longrightarrow> byte_count (po_surface ?r) < byte_count s"
    using pruned(4) rew by simp
  moreover have "rewritten ?r \<longrightarrow> generation s \<noteq> - 1 \<longrightarrow> generation s < generation (po_surface ?r)"
    using pruned(2) by (auto intro: less_saturating_succ)
  ultimately show ?thesis by (simp add: Let_def)
qed

lemma default_prune_progress:
  "byte_count s < 2 ^ 64 \<Longrightarrow> rewritten (apply_pressure_prune s default_prune_policy w) \<Longrightarrow>
     byte_count (po_surface (apply_pressure_prune s default_prune_policy w)) < byte_count s \<and>
     (generation s \<noteq> - 1 \<longrightarrow>
      generation s < generation (po_surface (apply_pressure_prune s default_prune_policy w)))"
  using default_prune_outcome [of s w] by (simp add: Let_def)

lemma long_trigger: "prune_trigger default_prune_policy 500 = 425"
  by (simp add: prune_trigger_def f64_of_u64_exact f64_round_def f64_pack_def round_shift_def bit_len.simps
     default_prune_policy_def Let_def)

lemma long_estimate: "estimated_tokens long_surface = 633"
  by (simp add: estimated_tokens_def long_surface_def item_tokens_def total_text_long_blocks as_u64_def
   div_ceil4_def saturating_add_def)

lemma long_surface_rewritten: "rewritten (apply_pressure_prune long_surface default_prune_policy 500)"
proof -
  have "prunes default_prune_policy long_blocks"
    by (simp add: prunes_def total_text_long_blocks default_prune_policy_def)
  then have "total_text (fst (prune_blocks default_prune_policy long_blocks)) < total_text long_blocks"
    by (rule default_prune_shrinks) (simp add: total_text_long_blocks)
  then have "byte_count (prune_items default_prune_policy long_surface) < byte_count long_surface"
    by (simp add: byte_count_def items_prune_items long_surface_def split_beta)
  then show ?thesis
    by (simp add: apply_pressure_prune_def Let_def long_trigger long_estimate as_u64_pos byte_count_long_surface)
qed

section \<open>Properties\<close>

text \<open>
  C12: One pass of the byte cursor over the blocks of a tool result keeps exactly the characters that
  start before the head budget and those that start in the tail window, with a single marker where
  characters were left out, and leaves short results alone.
\<close>

theorem prune_blocks_reference:
  assumes "total_text blocks < 2 ^ 64"
  shows "concat (map text_of (fst (prune_blocks policy blocks))) =
    (if prunes policy blocks
     then pruned_text (keep_head_bytes policy) (tail_start_of policy blocks) (marker_of policy blocks)
            (all_chars blocks)
     else concat (map text_of blocks))"
  using assms by (simp add: prune_blocks_text prune_blocks_not)

theorem prune_blocks_reference_witness:
  "total_text long_blocks < 2 ^ 64 \<and> prunes default_prune_policy long_blocks \<and>
   concat (map text_of (fst (prune_blocks default_prune_policy long_blocks))) =
     pruned_text 400 1700 (omitted_marker 1300) (all_chars long_blocks)"
proof -
  have "total_text long_blocks < 2 ^ 64" by (simp add: total_text_long_blocks)
  moreover have "prunes default_prune_policy long_blocks"
    by (simp add: prunes_def total_text_long_blocks default_prune_policy_def)
  ultimately show ?thesis
    using prune_blocks_reference [of long_blocks default_prune_policy]
    by (simp add: marker_of_def tail_start_of_def total_text_long_blocks)
      (simp add: default_prune_policy_def)
qed

text \<open>
  Whatever its size, a pruned tool result fits the policy: its text is below the minimum that
  triggers pruning, or within head and tail budget plus at most 49 bytes for the marker and a character
  that straddles the head boundary.
\<close>

theorem prune_blocks_bounded:
  assumes "total_text blocks < 2 ^ 64"
  shows "total_text (fst (prune_blocks policy blocks)) \<le>
    max (min_text_bytes policy) (keep_head_bytes policy + keep_tail_bytes policy + 49)"
proof (cases "prunes policy blocks")
  case True
  have "length (marker_of policy blocks) \<le> 46"
    unfolding marker_of_def
    by (rule length_omitted_marker, rule le_less_trans [OF _ assms]) (simp add: tail_start_of_def)
  with prune_blocks_length [OF True] show ?thesis by simp
next
  case False
  with assms show ?thesis by (auto simp: prune_blocks_not prunes_def)
qed

theorem prune_blocks_bounded_witness:
  "total_text long_blocks < 2 ^ 64 \<and>
   total_text (fst (prune_blocks default_prune_policy long_blocks)) \<le> 2000"
proof -
  have "total_text long_blocks < 2 ^ 64" by (simp add: total_text_long_blocks)
  then show ?thesis
    using prune_blocks_bounded [of long_blocks default_prune_policy]
    by (simp add: default_prune_policy_def)
qed

text \<open>
  Pruning touches nothing but the text of tool results: messages, tool calls, call ids, tool
  names, the number and kind of content blocks and blocks without text are as before, in the same
  order, so every tool call keeps its result.
\<close>

theorem prune_preserves_structure:
  assumes "byte_count s < 2 ^ 64"
  shows "map item_shape (items (po_surface (apply_pressure_prune s policy w))) = map item_shape (items s)
    \<and> tool_pairs_intact (po_surface (apply_pressure_prune s policy w)) = tool_pairs_intact s"
proof -
  have "item_shape (fst (prune_item policy i)) = item_shape i" if "i \<in> set (items s)" for i
    using item_bytes_le_byte_count [OF that] assms by (intro prune_item_shape) linarith
  then have shape: "map item_shape (items (prune_items policy s)) = map item_shape (items s)"
    by (simp add: items_prune_items)
  have ids: "List.map_filter call_id_of (map (\<lambda>i. fst (prune_item policy i)) is) = List.map_filter call_id_of is"
    "List.map_filter result_id_of (map (\<lambda>i. fst (prune_item policy i)) is) = List.map_filter result_id_of is" for "is"
    by (induction "is") (simp_all add: List.map_filter_simps split: option.split)
  show ?thesis
  proof (cases rule: apply_pressure_prune_cases [of s policy w])
    case below
    then show ?thesis by simp
  next
    case pruned
    with shape ids show ?thesis by (simp add: tool_pairs_intact_def items_prune_items)
  qed
qed

theorem prune_preserves_structure_witness:
  "byte_count long_surface < 2 ^ 64 \<and>
   tool_pairs_intact (po_surface (apply_pressure_prune long_surface default_prune_policy 500))"
proof -
  have "byte_count long_surface < 2 ^ 64" by (simp add: byte_count_long_surface)
  moreover have "tool_pairs_intact long_surface"
    by (simp add: tool_pairs_intact_def long_surface_def List.map_filter_simps)
  ultimately show ?thesis
    using prune_preserves_structure [of long_surface default_prune_policy 500] by simp
qed

text \<open>
  Under the default policy the outcome is honest: it reports a rewrite exactly when the items
  changed, and then the surface is strictly smaller and its generation has advanced (unless the
  64-bit counter is exhausted).
\<close>

theorem default_prune_rewritten_iff:
  assumes "byte_count s < 2 ^ 64"
  shows "let r = apply_pressure_prune s default_prune_policy w in
    (rewritten r \<longleftrightarrow> items (po_surface r) \<noteq> items s) \<and>
    (rewritten r \<longrightarrow> byte_count (po_surface r) < byte_count s) \<and>
    (rewritten r \<longrightarrow> generation s \<noteq> - 1 \<longrightarrow> generation s < generation (po_surface r))"
  using assms by (rule default_prune_outcome)

theorem default_prune_rewritten_iff_witness:
  "byte_count long_surface < 2 ^ 64 \<and>
   (let r = apply_pressure_prune long_surface default_prune_policy 500 in
    (rewritten r \<longleftrightarrow> items (po_surface r) \<noteq> items long_surface) \<and>
    (rewritten r \<longrightarrow> byte_count (po_surface r) < 2530) \<and>
    (rewritten r \<longrightarrow> generation long_surface < generation (po_surface r)))"
proof -
  have "byte_count long_surface < 2 ^ 64"
    by (simp add: byte_count_long_surface)
  moreover have "generation long_surface \<noteq> - 1"
    by (simp add: long_surface_def)
  ultimately show ?thesis
    using default_prune_rewritten_iff [of long_surface 500]
    by (simp add: Let_def byte_count_long_surface)
qed

text \<open>
  Under the default policy, and when the host measures an item at no less than its bytes, pruning
  never raises the token estimate of the surface.
\<close>

theorem default_prune_estimate_le:
  assumes small: "byte_count s < 2 ^ 64"
    and host: "\<And>i t. i < length (items s) \<Longrightarrow> i < length (item_token_estimates s) \<Longrightarrow>
       item_token_estimates s ! i = Some t \<Longrightarrow> div_ceil4 (as_u64 (item_bytes (items s ! i))) \<le> t"
  shows "after_token_estimate (apply_pressure_prune s default_prune_policy w)
       \<le> before_token_estimate (apply_pressure_prune s default_prune_policy w)"
proof -
  have "estimated_tokens (prune_items default_prune_policy s) \<le> estimated_tokens s"
  proof (rule estimated_tokens_mono)
    show "length (items (prune_items default_prune_policy s)) = length (items s)"
      by (simp add: items_prune_items)
    show "item_tokens (prune_items default_prune_policy s) i (items (prune_items default_prune_policy s) ! i)
        \<le> item_tokens s i (items s ! i)" if "i < length (items (prune_items default_prune_policy s))" for i
      using that by (intro item_tokens_prune small host) (simp_all add: items_prune_items)
  qed
  then show ?thesis by (simp add: apply_pressure_prune_def Let_def)
qed

theorem default_prune_estimate_le_witness:
  "byte_count long_surface < 2 ^ 64 \<and>
   after_token_estimate (apply_pressure_prune long_surface default_prune_policy 500)
     \<le> before_token_estimate (apply_pressure_prune long_surface default_prune_policy 500)"
proof
  show small: "byte_count long_surface < 2 ^ 64" by (simp add: byte_count_long_surface)
  show "after_token_estimate (apply_pressure_prune long_surface default_prune_policy 500)
     \<le> before_token_estimate (apply_pressure_prune long_surface default_prune_policy 500)"
    by (rule default_prune_estimate_le [OF small]) (simp add: long_surface_def)
qed

text \<open>
  A policy whose budgets leave out less than the marker takes makes a tool result longer, and the
  outcome then reports no rewrite and keeps the generation although the surface changed. Here six
  bytes of text become thirty-one.
\<close>

theorem prune_short_omission_grows:
  "let r = apply_pressure_prune tight_surface tight_policy 100
   in \<not> rewritten r \<and> generation (po_surface r) = generation tight_surface \<and> items (po_surface r) \<noteq> items tight_surface
      \<and> byte_count tight_surface < byte_count (po_surface r)"
proof -
  have b: "byte_count (prune_items tight_policy tight_surface) = 34" "byte_count tight_surface = 9"
    by (simp_all add: byte_count_def tight_items length_omitted_marker_2 text_len_def) (simp add: tight_surface_def text_len_def)
  have "items (prune_items tight_policy tight_surface) \<noteq> items tight_surface"
    using b by (auto simp: byte_count_def)
  with b show ?thesis
    by (simp add: Let_def apply_pressure_prune_def tight_trigger as_u64_def)
qed

end
