(* ===== verification/Context_Recovery.thy ===== *)
theory Context_Recovery
  imports Context_Pruner
begin

text \<open>
  Context pressure and overflow recovery (\<open>crates/vellum-enhanced-codex/src/context_recovery.rs\<close>):
  prune first, compact only if the pruned surface is still too large, and retry an overflowed
  request at most once and only after real progress.
\<close>

definition MAX_CONTEXT_OVERFLOW_RETRIES :: u8 where
  "MAX_CONTEXT_OVERFLOW_RETRIES = 1"

datatype compact_decision = Skip | RunNativeCodexLocalCompact

record pressure_plan =
  prune :: prune_outcome
  compact :: compact_decision
  compaction_avoided :: bool
  pp_events :: "enhanced_event list"

definition plan_context_pressure ::
  "model_visible_surface \<Rightarrow> tool_result_prune_policy \<Rightarrow> u64 \<Rightarrow> u64 \<Rightarrow> pressure_plan"
where
  "plan_context_pressure surface policy context_window_tokens compact_threshold_tokens =
     (let p = apply_pressure_prune surface policy context_window_tokens;
          still_high = compact_threshold_tokens \<le> estimated_tokens (po_surface p);
          avoided = rewritten p \<and> \<not> still_high
      in \<lparr>prune = p,
          compact = (if still_high then RunNativeCodexLocalCompact else Skip),
          compaction_avoided = avoided,
          pp_events = po_events p @
            (if avoided
             then [new_event ContextCompactionAvoided
                     (no_fields\<lparr>f_before_token_estimate := Some (before_token_estimate p),
                                f_after_token_estimate := Some (after_token_estimate p),
                                f_chars_removed := Some (bytes_removed p)\<rparr>)]
             else [])\<rparr>)"

record overflow_attempt =
  generation_before :: u64
  retries_used :: u8
  oa_cancelled :: bool

datatype overflow_decision = Retry u8 | PreserveOriginalError | OverflowCancelled

record overflow_plan =
  op_decision :: overflow_decision
  op_events :: "enhanced_event list"

definition refused :: "u8 \<Rightarrow> overflow_plan" where
  "refused retry_index =
     \<lparr>op_decision = PreserveOriginalError,
      op_events = [new_event ContextOverflowRetryRefused (no_fields\<lparr>f_retry_index := Some retry_index\<rparr>)]\<rparr>"

definition plan_overflow_retry ::
  "overflow_attempt \<Rightarrow> model_visible_surface \<Rightarrow> model_visible_surface \<Rightarrow> overflow_plan"
where
  "plan_overflow_retry attempt before after =
     (if oa_cancelled attempt then \<lparr>op_decision = OverflowCancelled, op_events = []\<rparr>
      else if MAX_CONTEXT_OVERFLOW_RETRIES \<le> retries_used attempt then refused (retries_used attempt)
      else
        let shrunk = byte_count after < byte_count before;
            progressed = generation_before attempt < generation after
        in if shrunk \<and> progressed then
             let retry_index = saturating_add (retries_used attempt) 1
             in \<lparr>op_decision = Retry retry_index,
                 op_events =
                   [new_event ContextOverflowRetry
                      (no_fields\<lparr>f_retry_index := Some retry_index,
                                 f_before_token_estimate := Some (estimated_tokens before),
                                 f_after_token_estimate := Some (estimated_tokens after),
                                 f_chars_removed := Some (as_u64 (byte_count before - byte_count after))\<rparr>)]\<rparr>
           else refused (retries_used attempt))"

section \<open>Lemmas\<close>

text \<open>The measurement repeated in \<open>plan_context_pressure\<close> is the one the prune reported.\<close>

lemma after_estimate_is_measured:
  "after_token_estimate (apply_pressure_prune s policy w) =
     estimated_tokens (po_surface (apply_pressure_prune s policy w))"
  by (simp add: apply_pressure_prune_def Let_def)

lemma overflow_first_retry: "retries_used a < MAX_CONTEXT_OVERFLOW_RETRIES \<Longrightarrow> retries_used a = 0"
  by (simp add: MAX_CONTEXT_OVERFLOW_RETRIES_def word_less_nat_alt unat_eq_zero flip: unat_0_iff)

lemma saturating_add_0_1: "saturating_add (0 :: u8) 1 = 1"
  by (simp add: saturating_add_def)

section \<open>Properties\<close>

text \<open>
  A provider overflow is retried exactly when the request was not cancelled, no retry was used
  before, and the new surface is both smaller and of a later generation; the retry is always the
  first, and every other case keeps the original error or the cancellation.
\<close>

theorem overflow_retry_iff:
  "op_decision (plan_overflow_retry a before after) =
     (if oa_cancelled a then OverflowCancelled
      else if retries_used a = 0 \<and> byte_count after < byte_count before \<and> generation_before a < generation after
      then Retry 1
      else PreserveOriginalError)"
proof (cases "retries_used a = 0")
  case True
  then show ?thesis
    by (simp add: plan_overflow_retry_def refused_def Let_def MAX_CONTEXT_OVERFLOW_RETRIES_def
        saturating_add_0_1)
next
  case False
  then have "MAX_CONTEXT_OVERFLOW_RETRIES \<le> retries_used a"
    using overflow_first_retry [of a] by (meson not_le)
  with False show ?thesis
    by (simp add: plan_overflow_retry_def refused_def)
qed

text \<open>
  Under pressure the native compaction runs exactly when the surface that results from pruning is
  still at or above the compaction threshold; compaction counts as avoided only when pruning changed
  the surface and brought it below the threshold.
\<close>

theorem pressure_plan_decision:
  "let p = plan_context_pressure s policy w threshold in
     prune p = apply_pressure_prune s policy w \<and>
     (compact p = RunNativeCodexLocalCompact \<longleftrightarrow> threshold \<le> after_token_estimate (prune p)) \<and>
     (compaction_avoided p \<longleftrightarrow> compact p = Skip \<and> rewritten (prune p)) \<and>
     (compaction_avoided p \<longleftrightarrow> ContextCompactionAvoided \<in> ev_kind ` set (pp_events p))"
  by (auto simp: plan_context_pressure_def Let_def after_estimate_is_measured apply_pressure_prune_def)

text \<open>
  Pruning is progress: after a prune under the default policy that reports a rewrite, the first
  overflow retry on the pruned surface is granted.
\<close>

theorem prune_enables_retry:
  assumes "byte_count s < 2 ^ 64" and "generation s \<noteq> - 1"
    and "rewritten (apply_pressure_prune s default_prune_policy w)"
  shows "op_decision (plan_overflow_retry
           \<lparr>generation_before = generation s, retries_used = 0, oa_cancelled = False\<rparr>
           s (po_surface (apply_pressure_prune s default_prune_policy w))) = Retry 1"
proof -
  let ?r = "apply_pressure_prune s default_prune_policy w"
  have "byte_count (po_surface ?r) < byte_count s"
    and "generation s < generation (po_surface ?r)"
    using default_prune_progress [OF assms(1,3)] assms(2) by blast+
  then show ?thesis
    by (simp add: plan_overflow_retry_def Let_def MAX_CONTEXT_OVERFLOW_RETRIES_def saturating_add_0_1)
qed

theorem prune_enables_retry_witness:
  "op_decision (plan_overflow_retry
           \<lparr>generation_before = generation long_surface, retries_used = 0, oa_cancelled = False\<rparr>
           long_surface (po_surface (apply_pressure_prune long_surface default_prune_policy 500))) = Retry 1"
  by (rule prune_enables_retry)
    (simp_all add: long_surface_rewritten byte_count_long_surface, simp add: long_surface_def)

end
