(* ===== verification/Tool_Reliability.thy ===== *)
theory Tool_Reliability
  imports Telemetry "HOL-Library.List_Lexorder" "HOL-Library.Char_ord"
begin

text \<open>
  The provider tool-call ledger (\<open>crates/vellum-enhanced-codex/src/tool_reliability.rs\<close>): every
  provider call id is executed at most once, a repeated call is answered with a synthetic failure,
  and an id that comes back with another tool or other arguments is refused.

  Parameters: \<open>sha\<close> as in \<open>Telemetry\<close>, and \<open>to_string\<close>, the compact serializer
  \<open>serde_json::to_string\<close> on strings and scalars.
\<close>

section \<open>Data\<close>

datatype tool_kind_t = Function | Custom | ToolSearch

fun tool_kind_as_str :: "tool_kind_t \<Rightarrow> string" where
  "tool_kind_as_str Function = ''function''"
| "tool_kind_as_str Custom = ''custom''"
| "tool_kind_as_str ToolSearch = ''tool_search''"

datatype input_encoding_t = JsonArguments | RawCustom

fun input_encoding_as_str :: "input_encoding_t \<Rightarrow> string" where
  "input_encoding_as_str JsonArguments = ''json_arguments''"
| "input_encoding_as_str RawCustom = ''raw_custom''"

definition canonical_namespace :: "string \<Rightarrow> string" where
  "canonical_namespace ns = (if ns = [] \<or> ns = ''functions'' then [] else ns)"

record provider_tool_call_identity =
  provider_call_id :: string
  tool_name :: string
  tool_kind :: tool_kind_t
  namespace :: string
  argument_fingerprint :: string
  input_encoding :: input_encoding_t

datatype tool_call_resolution = InFlight | Executed | Failed | Cancelled | SyntheticDuplicate

record handled_tool_call =
  identity :: provider_tool_call_identity
  resolution :: tool_call_resolution
  original_admitted :: bool
  synthetic_duplicate_emitted :: bool
  original_result_delivered :: bool
  dispatch_index :: u64

record tool_call_ledger =
  handled :: "string \<Rightarrow> handled_tool_call option"
  next_dispatch_index :: u64

datatype admit_decision = Execute | SuppressDuplicate string | FailClosed string

datatype late_result_decision = Accept | Suppress

record tool_reliability_outcome =
  tro_decision :: admit_decision
  tro_events :: "enhanced_event list"

datatype synthetic_result_kind = SynDuplicate | SynAborted | SynCancelled | SynFailed

record synthetic_tool_result =
  syn_kind :: synthetic_result_kind
  syn_message :: string

section \<open>Fingerprints\<close>

text \<open>
  \<open>canonical_json\<close> serializes an object in the order of its sorted keys. The values are serialized
  first and then looked up by key.
\<close>

fun canonical_json :: "(json \<Rightarrow> string) \<Rightarrow> json \<Rightarrow> string" where
  "canonical_json to_string (JObject kvs) =
     (let parts = map (\<lambda>(k, v). (k, canonical_json to_string v)) kvs
      in ''{'' @ join_with '',''
           (map (\<lambda>k. to_string (JString k) @ '':'' @ (case map_of parts k of Some s \<Rightarrow> s | None \<Rightarrow> []))
             (sort (map fst kvs))) @ ''}'')"
| "canonical_json to_string (JArray xs) =
     ''['' @ join_with '','' (map (canonical_json to_string) xs) @ '']''"
| "canonical_json to_string other = to_string other"

text \<open>The bytes fed to the hash.\<close>

definition fingerprint_input ::
  "string \<Rightarrow> tool_kind_t \<Rightarrow> string \<Rightarrow> input_encoding_t \<Rightarrow> string \<Rightarrow> string"
where
  "fingerprint_input name kind ns encoding payload =
     (let ns' = canonical_namespace ns;
          default_function_json = (kind = Function \<and> ns' = [] \<and> encoding = JsonArguments)
      in name @ [CHR 0x00] @ payload @
         (if default_function_json then []
          else [CHR 0x00] @ tool_kind_as_str kind @ [CHR 0x00] @ ns' @ [CHR 0x00] @ input_encoding_as_str encoding))"

definition fingerprint ::
  "(string \<Rightarrow> string) \<Rightarrow> string \<Rightarrow> tool_kind_t \<Rightarrow> string \<Rightarrow> input_encoding_t \<Rightarrow> string \<Rightarrow> string"
where
  "fingerprint sha name kind ns encoding payload =
     ''sha256:'' @ sha (fingerprint_input name kind ns encoding payload)"

definition fingerprint_json ::
  "(string \<Rightarrow> string) \<Rightarrow> (json \<Rightarrow> string) \<Rightarrow> string \<Rightarrow> tool_kind_t \<Rightarrow> string \<Rightarrow> json \<Rightarrow> string"
where
  "fingerprint_json sha to_string name kind ns arguments =
     fingerprint sha name kind ns JsonArguments (canonical_json to_string arguments)"

definition fingerprint_arguments :: "(string \<Rightarrow> string) \<Rightarrow> (json \<Rightarrow> string) \<Rightarrow> string \<Rightarrow> json \<Rightarrow> string" where
  "fingerprint_arguments sha to_string name arguments =
     fingerprint_json sha to_string name Function [] arguments"

definition fingerprint_raw :: "(string \<Rightarrow> string) \<Rightarrow> string \<Rightarrow> tool_kind_t \<Rightarrow> string \<Rightarrow> string \<Rightarrow> string" where
  "fingerprint_raw sha name kind ns raw_input = fingerprint sha name kind ns RawCustom raw_input"

definition identity_json ::
  "(string \<Rightarrow> string) \<Rightarrow> (json \<Rightarrow> string) \<Rightarrow> string \<Rightarrow> string \<Rightarrow> tool_kind_t \<Rightarrow> string \<Rightarrow> json \<Rightarrow>
     provider_tool_call_identity"
where
  "identity_json sha to_string call_id name kind ns arguments =
     \<lparr>provider_call_id = call_id, tool_name = name, tool_kind = kind,
      namespace = canonical_namespace ns,
      argument_fingerprint = fingerprint_json sha to_string name kind ns arguments,
      input_encoding = JsonArguments\<rparr>"

definition identity_default ::
  "(string \<Rightarrow> string) \<Rightarrow> (json \<Rightarrow> string) \<Rightarrow> string \<Rightarrow> string \<Rightarrow> json \<Rightarrow> provider_tool_call_identity"
where
  "identity_default sha to_string call_id name arguments =
     identity_json sha to_string call_id name Function [] arguments"

definition identity_raw ::
  "(string \<Rightarrow> string) \<Rightarrow> string \<Rightarrow> string \<Rightarrow> tool_kind_t \<Rightarrow> string \<Rightarrow> string \<Rightarrow> provider_tool_call_identity"
where
  "identity_raw sha call_id name kind ns raw_input =
     \<lparr>provider_call_id = call_id, tool_name = name, tool_kind = kind,
      namespace = canonical_namespace ns,
      argument_fingerprint = fingerprint_raw sha name kind ns raw_input,
      input_encoding = RawCustom\<rparr>"

section \<open>The ledger\<close>

definition new_ledger :: tool_call_ledger where
  "new_ledger = \<lparr>handled = (\<lambda>_. None), next_dispatch_index = 0\<rparr>"

definition ledger_is_empty :: "tool_call_ledger \<Rightarrow> bool" where
  "ledger_is_empty l \<longleftrightarrow> Map.empty = handled l"

definition ledger_get :: "string \<Rightarrow> tool_call_ledger \<Rightarrow> handled_tool_call option" where
  "ledger_get call_id l = handled l call_id"

definition ledger_event :: "(string \<Rightarrow> string) \<Rightarrow> enhanced_event_kind \<Rightarrow> string \<Rightarrow> enhanced_event" where
  "ledger_event sha kind call_id =
     new_event kind (no_fields\<lparr>f_call_id_hash := Some (hash_identifier sha call_id)\<rparr>)"

definition collides :: "provider_tool_call_identity \<Rightarrow> provider_tool_call_identity \<Rightarrow> bool" where
  "collides existing new \<longleftrightarrow>
     tool_name existing \<noteq> tool_name new \<or> tool_kind existing \<noteq> tool_kind new
     \<or> namespace existing \<noteq> namespace new \<or> argument_fingerprint existing \<noteq> argument_fingerprint new"

definition admit ::
  "(string \<Rightarrow> string) \<Rightarrow> provider_tool_call_identity \<Rightarrow> tool_call_ledger \<Rightarrow>
     tool_reliability_outcome \<times> tool_call_ledger"
where
  "admit sha i l =
     (case handled l (provider_call_id i) of
        Some existing \<Rightarrow>
          if collides (identity existing) i then
            (\<lparr>tro_decision = FailClosed (''provider protocol collision: call id '' @ provider_call_id i
                 @ '' reused with a different tool or argument fingerprint''),
              tro_events = [ledger_event sha ToolCallIdCollision (provider_call_id i)]\<rparr>, l)
          else
            (\<lparr>tro_decision = SuppressDuplicate (''duplicate provider tool call '' @ provider_call_id i
                 @ '' was not executed''),
              tro_events = [ledger_event sha ToolDuplicateDetected (provider_call_id i),
                            ledger_event sha ToolDuplicateSuppressed (provider_call_id i)]\<rparr>,
             l\<lparr>handled := (handled l)(provider_call_id i \<mapsto> existing\<lparr>synthetic_duplicate_emitted := True\<rparr>)\<rparr>)
      | None \<Rightarrow>
          (\<lparr>tro_decision = Execute, tro_events = []\<rparr>,
           l\<lparr>next_dispatch_index := saturating_add (next_dispatch_index l) 1,
             handled := (handled l)(provider_call_id i \<mapsto>
               \<lparr>identity = i, resolution = InFlight, original_admitted = True,
                synthetic_duplicate_emitted = False, original_result_delivered = False,
                dispatch_index = next_dispatch_index l\<rparr>)\<rparr>))"

definition mark_resolution :: "string \<Rightarrow> tool_call_resolution \<Rightarrow> tool_call_ledger \<Rightarrow> tool_call_ledger" where
  "mark_resolution call_id r l =
     (case handled l call_id of
        None \<Rightarrow> l
      | Some existing \<Rightarrow>
          if r = SyntheticDuplicate
          then l\<lparr>handled := (handled l)(call_id \<mapsto> existing\<lparr>synthetic_duplicate_emitted := True\<rparr>)\<rparr>
          else l\<lparr>handled := (handled l)(call_id \<mapsto> existing\<lparr>resolution := r\<rparr>)\<rparr>)"

definition complete_original :: "string \<Rightarrow> tool_call_ledger \<Rightarrow> late_result_decision \<times> tool_call_ledger" where
  "complete_original call_id l =
     (case handled l call_id of
        Some h \<Rightarrow>
          if original_admitted h \<and> \<not> original_result_delivered h
          then (Accept, l\<lparr>handled := (handled l)(call_id \<mapsto> h\<lparr>original_result_delivered := True\<rparr>)\<rparr>)
          else (Suppress, l)
      | None \<Rightarrow> (Suppress, l))"

definition ingest_late_result :: "string \<Rightarrow> tool_call_ledger \<Rightarrow> late_result_decision" where
  "ingest_late_result call_id l =
     (case handled l call_id of
        Some h \<Rightarrow>
          if synthetic_duplicate_emitted h then Suppress
          else if original_result_delivered h then Suppress
          else Accept
      | None \<Rightarrow> Suppress)"

definition synthetic_failure :: "synthetic_result_kind \<Rightarrow> string \<Rightarrow> synthetic_tool_result" where
  "synthetic_failure kind message = \<lparr>syn_kind = kind, syn_message = message\<rparr>"

definition synthetic_duplicate_result :: "string \<Rightarrow> synthetic_tool_result" where
  "synthetic_duplicate_result message = synthetic_failure SynDuplicate message"

definition synthetic_aborted_result :: synthetic_tool_result where
  "synthetic_aborted_result = synthetic_failure SynAborted ''aborted''"

definition synthetic_success :: "synthetic_tool_result \<Rightarrow> bool" where
  "synthetic_success r = False"

section \<open>Runs of ledger operations\<close>

datatype ledger_op =
    Admit provider_tool_call_identity
  | MarkResolution string tool_call_resolution
  | CompleteOriginal string

fun ledger_step :: "(string \<Rightarrow> string) \<Rightarrow> ledger_op \<Rightarrow> tool_call_ledger \<Rightarrow> tool_call_ledger" where
  "ledger_step sha (Admit i) l = snd (admit sha i l)"
| "ledger_step sha (MarkResolution c r) l = mark_resolution c r l"
| "ledger_step sha (CompleteOriginal c) l = snd (complete_original c l)"

text \<open>Does this operation execute the call \<open>c\<close>, or deliver its original result?\<close>

fun executes :: "(string \<Rightarrow> string) \<Rightarrow> string \<Rightarrow> ledger_op \<Rightarrow> tool_call_ledger \<Rightarrow> bool" where
  "executes sha c (Admit i) l \<longleftrightarrow> provider_call_id i = c \<and> tro_decision (fst (admit sha i l)) = Execute"
| "executes sha c _ l \<longleftrightarrow> False"

fun delivers :: "string \<Rightarrow> ledger_op \<Rightarrow> tool_call_ledger \<Rightarrow> bool" where
  "delivers c (CompleteOriginal c') l \<longleftrightarrow> c' = c \<and> fst (complete_original c' l) = Accept"
| "delivers c _ l \<longleftrightarrow> False"

fun count_run :: "(ledger_op \<Rightarrow> tool_call_ledger \<Rightarrow> bool) \<Rightarrow> (string \<Rightarrow> string) \<Rightarrow> ledger_op list \<Rightarrow> tool_call_ledger \<Rightarrow> nat" where
  "count_run P sha [] l = 0"
| "count_run P sha (op # ops) l = (if P op l then 1 else 0) + count_run P sha ops (ledger_step sha op l)"

definition ledger_inv :: "tool_call_ledger \<Rightarrow> bool" where
  "ledger_inv l \<longleftrightarrow>
     (\<forall>c h. handled l c = Some h \<longrightarrow> provider_call_id (identity h) = c \<and> original_admitted h) \<and>
     (next_dispatch_index l \<noteq> - 1 \<longrightarrow>
        (\<forall>c h. handled l c = Some h \<longrightarrow> dispatch_index h < next_dispatch_index l) \<and>
        (\<forall>c d h k. handled l c = Some h \<longrightarrow> handled l d = Some k \<longrightarrow>
           dispatch_index h = dispatch_index k \<longrightarrow> c = d))"

text \<open>What later operations may do to an entry: only resolve it and set its two flags.\<close>

definition handled_below :: "handled_tool_call \<Rightarrow> handled_tool_call \<Rightarrow> bool" where
  "handled_below h k \<longleftrightarrow>
     identity k = identity h \<and> dispatch_index k = dispatch_index h \<and>
     original_admitted k = original_admitted h \<and>
     (synthetic_duplicate_emitted h \<longrightarrow> synthetic_duplicate_emitted k) \<and>
     (original_result_delivered h \<longrightarrow> original_result_delivered k)"

definition ledger_below :: "tool_call_ledger \<Rightarrow> tool_call_ledger \<Rightarrow> bool" where
  "ledger_below l m \<longleftrightarrow>
     (\<forall>c h. handled l c = Some h \<longrightarrow> (\<exists>k. handled m c = Some k \<and> handled_below h k))"

text \<open>Two JSON values that differ only in the order of object keys, at any depth.\<close>

inductive json_equiv :: "json \<Rightarrow> json \<Rightarrow> bool" where
  same: "json_equiv v v"
| array: "length xs = length ys \<Longrightarrow> (\<forall>i < length xs. json_equiv (xs ! i) (ys ! i)) \<Longrightarrow>
     json_equiv (JArray xs) (JArray ys)"
| object: "distinct (map fst kvs) \<Longrightarrow> distinct (map fst kws) \<Longrightarrow> set (map fst kvs) = set (map fst kws) \<Longrightarrow>
     (\<forall>k v w. map_of kvs k = Some v \<longrightarrow> map_of kws k = Some w \<longrightarrow> json_equiv v w) \<Longrightarrow>
     json_equiv (JObject kvs) (JObject kws)"

section \<open>Lemmas on the ledger\<close>

lemma handled_below_refl [simp]: "handled_below h h"
  by (simp add: handled_below_def)

lemma handled_below_trans: "handled_below h k \<Longrightarrow> handled_below k m \<Longrightarrow> handled_below h m"
  by (auto simp: handled_below_def)

lemma ledger_below_refl: "ledger_below l l"
  by (auto simp: ledger_below_def)

lemma ledger_below_trans: "ledger_below l m \<Longrightarrow> ledger_below m n \<Longrightarrow> ledger_below l n"
  unfolding ledger_below_def by (meson handled_below_trans)

lemma ledger_below_upd:
  "handled l c = Some h \<Longrightarrow> handled_below h k \<Longrightarrow> ledger_below l (l\<lparr>handled := (handled l)(c \<mapsto> k)\<rparr>)"
  by (auto simp: ledger_below_def)

lemma ledger_step_below: "ledger_below l (ledger_step sha op l)"
proof (cases op)
  case (Admit i)
  then show ?thesis
    by (auto simp: admit_def ledger_below_refl ledger_below_upd handled_below_def split: option.split)
      (auto simp: ledger_below_def)
next
  case (MarkResolution c r)
  then show ?thesis
    by (auto simp: mark_resolution_def ledger_below_refl ledger_below_upd handled_below_def split: option.split)
next
  case (CompleteOriginal c)
  then show ?thesis
    by (auto simp: complete_original_def ledger_below_refl ledger_below_upd handled_below_def split: option.split)
qed

text \<open>Updating an entry in place keeps the invariant.\<close>

lemma ledger_inv_upd:
  assumes "ledger_inv l" and "handled l c = Some h" and "handled_below h k"
  shows "ledger_inv (l\<lparr>handled := (handled l)(c \<mapsto> k)\<rparr>)"
  using assms by (fastforce simp: ledger_inv_def handled_below_def)

lemma ledger_inv_new: "ledger_inv new_ledger"
  by (simp add: ledger_inv_def new_ledger_def)

lemma saturating_succ_cases:
  fixes n :: "'a::len word"
  assumes "saturating_add n 1 \<noteq> - 1"
  shows "n < saturating_add n 1" and "n \<noteq> - 1"
proof -
  show ne: "n \<noteq> - 1"
    using assms le_saturating_add [of n 1] by (metis max_word_max order_antisym)
  have "saturating_add n 1 \<noteq> n"
    using assms ne by (auto simp: saturating_add_def)
  with le_saturating_add [of n 1] show "n < saturating_add n 1" by simp
qed

lemma ledger_inv_insert:
  assumes inv: "ledger_inv l" and new: "handled l (provider_call_id i) = None"
    and l': "l' = l\<lparr>next_dispatch_index := saturating_add (next_dispatch_index l) 1,
             handled := (handled l)(provider_call_id i \<mapsto>
               \<lparr>identity = i, resolution = InFlight, original_admitted = True,
                synthetic_duplicate_emitted = False, original_result_delivered = False,
                dispatch_index = next_dispatch_index l\<rparr>)\<rparr>"
  shows "ledger_inv l'"
proof (cases "saturating_add (next_dispatch_index l) 1 = - 1")
  case True
  with inv show ?thesis by (auto simp: ledger_inv_def l')
next
  case False
  note n = saturating_succ_cases [OF False]
  have old: "dispatch_index h < next_dispatch_index l" if "handled l c = Some h" for c h
    using inv n(2) that by (auto simp: ledger_inv_def)
  have inj: "c = d" if "handled l c = Some h" "handled l d = Some k" "dispatch_index h = dispatch_index k"
    for c d h k
    using inv n(2) that unfolding ledger_inv_def by blast
  have "dispatch_index h < saturating_add (next_dispatch_index l) 1" if "handled l c = Some h" for c h
    using old [OF that] n(1) by (rule less_trans)
  moreover have "provider_call_id (identity h) = c \<and> original_admitted h" if "handled l c = Some h" for c h
    using inv that by (auto simp: ledger_inv_def)
  moreover have "dispatch_index h \<noteq> next_dispatch_index l" if "handled l c = Some h" for c h
    using old [OF that] by simp
  ultimately show ?thesis
    using n(1) inj unfolding ledger_inv_def l' by (simp split: if_splits) (metis option.inject)
qed

lemma ledger_step_inv:
  assumes "ledger_inv l"
  shows "ledger_inv (ledger_step sha op l)"
proof (cases op)
  case (Admit i)
  show ?thesis
  proof (cases "handled l (provider_call_id i)")
    case None
    show ?thesis
      by (rule ledger_inv_insert [OF assms None]) (simp add: Admit admit_def None)
  next
    case (Some h)
    with assms show ?thesis
      by (auto simp: Admit admit_def handled_below_def intro!: ledger_inv_upd)
  qed
next
  case (MarkResolution c r)
  with assms show ?thesis
    by (auto simp: mark_resolution_def handled_below_def intro!: ledger_inv_upd split: option.split)
next
  case (CompleteOriginal c)
  with assms show ?thesis
    by (auto simp: complete_original_def handled_below_def intro!: ledger_inv_upd split: option.split)
qed

interpretation ledger: monotone_system "ledger_step sha" ledger_inv ledger_below for sha
  by unfold_locales
    (blast intro: ledger_step_inv ledger_below_refl ledger_below_trans ledger_step_below)+

lemma executes_iff:
  "executes sha c op l \<longleftrightarrow> (\<exists>i. op = Admit i \<and> provider_call_id i = c \<and> handled l c = None)"
  by (cases op) (auto simp: admit_def split: option.split)

lemma delivers_iff:
  "delivers c op l \<longleftrightarrow>
     (\<exists>h. op = CompleteOriginal c \<and> handled l c = Some h \<and> original_admitted h \<and> \<not> original_result_delivered h)"
  by (cases op) (auto simp: complete_original_def split: option.splits)

lemma handled_persists: "handled l c = Some h \<Longrightarrow> \<exists>k. handled (ledger_step sha op l) c = Some k \<and> handled_below h k"
  using ledger_step_below [of l sha op] by (auto simp: ledger_below_def)

text \<open>A call that is on the ledger never executes again, a delivered result is never delivered again.\<close>

lemma no_execute_when_handled: "handled l c \<noteq> None \<Longrightarrow> count_run (executes sha c) sha ops l = 0"
proof (induction ops arbitrary: l)
  case Nil
  show ?case by simp
next
  case (Cons op ops)
  then have "handled (ledger_step sha op l) c \<noteq> None"
    using handled_persists by fastforce
  with Cons show ?case by (simp add: executes_iff)
qed

lemma no_delivery_when_delivered:
  "handled l c = Some h \<Longrightarrow> original_result_delivered h \<Longrightarrow> count_run (delivers c) sha ops l = 0"
proof (induction ops arbitrary: l h)
  case Nil
  show ?case by simp
next
  case (Cons op ops)
  obtain k where k: "handled (ledger_step sha op l) c = Some k" "handled_below h k"
    using handled_persists [OF Cons.prems(1)] by blast
  with Cons.prems(2) have "original_result_delivered k" by (simp add: handled_below_def)
  with Cons k show ?case by (simp add: delivers_iff)
qed

section \<open>Lemmas on fingerprints\<close>

lemma kind_str_nul: "CHR 0x00 \<notin> set (tool_kind_as_str k)"
  by (cases k) simp_all

lemma encoding_str_nul: "CHR 0x00 \<notin> set (input_encoding_as_str e)"
  by (cases e) simp_all

lemma kind_str_inj: "tool_kind_as_str k = tool_kind_as_str k' \<Longrightarrow> k = k'"
  by (cases k; cases k') simp_all

lemma encoding_str_inj: "input_encoding_as_str e = input_encoding_as_str e' \<Longrightarrow> e = e'"
  by (cases e; cases e') simp_all

lemma tagged_tail_inj:
  assumes "p @ [CHR 0x00] @ tool_kind_as_str k @ [CHR 0x00] @ n @ [CHR 0x00] @ input_encoding_as_str e =
           p' @ [CHR 0x00] @ tool_kind_as_str k' @ [CHR 0x00] @ n' @ [CHR 0x00] @ input_encoding_as_str e'"
    and "CHR 0x00 \<notin> set n" and "CHR 0x00 \<notin> set n'"
  shows "p = p' \<and> k = k' \<and> n = n' \<and> e = e'"
proof -
  let ?k = "tool_kind_as_str k" and ?k' = "tool_kind_as_str k'"
  have "(p @ CHR 0x00 # ?k @ CHR 0x00 # n) @ CHR 0x00 # input_encoding_as_str e =
        (p' @ CHR 0x00 # ?k' @ CHR 0x00 # n') @ CHR 0x00 # input_encoding_as_str e'"
    using assms(1) by simp
  then have 1: "p @ CHR 0x00 # ?k @ CHR 0x00 # n = p' @ CHR 0x00 # ?k' @ CHR 0x00 # n'
      \<and> input_encoding_as_str e = input_encoding_as_str e'"
    by (rule split_last_sep [OF _ encoding_str_nul encoding_str_nul])
  then have "(p @ CHR 0x00 # ?k) @ CHR 0x00 # n = (p' @ CHR 0x00 # ?k') @ CHR 0x00 # n'"
    by simp
  then have 2: "p @ CHR 0x00 # ?k = p' @ CHR 0x00 # ?k' \<and> n = n'"
    by (rule split_last_sep [OF _ assms(2,3)])
  then have "p = p' \<and> ?k = ?k'"
    using split_last_sep [OF _ kind_str_nul kind_str_nul] by blast
  with 1 2 show ?thesis
    by (auto dest: kind_str_inj encoding_str_inj)
qed

lemma canonical_json_equiv: "json_equiv a b \<Longrightarrow> canonical_json to_string a = canonical_json to_string b"
proof (induction rule: json_equiv.induct)
  case (same v)
  show ?case by simp
next
  case (array xs ys)
  then have "map (canonical_json to_string) xs = map (canonical_json to_string) ys"
    by (simp add: list_eq_iff_nth_eq)
  then show ?case by simp
next
  case (object kvs kws)
  have keys: "sort (map fst kvs) = sort (map fst kws)"
    using object by (intro sorted_distinct_set_unique) simp_all
  have part: "map_of (map (\<lambda>(k, v). (k, canonical_json to_string v)) m) k
      = map_option (canonical_json to_string) (map_of m k)" for m k
    by (induction m) auto
  have "map_option (canonical_json to_string) (map_of kvs k) = map_option (canonical_json to_string) (map_of kws k)" for k
  proof (cases "map_of kvs k")
    case None
    with object(3) have "map_of kws k = None"
      by (metis map_of_eq_None_iff set_map)
    with None show ?thesis by simp
  next
    case (Some v)
    then obtain w where "map_of kws k = Some w"
      using object(3) by (metis map_of_eq_None_iff not_None_eq set_map)
    with Some object(4) show ?thesis by simp
  qed
  with keys show ?case
    by (simp add: part Let_def)
qed

lemma count_executes:
  "count_run (executes sha c) sha ops l =
     (if handled l c = None \<and> (\<exists>i. Admit i \<in> set ops \<and> provider_call_id i = c) then 1 else 0)"
proof (induction ops arbitrary: l)
  case Nil
  show ?case by simp
next
  case (Cons op ops)
  show ?case
  proof (cases "executes sha c op l")
    case True
    then obtain i where i: "op = Admit i" "provider_call_id i = c" "handled l c = None"
      by (auto simp: executes_iff)
    then have "handled (ledger_step sha op l) c \<noteq> None"
      by (simp add: admit_def)
    then have "count_run (executes sha c) sha ops (ledger_step sha op l) = 0"
      by (rule no_execute_when_handled)
    with True i show ?thesis by auto
  next
    case False
    have "handled (ledger_step sha op l) c = None \<longleftrightarrow> handled l c = None"
    proof (cases "handled l c")
      case None
      with False have "\<not> (\<exists>i. op = Admit i \<and> provider_call_id i = c)"
        by (auto simp: executes_iff)
      with None show ?thesis
        by (cases op) (auto simp: admit_def mark_resolution_def complete_original_def split: option.split)
    next
      case (Some h)
      then show ?thesis using handled_persists [OF Some, of sha op] by auto
    qed
    moreover have "count_run (executes sha c) sha (op # ops) l = count_run (executes sha c) sha ops (ledger_step sha op l)"
      using False by simp
    moreover have "handled l c = None \<Longrightarrow> \<not> (\<exists>i. op = Admit i \<and> provider_call_id i = c)"
      using False by (auto simp: executes_iff)
    ultimately show ?thesis
      using Cons.IH [of "ledger_step sha op l"] by auto
  qed
qed

lemma identity_json_equiv:
  "json_equiv a b \<Longrightarrow> identity_json sha to_string c n k ns a = identity_json sha to_string c n k ns b"
  by (simp add: identity_json_def fingerprint_json_def canonical_json_equiv)

section \<open>Properties\<close>

text \<open>
  In every sequence of ledger operations, starting from any restored ledger, a provider call id
  is executed exactly once if it is not on the ledger yet and is submitted at least once, and not at
  all otherwise.
\<close>

theorem execute_exactly_once:
  "count_run (executes sha c) sha ops l =
     (if handled l c = None \<and> (\<exists>i. Admit i \<in> set ops \<and> provider_call_id i = c) then 1 else 0)"
  by (rule count_executes)

text \<open>
  The original result of a call is delivered at most once, whatever operations surround the
  deliveries.
\<close>

theorem deliver_at_most_once: "count_run (delivers c) sha ops l \<le> 1"
proof (induction ops arbitrary: l)
  case Nil
  show ?case by simp
next
  case (Cons op ops)
  show ?case
  proof (cases "delivers c op l")
    case True
    then obtain h where "op = CompleteOriginal c" "handled l c = Some h"
      "original_admitted h" "\<not> original_result_delivered h"
      by (auto simp: delivers_iff)
    then have "handled (ledger_step sha op l) c = Some (h\<lparr>original_result_delivered := True\<rparr>)"
      by (simp add: complete_original_def)
    then have "count_run (delivers c) sha ops (ledger_step sha op l) = 0"
      by (rule no_delivery_when_delivered) simp
    with True show ?thesis by simp
  next
    case False
    with Cons.IH show ?thesis by simp
  qed
qed

text \<open>
  A call id that is already on the ledger never executes: with another tool name, kind, namespace
  or fingerprint it fails closed and leaves the ledger as it was; otherwise it is suppressed as a
  duplicate, and of the original record only the duplicate flag changes.
\<close>

theorem admit_known_call:
  assumes "handled l (provider_call_id i) = Some h"
  shows "if collides (identity h) i
    then (\<exists>m. tro_decision (fst (admit sha i l)) = FailClosed m) \<and> snd (admit sha i l) = l \<and>
         map ev_kind (tro_events (fst (admit sha i l))) = [ToolCallIdCollision]
    else (\<exists>m. tro_decision (fst (admit sha i l)) = SuppressDuplicate m) \<and>
         handled (snd (admit sha i l)) =
           (handled l)(provider_call_id i \<mapsto> h\<lparr>synthetic_duplicate_emitted := True\<rparr>) \<and>
         next_dispatch_index (snd (admit sha i l)) = next_dispatch_index l \<and>
         map ev_kind (tro_events (fst (admit sha i l))) = [ToolDuplicateDetected, ToolDuplicateSuppressed]"
  using assms by (simp add: admit_def ledger_event_def)

theorem admit_known_call_witness:
  "let i = identity_raw (\<lambda>s. s) ''call-1'' ''apply_patch'' Custom '''' ''x'';
       l = snd (admit (\<lambda>s. s) i new_ledger)
   in \<exists>m. tro_decision (fst (admit (\<lambda>s. s) (i\<lparr>tool_name := ''shell''\<rparr>) l)) = FailClosed m"
proof -
  let ?i = "identity_raw (\<lambda>s. s) ''call-1'' ''apply_patch'' Custom '''' ''x''"
  let ?l = "snd (admit (\<lambda>s. s) ?i new_ledger)"
  obtain h where "handled ?l (provider_call_id (?i\<lparr>tool_name := ''shell''\<rparr>)) = Some h" "identity h = ?i"
    by (simp add: admit_def new_ledger_def identity_raw_def)
  moreover from this have "collides (identity h) (?i\<lparr>tool_name := ''shell''\<rparr>)"
    by (simp add: collides_def identity_raw_def)
  ultimately show ?thesis
    using admit_known_call [of ?l "?i\<lparr>tool_name := ''shell''\<rparr>" h "\<lambda>s. s"] by (simp add: Let_def)
qed

text \<open>
  Along every run from an empty ledger the dispatch indices number the calls without repetition,
  as long as the 64-bit counter is not exhausted, and every entry is filed under its own call id.
\<close>

theorem dispatch_indices_unique:
  assumes "next_dispatch_index (fold (ledger_step sha) ops new_ledger) \<noteq> - 1"
    and "handled (fold (ledger_step sha) ops new_ledger) c = Some h"
    and "handled (fold (ledger_step sha) ops new_ledger) d = Some k"
    and "dispatch_index h = dispatch_index k"
  shows "c = d \<and> provider_call_id (identity h) = c"
proof -
  have "ledger_inv (fold (ledger_step sha) ops new_ledger)"
    by (rule ledger.run_invar) (rule ledger_inv_new)
  with assms show ?thesis unfolding ledger_inv_def by blast
qed

theorem dispatch_indices_unique_witness:
  "let l = fold (ledger_step (\<lambda>s. s)) [Admit (identity_raw (\<lambda>s. s) ''a'' ''t'' Custom '''' ''x'')] new_ledger
   in \<exists>h. handled l ''a'' = Some h \<and> dispatch_index h = 0 \<and> provider_call_id (identity h) = ''a''"
proof -
  let ?ops = "[Admit (identity_raw (\<lambda>s. s) ''a'' ''t'' Custom '''' ''x'')]"
  let ?l = "fold (ledger_step (\<lambda>s. s)) ?ops new_ledger"
  have n: "next_dispatch_index ?l \<noteq> - 1"
    by (simp add: admit_def new_ledger_def identity_raw_def saturating_add_def)
  obtain h where h: "handled ?l ''a'' = Some h" and 0: "dispatch_index h = 0"
    by (simp add: admit_def new_ledger_def identity_raw_def)
  show ?thesis
    using dispatch_indices_unique [of "\<lambda>s. s" ?ops, OF n h h] h 0 by (auto simp: Let_def)
qed

text \<open>
  Once a duplicate of a call was answered, a late result for that call is suppressed, in every
  later state of the ledger.
\<close>

theorem duplicate_suppresses_late_results:
  assumes "handled l c = Some h" and "synthetic_duplicate_emitted h" and "ledger_inv l"
  shows "ingest_late_result c (fold (ledger_step sha) ops l) = Suppress"
proof -
  have "ledger_below l (fold (ledger_step sha) ops l)"
    by (rule ledger.run_below) (rule assms(3))
  with assms(1,2) obtain k where "handled (fold (ledger_step sha) ops l) c = Some k"
    and "synthetic_duplicate_emitted k"
    by (auto simp: ledger_below_def handled_below_def)
  then show ?thesis by (simp add: ingest_late_result_def)
qed

theorem duplicate_suppresses_late_results_witness:
  "let i = identity_raw (\<lambda>s. s) ''a'' ''t'' Custom '''' ''x'';
       l = fold (ledger_step (\<lambda>s. s)) [Admit i, Admit i] new_ledger
   in ingest_late_result ''a'' (fold (ledger_step (\<lambda>s. s)) [MarkResolution ''a'' Executed] l) = Suppress"
proof -
  let ?i = "identity_raw (\<lambda>s. s) ''a'' ''t'' Custom '''' ''x''"
  let ?l = "fold (ledger_step (\<lambda>s. s)) [Admit ?i, Admit ?i] new_ledger"
  obtain h where "handled ?l ''a'' = Some h" "synthetic_duplicate_emitted h"
    by (simp add: admit_def new_ledger_def identity_raw_def collides_def)
  moreover have "ledger_inv ?l"
    by (rule ledger.run_invar) (rule ledger_inv_new)
  ultimately show ?thesis
    using duplicate_suppresses_late_results [of ?l "''a''" h "\<lambda>s. s" "[MarkResolution ''a'' Executed]"]
    by (simp only: Let_def)
qed

text \<open>
  Reordering the keys of the JSON arguments, at any depth, does not change the identity of a
  call: resubmitted under the same id it is a duplicate, not a collision.
\<close>

theorem reordered_arguments_are_duplicates:
  assumes "json_equiv a b" and "handled l c = None"
  shows "\<exists>m. tro_decision (fst (admit sha (identity_json sha to_string c n k ns b)
           (snd (admit sha (identity_json sha to_string c n k ns a) l)))) = SuppressDuplicate m"
proof -
  have "provider_call_id (identity_json sha to_string c n k ns b) = c"
    by (simp add: identity_json_def)
  with assms(2) show ?thesis
    by (simp add: identity_json_equiv [OF assms(1)] admit_def collides_def)
qed

theorem reordered_arguments_are_duplicates_witness:
  "\<exists>m. tro_decision (fst (admit (\<lambda>s. s)
      (identity_json (\<lambda>s. s) (\<lambda>_. ''x'') ''a'' ''t'' Function '''' (JObject [(''q'', JNull), (''p'', JBool True)]))
      (snd (admit (\<lambda>s. s)
        (identity_json (\<lambda>s. s) (\<lambda>_. ''x'') ''a'' ''t'' Function '''' (JObject [(''p'', JBool True), (''q'', JNull)]))
        new_ledger)))) = SuppressDuplicate m"
proof (rule reordered_arguments_are_duplicates)
  show "json_equiv (JObject [(''p'', JBool True), (''q'', JNull)]) (JObject [(''q'', JNull), (''p'', JBool True)])"
    by (rule json_equiv.object) (auto intro: json_equiv.same)
  show "handled new_ledger ''a'' = None"
    by (simp add: new_ledger_def)
qed

text \<open>
  The bytes that are hashed for a fingerprint determine the call: for NUL-free tool names and
  namespaces, and a NUL-free payload in the JSON encoding (a serializer escapes control characters),
  equal inputs mean equal name, kind, canonical namespace, encoding and payload.
\<close>

theorem fingerprint_input_injective:
  assumes eq: "fingerprint_input n k ns e p = fingerprint_input n' k' ns' e' p'"
    and names: "CHR 0x00 \<notin> set n" "CHR 0x00 \<notin> set n'" "CHR 0x00 \<notin> set ns" "CHR 0x00 \<notin> set ns'"
    and json: "e = JsonArguments \<Longrightarrow> CHR 0x00 \<notin> set p" "e' = JsonArguments \<Longrightarrow> CHR 0x00 \<notin> set p'"
  shows "n = n' \<and> k = k' \<and> canonical_namespace ns = canonical_namespace ns' \<and> e = e' \<and> p = p'"
proof -
  let ?d = "k = Function \<and> canonical_namespace ns = [] \<and> e = JsonArguments"
  let ?d' = "k' = Function \<and> canonical_namespace ns' = [] \<and> e' = JsonArguments"
  let ?t = "[CHR 0x00] @ tool_kind_as_str k @ [CHR 0x00] @ canonical_namespace ns @ [CHR 0x00] @ input_encoding_as_str e"
  let ?t' = "[CHR 0x00] @ tool_kind_as_str k' @ [CHR 0x00] @ canonical_namespace ns' @ [CHR 0x00] @ input_encoding_as_str e'"
  have nuls: "CHR 0x00 \<notin> set (canonical_namespace ns)" "CHR 0x00 \<notin> set (canonical_namespace ns')"
    using names by (simp_all add: canonical_namespace_def)
  have "n @ CHR 0x00 # (p @ (if ?d then [] else ?t)) = n' @ CHR 0x00 # (p' @ (if ?d' then [] else ?t'))"
    using eq unfolding fingerprint_input_def Let_def by simp
  then have nn: "n = n'" and rest: "p @ (if ?d then [] else ?t) = p' @ (if ?d' then [] else ?t')"
    using split_first_sep [OF _ names(1,2)] by blast+
  consider (both) "?d" "?d'" | (left) "?d" "\<not> ?d'" | (right) "\<not> ?d" "?d'" | (none) "\<not> ?d" "\<not> ?d'"
    by blast
  then show ?thesis
  proof cases
    case both
    with nn rest show ?thesis by simp
  next
    case left
    have "p = p' @ ?t'"
      using rest by (simp only: if_P [OF left(1)] if_not_P [OF left(2)] append_Nil2)
    then have "CHR 0x00 \<in> set p" by simp
    with left json show ?thesis by simp
  next
    case right
    have "p' = p @ ?t"
      using rest by (simp only: if_not_P [OF right(1)] if_P [OF right(2)] append_Nil2)
    then have "CHR 0x00 \<in> set p'" by simp
    with right json show ?thesis by simp
  next
    case none
    with rest have "p @ ?t = p' @ ?t'" by (simp only: if_False)
    with nn show ?thesis using tagged_tail_inj [OF _ nuls] by blast
  qed
qed

theorem fingerprint_input_injective_witness:
  "fingerprint_input ''t'' Custom '''' RawCustom ''x'' \<noteq> fingerprint_input ''t'' Function '''' JsonArguments ''x''"
proof
  assume "fingerprint_input ''t'' Custom '''' RawCustom ''x'' = fingerprint_input ''t'' Function '''' JsonArguments ''x''"
  from fingerprint_input_injective [OF this] show False by simp
qed

end
