(* ===== verification/Tool_Observation.thy ===== *)
theory Tool_Observation
  imports Tool_Reliability
begin

text \<open>
  The repetition observer (\<open>crates/vellum-enhanced-codex/src/tool_observation.rs\<close>): it watches
  completed original tool results in dispatch order and reports, once per streak, when the same tool,
  input and result occurred three times in a row.

  \<open>completed\<close> is a \<open>BTreeMap<u64, ObservationSlot>\<close>, a sorted association list of the prelude.
\<close>

section \<open>Data\<close>

definition NATIVE_WAIT_POLL_TOOLS :: "(string \<times> tool_kind_t) list" where
  "NATIVE_WAIT_POLL_TOOLS = [(''wait'', Function)]"

definition REPETITION_NOTICE :: string where
  "REPETITION_NOTICE = ''Notice: the same tool, input, and original result have now occurred three times in a row. Consider a different approach.''"

definition REPETITION_THRESHOLD :: u8 where
  "REPETITION_THRESHOLD = 3"

datatype observation_result_status = ObsSuccess | ObsFailed | ObsCancelled | ObsSynthetic

fun observation_result_status_as_str :: "observation_result_status \<Rightarrow> string" where
  "observation_result_status_as_str ObsSuccess = ''success''"
| "observation_result_status_as_str ObsFailed = ''failed''"
| "observation_result_status_as_str ObsCancelled = ''cancelled''"
| "observation_result_status_as_str ObsSynthetic = ''synthetic''"

record observation_input =
  oi_tool_name :: string
  oi_tool_kind :: tool_kind_t
  oi_namespace :: string
  oi_input_fingerprint :: string
  oi_original_result_fingerprint :: string
  oi_dispatch_index :: u64
  oi_result_status :: observation_result_status
  oi_native_wait_poll :: bool

datatype observation_reason =
    BelowThreshold | RepetitionObserved | NoticeAlreadyEmitted | NativeWaitPollExcluded
  | StatusNotOriginal | TurnReset

fun observation_reason_as_str :: "observation_reason \<Rightarrow> string" where
  "observation_reason_as_str BelowThreshold = ''below_threshold''"
| "observation_reason_as_str RepetitionObserved = ''repetition_observed''"
| "observation_reason_as_str NoticeAlreadyEmitted = ''notice_already_emitted''"
| "observation_reason_as_str NativeWaitPollExcluded = ''native_wait_poll_excluded''"
| "observation_reason_as_str StatusNotOriginal = ''status_not_original''"
| "observation_reason_as_str TurnReset = ''turn_reset''"

record observation_decision =
  consecutive_count :: u8
  emit_diagnostic :: bool
  emit_model_notice :: bool
  standalone_notice :: bool
  reason :: observation_reason
  input_fingerprint_hash :: string
  result_fingerprint_hash :: string
  od_dispatch_index :: u64

record observation_record =
  or_tool_name :: string
  or_tool_kind :: tool_kind_t
  or_namespace :: string
  or_input_fingerprint :: string
  or_original_result_fingerprint :: string

datatype observation_slot = Countable observation_record | SkipSlot

record observation_state =
  completed :: "(u64 \<times> observation_slot) list"
  notice_emitted_for_key :: "observation_record option"
  deferred_notices :: "observation_decision list"

section \<open>Operations\<close>

definition skipped :: "(string \<Rightarrow> string) \<Rightarrow> observation_reason \<Rightarrow> observation_input \<Rightarrow> observation_decision" where
  "skipped sha r input =
     \<lparr>consecutive_count = 0, emit_diagnostic = False, emit_model_notice = False,
      standalone_notice = False, reason = r,
      input_fingerprint_hash = hash_identifier sha (oi_input_fingerprint input),
      result_fingerprint_hash = hash_identifier sha (oi_original_result_fingerprint input),
      od_dispatch_index = oi_dispatch_index input\<rparr>"

definition record_from_input :: "observation_input \<Rightarrow> observation_record" where
  "record_from_input input =
     \<lparr>or_tool_name = oi_tool_name input, or_tool_kind = oi_tool_kind input,
      or_namespace = oi_namespace input, or_input_fingerprint = oi_input_fingerprint input,
      or_original_result_fingerprint = oi_original_result_fingerprint input\<rparr>"

definition same_operation_and_result :: "observation_record \<Rightarrow> observation_record \<Rightarrow> bool" where
  "same_operation_and_result a b \<longleftrightarrow>
     or_tool_name a = or_tool_name b \<and> or_tool_kind a = or_tool_kind b \<and>
     or_namespace a = or_namespace b \<and> or_input_fingerprint a = or_input_fingerprint b \<and>
     or_original_result_fingerprint a = or_original_result_fingerprint b"

definition new_observation :: observation_state where
  "new_observation = \<lparr>completed = [], notice_emitted_for_key = None, deferred_notices = []\<rparr>"

definition reset_observation :: "observation_state \<Rightarrow> observation_state" where
  "reset_observation s = s\<lparr>completed := [], notice_emitted_for_key := None, deferred_notices := []\<rparr>"

definition take_deferred_notices :: "observation_state \<Rightarrow> observation_decision list \<times> observation_state" where
  "take_deferred_notices s = (deferred_notices s, s\<lparr>deferred_notices := []\<rparr>)"

definition is_native_wait_poll :: "string \<Rightarrow> tool_kind_t \<Rightarrow> string \<Rightarrow> bool" where
  "is_native_wait_poll name kind ns =
     (if canonical_namespace ns \<noteq> [] then False
      else list_ex (\<lambda>(n, k). n = name \<and> k = kind) NATIVE_WAIT_POLL_TOOLS)"

text \<open>
  The loop of \<open>trailing_consecutive\<close>: it visits the indices below the last countable one downwards
  and stops at the first hole or different record.
\<close>

fun trail_loop :: "(u64 \<times> observation_slot) list \<Rightarrow> observation_record \<Rightarrow> nat \<Rightarrow> u8 \<Rightarrow> u8" where
  "trail_loop m lst 0 count = count"
| "trail_loop m lst (Suc index) count =
     (case bt_get m (word_of_nat index) of
        Some SkipSlot \<Rightarrow> trail_loop m lst index count
      | Some (Countable r) \<Rightarrow>
          if same_operation_and_result r lst then trail_loop m lst index (saturating_add count 1)
          else count
      | None \<Rightarrow> count)"

fun countable_entry :: "u64 \<times> observation_slot \<Rightarrow> (u64 \<times> observation_record) option" where
  "countable_entry (index, Countable r) = Some (index, r)"
| "countable_entry (index, SkipSlot) = None"

definition trailing_consecutive ::
  "(u64 \<times> observation_slot) list \<Rightarrow> u8 \<times> observation_record option \<times> u64 option"
where
  "trailing_consecutive m =
     (case find_map countable_entry (rev m) of
        None \<Rightarrow> (0, None, None)
      | Some (last_index, lst) \<Rightarrow> (trail_loop m lst (unat last_index) 1, Some lst, Some last_index))"

definition observe ::
  "(string \<Rightarrow> string) \<Rightarrow> observation_input \<Rightarrow> bool \<Rightarrow> observation_state \<Rightarrow>
     observation_decision \<times> observation_state"
where
  "observe sha input repetition_notice s =
     (if oi_native_wait_poll input
         \<or> is_native_wait_poll (oi_tool_name input) (oi_tool_kind input) (oi_namespace input) then
        (skipped sha NativeWaitPollExcluded input,
         s\<lparr>completed := bt_insert (oi_dispatch_index input) SkipSlot (completed s)\<rparr>)
      else if oi_result_status input = ObsCancelled then
        (skipped sha TurnReset input, reset_observation s)
      else if oi_result_status input = ObsSynthetic then
        (skipped sha StatusNotOriginal input, s)
      else
        let s1 = s\<lparr>completed := bt_insert (oi_dispatch_index input)
                       (Countable (record_from_input input)) (completed s)\<rparr>;
            (consecutive, trailing, last_index) = trailing_consecutive (completed s1);
            decision = \<lparr>consecutive_count = consecutive, emit_diagnostic = False,
              emit_model_notice = False, standalone_notice = False, reason = BelowThreshold,
              input_fingerprint_hash = hash_identifier sha (oi_input_fingerprint input),
              result_fingerprint_hash = hash_identifier sha (oi_original_result_fingerprint input),
              od_dispatch_index = oi_dispatch_index input\<rparr>
        in if consecutive < REPETITION_THRESHOLD then
             (decision,
              (case trailing of
                 None \<Rightarrow> s1
               | Some key \<Rightarrow>
                   if notice_emitted_for_key s1 \<noteq> Some key then s1\<lparr>notice_emitted_for_key := None\<rparr> else s1))
           else if (case trailing of None \<Rightarrow> False | Some key \<Rightarrow> notice_emitted_for_key s1 = Some key) then
             (decision\<lparr>reason := NoticeAlreadyEmitted\<rparr>, s1)
           else
             let s2 = s1\<lparr>notice_emitted_for_key := trailing\<rparr>
             in if last_index \<noteq> Some (oi_dispatch_index input) then
                  (decision,
                   s2\<lparr>deferred_notices := deferred_notices s2 @
                     [decision\<lparr>emit_diagnostic := True, standalone_notice := repetition_notice,
                        reason := RepetitionObserved,
                        od_dispatch_index := (case last_index of Some i \<Rightarrow> i | None \<Rightarrow> oi_dispatch_index input)\<rparr>]\<rparr>)
                else
                  (decision\<lparr>emit_diagnostic := True, emit_model_notice := repetition_notice,
                     reason := RepetitionObserved\<rparr>, s2))"

definition fingerprint_original_result :: "(string \<Rightarrow> string) \<Rightarrow> string \<Rightarrow> string option \<Rightarrow> string" where
  "fingerprint_original_result sha result attached_notice =
     (let stripped =
        (case attached_notice of
           Some notice \<Rightarrow>
             if notice \<noteq> []
             then (case strip_suffix result notice of Some r \<Rightarrow> trim_end r | None \<Rightarrow> result)
             else result
         | None \<Rightarrow> result)
      in ''sha256:'' @ sha stripped)"

definition observation_events :: "(string \<Rightarrow> string) \<Rightarrow> observation_decision \<Rightarrow> string \<Rightarrow> enhanced_event list" where
  "observation_events sha d call_id =
     (if \<not> emit_diagnostic d then []
      else
        let flds = no_fields\<lparr>
              f_call_id_hash := Some (hash_identifier sha call_id),
              f_consecutive_count := Some (consecutive_count d),
              f_input_fingerprint_hash := Some (input_fingerprint_hash d),
              f_result_fingerprint_hash := Some (result_fingerprint_hash d),
              f_observation_reason := Some (observation_reason_as_str (reason d)),
              f_outcome := Some (if emit_model_notice d then ''notice''
                                 else if standalone_notice d then ''standalone'' else ''diagnostic'')\<rparr>
        in new_event ToolRepetitionObserved flds #
           (if emit_model_notice d \<or> standalone_notice d
            then [new_event ToolRepetitionNoticeAppended flds] else []))"

section \<open>Reference description of a streak\<close>

text \<open>
  The slots of a turn in which every dispatched call up to \<open>length slots\<close> has completed, and the
  countable records among them, newest first.
\<close>

definition gap_free :: "observation_slot list \<Rightarrow> (u64 \<times> observation_slot) list" where
  "gap_free slots = map (\<lambda>(i, s). (word_of_nat i, s)) (List.enumerate 0 slots)"

fun slot_record :: "observation_slot \<Rightarrow> observation_record option" where
  "slot_record (Countable r) = Some r"
| "slot_record SkipSlot = None"

definition newest_records :: "observation_slot list \<Rightarrow> observation_record list" where
  "newest_records slots = List.map_filter slot_record (rev slots)"

definition streak :: "observation_slot list \<Rightarrow> nat" where
  "streak slots =
     (case newest_records slots of
        [] \<Rightarrow> 0
      | r # rs \<Rightarrow> Suc (length (takeWhile (\<lambda>x. x = r) rs)))"

text \<open>The state after \<open>k\<close> results in dispatch order that all have the record \<open>r\<close>.\<close>

definition repeated_state :: "observation_record \<Rightarrow> nat \<Rightarrow> observation_state" where
  "repeated_state r k =
     \<lparr>completed = gap_free (replicate k (Countable r)),
      notice_emitted_for_key = (if 3 \<le> k then Some r else None), deferred_notices = []\<rparr>"

text \<open>The same result reported \<open>n\<close> times in dispatch order from index \<open>k\<close>.\<close>

fun observe_repeated ::
  "(string \<Rightarrow> string) \<Rightarrow> observation_input \<Rightarrow> bool \<Rightarrow> nat \<Rightarrow> nat \<Rightarrow> observation_state \<Rightarrow>
     observation_decision list \<times> observation_state"
where
  "observe_repeated sha input notice k 0 s = ([], s)"
| "observe_repeated sha input notice k (Suc n) s =
     (let (d, s1) = observe sha (input\<lparr>oi_dispatch_index := word_of_nat k\<rparr>) notice s;
          (ds, s2) = observe_repeated sha input notice (Suc k) n s1
      in (d # ds, s2))"

text \<open>The inputs that count towards a streak.\<close>

definition countable_input :: "observation_input \<Rightarrow> bool" where
  "countable_input input \<longleftrightarrow>
     \<not> oi_native_wait_poll input \<and>
     \<not> is_native_wait_poll (oi_tool_name input) (oi_tool_kind input) (oi_namespace input) \<and>
     oi_result_status input \<noteq> ObsCancelled \<and> oi_result_status input \<noteq> ObsSynthetic"

section \<open>Lemmas on streaks\<close>

lemma same_operation_and_result_eq [simp]: "same_operation_and_result a b \<longleftrightarrow> a = b"
  by (cases a; cases b) (auto simp: same_operation_and_result_def)

lemma map_filter_Nil [simp]: "List.map_filter f [] = []"
  and map_filter_Cons: "List.map_filter f (x # xs) =
    (case f x of None \<Rightarrow> List.map_filter f xs | Some y \<Rightarrow> y # List.map_filter f xs)"
  by (simp_all add: List.map_filter_simps)

lemma newest_records_snoc:
  "newest_records (slots @ [s]) =
     (case s of Countable r \<Rightarrow> r # newest_records slots | SkipSlot \<Rightarrow> newest_records slots)"
  by (cases s) (simp_all add: newest_records_def map_filter_Cons)

lemma gap_free_snoc: "gap_free (slots @ [s]) = gap_free slots @ [(word_of_nat (length slots), s)]"
  by (simp add: gap_free_def enumerate_append_eq)

lemma gap_free_Nil [simp]: "gap_free [] = []"
  by (simp add: gap_free_def)

lemma u64_of_nat_inj: "i < 2 ^ 64 \<Longrightarrow> j < 2 ^ 64 \<Longrightarrow> (word_of_nat i :: u64) = word_of_nat j \<longleftrightarrow> i = j"
  by (metis unat_as_u64 as_u64_def)

lemma u64_of_nat_less: "i < 2 ^ 64 \<Longrightarrow> j < 2 ^ 64 \<Longrightarrow> (word_of_nat i :: u64) < word_of_nat j \<longleftrightarrow> i < j"
  by (metis unat_as_u64 as_u64_def word_less_nat_alt)

lemma bt_get_gap_free:
  "length slots \<le> 2 ^ 64 \<Longrightarrow> i < 2 ^ 64 \<Longrightarrow>
     bt_get (gap_free slots) (word_of_nat i) = (if i < length slots then Some (slots ! i) else None)"
proof (induction slots rule: rev_induct)
  case Nil
  show ?case by (simp add: bt_get_def)
next
  case (snoc s slots)
  then have "(word_of_nat i :: u64) = word_of_nat (length slots) \<longleftrightarrow> i = length slots"
    by (intro u64_of_nat_inj) simp_all
  moreover have "map_of (gap_free slots) (word_of_nat i) = (if i < length slots then Some (slots ! i) else None)"
    using snoc by (simp add: bt_get_def)
  ultimately show ?case
    by (auto simp: bt_get_def gap_free_snoc map_add_def nth_append)
qed

lemma bt_insert_greatest:
  "(\<And>j v. (j, v) \<in> set m \<Longrightarrow> j < k) \<Longrightarrow> bt_insert k v m = m @ [(k, v)]"
  by (induction k v m rule: bt_insert.induct) (auto simp: not_less_iff_gr_or_eq)

lemma gap_free_keys: "(k, s) \<in> set (gap_free slots) \<Longrightarrow> \<exists>i < length slots. k = word_of_nat i"
  by (induction slots rule: rev_induct) (auto simp: gap_free_snoc less_Suc_eq)

lemma bt_insert_gap_free:
  assumes "length slots < 2 ^ 64"
  shows "bt_insert (word_of_nat (length slots)) s (gap_free slots) = gap_free (slots @ [s])"
proof -
  have "j < word_of_nat (length slots)" if "(j, v) \<in> set (gap_free slots)" for j v
  proof -
    from gap_free_keys [OF that] obtain i where "i < length slots" "j = word_of_nat i" by blast
    with assms show ?thesis by (simp add: u64_of_nat_less)
  qed
  then show ?thesis
    by (simp add: bt_insert_greatest gap_free_snoc)
qed

lemma find_countable_gap_free:
  assumes "newest_records slots = r # rs"
  shows "\<exists>j < length slots. newest_records (take j slots) = rs \<and>
     find_map countable_entry (rev (gap_free slots)) = Some (word_of_nat j, r)"
  using assms
proof (induction slots rule: rev_induct)
  case Nil
  then show ?case by (simp add: newest_records_def)
next
  case (snoc s slots)
  show ?case
  proof (cases s)
    case (Countable x)
    with snoc.prems show ?thesis
      by (intro exI [of _ "length slots"]) (simp add: newest_records_snoc gap_free_snoc)
  next
    case SkipSlot
    with snoc obtain j where "j < length slots" "newest_records (take j slots) = rs"
      "find_map countable_entry (rev (gap_free slots)) = Some (word_of_nat j, r)"
      by (auto simp: newest_records_snoc)
    with SkipSlot show ?thesis
      by (intro exI [of _ j]) (simp add: gap_free_snoc)
  qed
qed

lemma find_countable_none:
  "newest_records slots = [] \<Longrightarrow> find_map countable_entry (rev (gap_free slots)) = None"
  by (induction slots rule: rev_induct)
    (auto simp: newest_records_snoc gap_free_snoc split: observation_slot.splits)

lemma unat_succ_u8: "unat (saturating_add c (1 :: u8)) = min 255 (Suc (unat c))"
  using unat_saturating_add [of c 1] by simp

lemma trail_loop_gap_free:
  assumes "length slots \<le> 2 ^ 64" and "i \<le> length slots"
  shows "unat (trail_loop (gap_free slots) r i c) =
    min 255 (unat c + length (takeWhile (\<lambda>x. x = r) (newest_records (take i slots))))"
  using assms(2)
proof (induction i arbitrary: c)
  case 0
  have "unat c < 256" using unat_less_exp [of c] by simp
  then show ?case by (simp add: newest_records_def)
next
  case (Suc i)
  then have get: "bt_get (gap_free slots) (word_of_nat i) = Some (slots ! i)"
    using assms(1) by (simp add: bt_get_gap_free)
  have "take (Suc i) slots = take i slots @ [slots ! i]"
    using Suc.prems by (simp add: take_Suc_conv_app_nth)
  moreover have "unat c < 256" using unat_less_exp [of c] by simp
  ultimately show ?case
    using Suc by (auto simp: get newest_records_snoc unat_succ_u8 split: observation_slot.splits)
qed

lemma trailing_gap_free:
  assumes "length slots < 2 ^ 64"
  shows "unat (fst (trailing_consecutive (gap_free slots))) = min 255 (streak slots)"
    and "fst (snd (trailing_consecutive (gap_free slots))) = first_of (newest_records slots)"
proof -
  have "unat (fst (trailing_consecutive (gap_free slots))) = min 255 (streak slots) \<and>
    fst (snd (trailing_consecutive (gap_free slots))) = first_of (newest_records slots)"
  proof (cases "newest_records slots")
    case Nil
    then show ?thesis
      by (simp add: trailing_consecutive_def find_countable_none streak_def first_of_def)
  next
    case (Cons r rs)
    from find_countable_gap_free [OF Cons] obtain j where j: "j < length slots"
      "newest_records (take j slots) = rs"
      "find_map countable_entry (rev (gap_free slots)) = Some (word_of_nat j, r)"
      by blast
    have "unat (word_of_nat j :: u64) = j"
      using j(1) assms by (metis unat_as_u64 as_u64_def less_trans)
    with j Cons assms show ?thesis
      by (simp add: trailing_consecutive_def trail_loop_gap_free streak_def first_of_def)
  qed
  then show "unat (fst (trailing_consecutive (gap_free slots))) = min 255 (streak slots)"
    and "fst (snd (trailing_consecutive (gap_free slots))) = first_of (newest_records slots)"
    by simp_all
qed

lemma newest_records_replicate: "newest_records (replicate k (Countable r)) = replicate k r"
proof (induction k)
  case (Suc k)
  have "replicate (Suc k) (Countable r) = replicate k (Countable r) @ [Countable r]"
    by (simp add: replicate_append_same)
  with Suc show ?case by (simp only: newest_records_snoc) simp
qed (simp add: newest_records_def)

lemma streak_replicate: "streak (replicate (Suc k) (Countable r)) = Suc k"
proof -
  have "takeWhile (\<lambda>x. x = r) (replicate k r) = replicate k r"
    by (rule takeWhile_eq_all_conv [THEN iffD2]) simp
  then show ?thesis
    by (simp add: streak_def newest_records_replicate del: replicate_Suc) simp
qed

section \<open>Lemmas on observations\<close>

lemma countable_input_index [simp]: "countable_input (input\<lparr>oi_dispatch_index := k\<rparr>) = countable_input input"
  and record_from_input_index [simp]: "record_from_input (input\<lparr>oi_dispatch_index := k\<rparr>) = record_from_input input"
  by (simp_all add: countable_input_def record_from_input_def)

text \<open>The last countable index of a turn without gaps whose newest result is countable.\<close>

lemma trailing_last_index:
  "snd (snd (trailing_consecutive (gap_free (slots @ [Countable r])))) = Some (word_of_nat (length slots))"
  by (simp add: trailing_consecutive_def gap_free_snoc)

lemma u8_less_3: "(c :: u8) < 3 \<longleftrightarrow> unat c < 3"
  by (simp add: word_less_nat_alt)

lemma observe_repeated_step:
  assumes count: "countable_input input" and k: "Suc k < 2 ^ 64" and r: "r = record_from_input input"
    and obs: "observe sha (input\<lparr>oi_dispatch_index := word_of_nat k\<rparr>) notice (repeated_state r k) = (d, s')"
  shows "s' = repeated_state r (Suc k)"
    and "emit_diagnostic d \<longleftrightarrow> k = 2" and "emit_model_notice d \<longleftrightarrow> notice \<and> k = 2" and "\<not> standalone_notice d"
proof -
  let ?slots = "replicate k (Countable r)"
  let ?m = "gap_free (?slots @ [Countable r])"
  have ins: "bt_insert (word_of_nat k) (Countable r) (gap_free ?slots) = ?m"
    using bt_insert_gap_free [of ?slots "Countable r"] k by simp
  have snoc: "?slots @ [Countable r] = replicate (Suc k) (Countable r)"
    by (simp add: replicate_append_same)
  have c: "unat (fst (trailing_consecutive ?m)) = min 255 (Suc k)"
    using trailing_gap_free(1) [of "replicate (Suc k) (Countable r)"] k
    by (simp add: snoc streak_replicate del: replicate_Suc)
  have t: "fst (snd (trailing_consecutive ?m)) = Some r"
    using trailing_gap_free(2) [of "replicate (Suc k) (Countable r)"] k
    by (simp add: snoc newest_records_replicate first_of_def del: replicate_Suc) simp
  have l: "snd (snd (trailing_consecutive ?m)) = Some (word_of_nat k)"
    by (simp add: trailing_last_index)
  obtain cc where tc: "trailing_consecutive ?m = (cc, Some r, Some (word_of_nat k))" and cc: "unat cc = min 255 (Suc k)"
    using c t l by (metis prod.collapse)
  have "\<not> oi_native_wait_poll input" "\<not> is_native_wait_poll (oi_tool_name input) (oi_tool_kind input) (oi_namespace input)"
    "oi_result_status input \<noteq> ObsCancelled" "oi_result_status input \<noteq> ObsSynthetic"
    using count by (simp_all add: countable_input_def)
  note this [simp]
  have eq: "gap_free (replicate (Suc k) (Countable r)) = ?m" by (simp only: snoc)
  have "emit_diagnostic d = (k = 2) \<and> emit_model_notice d = (notice \<and> k = 2) \<and> \<not> standalone_notice d
    \<and> s' = repeated_state r (Suc k)"
    using obs unfolding observe_def repeated_state_def eq
    by (auto simp: REPETITION_THRESHOLD_def Let_def u8_less_3 cc tc ins r [symmetric] split: if_splits)
  then show "s' = repeated_state r (Suc k)" and "emit_diagnostic d \<longleftrightarrow> k = 2"
    and "emit_model_notice d \<longleftrightarrow> notice \<and> k = 2" and "\<not> standalone_notice d"
    by simp_all
qed

lemma observe_repeated_from:
  assumes "countable_input input" and "k + n < 2 ^ 64"
  shows "map (\<lambda>d. (emit_diagnostic d, emit_model_notice d))
      (fst (observe_repeated sha input notice k n (repeated_state (record_from_input input) k)))
    = map (\<lambda>i. (i = 2, notice \<and> i = 2)) [k..<k + n]"
  using assms(2)
proof (induction n arbitrary: k)
  case 0
  show ?case by simp
next
  case (Suc n k)
  then have k: "Suc k < 2 ^ 64" and n: "Suc k + n < 2 ^ 64" by simp_all
  obtain d s' where obs: "observe sha (input\<lparr>oi_dispatch_index := word_of_nat k\<rparr>) notice
      (repeated_state (record_from_input input) k) = (d, s')"
    by fastforce
  have upt: "[k..<k + Suc n] = k # [Suc k..<Suc k + n]" by (simp add: upt_conv_Cons)
  note step = observe_repeated_step [OF assms(1) k refl obs]
  show ?case
    using Suc.IH [OF n]
    by (simp only: observe_repeated.simps obs Let_def split_beta fst_conv snd_conv list.map step(1-3) upt)
qed

lemma new_observation_repeated: "new_observation = repeated_state r 0"
  by (simp add: new_observation_def repeated_state_def)

text \<open>The count never exceeds the matching records that are really stored below the last index.\<close>

lemma trail_loop_card:
  "unat (trail_loop m r i c) \<le>
     unat c + card {j. j < i \<and> bt_get m (word_of_nat j) = Some (Countable r)}"
proof (induction i arbitrary: c)
  case 0
  then show ?case by simp
next
  case (Suc i)
  let ?S = "\<lambda>i. {j. j < i \<and> bt_get m (word_of_nat j) = Some (Countable r)}"
  have le: "card (?S i) \<le> card (?S (Suc i))"
    by (rule card_mono) auto
  show ?case
  proof (cases "bt_get m (word_of_nat i) = Some (Countable r)")
    case True
    then have "?S (Suc i) = insert i (?S i)" by (auto simp: less_Suc_eq)
    then have "card (?S (Suc i)) = Suc (card (?S i))" by simp
    moreover have "unat (saturating_add c 1) \<le> Suc (unat c)" by (simp add: unat_succ_u8)
    ultimately show ?thesis using Suc.IH [of "saturating_add c 1"] True by simp
  next
    case False
    with le Suc.IH [of c] show ?thesis
      by (auto split: option.split observation_slot.split)
  qed
qed

lemma find_map_countable:
  "find_map countable_entry xs =
     map_option (\<lambda>(k, v). (k, the (slot_record v)))
       (find_map (\<lambda>(k, v). if slot_record v \<noteq> None then Some (k, v) else None) xs)"
proof (induction xs)
  case (Cons x xs)
  then show ?case by (cases x; cases "snd x") auto
qed simp

text \<open>The trailing record is stored at the last index, which is the greatest countable one.\<close>

lemma trailing_lookup:
  assumes "bt_inv m" and "trailing_consecutive m = (c, Some r, Some k)"
  shows "bt_get m k = Some (Countable r)" and "c = trail_loop m r (unat k) 1"
proof -
  let ?P = "\<lambda>v. slot_record v \<noteq> None"
  from assms(2) obtain v where
    v: "find_map (\<lambda>(k, v). if ?P v then Some (k, v) else None) (rev m) = Some (k, v)" "the (slot_record v) = r"
    and "c = trail_loop m r (unat k) 1"
    by (auto simp: trailing_consecutive_def find_map_countable split: option.splits prod.splits)
  then show "c = trail_loop m r (unat k) 1" by simp
  show "bt_get m k = Some (Countable r)"
    using bt.last_match_greatest(1,2) [OF assms(1) v(1)] v(2) by (cases v) simp_all
qed

lemma trailing_last_some: "trailing_consecutive m = (c, t, Some k) \<Longrightarrow> \<exists>r. t = Some r"
  by (auto simp: trailing_consecutive_def split: option.splits prod.splits)

lemma card_mono_eq: "card A = n \<Longrightarrow> A \<subseteq> B \<Longrightarrow> finite B \<Longrightarrow> n \<le> card B"
  using card_mono by blast

lemma observe_countable:
  assumes "countable_input input"
  shows "observe sha input notice s =
    (let s1 = s\<lparr>completed := bt_insert (oi_dispatch_index input)
                   (Countable (record_from_input input)) (completed s)\<rparr>;
         (consecutive, trailing, last_index) = trailing_consecutive (completed s1);
         decision = (skipped sha BelowThreshold input)\<lparr>consecutive_count := consecutive\<rparr>
     in if consecutive < 3 then
          (decision, if trailing \<noteq> None \<and> notice_emitted_for_key s1 \<noteq> trailing
                     then s1\<lparr>notice_emitted_for_key := None\<rparr> else s1)
        else if trailing \<noteq> None \<and> notice_emitted_for_key s1 = trailing then
          (decision\<lparr>reason := NoticeAlreadyEmitted\<rparr>, s1)
        else if last_index \<noteq> Some (oi_dispatch_index input) then
          (decision, s1\<lparr>notice_emitted_for_key := trailing,
             deferred_notices := deferred_notices s1 @
               [decision\<lparr>emit_diagnostic := True, standalone_notice := notice, reason := RepetitionObserved,
                  od_dispatch_index := (case last_index of Some i \<Rightarrow> i | None \<Rightarrow> oi_dispatch_index input)\<rparr>]\<rparr>)
        else
          (decision\<lparr>emit_diagnostic := True, emit_model_notice := notice, reason := RepetitionObserved\<rparr>,
           s1\<lparr>notice_emitted_for_key := trailing\<rparr>))"
  using assms
  by (auto simp: observe_def countable_input_def skipped_def Let_def REPETITION_THRESHOLD_def
      split: prod.splits option.splits)

lemma trail_loop_numeral [simp]:
  "trail_loop m r (numeral n) c =
     (case bt_get m (word_of_nat (pred_numeral n)) of
        Some SkipSlot \<Rightarrow> trail_loop m r (pred_numeral n) c
      | Some (Countable x) \<Rightarrow>
          if same_operation_and_result x r then trail_loop m r (pred_numeral n) (saturating_add c 1) else c
      | None \<Rightarrow> c)"
  by (simp only: numeral_eq_Suc trail_loop.simps)

lemmas trailing_simps = trailing_consecutive_def bt_get_def saturating_add_def skipped_def Let_def

section \<open>Properties\<close>

text \<open>
  In a turn without gaps in the dispatch order the observer's count is the length of the current
  streak, the run of equal newest results with native wait and poll calls left out, capped at 255 by
  the 8-bit counter; the reported record is the newest one.
\<close>

theorem trailing_consecutive_streak:
  assumes "length slots < 2 ^ 64"
  shows "unat (fst (trailing_consecutive (gap_free slots))) = min 255 (streak slots) \<and>
    fst (snd (trailing_consecutive (gap_free slots))) = first_of (newest_records slots)"
  using trailing_gap_free [OF assms] by simp

theorem trailing_consecutive_streak_witness:
  "let r = \<lparr>or_tool_name = ''t'', or_tool_kind = Function, or_namespace = '''',
            or_input_fingerprint = ''i'', or_original_result_fingerprint = ''o''\<rparr>
   in unat (fst (trailing_consecutive (gap_free [Countable r, SkipSlot, Countable r]))) = 2"
proof -
  let ?r = "\<lparr>or_tool_name = ''t'', or_tool_kind = Function, or_namespace = '''',
            or_input_fingerprint = ''i'', or_original_result_fingerprint = ''o''\<rparr>"
  have "streak [Countable ?r, SkipSlot, Countable ?r] = 2"
    by (simp add: streak_def newest_records_def map_filter_Cons)
  then show ?thesis
    using trailing_consecutive_streak [of "[Countable ?r, SkipSlot, Countable ?r]"] by simp
qed

text \<open>
  The same original result reported any number of times in dispatch order raises exactly one
  diagnostic, at the third occurrence, and the model sees a notice only there and only when the
  repetition notice is enabled.
\<close>

theorem one_notice_per_streak:
  assumes "countable_input input" and "n < 2 ^ 64"
  shows "let ds = fst (observe_repeated sha input notice 0 n new_observation) in
    map emit_diagnostic ds = map (\<lambda>i. i = 2) [0..<n] \<and>
    map emit_model_notice ds = map (\<lambda>i. notice \<and> i = 2) [0..<n]"
proof -
  let ?ds = "fst (observe_repeated sha input notice 0 n new_observation)"
  have "map (\<lambda>d. (emit_diagnostic d, emit_model_notice d)) ?ds = map (\<lambda>i. (i = 2, notice \<and> i = 2)) [0..<n]"
    using observe_repeated_from [of input 0 n sha notice] assms
    by (simp add: new_observation_repeated [of "record_from_input input"])
  from arg_cong [OF this, of "map fst"] arg_cong [OF this, of "map snd"] show ?thesis
    by (simp add: Let_def comp_def)
qed

theorem one_notice_per_streak_witness:
  "map emit_diagnostic (fst (observe_repeated (\<lambda>s. s)
     \<lparr>oi_tool_name = ''shell'', oi_tool_kind = Function, oi_namespace = '''',
      oi_input_fingerprint = ''i'', oi_original_result_fingerprint = ''o'', oi_dispatch_index = 0,
      oi_result_status = ObsFailed, oi_native_wait_poll = False\<rparr> True 0 5 new_observation))
   = [False, False, True, False, False]"
proof -
  let ?i = "\<lparr>oi_tool_name = ''shell'', oi_tool_kind = Function, oi_namespace = '''',
      oi_input_fingerprint = ''i'', oi_original_result_fingerprint = ''o'', oi_dispatch_index = 0,
      oi_result_status = ObsFailed, oi_native_wait_poll = False\<rparr>"
  have "countable_input ?i"
    by (simp add: countable_input_def is_native_wait_poll_def NATIVE_WAIT_POLL_TOOLS_def)
  then show ?thesis
    using one_notice_per_streak [of ?i 5 "\<lambda>s. s" True] by (simp add: Let_def upt_rec)
qed

text \<open>
  No false alarm: a diagnostic for the call just completed means that at least three stored
  results, this one included, have its tool, input and result.
\<close>

theorem diagnostic_means_three_results:
  assumes inv: "bt_inv (completed s)" and obs: "observe sha input notice s = (d, s')"
    and alarm: "emit_diagnostic d"
  shows "3 \<le> card {k. bt_get (completed s') k = Some (Countable (record_from_input input))}"
proof -
  let ?r = "record_from_input input" and ?k = "oi_dispatch_index input"
  let ?m = "bt_insert ?k (Countable ?r) (completed s)"
  obtain c t l where tc: "trailing_consecutive ?m = (c, t, l)" by (metis prod_cases3)
  have l: "l = Some ?k" and c: "\<not> c < REPETITION_THRESHOLD" and s': "completed s' = ?m"
    using obs alarm tc by (auto simp: observe_def skipped_def Let_def split: if_splits option.splits)
  obtain r where t: "t = Some r" using trailing_last_some tc l by blast
  have binv: "bt_inv ?m" using inv by (rule bt_insert_inv)
  have "bt_get ?m ?k = Some (Countable ?r)" using inv by (simp add: bt_get_insert)
  with trailing_lookup [OF binv, of c r ?k] tc t l have r: "r = ?r" and cc: "c = trail_loop ?m ?r (unat ?k) 1"
    by auto
  let ?J = "{j. j < unat ?k \<and> bt_get ?m (word_of_nat j) = Some (Countable ?r)}"
  have "3 \<le> unat c" using c by (simp add: REPETITION_THRESHOLD_def u8_less_3)
  then have two: "2 \<le> card ?J" using trail_loop_card [of ?m ?r "unat ?k" 1] cc by simp
  have lt: "unat (word_of_nat j :: u64) = j" if "j < unat ?k" for j
    using unat_as_u64 [of j] that unat_less_exp [of ?k] by (simp add: as_u64_def)
  have inj: "inj_on (\<lambda>j. word_of_nat j :: u64) ?J"
    by (rule inj_on_inverseI [where g = unat]) (simp add: lt)
  have "?k \<notin> (\<lambda>j. word_of_nat j) ` ?J" using lt by force
  then have "card (insert ?k ((\<lambda>j. word_of_nat j) ` ?J)) = Suc (card ?J)"
    using inj by (simp add: card_image)
  moreover have "insert ?k ((\<lambda>j. word_of_nat j) ` ?J) \<subseteq> {k. bt_get ?m k = Some (Countable ?r)}"
    using inv by (auto simp: bt_get_insert)
  moreover have "finite {k. bt_get ?m k = Some (Countable ?r)}" by simp
  ultimately have "Suc (card ?J) \<le> card {k. bt_get ?m k = Some (Countable ?r)}"
    by (rule card_mono_eq)
  then show ?thesis using two s' by simp
qed


theorem diagnostic_means_three_results_witness:
  "let input = \<lparr>oi_tool_name = ''shell'', oi_tool_kind = Function, oi_namespace = '''',
          oi_input_fingerprint = ''i'', oi_original_result_fingerprint = ''o'', oi_dispatch_index = 2,
          oi_result_status = ObsFailed, oi_native_wait_poll = False\<rparr>;
       (d, s') = observe (\<lambda>s. s) input True (repeated_state (record_from_input input) 2)
   in emit_diagnostic d \<and>
      3 \<le> card {k. bt_get (completed s') k = Some (Countable (record_from_input input))}"
proof -
  let ?i = "\<lparr>oi_tool_name = ''shell'', oi_tool_kind = Function, oi_namespace = '''',
      oi_input_fingerprint = ''i'', oi_original_result_fingerprint = ''o'', oi_dispatch_index = 2,
      oi_result_status = ObsFailed, oi_native_wait_poll = False\<rparr>"
  let ?s = "repeated_state (record_from_input ?i) 2"
  obtain d s' where obs: "observe (\<lambda>s. s) ?i True ?s = (d, s')" by fastforce
  have "countable_input ?i"
    by (simp add: countable_input_def is_native_wait_poll_def NATIVE_WAIT_POLL_TOOLS_def)
  then have alarm: "emit_diagnostic d"
    using observe_repeated_step(2) [of ?i 2 "record_from_input ?i" "\<lambda>s. s" True d s'] obs by simp
  have "bt_inv (completed ?s)"
    by (simp add: repeated_state_def gap_free_def bt_inv_def numeral_2_eq_2)
  from diagnostic_means_three_results [OF this obs alarm] alarm show ?thesis
    by (simp add: obs)
qed

text \<open>
  A deferred notice can name the wrong operation. When the gap in the dispatch order is closed by
  a call of a different operation, the notice reports the dispatch index of the repeated operation but
  the fingerprints of the call that happened to close the gap.
\<close>

theorem deferred_notice_mislabelled:
  "let a = \<lparr>oi_tool_name = ''shell'', oi_tool_kind = Function, oi_namespace = '''',
          oi_input_fingerprint = ''a'', oi_original_result_fingerprint = ''o'', oi_dispatch_index = 1,
          oi_result_status = ObsFailed, oi_native_wait_poll = False\<rparr>;
       run = (\<lambda>input s. snd (observe sha input True s));
       s = run (a\<lparr>oi_dispatch_index := 0, oi_input_fingerprint := ''b''\<rparr>)
          (run (a\<lparr>oi_dispatch_index := 3, oi_tool_name := ''wait''\<rparr>)
          (run (a\<lparr>oi_dispatch_index := 4\<rparr>) (run (a\<lparr>oi_dispatch_index := 2\<rparr>) (run a new_observation))))
   in \<exists>d. deferred_notices s = [d] \<and> emit_diagnostic d \<and>
        bt_get (completed s) (od_dispatch_index d) = Some (Countable (record_from_input a)) \<and>
        input_fingerprint_hash d = hash_identifier sha ''b''"
proof -
  define a where "a = \<lparr>oi_tool_name = ''shell'', oi_tool_kind = Function, oi_namespace = '''',
    oi_input_fingerprint = ''a'', oi_original_result_fingerprint = ''o'', oi_dispatch_index = 1,
    oi_result_status = ObsFailed, oi_native_wait_poll = False\<rparr>"
  let ?b = "a\<lparr>oi_dispatch_index := 0, oi_input_fingerprint := ''b''\<rparr>" and ?w = "a\<lparr>oi_dispatch_index := 3, oi_tool_name := ''wait''\<rparr>"
  let ?r = "record_from_input a"
  have cnt: "countable_input a" "countable_input ?b" and wait: "is_native_wait_poll ''wait'' (oi_tool_kind ?w) (oi_namespace ?w)"
    by (simp_all add: a_def countable_input_def is_native_wait_poll_def NATIVE_WAIT_POLL_TOOLS_def canonical_namespace_def)
  have idx: "oi_dispatch_index a = 1" by (simp add: a_def)
  have ne: "record_from_input ?b \<noteq> ?r"
    by (simp add: a_def record_from_input_def)
  have 1: "snd (observe sha a True new_observation) =
    \<lparr>completed = [(1, Countable ?r)], notice_emitted_for_key = None, deferred_notices = []\<rparr>"
    using cnt by (simp add: observe_countable new_observation_def trailing_simps idx)
  have 2: "snd (observe sha (a\<lparr>oi_dispatch_index := 2\<rparr>) True \<lparr>completed = [(1, Countable ?r)], notice_emitted_for_key = None, deferred_notices = []\<rparr>) =
    \<lparr>completed = [(1, Countable ?r), (2, Countable ?r)], notice_emitted_for_key = None, deferred_notices = []\<rparr>"
    using cnt by (simp add: observe_countable trailing_simps)
  have 3: "snd (observe sha (a\<lparr>oi_dispatch_index := 4\<rparr>) True \<lparr>completed = [(1, Countable ?r), (2, Countable ?r)], notice_emitted_for_key = None, deferred_notices = []\<rparr>) =
    \<lparr>completed = [(1, Countable ?r), (2, Countable ?r), (4, Countable ?r)], notice_emitted_for_key = None, deferred_notices = []\<rparr>"
    using cnt by (simp add: observe_countable trailing_simps)
  have 4: "snd (observe sha ?w True \<lparr>completed = [(1, Countable ?r), (2, Countable ?r), (4, Countable ?r)], notice_emitted_for_key = None, deferred_notices = []\<rparr>) =
    \<lparr>completed = [(1, Countable ?r), (2, Countable ?r), (3, SkipSlot), (4, Countable ?r)], notice_emitted_for_key = None, deferred_notices = []\<rparr>"
    using wait by (simp add: observe_def)
  have 5: "\<exists>d. deferred_notices s = [d] \<and> emit_diagnostic d \<and> bt_get (completed s) (od_dispatch_index d) = Some (Countable ?r) \<and>
      input_fingerprint_hash d = hash_identifier sha ''b''"
    if "s = snd (observe sha ?b True \<lparr>completed = [(1, Countable ?r), (2, Countable ?r), (3, SkipSlot), (4, Countable ?r)], notice_emitted_for_key = None, deferred_notices = []\<rparr>)" for s
    using cnt ne that by (simp add: observe_countable trailing_simps)
  show ?thesis
    unfolding Let_def a_def [symmetric] using 5 by (simp only: 1 2 3 4)
qed

end
