(* ===== verification/Turn_Hooks.thy ===== *)
theory Turn_Hooks
  imports Bounded_Continuation Config Context_Recovery Tool_Observation
begin

text \<open>
  The seams the patched Codex runtime calls (\<open>crates/vellum-enhanced-codex/src/hooks.rs\<close>): one
  object holds the ledger, the continuation budget, the overflow counter and the repetition observer,
  and every method that belongs to a feature defers to upstream when that feature is off.

  A method that mutates the hooks and the telemetry sink returns its result and both new states.
  Parameters: \<open>sha\<close> as in \<open>Telemetry\<close>; \<open>from_durable_json\<close>, the derived deserializer of the ledger
  (\<open>Inl\<close> is its error message).
\<close>

section \<open>Data\<close>

datatype 'a hook_decision = DeferToUpstream | Handled 'a

record enhanced_turn_hooks =
  features :: enhanced_runtime_features
  ledger :: tool_call_ledger
  continuation :: auto_continuation_budget
  prune_policy :: tool_result_prune_policy
  overflow_retries_used :: u8
  observation :: observation_state

datatype ledger_error = LedgerInvalid string

section \<open>Operations\<close>

definition new_hooks :: "enhanced_runtime_features \<Rightarrow> enhanced_turn_hooks" where
  "new_hooks f =
     \<lparr>features = f, ledger = new_ledger, continuation = default_budget,
      prune_policy = default_prune_policy, overflow_retries_used = 0, observation = new_observation\<rparr>"

definition on_new_user_input :: "enhanced_turn_hooks \<Rightarrow> enhanced_turn_hooks" where
  "on_new_user_input h =
     h\<lparr>continuation := reset_for_user_input (continuation h), overflow_retries_used := 0,
       observation := reset_observation (observation h)\<rparr>"

definition on_assistant_success :: "enhanced_turn_hooks \<Rightarrow> enhanced_turn_hooks" where
  "on_assistant_success h = h\<lparr>overflow_retries_used := 0\<rparr>"

definition on_turn_idle :: "enhanced_turn_hooks \<Rightarrow> enhanced_turn_hooks" where
  "on_turn_idle h =
     h\<lparr>overflow_retries_used := 0, continuation := release_continuation (continuation h),
       observation := reset_observation (observation h)\<rparr>"

definition admit_tool_call ::
  "(string \<Rightarrow> string) \<Rightarrow> provider_tool_call_identity \<Rightarrow> enhanced_turn_hooks \<Rightarrow> memory_telemetry \<Rightarrow>
     admit_decision hook_decision \<times> enhanced_turn_hooks \<times> memory_telemetry"
where
  "admit_tool_call sha i h t =
     (if \<not> qwen_tool_reliability (features h) then (DeferToUpstream, h, t)
      else
        let call_id_hash = hash_identifier sha (provider_call_id i);
            (outcome, l) = admit sha i (ledger h);
            t1 = emit_all (tro_events outcome) t;
            t2 = (if tro_decision outcome = Execute
                  then emit (new_event ToolCallAdmitted
                         (no_fields\<lparr>f_call_id_hash := Some call_id_hash, f_outcome := Some ''execute''\<rparr>)) t1
                  else t1)
        in (Handled (tro_decision outcome), h\<lparr>ledger := l\<rparr>, t2))"

definition complete_original_tool_result ::
  "string \<Rightarrow> enhanced_turn_hooks \<Rightarrow> late_result_decision hook_decision \<times> enhanced_turn_hooks"
where
  "complete_original_tool_result c h =
     (if \<not> qwen_tool_reliability (features h) then (DeferToUpstream, h)
      else let (d, l) = complete_original c (ledger h) in (Handled d, h\<lparr>ledger := l\<rparr>))"

text \<open>The loop over the drained deferred notices.\<close>

fun drain_deferred ::
  "(string \<Rightarrow> string) \<Rightarrow> string \<Rightarrow> observation_decision list \<Rightarrow> observation_decision \<Rightarrow> memory_telemetry \<Rightarrow>
     observation_decision \<times> memory_telemetry"
where
  "drain_deferred sha c [] d t = (d, t)"
| "drain_deferred sha c (deferred # rest) d t =
     drain_deferred sha c rest
       (d\<lparr>emit_diagnostic := emit_diagnostic d \<or> emit_diagnostic deferred,
          standalone_notice := standalone_notice d \<or> standalone_notice deferred\<rparr>)
       (emit_all (observation_events sha deferred c) t)"

definition observe_tool_result ::
  "(string \<Rightarrow> string) \<Rightarrow> string \<Rightarrow> observation_input \<Rightarrow> enhanced_turn_hooks \<Rightarrow> memory_telemetry \<Rightarrow>
     observation_decision \<times> enhanced_turn_hooks \<times> memory_telemetry"
where
  "observe_tool_result sha c input h t =
     (let (decision, o1) = observe sha input (repetition_notice (features h)) (observation h);
          t1 = emit_all (observation_events sha decision c) t;
          (deferred, o2) = take_deferred_notices o1;
          (d, t2) = drain_deferred sha c deferred decision t1
      in (d, h\<lparr>observation := o2\<rparr>, t2))"

definition ingest_late_tool_result :: "string \<Rightarrow> enhanced_turn_hooks \<Rightarrow> late_result_decision hook_decision" where
  "ingest_late_tool_result c h =
     (if \<not> qwen_tool_reliability (features h) then DeferToUpstream
      else Handled (ingest_late_result c (ledger h)))"

definition mark_tool_resolution :: "string \<Rightarrow> tool_call_resolution \<Rightarrow> enhanced_turn_hooks \<Rightarrow> enhanced_turn_hooks" where
  "mark_tool_resolution c r h =
     (if qwen_tool_reliability (features h) then h\<lparr>ledger := mark_resolution c r (ledger h)\<rparr> else h)"

definition pressure_outcome :: "pressure_plan \<Rightarrow> string" where
  "pressure_outcome plan =
     (case (rewritten (prune plan), compact plan) of
        (_, RunNativeCodexLocalCompact) \<Rightarrow> ''native_compact''
      | (True, Skip) \<Rightarrow> ''pruned''
      | (False, Skip) \<Rightarrow> ''unchanged'')"

definition plan_pressure ::
  "model_visible_surface \<Rightarrow> u64 \<Rightarrow> u64 \<Rightarrow> enhanced_turn_hooks \<Rightarrow> memory_telemetry \<Rightarrow>
     pressure_plan hook_decision \<times> memory_telemetry"
where
  "plan_pressure surface context_window_tokens compact_threshold_tokens h t =
     (if \<not> deepseek_context_recovery (features h) then (DeferToUpstream, t)
      else
        let plan = plan_context_pressure surface (prune_policy h) context_window_tokens compact_threshold_tokens;
            t1 = emit (new_event ContextPressureChecked
                   (no_fields\<lparr>f_before_token_estimate := Some (before_token_estimate (prune plan)),
                              f_after_token_estimate := Some (after_token_estimate (prune plan)),
                              f_chars_removed := Some (bytes_removed (prune plan)),
                              f_outcome := Some (pressure_outcome plan)\<rparr>)) t
        in (Handled plan, emit_all (pp_events plan) t1))"

definition plan_overflow ::
  "model_visible_surface \<Rightarrow> model_visible_surface \<Rightarrow> bool \<Rightarrow> enhanced_turn_hooks \<Rightarrow> memory_telemetry \<Rightarrow>
     overflow_plan hook_decision \<times> enhanced_turn_hooks \<times> memory_telemetry"
where
  "plan_overflow before after cancel h t =
     (if \<not> deepseek_context_recovery (features h) then (DeferToUpstream, h, t)
      else
        let plan = plan_overflow_retry
              \<lparr>generation_before = generation before, retries_used = overflow_retries_used h,
               oa_cancelled = cancel\<rparr> before after;
            h1 = (case op_decision plan of
                    Retry retry_index \<Rightarrow> h\<lparr>overflow_retries_used := retry_index\<rparr>
                  | _ \<Rightarrow> h)
        in (Handled plan, h1, emit_all (op_events plan) t))"

fun continuation_outcome :: "continuation_decision \<Rightarrow> string" where
  "continuation_outcome AllowStop = ''allow_stop''"
| "continuation_outcome (Continue _) = ''continue''"
| "continuation_outcome StopCancelled = ''cancelled''"
| "continuation_outcome StopUserSteer = ''user_steer''"
| "continuation_outcome StopBudgetExhausted = ''budget_exhausted''"

definition on_turn_stop ::
  "turn_stop_context \<Rightarrow> enhanced_turn_hooks \<Rightarrow> memory_telemetry \<Rightarrow>
     continuation_plan hook_decision \<times> enhanced_turn_hooks \<times> memory_telemetry"
where
  "on_turn_stop ctx h t =
     (if \<not> qwen_bounded_continuation (features h) then (DeferToUpstream, h, t)
      else
        let h1 = (if user_steer_pending ctx
                  then h\<lparr>overflow_retries_used := 0, observation := reset_observation (observation h)\<rparr> else h);
            h2 = (if cancelled ctx then h1\<lparr>observation := reset_observation (observation h1)\<rparr> else h1);
            (plan, b) = plan_turn_stop ctx (continuation h2);
            t1 = emit (new_event ContinuationEvaluated
                   (no_fields\<lparr>f_unfinished_signal_count := Some (as_u64 (length (unfinished ctx))),
                              f_outcome := Some (continuation_outcome (cp_decision plan))\<rparr>)) t
        in (Handled plan, h2\<lparr>continuation := b\<rparr>, emit_all (cp_events plan) t1))"

definition hooks_commit_continuation ::
  "reserved_continuation \<Rightarrow> enhanced_turn_hooks \<Rightarrow> (continuation_commit_error + unit) \<times> enhanced_turn_hooks"
where
  "hooks_commit_continuation r h =
     (let (res, b) = commit_continuation r (continuation h) in (res, h\<lparr>continuation := b\<rparr>))"

definition hooks_release_continuation :: "enhanced_turn_hooks \<Rightarrow> enhanced_turn_hooks" where
  "hooks_release_continuation h = h\<lparr>continuation := release_continuation (continuation h)\<rparr>"

definition restore_ledger ::
  "(json \<Rightarrow> string + tool_call_ledger) \<Rightarrow> json \<Rightarrow> enhanced_turn_hooks \<Rightarrow> (ledger_error + unit) \<times> enhanced_turn_hooks"
where
  "restore_ledger from_durable_json v h =
     (case from_durable_json v of
        Inl e \<Rightarrow> (Inl (LedgerInvalid e), h)
      | Inr l \<Rightarrow> (Inr (), h\<lparr>ledger := l, observation := reset_observation (observation h)\<rparr>))"

section \<open>Runs of a turn loop\<close>

text \<open>One call of the turn loop, and its effect on the hooks and the telemetry sink.\<close>

datatype hook_op =
    NewUserInput
  | AssistantSuccess
  | TurnIdle
  | AdmitToolCall provider_tool_call_identity
  | CompleteOriginalToolResult string
  | ObserveToolResult string observation_input
  | MarkToolResolution string tool_call_resolution
  | PlanPressure model_visible_surface u64 u64
  | PlanOverflow model_visible_surface model_visible_surface bool
  | TurnStop turn_stop_context
  | CommitContinuation reserved_continuation
  | ReleaseContinuation
  | RestoreLedger json

fun hook_step ::
  "(string \<Rightarrow> string) \<Rightarrow> (json \<Rightarrow> string + tool_call_ledger) \<Rightarrow> hook_op \<Rightarrow>
     enhanced_turn_hooks \<times> memory_telemetry \<Rightarrow> enhanced_turn_hooks \<times> memory_telemetry"
where
  "hook_step sha fd NewUserInput (h, t) = (on_new_user_input h, t)"
| "hook_step sha fd AssistantSuccess (h, t) = (on_assistant_success h, t)"
| "hook_step sha fd TurnIdle (h, t) = (on_turn_idle h, t)"
| "hook_step sha fd (AdmitToolCall i) (h, t) = snd (admit_tool_call sha i h t)"
| "hook_step sha fd (CompleteOriginalToolResult c) (h, t) = (snd (complete_original_tool_result c h), t)"
| "hook_step sha fd (ObserveToolResult c input) (h, t) = snd (observe_tool_result sha c input h t)"
| "hook_step sha fd (MarkToolResolution c r) (h, t) = (mark_tool_resolution c r h, t)"
| "hook_step sha fd (PlanPressure s w thr) (h, t) = (h, snd (plan_pressure s w thr h t))"
| "hook_step sha fd (PlanOverflow b a cancel) (h, t) = snd (plan_overflow b a cancel h t)"
| "hook_step sha fd (TurnStop ctx) (h, t) = snd (on_turn_stop ctx h t)"
| "hook_step sha fd (CommitContinuation r) (h, t) = (snd (hooks_commit_continuation r h), t)"
| "hook_step sha fd ReleaseContinuation (h, t) = (hooks_release_continuation h, t)"
| "hook_step sha fd (RestoreLedger v) (h, t) = (snd (restore_ledger fd v h), t)"

text \<open>The operations of the budget and of the ledger that a call performs.\<close>

fun budget_ops :: "enhanced_runtime_features \<Rightarrow> hook_op \<Rightarrow> budget_op list" where
  "budget_ops f NewUserInput = [UserInput]"
| "budget_ops f TurnIdle = [Release]"
| "budget_ops f (TurnStop ctx) = (if qwen_bounded_continuation f then [PlanStop ctx] else [])"
| "budget_ops f (CommitContinuation r) = [Commit r]"
| "budget_ops f ReleaseContinuation = [Release]"
| "budget_ops f _ = []"

fun ledger_ops :: "enhanced_runtime_features \<Rightarrow> hook_op \<Rightarrow> ledger_op list" where
  "ledger_ops f (AdmitToolCall i) = (if qwen_tool_reliability f then [Admit i] else [])"
| "ledger_ops f (CompleteOriginalToolResult c) = (if qwen_tool_reliability f then [CompleteOriginal c] else [])"
| "ledger_ops f (MarkToolResolution c r) = (if qwen_tool_reliability f then [MarkResolution c r] else [])"
| "ledger_ops f _ = []"

fun is_restore :: "hook_op \<Rightarrow> bool" where
  "is_restore (RestoreLedger _) = True"
| "is_restore _ = False"

text \<open>Calls that give the overflow budget back, and the retries a run grants.\<close>

fun renews_overflow :: "enhanced_runtime_features \<Rightarrow> hook_op \<Rightarrow> bool" where
  "renews_overflow f NewUserInput = True"
| "renews_overflow f AssistantSuccess = True"
| "renews_overflow f TurnIdle = True"
| "renews_overflow f (TurnStop ctx) = (qwen_bounded_continuation f \<and> user_steer_pending ctx)"
| "renews_overflow f _ = False"

fun grants_retry :: "hook_op \<Rightarrow> enhanced_turn_hooks \<times> memory_telemetry \<Rightarrow> bool" where
  "grants_retry (PlanOverflow b a cancel) (h, t) =
     (case fst (plan_overflow b a cancel h t) of
        Handled plan \<Rightarrow> (case op_decision plan of Retry _ \<Rightarrow> True | _ \<Rightarrow> False)
      | DeferToUpstream \<Rightarrow> False)"
| "grants_retry _ _ = False"

fun starts_continuation :: "hook_op \<Rightarrow> enhanced_turn_hooks \<times> memory_telemetry \<Rightarrow> bool" where
  "starts_continuation (CommitContinuation r) (h, t) = (fst (hooks_commit_continuation r h) = Inr ())"
| "starts_continuation _ _ = False"

fun runs_call :: "(string \<Rightarrow> string) \<Rightarrow> string \<Rightarrow> hook_op \<Rightarrow> enhanced_turn_hooks \<times> memory_telemetry \<Rightarrow> bool" where
  "runs_call sha c (AdmitToolCall i) (h, t) =
     (provider_call_id i = c \<and> fst (admit_tool_call sha i h t) = Handled Execute)"
| "runs_call sha c _ _ = False"

definition hooks_inv :: "enhanced_turn_hooks \<times> memory_telemetry \<Rightarrow> bool" where
  "hooks_inv s \<longleftrightarrow>
     budget_inv (continuation (fst s)) \<and> overflow_retries_used (fst s) \<le> MAX_CONTEXT_OVERFLOW_RETRIES \<and>
     deferred_notices (observation (fst s)) = []"

text \<open>The overflow counter is 0 or 1, and a retry takes it from 0 to 1.\<close>

definition overflow_credit :: "enhanced_turn_hooks \<times> memory_telemetry \<Rightarrow> nat" where
  "overflow_credit s = of_bool (overflow_retries_used (fst s) = 0)"

text \<open>The calls a run without any feature may contain, and what a telemetry sink accepts.\<close>

fun touches_observer :: "hook_op \<Rightarrow> bool" where
  "touches_observer (ObserveToolResult _ _) = True"
| "touches_observer _ = False"

definition repeat_result :: "string \<Rightarrow> observation_input \<Rightarrow> nat \<Rightarrow> hook_op list" where
  "repeat_result c input n =
     map (\<lambda>i. ObserveToolResult c (input\<lparr>oi_dispatch_index := word_of_nat i\<rparr>)) [0..<n]"

definition well_named :: "enhanced_event \<Rightarrow> bool" where
  "well_named e \<longleftrightarrow> ev_name e = kind_name (ev_kind e) \<and> f_thread_id_hash (ev_fields e) = None"

definition telemetry_extends :: "memory_telemetry \<Rightarrow> memory_telemetry \<Rightarrow> bool" where
  "telemetry_extends t t' \<longleftrightarrow>
     (\<exists>es. list_all well_named es \<and> t' = emit_all es t)"

section \<open>Lemmas\<close>

lemmas hook_defs = on_new_user_input_def on_assistant_success_def on_turn_idle_def admit_tool_call_def
  complete_original_tool_result_def observe_tool_result_def mark_tool_resolution_def plan_pressure_def
  plan_overflow_def on_turn_stop_def hooks_commit_continuation_def hooks_release_continuation_def
  restore_ledger_def

lemma features_step: "features (fst (hook_step sha fd op s)) = features (fst s)"
  by (cases s; cases op)
    (simp_all add: hook_defs Let_def split_beta split: sum.split overflow_decision.split)

lemma continuation_step:
  "continuation (fst (hook_step sha fd op s)) =
     fold budget_step (budget_ops (features (fst s)) op) (continuation (fst s))"
  by (cases s; cases op)
    (simp_all add: hook_defs Let_def split_beta split: sum.split overflow_decision.split)

lemma ledger_step_hook:
  assumes "\<not> is_restore op"
  shows "ledger (fst (hook_step sha fd op s)) =
     fold (ledger_step sha) (ledger_ops (features (fst s)) op) (ledger (fst s))"
  using assms by (cases s; cases op)
    (simp_all add: hook_defs Let_def split_beta split: sum.split overflow_decision.split)


lemma overflow_decision_retry:
  "op_decision (plan_overflow_retry a before after) = Retry i \<Longrightarrow> i = 1 \<and> retries_used a = 0"
proof (rule ccontr)
  assume retry: "op_decision (plan_overflow_retry a before after) = Retry i"
    and "\<not> (i = 1 \<and> retries_used a = 0)"
  then have zero: "retries_used a = 0" and "i = saturating_add 0 1"
    using overflow_first_retry [of a]
    by (auto simp: plan_overflow_retry_def refused_def Let_def not_le split: if_splits)
  then show False
    using \<open>\<not> (i = 1 \<and> retries_used a = 0)\<close> by (simp add: saturating_add_0_1)
qed

lemma grants_retry_unused: "grants_retry op (h, t) \<Longrightarrow> overflow_retries_used h = 0"
proof (cases op)
  case (PlanOverflow b a cancel)
  let ?a = "\<lparr>generation_before = generation b, retries_used = overflow_retries_used h, oa_cancelled = cancel\<rparr>"
  assume "grants_retry op (h, t)"
  then obtain i where "op_decision (plan_overflow_retry ?a b a) = Retry i"
    unfolding PlanOverflow
    by (cases "op_decision (plan_overflow_retry ?a b a)") (simp_all add: plan_overflow_def Let_def split: if_splits)
  from overflow_decision_retry [OF this] show ?thesis by simp
qed simp_all

lemma overflow_step:
  assumes "\<not> renews_overflow (features (fst s)) op"
  shows "overflow_retries_used (fst (hook_step sha fd op s)) =
    (if grants_retry op s then 1 else overflow_retries_used (fst s))"
    and "grants_retry op s \<Longrightarrow> overflow_retries_used (fst s) = 0"
proof -
  obtain h t where s: "s = (h, t)" by fastforce
  show "overflow_retries_used (fst (hook_step sha fd op s)) =
    (if grants_retry op s then 1 else overflow_retries_used (fst s))"
    using assms unfolding s by (cases op)
      (auto simp: hook_defs Let_def split_beta dest: overflow_decision_retry
        split: sum.split overflow_decision.splits hook_decision.splits if_splits)
  show "grants_retry op s \<Longrightarrow> overflow_retries_used (fst s) = 0"
    using grants_retry_unused by (simp add: s)
qed

lemma overflow_retries_step:
  "overflow_retries_used (fst s) \<le> 1 \<Longrightarrow> overflow_retries_used (fst (hook_step sha fd op s)) \<le> 1"
proof (cases "renews_overflow (features (fst s)) op")
  case True
  then show ?thesis
    by (cases s; cases op) (auto simp: hook_defs Let_def split_beta)
qed (simp add: overflow_step(1))

lemma observe_deferred_empty:
  "deferred_notices (observation (fst (snd (observe_tool_result sha c input h t)))) = []"
  by (simp add: observe_tool_result_def take_deferred_notices_def Let_def split_beta)

lemma hooks_inv_step: "hooks_inv s \<Longrightarrow> hooks_inv (hook_step sha fd op s)"
proof -
  assume inv: "hooks_inv s"
  have "budget_inv (continuation (fst (hook_step sha fd op s)))"
    using inv by (simp add: continuation_step hooks_inv_def budget.run_invar)
  moreover have "overflow_retries_used (fst (hook_step sha fd op s)) \<le> 1"
    using inv by (intro overflow_retries_step) (simp add: hooks_inv_def MAX_CONTEXT_OVERFLOW_RETRIES_def)
  moreover have "deferred_notices (observation (fst (hook_step sha fd op s))) = []"
    using inv by (cases s; cases op)
      (auto simp: hooks_inv_def hook_defs Let_def split_beta reset_observation_def take_deferred_notices_def
        split: sum.split overflow_decision.split)
  ultimately show ?thesis
    by (simp add: hooks_inv_def MAX_CONTEXT_OVERFLOW_RETRIES_def)
qed

lemma features_new_hooks [simp]: "features (new_hooks f) = f"
  and ledger_new_hooks [simp]: "ledger (new_hooks f) = new_ledger"
  and continuation_new_hooks [simp]: "continuation (new_hooks f) = default_budget"
  by (simp_all add: new_hooks_def)

lemma hooks_inv_new: "hooks_inv (new_hooks f, t)"
  by (simp add: hooks_inv_def new_hooks_def budget_inv_default new_observation_def)

interpretation overflow: credit_system "hook_step sha fd" hooks_inv grants_retry
  "\<lambda>op s. renews_overflow (features (fst s)) op" overflow_credit
proof unfold_locales
  fix s op
  show "hooks_inv s \<Longrightarrow> hooks_inv (hook_step sha fd op s)" by (rule hooks_inv_step)
  show "of_bool (grants_retry op s) + overflow_credit (hook_step sha fd op s) \<le> overflow_credit s"
    if "\<not> renews_overflow (features (fst s)) op"
    using overflow_step(1) [OF that, of sha fd] overflow_step(2) [OF that] by (simp add: overflow_credit_def)
qed

lemma features_run [simp]: "features (fst (fold (hook_step sha fd) ops s)) = features (fst s)"
  by (induction ops arbitrary: s) (simp_all add: features_step)

lemma no_renewal_run:
  "list_all (\<lambda>op. \<not> renews_overflow (features (fst s)) op) ops \<Longrightarrow>
     count_events (\<lambda>op s. renews_overflow (features (fst s)) op) (hook_step sha fd) ops s = 0"
  by (induction ops arbitrary: s) (simp_all add: features_step)

text \<open>The hooks refine their components: a run of hook calls is a run of budget and ledger operations.\<close>

lemma continuation_run:
  "continuation (fst (fold (hook_step sha fd) ops s)) =
     fold budget_step (concat (map (budget_ops (features (fst s))) ops)) (continuation (fst s))"
  by (induction ops arbitrary: s) (simp_all add: continuation_step features_step)

lemma ledger_run:
  "list_all (\<lambda>op. \<not> is_restore op) ops \<Longrightarrow> ledger (fst (fold (hook_step sha fd) ops s)) =
     fold (ledger_step sha) (concat (map (ledger_ops (features (fst s))) ops)) (ledger (fst s))"
  by (induction ops arbitrary: s) (simp_all add: ledger_step_hook features_step)

lemma count_events_append:
  "count_events P step (xs @ ys) s = count_events P step xs s + count_events P step ys (fold step xs s)"
  by (induction xs arbitrary: s) simp_all

lemma starts_continuation_count:
  "count_events starts_continuation (hook_step sha fd) ops s =
     commits (concat (map (budget_ops (features (fst s))) ops)) (continuation (fst s))"
proof (induction ops arbitrary: s)
  case (Cons op ops)
  have "commits (budget_ops (features (fst s)) op) (continuation (fst s)) = of_bool (starts_continuation op s)"
    by (cases s; cases op) (auto simp: hooks_commit_continuation_def split_beta)
  with Cons.IH [of "hook_step sha fd op s"] show ?case
    by (simp add: count_events_append continuation_step features_step)
qed simp

lemma runs_call_count:
  "list_all (\<lambda>op. \<not> is_restore op) ops \<Longrightarrow> count_events (runs_call sha c) (hook_step sha fd) ops s =
     count_run (executes sha c) sha (concat (map (ledger_ops (features (fst s))) ops)) (ledger (fst s))"
proof (induction ops arbitrary: s)
  case (Cons op ops)
  have split: "count_run P sha (xs @ ys) l = count_run P sha xs l + count_run P sha ys (fold (ledger_step sha) xs l)"
    for P xs ys l by (induction xs arbitrary: l) simp_all
  have "count_run (executes sha c) sha (ledger_ops (features (fst s)) op) (ledger (fst s)) = of_bool (runs_call sha c op s)"
    by (cases s; cases op) (auto simp: admit_tool_call_def Let_def split_beta)
  with Cons.IH [of "hook_step sha fd op s"] Cons.prems show ?case
    by (simp add: split ledger_step_hook features_step)
qed simp


lemma no_feature_step:
  assumes "\<not> qwen_tool_reliability f" "\<not> deepseek_context_recovery f" "\<not> qwen_bounded_continuation f"
    and "\<not> is_restore op" "\<not> touches_observer op"
  shows "hook_step sha fd op (new_hooks f, t) = (new_hooks f, t)"
  using assms by (cases op)
    (auto simp: hook_defs new_hooks_def reset_for_user_input_def default_budget_def reset_observation_def
      new_observation_def release_continuation_def commit_continuation_def)

lemma well_named_new_event [simp]: "well_named (new_event k f) \<longleftrightarrow> f_thread_id_hash f = None"
  and no_thread_hash [simp]: "f_thread_id_hash no_fields = None"
  by (simp_all add: well_named_def no_fields_def)

lemma telemetry_extends_refl: "telemetry_extends t t"
  unfolding telemetry_extends_def by (rule exI [of _ "[]"]) simp

lemma telemetry_extends_emit_all: "list_all well_named es \<Longrightarrow> telemetry_extends t (emit_all es t)"
  by (auto simp: telemetry_extends_def)

lemma telemetry_extends_trans:
  assumes "telemetry_extends t u" and "telemetry_extends u v"
  shows "telemetry_extends t v"
proof -
  from assms obtain es fs where "list_all well_named es" "u = emit_all es t" "list_all well_named fs" "v = emit_all fs u"
    by (auto simp: telemetry_extends_def)
  then show ?thesis
    unfolding telemetry_extends_def by (intro exI [of _ "es @ fs"]) (simp add: emit_all_append)
qed

lemma telemetry_extends_emit: "well_named e \<Longrightarrow> telemetry_extends t (emit e t)"
  by (simp add: emit_eq_emit_all telemetry_extends_emit_all)

lemma observation_events_named: "list_all well_named (observation_events sha d c)"
  by (simp add: observation_events_def Let_def)

lemma drain_deferred_extends: "telemetry_extends t (snd (drain_deferred sha c ds d t))"
proof (induction sha c ds d t rule: drain_deferred.induct)
  case (2 sha c deferred rest d t)
  have "telemetry_extends t (emit_all (observation_events sha deferred c) t)"
    by (rule telemetry_extends_emit_all) (rule observation_events_named)
  with 2 show ?case by (auto intro: telemetry_extends_trans)
qed (simp add: telemetry_extends_refl)

lemma component_events_named:
  "list_all well_named (tro_events (fst (admit sha i l)))"
  "list_all well_named (op_events (plan_overflow_retry a before after))"
  "list_all well_named (cp_events (fst (plan_turn_stop ctx b)))"
  "list_all well_named (po_events (apply_pressure_prune surface policy w))"
  by (auto simp: admit_def ledger_event_def plan_overflow_retry_def refused_def plan_turn_stop_def
      apply_pressure_prune_def Let_def split: option.split)

lemma pressure_events_named: "list_all well_named (pp_events (plan_context_pressure surface policy w thr))"
  by (auto simp: plan_context_pressure_def Let_def component_events_named)

lemma telemetry_extends_chain:
  "list_all well_named es \<Longrightarrow> well_named e \<Longrightarrow> telemetry_extends t (emit e (emit_all es t))"
  "list_all well_named es \<Longrightarrow> well_named e \<Longrightarrow> telemetry_extends t (emit_all es (emit e t))"
  by (blast intro: telemetry_extends_trans telemetry_extends_emit telemetry_extends_emit_all)+

lemma observe_extends: "telemetry_extends t (snd (snd (observe_tool_result sha c input h t)))"
proof -
  let ?d = "fst (observe sha input (repetition_notice (features h)) (observation h))"
  have "telemetry_extends t (emit_all (observation_events sha ?d c) t)"
    by (rule telemetry_extends_emit_all) (rule observation_events_named)
  then show ?thesis
    by (simp add: observe_tool_result_def Let_def split_beta telemetry_extends_trans [OF _ drain_deferred_extends])
qed

lemma hook_step_extends: "telemetry_extends (snd s) (snd (hook_step sha fd op s))"
  by (cases s; cases op)
    (simp_all add: observe_extends,
     simp_all add: hook_defs Let_def split_beta telemetry_extends_refl telemetry_extends_chain
       telemetry_extends_emit_all component_events_named pressure_events_named)

interpretation hooks: monotone_system "hook_step sha fd" hooks_inv
  "\<lambda>s s'. telemetry_extends (snd s) (snd s') \<and> features (fst s') = features (fst s)"
  by unfold_locales
    (auto simp: telemetry_extends_refl features_step intro: telemetry_extends_trans hook_step_extends)


lemma hooks_repeated:
  assumes "countable_input input" and "n < 2 ^ 64"
  shows "fst (fold (hook_step sha fd) (repeat_result c input n) (new_hooks f, t)) =
      (new_hooks f)\<lparr>observation := repeated_state (record_from_input input) n\<rparr>"
    and "map ev_kind (events (snd (fold (hook_step sha fd) (repeat_result c input n) (new_hooks f, t)))) =
      map ev_kind (events t) @
        (if 3 \<le> n then ToolRepetitionObserved # (if repetition_notice f then [ToolRepetitionNoticeAppended] else [])
         else [])"
proof -
  let ?run = "\<lambda>n. fold (hook_step sha fd) (repeat_result c input n) (new_hooks f, t)"
  let ?r = "record_from_input input"
  have "fst (?run n) = (new_hooks f)\<lparr>observation := repeated_state ?r n\<rparr> \<and>
    map ev_kind (events (snd (?run n))) = map ev_kind (events t) @
      (if 3 \<le> n then ToolRepetitionObserved # (if repetition_notice f then [ToolRepetitionNoticeAppended] else [])
       else [])"
    using assms(2)
  proof (induction n)
    case 0
    show ?case by (simp add: repeat_result_def new_hooks_def new_observation_repeated [of ?r])
  next
    case (Suc n)
    let ?i = "input\<lparr>oi_dispatch_index := word_of_nat n\<rparr>"
    obtain d o' where obs: "observe sha ?i (repetition_notice f) (repeated_state ?r n) = (d, o')" by fastforce
    note o = observe_repeated_step [OF assms(1) Suc.prems HOL.refl obs]
    obtain h u where run: "?run n = (h, u)" by fastforce
    have ih: "h = (new_hooks f)\<lparr>observation := repeated_state ?r n\<rparr>"
      "map ev_kind (events u) = map ev_kind (events t) @ (if 3 \<le> n then ToolRepetitionObserved #
         (if repetition_notice f then [ToolRepetitionNoticeAppended] else []) else [])"
      using Suc run by simp_all
    have step: "?run (Suc n) = hook_step sha fd (ObserveToolResult c ?i) (h, u)"
      using run by (simp add: repeat_result_def)
    have "hook_step sha fd (ObserveToolResult c ?i) (h, u) =
      ((new_hooks f)\<lparr>observation := repeated_state ?r (Suc n)\<rparr>, emit_all (observation_events sha d c) u)"
      using obs by (simp add: ih(1) observe_tool_result_def new_hooks_def take_deferred_notices_def o(1) repeated_state_def)
    moreover have "map ev_kind (observation_events sha d c) = (if n = 2 then ToolRepetitionObserved #
         (if repetition_notice f then [ToolRepetitionNoticeAppended] else []) else [])"
      using o(2-4) by (simp add: observation_events_def Let_def)
    ultimately show ?case
      using ih(2) by (auto simp: step events_emit_all)
  qed
  then show "fst (?run n) = (new_hooks f)\<lparr>observation := repeated_state ?r n\<rparr>"
    and "map ev_kind (events (snd (?run n))) = map ev_kind (events t) @
      (if 3 \<le> n then ToolRepetitionObserved # (if repetition_notice f then [ToolRepetitionNoticeAppended] else [])
       else [])"
    by blast+
qed

lemma no_plan_ops: "\<not> qwen_bounded_continuation f \<Longrightarrow> bop \<in> set (budget_ops f op) \<Longrightarrow> \<not> is_plan bop"
  by (cases op) auto

section \<open>Properties\<close>

text \<open>
  With the three features off, in particular under profile E0, the hooks are a strict no-op: any
  sequence of calls, tool observations and ledger restores excepted, leaves the hooks and the
  telemetry exactly as they were.
\<close>

theorem no_feature_run_is_noop:
  assumes "\<not> qwen_tool_reliability f" "\<not> deepseek_context_recovery f" "\<not> qwen_bounded_continuation f"
    and "list_all (\<lambda>op. \<not> is_restore op \<and> \<not> touches_observer op) ops"
  shows "fold (hook_step sha fd) ops (new_hooks f, t) = (new_hooks f, t)"
  using assms(4) by (induction ops) (simp_all add: no_feature_step [OF assms(1-3)])

theorem no_feature_run_is_noop_witness:
  "fold (hook_step (\<lambda>s. s) (\<lambda>_. Inl ''bad''))
     [NewUserInput, AdmitToolCall (identity_raw (\<lambda>s. s) ''c'' ''shell'' Custom '''' ''ls''),
      TurnStop \<lparr>cancelled = False, user_steer_pending = False, unfinished = [NativePlanIncomplete],
        intent_continuation_enabled = False, natural_stop = True, assistant_final_text = None\<rparr>, TurnIdle]
     (new_hooks (profile_features E0), default_telemetry) = (new_hooks (profile_features E0), default_telemetry)"
  by (rule no_feature_run_is_noop) (simp_all add: all_off_def)

text \<open>
  Observing is not gated by a feature: whatever the features are, under profile E0 too, the third
  identical result in a row emits one repetition event, and the repetition notice alone decides
  whether a notice event follows.
\<close>

theorem repetition_telemetry_ungated:
  assumes "countable_input input" and "n < 2 ^ 64"
  shows "map ev_kind (events (snd (fold (hook_step sha fd) (repeat_result c input n) (new_hooks f, t)))) =
    map ev_kind (events t) @
      (if 3 \<le> n then ToolRepetitionObserved # (if repetition_notice f then [ToolRepetitionNoticeAppended] else [])
       else [])"
  using hooks_repeated(2) [OF assms] .

theorem repetition_telemetry_ungated_witness:
  "let input = \<lparr>oi_tool_name = ''shell'', oi_tool_kind = Function, oi_namespace = '''',
          oi_input_fingerprint = ''i'', oi_original_result_fingerprint = ''o'', oi_dispatch_index = 0,
          oi_result_status = ObsFailed, oi_native_wait_poll = False\<rparr>
   in map ev_kind (events (snd (fold (hook_step (\<lambda>s. s) (\<lambda>_. Inl ''bad''))
        (repeat_result ''c'' input 4) (new_hooks (profile_features E0), default_telemetry)))) = [ToolRepetitionObserved]"
proof -
  let ?i = "\<lparr>oi_tool_name = ''shell'', oi_tool_kind = Function, oi_namespace = '''',
          oi_input_fingerprint = ''i'', oi_original_result_fingerprint = ''o'', oi_dispatch_index = 0,
          oi_result_status = ObsFailed, oi_native_wait_poll = False\<rparr>"
  have "countable_input ?i"
    by (simp add: countable_input_def is_native_wait_poll_def NATIVE_WAIT_POLL_TOOLS_def)
  then show ?thesis
    using repetition_telemetry_ungated [of ?i 4 "\<lambda>s. s" "\<lambda>_. Inl ''bad''" "''c''" "profile_features E0" default_telemetry]
    by (simp add: default_telemetry_def all_off_def)
qed

text \<open>
  C35: Whatever happened before, between two calls that renew the overflow budget (new user input, a
  successful answer, an idle turn, a stop with a pending steer) at most one overflow retry is granted.
\<close>

theorem at_most_one_overflow_retry:
  assumes "list_all (\<lambda>op. \<not> renews_overflow f op) ops"
  shows "count_events grants_retry (hook_step sha fd) ops (fold (hook_step sha fd) before (new_hooks f, t)) \<le> 1"
proof -
  let ?s = "fold (hook_step sha fd) before (new_hooks f, t)"
  have inv: "hooks_inv ?s" by (rule overflow.run_invar) (rule hooks_inv_new)
  have "features (fst ?s) = f" by simp
  then have "count_events (\<lambda>op s. renews_overflow (features (fst s)) op) (hook_step sha fd) ops ?s = 0"
    using no_renewal_run [of ?s ops] assms by simp
  then have "count_events grants_retry (hook_step sha fd) ops ?s \<le> overflow_credit ?s"
    by (rule overflow.events_bound [OF inv])
  also have "\<dots> \<le> 1" by (simp add: overflow_credit_def)
  finally show ?thesis .
qed

theorem at_most_one_overflow_retry_witness:
  "let s = \<lparr>items = [], generation = 0, item_token_estimates = []\<rparr>;
       ops = [PlanOverflow long_surface s False, PlanOverflow long_surface (s\<lparr>generation := 5\<rparr>) False]
   in count_events grants_retry (hook_step (\<lambda>s. s) (\<lambda>_. Inl ''bad'')) ops
        (fold (hook_step (\<lambda>s. s) (\<lambda>_. Inl ''bad'')) [NewUserInput] (new_hooks (profile_features E2), default_telemetry)) \<le> 1"
  unfolding Let_def by (rule at_most_one_overflow_retry) simp

text \<open>
  C34: Through the hooks too, at most two automatic continuations are started between two user turns,
  and none at all when the continuation feature is off.
\<close>

theorem hooks_bound_continuations:
  assumes "list_all (\<lambda>op. \<not> list_ex resets (budget_ops f op)) ops"
  shows "count_events starts_continuation (hook_step sha fd) ops (fold (hook_step sha fd) before (new_hooks f, t))
    \<le> (if qwen_bounded_continuation f then 2 else 0)"
proof -
  let ?s = "fold (hook_step sha fd) before (new_hooks f, t)"
  let ?pre = "concat (map (budget_ops f) before)" and ?ops = "concat (map (budget_ops f) ops)"
  have f: "features (fst ?s) = f" by simp
  have "continuation (fst ?s) = fold budget_step ?pre default_budget"
    using continuation_run [of sha fd before "(new_hooks f, t)"] by simp
  then have count: "count_events starts_continuation (hook_step sha fd) ops ?s = commits ?ops (fold budget_step ?pre default_budget)"
    by (simp add: starts_continuation_count f)
  have "list_all (\<lambda>op. \<not> resets op) ?ops"
    using assms by (auto simp: list_all_iff list_ex_iff)
  from commits_from_default [OF this] have "commits ?ops (fold budget_step ?pre default_budget) \<le> 2" .
  moreover have "commits ?ops (fold budget_step ?pre default_budget) = 0" if "\<not> qwen_bounded_continuation f"
    by (rule commits_without_plan) (use that in \<open>auto simp: list_all_iff no_plan_ops\<close>)
  ultimately show ?thesis
    using count by simp
qed


theorem hooks_bound_continuations_witness:
  "let ctx = \<lparr>cancelled = False, user_steer_pending = False, unfinished = [NativePlanIncomplete],
        intent_continuation_enabled = False, natural_stop = True, assistant_final_text = None\<rparr>;
       ops = [TurnStop ctx, CommitContinuation \<lparr>rc_index = 1\<rparr>, TurnStop ctx, TurnIdle]
   in count_events starts_continuation (hook_step (\<lambda>s. s) (\<lambda>_. Inl ''bad'')) ops
        (fold (hook_step (\<lambda>s. s) (\<lambda>_. Inl ''bad'')) [NewUserInput] (new_hooks (profile_features E3), default_telemetry)) \<le> 2"
proof -
  let ?ctx = "\<lparr>cancelled = False, user_steer_pending = False, unfinished = [NativePlanIncomplete],
        intent_continuation_enabled = False, natural_stop = True, assistant_final_text = None\<rparr>"
  let ?ops = "[TurnStop ?ctx, CommitContinuation \<lparr>rc_index = 1\<rparr>, TurnStop ?ctx, TurnIdle]"
  have "list_all (\<lambda>op. \<not> list_ex resets (budget_ops (profile_features E3) op)) ?ops"
    by (simp add: all_off_def)
  then show ?thesis
    using hooks_bound_continuations [of "profile_features E3" ?ops "\<lambda>s. s" "\<lambda>_. Inl ''bad''" "[NewUserInput]" default_telemetry]
    by (simp only: Let_def profile_features.simps all_off_def) simp
qed

text \<open>
  When a submission of the call id \<open>c\<close> is to be executed: not if the id is known, which it is after its
  first submission. A ledger that is read back successfully takes the place of what was known.
\<close>

fun replaces_ledger :: "(json \<Rightarrow> string + tool_call_ledger) \<Rightarrow> hook_op \<Rightarrow> bool" where
  "replaces_ledger fd (RestoreLedger v) = (case fd v of Inr _ \<Rightarrow> True | Inl _ \<Rightarrow> False)"
| "replaces_ledger fd _ = False"

fun known_after :: "(json \<Rightarrow> string + tool_call_ledger) \<Rightarrow> string \<Rightarrow> hook_op \<Rightarrow> bool \<Rightarrow> bool" where
  "known_after fd c (AdmitToolCall i) known = (known \<or> provider_call_id i = c)"
| "known_after fd c (RestoreLedger v) known = (case fd v of Inr l \<Rightarrow> handled l c \<noteq> None | Inl _ \<Rightarrow> known)"
| "known_after fd c _ known = known"

fun submits :: "string \<Rightarrow> hook_op \<Rightarrow> bool" where
  "submits c (AdmitToolCall i) = (provider_call_id i = c)"
| "submits c _ = False"

fun executions_due :: "(json \<Rightarrow> string + tool_call_ledger) \<Rightarrow> string \<Rightarrow> bool \<Rightarrow> hook_op list \<Rightarrow> nat" where
  "executions_due fd c known [] = 0"
| "executions_due fd c known (op # ops) =
     of_bool (submits c op \<and> \<not> known) + executions_due fd c (known_after fd c op known) ops"

lemma runs_call_iff:
  "qwen_tool_reliability (features (fst s)) \<Longrightarrow> runs_call sha c op s \<longleftrightarrow> submits c op \<and> handled (ledger (fst s)) c = None"
  by (cases s; cases op) (auto simp: admit_tool_call_def admit_def Let_def split_beta split: option.splits)

lemma known_step:
  "qwen_tool_reliability (features (fst s)) \<Longrightarrow>
     handled (ledger (fst (hook_step sha fd op s))) c \<noteq> None \<longleftrightarrow> known_after fd c op (handled (ledger (fst s)) c \<noteq> None)"
  by (cases s; cases op)
    (auto simp: hook_defs admit_def complete_original_def mark_resolution_def Let_def split_beta
      split: option.splits sum.splits overflow_decision.splits if_splits)

lemma runs_call_due:
  "qwen_tool_reliability (features (fst s)) \<Longrightarrow> count_events (runs_call sha c) (hook_step sha fd) ops s =
     executions_due fd c (handled (ledger (fst s)) c \<noteq> None) ops"
proof (induction ops arbitrary: s)
  case (Cons op ops)
  have "features (fst (hook_step sha fd op s)) = features (fst s)" by (rule features_step)
  with Cons.IH [of "hook_step sha fd op s"] Cons.prems show ?case
    by (simp add: runs_call_iff known_step del: not_None_eq)
qed simp

lemma executions_due_known: "list_all (\<lambda>op. \<not> replaces_ledger fd op) ops \<Longrightarrow> executions_due fd c True ops = 0"
proof (induction ops)
  case (Cons op ops)
  then show ?case by (cases op) (auto split: sum.splits)
qed simp

lemma executions_due_once:
  "list_all (\<lambda>op. \<not> replaces_ledger fd op) ops \<Longrightarrow> executions_due fd c False ops = of_bool (list_ex (submits c) ops)"
proof (induction ops)
  case (Cons op ops)
  then show ?case by (cases op) (auto simp: executions_due_known split: sum.splits)
qed simp

text \<open>
  C1: With tool reliability on, a provider call id is executed exactly once in a session, however
  often it is submitted, however the calls are interleaved with other hooks, and whatever arguments a
  later submission carries. This is so until a stored ledger is restored: from then on the id counts as
  executed if and only if the restored ledger holds it, and the count over any run is the one of the
  reference \<open>executions_due\<close>.
\<close>

theorem hooks_execute_exactly_once:
  assumes "qwen_tool_reliability f"
  shows "count_events (runs_call sha c) (hook_step sha fd) ops (new_hooks f, t) = executions_due fd c False ops \<and>
    (list_all (\<lambda>op. \<not> replaces_ledger fd op) ops \<longrightarrow>
       count_events (runs_call sha c) (hook_step sha fd) ops (new_hooks f, t) =
         of_bool (\<exists>i. AdmitToolCall i \<in> set ops \<and> provider_call_id i = c))"
proof -
  have "list_ex (submits c) ops \<longleftrightarrow> (\<exists>i. AdmitToolCall i \<in> set ops \<and> provider_call_id i = c)"
    by (force simp: list_ex_iff elim: submits.elims)
  then show ?thesis
    using runs_call_due [of "(new_hooks f, t)" sha c fd ops] assms by (simp add: executions_due_once new_ledger_def)
qed

theorem hooks_execute_exactly_once_witness:
  "let i = identity_raw (\<lambda>s. s) ''c'' ''shell'' Custom [] ''ls''
   in count_events (runs_call (\<lambda>s. s) ''c'') (hook_step (\<lambda>s. s) (\<lambda>_. Inl ''bad''))
        [AdmitToolCall i, TurnIdle, RestoreLedger JNull, AdmitToolCall i, AdmitToolCall (i\<lparr>tool_name := ''other''\<rparr>)]
        (new_hooks (profile_features E1), default_telemetry) = 1 \<and>
      count_events (runs_call (\<lambda>s. s) ''c'') (hook_step (\<lambda>s. s) (\<lambda>_. Inr new_ledger))
        [AdmitToolCall i, RestoreLedger JNull, AdmitToolCall i, AdmitToolCall i]
        (new_hooks (profile_features E1), default_telemetry) = 2"
proof -
  let ?i = "identity_raw (\<lambda>s. s) ''c'' ''shell'' Custom [] ''ls''"
  have on: "qwen_tool_reliability (profile_features E1)" by (simp add: all_off_def)
  have id: "provider_call_id ?i = ''c''" by (simp add: identity_raw_def)
  show ?thesis
    unfolding Let_def conjunct1 [OF hooks_execute_exactly_once [OF on]] by (simp add: id new_ledger_def)
qed

text \<open>
  Resuming a session never re-executes a tool call: after a ledger that already holds the call is
  restored, no later admission of its id executes, until another ledger is restored.
\<close>

theorem resume_never_reexecutes:
  assumes "fd v = Inr l" and "handled l c \<noteq> None" and "list_all (\<lambda>op. \<not> is_restore op) ops"
  shows "count_events (runs_call sha c) (hook_step sha fd) (RestoreLedger v # ops) s = 0"
proof -
  obtain h t where s: "s = (h, t)" by fastforce
  let ?s = "hook_step sha fd (RestoreLedger v) s"
  have "ledger (fst ?s) = l" using assms(1) by (simp add: s restore_ledger_def)
  with assms(2) show ?thesis
    by (simp add: runs_call_count [OF assms(3)] count_executes)
qed

theorem resume_never_reexecutes_witness:
  "let i = identity_raw (\<lambda>s. s) ''c'' ''shell'' Custom '''' ''ls'';
       fd = (\<lambda>_. Inr (snd (admit (\<lambda>s. s) i new_ledger)))
   in count_events (runs_call (\<lambda>s. s) ''c'') (hook_step (\<lambda>s. s) fd) [RestoreLedger JNull, AdmitToolCall i]
        (new_hooks (profile_features E1), default_telemetry) = 0"
proof -
  let ?i = "identity_raw (\<lambda>s. s) ''c'' ''shell'' Custom [] ''ls''"
  let ?l = "snd (admit (\<lambda>s. s) ?i new_ledger)"
  have "handled ?l ''c'' \<noteq> None"
    by (simp add: admit_def new_ledger_def identity_raw_def)
  then show ?thesis
    unfolding Let_def by (intro resume_never_reexecutes [where l = ?l]) simp_all
qed

text \<open>
  Telemetry is append-only: a run of hooks keeps every earlier event, appends only events that
  carry their kind's wire name, and stamps each with the thread hash of the sink.
\<close>

theorem hooks_telemetry_append_only:
  "let s = fold (hook_step sha fd) before (new_hooks f, for_thread sha thread_id) in
   \<exists>es. events (snd (fold (hook_step sha fd) ops s)) = events (snd s) @ es \<and>
     list_all (\<lambda>e. ev_name e = kind_name (ev_kind e) \<and>
       f_thread_id_hash (ev_fields e) = Some (hash_identifier sha thread_id)) es"
proof -
  let ?s = "fold (hook_step sha fd) before (new_hooks f, for_thread sha thread_id)"
  have "telemetry_extends (for_thread sha thread_id) (snd ?s)"
    using hooks.run_below [OF hooks_inv_new] by fastforce
  then have sink: "sink_thread_id_hash (snd ?s) = Some (hash_identifier sha thread_id)"
    by (auto simp: telemetry_extends_def for_thread_def)
  have "hooks_inv ?s" by (rule overflow.run_invar) (rule hooks_inv_new)
  then have "telemetry_extends (snd ?s) (snd (fold (hook_step sha fd) ops ?s))"
    using hooks.run_below by blast
  then obtain es where es: "list_all well_named es" "snd (fold (hook_step sha fd) ops ?s) = emit_all es (snd ?s)"
    by (auto simp: telemetry_extends_def)
  then show ?thesis
    unfolding Let_def by (intro exI [of _ "map (stamp (snd ?s)) es"])
      (auto simp: events_emit_all list_all_iff well_named_def stamp_def sink)
qed

end
