(* ===== verification/Codex_Identity.thy ===== *)
theory Codex_Identity
  imports Prelude
begin

text \<open>
  The identity a Codex turn carries (\<open>crates/vellum-proxy-runtime/src/codex_metadata.rs\<close>): the
  validated opaque identifiers, the normalized turn identity, and the vocabulary of link methods and
  confidences (\<open>crates/vellum-proxy-runtime/src/diagnostics.rs\<close>).
\<close>

section \<open>Data\<close>

definition MAX_CODEX_ID_BYTES :: nat where
  "MAX_CODEX_ID_BYTES = 256"

text \<open>\<open>CodexOpaqueId\<close> is a newtype over its text.\<close>

type_synonym codex_opaque_id = string

datatype metadata_source_name = CanonicalBody | TurnMetadataHeaderName | CompatibilityHeaders

datatype codex_metadata_error =
    EmptyId string
  | InvalidId string
  | IdTooLong string nat
  | MalformedTurnMetadata metadata_source_name string
  | MetadataTooLarge

datatype codex_identity_source =
    NoSource | CanonicalClientMetadata | TurnMetadataHeader | FlatCompatibilityHeaders
  | MergedStructuredAndCompatibility | LegacyHeuristicSource

datatype codex_identity_trust = NoTrust | Partial | Structured | Exact | Conflict

record codex_turn_identity =
  ti_installation_id :: "codex_opaque_id option"
  ti_session_id :: "codex_opaque_id option"
  ti_thread_id :: "codex_opaque_id option"
  ti_agent_name :: "string option"
  ti_turn_id :: "codex_opaque_id option"
  ti_root_turn_id :: "codex_opaque_id option"
  ti_parent_thread_id :: "codex_opaque_id option"
  ti_parent_turn_id :: "codex_opaque_id option"
  ti_forked_from_thread_id :: "codex_opaque_id option"
  ti_window_id :: "codex_opaque_id option"
  ti_context_window_id :: "codex_opaque_id option"
  ti_request_kind :: "string option"
  ti_subagent_kind :: "string option"
  ti_subagent_header :: "string option"
  ti_thread_source :: "json option"
  ti_source :: codex_identity_source
  ti_trust :: codex_identity_trust
  ti_conflict_fields :: "string list"
  ti_unknown_fields :: "string list"
  ti_schema_fingerprint :: "string option"

datatype subagent_link_method =
    OfficialThreadMetadata | OfficialSubagentActivity | CompatibilityHeader | CallId | ContentHash
  | ConfiguredModel | TimeWindow | NoLinkMethod

datatype link_confidence = High | Medium | Low | NoConfidence

section \<open>Opaque identifiers\<close>

text \<open>\<open>char::is_control\<close>: the code points U+0000 to U+001F and U+007F to U+009F, on the UTF-8 bytes.\<close>

definition is_control :: "string \<Rightarrow> bool" where
  "is_control ch =
     (case map byte_val ch of
        [a] \<Rightarrow> a < 32 \<or> a = 127
      | [a, b] \<Rightarrow> a = 194 \<and> 128 \<le> b \<and> b \<le> 159
      | _ \<Rightarrow> False)"

definition parse_codex_opaque_id :: "string \<Rightarrow> string \<Rightarrow> codex_metadata_error + codex_opaque_id" where
  "parse_codex_opaque_id field v =
     (let trimmed = trim v in
      if trimmed = [] then Inl (EmptyId field)
      else if MAX_CODEX_ID_BYTES < length trimmed then Inl (IdTooLong field (length trimmed))
      else if list_ex is_control (chars trimmed) then Inl (InvalidId field)
      else Inr trimmed)"

definition default_turn_identity :: codex_turn_identity where
  "default_turn_identity =
     \<lparr>ti_installation_id = None, ti_session_id = None, ti_thread_id = None, ti_agent_name = None,
      ti_turn_id = None, ti_root_turn_id = None, ti_parent_thread_id = None, ti_parent_turn_id = None,
      ti_forked_from_thread_id = None, ti_window_id = None, ti_context_window_id = None,
      ti_request_kind = None, ti_subagent_kind = None, ti_subagent_header = None,
      ti_thread_source = None, ti_source = NoSource, ti_trust = NoTrust, ti_conflict_fields = [],
      ti_unknown_fields = [], ti_schema_fingerprint = None\<rparr>"

end
