(* ===== verification/Subagent_Graph.thy ===== *)
theory Subagent_Graph
  imports Codex_Identity "HOL-Library.AList" "HOL-Library.List_Lexorder" "HOL-Library.Char_ord"
begin

text \<open>
  The registry of Codex agent threads (\<open>crates/vellum-proxy-runtime/src/subagent_graph.rs\<close>): threads
  and their parents, executions bound to threads and turns, spawn calls, and the bounded traversals
  that cancellation fans out over.

  A \<open>HashMap\<close> is an association list with distinct keys and a \<open>HashSet\<close> a list without duplicates.
  The order of such a list stands for the unspecified iteration order of the container: the lemmas
  hold for every state that satisfies the invariant, whatever the order of its lists.
\<close>

section \<open>Data\<close>

definition DEFAULT_MAX_GRAPH_NODES :: nat where
  "DEFAULT_MAX_GRAPH_NODES = 4096"

definition DEFAULT_GRAPH_TTL_MS :: u64 where
  "DEFAULT_GRAPH_TTL_MS = 3600 * 1000"

definition MAX_TRAVERSAL_NODES :: nat where
  "MAX_TRAVERSAL_NODES = 1024"

record codex_thread_key =
  tk_session_id :: codex_opaque_id
  tk_thread_id :: codex_opaque_id

record codex_turn_key =
  turn_thread :: codex_thread_key
  turn_turn_id :: codex_opaque_id

record subagent_thread_node =
  node_key :: codex_thread_key
  node_parent :: "codex_thread_key option"
  node_parent_turn_id :: "codex_opaque_id option"
  node_root_turn_id :: "codex_opaque_id option"
  node_forked_from_thread_id :: "codex_opaque_id option"
  node_agent_name :: "string option"
  node_subagent_kind :: "string option"
  node_latest_context_window_id :: "codex_opaque_id option"
  node_first_seen_ms :: u64
  node_last_seen_ms :: u64
  node_terminal :: bool

record thread_execution_binding =
  eb_execution_id :: string
  eb_request_id :: string
  eb_thread :: codex_thread_key
  eb_turn_id :: "codex_opaque_id option"
  eb_root_turn_id :: "codex_opaque_id option"
  eb_context_window_id :: "codex_opaque_id option"
  eb_connection_id :: "string option"
  eb_route_id :: string
  eb_model :: string
  eb_started_at_ms :: u64

datatype spawn_binding_source = AppServerActivity | ExactDataPlaneCorrelation | LegacyHeuristic

datatype codex_subagent_activity_status =
    ActStarted | ActRunning | ActCompleted | ActFailed | ActCancelled | ActUnknown

record codex_subagent_activity =
  act_session_id :: codex_opaque_id
  act_parent_thread_id :: codex_opaque_id
  act_call_id :: string
  act_child_thread_id :: codex_opaque_id
  act_agent_path :: "string option"
  act_status :: codex_subagent_activity_status

record spawn_call_binding =
  sb_parent :: codex_thread_key
  sb_call_id :: string
  sb_child :: codex_thread_key
  sb_observed_at_ms :: u64
  sb_source :: spawn_binding_source

record spawn_binding_result =
  sr_inserted :: bool
  sr_duplicate :: bool
  sr_conflict :: bool

record turn_observation =
  obs_execution_id :: string
  obs_request_id :: string
  obs_connection_id :: "string option"
  obs_route_id :: string
  obs_model :: string
  obs_observed_at_ms :: u64

record graph_observation =
  go_thread :: "codex_thread_key option"
  go_parent :: "codex_thread_key option"
  go_edge_created :: bool
  go_execution_bound :: bool
  go_link_method :: subagent_link_method
  go_confidence :: link_confidence

record prune_stats =
  nodes_pruned :: nat
  executions_pruned :: nat
  bindings_pruned :: nat

datatype subagent_graph_error =
    ConflictingParent string
  | SelfParent string
  | SpawnBindingConflict string
  | CycleDetected
  | TraversalLimitExceeded nat
  | CapacityExceeded

record subagent_graph =
  nodes :: "(codex_thread_key \<times> subagent_thread_node) list"
  executions :: "(string \<times> thread_execution_binding) list"
  thread_executions :: "(codex_thread_key \<times> string list) list"
  turn_executions :: "(codex_turn_key \<times> string list) list"
  children :: "(codex_thread_key \<times> codex_thread_key list) list"
  spawn_bindings :: "(string \<times> spawn_call_binding) list"
  execution_terminal :: "(string \<times> u64) list"

section \<open>Hash containers\<close>

definition hs_insert :: "'a \<Rightarrow> 'a list \<Rightarrow> 'a list" where
  "hs_insert x s = (if x \<in> set s then s else s @ [x])"

text \<open>\<open>entry(k).or_default()\<close> on a map of sets.\<close>

definition hm_set :: "('k \<times> 'a list) list \<Rightarrow> 'k \<Rightarrow> 'a list" where
  "hm_set m k = (case map_of m k of Some s \<Rightarrow> s | None \<Rightarrow> [])"

definition hm_add :: "'k \<Rightarrow> 'a \<Rightarrow> ('k \<times> 'a list) list \<Rightarrow> ('k \<times> 'a list) list" where
  "hm_add k x m = AList.update k (hs_insert x (hm_set m k)) m"

section \<open>Operations\<close>

definition thread_key :: "codex_opaque_id \<Rightarrow> codex_opaque_id \<Rightarrow> codex_thread_key" where
  "thread_key session thread = \<lparr>tk_session_id = session, tk_thread_id = thread\<rparr>"

definition key_formatted :: "codex_thread_key \<Rightarrow> string" where
  "key_formatted k = tk_session_id k @ '':'' @ tk_thread_id k"

definition turn_key :: "codex_thread_key \<Rightarrow> codex_opaque_id \<Rightarrow> codex_turn_key" where
  "turn_key thread turn = \<lparr>turn_thread = thread, turn_turn_id = turn\<rparr>"

definition new_graph :: subagent_graph where
  "new_graph =
     \<lparr>nodes = [], executions = [], thread_executions = [], turn_executions = [], children = [],
      spawn_bindings = [], execution_terminal = []\<rparr>"

definition parent_of ::
  "(codex_thread_key \<times> subagent_thread_node) list \<Rightarrow> codex_thread_key \<Rightarrow> codex_thread_key option"
where
  "parent_of ns k = (case map_of ns k of Some n \<Rightarrow> node_parent n | None \<Rightarrow> None)"

text \<open>
  The loop that checks whether \<open>target\<close> is already an ancestor of \<open>cur\<close>: True where the code returns
  \<open>CycleDetected\<close>. The set of visited ancestors grows with every turn of the loop.
\<close>

function ancestor_cycle ::
  "(codex_thread_key \<times> subagent_thread_node) list \<Rightarrow> codex_thread_key \<Rightarrow> codex_thread_key \<Rightarrow>
     codex_thread_key list \<Rightarrow> bool"
where
  "ancestor_cycle ns target cur visited =
     (if cur = target then True
      else case parent_of ns cur of
        None \<Rightarrow> False
      | Some p \<Rightarrow> if p \<in> set visited then True else ancestor_cycle ns target p (p # visited))"
  by pat_completeness auto
termination
proof (relation "measure (\<lambda>(ns, target, cur, visited).
    card ({p. \<exists>k \<in> fst ` set ns. parent_of ns k = Some p} - set visited))", simp, clarsimp)
  fix ns :: "(codex_thread_key \<times> subagent_thread_node) list" and cur p visited
  assume p: "parent_of ns cur = Some p" "p \<notin> set visited"
  let ?P = "{p. \<exists>k \<in> fst ` set ns. parent_of ns k = Some p}"
  have "finite ?P"
  proof (rule finite_subset)
    show "?P \<subseteq> (\<lambda>k. the (parent_of ns k)) ` fst ` set ns" by force
  qed simp
  moreover have "cur \<in> fst ` set ns"
    using p(1) by (auto simp: parent_of_def split: option.splits dest: map_of_SomeD intro: rev_image_eqI)
  then have "p \<in> ?P" using p(1) by blast
  ultimately show "card ({p. \<exists>k\<in>set ns. parent_of ns (fst k) = Some p} - insert p (set visited))
      < card ({p. \<exists>k\<in>set ns. parent_of ns (fst k) = Some p} - set visited)"
    using p(2) by (intro psubset_card_mono) auto
qed

declare ancestor_cycle.simps [simp del]

definition blank_node :: "codex_thread_key \<Rightarrow> u64 \<Rightarrow> subagent_thread_node" where
  "blank_node k now =
     \<lparr>node_key = k, node_parent = None, node_parent_turn_id = None, node_root_turn_id = None,
      node_forked_from_thread_id = None, node_agent_name = None, node_subagent_kind = None,
      node_latest_context_window_id = None, node_first_seen_ms = now, node_last_seen_ms = now,
      node_terminal = False\<rparr>"

text \<open>The parent branch of \<open>observe_turn\<close>: its checks, the parent node and the edge.\<close>

definition link_parent ::
  "codex_thread_key \<Rightarrow> codex_thread_key \<Rightarrow> u64 \<Rightarrow> subagent_graph \<Rightarrow>
     subagent_graph_error + (bool \<times> subagent_graph)"
where
  "link_parent current p now g =
     (if p = current then Inl (SelfParent (key_formatted current))
      else if ancestor_cycle (nodes g) current p [p] then Inl CycleDetected
      else if (case parent_of (nodes g) current of Some e \<Rightarrow> e \<noteq> p | None \<Rightarrow> False)
        then Inl (ConflictingParent (key_formatted current))
      else
        let ns = (if map_of (nodes g) p = None then AList.update p (blank_node p now) (nodes g) else nodes g);
            edge_created = (current \<notin> set (hm_set (children g) p))
        in Inr (edge_created, g\<lparr>nodes := ns, children := hm_add p current (children g)\<rparr>))"

definition first_some :: "'a option \<Rightarrow> 'a option \<Rightarrow> 'a option" where
  "first_some a b = (case a of Some x \<Rightarrow> Some x | None \<Rightarrow> b)"

definition touch_node ::
  "codex_turn_identity \<Rightarrow> codex_thread_key \<Rightarrow> codex_thread_key option \<Rightarrow> u64 \<Rightarrow> subagent_graph \<Rightarrow> subagent_thread_node"
where
  "touch_node i current parent now g =
     (let n = (case map_of (nodes g) current of
                 Some n \<Rightarrow> n
               | None \<Rightarrow>
                   \<lparr>node_key = current, node_parent = parent, node_parent_turn_id = ti_parent_turn_id i,
                    node_root_turn_id = ti_root_turn_id i,
                    node_forked_from_thread_id = ti_forked_from_thread_id i,
                    node_agent_name = ti_agent_name i, node_subagent_kind = ti_subagent_kind i,
                    node_latest_context_window_id = ti_context_window_id i,
                    node_first_seen_ms = now, node_last_seen_ms = now, node_terminal = False\<rparr>)
      in n\<lparr>node_last_seen_ms := now,
           node_parent := first_some (node_parent n) parent,
           node_parent_turn_id := first_some (node_parent_turn_id n) (ti_parent_turn_id i),
           node_root_turn_id := first_some (node_root_turn_id n) (ti_root_turn_id i),
           node_latest_context_window_id := first_some (ti_context_window_id i) (node_latest_context_window_id n),
           node_agent_name := first_some (ti_agent_name i) (node_agent_name n),
           node_subagent_kind := first_some (ti_subagent_kind i) (node_subagent_kind n)\<rparr>)"

definition bind_execution ::
  "codex_turn_identity \<Rightarrow> codex_thread_key \<Rightarrow> turn_observation \<Rightarrow> subagent_graph \<Rightarrow> subagent_graph"
where
  "bind_execution i current obs g =
     (let e = obs_execution_id obs;
          binding =
            \<lparr>eb_execution_id = e, eb_request_id = obs_request_id obs, eb_thread = current,
             eb_turn_id = ti_turn_id i, eb_root_turn_id = ti_root_turn_id i,
             eb_context_window_id = ti_context_window_id i, eb_connection_id = obs_connection_id obs,
             eb_route_id = obs_route_id obs, eb_model = obs_model obs,
             eb_started_at_ms = obs_observed_at_ms obs\<rparr>
      in g\<lparr>executions := AList.update e binding (executions g),
           thread_executions := hm_add current e (thread_executions g),
           turn_executions :=
             (case ti_turn_id i of
                Some turn \<Rightarrow> hm_add (turn_key current turn) e (turn_executions g)
              | None \<Rightarrow> turn_executions g)\<rparr>)"

fun link_method_of :: "codex_identity_source \<Rightarrow> subagent_link_method" where
  "link_method_of TurnMetadataHeader = OfficialThreadMetadata"
| "link_method_of CanonicalClientMetadata = OfficialThreadMetadata"
| "link_method_of FlatCompatibilityHeaders = CompatibilityHeader"
| "link_method_of _ = OfficialThreadMetadata"

fun confidence_of :: "codex_identity_trust \<Rightarrow> link_confidence" where
  "confidence_of Exact = High"
| "confidence_of Structured = High"
| "confidence_of Partial = Medium"
| "confidence_of _ = NoConfidence"

definition unobserved :: graph_observation where
  "unobserved =
     \<lparr>go_thread = None, go_parent = None, go_edge_created = False, go_execution_bound = False,
      go_link_method = NoLinkMethod, go_confidence = NoConfidence\<rparr>"

definition observe_turn ::
  "codex_turn_identity \<Rightarrow> turn_observation \<Rightarrow> subagent_graph \<Rightarrow>
     (subagent_graph_error + graph_observation) \<times> subagent_graph"
where
  "observe_turn i obs g =
     (if ti_trust i = Conflict then (Inr unobserved, g)
      else case (ti_session_id i, ti_thread_id i) of
        (Some session, Some thread) \<Rightarrow>
          (let current = thread_key session thread;
               now = obs_observed_at_ms obs;
               parent = map_option (thread_key session) (ti_parent_thread_id i)
           in case (case parent of None \<Rightarrow> Inr (False, g) | Some p \<Rightarrow> link_parent current p now g) of
                Inl e \<Rightarrow> (Inl e, g)
              | Inr (edge_created, g1) \<Rightarrow>
                  let g2 = g1\<lparr>nodes := AList.update current (touch_node i current parent now g1) (nodes g1)\<rparr>
                  in (Inr \<lparr>go_thread = Some current, go_parent = parent, go_edge_created = edge_created,
                           go_execution_bound = True, go_link_method = link_method_of (ti_source i),
                           go_confidence = confidence_of (ti_trust i)\<rparr>,
                      bind_execution i current obs g2))
      | _ \<Rightarrow> (Inr unobserved, g))"

definition is_terminal_execution :: "subagent_graph \<Rightarrow> string \<Rightarrow> bool" where
  "is_terminal_execution g e \<longleftrightarrow> map_of (execution_terminal g) e \<noteq> None"

definition active_executions_for_thread :: "subagent_graph \<Rightarrow> codex_thread_key \<Rightarrow> string list" where
  "active_executions_for_thread g k =
     filter (\<lambda>e. \<not> is_terminal_execution g e) (hm_set (thread_executions g) k)"

definition resolve_parent_executions ::
  "codex_opaque_id \<Rightarrow> codex_opaque_id \<Rightarrow> codex_opaque_id option \<Rightarrow> subagent_graph \<Rightarrow> string list \<times> link_confidence"
where
  "resolve_parent_executions session parent_thread parent_turn g =
     (let k = thread_key session parent_thread in
      case parent_turn of
        Some turn \<Rightarrow>
          let active = filter (\<lambda>e. \<not> is_terminal_execution g e) (hm_set (turn_executions g) (turn_key k turn))
          in if active \<noteq> [] then (active, High) else ([], NoConfidence)
      | None \<Rightarrow>
          let active = active_executions_for_thread g k
          in if length active = 1 then (active, Medium) else ([], NoConfidence))"

definition bind_spawn_activity ::
  "codex_subagent_activity \<Rightarrow> subagent_graph \<Rightarrow> (subagent_graph_error + spawn_binding_result) \<times> subagent_graph"
where
  "bind_spawn_activity a g =
     (let parent = thread_key (act_session_id a) (act_parent_thread_id a);
          child = thread_key (act_session_id a) (act_child_thread_id a)
      in if parent = child then (Inl (SelfParent (key_formatted child)), g)
         else if ancestor_cycle (nodes g) child parent [parent] then (Inl CycleDetected, g)
         else case map_of (spawn_bindings g) (act_call_id a) of
           Some existing \<Rightarrow>
             if sb_parent existing = parent \<and> sb_child existing = child
             then (Inr \<lparr>sr_inserted = False, sr_duplicate = True, sr_conflict = False\<rparr>, g)
             else (Inl (SpawnBindingConflict (act_call_id a)), g)
         | None \<Rightarrow>
             if (case parent_of (nodes g) child of Some e \<Rightarrow> e \<noteq> parent | None \<Rightarrow> False)
             then (Inl (ConflictingParent (key_formatted child)), g)
             else
               let n = (case map_of (nodes g) child of
                          Some n \<Rightarrow> n
                        | None \<Rightarrow> (blank_node child 0)\<lparr>node_parent := Some parent, node_agent_name := act_agent_path a\<rparr>)
               in (Inr \<lparr>sr_inserted = True, sr_duplicate = False, sr_conflict = False\<rparr>,
                   g\<lparr>children := hm_add parent child (children g),
                     nodes := AList.update child
                       (n\<lparr>node_parent := first_some (node_parent n) (Some parent)\<rparr>) (nodes g),
                     spawn_bindings := AList.update (act_call_id a)
                       \<lparr>sb_parent = parent, sb_call_id = act_call_id a, sb_child = child,
                        sb_observed_at_ms = 0, sb_source = AppServerActivity\<rparr> (spawn_bindings g)\<rparr>))"


definition children_of :: "codex_thread_key \<Rightarrow> subagent_graph \<Rightarrow> codex_thread_key list" where
  "children_of parent g = hm_set (children g) parent"

text \<open>The inner loop of \<open>descendants_of\<close> over the children of one thread, and the queue loop.\<close>

fun visit_children ::
  "nat \<Rightarrow> codex_thread_key list \<Rightarrow> codex_thread_key list \<times> codex_thread_key list \<times> codex_thread_key list \<Rightarrow>
     subagent_graph_error + codex_thread_key list \<times> codex_thread_key list \<times> codex_thread_key list"
where
  "visit_children max_nodes [] st = Inr st"
| "visit_children max_nodes (child # rest) (visited, result, queue) =
     (if child \<in> set visited then Inl CycleDetected
      else if max_nodes \<le> length result then Inl (TraversalLimitExceeded max_nodes)
      else visit_children max_nodes rest (child # visited, result @ [child], queue @ [child]))"

definition child_pool :: "(codex_thread_key \<times> codex_thread_key list) list \<Rightarrow> codex_thread_key set" where
  "child_pool ch = (\<Union>(k, cs) \<in> set ch. set cs)"

lemma visit_children_Inr:
  "visit_children m cs (v, r, q) = Inr (v', r', q') \<Longrightarrow>
     v' = rev cs @ v \<and> r' = r @ cs \<and> q' = q @ cs \<and> distinct cs \<and> set cs \<inter> set v = {} \<and> length r' \<le> max m (length r)"
  by (induction m cs "(v, r, q)" arbitrary: v r q rule: visit_children.induct) (auto split: if_splits)

lemma hm_set_pool: "x \<in> set (hm_set ch k) \<Longrightarrow> x \<in> child_pool ch"
proof (cases "map_of ch k")
  case (Some s)
  then have "(k, s) \<in> set ch" by (rule map_of_SomeD)
  moreover assume "x \<in> set (hm_set ch k)"
  ultimately show ?thesis using Some by (auto simp: hm_set_def child_pool_def)
qed (simp add: hm_set_def)

function bfs ::
  "(codex_thread_key \<times> codex_thread_key list) list \<Rightarrow> nat \<Rightarrow> codex_thread_key list \<Rightarrow> codex_thread_key list \<Rightarrow>
     codex_thread_key list \<Rightarrow> subagent_graph_error + codex_thread_key list"
where
  "bfs ch max_nodes [] visited result = Inr result"
| "bfs ch max_nodes (current # queue) visited result =
     (case visit_children max_nodes (hm_set ch current) (visited, result, queue) of
        Inl e \<Rightarrow> Inl e
      | Inr (visited', result', queue') \<Rightarrow> bfs ch max_nodes queue' visited' result')"
  by pat_completeness auto
termination
proof (relation "measure (\<lambda>(ch, m, q, v, r). card (child_pool ch - set v) + length q)", simp)
  fix ch :: "(codex_thread_key \<times> codex_thread_key list) list" and m cur q v r x v' y r' q'
  assume "visit_children m (hm_set ch cur) (v, r, q) = Inr x" and "(v', y) = x" and "(r', q') = y"
  then have eq: "v' = rev (hm_set ch cur) @ v" "q' = q @ hm_set ch cur" "distinct (hm_set ch cur)"
    "set (hm_set ch cur) \<inter> set v = {}"
    by (auto dest: visit_children_Inr)
  let ?C = "set (hm_set ch cur)" and ?U = "child_pool ch - set v"
  have fin: "finite ?U" by (auto simp: child_pool_def)
  have sub: "?C \<subseteq> ?U" using eq(4) by (auto dest: hm_set_pool)
  have "child_pool ch - set v' = ?U - ?C" using eq(1) by auto
  then have "card (child_pool ch - set v') + card ?C = card ?U"
    using fin sub by (simp add: card_Diff_subset card_mono finite_subset)
  moreover have "length q' = length q + card ?C"
    using eq(2,3) by (simp add: distinct_card)
  ultimately show "((ch, m, q', v', r'), ch, m, cur # q, v, r)
      \<in> measure (\<lambda>(ch, m, q, v, r). card (child_pool ch - set v) + length q)"
    by simp
qed

definition descendants_of :: "codex_thread_key \<Rightarrow> nat \<Rightarrow> subagent_graph \<Rightarrow> subagent_graph_error + codex_thread_key list" where
  "descendants_of root max_nodes g = bfs (children g) max_nodes [root] [root] []"

definition execution_binding :: "string \<Rightarrow> subagent_graph \<Rightarrow> thread_execution_binding option" where
  "execution_binding e g = map_of (executions g) e"

definition execution_thread :: "string \<Rightarrow> subagent_graph \<Rightarrow> codex_thread_key option" where
  "execution_thread e g = map_option eb_thread (map_of (executions g) e)"

definition thread_has_request_id :: "codex_thread_key \<Rightarrow> string \<Rightarrow> subagent_graph \<Rightarrow> bool" where
  "thread_has_request_id k request_id g =
     (case map_of (thread_executions g) k of
        None \<Rightarrow> False
      | Some es \<Rightarrow>
          list_ex (\<lambda>e. case map_of (executions g) e of Some b \<Rightarrow> eb_request_id b = request_id | None \<Rightarrow> False) es)"

definition routes_for_thread :: "codex_thread_key \<Rightarrow> subagent_graph \<Rightarrow> string list" where
  "routes_for_thread k g =
     sort (remdups (map eb_route_id
       (List.map_filter (\<lambda>e. map_of (executions g) e) (hm_set (thread_executions g) k))))"

definition active_descendant_executions :: "codex_thread_key \<Rightarrow> nat \<Rightarrow> subagent_graph \<Rightarrow> subagent_graph_error + string list" where
  "active_descendant_executions root max_nodes g =
     (case descendants_of root max_nodes g of
        Inl e \<Rightarrow> Inl e
      | Inr ds \<Rightarrow> Inr (concat (map (active_executions_for_thread g) ds)))"

definition mark_execution_terminal :: "string \<Rightarrow> u64 \<Rightarrow> subagent_graph \<Rightarrow> bool \<times> subagent_graph" where
  "mark_execution_terminal e now g =
     (map_of (execution_terminal g) e = None,
      g\<lparr>execution_terminal := AList.update e now (execution_terminal g)\<rparr>)"

text \<open>The steps of \<open>remove_thread\<close> on the children index and on the parents of the detached children.\<close>

definition unlink_from_parent ::
  "codex_thread_key \<Rightarrow> codex_thread_key option \<Rightarrow> (codex_thread_key \<times> codex_thread_key list) list \<Rightarrow>
     (codex_thread_key \<times> codex_thread_key list) list"
where
  "unlink_from_parent key parent ch =
     (case parent of
        None \<Rightarrow> ch
      | Some p \<Rightarrow>
          (case map_of ch p of
             None \<Rightarrow> ch
           | Some s \<Rightarrow>
               let s' = filter (\<lambda>c. c \<noteq> key) s
               in if s' = [] then AList.delete p ch else AList.update p s' ch))"

definition detach_children ::
  "codex_thread_key \<Rightarrow> codex_thread_key list \<Rightarrow> (codex_thread_key \<times> subagent_thread_node) list \<Rightarrow>
     (codex_thread_key \<times> subagent_thread_node) list"
where
  "detach_children key cs ns =
     map (\<lambda>(k, n). (k, if k \<in> set cs \<and> node_parent n = Some key then n\<lparr>node_parent := None\<rparr> else n)) ns"

definition remove_thread :: "codex_thread_key \<Rightarrow> subagent_graph \<Rightarrow> bool \<times> subagent_graph" where
  "remove_thread key g =
     (case map_of (nodes g) key of
        None \<Rightarrow> (False, g)
      | Some removed \<Rightarrow>
          (let ch = unlink_from_parent key (node_parent removed) (children g);
               exec_ids = hm_set (thread_executions g) key
           in (True,
               g\<lparr>nodes := detach_children key (hm_set ch key) (AList.delete key (nodes g)),
                 children := AList.delete key ch,
                 executions := filter (\<lambda>(e, _). e \<notin> set exec_ids) (executions g),
                 execution_terminal := filter (\<lambda>(e, _). e \<notin> set exec_ids) (execution_terminal g),
                 thread_executions := AList.delete key (thread_executions g),
                 turn_executions := filter (\<lambda>(k, _). turn_thread k \<noteq> key) (turn_executions g),
                 spawn_bindings := filter (\<lambda>(_, b). sb_parent b \<noteq> key \<and> sb_child b \<noteq> key) (spawn_bindings g)\<rparr>)))"

definition prune_execution :: "string \<Rightarrow> subagent_graph \<times> nat \<Rightarrow> subagent_graph \<times> nat" where
  "prune_execution e s =
     (case s of (g, n) \<Rightarrow>
        let (g1, n1) =
          (case map_of (executions g) e of
             None \<Rightarrow> (g, n)
           | Some b \<Rightarrow>
               (g\<lparr>executions := AList.delete e (executions g),
                  thread_executions :=
                    (case map_of (thread_executions g) (eb_thread b) of
                       None \<Rightarrow> thread_executions g
                     | Some s \<Rightarrow> AList.update (eb_thread b) (filter (\<lambda>x. x \<noteq> e) s) (thread_executions g))\<rparr>,
                n + 1))
        in (g1\<lparr>execution_terminal := AList.delete e (execution_terminal g1)\<rparr>, n1))"

definition expired_executions :: "u64 \<Rightarrow> u64 \<Rightarrow> subagent_graph \<Rightarrow> string list" where
  "expired_executions now ttl g =
     map fst (filter (\<lambda>(e, t). ttl < saturating_sub now t) (execution_terminal g))"

definition clean_turn_executions :: "subagent_graph \<Rightarrow> subagent_graph" where
  "clean_turn_executions g =
     g\<lparr>turn_executions :=
         filter (\<lambda>(_, s). s \<noteq> [])
           (map (\<lambda>(k, s). (k, filter (\<lambda>e. map_of (executions g) e \<noteq> None) s)) (turn_executions g))\<rparr>"

definition inactive_nodes :: "subagent_graph \<Rightarrow> codex_thread_key list" where
  "inactive_nodes g =
     map fst (sort_key snd
       (map (\<lambda>(k, n). (k, node_last_seen_ms n))
         (filter (\<lambda>(k, _). active_executions_for_thread g k = []) (nodes g))))"

fun evict :: "nat \<Rightarrow> codex_thread_key list \<Rightarrow> subagent_graph \<times> nat \<Rightarrow> subagent_graph \<times> nat" where
  "evict max_nodes [] s = s"
| "evict max_nodes (k # ks) (g, n) =
     (if length (nodes g) \<le> max_nodes then (g, n)
      else let (removed, g1) = remove_thread k g
           in evict max_nodes ks (g1, if removed then n + 1 else n))"

definition prune_graph :: "u64 \<Rightarrow> u64 \<Rightarrow> nat \<Rightarrow> subagent_graph \<Rightarrow> prune_stats \<times> subagent_graph" where
  "prune_graph now ttl max_nodes g =
     (let (g1, n_exec) = fold prune_execution (expired_executions now ttl g) (g, 0);
          g2 = clean_turn_executions g1;
          (g3, n_nodes) =
            (if max_nodes < length (nodes g2) then evict max_nodes (inactive_nodes g2) (g2, 0) else (g2, 0))
      in (\<lparr>nodes_pruned = n_nodes, executions_pruned = n_exec, bindings_pruned = 0\<rparr>, g3))"

definition get_node :: "codex_thread_key \<Rightarrow> subagent_graph \<Rightarrow> subagent_thread_node option" where
  "get_node k g = map_of (nodes g) k"

text \<open>The loop of \<open>node_depth\<close>: the number is the iterations the bound on the depth still allows.\<close>

fun depth_loop ::
  "(codex_thread_key \<times> subagent_thread_node) list \<Rightarrow> nat \<Rightarrow> codex_thread_key \<Rightarrow> codex_thread_key list \<Rightarrow> nat \<Rightarrow> nat option"
where
  "depth_loop ns 0 current visited depth = None"
| "depth_loop ns (Suc left) current visited depth =
     (case map_of ns current of
        None \<Rightarrow> None
      | Some n \<Rightarrow>
          (case node_parent n of
             None \<Rightarrow> Some depth
           | Some p \<Rightarrow>
               if p \<in> set (current # visited) then None
               else depth_loop ns left p (current # visited) (depth + 1)))"

definition node_depth :: "codex_thread_key \<Rightarrow> nat \<Rightarrow> subagent_graph \<Rightarrow> nat option" where
  "node_depth thread max_depth g = depth_loop (nodes g) (Suc max_depth) thread [] 0"


section \<open>Specification vocabulary\<close>

definition parent_edges :: "(codex_thread_key \<times> subagent_thread_node) list \<Rightarrow> (codex_thread_key \<times> codex_thread_key) set" where
  "parent_edges ns = {(c, p). parent_of ns c = Some p}"

text \<open>
  The structure of the graph: the children index is the inverse of the parent pointers, and the
  parent pointers have no cycle.
\<close>

definition graph_inv :: "subagent_graph \<Rightarrow> bool" where
  "graph_inv g \<longleftrightarrow>
     distinct (map fst (nodes g)) \<and>
     (\<forall>p. distinct (hm_set (children g) p)) \<and>
     (\<forall>p c. c \<in> set (hm_set (children g) p) \<longleftrightarrow> parent_of (nodes g) c = Some p) \<and>
     acyclic (parent_edges (nodes g))"

text \<open>The threads below a thread, and the ancestors of a thread.\<close>

definition descendants :: "subagent_graph \<Rightarrow> codex_thread_key \<Rightarrow> codex_thread_key set" where
  "descendants g root = {c. (c, root) \<in> (parent_edges (nodes g))\<^sup>+}"

text \<open>The executions: the index by thread is the inverse of the bindings, and the index by turn agrees with them.\<close>

definition exec_inv :: "subagent_graph \<Rightarrow> bool" where
  "exec_inv g \<longleftrightarrow>
     distinct (map fst (turn_executions g)) \<and>
     (\<forall>k e. e \<in> set (hm_set (thread_executions g) k) \<longleftrightarrow> execution_thread e g = Some k) \<and>
     (\<forall>k e. e \<in> set (hm_set (turn_executions g) k) \<longrightarrow>
        (\<exists>b. map_of (executions g) e = Some b \<and> eb_thread b = turn_thread k \<and> eb_turn_id b = Some (turn_turn_id k)))"

text \<open>The same with an index by turn that may still name removed executions, and the active executions as a set.\<close>

definition thread_index_ok :: "subagent_graph \<Rightarrow> bool" where
  "thread_index_ok g \<longleftrightarrow> (\<forall>k e. e \<in> set (hm_set (thread_executions g) k) \<longleftrightarrow> execution_thread e g = Some k)"

definition turn_weak :: "subagent_graph \<Rightarrow> bool" where
  "turn_weak g \<longleftrightarrow>
     distinct (map fst (turn_executions g)) \<and>
     (\<forall>k e b. e \<in> set (hm_set (turn_executions g) k) \<longrightarrow> map_of (executions g) e = Some b \<longrightarrow>
        eb_thread b = turn_thread k \<and> eb_turn_id b = Some (turn_turn_id k))"

definition active_set :: "subagent_graph \<Rightarrow> codex_thread_key \<Rightarrow> string set" where
  "active_set g k = {e. execution_thread e g = Some k \<and> \<not> is_terminal_execution g e}"

text \<open>The state after the first phase of \<open>prune\<close>, before any thread is evicted.\<close>

definition swept :: "u64 \<Rightarrow> u64 \<Rightarrow> subagent_graph \<Rightarrow> subagent_graph" where
  "swept now ttl g = clean_turn_executions (fst (fold prune_execution (expired_executions now ttl g) (g, 0)))"

text \<open>The state of the breadth-first search.\<close>

definition bfs_inv ::
  "subagent_graph \<Rightarrow> codex_thread_key \<Rightarrow> codex_thread_key list \<Rightarrow> codex_thread_key list \<Rightarrow> codex_thread_key list \<Rightarrow> bool"
where
  "bfs_inv g root queue visited result \<longleftrightarrow>
     set visited = insert root (set result) \<and> distinct result \<and> distinct queue \<and> set queue \<subseteq> set visited \<and>
     set result \<subseteq> descendants g root \<and>
     (\<forall>v \<in> set visited - set queue. set (hm_set (children g) v) \<subseteq> set result) \<and>
     (\<forall>c \<in> set result. \<forall>p. parent_of (nodes g) c = Some p \<longrightarrow> p \<in> set visited - set queue)"

text \<open>The number of parents above a thread whose chain of parents ends in a known root.\<close>

inductive depth_of :: "(codex_thread_key \<times> subagent_thread_node) list \<Rightarrow> codex_thread_key \<Rightarrow> nat \<Rightarrow> bool" where
  root: "map_of ns k = Some n \<Longrightarrow> node_parent n = None \<Longrightarrow> depth_of ns k 0"
| child: "map_of ns k = Some n \<Longrightarrow> node_parent n = Some p \<Longrightarrow> depth_of ns p d \<Longrightarrow> depth_of ns k (Suc d)"

inductive_cases depth_ofE: "depth_of ns k d"

text \<open>An execution id is used for one thread and turn only.\<close>

definition fresh_execution :: "codex_turn_identity \<Rightarrow> codex_thread_key \<Rightarrow> string \<Rightarrow> subagent_graph \<Rightarrow> bool" where
  "fresh_execution i c e g \<longleftrightarrow>
     (case map_of (executions g) e of
        None \<Rightarrow> True
      | Some b \<Rightarrow> eb_thread b = c \<and> eb_turn_id b = ti_turn_id i)"

datatype graph_op =
    ObserveTurn codex_turn_identity turn_observation
  | BindSpawn codex_subagent_activity
  | MarkTerminal string u64
  | RemoveThread codex_thread_key
  | Prune u64 u64 nat

fun graph_step :: "graph_op \<Rightarrow> subagent_graph \<Rightarrow> subagent_graph" where
  "graph_step (ObserveTurn i obs) g = snd (observe_turn i obs g)"
| "graph_step (BindSpawn a) g = snd (bind_spawn_activity a g)"
| "graph_step (MarkTerminal e now) g = snd (mark_execution_terminal e now g)"
| "graph_step (RemoveThread k) g = snd (remove_thread k g)"
| "graph_step (Prune now ttl m) g = snd (prune_graph now ttl m g)"

text \<open>A registry with a main thread and a child that it spawned, each with a running execution.\<close>

definition demo_turn :: "string \<Rightarrow> string option \<Rightarrow> codex_turn_identity" where
  "demo_turn thread parent =
     default_turn_identity\<lparr>ti_session_id := Some ''s'', ti_thread_id := Some thread, ti_turn_id := Some ''t1'',
       ti_parent_thread_id := parent, ti_trust := Exact\<rparr>"

definition demo_observation :: "string \<Rightarrow> turn_observation" where
  "demo_observation e =
     \<lparr>obs_execution_id = e, obs_request_id = ''r'', obs_connection_id = None, obs_route_id = ''route'',
      obs_model = ''m'', obs_observed_at_ms = 1\<rparr>"

definition demo_graph :: subagent_graph where
  "demo_graph =
     snd (observe_turn (demo_turn ''child'' (Some ''main'')) (demo_observation ''e2'')
       (snd (observe_turn (demo_turn ''main'' None) (demo_observation ''e1'') new_graph)))"

section \<open>Lemmas on the containers\<close>

lemma hm_set_update: "hm_set (AList.update k s m) j = (if j = k then s else hm_set m j)"
  by (simp add: hm_set_def update_conv')

lemma hm_set_delete: "hm_set (AList.delete k m) j = (if j = k then [] else hm_set m j)"
  by (simp add: hm_set_def delete_conv')

lemma hm_set_add: "hm_set (hm_add k x m) j = (if j = k then hs_insert x (hm_set m k) else hm_set m j)"
  by (simp add: hm_add_def hm_set_update)

lemma set_hs_insert [simp]: "set (hs_insert x s) = insert x (set s)"
  and distinct_hs_insert [simp]: "distinct (hs_insert x s) \<longleftrightarrow> distinct s"
  by (auto simp: hs_insert_def)

lemma parent_of_update: "parent_of (AList.update k n ns) c = (if c = k then node_parent n else parent_of ns c)"
  by (simp add: parent_of_def update_conv')

section \<open>The ancestor walk\<close>

lemma parent_step: "(cur, t) \<in> (parent_edges ns)\<^sup>* \<Longrightarrow> cur \<noteq> t \<Longrightarrow>
    \<exists>p. parent_of ns cur = Some p \<and> (p, t) \<in> (parent_edges ns)\<^sup>*"
  by (erule converse_rtranclE) (auto simp: parent_edges_def)

lemma ancestor_cycle_sound:
  "\<not> ancestor_cycle ns target cur visited \<Longrightarrow> (cur, target) \<notin> (parent_edges ns)\<^sup>*"
proof (induction ns target cur visited rule: ancestor_cycle.induct)
  case (1 ns target cur visited)
  show ?case
  proof
    assume reach: "(cur, target) \<in> (parent_edges ns)\<^sup>*"
    have ne: "cur \<noteq> target" using "1.prems" by (auto simp: ancestor_cycle.simps [of ns target cur])
    from parent_step [OF reach ne] obtain p where p: "parent_of ns cur = Some p" "(p, target) \<in> (parent_edges ns)\<^sup>*"
      by blast
    have "p \<notin> set visited" "\<not> ancestor_cycle ns target p (p # visited)"
      using "1.prems" p(1) ne by (auto simp: ancestor_cycle.simps [of ns target cur] split: if_splits)
    with "1.IH" ne p show False by blast
  qed
qed

lemma ancestor_cycle_complete:
  assumes "acyclic (parent_edges ns)"
  shows "\<forall>v \<in> set visited. (v, cur) \<in> (parent_edges ns)\<^sup>* \<Longrightarrow>
    ancestor_cycle ns target cur visited \<longleftrightarrow> (cur, target) \<in> (parent_edges ns)\<^sup>*"
  using assms
proof (induction ns target cur visited rule: ancestor_cycle.induct)
  case (1 ns target cur visited)
  let ?E = "parent_edges ns"
  show ?case
  proof (cases "cur = target \<or> parent_of ns cur = None")
    case True
    then show ?thesis
      using parent_step [of cur target ns] by (auto simp: ancestor_cycle.simps [of ns target cur])
  next
    case False
    then obtain p where ne: "cur \<noteq> target" and p: "parent_of ns cur = Some p" by blast
    have edge: "(cur, p) \<in> ?E" using p by (simp add: parent_edges_def)
    have new: "p \<notin> set visited"
    proof
      assume "p \<in> set visited"
      then have "(p, cur) \<in> ?E\<^sup>*" using "1.prems"(1) by blast
      with edge have "(cur, cur) \<in> ?E\<^sup>+" by (rule rtrancl_into_trancl2)
      with "1.prems"(2) show False by (simp add: acyclic_def)
    qed
    have vis: "\<forall>v \<in> set (p # visited). (v, p) \<in> ?E\<^sup>*"
      using "1.prems"(1) edge by (auto intro: rtrancl_into_rtrancl)
    have "(cur, target) \<in> ?E\<^sup>* \<longleftrightarrow> (p, target) \<in> ?E\<^sup>*"
      using parent_step [of cur target ns] ne p edge by (auto intro: converse_rtrancl_into_rtrancl)
    moreover have "ancestor_cycle ns target cur visited = ancestor_cycle ns target p (p # visited)"
      using ne p new by (simp add: ancestor_cycle.simps [of ns target cur])
    ultimately show ?thesis
      using "1.IH" [OF ne p new vis "1.prems"(2)] by simp
  qed
qed

text \<open>The check is exact: it fires iff the new parent edge would close a cycle.\<close>

lemma ancestor_cycle_iff:
  "acyclic (parent_edges ns) \<Longrightarrow> ancestor_cycle ns c p [p] \<longleftrightarrow> (p, c) \<in> (parent_edges ns)\<^sup>*"
  by (rule ancestor_cycle_complete) simp_all

section \<open>The structure is preserved\<close>

lemma graph_inv_new: "graph_inv new_graph"
  by (simp add: graph_inv_def new_graph_def hm_set_def parent_of_def parent_edges_def acyclic_def)

lemma graph_inv_same_parents:
  assumes "graph_inv g" and "distinct (map fst ns)" and "\<And>c. parent_of ns c = parent_of (nodes g) c"
    and "nodes g' = ns" and "children g' = children g"
  shows "graph_inv g'"
  using assms by (simp add: graph_inv_def parent_edges_def)

lemma graph_inv_add_edge:
  assumes inv: "graph_inv g" and old: "parent_of (nodes g) c \<in> {None, Some p}"
    and walk: "\<not> ancestor_cycle (nodes g) c p [p]"
    and dist: "distinct (map fst ns)" and par: "\<And>k. parent_of ns k = (if k = c then Some p else parent_of (nodes g) k)"
    and g': "nodes g' = ns" "children g' = hm_add p c (children g)"
  shows "graph_inv g'"
proof -
  let ?E = "parent_edges (nodes g)"
  have edges: "parent_edges ns = insert (c, p) ?E"
    using old by (auto simp: parent_edges_def par split: if_splits)
  have "acyclic ?E" using inv by (simp add: graph_inv_def)
  then have "acyclic (insert (c, p) ?E)"
    using ancestor_cycle_sound [OF walk] by (simp add: acyclic_insert)
  moreover have "k \<in> set (hm_set (hm_add p c (children g)) q) \<longleftrightarrow> parent_of ns k = Some q" for k q
    using inv old by (auto simp: graph_inv_def hm_set_add par)
  ultimately show ?thesis
    using inv dist by (simp add: graph_inv_def g' edges hm_set_add)
qed

lemma link_parent_Inr:
  assumes "graph_inv g" and "link_parent c p now g = Inr (edge, g1)"
  shows "distinct (map fst (nodes g1))" and "\<And>k. parent_of (nodes g1) k = parent_of (nodes g) k"
    and "children g1 = hm_add p c (children g)" and "\<not> ancestor_cycle (nodes g) c p [p]"
    and "parent_of (nodes g) c \<in> {None, Some p}"
    and "map_of (nodes g1) p \<noteq> None" and "executions g1 = executions g"
proof -
  have none: "parent_of (nodes g) p = None" if "map_of (nodes g) p = None"
    using that by (simp add: parent_of_def)
  have old: "parent_of (nodes g) c \<in> {None, Some p}" "\<not> ancestor_cycle (nodes g) c p [p]"
    and g1: "g1 = g\<lparr>nodes := if map_of (nodes g) p = None then AList.update p (blank_node p now) (nodes g) else nodes g,
      children := hm_add p c (children g)\<rparr>"
    using assms(2) by (auto simp: link_parent_def Let_def split: if_splits option.splits)
  have dist: "distinct (map fst (nodes g))" using assms(1) by (simp add: graph_inv_def)
  show "distinct (map fst (nodes g1))" using dist by (simp add: g1 distinct_update)
  show "parent_of (nodes g1) k = parent_of (nodes g) k" for k
    by (simp add: g1 parent_of_update none blank_node_def)
  show "children g1 = hm_add p c (children g)" and "executions g1 = executions g" by (simp_all add: g1)
  show "map_of (nodes g1) p \<noteq> None" by (simp add: g1 update_conv')
  show "parent_of (nodes g) c \<in> {None, Some p}" and "\<not> ancestor_cycle (nodes g) c p [p]" by (fact old)+
qed

lemma touch_node_parent:
  "node_parent (touch_node i c parent now g) = first_some (parent_of (nodes g) c) parent"
  by (auto simp: touch_node_def Let_def parent_of_def first_some_def split: option.split)

lemma bind_execution_nodes [simp]:
  "nodes (bind_execution i c obs g) = nodes g" "children (bind_execution i c obs g) = children g"
  by (simp_all add: bind_execution_def Let_def)

lemma observe_turn_inv:
  assumes inv: "graph_inv g"
  shows "graph_inv (snd (observe_turn i obs g))"
proof (cases "ti_trust i = Conflict \<or> ti_session_id i = None \<or> ti_thread_id i = None")
  case True
  with inv show ?thesis by (auto simp: observe_turn_def split: option.splits)
next
  case False
  then obtain s t where id: "ti_trust i \<noteq> Conflict" "ti_session_id i = Some s" "ti_thread_id i = Some t" by auto
  let ?c = "thread_key s t" and ?now = "obs_observed_at_ms obs"
  show ?thesis
  proof (cases "ti_parent_thread_id i")
    case None
    have "parent_of (AList.update ?c (touch_node i ?c None ?now g) (nodes g)) k = parent_of (nodes g) k" for k
      by (simp add: parent_of_update touch_node_parent first_some_def split: option.split)
    note same = this
    have "distinct (map fst (AList.update ?c (touch_node i ?c None ?now g) (nodes g)))"
      using inv by (simp add: graph_inv_def distinct_update)
    from graph_inv_same_parents [OF inv this same] id None show ?thesis
      by (simp add: observe_turn_def Let_def)
  next
    case (Some q)
    let ?p = "thread_key s q"
    show ?thesis
    proof (cases "link_parent ?c ?p ?now g")
      case (Inl e)
      with id Some inv show ?thesis by (simp add: observe_turn_def)
    next
      case (Inr r)
      then obtain edge g1 where r: "link_parent ?c ?p ?now g = Inr (edge, g1)" by (cases r) auto
      note link = link_parent_Inr [OF inv r]
      let ?ns = "AList.update ?c (touch_node i ?c (Some ?p) ?now g1) (nodes g1)"
      have "parent_of ?ns k = (if k = ?c then Some ?p else parent_of (nodes g) k)" for k
        using link(2,5) by (auto simp: parent_of_update touch_node_parent first_some_def split: option.split)
      moreover have "distinct (map fst ?ns)" using link(1) by (simp add: distinct_update)
      ultimately have "graph_inv (bind_execution i ?c obs (g1\<lparr>nodes := ?ns\<rparr>))"
        by (intro graph_inv_add_edge [OF inv link(5,4), where ns = ?ns]) (simp_all add: link(3))
      with id Some r show ?thesis by (simp add: observe_turn_def Let_def)
    qed
  qed
qed

lemma bind_spawn_inv:
  assumes inv: "graph_inv g"
  shows "graph_inv (snd (bind_spawn_activity a g))"
proof -
  let ?p = "thread_key (act_session_id a) (act_parent_thread_id a)"
  let ?c = "thread_key (act_session_id a) (act_child_thread_id a)"
  show ?thesis
  proof (cases "?p = ?c \<or> ancestor_cycle (nodes g) ?c ?p [?p] \<or> map_of (spawn_bindings g) (act_call_id a) \<noteq> None
      \<or> parent_of (nodes g) ?c \<notin> {None, Some ?p}")
    case True
    with inv show ?thesis by (auto simp: bind_spawn_activity_def Let_def split: option.splits)
  next
    case False
    then have ok: "?p \<noteq> ?c" "\<not> ancestor_cycle (nodes g) ?c ?p [?p]" "map_of (spawn_bindings g) (act_call_id a) = None"
      "parent_of (nodes g) ?c \<in> {None, Some ?p}" by auto
    let ?n = "case map_of (nodes g) ?c of Some n \<Rightarrow> n
        | None \<Rightarrow> (blank_node ?c 0)\<lparr>node_parent := Some ?p, node_agent_name := act_agent_path a\<rparr>"
    let ?ns = "AList.update ?c (?n\<lparr>node_parent := first_some (node_parent ?n) (Some ?p)\<rparr>) (nodes g)"
    have "first_some (node_parent ?n) (Some ?p) = Some ?p"
      using ok(4) by (auto simp: parent_of_def first_some_def split: option.splits)
    then have "parent_of ?ns k = (if k = ?c then Some ?p else parent_of (nodes g) k)" for k
      by (simp add: parent_of_update)
    moreover have "distinct (map fst ?ns)" using inv by (simp add: graph_inv_def distinct_update)
    moreover have "nodes (snd (bind_spawn_activity a g)) = ?ns"
      "children (snd (bind_spawn_activity a g)) = hm_add ?p ?c (children g)"
      using ok by (auto simp: bind_spawn_activity_def Let_def split: option.split)
    ultimately show ?thesis
      by (intro graph_inv_add_edge [OF inv ok(4,2), where ns = ?ns])
  qed
qed


lemma hm_set_unlink:
  assumes "\<And>q. key \<in> set (hm_set ch q) \<longleftrightarrow> parent = Some q"
  shows "hm_set (unlink_from_parent key parent ch) q = filter (\<lambda>c. c \<noteq> key) (hm_set ch q)"
proof (cases "parent = Some q")
  case True
  have s: "map_of ch q = Some s \<Longrightarrow> hm_set ch q = s" and none: "map_of ch q = None \<Longrightarrow> hm_set ch q = []" for s
    by (simp_all add: hm_set_def)
  show ?thesis
    using True s none by (cases "map_of ch q") (simp_all add: unlink_from_parent_def Let_def hm_set_update hm_set_delete)
next
  case False
  then have "key \<notin> set (hm_set ch q)" using assms by blast
  then have "filter (\<lambda>c. c \<noteq> key) (hm_set ch q) = hm_set ch q" by (auto simp: filter_id_conv)
  with False show ?thesis
    by (auto simp: unlink_from_parent_def Let_def hm_set_update hm_set_delete split: option.split)
qed

lemma map_of_map_entries: "map_of (map (\<lambda>(k, n). (k, f k n)) al) k = map_option (f k) (map_of al k)"
  by (induction al) auto

lemma parent_of_detach:
  "parent_of (detach_children key cs (AList.delete key ns)) c =
     (if c = key then None else if c \<in> set cs \<and> parent_of ns c = Some key then None else parent_of ns c)"
  by (simp add: parent_of_def detach_children_def map_of_map_entries delete_conv' split: option.split)

lemma keys_delete: "map fst (AList.delete k al) = filter (\<lambda>j. j \<noteq> k) (map fst al)"
  by (induction al) auto

lemma keys_detach: "map fst (detach_children key cs ns) = map fst ns"
  by (simp add: detach_children_def comp_def split_beta)

lemma remove_thread_structure:
  assumes inv: "graph_inv g" and removed: "map_of (nodes g) key \<noteq> None"
  defines "g' \<equiv> snd (remove_thread key g)"
  shows "hm_set (children g') q = (if q = key then [] else filter (\<lambda>c. c \<noteq> key) (hm_set (children g) q))"
    and "parent_of (nodes g') c =
      (if c = key \<or> parent_of (nodes g) c = Some key then None else parent_of (nodes g) c)"
    and "map fst (nodes g') = filter (\<lambda>k. k \<noteq> key) (map fst (nodes g))"
proof -
  obtain n where n: "map_of (nodes g) key = Some n" using removed by blast
  let ?ch = "unlink_from_parent key (node_parent n) (children g)"
  have par: "parent_of (nodes g) key = node_parent n" by (simp add: parent_of_def n)
  have ch: "hm_set ?ch q = filter (\<lambda>c. c \<noteq> key) (hm_set (children g) q)" for q
    by (rule hm_set_unlink) (use inv par in \<open>simp add: graph_inv_def\<close>)
  show "hm_set (children g') q = (if q = key then [] else filter (\<lambda>c. c \<noteq> key) (hm_set (children g) q))"
    by (simp add: g'_def remove_thread_def n Let_def hm_set_delete ch)
  have "c \<in> set (hm_set ?ch key) \<longleftrightarrow> c \<noteq> key \<and> parent_of (nodes g) c = Some key"
    using inv by (auto simp: ch graph_inv_def)
  then show "parent_of (nodes g') c = (if c = key \<or> parent_of (nodes g) c = Some key then None else parent_of (nodes g) c)"
    by (auto simp: g'_def remove_thread_def n Let_def parent_of_detach)
  have "map fst (detach_children key cs (AList.delete key (nodes g))) = filter (\<lambda>k. k \<noteq> key) (map fst (nodes g))" for cs
    by (simp add: keys_detach keys_delete)
  then show "map fst (nodes g') = filter (\<lambda>k. k \<noteq> key) (map fst (nodes g))"
    by (simp add: g'_def remove_thread_def n Let_def)
qed

lemma remove_thread_inv:
  assumes inv: "graph_inv g"
  shows "graph_inv (snd (remove_thread key g))"
proof (cases "map_of (nodes g) key")
  case None
  with inv show ?thesis by (simp add: remove_thread_def)
next
  case (Some n)
  then have "map_of (nodes g) key \<noteq> None" by simp
  note str = remove_thread_structure [OF inv this]
  let ?g = "snd (remove_thread key g)"
  have "parent_edges (nodes ?g) \<subseteq> parent_edges (nodes g)"
    by (auto simp: parent_edges_def str(2) split: if_splits)
  then have "acyclic (parent_edges (nodes ?g))"
    using inv acyclic_subset by (auto simp: graph_inv_def)
  moreover have "c \<in> set (hm_set (children ?g) q) \<longleftrightarrow> parent_of (nodes ?g) c = Some q" for c q
    using inv by (auto simp: str graph_inv_def)
  ultimately show ?thesis
    using inv by (simp add: graph_inv_def str(1,3))
qed

lemma prune_execution_nodes [simp]:
  "nodes (fst (prune_execution e s)) = nodes (fst s)" "children (fst (prune_execution e s)) = children (fst s)"
  by (auto simp: prune_execution_def Let_def split: prod.split option.split)

lemma fold_prune_nodes [simp]:
  "nodes (fst (fold prune_execution es s)) = nodes (fst s)" "children (fst (fold prune_execution es s)) = children (fst s)"
  by (induction es arbitrary: s) simp_all

lemma graph_inv_cong: "nodes g' = nodes g \<Longrightarrow> children g' = children g \<Longrightarrow> graph_inv g' = graph_inv g"
  by (simp add: graph_inv_def)

lemma evict_inv: "graph_inv g \<Longrightarrow> graph_inv (fst (evict m ks (g, n)))"
  by (induction ks arbitrary: g n) (simp_all add: split_beta remove_thread_inv)

lemma swept_nodes [simp]: "nodes (swept now ttl g) = nodes g" "children (swept now ttl g) = children g"
  by (simp_all add: swept_def clean_turn_executions_def)

lemma prune_graph_swept:
  "snd (prune_graph now ttl m g) =
     (if m < length (nodes g) then fst (evict m (inactive_nodes (swept now ttl g)) (swept now ttl g, 0)) else swept now ttl g)"
  by (simp add: prune_graph_def swept_def Let_def split_beta clean_turn_executions_def)

lemma graph_step_inv: "graph_inv g \<Longrightarrow> graph_inv (graph_step op g)"
proof (cases op)
  case (MarkTerminal e now)
  assume "graph_inv g"
  then show ?thesis by (simp add: MarkTerminal mark_execution_terminal_def graph_inv_def)
next
  case (Prune now ttl m)
  assume "graph_inv g"
  then have "graph_inv (swept now ttl g)" by (simp add: graph_inv_def)
  then show ?thesis by (simp add: Prune prune_graph_swept evict_inv)
qed (simp_all add: observe_turn_inv bind_spawn_inv remove_thread_inv)

interpretation graph: step_system graph_step graph_inv
  by unfold_locales (rule graph_step_inv)


section \<open>Traversal\<close>

lemma descendants_in_nodes: "descendants g root \<subseteq> fst ` set (nodes g)"
proof
  fix c
  assume "c \<in> descendants g root"
  then have "(c, root) \<in> (parent_edges (nodes g))\<^sup>+" by (simp add: descendants_def)
  then obtain p where "(c, p) \<in> parent_edges (nodes g)" by (meson tranclD)
  then have "map_of (nodes g) c \<noteq> None" by (auto simp: parent_edges_def parent_of_def split: option.splits)
  then show "c \<in> fst ` set (nodes g)" by (simp add: map_of_eq_None_iff)
qed

lemma finite_descendants: "finite (descendants g root)"
  using descendants_in_nodes by (rule finite_subset) simp

lemma visit_children_fresh:
  "distinct cs \<Longrightarrow> set cs \<inter> set v = {} \<Longrightarrow> length r \<le> m \<Longrightarrow>
     visit_children m cs (v, r, q) =
       (if length r + length cs \<le> m then Inr (rev cs @ v, r @ cs, q @ cs) else Inl (TraversalLimitExceeded m))"
proof (induction cs arbitrary: v r q)
  case (Cons c cs)
  show ?case
  proof (cases "m \<le> length r")
    case False
    then show ?thesis
      using Cons.prems Cons.IH [of "c # v" "r @ [c]" "q @ [c]"] by auto
  qed (use Cons.prems in simp)
qed simp

lemma bfs_children_below:
  assumes "graph_inv g" and "bfs_inv g root (cur # q) v r"
  shows "set (hm_set (children g) cur) \<subseteq> descendants g root" and "set (hm_set (children g) cur) \<inter> set v = {}"
proof -
  let ?E = "parent_edges (nodes g)"
  have cur: "(cur, root) \<in> ?E\<^sup>*"
    using assms(2) by (auto simp: bfs_inv_def descendants_def dest: trancl_into_rtrancl)
  have edge: "(c, cur) \<in> ?E" if "c \<in> set (hm_set (children g) cur)" for c
    using that assms(1) by (simp add: graph_inv_def parent_edges_def)
  show below: "set (hm_set (children g) cur) \<subseteq> descendants g root"
    using edge cur by (auto simp: descendants_def intro: rtrancl_into_trancl2)
  show "set (hm_set (children g) cur) \<inter> set v = {}"
  proof (rule ccontr)
    assume "set (hm_set (children g) cur) \<inter> set v \<noteq> {}"
    then obtain c where c: "c \<in> set (hm_set (children g) cur)" "c \<in> set v" by blast
    show False
    proof (cases "c = root")
      case True
      then have "(root, root) \<in> ?E\<^sup>+" using below c(1) by (auto simp: descendants_def)
      then show False using assms(1) by (simp add: graph_inv_def acyclic_def)
    next
      case False
      then have "c \<in> set r" using c(2) assms(2) by (auto simp: bfs_inv_def)
      moreover have "parent_of (nodes g) c = Some cur"
        using edge [OF c(1)] by (simp add: parent_edges_def)
      ultimately show False using assms(2) by (auto simp: bfs_inv_def)
    qed
  qed
qed

lemma bfs_inv_step:
  assumes inv: "graph_inv g" and b: "bfs_inv g root (cur # q) v r"
  defines "cs \<equiv> hm_set (children g) cur"
  shows "bfs_inv g root (q @ cs) (rev cs @ v) (r @ cs)"
proof -
  note below = bfs_children_below [OF inv b, folded cs_def]
  have dcs: "distinct cs" using inv by (simp add: cs_def graph_inv_def)
  have par: "parent_of (nodes g) c = Some cur" if "c \<in> set cs" for c
    using that inv by (simp add: cs_def graph_inv_def)
  have sets: "set v = insert root (set r)" "distinct r" "distinct (cur # q)" "set (cur # q) \<subseteq> set v"
    "set r \<subseteq> descendants g root"
    and closed: "\<forall>w \<in> set v - set (cur # q). set (hm_set (children g) w) \<subseteq> set r"
    and up: "\<forall>c \<in> set r. \<forall>p. parent_of (nodes g) c = Some p \<longrightarrow> p \<in> set v - set (cur # q)"
    using b unfolding bfs_inv_def by blast+
  have diff: "set (rev cs @ v) - set (q @ cs) = insert cur (set v - set (cur # q))"
    using sets(3,4) below(2) by auto
  have "set (hm_set (children g) w) \<subseteq> set (r @ cs)" if "w \<in> insert cur (set v - set (cur # q))" for w
    using that closed by (auto simp: cs_def)
  moreover have "p \<in> insert cur (set v - set (cur # q))" if "c \<in> set (r @ cs)" "parent_of (nodes g) c = Some p" for c p
    using that up par by auto
  ultimately show ?thesis
    unfolding bfs_inv_def diff using sets below dcs by auto
qed

lemma bfs_done:
  assumes inv: "graph_inv g" and b: "bfs_inv g root [] v r"
  shows "set r = descendants g root"
proof -
  let ?E = "parent_edges (nodes g)"
  have closed: "set (hm_set (children g) w) \<subseteq> set r" if "w \<in> insert root (set r)" for w
    using b that by (auto simp: bfs_inv_def)
  have child: "c \<in> set (hm_set (children g) p)" if "(c, p) \<in> ?E" for c p
    using that inv by (simp add: graph_inv_def parent_edges_def)
  have "c \<in> set r" if "(c, root) \<in> ?E\<^sup>+" for c
    using that
  proof (induction rule: converse_trancl_induct)
    case (base c)
    with closed [of root] child show ?case by blast
  next
    case (step c d)
    with closed [of d] child show ?case by blast
  qed
  then show ?thesis using b by (auto simp: bfs_inv_def descendants_def)
qed

lemma bfs_correct:
  assumes inv: "graph_inv g"
  shows "bfs_inv g root queue visited result \<Longrightarrow> length result \<le> m \<Longrightarrow>
    (case bfs (children g) m queue visited result of
       Inr ds \<Rightarrow> set ds = descendants g root \<and> distinct ds \<and> length ds \<le> m
     | Inl e \<Rightarrow> e = TraversalLimitExceeded m \<and> m < card (descendants g root))"
proof (induction "children g" m queue visited result rule: bfs.induct)
  case (1 m visited result)
  then show ?case using bfs_done [OF inv "1.prems"(1)] by (simp add: bfs_inv_def)
next
  case (2 m cur queue visited result)
  let ?cs = "hm_set (children g) cur"
  note below = bfs_children_below [OF inv "2.prems"(1)]
  have dcs: "distinct ?cs" using inv by (simp add: graph_inv_def)
  have fresh: "visit_children m ?cs (visited, result, queue) =
    (if length result + length ?cs \<le> m then Inr (rev ?cs @ visited, result @ ?cs, queue @ ?cs) else Inl (TraversalLimitExceeded m))"
    using visit_children_fresh [OF dcs below(2) "2.prems"(2)] .
  have next_inv: "bfs_inv g root (queue @ ?cs) (rev ?cs @ visited) (result @ ?cs)"
    by (rule bfs_inv_step [OF inv "2.prems"(1)])
  show ?case
  proof (cases "length result + length ?cs \<le> m")
    case True
    then have step: "visit_children m ?cs (visited, result, queue) = Inr (rev ?cs @ visited, result @ ?cs, queue @ ?cs)"
      using fresh by simp
    from True have "length (result @ ?cs) \<le> m" by simp
    from "2.hyps" [OF step HOL.refl HOL.refl next_inv this] show ?thesis by (simp add: step)
  next
    case False
    have "set (result @ ?cs) \<subseteq> descendants g root" and "distinct (result @ ?cs)"
      using next_inv by (auto simp: bfs_inv_def)
    then have "length (result @ ?cs) \<le> card (descendants g root)"
      using card_mono [OF finite_descendants] distinct_card by metis
    with False show ?thesis by (simp add: fresh)
  qed
qed

lemma bfs_inv_start: "bfs_inv g root [root] [root] []"
  by (simp add: bfs_inv_def)


section \<open>Depth\<close>

lemma depth_of_unknown: "map_of ns k = None \<Longrightarrow> \<not> depth_of ns k d"
  and depth_of_root: "map_of ns k = Some n \<Longrightarrow> node_parent n = None \<Longrightarrow> depth_of ns k d \<longleftrightarrow> d = 0"
  and depth_of_child: "map_of ns k = Some n \<Longrightarrow> node_parent n = Some p \<Longrightarrow>
    depth_of ns k d \<longleftrightarrow> (\<exists>m. d = Suc m \<and> depth_of ns p m)"
  by (auto elim: depth_ofE intro: depth_of.intros)

lemma depth_loop_iff:
  assumes "acyclic (parent_edges ns)"
  shows "\<forall>v \<in> set visited. (v, cur) \<in> (parent_edges ns)\<^sup>+ \<Longrightarrow>
    depth_loop ns left cur visited depth = Some result \<longleftrightarrow> (\<exists>d. depth_of ns cur d \<and> d < left \<and> result = depth + d)"
  using assms
proof (induction ns left cur visited depth rule: depth_loop.induct)
  case (1 ns cur visited depth)
  then show ?case by simp
next
  case (2 ns left cur visited depth)
  let ?E = "parent_edges ns"
  show ?case
  proof (cases "map_of ns cur")
    case None
    then show ?thesis by (simp add: depth_of_unknown)
  next
    case (Some n)
    show ?thesis
    proof (cases "node_parent n")
      case None
      with Some show ?thesis by (auto simp: depth_of_root)
    next
      case (Some p)
      have edge: "(cur, p) \<in> ?E" using Some \<open>map_of ns cur = Some n\<close> by (simp add: parent_edges_def parent_of_def)
      have acyc: "(p, cur) \<notin> ?E\<^sup>*"
        using rtrancl_into_trancl2 [OF edge] "2.prems"(2) by (auto simp: acyclic_def)
      have new: "p \<notin> set (cur # visited)"
        using acyc "2.prems"(1) by (auto dest: trancl_into_rtrancl)
      have vis: "\<forall>v \<in> set (cur # visited). (v, p) \<in> ?E\<^sup>+"
        using "2.prems"(1) edge by (auto intro: trancl_into_trancl)
      have "depth_loop ns left p (cur # visited) (depth + 1) = Some result \<longleftrightarrow>
        (\<exists>d. depth_of ns p d \<and> d < left \<and> result = depth + 1 + d)"
        using "2.IH" [OF \<open>map_of ns cur = Some n\<close> Some new vis "2.prems"(2)] .
      also have "\<dots> \<longleftrightarrow> (\<exists>d. depth_of ns cur d \<and> d < Suc left \<and> result = depth + d)"
        by (auto simp: depth_of_child [OF \<open>map_of ns cur = Some n\<close> Some])
      finally show ?thesis
        using Some \<open>map_of ns cur = Some n\<close> new by simp
    qed
  qed
qed

section \<open>Executions\<close>

lemma active_iff:
  "exec_inv g \<Longrightarrow> e \<in> set (active_executions_for_thread g k) \<longleftrightarrow> execution_thread e g = Some k \<and> \<not> is_terminal_execution g e"
  by (simp add: active_executions_for_thread_def exec_inv_def)

lemma exec_inv_turnE:
  assumes "exec_inv g" and "e \<in> set (hm_set (turn_executions g) k)"
  obtains b where "map_of (executions g) e = Some b" "eb_thread b = turn_thread k" "eb_turn_id b = Some (turn_turn_id k)"
  using assms unfolding exec_inv_def by blast

lemma exec_inv_new: "exec_inv new_graph"
  by (simp add: exec_inv_def new_graph_def hm_set_def execution_thread_def)

lemma bind_execution_inv:
  assumes inv: "exec_inv g" and fresh: "fresh_execution i c (obs_execution_id obs) g"
  shows "exec_inv (bind_execution i c obs g)"
proof -
  let ?e = "obs_execution_id obs"
  have owner: "execution_thread ?e g = Some k \<Longrightarrow> k = c" for k
    using fresh by (auto simp: fresh_execution_def execution_thread_def)
  have thr: "execution_thread e (bind_execution i c obs g) = (if e = ?e then Some c else execution_thread e g)" for e
    by (simp add: bind_execution_def Let_def execution_thread_def update_conv')
  have bind: "map_of (executions (bind_execution i c obs g)) e = map_of (executions g) e" if "e \<noteq> ?e" for e
    using that by (simp add: bind_execution_def Let_def update_conv')
  have new: "\<exists>b. map_of (executions (bind_execution i c obs g)) ?e = Some b \<and> eb_thread b = c \<and> eb_turn_id b = ti_turn_id i"
    by (simp add: bind_execution_def Let_def update_conv')
  have "e \<in> set (hm_set (thread_executions (bind_execution i c obs g)) k) \<longleftrightarrow>
      execution_thread e (bind_execution i c obs g) = Some k" for e k
    using inv owner unfolding thr by (auto simp: exec_inv_def bind_execution_def Let_def hm_set_add)
  moreover have "\<exists>b. map_of (executions (bind_execution i c obs g)) e = Some b \<and> eb_thread b = turn_thread k \<and>
      eb_turn_id b = Some (turn_turn_id k)" if "e \<in> set (hm_set (turn_executions (bind_execution i c obs g)) k)" for e k
  proof (cases "e = ?e")
    case True
    from that consider "ti_turn_id i = Some (turn_turn_id k)" "turn_thread k = c" | "?e \<in> set (hm_set (turn_executions g) k)"
      using True by (auto simp: bind_execution_def Let_def hm_set_add turn_key_def split: option.splits if_splits)
    then show ?thesis
    proof cases
      case 2
      then obtain b where "map_of (executions g) ?e = Some b" "eb_thread b = turn_thread k" "eb_turn_id b = Some (turn_turn_id k)"
        using exec_inv_turnE [OF inv] by blast
      then show ?thesis using fresh new True by (auto simp: fresh_execution_def)
    qed (use new True in simp)
  next
    case False
    with that have "e \<in> set (hm_set (turn_executions g) k)"
      by (auto simp: bind_execution_def Let_def hm_set_add split: option.splits if_splits)
    with inv bind [OF False] show ?thesis by (simp add: exec_inv_def)
  qed
  moreover have "distinct (map fst (turn_executions (bind_execution i c obs g)))"
    using inv by (simp add: bind_execution_def Let_def hm_add_def exec_inv_def distinct_update split: option.split)
  ultimately show ?thesis unfolding exec_inv_def by blast
qed

lemma exec_inv_cong:
  "executions g' = executions g \<Longrightarrow> thread_executions g' = thread_executions g \<Longrightarrow>
     turn_executions g' = turn_executions g \<Longrightarrow> exec_inv g' = exec_inv g"
  by (simp add: exec_inv_def execution_thread_def)

lemma hm_set_filter_keys: "hm_set (filter (\<lambda>(k, _). P k) m) j = (if P j then hm_set m j else [])"
proof -
  have "map_of (filter (\<lambda>(k, _). P k) m) j = (if P j then map_of m j else None)"
    by (induction m) auto
  then show ?thesis by (simp add: hm_set_def)
qed

lemma map_of_filter_keys: "map_of (filter (\<lambda>(k, _). P k) m) j = (if P j then map_of m j else None)"
  by (induction m) auto

lemma remove_thread_exec:
  assumes inv: "exec_inv g"
  shows "exec_inv (snd (remove_thread key g))"
    and "j \<noteq> key \<Longrightarrow> active_executions_for_thread (snd (remove_thread key g)) j = active_executions_for_thread g j"
proof -
  let ?g = "snd (remove_thread key g)" and ?ids = "set (hm_set (thread_executions g) key)"
  have both: "exec_inv ?g \<and> (j \<noteq> key \<longrightarrow> active_executions_for_thread ?g j = active_executions_for_thread g j)"
  proof (cases "map_of (nodes g) key")
    case None
    with inv show ?thesis by (simp add: remove_thread_def)
  next
    case (Some n)
    have ids: "e \<in> ?ids \<longleftrightarrow> execution_thread e g = Some key" for e using inv by (simp add: exec_inv_def)
    have ex: "map_of (executions ?g) e = (if e \<in> ?ids then None else map_of (executions g) e)"
      "thread_executions ?g = AList.delete key (thread_executions g)"
      "turn_executions ?g = filter (\<lambda>(k, _). turn_thread k \<noteq> key) (turn_executions g)"
      "map_of (execution_terminal ?g) e = (if e \<in> ?ids then None else map_of (execution_terminal g) e)" for e
      using Some by (simp_all add: remove_thread_def Let_def map_of_filter_keys)
    have "e \<in> set (hm_set (thread_executions ?g) k) \<longleftrightarrow> execution_thread e ?g = Some k" for e k
      using inv ids by (auto simp: ex hm_set_delete exec_inv_def execution_thread_def)
    moreover have "\<exists>b. map_of (executions ?g) e = Some b \<and> eb_thread b = turn_thread k \<and> eb_turn_id b = Some (turn_turn_id k)"
      if "e \<in> set (hm_set (turn_executions ?g) k)" for e k
    proof -
      have k: "turn_thread k \<noteq> key" "e \<in> set (hm_set (turn_executions g) k)"
        using that by (auto simp: ex(3) hm_set_filter_keys [where P = "\<lambda>k. turn_thread k \<noteq> key"] split: if_splits)
      then obtain b where b: "map_of (executions g) e = Some b" "eb_thread b = turn_thread k" "eb_turn_id b = Some (turn_turn_id k)"
        using exec_inv_turnE [OF inv] by blast
      then have "e \<notin> ?ids" using k(1) by (simp add: ids execution_thread_def)
      with b show ?thesis by (simp add: ex(1))
    qed
    moreover have "active_executions_for_thread ?g j = active_executions_for_thread g j" if "j \<noteq> key"
    proof -
      have "e \<notin> ?ids" if "e \<in> set (hm_set (thread_executions g) j)" for e
        using that \<open>j \<noteq> key\<close> inv by (simp add: exec_inv_def)
      then show ?thesis
        using that by (auto simp: active_executions_for_thread_def is_terminal_execution_def ex hm_set_delete intro!: filter_cong)
    qed
    moreover have "distinct (map fst (turn_executions ?g))"
      using inv by (simp add: ex(3) exec_inv_def distinct_map_filter)
    ultimately show ?thesis unfolding exec_inv_def by blast
  qed
  then show "exec_inv ?g" and "j \<noteq> key \<Longrightarrow> active_executions_for_thread ?g j = active_executions_for_thread g j"
    by simp_all
qed


text \<open>
  Pruning one execution that is terminal or unknown changes no thread's active executions. Between the
  loop and the clean-up the index by turn may still name removed executions.
\<close>

lemma prune_execution_thread:
  "execution_thread x (fst (prune_execution e (g, n))) = (if x = e then None else execution_thread x g)"
  by (auto simp: prune_execution_def Let_def execution_thread_def delete_conv' split: option.split)

lemma prune_execution_index:
  assumes inv: "thread_index_ok g"
  shows "set (hm_set (thread_executions (fst (prune_execution e (g, n)))) k) = set (hm_set (thread_executions g) k) - {e}"
proof (cases "map_of (executions g) e")
  case None
  then have "e \<notin> set (hm_set (thread_executions g) k)"
    using inv by (simp add: thread_index_ok_def execution_thread_def)
  with None show ?thesis by (auto simp: prune_execution_def Let_def)
next
  case (Some b)
  have mem: "e \<in> set (hm_set (thread_executions g) j) \<longleftrightarrow> j = eb_thread b" for j
    using inv Some by (auto simp: thread_index_ok_def execution_thread_def)
  from mem [of "eb_thread b"] obtain s where s: "map_of (thread_executions g) (eb_thread b) = Some s"
    by (cases "map_of (thread_executions g) (eb_thread b)") (simp_all add: hm_set_def)
  then have "hm_set (thread_executions g) (eb_thread b) = s" by (simp add: hm_set_def)
  with Some s mem [of k] show ?thesis
    by (auto simp: prune_execution_def Let_def hm_set_update)
qed

lemma prune_execution_step:
  assumes inv: "thread_index_ok g" and gone: "is_terminal_execution g e \<or> execution_thread e g = None"
    and g'_def: "g' = fst (prune_execution e (g, n))"
  shows "thread_index_ok g'" and "active_set g' k = active_set g k"
    and "is_terminal_execution g' x \<longleftrightarrow> x \<noteq> e \<and> is_terminal_execution g x"
proof -
  have thr: "execution_thread x g' = (if x = e then None else execution_thread x g)" for x
    by (simp add: g'_def prune_execution_thread)
  show ok: "thread_index_ok g'"
    using inv by (auto simp: thread_index_ok_def thr prune_execution_index [OF inv, of e n, folded g'_def])
  show trm: "is_terminal_execution g' x \<longleftrightarrow> x \<noteq> e \<and> is_terminal_execution g x" for x
    by (auto simp: g'_def prune_execution_def Let_def is_terminal_execution_def delete_conv' split: option.split)
  show "active_set g' k = active_set g k"
    using gone by (auto simp: active_set_def thr trm)
qed

lemma fold_prune_step:
  "thread_index_ok g \<Longrightarrow> \<forall>e \<in> set es. is_terminal_execution g e \<or> execution_thread e g = None \<Longrightarrow>
     thread_index_ok (fst (fold prune_execution es (g, n))) \<and>
     active_set (fst (fold prune_execution es (g, n))) k = active_set g k"
proof (induction es arbitrary: g n)
  case (Cons e es)
  obtain g' n' where p: "prune_execution e (g, n) = (g', n')" by fastforce
  have g': "g' = fst (prune_execution e (g, n))" by (simp add: p)
  have e: "is_terminal_execution g e \<or> execution_thread e g = None" using Cons.prems by simp
  note step = prune_execution_step [OF Cons.prems(1) e g']
  have "\<forall>x \<in> set es. is_terminal_execution g' x \<or> execution_thread x g' = None"
    using Cons.prems(2) step(3) prune_execution_thread [of _ e g n, folded g'] by auto
  from Cons.IH [OF step(1) this, of n'] step(2) show ?case by (simp add: p)
qed simp

lemma exec_inv_index: "exec_inv g \<Longrightarrow> thread_index_ok g"
  by (simp add: exec_inv_def thread_index_ok_def)

lemma active_set_list: "thread_index_ok g \<Longrightarrow> set (active_executions_for_thread g k) = active_set g k"
  by (auto simp: active_executions_for_thread_def thread_index_ok_def active_set_def)

lemma turn_weak_prune: "turn_weak g \<Longrightarrow> turn_weak (fst (prune_execution e (g, n)))"
  by (auto simp: turn_weak_def prune_execution_def Let_def delete_conv' split: option.split if_splits)

lemma turn_weak_fold: "turn_weak g \<Longrightarrow> turn_weak (fst (fold prune_execution es (g, n)))"
proof (induction es arbitrary: g n)
  case (Cons e es)
  obtain g' n' where p: "prune_execution e (g, n) = (g', n')" by fastforce
  have "turn_weak g'" using turn_weak_prune [OF Cons.prems, of e n] by (simp add: p)
  from Cons.IH [OF this, of n'] show ?case by (simp add: p)
qed simp

lemma clean_entries:
  assumes "distinct (map fst m)"
  shows "map_of (filter (\<lambda>(_, s). s \<noteq> []) (map (\<lambda>(k, s). (k, f s)) m)) k =
    (case map_of m k of None \<Rightarrow> None | Some s \<Rightarrow> if f s = [] then None else Some (f s))"
  using assms
proof (induction m)
  case (Cons x m)
  then have "map_of m (fst x) = None" by (simp add: map_of_eq_None_iff)
  with Cons show ?case by (cases x) auto
qed simp

lemma clean_turn_exec_inv:
  assumes "thread_index_ok g" and "turn_weak g"
  shows "exec_inv (clean_turn_executions g)"
    and "active_set (clean_turn_executions g) k = active_set g k"
proof -
  let ?g = "clean_turn_executions g"
  have ex: "executions ?g = executions g" "thread_executions ?g = thread_executions g"
    "execution_terminal ?g = execution_terminal g" by (simp_all add: clean_turn_executions_def)
  have dist: "distinct (map fst (turn_executions g))" using assms(2) by (simp add: turn_weak_def)
  have turns: "hm_set (turn_executions ?g) j = filter (\<lambda>e. map_of (executions g) e \<noteq> None) (hm_set (turn_executions g) j)" for j
    using clean_entries [OF dist, of "filter (\<lambda>e. map_of (executions g) e \<noteq> None)" j]
    by (simp add: clean_turn_executions_def hm_set_def split: option.split)
  have "\<exists>b. map_of (executions ?g) e = Some b \<and> eb_thread b = turn_thread j \<and> eb_turn_id b = Some (turn_turn_id j)"
    if "e \<in> set (hm_set (turn_executions ?g) j)" for e j
    using that assms(2) by (auto simp: turns ex turn_weak_def)
  moreover have "distinct (map fst (turn_executions ?g))"
    using dist by (simp add: clean_turn_executions_def distinct_map_filter comp_def split_beta)
  ultimately show "exec_inv ?g"
    using assms(1) by (simp add: exec_inv_def thread_index_ok_def execution_thread_def ex)
  show "active_set ?g k = active_set g k"
    by (simp add: active_set_def execution_thread_def is_terminal_execution_def ex)
qed

lemma swept_exec:
  assumes "exec_inv g"
  shows "exec_inv (swept now ttl g)" and "active_set (swept now ttl g) k = active_set g k"
proof -
  let ?es = "expired_executions now ttl g"
  let ?g = "fst (fold prune_execution ?es (g, 0))"
  have "\<forall>e \<in> set ?es. is_terminal_execution g e \<or> execution_thread e g = None"
    by (auto simp: expired_executions_def is_terminal_execution_def map_of_eq_None_iff intro: rev_image_eqI)
  note f = fold_prune_step [OF exec_inv_index [OF assms] this, of 0]
  have "turn_weak g" using assms by (fastforce simp: turn_weak_def exec_inv_def)
  then have w: "turn_weak ?g" by (rule turn_weak_fold)
  show "exec_inv (swept now ttl g)" unfolding swept_def by (rule clean_turn_exec_inv) (use f w in blast)+
  show "active_set (swept now ttl g) k = active_set g k"
    unfolding swept_def using clean_turn_exec_inv(2) [of ?g k] f w by blast
qed

lemma remove_thread_active:
  "exec_inv g \<Longrightarrow> j \<noteq> key \<Longrightarrow> active_set (snd (remove_thread key g)) j = active_set g j"
  by (simp add: active_set_list [OF exec_inv_index, symmetric] remove_thread_exec)

lemma evict_spec:
  "graph_inv g \<Longrightarrow> exec_inv g \<Longrightarrow> \<forall>k \<in> set ks. active_set g k = {} \<Longrightarrow> g' = fst (evict m ks (g, n)) \<Longrightarrow>
     exec_inv g' \<and> (\<forall>j. active_set g j \<noteq> {} \<longrightarrow> active_set g' j = active_set g j) \<and>
     fst ` set (nodes g') \<subseteq> fst ` set (nodes g) \<and>
     (\<forall>j \<in> fst ` set (nodes g). active_set g j \<noteq> {} \<longrightarrow> j \<in> fst ` set (nodes g')) \<and>
     (length (nodes g') \<le> m \<or> set ks \<inter> fst ` set (nodes g') = {})"
proof (induction ks arbitrary: g n)
  case Nil
  then show ?case by simp
next
  case (Cons k ks)
  show ?case
  proof (cases "length (nodes g) \<le> m")
    case True
    with Cons.prems show ?thesis by simp
  next
    case False
    let ?g = "snd (remove_thread k g)"
    have keys: "fst ` set (nodes ?g) = fst ` set (nodes g) - {k}"
    proof (cases "map_of (nodes g) k")
      case None
      then have "k \<notin> fst ` set (nodes g)" by (simp add: map_of_eq_None_iff)
      with None show ?thesis by (simp add: remove_thread_def)
    next
      case (Some n)
      then have "set (map fst (nodes ?g)) = set (filter (\<lambda>j. j \<noteq> k) (map fst (nodes g)))"
        using remove_thread_structure(3) [OF Cons.prems(1), of k] by simp
      then show ?thesis by auto
    qed
    have act: "j \<noteq> k \<Longrightarrow> active_set ?g j = active_set g j" for j
      using remove_thread_active [OF Cons.prems(2)] .
    have inv: "graph_inv ?g" "exec_inv ?g"
      using remove_thread_inv [OF Cons.prems(1)] remove_thread_exec(1) [OF Cons.prems(2)] .
    have own: "active_set ?g k = {}"
    proof (cases "map_of (nodes g) k")
      case None
      then show ?thesis using Cons.prems(3) by (simp add: remove_thread_def)
    next
      case (Some n)
      then have "hm_set (thread_executions ?g) k = []" by (simp add: remove_thread_def Let_def hm_set_delete)
      then have "execution_thread e ?g \<noteq> Some k" for e
        using exec_inv_index [OF inv(2)] unfolding thread_index_ok_def by (metis list.set(1) empty_iff)
      then show ?thesis by (simp add: active_set_def)
    qed
    have "\<forall>j \<in> set ks. active_set ?g j = {}"
      using Cons.prems(3) act own by (metis list.set_intros(2))
    moreover obtain n' where "g' = fst (evict m ks (?g, n'))"
      using Cons.prems(4) False by (simp add: split_beta)
    ultimately have ih: "exec_inv g' \<and> (\<forall>j. active_set ?g j \<noteq> {} \<longrightarrow> active_set g' j = active_set ?g j) \<and>
      fst ` set (nodes g') \<subseteq> fst ` set (nodes ?g) \<and>
      (\<forall>j \<in> fst ` set (nodes ?g). active_set ?g j \<noteq> {} \<longrightarrow> j \<in> fst ` set (nodes g')) \<and>
      (length (nodes g') \<le> m \<or> set ks \<inter> fst ` set (nodes g') = {})"
      using Cons.IH [OF inv] by blast
    have k: "active_set g k = {}" using Cons.prems(3) by simp
    have same: "active_set ?g j = active_set g j" "j \<noteq> k" if "active_set g j \<noteq> {}" for j
      using act [of j] k that by auto
    show ?thesis
    proof (intro conjI allI ballI impI)
      show "exec_inv g'" using ih by blast
      show "active_set g' j = active_set g j" if "active_set g j \<noteq> {}" for j
        using ih same [OF that] that by simp
      show "fst ` set (nodes g') \<subseteq> fst ` set (nodes g)" using ih keys by blast
      show "j \<in> fst ` set (nodes g')" if "j \<in> fst ` set (nodes g)" "active_set g j \<noteq> {}" for j
        using ih same [OF that(2)] that keys by (metis Diff_iff singletonD)
      show "length (nodes g') \<le> m \<or> set (k # ks) \<inter> fst ` set (nodes g') = {}"
        using ih keys by auto
    qed
  qed
qed


lemma link_parent_exec:
  "link_parent c p now g = Inr (edge, g1) \<Longrightarrow>
     executions g1 = executions g \<and> thread_executions g1 = thread_executions g \<and> turn_executions g1 = turn_executions g"
  by (auto simp: link_parent_def Let_def split: if_splits option.splits)

lemma observe_turn_exec_inv:
  assumes inv: "exec_inv g"
    and fresh: "\<And>s t. ti_session_id i = Some s \<Longrightarrow> ti_thread_id i = Some t \<Longrightarrow>
      fresh_execution i (thread_key s t) (obs_execution_id obs) g"
  shows "exec_inv (snd (observe_turn i obs g))"
proof (cases "ti_trust i = Conflict \<or> ti_session_id i = None \<or> ti_thread_id i = None")
  case True
  with inv show ?thesis by (auto simp: observe_turn_def split: option.splits)
next
  case False
  then obtain s t where id: "ti_trust i \<noteq> Conflict" "ti_session_id i = Some s" "ti_thread_id i = Some t" by auto
  let ?c = "thread_key s t" and ?now = "obs_observed_at_ms obs"
  let ?link = "case map_option (thread_key s) (ti_parent_thread_id i) of
    None \<Rightarrow> Inr (False, g) | Some p \<Rightarrow> link_parent ?c p ?now g"
  show ?thesis
  proof (cases ?link)
    case (Inl e)
    with id inv show ?thesis by (simp add: observe_turn_def Let_def)
  next
    case (Inr r)
    obtain edge g1 where r: "?link = Inr (edge, g1)" using Inr by (cases r) auto
    let ?g2 = "g1\<lparr>nodes := AList.update ?c (touch_node i ?c (map_option (thread_key s) (ti_parent_thread_id i)) ?now g1) (nodes g1)\<rparr>"
    have eq: "executions g1 = executions g" "thread_executions g1 = thread_executions g" "turn_executions g1 = turn_executions g"
      using r link_parent_exec by (auto split: option.splits)
    have "exec_inv ?g2" using inv by (subst exec_inv_cong [of _ g]) (simp_all add: eq)
    moreover have "fresh_execution i ?c (obs_execution_id obs) ?g2"
      using fresh [OF id(2,3)] by (simp add: fresh_execution_def eq)
    ultimately have "exec_inv (bind_execution i ?c obs ?g2)" by (rule bind_execution_inv)
    with id r show ?thesis by (simp add: observe_turn_def Let_def)
  qed
qed

lemma demo_graph_inv: "graph_inv demo_graph" and demo_graph_exec: "exec_inv demo_graph"
proof -
  show "graph_inv demo_graph"
    unfolding demo_graph_def by (intro observe_turn_inv graph_inv_new)
  show "exec_inv demo_graph"
    unfolding demo_graph_def
  proof (intro observe_turn_exec_inv exec_inv_new)
    show "fresh_execution (demo_turn ''child'' (Some ''main'')) (thread_key s t) (obs_execution_id (demo_observation ''e2''))
        (snd (observe_turn (demo_turn ''main'' None) (demo_observation ''e1'') new_graph))" for s t
      by (simp add: fresh_execution_def observe_turn_def demo_turn_def demo_observation_def default_turn_identity_def
          bind_execution_def new_graph_def Let_def)
  qed (simp add: fresh_execution_def new_graph_def)
qed

section \<open>Properties\<close>

text \<open>
  C17: Whatever calls the registry has received, the threads form a forest: every thread has at most
  one parent, no thread is its own ancestor, and the children index lists exactly the threads whose
  parent pointer names it.
\<close>

theorem subagent_graph_is_forest:
  "let g = fold graph_step ops new_graph in
     acyclic (parent_edges (nodes g)) \<and> distinct (map fst (nodes g)) \<and>
     (\<forall>p c. c \<in> set (children_of p g) \<longleftrightarrow> parent_of (nodes g) c = Some p)"
proof -
  have "graph_inv (fold graph_step ops new_graph)"
    by (rule graph.run_invar) (rule graph_inv_new)
  then show ?thesis by (simp add: graph_inv_def children_of_def Let_def)
qed

text \<open>
  The cycle check is exact: in every reachable registry a turn is refused with a detected cycle
  iff its thread already is an ancestor of the parent it names.
\<close>

theorem cycle_check_exact:
  "let g = fold graph_step ops new_graph in
     link_parent c p now g = Inl CycleDetected \<longleftrightarrow> p \<noteq> c \<and> (p, c) \<in> (parent_edges (nodes g))\<^sup>*"
proof -
  have "graph_inv (fold graph_step ops new_graph)"
    by (rule graph.run_invar) (rule graph_inv_new)
  then have "acyclic (parent_edges (nodes (fold graph_step ops new_graph)))" by (simp add: graph_inv_def)
  from ancestor_cycle_iff [OF this] show ?thesis by (simp add: link_parent_def Let_def)
qed

text \<open>
  C6: The bounded traversal is exact in every reachable registry: it returns each descendant once, it
  never reports a cycle, and it gives up exactly when there are more descendants than the bound.
\<close>

theorem descendants_of_exact:
  "let g = fold graph_step ops new_graph in
     case descendants_of root max_nodes g of
       Inr ds \<Rightarrow> set ds = descendants g root \<and> distinct ds \<and> length ds \<le> max_nodes
     | Inl e \<Rightarrow> e = TraversalLimitExceeded max_nodes \<and> max_nodes < card (descendants g root)"
proof -
  have "graph_inv (fold graph_step ops new_graph)"
    by (rule graph.run_invar) (rule graph_inv_new)
  from bfs_correct [OF this bfs_inv_start, of max_nodes root] show ?thesis
    by (simp add: descendants_of_def Let_def)
qed

text \<open>
  The depth of a thread is the length of its chain of parents, reported iff that chain ends in a
  known root within the bound.
\<close>

theorem node_depth_exact:
  "let g = fold graph_step ops new_graph in
     node_depth k max_depth g = Some d \<longleftrightarrow> depth_of (nodes g) k d \<and> d \<le> max_depth"
proof -
  have "graph_inv (fold graph_step ops new_graph)"
    by (rule graph.run_invar) (rule graph_inv_new)
  then have "acyclic (parent_edges (nodes (fold graph_step ops new_graph)))" by (simp add: graph_inv_def)
  from depth_loop_iff [OF this, of "[]" k "Suc max_depth" 0 d] show ?thesis
    by (simp add: node_depth_def Let_def less_Suc_eq_le del: depth_loop.simps)
qed

text \<open>
  Cancellation reaches exactly the right executions: the fan-out lists the executions bound to a
  descendant of the cancelled thread that have not ended, and no other.
\<close>

theorem cancellation_fanout_exact:
  assumes "graph_inv g" and "exec_inv g" and "active_descendant_executions root max_nodes g = Inr es"
  shows "set es = {e. \<exists>k \<in> descendants g root. execution_thread e g = Some k \<and> \<not> is_terminal_execution g e}"
proof -
  obtain ds where ds: "descendants_of root max_nodes g = Inr ds" "es = concat (map (active_executions_for_thread g) ds)"
    using assms(3) by (auto simp: active_descendant_executions_def split: sum.splits)
  have "set ds = descendants g root"
    using bfs_correct [OF assms(1) bfs_inv_start, of max_nodes root] ds(1) by (simp add: descendants_of_def)
  with ds(2) show ?thesis
    using active_iff [OF assms(2)] by auto
qed

theorem cancellation_fanout_exact_witness:
  "active_descendant_executions (thread_key ''s'' ''main'') 8 demo_graph = Inr [''e2''] \<and>
   {e. \<exists>k \<in> descendants demo_graph (thread_key ''s'' ''main'').
      execution_thread e demo_graph = Some k \<and> \<not> is_terminal_execution demo_graph e} = {''e2''}"
proof -
  have "active_descendant_executions (thread_key ''s'' ''main'') 8 demo_graph = Inr [''e2'']"
    by code_simp
  with cancellation_fanout_exact [OF demo_graph_inv demo_graph_exec this] show ?thesis by simp
qed

text \<open>
  Pruning never drops a running thread and bounds the registry: a thread with an execution that
  has not ended keeps its node and its active executions, and afterwards either the number of nodes is
  within the bound or every remaining node is active.
\<close>

theorem prune_protects_active_threads:
  assumes "graph_inv g" and "exec_inv g" and "g' = snd (prune_graph now ttl max_nodes g)"
  shows "(\<forall>k. active_set g k \<noteq> {} \<longrightarrow> active_set g' k = active_set g k \<and>
      (k \<in> fst ` set (nodes g) \<longrightarrow> k \<in> fst ` set (nodes g'))) \<and>
    (length (nodes g') \<le> max_nodes \<or> (\<forall>k \<in> fst ` set (nodes g'). active_set g k \<noteq> {}))"
proof -
  let ?s = "swept now ttl g"
  note ex = swept_exec [OF assms(2), of now ttl]
  show ?thesis
  proof (cases "max_nodes < length (nodes g)")
    case False
    with assms(3) show ?thesis by (simp add: prune_graph_swept ex(2))
  next
    case True
    have g': "g' = fst (evict max_nodes (inactive_nodes ?s) (?s, 0))"
      using assms(3) True by (simp add: prune_graph_swept)
    have act: "active_executions_for_thread ?s k = [] \<longleftrightarrow> active_set ?s k = {}" for k
      by (simp flip: set_empty add: active_set_list [OF exec_inv_index [OF ex(1)]])
    have ks: "set (inactive_nodes ?s) = {k \<in> fst ` set (nodes g). active_set g k = {}}"
      by (force simp: inactive_nodes_def act ex(2) image_iff)
    have inv: "graph_inv ?s" using assms(1) by (simp add: graph_inv_def)
    have none: "\<forall>k \<in> set (inactive_nodes ?s). active_set ?s k = {}" by (simp add: ks ex(2))
    note spec = evict_spec [OF inv ex(1) none g', unfolded ex(2) swept_nodes]
    note same = spec [THEN conjunct2, THEN conjunct1]
      and sub = spec [THEN conjunct2, THEN conjunct2, THEN conjunct1]
      and kept = spec [THEN conjunct2, THEN conjunct2, THEN conjunct2, THEN conjunct1]
      and bound = spec [THEN conjunct2, THEN conjunct2, THEN conjunct2, THEN conjunct2]
    have "active_set g k \<noteq> {}" if "set (inactive_nodes ?s) \<inter> fst ` set (nodes g') = {}" "k \<in> fst ` set (nodes g')" for k
    proof
      assume "active_set g k = {}"
      then have "k \<in> set (inactive_nodes ?s)" using that(2) sub unfolding ks by blast
      with that show False by blast
    qed
    with same kept bound show ?thesis by meson
  qed
qed


theorem prune_protects_active_threads_witness:
  "thread_key ''s'' ''main'' \<in> fst ` set (nodes (snd (prune_graph 5 1 1 demo_graph)))"
proof -
  have "active_executions_for_thread demo_graph (thread_key ''s'' ''main'') = [''e1'']" by code_simp
  then have "active_set demo_graph (thread_key ''s'' ''main'') \<noteq> {}"
    using active_set_list [OF exec_inv_index [OF demo_graph_exec], of "thread_key ''s'' ''main''"] by auto
  moreover have "thread_key ''s'' ''main'' \<in> fst ` set (nodes demo_graph)" by code_simp
  ultimately show ?thesis
    using prune_protects_active_threads [OF demo_graph_inv demo_graph_exec, of "snd (prune_graph 5 1 1 demo_graph)" 5 1 1]
    by blast
qed

text \<open>
  A child is linked to its parent's executions fail-closed: an execution is returned only if it
  has not ended and is bound to the named parent thread, with high confidence only if it is bound to
  the named turn, and without a turn only if it is the single candidate.
\<close>

theorem resolve_parent_fail_closed:
  assumes "exec_inv g" and "resolve_parent_executions session thread turn g = (es, confidence)" and "e \<in> set es"
  shows "\<not> is_terminal_execution g e \<and> execution_thread e g = Some (thread_key session thread) \<and>
    (case turn of
       Some t \<Rightarrow> confidence = High \<and> (\<exists>b. execution_binding e g = Some b \<and> eb_turn_id b = Some t)
     | None \<Rightarrow> confidence = Medium \<and> es = [e] \<and>
         active_set g (thread_key session thread) = {e})"
proof (cases turn)
  case None
  then have es: "es = active_executions_for_thread g (thread_key session thread)" "length es = 1" "confidence = Medium"
    using assms(2,3) by (auto simp: resolve_parent_executions_def Let_def split: if_splits)
  then have one: "es = [e]" using assms(3) by (auto simp: length_Suc_conv)
  have "active_set g (thread_key session thread) = {e}"
    using active_set_list [OF exec_inv_index [OF assms(1)], of "thread_key session thread", folded es(1)]
    by (simp add: one)
  then show ?thesis using None one es(3) by (auto simp: active_set_def)
next
  case (Some t)
  let ?k = "turn_key (thread_key session thread) t"
  have e: "e \<in> set (hm_set (turn_executions g) ?k)" "\<not> is_terminal_execution g e" "confidence = High"
    using assms(2,3) Some by (auto simp: resolve_parent_executions_def Let_def split: if_splits)
  obtain b where "map_of (executions g) e = Some b" "eb_thread b = turn_thread ?k" "eb_turn_id b = Some (turn_turn_id ?k)"
    by (rule exec_inv_turnE [OF assms(1) e(1)])
  with e Some show ?thesis by (simp add: execution_thread_def execution_binding_def turn_key_def)
qed

theorem resolve_parent_fail_closed_witness:
  "resolve_parent_executions ''s'' ''main'' (Some ''t1'') demo_graph = ([''e1''], High) \<and>
   execution_thread ''e1'' demo_graph = Some (thread_key ''s'' ''main'')"
proof -
  have "resolve_parent_executions ''s'' ''main'' (Some ''t1'') demo_graph = ([''e1''], High)" by code_simp
  with resolve_parent_fail_closed [OF demo_graph_exec this, of "''e1''"] show ?thesis by simp
qed

end
