(* ===== verification/Sse.thy ===== *)
theory Sse
  imports Prelude
begin

text \<open>
  The SSE parser of \<open>crates/vellum-proxy-runtime/src/sse.rs\<close>: the incremental UTF-8 decoder
  \<open>append_utf8_safe\<close>, the block splitter \<open>take_sse_block\<close> with its bounded variant, and the field
  reader \<open>strip_sse_field\<close>.

  \<open>std::str::from_utf8\<close> and \<open>String::from_utf8_lossy\<close> are modelled after the standard library:
  \<open>utf8_scan\<close> reads one scalar at the front of the bytes and says whether it is well formed, malformed
  (with the length of the sequence to skip) or cut short by the end of the input. The theory shows that
  decoding and splitting do not depend on how the network cuts the bytes into chunks, that the
  remainder never outgrows three bytes, that valid text and framed blocks survive the round trip,
  and when the bounded splitter refuses.
\<close>

section \<open>UTF-8 in the standard library\<close>

definition is_continuation :: "char \<Rightarrow> bool" where
  "is_continuation c \<longleftrightarrow> 128 \<le> byte_val c \<and> byte_val c \<le> 191"

definition second_of_three :: "char \<Rightarrow> char \<Rightarrow> bool" where
  "second_of_three f c \<longleftrightarrow>
     (byte_val f = 224 \<and> 160 \<le> byte_val c \<and> byte_val c \<le> 191)
     \<or> (225 \<le> byte_val f \<and> byte_val f \<le> 236 \<and> is_continuation c)
     \<or> (byte_val f = 237 \<and> 128 \<le> byte_val c \<and> byte_val c \<le> 159)
     \<or> (238 \<le> byte_val f \<and> byte_val f \<le> 239 \<and> is_continuation c)"

definition second_of_four :: "char \<Rightarrow> char \<Rightarrow> bool" where
  "second_of_four f c \<longleftrightarrow>
     (byte_val f = 240 \<and> 144 \<le> byte_val c \<and> byte_val c \<le> 191)
     \<or> (241 \<le> byte_val f \<and> byte_val f \<le> 243 \<and> is_continuation c)
     \<or> (byte_val f = 244 \<and> 128 \<le> byte_val c \<and> byte_val c \<le> 143)"

datatype utf8_step = Scalar nat | Malformed nat | Truncated

text \<open>The continuation bytes after an accepted second byte: the first bad one is at offset \<open>k\<close>.\<close>

fun scan_tail :: "nat \<Rightarrow> nat \<Rightarrow> string \<Rightarrow> utf8_step" where
  "scan_tail 0 k cs = Scalar k"
| "scan_tail (Suc n) k [] = Truncated"
| "scan_tail (Suc n) k (c # cs) = (if is_continuation c then scan_tail n (k + 1) cs else Malformed k)"

fun utf8_scan :: "string \<Rightarrow> utf8_step" where
  "utf8_scan [] = Truncated"
| "utf8_scan (f # cs) =
     (if byte_val f < 128 then Scalar 1
      else if 194 \<le> byte_val f \<and> byte_val f \<le> 223 then scan_tail 1 1 cs
      else if 224 \<le> byte_val f \<and> byte_val f \<le> 239 then
        (case cs of [] \<Rightarrow> Truncated
         | c # ds \<Rightarrow> if second_of_three f c then scan_tail 1 2 ds else Malformed 1)
      else if 240 \<le> byte_val f \<and> byte_val f \<le> 244 then
        (case cs of [] \<Rightarrow> Truncated
         | c # ds \<Rightarrow> if second_of_four f c then scan_tail 2 2 ds else Malformed 1)
      else Malformed 1)"

record utf8_error =
  valid_up_to :: nat
  error_len :: "nat option"

lemma scan_tail_Scalar: "scan_tail n k cs = Scalar m \<Longrightarrow> m = k + n \<and> n \<le> length cs"
  by (induction n k cs rule: scan_tail.induct) (auto split: if_splits)

lemma scan_tail_Malformed: "scan_tail n k cs = Malformed m \<Longrightarrow> k \<le> m \<and> m < k + n \<and> m < k + length cs"
  by (induction n k cs rule: scan_tail.induct) (auto split: if_splits)

lemma scan_tail_Truncated: "scan_tail n k cs = Truncated \<Longrightarrow> length cs < n"
  by (induction n k cs rule: scan_tail.induct) (auto split: if_splits)

lemma utf8_scan_Scalar: "utf8_scan s = Scalar m \<Longrightarrow> 0 < m \<and> m \<le> length s"
  by (cases s) (auto split: if_splits list.splits dest!: scan_tail_Scalar)

lemma utf8_scan_Malformed: "utf8_scan s = Malformed m \<Longrightarrow> 0 < m \<and> m \<le> length s"
  by (cases s) (auto split: if_splits list.splits dest!: scan_tail_Malformed)

lemma utf8_scan_Truncated: "utf8_scan s = Truncated \<Longrightarrow> length s \<le> 3"
  by (cases s) (auto split: if_splits list.splits dest!: scan_tail_Truncated)

function from_utf8_at :: "nat \<Rightarrow> string \<Rightarrow> utf8_error + unit" where
  "from_utf8_at n s =
     (if s = [] then Inr ()
      else case utf8_scan s of
        Scalar k \<Rightarrow> from_utf8_at (n + k) (drop k s)
      | Malformed k \<Rightarrow> Inl \<lparr>valid_up_to = n, error_len = Some k\<rparr>
      | Truncated \<Rightarrow> Inl \<lparr>valid_up_to = n, error_len = None\<rparr>)"
  by pat_completeness auto
termination
  by (relation "measure (\<lambda>(n, s). length s)") (auto dest: utf8_scan_Scalar)

declare from_utf8_at.simps [simp del]

definition from_utf8 :: "string \<Rightarrow> utf8_error + string" where
  "from_utf8 s = map_sum (\<lambda>e. e) (\<lambda>_. s) (from_utf8_at 0 s)"

definition REPLACEMENT :: string where
  "REPLACEMENT = map char_of [239, 191, 189 :: nat]"

function from_utf8_lossy :: "string \<Rightarrow> string" where
  "from_utf8_lossy s =
     (if s = [] then []
      else case utf8_scan s of
        Scalar k \<Rightarrow> take k s @ from_utf8_lossy (drop k s)
      | Malformed k \<Rightarrow> REPLACEMENT @ from_utf8_lossy (drop k s)
      | Truncated \<Rightarrow> REPLACEMENT)"
  by pat_completeness auto
termination
  by (relation "measure length") (auto dest: utf8_scan_Scalar utf8_scan_Malformed)

declare from_utf8_lossy.simps [simp del]

lemma from_utf8_at_Inl:
  assumes "from_utf8_at n s = Inl e"
  shows "s \<noteq> [] \<and> (\<forall>k. error_len e = Some k \<longrightarrow> 0 < k)"
  using assms
proof (induction n s rule: from_utf8_at.induct)
  case (1 n s)
  then show ?case
    by (auto simp: from_utf8_at.simps [of n s] split: if_splits utf8_step.splits dest: utf8_scan_Malformed)
qed

lemma from_utf8_Inl: "from_utf8 s = Inl e \<Longrightarrow> s \<noteq> [] \<and> (\<forall>k. error_len e = Some k \<longrightarrow> 0 < k)"
  unfolding from_utf8_def by (cases "from_utf8_at 0 s") (auto dest: from_utf8_at_Inl)

section \<open>The incremental decoder\<close>

function decode_loop :: "string \<Rightarrow> string \<Rightarrow> string \<times> string" where
  "decode_loop buffer input =
     (case from_utf8 input of
        Inr s \<Rightarrow> (buffer @ s, [])
      | Inl e \<Rightarrow>
          let valid_slice = take (valid_up_to e) input;
              buffer' = buffer @ (case from_utf8 valid_slice of
                                    Inr valid \<Rightarrow> valid
                                  | Inl _ \<Rightarrow> from_utf8_lossy valid_slice)
          in case error_len e of
               Some invalid_len \<Rightarrow>
                 decode_loop (buffer' @ REPLACEMENT) (drop (valid_up_to e + invalid_len) input)
             | None \<Rightarrow> (buffer', drop (valid_up_to e) input))"
  by pat_completeness auto
termination
  by (relation "measure (\<lambda>(b, i). length i)") (auto dest: from_utf8_Inl)

declare decode_loop.simps [simp del]

definition append_utf8_safe :: "string \<Rightarrow> string \<Rightarrow> string \<Rightarrow> string \<times> string" where
  "append_utf8_safe buffer remainder new_bytes =
     (if remainder = [] then decode_loop buffer new_bytes
      else if 3 < length remainder then decode_loop (buffer @ from_utf8_lossy remainder) new_bytes
      else decode_loop buffer (remainder @ new_bytes))"

section \<open>The block splitter\<close>

fun find_str :: "string \<Rightarrow> string \<Rightarrow> nat option" where
  "find_str [] p = (if p = [] then Some 0 else None)"
| "find_str (c # cs) p = (if starts_with (c # cs) p then Some 0 else map_option Suc (find_str cs p))"

definition strip_sse_field :: "string \<Rightarrow> string \<Rightarrow> string option" where
  "strip_sse_field line field =
     (case strip_prefix line (field @ '': '') of
        Some value \<Rightarrow> Some value
      | None \<Rightarrow> strip_prefix line (field @ '':''))"

definition MAX_SSE_EVENT_BYTES :: nat where
  "MAX_SSE_EVENT_BYTES = 8 * 1024 * 1024"

definition MAX_PARSER_PENDING_BUFFER_BYTES :: nat where
  "MAX_PARSER_PENDING_BUFFER_BYTES = 16 * 1024 * 1024"

datatype sse_limit_error =
    PendingBuffer (limit_bytes: nat) (limit_limit: nat)
  | SseEvent (limit_bytes: nat) (limit_limit: nat)

fun limit_name :: "sse_limit_error \<Rightarrow> string" where
  "limit_name (PendingBuffer bytes limit) = ''parser pending buffer''"
| "limit_name (SseEvent bytes limit) = ''third-party SSE event''"

definition CRLF_CRLF :: string where
  "CRLF_CRLF = [CHR 0x0D, CHR 0x0A, CHR 0x0D, CHR 0x0A]"

definition LF_LF :: string where
  "LF_LF = [CHR 0x0A, CHR 0x0A]"

definition better_delimiter :: "string \<Rightarrow> string \<times> nat \<Rightarrow> (nat \<times> nat) option \<Rightarrow> (nat \<times> nat) option" where
  "better_delimiter buffer dl best =
     (case find_str buffer (fst dl) of
        Some pos \<Rightarrow>
          if (case best of None \<Rightarrow> True | Some (best_pos, _) \<Rightarrow> pos < best_pos)
          then Some (pos, snd dl) else best
      | None \<Rightarrow> best)"

definition take_sse_block :: "string \<Rightarrow> string option \<times> string" where
  "take_sse_block buffer =
     (case fold (better_delimiter buffer) [(CRLF_CRLF, 4), (LF_LF, 2)] None of
        None \<Rightarrow> (None, buffer)
      | Some (pos, len) \<Rightarrow> (Some (take pos buffer), drop (pos + len) buffer))"

definition take_limited_sse_block :: "string \<Rightarrow> (sse_limit_error + string option) \<times> string" where
  "take_limited_sse_block buffer =
     (case take_sse_block buffer of
        (Some block, rest) \<Rightarrow>
          if MAX_SSE_EVENT_BYTES < length block
          then (Inl (SseEvent (length block) MAX_SSE_EVENT_BYTES), rest)
          else (Inr (Some block), rest)
      | (None, rest) \<Rightarrow>
          if MAX_PARSER_PENDING_BUFFER_BYTES < length rest
          then (Inl (PendingBuffer (length rest) MAX_PARSER_PENDING_BUFFER_BYTES), rest)
          else (Inr None, rest))"

section \<open>A reference decoder\<close>

text \<open>
  \<open>utf8_stream\<close> reads scalar after scalar and returns the decoded text with the bytes of a scalar
  the end of the input cuts short. The loop of \<open>append_utf8_safe\<close>, which asks the standard library
  for whole valid prefixes, computes the same.
\<close>

function utf8_stream :: "string \<Rightarrow> string \<times> string" where
  "utf8_stream s =
     (if s = [] then ([], [])
      else case utf8_scan s of
        Scalar k \<Rightarrow> apfst ((@) (take k s)) (utf8_stream (drop k s))
      | Malformed k \<Rightarrow> apfst ((@) REPLACEMENT) (utf8_stream (drop k s))
      | Truncated \<Rightarrow> ([], s))"
  by pat_completeness auto
termination
  by (relation "measure length") (auto dest: utf8_scan_Scalar utf8_scan_Malformed)

declare utf8_stream.simps [simp del]

lemma utf8_stream_Nil [simp]: "utf8_stream [] = ([], [])"
  by (simp add: utf8_stream.simps)

text \<open>A verdict on the front of the input stands whatever follows.\<close>

lemma scan_tail_append: "scan_tail n k cs \<noteq> Truncated \<Longrightarrow> scan_tail n k (cs @ ds) = scan_tail n k cs"
  by (induction n k cs rule: scan_tail.induct) auto

lemma utf8_scan_append: "utf8_scan s \<noteq> Truncated \<Longrightarrow> utf8_scan (s @ t) = utf8_scan s"
  by (cases s) (auto simp: scan_tail_append split: if_splits list.splits)

lemma utf8_stream_append:
  "utf8_stream (s @ t) = apfst ((@) (fst (utf8_stream s))) (utf8_stream (snd (utf8_stream s) @ t))"
proof (induction s rule: utf8_stream.induct)
  case (1 s)
  show ?case
  proof (cases "s = []")
    case False
    show ?thesis
    proof (cases "utf8_scan s")
      case (Scalar k)
      then show ?thesis
        using False 1(1) [OF False Scalar] utf8_scan_append [of s t] utf8_scan_Scalar [OF Scalar]
        by (simp add: utf8_stream.simps [of s] utf8_stream.simps [of "s @ t"] apfst_def map_prod_def
            split: prod.splits)
    next
      case (Malformed k)
      then show ?thesis
        using False 1(2) [OF False Malformed] utf8_scan_append [of s t] utf8_scan_Malformed [OF Malformed]
        by (simp add: utf8_stream.simps [of s] utf8_stream.simps [of "s @ t"] apfst_def map_prod_def
            split: prod.splits)
    next
      case Truncated
      with False show ?thesis
        by (simp add: utf8_stream.simps [of s] apfst_def map_prod_def split: prod.splits)
    qed
  qed (simp add: apfst_def map_prod_def split: prod.splits)
qed

lemma utf8_stream_remainder: "length (snd (utf8_stream s)) \<le> 3"
proof (induction s rule: utf8_stream.induct)
  case (1 s)
  then show ?case
    by (auto simp: utf8_stream.simps [of s] dest: utf8_scan_Truncated split: utf8_step.splits)
qed

lemma utf8_stream_idem: "utf8_stream (snd (utf8_stream s)) = ([], snd (utf8_stream s))"
proof (induction s rule: utf8_stream.induct)
  case (1 s)
  then show ?case
    by (auto simp: utf8_stream.simps [of s] split: utf8_step.splits)
qed

section \<open>The decoder loop computes the reference\<close>

text \<open>What \<open>from_utf8\<close> reports, in terms of the reference decoder.\<close>

definition utf8_report :: "nat \<Rightarrow> string \<Rightarrow> utf8_error + unit \<Rightarrow> bool" where
  "utf8_report n s r =
     (case r of
        Inr _ \<Rightarrow> utf8_stream s = (s, [])
      | Inl e \<Rightarrow> \<exists>k. valid_up_to e = n + k \<and> k < length s \<and>
          (\<forall>r. utf8_stream (take k s @ r) = apfst ((@) (take k s)) (utf8_stream r)) \<and>
          (case error_len e of
             Some m \<Rightarrow> utf8_scan (drop k s) = Malformed m
           | None \<Rightarrow> utf8_scan (drop k s) = Truncated))"

lemma apfst_append_Nil [simp]: "apfst ((@) []) p = p"
  by (cases p) simp

lemma apfst_append: "apfst ((@) a) (apfst ((@) b) p) = apfst ((@) (a @ b)) p"
  by (cases p) simp

lemma utf8_scan_Truncated_Scalar:
  "utf8_scan t = Truncated \<Longrightarrow> utf8_scan (t @ u) = Scalar k \<Longrightarrow> t = [] \<or> length t < k"
  by (cases t) (auto split: if_splits list.splits dest!: scan_tail_Truncated scan_tail_Scalar)

lemma utf8_scan_take:
  assumes "utf8_scan s = Scalar k"
  shows "utf8_scan (take k s) = Scalar k"
proof (cases "utf8_scan (take k s) = Truncated")
  case True
  with assms utf8_scan_Truncated_Scalar [of "take k s" "drop k s" k] utf8_scan_Scalar [OF assms]
  show ?thesis by auto
next
  case False
  with assms utf8_scan_append [of "take k s" "drop k s"] show ?thesis by simp
qed

lemma utf8_stream_Scalar:
  assumes "utf8_scan s = Scalar k"
  shows "utf8_stream (take k s @ r) = apfst ((@) (take k s)) (utf8_stream r)"
proof -
  have "utf8_scan (take k s @ r) = Scalar k" and k: "0 < k" "k \<le> length s"
    using assms by (simp_all add: utf8_scan_take utf8_scan_append utf8_scan_Scalar)
  moreover from k have "take k s \<noteq> []" and "length (take k s) = k"
    by auto
  ultimately show ?thesis
    by (simp add: utf8_stream.simps [of "take k s @ r"])
qed

lemma from_utf8_at_report: "utf8_report n s (from_utf8_at n s)"
proof (induction n s rule: from_utf8_at.induct)
  case (1 n s)
  show ?case
  proof (cases "s = []")
    case False
    show ?thesis
    proof (cases "utf8_scan s")
      case (Scalar k)
      let ?r = "from_utf8_at (n + k) (drop k s)"
      note k = utf8_scan_Scalar [OF Scalar]
      have eq: "from_utf8_at n s = ?r"
        using False Scalar by (simp add: from_utf8_at.simps [of n s])
      have stream: "utf8_stream (take k s @ r) = apfst ((@) (take k s)) (utf8_stream r)" for r
        by (rule utf8_stream_Scalar [OF Scalar])
      have IH: "utf8_report (n + k) (drop k s) ?r"
        by (rule 1 [OF False Scalar])
      show ?thesis
      proof (cases ?r)
        case (Inr u)
        with IH have "utf8_stream (drop k s) = (drop k s, [])"
          by (simp add: utf8_report_def)
        with stream [of "drop k s"] show ?thesis
          by (simp add: eq Inr utf8_report_def)
      next
        case (Inl e)
        with IH obtain j where j: "valid_up_to e = n + k + j" "j < length s - k"
          and pre: "\<And>r. utf8_stream (take j (drop k s) @ r) = apfst ((@) (take j (drop k s))) (utf8_stream r)"
          and err: "case error_len e of Some m \<Rightarrow> utf8_scan (drop j (drop k s)) = Malformed m
             | None \<Rightarrow> utf8_scan (drop j (drop k s)) = Truncated"
          by (auto simp: utf8_report_def)
        have "utf8_stream (take (k + j) s @ r) = apfst ((@) (take (k + j) s)) (utf8_stream r)" for r
          using stream [of "take j (drop k s) @ r"] by (simp add: take_add pre apfst_append)
        then show ?thesis
          unfolding eq Inl utf8_report_def sum.case by (intro exI [of _ "k + j"]) (use j err in \<open>auto simp: ac_simps split: option.splits\<close>)
      qed
    qed (use False in \<open>auto simp: from_utf8_at.simps [of n s] utf8_report_def intro!: exI [of _ 0]\<close>)
  qed (simp add: from_utf8_at.simps utf8_report_def)
qed

lemma utf8_scan_REPLACEMENT: "utf8_scan (REPLACEMENT @ s) = Scalar 3"
  by (simp add: REPLACEMENT_def byte_val_def second_of_three_def is_continuation_def)

lemma utf8_stream_bad:
  assumes "utf8_scan s = Truncated \<or> utf8_scan s = Malformed m" and "s \<noteq> []"
  shows "utf8_stream s \<noteq> (s, [])"
proof (cases "utf8_scan s = Truncated")
  case True
  with assms(2) show ?thesis by (simp add: utf8_stream.simps [of s])
next
  case False
  with assms have "fst (utf8_stream s) = REPLACEMENT @ fst (utf8_stream (drop m s))"
    by (simp add: utf8_stream.simps [of s] apfst_def)
  moreover have "s \<noteq> REPLACEMENT @ t" for t
    using False assms(1) utf8_scan_REPLACEMENT [of t] by auto
  ultimately show ?thesis
    by (metis fst_conv)
qed

lemma from_utf8_Inr_iff: "from_utf8 s = Inr t \<longleftrightarrow> t = s \<and> utf8_stream s = (s, [])"
proof (cases "from_utf8_at 0 s")
  case (Inr u)
  with from_utf8_at_report [of 0 s] show ?thesis
    by (auto simp: from_utf8_def utf8_report_def)
next
  case (Inl e)
  with from_utf8_at_report [of 0 s] obtain k where k: "k < length s"
    and pre: "\<And>r. utf8_stream (take k s @ r) = apfst ((@) (take k s)) (utf8_stream r)"
    and err: "case error_len e of Some m \<Rightarrow> utf8_scan (drop k s) = Malformed m
       | None \<Rightarrow> utf8_scan (drop k s) = Truncated"
    by (auto simp: utf8_report_def)
  have "utf8_stream (drop k s) \<noteq> (drop k s, [])"
    using k err utf8_stream_bad [of "drop k s"] by (auto split: option.splits)
  with pre [of "drop k s"] have "utf8_stream s \<noteq> (s, [])"
    by (metis append_take_drop_id apfst_conv same_append_eq prod.collapse prod.inject)
  then show ?thesis
    by (simp add: from_utf8_def Inl)
qed

lemma from_utf8_Inl_report:
  assumes "from_utf8 s = Inl e"
  shows "valid_up_to e < length s"
    and "from_utf8 (take (valid_up_to e) s) = Inr (take (valid_up_to e) s)"
    and "utf8_stream s = apfst ((@) (take (valid_up_to e) s)) (utf8_stream (drop (valid_up_to e) s))"
    and "case error_len e of Some m \<Rightarrow> utf8_scan (drop (valid_up_to e) s) = Malformed m
       | None \<Rightarrow> utf8_scan (drop (valid_up_to e) s) = Truncated"
proof -
  have "from_utf8_at 0 s = Inl e"
    using assms by (cases "from_utf8_at 0 s") (auto simp: from_utf8_def)
  with from_utf8_at_report [of 0 s]
  have k: "valid_up_to e < length s"
    and pre: "\<And>r. utf8_stream (take (valid_up_to e) s @ r) = apfst ((@) (take (valid_up_to e) s)) (utf8_stream r)"
    and err: "case error_len e of Some m \<Rightarrow> utf8_scan (drop (valid_up_to e) s) = Malformed m
       | None \<Rightarrow> utf8_scan (drop (valid_up_to e) s) = Truncated"
    by (auto simp: utf8_report_def)
  show "valid_up_to e < length s" by (rule k)
  show "from_utf8 (take (valid_up_to e) s) = Inr (take (valid_up_to e) s)"
    using pre [of "[]"] by (simp add: from_utf8_Inr_iff)
  show "utf8_stream s = apfst ((@) (take (valid_up_to e) s)) (utf8_stream (drop (valid_up_to e) s))"
    using pre [of "drop (valid_up_to e) s"] by simp
  show "case error_len e of Some m \<Rightarrow> utf8_scan (drop (valid_up_to e) s) = Malformed m
     | None \<Rightarrow> utf8_scan (drop (valid_up_to e) s) = Truncated" by (rule err)
qed

lemma decode_loop_stream: "decode_loop buffer input = apfst ((@) buffer) (utf8_stream input)"
proof (induction buffer input rule: decode_loop.induct)
  case (1 buffer input)
  show ?case
  proof (cases "from_utf8 input")
    case (Inr s)
    then have "s = input" and "utf8_stream input = (input, [])"
      by (simp_all add: from_utf8_Inr_iff)
    with Inr show ?thesis by (simp add: decode_loop.simps)
  next
    case (Inl e)
    let ?v = "valid_up_to e"
    note r = from_utf8_Inl_report [OF Inl]
    show ?thesis
    proof (cases "error_len e")
      case None
      with r have "utf8_stream (drop ?v input) = ([], drop ?v input)"
        by (simp add: utf8_stream.simps [of "drop ?v input"])
      with None Inl r show ?thesis by (simp add: decode_loop.simps [of buffer] Let_def)
    next
      case (Some m)
      with r have "utf8_stream (drop ?v input) = apfst ((@) REPLACEMENT) (utf8_stream (drop (?v + m) input))"
        by (simp add: utf8_stream.simps [of "drop ?v input"] add.commute)
      with Some Inl r 1 [OF Inl refl refl Some] show ?thesis
        by (simp add: decode_loop.simps [of buffer] Let_def apfst_append)
    qed
  qed
qed

section \<open>Chunking does not matter\<close>

definition push_bytes :: "string \<Rightarrow> string \<times> string \<Rightarrow> string \<times> string" where
  "push_bytes bytes st = append_utf8_safe (fst st) (snd st) bytes"

lemma append_utf8_safe_stream:
  "length r \<le> 3 \<Longrightarrow> append_utf8_safe b r new = apfst ((@) b) (utf8_stream (r @ new))"
  by (simp add: append_utf8_safe_def decode_loop_stream)

lemma push_bytes_stream:
  "fold push_bytes chunks (b @ fst (utf8_stream s), snd (utf8_stream s)) =
     apfst ((@) b) (utf8_stream (s @ concat chunks))"
proof (induction chunks arbitrary: s)
  case (Cons c chunks)
  have "push_bytes c (b @ fst (utf8_stream s), snd (utf8_stream s)) =
      (b @ fst (utf8_stream (s @ c)), snd (utf8_stream (s @ c)))"
    by (simp add: push_bytes_def append_utf8_safe_stream utf8_stream_remainder utf8_stream_append [of s c]
        apfst_def map_prod_def split: prod.splits)
  with Cons.IH [of "s @ c"] show ?case by simp
qed (simp add: apfst_def map_prod_def split: prod.splits)

lemma from_utf8_lossy_Nil [simp]: "from_utf8_lossy [] = []"
  by (simp add: from_utf8_lossy.simps)

lemma lossy_stream: "from_utf8_lossy s = fst (utf8_stream s) @ from_utf8_lossy (snd (utf8_stream s))"
proof (induction s rule: from_utf8_lossy.induct)
  case (1 s)
  then show ?case
    by (auto simp: from_utf8_lossy.simps [of s] utf8_stream.simps [of s] apfst_def map_prod_def
        split: utf8_step.splits prod.splits)
qed

text \<open>
  C9: The decoder's result depends on the bytes and not on the chunks they arrive in: any sequence of
  calls leaves the text and the remainder of one call on the concatenation, the remainder never
  exceeds three bytes (the guard against a longer one is dead code), and decoding the remainder
  lossily at the end gives what \<open>String::from_utf8_lossy\<close> makes of the whole input.
\<close>

theorem utf8_chunking_irrelevant:
  "fold push_bytes chunks (buffer, []) = append_utf8_safe buffer [] (concat chunks) \<and>
   (case fold push_bytes chunks (buffer, []) of (decoded, remainder) \<Rightarrow>
      length remainder \<le> 3 \<and>
      decoded @ from_utf8_lossy remainder = buffer @ from_utf8_lossy (concat chunks))"
  using push_bytes_stream [of chunks buffer "[]"] utf8_stream_remainder [of "concat chunks"]
    lossy_stream [of "concat chunks"]
  by (simp add: append_utf8_safe_stream apfst_def map_prod_def split: prod.splits)

section \<open>Valid text survives\<close>

text \<open>The Unicode scalar values and their encodings (\<open>char::encode_utf8\<close>).\<close>

definition is_scalar :: "nat \<Rightarrow> bool" where
  "is_scalar n \<longleftrightarrow> n < 55296 \<or> (57344 \<le> n \<and> n < 1114112)"

definition encode_utf8 :: "nat \<Rightarrow> string" where
  "encode_utf8 n = map char_of
     (if n < 128 then [n]
      else if n < 2048 then [192 + n div 64, 128 + n mod 64]
      else if n < 65536 then [224 + n div 4096, 128 + n div 64 mod 64, 128 + n mod 64]
      else [240 + n div 262144, 128 + n div 4096 mod 64, 128 + n div 64 mod 64, 128 + n mod 64])"

lemma byte_val_char_of [simp]: "n < 256 \<Longrightarrow> byte_val (char_of (n :: nat)) = n"
  by (simp add: byte_val_def)

lemma is_continuation_char_of [simp]: "n < 64 \<Longrightarrow> is_continuation (char_of (128 + n :: nat))"
  by (simp add: is_continuation_def)

lemma second_digit_small:
  assumes "n div a div 64 = b" and "n < a * (64 * b + c)"
  shows "n div a mod 64 < (c :: nat)"
proof -
  have "n div a < 64 * b + c"
    using assms(2) by (simp add: less_mult_imp_div_less mult.commute)
  moreover have "n div a = 64 * b + n div a mod 64"
    using assms(1) by (metis mult_div_mod_eq)
  ultimately show ?thesis by linarith
qed

lemma second_of_threeI:
  "a < 16 \<Longrightarrow> b < 64 \<Longrightarrow> (a = 0 \<Longrightarrow> 32 \<le> b) \<Longrightarrow> (a = 13 \<Longrightarrow> b < 32) \<Longrightarrow>
     second_of_three (char_of (224 + a :: nat)) (char_of (128 + b :: nat))"
  by (cases "a = 0"; cases "a = 13") (auto simp: second_of_three_def is_continuation_def)

lemma second_of_fourI:
  "a < 5 \<Longrightarrow> b < 64 \<Longrightarrow> (a = 0 \<Longrightarrow> 16 \<le> b) \<Longrightarrow> (a = 4 \<Longrightarrow> b < 16) \<Longrightarrow>
     second_of_four (char_of (240 + a :: nat)) (char_of (128 + b :: nat))"
  by (cases "a = 0"; cases "a = 4") (auto simp: second_of_four_def is_continuation_def)

lemma second_of_three_encoded:
  assumes "2048 \<le> n" "n < 65536" "is_scalar n"
  shows "second_of_three (char_of (224 + n div 4096)) (char_of (128 + n div 64 mod 64))"
proof -
  have "n div 4096 < 16" and "n div 64 mod 64 < 64"
    using assms by auto
  moreover have "n div 4096 = 0 \<Longrightarrow> 32 \<le> n div 64 mod 64"
    using assms by auto
  moreover have "n div 4096 = 13 \<Longrightarrow> n div 64 mod 64 < 32"
    using assms second_digit_small [of n 64 13 32] unfolding is_scalar_def
    by (auto simp: div_mult2_eq [symmetric])
  ultimately show ?thesis by (rule second_of_threeI)
qed

lemma second_of_four_encoded:
  assumes "65536 \<le> n" "is_scalar n"
  shows "second_of_four (char_of (240 + n div 262144)) (char_of (128 + n div 4096 mod 64))"
proof -
  have "n div 262144 < 5" and "n div 4096 mod 64 < 64"
    using assms unfolding is_scalar_def by auto
  moreover have "n div 262144 = 0 \<Longrightarrow> 16 \<le> n div 4096 mod 64"
    using assms by auto
  moreover have "n div 262144 = 4 \<Longrightarrow> n div 4096 mod 64 < 16"
    using assms second_digit_small [of n 4096 4 16] unfolding is_scalar_def
    by (auto simp: div_mult2_eq [symmetric])
  ultimately show ?thesis by (rule second_of_fourI)
qed

lemma utf8_scan_encode:
  assumes "is_scalar n"
  shows "utf8_scan (encode_utf8 n @ s) = Scalar (length (encode_utf8 n))"
proof -
  consider "n < 128" | "128 \<le> n" "n < 2048" | "2048 \<le> n" "n < 65536" | "65536 \<le> n"
    by linarith
  then show ?thesis
  proof cases
    case 2
    then have "n div 64 < 32" and "2 \<le> n div 64" by auto
    with 2 show ?thesis by (simp add: encode_utf8_def)
  next
    case 3
    then have "n div 4096 < 16" by auto
    with 3 second_of_three_encoded [OF 3 assms] show ?thesis
      by (simp add: encode_utf8_def)
  next
    case 4
    then have "n div 262144 < 5" using assms unfolding is_scalar_def by auto
    with 4 second_of_four_encoded [OF 4 assms] show ?thesis
      by (simp add: encode_utf8_def numeral_2_eq_2)
  qed (simp add: encode_utf8_def)
qed

lemma utf8_stream_encode:
  "list_all is_scalar ns \<Longrightarrow> utf8_stream (concat (map encode_utf8 ns)) = (concat (map encode_utf8 ns), [])"
proof (induction ns)
  case (Cons n ns)
  have "encode_utf8 n \<noteq> []" by (simp add: encode_utf8_def)
  with Cons show ?case
    by (simp add: utf8_stream.simps [of "encode_utf8 n @ s" for s] utf8_scan_encode)
qed simp

text \<open>
  Text survives the network: the encoding of any sequence of Unicode scalars, cut into any
  chunks, also inside a scalar, is appended to the buffer unchanged and nothing is left over.
\<close>

theorem utf8_roundtrip:
  assumes "list_all is_scalar ns" and "concat chunks = concat (map encode_utf8 ns)"
  shows "fold push_bytes chunks (buffer, []) = (buffer @ concat (map encode_utf8 ns), [])"
  using push_bytes_stream [of chunks buffer "[]"] utf8_stream_encode [OF assms(1)] assms(2)
  by simp

theorem utf8_roundtrip_witness:
  "fold push_bytes [map char_of [104, 105, 228 :: nat], map char_of [189, 160 :: nat]] ([], []) =
     (encode_utf8 104 @ encode_utf8 105 @ encode_utf8 20320, [])"
  using utf8_roundtrip [of "[104, 105, 20320]" "[map char_of [104, 105, 228 :: nat], map char_of [189, 160 :: nat]]" "[]"]
  by (simp add: is_scalar_def encode_utf8_def)

section \<open>A reference splitter\<close>

text \<open>\<open>split_block\<close> walks to the first delimiter of either kind and cuts there.\<close>

fun split_block :: "string \<Rightarrow> (string \<times> string) option" where
  "split_block [] = None"
| "split_block (c # cs) =
     (if starts_with (c # cs) CRLF_CRLF then Some ([], drop 4 (c # cs))
      else if starts_with (c # cs) LF_LF then Some ([], drop 2 (c # cs))
      else map_option (apfst ((#) c)) (split_block cs))"

lemma starts_with_iff: "starts_with s p \<longleftrightarrow> (\<exists>r. s = p @ r)"
  unfolding starts_with_def by (metis append_eq_conv_conj append_take_drop_id)

lemma starts_with_delims:
  "starts_with s CRLF_CRLF \<longleftrightarrow> (\<exists>r. s = CHR 0x0D # CHR 0x0A # CHR 0x0D # CHR 0x0A # r)"
  "starts_with s LF_LF \<longleftrightarrow> (\<exists>r. s = CHR 0x0A # CHR 0x0A # r)"
  by (auto simp: starts_with_iff CRLF_CRLF_def LF_LF_def)

lemma take_sse_block_split:
  "take_sse_block s = (case split_block s of None \<Rightarrow> (None, s) | Some (b, r) \<Rightarrow> (Some b, r))"
proof (induction s)
  case Nil
  show ?case by (simp add: take_sse_block_def better_delimiter_def CRLF_CRLF_def LF_LF_def)
next
  case (Cons c cs)
  have excl: "\<not> (starts_with (c # cs) CRLF_CRLF \<and> starts_with (c # cs) LF_LF)"
    by (auto simp: starts_with_delims)
  with Cons show ?case
    by (auto simp: take_sse_block_def better_delimiter_def drop_Cons' add.commute
        split: option.splits if_splits)
qed

lemma split_block_append:
  "split_block xs = Some (b, r) \<Longrightarrow> split_block (xs @ ys) = Some (b, r @ ys)"
proof (induction xs arbitrary: b)
  case (Cons c cs)
  show ?case
  proof (cases "starts_with (c # cs) CRLF_CRLF \<or> starts_with (c # cs) LF_LF")
    case True
    with Cons.prems show ?thesis by (auto simp: starts_with_delims)
  next
    case False
    with Cons.prems obtain b' where b': "split_block cs = Some (b', r)" "b = c # b'"
      by (auto simp del: starts_with_delims)
    have "\<not> starts_with (c # cs @ ys) CRLF_CRLF" and "\<not> starts_with (c # cs @ ys) LF_LF"
      using False b'(1)
      by (auto simp: starts_with_delims Cons_eq_append_conv append_eq_Cons_conv)
    with Cons.IH [OF b'(1)] b'(2) show ?thesis by simp
  qed
qed simp

lemma split_block_LF:
  "split_block (b @ [CHR 0x0A]) = None \<Longrightarrow> split_block (b @ LF_LF @ r) = Some (b, r)"
proof (induction b)
  case Nil
  show ?case by (simp add: LF_LF_def starts_with_def CRLF_CRLF_def)
next
  case (Cons c b)
  then have none: "\<not> starts_with (c # b @ [CHR 0x0A]) CRLF_CRLF" "\<not> starts_with (c # b @ [CHR 0x0A]) LF_LF"
    and IH: "split_block (b @ LF_LF @ r) = Some (b, r)"
    by (auto split: if_splits)
  have "\<not> starts_with (c # b @ LF_LF @ r) CRLF_CRLF" "\<not> starts_with (c # b @ LF_LF @ r) LF_LF"
    using none unfolding starts_with_delims
    by (auto simp: LF_LF_def Cons_eq_append_conv append_eq_Cons_conv)
  with IH show ?case by simp
qed

lemma split_block_CRLF:
  "split_block (b @ [CHR 0x0D, CHR 0x0A, CHR 0x0D]) = None \<Longrightarrow> split_block (b @ CRLF_CRLF @ r) = Some (b, r)"
proof (induction b)
  case Nil
  show ?case by (simp add: starts_with_def CRLF_CRLF_def)
next
  case (Cons c b)
  let ?t = "[CHR 0x0D, CHR 0x0A, CHR 0x0D]"
  from Cons have none: "\<not> starts_with (c # b @ ?t) CRLF_CRLF" "\<not> starts_with (c # b @ ?t) LF_LF"
    and IH: "split_block (b @ CRLF_CRLF @ r) = Some (b, r)"
    by (auto split: if_splits)
  have "\<not> starts_with (c # b @ CRLF_CRLF @ r) CRLF_CRLF" "\<not> starts_with (c # b @ CRLF_CRLF @ r) LF_LF"
    using none unfolding starts_with_delims
    by (auto simp: CRLF_CRLF_def Cons_eq_append_conv append_eq_Cons_conv)
  with IH show ?case by simp
qed

section \<open>Draining a buffer\<close>

text \<open>
  The callers' loops \<open>while let Some(block) = take_sse_block(&mut buffer)\<close> and, for third-party
  streams, the loop over \<open>take_limited_sse_block\<close> that stops at the first limit error.
\<close>

lemma split_block_shrinks: "split_block s = Some (b, r) \<Longrightarrow> length r < length s"
  by (induction s arbitrary: b) (auto simp: starts_with_delims split: if_splits)

lemma take_sse_block_shrinks: "take_sse_block s = (Some b, r) \<Longrightarrow> length r < length s"
  by (auto simp: take_sse_block_split dest: split_block_shrinks split: option.splits)

function drain_blocks :: "string \<Rightarrow> string list \<times> string" where
  "drain_blocks buffer =
     (case take_sse_block buffer of
        (None, rest) \<Rightarrow> ([], rest)
      | (Some block, rest) \<Rightarrow> apfst ((#) block) (drain_blocks rest))"
  by pat_completeness auto
termination
  by (relation "measure length") (auto dest: take_sse_block_shrinks [OF sym])

declare drain_blocks.simps [simp del]

lemma take_limited_shrinks: "take_limited_sse_block s = (Inr (Some b), r) \<Longrightarrow> length r < length s"
  by (auto simp: take_limited_sse_block_def split: option.splits prod.splits if_splits
      dest: take_sse_block_shrinks)

function drain_limited :: "string \<Rightarrow> string list \<times> (sse_limit_error + string)" where
  "drain_limited buffer =
     (case take_limited_sse_block buffer of
        (Inr None, rest) \<Rightarrow> ([], Inr rest)
      | (Inl e, rest) \<Rightarrow> ([], Inl e)
      | (Inr (Some block), rest) \<Rightarrow> apfst ((#) block) (drain_limited rest))"
  by pat_completeness auto
termination
  by (relation "measure length") (auto dest: take_limited_shrinks [OF sym])

declare drain_limited.simps [simp del]

lemma drain_blocks_split:
  "drain_blocks s = (case split_block s of None \<Rightarrow> ([], s) | Some (b, r) \<Rightarrow> apfst ((#) b) (drain_blocks r))"
  by (simp add: drain_blocks.simps [of s] take_sse_block_split split: option.splits)

lemma drain_blocks_append:
  "drain_blocks (s @ t) = apfst ((@) (fst (drain_blocks s))) (drain_blocks (snd (drain_blocks s) @ t))"
proof (induction s rule: drain_blocks.induct)
  case (1 s)
  show ?case
  proof (cases "split_block s")
    case None
    then show ?thesis
      by (simp add: drain_blocks_split [of s] apfst_def map_prod_def split: prod.splits)
  next
    case (Some p)
    obtain b r where p: "p = (b, r)" by (cases p)
    have "take_sse_block s = (Some b, r)"
      using Some p by (simp add: take_sse_block_split)
    then have "drain_blocks (r @ t) = apfst ((@) (fst (drain_blocks r))) (drain_blocks (snd (drain_blocks r) @ t))"
      using 1 by auto
    with Some p show ?thesis
      by (simp add: drain_blocks_split [of s] drain_blocks_split [of "s @ t"] split_block_append apfst_def
          map_prod_def split: prod.splits)
  qed
qed

definition delimiter :: "bool \<Rightarrow> string" where
  "delimiter crlf = (if crlf then CRLF_CRLF else LF_LF)"

definition well_framed :: "bool \<times> string \<Rightarrow> bool" where
  "well_framed f \<longleftrightarrow> fst (take_sse_block (snd f @ butlast (delimiter (fst f)))) = None"

lemma split_block_framed:
  assumes "well_framed (crlf, b)"
  shows "split_block (b @ delimiter crlf @ r) = Some (b, r)"
proof -
  have "split_block (b @ butlast (delimiter crlf)) = None"
    using assms by (auto simp: well_framed_def take_sse_block_split split: option.splits)
  then show ?thesis
    using split_block_LF [of b r] split_block_CRLF [of b r]
    by (cases crlf) (simp_all add: delimiter_def LF_LF_def CRLF_CRLF_def)
qed

lemma drain_framed:
  assumes "list_all well_framed frames" and "fst (take_sse_block rest) = None"
  shows "drain_blocks (concat (map (\<lambda>(crlf, block). block @ delimiter crlf) frames) @ rest) = (map snd frames, rest)"
  using assms(1)
proof (induction frames)
  case Nil
  show ?case
    using assms(2) by (auto simp: drain_blocks_split [of rest] take_sse_block_split split: option.splits)
next
  case (Cons f frames)
  obtain crlf b where f: "f = (crlf, b)" by (cases f)
  with Cons split_block_framed [of crlf b] show ?case
    by (simp add: drain_blocks_split [of "b @ delimiter crlf @ s" for s])
qed

text \<open>
  Framing is a round trip: blocks terminated by an empty line of either kind come back out of the
  buffer one by one, and what follows the last delimiter stays there. A block must not contain a
  delimiter, also not one that its own terminator completes.
\<close>

theorem sse_framing_roundtrip:
  assumes "list_all well_framed frames" and "fst (take_sse_block rest) = None"
  shows "drain_blocks (concat (map (\<lambda>(crlf, block). block @ delimiter crlf) frames) @ rest) = (map snd frames, rest)"
  by (rule drain_framed [OF assms])

theorem sse_framing_roundtrip_witness:
  "drain_blocks (''data: 1'' @ LF_LF @ ''data: 2'' @ CRLF_CRLF @ ''data: '') = ([''data: 1'', ''data: 2''], ''data: '')"
  using sse_framing_roundtrip [of "[(False, ''data: 1''), (True, ''data: 2'')]" "''data: ''"]
  by (simp add: delimiter_def well_framed_def take_sse_block_split split_block.simps starts_with_def
      LF_LF_def CRLF_CRLF_def)

lemma drain_limited_step:
  "drain_limited s = (case split_block s of
     None \<Rightarrow> ([], if MAX_PARSER_PENDING_BUFFER_BYTES < length s
                   then Inl (PendingBuffer (length s) MAX_PARSER_PENDING_BUFFER_BYTES) else Inr s)
   | Some (b, r) \<Rightarrow> if MAX_SSE_EVENT_BYTES < length b
                      then ([], Inl (SseEvent (length b) MAX_SSE_EVENT_BYTES))
                      else apfst ((#) b) (drain_limited r))"
  by (simp add: drain_limited.simps [of s] take_limited_sse_block_def take_sse_block_split split: option.splits)

text \<open>
  C40: The bounded parser is the unbounded one with its two limits: the blocks of \<open>take_sse_block\<close> are
  delivered up to the first that is longer than an event may be, which is reported with its length and
  that limit; when all fit, a rest longer than the buffer may be is reported with its length and that
  limit; and when the rest fits too, the result is that of the unbounded parser.
\<close>

theorem bounded_parser_refines:
  "drain_limited buffer =
     (let (blocks, rest) = drain_blocks buffer;
          fitting = takeWhile (\<lambda>b. length b \<le> MAX_SSE_EVENT_BYTES) blocks
      in case drop (length fitting) blocks of
           b # _ \<Rightarrow> (fitting, Inl (SseEvent (length b) MAX_SSE_EVENT_BYTES))
         | [] \<Rightarrow> (blocks, if MAX_PARSER_PENDING_BUFFER_BYTES < length rest
                          then Inl (PendingBuffer (length rest) MAX_PARSER_PENDING_BUFFER_BYTES) else Inr rest))"
proof (induction buffer rule: drain_blocks.induct)
  case (1 s)
  show ?case
  proof (cases "split_block s")
    case None
    then show ?thesis by (simp add: drain_limited_step [of s] drain_blocks_split [of s])
  next
    case (Some p)
    obtain b r where p: "p = (b, r)" by (cases p)
    have "take_sse_block s = (Some b, r)" using Some p by (simp add: take_sse_block_split)
    note IH = 1 [OF this [symmetric] refl]
    obtain bs rest where d: "drain_blocks r = (bs, rest)" by fastforce
    have run: "drain_blocks s = (b # bs, rest)"
      "drain_limited s = (if MAX_SSE_EVENT_BYTES < length b then ([], Inl (SseEvent (length b) MAX_SSE_EVENT_BYTES))
         else apfst ((#) b) (drain_limited r))"
      using Some p d by (simp_all add: drain_limited_step [of s] drain_blocks_split [of s])
    show ?thesis unfolding run IH d by (auto simp: Let_def split: list.split)
  qed
qed

end
