(* ===== verification/Json_Value.thy ===== *)
theory Json_Value
  imports Prelude
begin

text \<open>
  The operations on \<open>serde_json::Value\<close> that the streaming and adapter code uses beyond plain lookup:
  equality, pointers, numbers, in-place updates and removals of fields. The crate is built with
  \<open>preserve_order\<close>, so an object is an \<open>IndexMap\<close>: insertion keeps the position of an existing key,
  \<open>remove\<close> moves the last entry into the gap, and equality of objects ignores the order.
\<close>

section \<open>Reading\<close>

fun json_as_object :: "json \<Rightarrow> (string \<times> json) list option" where
  "json_as_object (JObject kvs) = Some kvs"
| "json_as_object _ = None"

fun json_is_object :: "json \<Rightarrow> bool" where
  "json_is_object (JObject kvs) = True"
| "json_is_object _ = False"

fun json_is_string :: "json \<Rightarrow> bool" where
  "json_is_string (JString s) = True"
| "json_is_string _ = False"

fun json_as_u64 :: "json \<Rightarrow> nat option" where
  "json_as_u64 (JInt i) = (if 0 \<le> i \<and> i < 2 ^ 64 then Some (nat i) else None)"
| "json_as_u64 _ = None"

text \<open>\<open>str::parse::<u32>\<close>: decimal digits after an optional plus sign, within 32 bits.\<close>

definition parse_digits :: "string \<Rightarrow> nat option" where
  "parse_digits s =
     (if s \<noteq> [] \<and> list_all is_ascii_digit s then Some (fold (\<lambda>c n. 10 * n + (byte_val c - 48)) s 0) else None)"

definition parse_u32 :: "string \<Rightarrow> nat option" where
  "parse_u32 s =
     (case parse_digits (case s of c # cs \<Rightarrow> if c = CHR ''+'' then cs else s | [] \<Rightarrow> []) of
        Some n \<Rightarrow> if n < 2 ^ 32 then Some n else None
      | None \<Rightarrow> None)"

text \<open>\<open>value.get(key).and_then(Value::as_str)\<close> and its siblings.\<close>

definition get_str :: "json \<Rightarrow> string \<Rightarrow> string option" where
  "get_str v k = Option.bind (json_get v k) json_as_str"

definition get_array :: "json \<Rightarrow> string \<Rightarrow> json list option" where
  "get_array v k = Option.bind (json_get v k) json_as_array"

definition get_u64 :: "json \<Rightarrow> string \<Rightarrow> nat option" where
  "get_u64 v k = Option.bind (json_get v k) json_as_u64"

text \<open>
  \<open>Value::pointer\<close> along field names. The pointers of the modelled code name object fields only, and
  a field name is no array index, so an array on the way ends the search.
\<close>

fun json_pointer :: "json \<Rightarrow> string list \<Rightarrow> json option" where
  "json_pointer v [] = Some v"
| "json_pointer v (k # ks) = Option.bind (json_get v k) (\<lambda>w. json_pointer w ks)"

definition or_else :: "'a option \<Rightarrow> 'a option \<Rightarrow> 'a option" where
  "or_else a b = (case a of Some x \<Rightarrow> Some x | None \<Rightarrow> b)"

text \<open>Equality of values: numbers by value, objects as maps.\<close>

definition float_eq :: "string \<Rightarrow> string \<Rightarrow> bool" where
  "float_eq a b \<longleftrightarrow> a = b \<or> {a, b} \<subseteq> {''0.0'', ''-0.0''}"

lemma size_array_child: "x \<in> set xs \<Longrightarrow> size x < Suc (size_list size xs)"
  by (induction xs) auto

lemma size_object_child: "(k, x) \<in> set kvs \<Longrightarrow> size x < Suc (size_list (size_prod (\<lambda>_. 0) size) kvs)"
  by (induction kvs) auto

function json_eq :: "json \<Rightarrow> json \<Rightarrow> bool" where
  "json_eq v w =
     (case (v, w) of
        (JNull, JNull) \<Rightarrow> True
      | (JBool a, JBool b) \<Rightarrow> a = b
      | (JInt a, JInt b) \<Rightarrow> a = b
      | (JFloat a, JFloat b) \<Rightarrow> float_eq a b
      | (JString a, JString b) \<Rightarrow> a = b
      | (JArray xs, JArray ys) \<Rightarrow>
          length xs = length ys \<and> list_all (\<lambda>(x, y). json_eq x y) (zip xs ys)
      | (JObject kvs, JObject lws) \<Rightarrow>
          length kvs = length lws \<and>
          list_all (\<lambda>(k, x). case map_of lws k of Some y \<Rightarrow> json_eq x y | None \<Rightarrow> False) kvs
      | _ \<Rightarrow> False)"
  by pat_completeness auto
termination
  by (relation "measure (\<lambda>(v, w). size v)") (auto intro: size_array_child [OF set_zip_leftD] size_object_child)

declare json_eq.simps [simp del]

section \<open>Updating\<close>

fun obj_update :: "string \<Rightarrow> (json \<Rightarrow> json) \<Rightarrow> (string \<times> json) list \<Rightarrow> (string \<times> json) list" where
  "obj_update k f [] = []"
| "obj_update k f ((k', v) # kvs) = (if k' = k then (k', f v) # kvs else (k', v) # obj_update k f kvs)"

text \<open>\<open>Map::remove\<close> with \<open>preserve_order\<close>: a \<open>swap_remove\<close>.\<close>

fun obj_remove :: "string \<Rightarrow> (string \<times> json) list \<Rightarrow> (string \<times> json) list" where
  "obj_remove k [] = []"
| "obj_remove k ((k', v) # kvs) =
     (if k' = k then (if kvs = [] then [] else last kvs # butlast kvs) else (k', v) # obj_remove k kvs)"

definition on_object :: "((string \<times> json) list \<Rightarrow> (string \<times> json) list) \<Rightarrow> json \<Rightarrow> json" where
  "on_object f v = (case v of JObject kvs \<Rightarrow> JObject (f kvs) | _ \<Rightarrow> v)"

text \<open>\<open>if let Some(x) = value.get_mut(key)\<close> followed by a change of \<open>x\<close>.\<close>

definition json_update :: "string \<Rightarrow> (json \<Rightarrow> json) \<Rightarrow> json \<Rightarrow> json" where
  "json_update k f = on_object (obj_update k f)"

text \<open>A change behind \<open>pointer_mut\<close>.\<close>

fun json_update_at :: "string list \<Rightarrow> (json \<Rightarrow> json) \<Rightarrow> json \<Rightarrow> json" where
  "json_update_at [] f v = f v"
| "json_update_at (k # ks) f v = json_update k (json_update_at ks f) v"

fun map_array :: "(json \<Rightarrow> json) \<Rightarrow> json \<Rightarrow> json" where
  "map_array f (JArray xs) = JArray (map f xs)"
| "map_array f v = v"

section \<open>Lemmas\<close>

text \<open>Objects as \<open>serde_json\<close> builds them have distinct keys.\<close>

fun json_wf :: "json \<Rightarrow> bool" where
  "json_wf (JArray xs) = list_all json_wf xs"
| "json_wf (JObject kvs) = (distinct (map fst kvs) \<and> list_all (\<lambda>(k, v). json_wf v) kvs)"
| "json_wf v = True"

lemma obj_update_alt: "k \<notin> fst ` set kvs \<Longrightarrow> obj_update k f kvs = kvs"
  by (induction kvs) auto

lemma fst_obj_update [simp]: "map fst (obj_update k f kvs) = map fst kvs"
  by (induction kvs) auto

lemma map_of_obj_update: "map_of (obj_update k f kvs) j = (if j = k then map_option f (map_of kvs k) else map_of kvs j)"
  by (induction kvs) auto

lemma set_obj_update: "(j, v) \<in> set (obj_update k f kvs) \<Longrightarrow>
    (j, v) \<in> set kvs \<or> (j = k \<and> (\<exists>w. (k, w) \<in> set kvs \<and> v = f w))"
  by (induction kvs) (auto split: if_splits)

lemma set_last_butlast: "xs \<noteq> [] \<Longrightarrow> insert (last xs) (set (butlast xs)) = set xs"
  by (cases xs rule: rev_cases) auto

lemma set_obj_remove:
  "distinct (map fst kvs) \<Longrightarrow> set (obj_remove k kvs) = {p \<in> set kvs. fst p \<noteq> k}"
proof (induction kvs)
  case (Cons p kvs)
  show ?case
  proof (cases "fst p = k")
    case True
    have "{q \<in> set (p # kvs). fst q \<noteq> k} = set kvs"
      using True Cons.prems by (force simp: image_iff)
    moreover have "set (obj_remove k (p # kvs)) = set kvs"
      using True by (cases p) (auto simp: set_last_butlast)
    ultimately show ?thesis by simp
  next
    case False
    with Cons show ?thesis by (cases p) auto
  qed
qed simp

lemma distinct_obj_remove: "distinct (map fst kvs) \<Longrightarrow> distinct (map fst (obj_remove k kvs))"
proof (induction kvs)
  case (Cons p kvs)
  show ?case
  proof (cases "fst p = k")
    case True
    show ?thesis
    proof (cases kvs rule: rev_cases)
      case (snoc ys y)
      with True Cons.prems show ?thesis by (cases p) auto
    qed (use True in \<open>cases p, simp\<close>)
  next
    case False
    with Cons have "fst ` set (obj_remove k kvs) \<subseteq> fst ` set kvs"
      by (auto simp: set_obj_remove)
    with False Cons show ?thesis by (cases p) auto
  qed
qed simp

lemma distinct_obj_insert: "distinct (map fst kvs) \<Longrightarrow> distinct (map fst (obj_insert k v kvs))"
proof (induction kvs)
  case (Cons p kvs)
  have "fst ` set (obj_insert k v kvs) \<subseteq> insert k (fst ` set kvs)"
    using set_obj_insert [of k v kvs] by auto
  with Cons show ?case by (cases p) auto
qed simp

lemma map_of_obj_remove:
  "distinct (map fst kvs) \<Longrightarrow> map_of (obj_remove k kvs) = (map_of kvs)(k := None)"
proof (rule ext)
  fix j
  assume d: "distinct (map fst kvs)"
  have d': "distinct (map fst (obj_remove k kvs))" by (rule distinct_obj_remove [OF d])
  have "map_of (obj_remove k kvs) j = Some v \<longleftrightarrow> ((map_of kvs)(k := None)) j = Some v" for v
  proof (cases "j = k")
    case True
    have "(k, v) \<notin> set (obj_remove k kvs)" by (simp add: set_obj_remove [OF d])
    with True show ?thesis by (auto dest: map_of_SomeD)
  next
    case False
    have "map_of (obj_remove k kvs) j = Some v \<longleftrightarrow> (j, v) \<in> set (obj_remove k kvs)"
      by (rule map_of_eq_Some_iff [OF d'])
    also have "\<dots> \<longleftrightarrow> map_of kvs j = Some v"
      using False by (simp only: set_obj_remove [OF d] map_of_eq_Some_iff [OF d]) simp
    finally show ?thesis using False by simp
  qed
  then show "map_of (obj_remove k kvs) j = ((map_of kvs)(k := None)) j"
    by (metis not_None_eq)
qed

lemma map_of_map_snd: "map_of (map (\<lambda>(k, c). (k, f c)) kvs) j = map_option f (map_of kvs j)"
  by (induction kvs) auto

section \<open>Rewriting values\<close>

text \<open>
  A weight under which the children of an object weigh less than the object, with a reserve for the
  fields whose text a rewriting may move into a new summary child.
\<close>

fun json_weight :: "json \<Rightarrow> nat" where
  "json_weight (JArray xs) = Suc (sum_list (map json_weight xs))"
| "json_weight (JObject kvs) =
     Suc (sum_list (map (\<lambda>(k, v). (if k \<in> {''content'', ''reasoning_content''} then 10 else 0) + json_weight v) kvs))"
| "json_weight v = 1"

lemma weight_array_child: "x \<in> set xs \<Longrightarrow> json_weight x < json_weight (JArray xs)"
  by (induction xs) auto

lemma weight_object_child: "(k, x) \<in> set kvs \<Longrightarrow>
    json_weight x + (if k \<in> {''content'', ''reasoning_content''} then 10 else 0) < json_weight (JObject kvs)"
  by (induction kvs) auto

lemma obj_remove_subset: "set (obj_remove k kvs) \<subseteq> set kvs"
proof (induction kvs)
  case (Cons p kvs)
  have "set (butlast kvs) \<subseteq> set kvs" by (auto dest: in_set_butlastD)
  with Cons show ?case by (cases p) auto
qed simp

text \<open>A condition on every value inside a value.\<close>

fun json_all :: "(json \<Rightarrow> bool) \<Rightarrow> json \<Rightarrow> bool" where
  "json_all P (JArray xs) = (P (JArray xs) \<and> list_all (json_all P) xs)"
| "json_all P (JObject kvs) = (P (JObject kvs) \<and> list_all (\<lambda>(k, v). json_all P v) kvs)"
| "json_all P v = P v"

definition is_scalar_json :: "json \<Rightarrow> bool" where
  "is_scalar_json v = (case v of JArray xs \<Rightarrow> False | JObject kvs \<Rightarrow> False | _ \<Rightarrow> True)"

text \<open>
  \<open>json_rewriting\<close> is the contract of the recursive scrubbers: objects are reshaped and arrays filtered
  on the way down, and arrays may be filtered again on the way up. A condition that holds at the root
  of every rewritten container then holds at every depth.
\<close>

locale json_rewriting =
  fixes rewrite :: "json \<Rightarrow> json"
    and reshape :: "(string \<times> json) list \<Rightarrow> (string \<times> json) list"
    and before :: "json list \<Rightarrow> json list"
    and after :: "json list \<Rightarrow> json list"
    and local :: "json \<Rightarrow> bool"
  assumes rewrite_object: "rewrite (JObject kvs) = JObject (map (\<lambda>(k, c). (k, rewrite c)) (reshape kvs))"
    and rewrite_array: "rewrite (JArray xs) = JArray (after (map rewrite (before xs)))"
    and rewrite_scalar: "is_scalar_json v \<Longrightarrow> rewrite v = v"
    and before_subset: "set (before xs) \<subseteq> set xs"
    and after_subset: "set (after xs) \<subseteq> set xs"
    and reshape_child: "json_wf (JObject kvs) \<Longrightarrow> (k, c) \<in> set (reshape kvs) \<Longrightarrow>
          json_wf c \<and> json_weight c < json_weight (JObject kvs)"
    and local_object: "json_wf (JObject kvs) \<Longrightarrow> local (rewrite (JObject kvs))"
    and local_array: "json_wf (JArray xs) \<Longrightarrow> local (rewrite (JArray xs))"
    and local_scalar: "is_scalar_json v \<Longrightarrow> local v"
begin

lemma rewrite_everywhere: "json_wf v \<Longrightarrow> json_all local (rewrite v)"
proof (induction "json_weight v" arbitrary: v rule: less_induct)
  case less
  consider (array) xs where "v = JArray xs" | (object) kvs where "v = JObject kvs" | (scalar) "is_scalar_json v"
    by (cases v) (auto simp: is_scalar_json_def)
  then show ?case
  proof cases
    case array
    have "json_all local (rewrite x)" if "x \<in> set (before xs)" for x
    proof -
      have "x \<in> set xs" using before_subset that by auto
      with less array show ?thesis
        using weight_array_child [of x xs] by (auto simp: list_all_iff)
    qed
    moreover have "local (JArray (after (map rewrite (before xs))))"
      using local_array [of xs] less.prems array by (simp add: rewrite_array)
    ultimately show ?thesis
      using after_subset [of "map rewrite (before xs)"] unfolding array rewrite_array
      by (auto simp: list_all_iff)
  next
    case object
    have "json_all local (rewrite c)" if "(k, c) \<in> set (reshape kvs)" for k c
      using less reshape_child [OF _ that] object by auto
    moreover have "local (JObject (map (\<lambda>(k, c). (k, rewrite c)) (reshape kvs)))"
      using local_object [of kvs] less.prems object by (simp add: rewrite_object)
    ultimately show ?thesis
      unfolding object rewrite_object by (auto simp: list_all_iff)
  next
    case scalar
    then show ?thesis
      using rewrite_scalar local_scalar by (cases v) (auto simp: is_scalar_json_def)
  qed
qed

end

text \<open>A rewriter that changes nothing where its result would be clean anyway.\<close>

locale minimal_rewriting = json_rewriting +
  assumes keep_object: "json_wf (JObject kvs) \<Longrightarrow> local (JObject kvs) \<Longrightarrow> reshape kvs = kvs"
    and keep_array: "local (JArray xs) \<Longrightarrow> before xs = xs \<and> after xs = xs"
begin

lemma rewrite_clean: "json_wf v \<Longrightarrow> json_all local v \<Longrightarrow> rewrite v = v"
proof (induction "json_weight v" arbitrary: v rule: less_induct)
  case less
  consider (array) xs where "v = JArray xs" | (object) kvs where "v = JObject kvs" | (scalar) "is_scalar_json v"
    by (cases v) (auto simp: is_scalar_json_def)
  then show ?case
  proof cases
    case array
    have "rewrite x = x" if "x \<in> set xs" for x
      using that less array weight_array_child [OF that] by (auto simp: list_all_iff)
    then have "map rewrite xs = xs" by (simp add: map_idI)
    then show ?thesis using keep_array [of xs] less.prems(2) by (simp add: array rewrite_array)
  next
    case object
    have "rewrite c = c" if "(k, c) \<in> set kvs" for k c
    proof -
      have "json_wf (JObject kvs)" using less.prems(1) object by simp
      moreover have "reshape kvs = kvs" using keep_object less.prems object by simp
      ultimately have "json_wf c" "json_weight c < json_weight v" using reshape_child [of kvs k c] that object by auto
      moreover have "json_all local c" using less.prems(2) that object by (auto simp: list_all_iff)
      ultimately show ?thesis using less.hyps by blast
    qed
    then have "map (\<lambda>(k, c). (k, rewrite c)) kvs = kvs" by (intro map_idI) auto
    then show ?thesis using keep_object [of kvs] less.prems by (simp add: object rewrite_object)
  next
    case scalar
    then show ?thesis by (rule rewrite_scalar)
  qed
qed

end

end
