(* ===== verification/Streaming.thy ===== *)
theory Streaming
  imports Sse Json_Value
begin

text \<open>
  The shared streaming machinery of \<open>crates/vellum-proxy-runtime/src/streaming.rs\<close>: validation of
  protocol events, readable reasoning, control tokens and replayed lines, message phases, and the
  incremental completion tracker \<open>SseCompletionTracker\<close>.

  \<open>serde_json\<close> is not part of the repository: parsing (\<open>serde_json::from_str\<close>) and printing
  (\<open>Value::to_string\<close>) are the parameters \<open>from_str\<close> and \<open>to_str\<close> of the definitions that use them.
\<close>

section \<open>Protocol errors\<close>

definition MAX_PROTOCOL_DIAGNOSTIC_CHARS :: nat where
  "MAX_PROTOCOL_DIAGNOSTIC_CHARS = 160"

record sse_protocol_error =
  pe_event :: string
  pe_detail :: string

definition ELLIPSIS :: string where
  "ELLIPSIS = map char_of [226, 128, 166 :: nat]"

definition bounded_diagnostic :: "string \<Rightarrow> string" where
  "bounded_diagnostic t =
     (let single_line = map (\<lambda>c. if c = CHR 0x0A \<or> c = CHR 0x0D then CHR '' '' else c) t in
      if length (chars single_line) \<le> MAX_PROTOCOL_DIAGNOSTIC_CHARS then single_line
      else concat (take (MAX_PROTOCOL_DIAGNOSTIC_CHARS - 1) (chars single_line)) @ ELLIPSIS)"

definition new_protocol_error :: "string \<Rightarrow> string \<Rightarrow> sse_protocol_error" where
  "new_protocol_error event detail =
     \<lparr>pe_event = bounded_diagnostic event, pe_detail = bounded_diagnostic detail\<rparr>"

definition display_protocol_error :: "sse_protocol_error \<Rightarrow> string" where
  "display_protocol_error e =
     ''upstream sent a malformed `'' @ pe_event e @ ''` event: '' @ pe_detail e"

fun json_kind :: "json \<Rightarrow> string" where
  "json_kind JNull = ''null''"
| "json_kind (JBool _) = ''a boolean''"
| "json_kind (JInt _) = ''a number''"
| "json_kind (JFloat _) = ''a number''"
| "json_kind (JString _) = ''a string''"
| "json_kind (JArray _) = ''an array''"
| "json_kind (JObject _) = ''an object''"

definition is_known_protocol_event :: "string \<Rightarrow> bool" where
  "is_known_protocol_event event \<longleftrightarrow> starts_with event ''response.'' \<or> event = ''error''"

text \<open>One of the three field loops: the first field with a value that is not accepted is reported.\<close>

definition check_fields ::
  "string \<Rightarrow> (string \<times> json) list \<Rightarrow> (json \<Rightarrow> bool) \<Rightarrow> string \<Rightarrow> string list \<Rightarrow> sse_protocol_error option"
where
  "check_fields event object accepts expected =
     find_map (\<lambda>field.
       case map_of object field of
         Some nested \<Rightarrow>
           if \<not> accepts nested \<and> \<not> json_is_null nested
           then Some (new_protocol_error event
                  (''`'' @ field @ ''` is '' @ json_kind nested @ '' where the protocol defines '' @ expected))
           else None
       | None \<Rightarrow> None)"

definition CONTAINER_FIELDS :: "string list" where
  "CONTAINER_FIELDS = [''item'', ''part'', ''response'']"

definition TEXT_FIELDS :: "string list" where
  "TEXT_FIELDS = [''delta'', ''text'', ''arguments'', ''input'']"

definition INDEX_FIELDS :: "string list" where
  "INDEX_FIELDS = [''sequence_number'', ''output_index'', ''content_index'', ''summary_index'']"

definition validate_known_sse_event :: "string \<Rightarrow> json \<Rightarrow> sse_protocol_error + unit" where
  "validate_known_sse_event event v =
     (if \<not> is_known_protocol_event event then Inr ()
      else case json_as_object v of
        None \<Rightarrow> Inl (new_protocol_error event
                 (''payload is '' @ json_kind v @ '' where the protocol defines an object''))
      | Some object \<Rightarrow>
          (case check_fields event object json_is_object ''an object'' CONTAINER_FIELDS of
             Some e \<Rightarrow> Inl e
           | None \<Rightarrow>
          (case check_fields event object json_is_string ''a string'' TEXT_FIELDS of
             Some e \<Rightarrow> Inl e
           | None \<Rightarrow>
          (case check_fields event object (\<lambda>n. json_as_u64 n \<noteq> None) ''a non-negative integer'' INDEX_FIELDS of
             Some e \<Rightarrow> Inl e
           | None \<Rightarrow> Inr ()))))"

section \<open>Events on the wire\<close>

definition parse_sse_value :: "(string \<Rightarrow> json option) \<Rightarrow> string \<Rightarrow> (string \<times> json) option" where
  "parse_sse_value from_str block =
     (let event = find_map (\<lambda>line. strip_sse_field line ''event'') (lines block) in
      case find_map (\<lambda>line. strip_sse_field line ''data'') (lines block) of
        None \<Rightarrow> None
      | Some data \<Rightarrow>
          (case from_str data of
             None \<Rightarrow> None
           | Some v \<Rightarrow>
               Some (case or_else event (get_str v ''type'') of Some e \<Rightarrow> e | None \<Rightarrow> ''message'', v)))"

definition format_sse_value :: "(json \<Rightarrow> string) \<Rightarrow> string \<Rightarrow> json \<Rightarrow> string" where
  "format_sse_value to_str event v = ''event: '' @ event @ [CHR 0x0A] @ ''data: '' @ to_str v @ LF_LF"

definition failed_sse_event_inner :: "(json \<Rightarrow> string) \<Rightarrow> string option \<Rightarrow> string \<Rightarrow> string" where
  "failed_sse_event_inner to_str category message =
     (let base = [(''type'', JString ''vellum_upstream_stream_error''), (''message'', JString message)];
          err = (case category of Some c \<Rightarrow> obj_insert ''category'' (JString c) base | None \<Rightarrow> base);
          v = JObject [(''type'', JString ''response.failed''), (''sequence_number'', JInt 0),
                (''response'', JObject [(''object'', JString ''response''), (''status'', JString ''failed''),
                   (''error'', JObject err)])]
      in ''event: response.failed'' @ [CHR 0x0A] @ ''data: '' @ to_str v @ LF_LF)"

definition failed_sse_event :: "(json \<Rightarrow> string) \<Rightarrow> string \<Rightarrow> string" where
  "failed_sse_event to_str message = failed_sse_event_inner to_str None message"

definition failed_sse_event_with_category :: "(json \<Rightarrow> string) \<Rightarrow> string \<Rightarrow> string \<Rightarrow> string" where
  "failed_sse_event_with_category to_str category message = failed_sse_event_inner to_str (Some category) message"

definition is_call_type :: "string option \<Rightarrow> bool" where
  "is_call_type t \<longleftrightarrow> t \<in> {Some ''function_call'', Some ''custom_tool_call'', Some ''tool_search_call''}"

definition response_contains_function_call :: "json \<Rightarrow> bool" where
  "response_contains_function_call response =
     (case get_array response ''output'' of
        None \<Rightarrow> False
      | Some output \<Rightarrow> list_ex (\<lambda>item. is_call_type (get_str item ''type'')) output)"

definition sse_value_contains_function_call :: "json \<Rightarrow> bool" where
  "sse_value_contains_function_call v \<longleftrightarrow>
     is_call_type (Option.bind (json_pointer v [''item'', ''type'']) json_as_str)
     \<or> (case Option.bind (json_pointer v [''response'', ''output'']) json_as_array of
          None \<Rightarrow> False
        | Some output \<Rightarrow> list_ex (\<lambda>item. is_call_type (get_str item ''type'')) output)"

definition has_visible_part :: "json list \<Rightarrow> bool" where
  "has_visible_part =
     list_ex (\<lambda>part. case get_str part ''text'' of Some t \<Rightarrow> trim t \<noteq> [] | None \<Rightarrow> False)"

definition response_contains_visible_text :: "json \<Rightarrow> bool" where
  "response_contains_visible_text response =
     (case get_array response ''output'' of
        None \<Rightarrow> False
      | Some output \<Rightarrow>
          list_ex (\<lambda>item. case get_array item ''content'' of Some parts \<Rightarrow> has_visible_part parts | None \<Rightarrow> False)
            output)"

section \<open>Message phases\<close>

definition needs_phase :: "json \<Rightarrow> bool" where
  "needs_phase item \<longleftrightarrow>
     get_str item ''type'' = Some ''message'' \<and>
     (case json_get item ''phase'' of None \<Rightarrow> True | Some p \<Rightarrow> json_is_null p)"

definition insert_phase :: "string \<Rightarrow> json \<Rightarrow> json" where
  "insert_phase phase item = (if needs_phase item then on_object (obj_insert ''phase'' (JString phase)) item else item)"

definition set_message_phase_at_pointer :: "string list \<Rightarrow> string \<Rightarrow> json \<Rightarrow> json" where
  "set_message_phase_at_pointer pointer phase v = json_update_at pointer (insert_phase phase) v"

definition assign_response_message_phases_with :: "string \<Rightarrow> json \<Rightarrow> json" where
  "assign_response_message_phases_with phase response =
     json_update ''output'' (map_array (insert_phase phase)) response"

definition assign_response_message_phases :: "json \<Rightarrow> json" where
  "assign_response_message_phases response =
     assign_response_message_phases_with
       (if response_contains_function_call response then ''commentary'' else ''final_answer'') response"

section \<open>Readable reasoning\<close>

definition nonempty_trimmed :: "string \<Rightarrow> string option" where
  "nonempty_trimmed t = (if trim t = [] then None else Some (trim t))"

definition readable_reasoning :: "(string \<times> json) list \<Rightarrow> string option" where
  "readable_reasoning object =
     Option.bind (Option.bind (or_else (map_of object ''reasoning_content'') (map_of object ''content'')) json_as_str)
       nonempty_trimmed"

definition has_summary :: "(string \<times> json) list \<Rightarrow> bool" where
  "has_summary object =
     (case Option.bind (map_of object ''summary'') json_as_array of
        None \<Rightarrow> False
      | Some parts \<Rightarrow> has_visible_part parts)"

definition summary_of :: "string \<Rightarrow> json" where
  "summary_of t = JArray [JObject [(''type'', JString ''summary_text''), (''text'', JString t)]]"

definition is_reasoning :: "(string \<times> json) list \<Rightarrow> bool" where
  "is_reasoning object \<longleftrightarrow> Option.bind (map_of object ''type'') json_as_str = Some ''reasoning''"

definition with_summary :: "(string \<times> json) list \<Rightarrow> (string \<times> json) list" where
  "with_summary object =
     (case readable_reasoning object of
        Some readable \<Rightarrow>
          if has_summary object then object else obj_insert ''summary'' (summary_of readable) object
      | None \<Rightarrow> object)"

definition reshape_reasoning :: "(string \<times> json) list \<Rightarrow> (string \<times> json) list" where
  "reshape_reasoning object =
     obj_remove ''reasoning_content''
       (if is_reasoning object
        then obj_remove ''content'' (obj_remove ''encrypted_content'' (with_summary object))
        else object)"

text \<open>
  The recursion descends into the reshaped object. It ends because the only child the reshaping adds,
  a summary, is smaller than the field it is made from counts.
\<close>

lemma set_with_summary:
  "(k, v) \<in> set (with_summary object) \<Longrightarrow>
     (k, v) \<in> set object \<or> (k = ''summary'' \<and> (\<exists>t. v = summary_of t) \<and> readable_reasoning object \<noteq> None)"
  using set_obj_insert [of "''summary''" _ object]
  by (auto simp: with_summary_def split: option.splits if_splits)

lemma reshape_reasoning_children:
  assumes "(k, v) \<in> set (reshape_reasoning object)"
  shows "(k, v) \<in> set object \<or> (k = ''summary'' \<and> (\<exists>t. v = summary_of t) \<and> readable_reasoning object \<noteq> None)"
proof (cases "is_reasoning object")
  case True
  with assms have "(k, v) \<in> set (with_summary object)"
    by (auto simp: reshape_reasoning_def dest!: subsetD [OF obj_remove_subset])
  then show ?thesis by (rule set_with_summary)
next
  case False
  with assms show ?thesis
    by (auto simp: reshape_reasoning_def dest!: subsetD [OF obj_remove_subset])
qed

lemma readable_reasoning_weight:
  assumes "readable_reasoning object \<noteq> None"
  shows "10 < json_weight (JObject object)"
proof -
  from assms obtain v where "map_of object ''reasoning_content'' = Some v \<or> map_of object ''content'' = Some v"
    by (auto simp: readable_reasoning_def or_else_def bind_eq_Some_conv split: option.splits)
  then show ?thesis
    by (auto dest!: map_of_SomeD weight_object_child)
qed

lemma reshape_child_weight:
  assumes "(k, c) \<in> set (reshape_reasoning object)"
  shows "json_weight c < json_weight (JObject object)"
  using reshape_reasoning_children [OF assms] readable_reasoning_weight [of object] weight_object_child [of k c object]
  by (auto simp: summary_of_def)

function normalize_third_party_readable_reasoning :: "json \<Rightarrow> json" where
  "normalize_third_party_readable_reasoning v =
     (case v of
        JObject object \<Rightarrow>
          JObject (map (\<lambda>(k, c). (k, normalize_third_party_readable_reasoning c)) (reshape_reasoning object))
      | JArray xs \<Rightarrow> JArray (map normalize_third_party_readable_reasoning xs)
      | _ \<Rightarrow> v)"
  by pat_completeness auto
termination
  by (relation "measure json_weight")
    (auto intro: weight_array_child reshape_child_weight simp del: json_weight.simps)

declare normalize_third_party_readable_reasoning.simps [simp del]

section \<open>Control tokens and replayed lines\<close>

text \<open>\<open>str::replace\<close> of a nonempty pattern: the occurrences found from left to right, without overlap.\<close>

function replace_str :: "string \<Rightarrow> string \<Rightarrow> string \<Rightarrow> string" where
  "replace_str s p r =
     (if s = [] \<or> p = [] then s
      else if starts_with s p then r @ replace_str (drop (length p) s) p r
      else hd s # replace_str (tl s) p r)"
  by pat_completeness auto
termination
  by (relation "measure (\<lambda>(s, p, r). length s)") auto

declare replace_str.simps [simp del]

definition CONTROL_TOKENS :: "string list" where
  "CONTROL_TOKENS = [''<|eos|>'', ''<|endoftext|>'', ''<|im_end|>'']"

text \<open>\<open>str::split_inclusive('\\n')\<close>: every segment but a nonempty last one ends in a line feed.\<close>

fun split_inclusive_acc :: "string \<Rightarrow> string \<Rightarrow> string list" where
  "split_inclusive_acc [] l = (if l = [] then [] else [l])"
| "split_inclusive_acc (c # cs) l =
     (if c = CHR 0x0A then (l @ [c]) # split_inclusive_acc cs [] else split_inclusive_acc cs (l @ [c]))"

definition split_inclusive :: "string \<Rightarrow> string list" where
  "split_inclusive s = split_inclusive_acc s []"

definition trim_newlines_end :: "string \<Rightarrow> string" where
  "trim_newlines_end s = drop_end_while (\<lambda>c. c = CHR 0x0D \<or> c = CHR 0x0A) s"

definition normalized_line :: "string \<Rightarrow> string" where
  "normalized_line segment = trim (trim_newlines_end segment)"

definition is_replayed :: "string option \<Rightarrow> string \<Rightarrow> bool" where
  "is_replayed previous normalized \<longleftrightarrow> 8 \<le> length (chars normalized) \<and> previous = Some normalized"

fun collapse_segments :: "string option \<Rightarrow> string list \<Rightarrow> string list" where
  "collapse_segments previous [] = []"
| "collapse_segments previous (segment # rest) =
     (let normalized = normalized_line segment;
          previous' = (if normalized \<noteq> [] then Some normalized else previous);
          output = collapse_segments previous' rest
      in if is_replayed previous normalized then output else segment # output)"

definition collapse_adjacent_provider_replay_lines :: "string \<Rightarrow> string" where
  "collapse_adjacent_provider_replay_lines t = concat (collapse_segments None (split_inclusive t))"

definition strip_control_text :: "string \<Rightarrow> bool \<Rightarrow> string" where
  "strip_control_text t collapse =
     (let cleaned = fold (\<lambda>token cleaned. replace_str cleaned token []) CONTROL_TOKENS t in
      if collapse then collapse_adjacent_provider_replay_lines cleaned else cleaned)"

fun strip_in_string :: "bool \<Rightarrow> json \<Rightarrow> json" where
  "strip_in_string collapse (JString t) = JString (strip_control_text t collapse)"
| "strip_in_string collapse v = v"

definition strip_output_text :: "bool \<Rightarrow> (string \<times> json) list \<Rightarrow> (string \<times> json) list" where
  "strip_output_text collapse object =
     (let kind = Option.bind (map_of object ''type'') json_as_str;
          after_event =
            (if kind = Some ''response.output_text.delta'' \<or> kind = Some ''response.output_text.done''
             then obj_update ''text'' (strip_in_string collapse) (obj_update ''delta'' (strip_in_string collapse) object)
             else object)
      in if kind = Some ''output_text'' then obj_update ''text'' (strip_in_string collapse) after_event
         else after_event)"

lemma size_strip_in_string [simp]: "size (strip_in_string c v) = size v"
  by (cases v) auto

lemma size_obj_update: "(\<And>v. size (f v) = size v) \<Longrightarrow>
    size_list (size_prod (\<lambda>_. 0) size) (obj_update k f kvs) = size_list (size_prod (\<lambda>_. 0) size) kvs"
  by (induction kvs) auto

lemma strip_output_text_size:
  "size_list (size_prod (\<lambda>_. 0) size) (strip_output_text c object) = size_list (size_prod (\<lambda>_. 0) size) object"
  by (simp add: strip_output_text_def Let_def size_obj_update)

function strip_provider_control_tokens_with_options :: "bool \<Rightarrow> json \<Rightarrow> json" where
  "strip_provider_control_tokens_with_options collapse v =
     (case v of
        JObject object \<Rightarrow>
          JObject (map (\<lambda>(k, c). (k, strip_provider_control_tokens_with_options collapse c))
                     (strip_output_text collapse object))
      | JArray xs \<Rightarrow> JArray (map (strip_provider_control_tokens_with_options collapse) xs)
      | _ \<Rightarrow> v)"
  by pat_completeness auto
termination
  by (relation "measure (\<lambda>(c, v). size v)")
    (auto dest: size_object_child size_array_child simp: strip_output_text_size)

declare strip_provider_control_tokens_with_options.simps [simp del]

definition sanitize_unparsed_sse_block :: "string \<Rightarrow> string list" where
  "sanitize_unparsed_sse_block block =
     (let cleaned = strip_control_text block False in
      if cleaned = block then [block @ LF_LF]
      else if list_ex (\<lambda>line. case strip_sse_field line ''data'' of Some d \<Rightarrow> trim d \<noteq> [] | None \<Rightarrow> False) (lines cleaned)
        then [cleaned @ LF_LF]
        else [])"

section \<open>The completion tracker\<close>

record sse_completion_tracker =
  sct_utf8 :: string
  sct_remainder :: string
  completed_items :: "json list"
  sct_completed_response :: "json option"
  terminal_error :: "string option"
  terminal_error_event :: "json option"
  just_completed :: bool

definition default_tracker :: sse_completion_tracker where
  "default_tracker =
     \<lparr>sct_utf8 = [], sct_remainder = [], completed_items = [], sct_completed_response = None,
      terminal_error = None, terminal_error_event = None, just_completed = False\<rparr>"

definition error_message :: "json \<Rightarrow> string option" where
  "error_message v =
     Option.bind (or_else (or_else (json_pointer v [''response'', ''error'', ''message''])
        (json_pointer v [''error'', ''message''])) (json_get v ''message'')) json_as_str"

definition feed_block ::
  "(string \<Rightarrow> json option) \<Rightarrow> string \<Rightarrow> sse_completion_tracker \<Rightarrow> sse_completion_tracker"
where
  "feed_block from_str block t =
     (case find_map (\<lambda>line. strip_sse_field line ''data'') (lines block) of
        None \<Rightarrow> t
      | Some data \<Rightarrow>
     (case from_str data of
        None \<Rightarrow> t
      | Some v \<Rightarrow>
          let kind = get_str v ''type'' in
          if kind = Some ''response.output_item.done'' then
            (case json_get v ''item'' of
               Some item \<Rightarrow> t\<lparr>completed_items := completed_items t @ [item]\<rparr>
             | None \<Rightarrow> t)
          else if kind = Some ''response.completed'' then
            t\<lparr>sct_completed_response := json_get v ''response'', just_completed := True\<rparr>
          else if kind = Some ''response.failed'' \<or> kind = Some ''error'' then
            t\<lparr>terminal_error_event := Some v, terminal_error := error_message v\<rparr>
          else t))"

definition is_duplicate_item :: "json \<Rightarrow> json \<Rightarrow> bool" where
  "is_duplicate_item item existing \<longleftrightarrow>
     (case (get_str item ''id'', get_str existing ''id'') of
        (Some left, Some right) \<Rightarrow> left = right
      | _ \<Rightarrow> False)
     \<or> json_eq existing item"

definition merge_item :: "json \<Rightarrow> json list \<Rightarrow> json list" where
  "merge_item item output = (if list_ex (is_duplicate_item item) output then output else output @ [item])"

definition completed_response :: "sse_completion_tracker \<Rightarrow> json option" where
  "completed_response t =
     (case sct_completed_response t of
        Some (JObject kvs) \<Rightarrow>
          (let kvs' = (if map_of kvs ''output'' = None then obj_insert ''output'' (JArray []) kvs else kvs) in
           case map_of kvs' ''output'' of
             Some (JArray output) \<Rightarrow>
               Some (JObject (obj_update ''output'' (\<lambda>_. JArray (fold merge_item (completed_items t) output)) kvs'))
           | _ \<Rightarrow> None)
      | _ \<Rightarrow> None)"

text \<open>The loop \<open>while let Some(block) = take_sse_block(&mut self.utf8) { self.feed_block(&block); }\<close>.\<close>

lemma feed_block_utf8 [simp]: "sct_utf8 (feed_block from_str block t) = sct_utf8 t"
  by (simp add: feed_block_def Let_def split: option.splits)

function feed_blocks ::
  "(string \<Rightarrow> json option) \<Rightarrow> sse_completion_tracker \<Rightarrow> sse_completion_tracker"
where
  "feed_blocks from_str t =
     (case take_sse_block (sct_utf8 t) of
        (None, rest) \<Rightarrow> t\<lparr>sct_utf8 := rest\<rparr>
      | (Some block, rest) \<Rightarrow> feed_blocks from_str (feed_block from_str block (t\<lparr>sct_utf8 := rest\<rparr>)))"
  by pat_completeness auto
termination
  by (relation "measure (\<lambda>(f, t). length (sct_utf8 t))") (auto dest: take_sse_block_shrinks [OF sym])

declare feed_blocks.simps [simp del]

definition push_chunk ::
  "(string \<Rightarrow> json option) \<Rightarrow> string \<Rightarrow> sse_completion_tracker \<Rightarrow> json option \<times> sse_completion_tracker"
where
  "push_chunk from_str bytes t =
     (let (utf8', remainder') = append_utf8_safe (sct_utf8 t) (sct_remainder t) bytes;
          t' = feed_blocks from_str (t\<lparr>just_completed := False, sct_utf8 := utf8', sct_remainder := remainder'\<rparr>)
      in (if just_completed t' then completed_response t' else None, t'))"

definition feed_text ::
  "(string \<Rightarrow> json option) \<Rightarrow> string \<Rightarrow> sse_completion_tracker \<Rightarrow> sse_completion_tracker"
where
  "feed_text from_str t tr =
     feed_blocks from_str (tr\<lparr>just_completed := False, sct_utf8 := sct_utf8 tr @ t\<rparr>)"

definition terminal_error_from_sse :: "(string \<Rightarrow> json option) \<Rightarrow> string \<Rightarrow> string option" where
  "terminal_error_from_sse from_str t = terminal_error (feed_text from_str t default_tracker)"

definition completed_response_from_sse :: "(string \<Rightarrow> json option) \<Rightarrow> string \<Rightarrow> json option" where
  "completed_response_from_sse from_str t = completed_response (feed_text from_str t default_tracker)"

definition sse_event_is_response_completed :: "(string \<Rightarrow> json option) \<Rightarrow> string \<Rightarrow> bool" where
  "sse_event_is_response_completed from_str event \<longleftrightarrow>
     contains_str event ''event: response.completed''
     \<or> (case Option.bind (find_map (\<lambda>line. strip_sse_field line ''data'') (lines event)) from_str of
          Some v \<Rightarrow> get_str v ''type'' = Some ''response.completed''
        | None \<Rightarrow> False)"

section \<open>The tracker sees the stream, not its chunks\<close>

lemma feed_block_commute_utf8:
  "feed_block from_str b (t\<lparr>sct_utf8 := u\<rparr>) = (feed_block from_str b t)\<lparr>sct_utf8 := u\<rparr>"
  by (simp add: feed_block_def Let_def split: option.splits)

lemma feed_block_commute_remainder:
  "feed_block from_str b (t\<lparr>sct_remainder := u\<rparr>) = (feed_block from_str b t)\<lparr>sct_remainder := u\<rparr>"
  by (simp add: feed_block_def Let_def split: option.splits)

lemma feed_block_forget:
  "(feed_block from_str b (t\<lparr>just_completed := x\<rparr>))\<lparr>just_completed := False\<rparr> =
     (feed_block from_str b t)\<lparr>just_completed := False\<rparr>"
  by (simp add: feed_block_def Let_def split: option.splits)

lemma fold_feed_commute:
  "fold (feed_block from_str) bs (t\<lparr>sct_utf8 := u\<rparr>) = (fold (feed_block from_str) bs t)\<lparr>sct_utf8 := u\<rparr>"
  "fold (feed_block from_str) bs (t\<lparr>sct_remainder := u\<rparr>) = (fold (feed_block from_str) bs t)\<lparr>sct_remainder := u\<rparr>"
  by (induction bs arbitrary: t) (simp_all add: feed_block_commute_utf8 feed_block_commute_remainder)

lemma fold_feed_forget:
  "t\<lparr>just_completed := False\<rparr> = t'\<lparr>just_completed := False\<rparr> \<Longrightarrow>
     (fold (feed_block from_str) bs t)\<lparr>just_completed := False\<rparr> =
     (fold (feed_block from_str) bs t')\<lparr>just_completed := False\<rparr>"
proof (induction bs arbitrary: t t')
  case (Cons b bs)
  have "(feed_block from_str b t)\<lparr>just_completed := False\<rparr> = (feed_block from_str b t')\<lparr>just_completed := False\<rparr>"
    by (metis Cons.prems feed_block_forget)
  from Cons.IH [OF this] show ?case by simp
qed simp

lemma feed_blocks_drain:
  "feed_blocks from_str t =
     (fold (feed_block from_str) (fst (drain_blocks (sct_utf8 t))) t)\<lparr>sct_utf8 := snd (drain_blocks (sct_utf8 t))\<rparr>"
proof (induction from_str t rule: feed_blocks.induct)
  case (1 from_str t)
  show ?case
  proof (cases "take_sse_block (sct_utf8 t)")
    case (Pair b r)
    show ?thesis
    proof (cases b)
      case None
      with Pair show ?thesis
        by (simp add: feed_blocks.simps [of from_str t] drain_blocks.simps [of "sct_utf8 t"])
    next
      case (Some block)
      with 1 [OF Pair [symmetric] Some] Pair show ?thesis
        by (simp add: feed_blocks.simps [of from_str t] drain_blocks.simps [of "sct_utf8 t"]
            feed_block_commute_utf8 fold_feed_commute)
    qed
  qed
qed

text \<open>The state after the bytes \<open>s\<close>, up to the flag \<open>just_completed\<close>, which every call resets.\<close>

definition tracked ::
  "(string \<Rightarrow> json option) \<Rightarrow> sse_completion_tracker \<Rightarrow> string \<Rightarrow> sse_completion_tracker"
where
  "tracked from_str t s =
     (let blocks = drain_blocks (fst (utf8_stream s)) in
      (fold (feed_block from_str) (fst blocks) t)
        \<lparr>sct_utf8 := snd blocks, sct_remainder := snd (utf8_stream s), just_completed := False\<rparr>)"

lemma push_chunk_tracked:
  assumes "tr\<lparr>just_completed := False\<rparr> = tracked from_str t s"
  shows "(snd (push_chunk from_str c tr))\<lparr>just_completed := False\<rparr> = tracked from_str t (s @ c)"
proof -
  let ?rem = "snd (utf8_stream s)" and ?d = "drain_blocks (fst (utf8_stream s))"
  let ?x = "utf8_stream (?rem @ c)"
  let ?e = "drain_blocks (snd ?d @ fst ?x)"
  have u: "sct_utf8 tr = snd ?d" and r: "sct_remainder tr = ?rem"
    using arg_cong [OF assms, of sct_utf8] arg_cong [OF assms, of sct_remainder]
    by (simp_all add: tracked_def Let_def)
  have "append_utf8_safe (snd ?d) ?rem c = (snd ?d @ fst ?x, snd ?x)"
    by (simp add: append_utf8_safe_stream utf8_stream_remainder apfst_def map_prod_def split: prod.splits)
  then have push: "snd (push_chunk from_str c tr) =
      (fold (feed_block from_str) (fst ?e) (tr\<lparr>just_completed := False\<rparr>))
        \<lparr>sct_utf8 := snd ?e, sct_remainder := snd ?x\<rparr>"
    by (simp add: push_chunk_def u r feed_blocks_drain fold_feed_commute Let_def)
  have split: "utf8_stream (s @ c) = (fst (utf8_stream s) @ fst ?x, snd ?x)"
      "drain_blocks (fst (utf8_stream s) @ fst ?x) = (fst ?d @ fst ?e, snd ?e)"
    using utf8_stream_append [of s c] drain_blocks_append [of "fst (utf8_stream s)" "fst ?x"]
    by (simp_all add: apfst_def map_prod_def split: prod.splits)
  let ?X = "fold (feed_block from_str) (fst ?e) (tr\<lparr>just_completed := False\<rparr>)"
  let ?Y = "fold (feed_block from_str) (fst ?e) ((fold (feed_block from_str) (fst ?d) t)
        \<lparr>sct_utf8 := snd ?d, sct_remainder := ?rem\<rparr>)"
  have "(snd (push_chunk from_str c tr))\<lparr>just_completed := False\<rparr> =
      (?X\<lparr>just_completed := False\<rparr>)\<lparr>sct_utf8 := snd ?e, sct_remainder := snd ?x\<rparr>"
    unfolding push by simp
  also have "?X\<lparr>just_completed := False\<rparr> = ?Y\<lparr>just_completed := False\<rparr>"
    by (rule fold_feed_forget) (simp add: assms tracked_def Let_def)
  also have "(?Y\<lparr>just_completed := False\<rparr>)\<lparr>sct_utf8 := snd ?e, sct_remainder := snd ?x\<rparr> = tracked from_str t (s @ c)"
    by (simp add: tracked_def Let_def split fold_feed_commute)
  finally show ?thesis .
qed

lemma push_chunks_tracked:
  "tr\<lparr>just_completed := False\<rparr> = tracked from_str t s \<Longrightarrow>
     (fold (\<lambda>c tr. snd (push_chunk from_str c tr)) chunks tr)\<lparr>just_completed := False\<rparr> =
     tracked from_str t (s @ concat chunks)"
proof (induction chunks arbitrary: tr s)
  case (Cons c chunks)
  from Cons.IH [OF push_chunk_tracked [OF Cons.prems]] show ?case by simp
qed simp

lemma completed_response_forget [simp]: "completed_response (t\<lparr>just_completed := x\<rparr>) = completed_response t"
proof -
  have "completed_items (t\<lparr>just_completed := x\<rparr>) = completed_items t"
    and "sct_completed_response (t\<lparr>just_completed := x\<rparr>) = sct_completed_response t"
    by simp_all
  then show ?thesis unfolding completed_response_def by (simp only:)
qed

lemma terminal_error_forget: "terminal_error (t\<lparr>just_completed := x\<rparr>) = terminal_error t"
  by simp

lemma default_tracked: "default_tracker = tracked from_str default_tracker []"
  by (simp add: tracked_def default_tracker_def drain_blocks_split [of "[]"])

text \<open>
  The completion tracker sees the byte stream and not the chunks it arrives in: however the upstream's
  bytes are cut, inside a scalar, a line or a delimiter, the items, the completed response and the
  terminal error it has collected are those of one call on the whole stream.
\<close>

theorem tracker_chunking_irrelevant:
  "let t = fold (\<lambda>c tr. snd (push_chunk from_str c tr)) chunks default_tracker;
       whole = snd (push_chunk from_str (concat chunks) default_tracker)
   in t\<lparr>just_completed := False\<rparr> = whole\<lparr>just_completed := False\<rparr> \<and>
      completed_response t = completed_response whole \<and> terminal_error t = terminal_error whole"
proof -
  let ?t = "fold (\<lambda>c tr. snd (push_chunk from_str c tr)) chunks default_tracker"
  let ?whole = "snd (push_chunk from_str (concat chunks) default_tracker)"
  have start: "default_tracker\<lparr>just_completed := False\<rparr> = tracked from_str default_tracker []"
    using default_tracked [of from_str] by (simp add: default_tracker_def)
  have "?t\<lparr>just_completed := False\<rparr> = ?whole\<lparr>just_completed := False\<rparr>"
    using push_chunks_tracked [OF start, of chunks] push_chunk_tracked [OF start, of "concat chunks"] by simp
  moreover have "completed_response ?t = completed_response ?whole"
    using arg_cong [OF calculation, of completed_response] by (simp only: completed_response_forget)
  moreover have "terminal_error ?t = terminal_error ?whole"
    using arg_cong [OF calculation(1), of terminal_error] by (simp only: terminal_error_forget)
  ultimately show ?thesis by (simp only: Let_def simp_thms)
qed

section \<open>The completed response\<close>

lemma json_eq_refl: "json_wf v \<Longrightarrow> json_eq v v"
proof (induction v)
  case (JArray xs)
  then show ?case
    by (auto simp: json_eq.simps [of "JArray xs"] list_all_iff in_set_zip)
next
  case (JObject kvs)
  then have "json_eq x x" if "(k, x) \<in> set kvs" for k x
    using that by (fastforce simp: list_all_iff)
  then show ?case
    using JObject.prems by (auto simp: json_eq.simps [of "JObject kvs"] list_all_iff)
qed (simp_all add: json_eq.simps float_eq_def)

lemma merge_item_covers: "json_wf item \<Longrightarrow> list_ex (is_duplicate_item item) (merge_item item outs)"
  by (simp add: merge_item_def is_duplicate_item_def json_eq_refl)

lemma merge_items:
  "list_all json_wf items \<Longrightarrow>
     prefix outs (fold merge_item items outs) \<and>
     (\<forall>item \<in> set items. list_ex (is_duplicate_item item) (fold merge_item items outs)) \<and>
     set (fold merge_item items outs) \<subseteq> set outs \<union> set items"
proof (induction items arbitrary: outs)
  case (Cons item items)
  then have IH: "prefix (merge_item item outs) (fold merge_item items (merge_item item outs))"
      "\<forall>i \<in> set items. list_ex (is_duplicate_item i) (fold merge_item items (merge_item item outs))"
      "set (fold merge_item items (merge_item item outs)) \<subseteq> set (merge_item item outs) \<union> set items"
    by auto
  have "list_ex (is_duplicate_item item) (fold merge_item items (merge_item item outs))"
    using merge_item_covers [of item outs] Cons.prems IH(1) by (auto simp: prefix_def)
  moreover have "prefix outs (merge_item item outs)" "set (merge_item item outs) \<subseteq> insert item (set outs)"
    by (auto simp: merge_item_def)
  ultimately show ?case
    using IH by (auto intro: prefix_order.trans)
qed simp

text \<open>
  The reconstructed response loses nothing: it exists exactly when the terminal event carried an object
  whose \<open>output\<close> is an array or missing, its output starts with the provider's own output, every item
  the stream completed is in it (itself, or under its id), and nothing else is added.
\<close>

theorem completed_response_complete:
  assumes "list_all json_wf (completed_items t)"
  shows "case completed_response t of
     None \<Rightarrow> (\<forall>kvs. sct_completed_response t = Some (JObject kvs) \<longrightarrow>
        (\<exists>v. map_of kvs ''output'' = Some v \<and> json_as_array v = None))
   | Some v \<Rightarrow> (\<exists>kvs outs final.
        sct_completed_response t = Some (JObject kvs) \<and>
        outs = (case map_of kvs ''output'' of Some (JArray xs) \<Rightarrow> xs | _ \<Rightarrow> []) \<and>
        get_array v ''output'' = Some final \<and> prefix outs final \<and>
        (\<forall>item \<in> set (completed_items t). list_ex (is_duplicate_item item) final) \<and>
        set final \<subseteq> set outs \<union> set (completed_items t))"
proof (cases "\<exists>kvs. sct_completed_response t = Some (JObject kvs)")
  case False
  then have "completed_response t = None"
    by (auto simp: completed_response_def split: option.splits json.splits)
  with False show ?thesis by simp
next
  case True
  then obtain kvs where kvs: "sct_completed_response t = Some (JObject kvs)" by auto
  show ?thesis
  proof (cases "map_of kvs ''output''")
    case None
    with kvs merge_items [OF assms, of "[]"] show ?thesis
      by (simp add: completed_response_def get_array_def map_of_obj_update map_of_obj_insert)
  next
    case (Some v)
    show ?thesis
    proof (cases v)
      case (JArray outs)
      with kvs Some merge_items [OF assms, of outs] show ?thesis
        by (simp add: completed_response_def get_array_def map_of_obj_update)
    qed (use kvs Some in \<open>simp_all add: completed_response_def\<close>)
  qed
qed

theorem completed_response_complete_witness:
  "case completed_response (default_tracker\<lparr>sct_completed_response := Some (JObject [(''id'', JString ''r'')]),
        completed_items := [JString ''a'']\<rparr>) of
     None \<Rightarrow> False | Some v \<Rightarrow> get_array v ''output'' = Some [JString ''a'']"
  using completed_response_complete [of "default_tracker\<lparr>sct_completed_response := Some (JObject [(''id'', JString ''r'')]),
        completed_items := [JString ''a'']\<rparr>"]
  by (simp add: completed_response_def get_array_def merge_item_def)

section \<open>Validation\<close>

lemma chars_take_append:
  "n < length (chars s) \<Longrightarrow> chars (concat (take n (chars s)) @ t) = take n (chars s) @ chars t"
proof (induction n arbitrary: s)
  case (Suc n)
  then obtain c cs where s: "s = c # cs" by (cases s) auto
  let ?w = "utf8_width c - 1"
  have more: "n < length (chars (drop ?w cs))"
    using Suc.prems by (simp add: s)
  then have "drop ?w cs \<noteq> []" by (cases "drop ?w cs") auto
  then have "length (take ?w cs) = ?w" by simp
  with Suc.IH [OF more] show ?case by (simp add: s)
qed simp

lemma bounded_diagnostic_bound: "length (chars (bounded_diagnostic t)) \<le> MAX_PROTOCOL_DIAGNOSTIC_CHARS"
proof -
  have "chars ELLIPSIS = [ELLIPSIS]"
    by (simp add: ELLIPSIS_def utf8_width_def byte_val_def)
  then show ?thesis
    by (simp add: bounded_diagnostic_def Let_def chars_take_append MAX_PROTOCOL_DIAGNOSTIC_CHARS_def)
qed

lemma check_fields_None:
  "check_fields event object accepts expected fields' = None \<longleftrightarrow>
     (\<forall>f \<in> set fields'. \<forall>v. map_of object f = Some v \<longrightarrow> accepts v \<or> json_is_null v)"
  by (auto simp: check_fields_def find_map_None_iff split: option.splits if_splits)

lemma check_fields_Some:
  "check_fields event object accepts expected fields' = Some e \<Longrightarrow> \<exists>d. e = new_protocol_error event d"
  by (auto simp: check_fields_def find_map_Some_split split: option.splits if_splits)

lemma check_fields_bad:
  assumes "check_fields event object accepts expected fields' = Some e"
  shows "(\<exists>d. e = new_protocol_error event d) \<and>
    (\<exists>f x. f \<in> set fields' \<and> map_of object f = Some x \<and> \<not> json_is_null x \<and> \<not> accepts x)"
  using check_fields_Some [OF assms] check_fields_None [of event object accepts expected fields'] assms
  by (metis option.distinct(1))

text \<open>
  Validation accepts exactly the payloads the normalizer's field accesses rely on: an unknown event as
  it is; a known event with an object whose containers, texts and indices each have their type, are
  null or are missing. A refusal names the event, and its two diagnostics never exceed 160 characters,
  whatever the provider sent.
\<close>

theorem validate_known_sse_event_iff:
  "case validate_known_sse_event event v of
     Inr _ \<Rightarrow> is_known_protocol_event event \<longrightarrow>
       (\<exists>object. v = JObject object \<and>
          (\<forall>f x. map_of object f = Some x \<longrightarrow> \<not> json_is_null x \<longrightarrow>
             (f \<in> set CONTAINER_FIELDS \<longrightarrow> json_is_object x) \<and>
             (f \<in> set TEXT_FIELDS \<longrightarrow> json_is_string x) \<and>
             (f \<in> set INDEX_FIELDS \<longrightarrow> json_as_u64 x \<noteq> None)))
   | Inl e \<Rightarrow> is_known_protocol_event event \<and> pe_event e = bounded_diagnostic event \<and>
       length (chars (pe_event e)) \<le> MAX_PROTOCOL_DIAGNOSTIC_CHARS \<and>
       length (chars (pe_detail e)) \<le> MAX_PROTOCOL_DIAGNOSTIC_CHARS \<and>
       (\<forall>object. v = JObject object \<longrightarrow>
          (\<exists>f x. map_of object f = Some x \<and> \<not> json_is_null x \<and>
             ((f \<in> set CONTAINER_FIELDS \<and> \<not> json_is_object x) \<or>
              (f \<in> set TEXT_FIELDS \<and> \<not> json_is_string x) \<or>
              (f \<in> set INDEX_FIELDS \<and> json_as_u64 x = None))))"
proof (cases "is_known_protocol_event event")
  case False
  then show ?thesis by (simp add: validate_known_sse_event_def)
next
  case True
  have detail: "pe_event (new_protocol_error event d) = bounded_diagnostic event"
    "pe_detail (new_protocol_error event d) = bounded_diagnostic d" for d
    by (simp_all add: new_protocol_error_def)
  show ?thesis
  proof (cases v)
    case (JObject object)
    show ?thesis
    proof (cases "validate_known_sse_event event v")
      case (Inr u)
      with True JObject have
        "check_fields event object json_is_object ''an object'' CONTAINER_FIELDS = None"
        "check_fields event object json_is_string ''a string'' TEXT_FIELDS = None"
        "check_fields event object (\<lambda>n. json_as_u64 n \<noteq> None) ''a non-negative integer'' INDEX_FIELDS = None"
        by (auto simp: validate_known_sse_event_def split: option.splits)
      with Inr JObject show ?thesis by (auto simp: check_fields_None)
    next
      case (Inl e)
      then consider
        "check_fields event object json_is_object ''an object'' CONTAINER_FIELDS = Some e" |
        "check_fields event object json_is_string ''a string'' TEXT_FIELDS = Some e" |
        "check_fields event object (\<lambda>n. json_as_u64 n \<noteq> None) ''a non-negative integer'' INDEX_FIELDS = Some e"
        using True JObject by (auto simp: validate_known_sse_event_def split: option.splits)
      then obtain f x where "\<exists>d. e = new_protocol_error event d"
        and bad: "map_of object f = Some x" "\<not> json_is_null x"
          "(f \<in> set CONTAINER_FIELDS \<and> \<not> json_is_object x) \<or> (f \<in> set TEXT_FIELDS \<and> \<not> json_is_string x) \<or>
           (f \<in> set INDEX_FIELDS \<and> json_as_u64 x = None)"
        by cases (auto dest!: check_fields_bad, blast)
      with Inl True JObject show ?thesis
        by (auto simp: detail bounded_diagnostic_bound)
    qed
  qed (use True in \<open>simp_all add: validate_known_sse_event_def detail bounded_diagnostic_bound\<close>)
qed

theorem validate_known_sse_event_iff_witness:
  "\<exists>e. validate_known_sse_event ''response.completed'' JNull = Inl e \<and>
     pe_event e = bounded_diagnostic ''response.completed'' \<and> length (chars (pe_detail e)) \<le> MAX_PROTOCOL_DIAGNOSTIC_CHARS"
  using validate_known_sse_event_iff [of "''response.completed''" JNull]
  by (auto simp: is_known_protocol_event_def starts_with_def split: sum.splits)

section \<open>Readable reasoning, shown\<close>

text \<open>No object carries \<open>reasoning_content\<close>, and no reasoning object \<open>encrypted_content\<close> or \<open>content\<close>.\<close>

fun reasoning_clean :: "json \<Rightarrow> bool" where
  "reasoning_clean (JArray xs) = list_all reasoning_clean xs"
| "reasoning_clean (JObject kvs) =
     (map_of kvs ''reasoning_content'' = None \<and>
      (is_reasoning kvs \<longrightarrow> map_of kvs ''encrypted_content'' = None \<and> map_of kvs ''content'' = None) \<and>
      list_all (\<lambda>(k, v). reasoning_clean v) kvs)"
| "reasoning_clean v = True"

lemma distinct_with_summary: "distinct (map fst object) \<Longrightarrow> distinct (map fst (with_summary object))"
  by (simp add: with_summary_def distinct_obj_insert split: option.splits)

lemma distinct_reshape: "distinct (map fst object) \<Longrightarrow> distinct (map fst (reshape_reasoning object))"
  by (simp add: reshape_reasoning_def distinct_obj_remove distinct_with_summary)

lemma map_of_with_summary: "k \<noteq> ''summary'' \<Longrightarrow> map_of (with_summary object) k = map_of object k"
  by (simp add: with_summary_def map_of_obj_insert split: option.splits)

lemma map_of_reshape:
  assumes "distinct (map fst object)"
  shows "map_of (reshape_reasoning object) ''reasoning_content'' = None"
    and "map_of (reshape_reasoning object) ''type'' = map_of object ''type''"
    and "is_reasoning object \<Longrightarrow> map_of (reshape_reasoning object) ''encrypted_content'' = None"
    and "is_reasoning object \<Longrightarrow> map_of (reshape_reasoning object) ''content'' = None"
  using assms
  by (simp_all add: reshape_reasoning_def map_of_obj_remove distinct_obj_remove distinct_with_summary
      map_of_with_summary)

lemma normalize_string [simp]: "normalize_third_party_readable_reasoning (JString s) = JString s"
  by (simp add: normalize_third_party_readable_reasoning.simps)

lemma normalize_as_str:
  "json_as_str (normalize_third_party_readable_reasoning v) = json_as_str v"
  by (cases v) (simp_all add: normalize_third_party_readable_reasoning.simps)

lemma is_reasoning_normalized:
  assumes "distinct (map fst object)"
  shows "is_reasoning (map (\<lambda>(k, c). (k, normalize_third_party_readable_reasoning c)) (reshape_reasoning object)) =
    is_reasoning object"
  using map_of_reshape(2) [OF assms]
  by (simp add: is_reasoning_def map_of_map_snd normalize_as_str bind_map_option o_def cong: bind_option_cong)

lemma json_wf_reshape_child:
  "list_all (\<lambda>(k, v). json_wf v) object \<Longrightarrow> (k, c) \<in> set (reshape_reasoning object) \<Longrightarrow> json_wf c"
  using reshape_reasoning_children [of k c object] by (auto simp: list_all_iff summary_of_def)

lemma normalize_clean:
  "json_wf v \<Longrightarrow> reasoning_clean (normalize_third_party_readable_reasoning v)"
proof (induction v rule: normalize_third_party_readable_reasoning.induct)
  case (1 v)
  show ?case
  proof (cases v)
    case (JArray xs)
    with 1 show ?thesis
      by (auto simp: normalize_third_party_readable_reasoning.simps [of "JArray xs"] list_all_iff)
  next
    case (JObject object)
    with 1(3) have d: "distinct (map fst object)" and children: "list_all (\<lambda>(k, v). json_wf v) object"
      by auto
    have "reasoning_clean (normalize_third_party_readable_reasoning c)" if "(k, c) \<in> set (reshape_reasoning object)" for k c
      using 1(2) [OF JObject that refl json_wf_reshape_child [OF children that]] by simp
    then show ?thesis
      using JObject map_of_reshape [OF d] is_reasoning_normalized [OF d]
      by (auto simp: normalize_third_party_readable_reasoning.simps [of "JObject object"] map_of_map_snd list_all_iff)
  qed (simp_all add: normalize_third_party_readable_reasoning.simps)
qed

lemma obj_remove_absent: "map_of kvs k = None \<Longrightarrow> obj_remove k kvs = kvs"
  by (induction kvs) (auto split: if_splits)

lemma reshape_clean: "reasoning_clean (JObject object) \<Longrightarrow> reshape_reasoning object = object"
  by (auto simp: reshape_reasoning_def with_summary_def readable_reasoning_def or_else_def obj_remove_absent
      split: option.splits)

lemma normalize_id: "reasoning_clean v \<Longrightarrow> normalize_third_party_readable_reasoning v = v"
proof (induction v)
  case (JArray xs)
  then have "map normalize_third_party_readable_reasoning xs = xs"
    by (auto simp: list_all_iff intro: map_idI)
  then show ?case by (simp add: normalize_third_party_readable_reasoning.simps [of "JArray xs"])
next
  case (JObject object)
  then have "normalize_third_party_readable_reasoning c = c" if "(k, c) \<in> set object" for k c
    using that by (fastforce simp: list_all_iff)
  then have "map (\<lambda>(k, c). (k, normalize_third_party_readable_reasoning c)) object = object"
    by (auto intro!: map_idI)
  with JObject.prems show ?case
    by (simp add: normalize_third_party_readable_reasoning.simps [of "JObject object"] reshape_clean
        del: reasoning_clean.simps)
qed (simp_all add: normalize_third_party_readable_reasoning.simps)

text \<open>
  Opaque reasoning never reaches the client: in a normalized value no object at any depth carries
  \<open>reasoning_content\<close> and no reasoning object carries \<open>encrypted_content\<close> or raw \<open>content\<close>; and
  the normalization is stable, so normalizing again changes nothing.
\<close>

theorem reasoning_never_leaks:
  assumes "json_wf v"
  shows "reasoning_clean (normalize_third_party_readable_reasoning v) \<and>
    normalize_third_party_readable_reasoning (normalize_third_party_readable_reasoning v) =
      normalize_third_party_readable_reasoning v"
  using normalize_clean [OF assms] by (simp add: normalize_id)

theorem reasoning_never_leaks_witness:
  "reasoning_clean (normalize_third_party_readable_reasoning
     (JArray [JObject [(''type'', JString ''reasoning''), (''encrypted_content'', JString ''x''),
                       (''content'', JString ''why'')]]))"
  using reasoning_never_leaks [of "JArray [JObject [(''type'', JString ''reasoning''),
     (''encrypted_content'', JString ''x''), (''content'', JString ''why'')]]"]
  by simp

section \<open>Replayed lines\<close>

text \<open>A list of segments as \<open>split_inclusive\<close> cuts them: one line feed each, at the end.\<close>

fun segmented :: "string list \<Rightarrow> bool" where
  "segmented [] = True"
| "segmented [s] = (s \<noteq> [] \<and> CHR 0x0A \<notin> set (butlast s))"
| "segmented (s # t # ss) = (s \<noteq> [] \<and> last s = CHR 0x0A \<and> CHR 0x0A \<notin> set (butlast s) \<and> segmented (t # ss))"

lemma split_inclusive_acc_line:
  "CHR 0x0A \<notin> set l \<Longrightarrow> split_inclusive_acc (l @ CHR 0x0A # cs) acc = (acc @ l @ [CHR 0x0A]) # split_inclusive_acc cs []"
  by (induction l arbitrary: acc) auto

lemma split_inclusive_acc_rest:
  "CHR 0x0A \<notin> set l \<Longrightarrow> split_inclusive_acc l acc = (if acc @ l = [] then [] else [acc @ l])"
  by (induction l arbitrary: acc) auto

lemma split_inclusive_concat: "segmented ss \<Longrightarrow> split_inclusive (concat ss) = ss"
proof (induction ss rule: segmented.induct)
  case (2 s)
  then obtain l c where s: "s = l @ [c]" and l: "CHR 0x0A \<notin> set l"
    by (cases s rule: rev_cases) auto
  show ?case
  proof (cases "c = CHR 0x0A")
    case True
    with s l split_inclusive_acc_line [of l "[]" "[]"] show ?thesis by (simp add: split_inclusive_def)
  next
    case False
    with s l split_inclusive_acc_rest [of "l @ [c]" "[]"] show ?thesis by (simp add: split_inclusive_def)
  qed
next
  case (3 s t ss)
  then obtain l where "s = l @ [CHR 0x0A]" "CHR 0x0A \<notin> set l"
    by (cases s rule: rev_cases) auto
  with 3 show ?case by (simp add: split_inclusive_def split_inclusive_acc_line)
qed (simp add: split_inclusive_def)

lemma segmented_split_acc:
  "CHR 0x0A \<notin> set acc \<Longrightarrow> segmented (split_inclusive_acc s acc)"
proof (induction s arbitrary: acc)
  case (Cons c cs)
  show ?case
  proof (cases "c = CHR 0x0A")
    case True
    with Cons.prems Cons.IH [of "[]"] show ?thesis
      by (cases "split_inclusive_acc cs []") auto
  next
    case False
    with Cons.prems Cons.IH [of "acc @ [c]"] show ?thesis by simp
  qed
qed (auto dest: in_set_butlastD)

lemma segmented_Cons:
  "segmented (s # ss) \<longleftrightarrow> s \<noteq> [] \<and> CHR 0x0A \<notin> set (butlast s) \<and> (ss \<noteq> [] \<longrightarrow> last s = CHR 0x0A) \<and> segmented ss"
  by (cases ss) auto

lemma segmented_collapse: "segmented ss \<Longrightarrow> segmented (collapse_segments previous ss)"
proof (induction ss arbitrary: previous)
  case (Cons s ss)
  have "collapse_segments p ss \<noteq> [] \<Longrightarrow> ss \<noteq> []" for p
    by auto
  with Cons show ?case by (auto simp: segmented_Cons Let_def)
qed simp

lemma collapse_segments_idem:
  "collapse_segments previous (collapse_segments previous ss) = collapse_segments previous ss"
proof (induction ss arbitrary: previous)
  case (Cons s ss)
  show ?case
  proof (cases "is_replayed previous (normalized_line s)")
    case True
    then have "previous = Some (normalized_line s)" "normalized_line s \<noteq> []"
      by (auto simp: is_replayed_def)
    with Cons True show ?thesis by (simp add: Let_def)
  next
    case False
    with Cons show ?thesis by (simp add: Let_def)
  qed
qed simp

lemma collapse_segments_subseq: "subseq (collapse_segments previous ss) ss"
  by (induction ss arbitrary: previous) (auto simp: Let_def)

text \<open>
  Collapsing replayed lines only drops lines: the result is made of a subsequence of the text's
  lines, in their order and unchanged, and collapsing it again changes nothing.
\<close>

theorem collapse_replayed_lines:
  "(\<exists>kept. subseq kept (split_inclusive t) \<and> collapse_adjacent_provider_replay_lines t = concat kept) \<and>
   collapse_adjacent_provider_replay_lines (collapse_adjacent_provider_replay_lines t) =
     collapse_adjacent_provider_replay_lines t"
proof -
  let ?kept = "collapse_segments None (split_inclusive t)"
  have "segmented ?kept"
    by (intro segmented_collapse) (simp add: split_inclusive_def segmented_split_acc)
  then have "split_inclusive (concat ?kept) = ?kept" by (rule split_inclusive_concat)
  then show ?thesis
    by (auto simp: collapse_adjacent_provider_replay_lines_def collapse_segments_idem
        intro!: exI [of _ ?kept] collapse_segments_subseq)
qed

text \<open>
  One pass over the control tokens can leave one behind: removing a token nested in another joins the
  outer one's halves, and the pass does not look again.
\<close>

theorem nested_control_token_survives:
  "strip_control_text ''<|e<|eos|>os|>'' False = ''<|eos|>'' \<and>
   sanitize_unparsed_sse_block ''data: <|e<|eos|>os|>'' = [''data: <|eos|>'' @ LF_LF]"
  by (simp add: strip_control_text_def sanitize_unparsed_sse_block_def CONTROL_TOKENS_def replace_str.simps
      starts_with_def lines_def byte_val_def strip_sse_field_def strip_prefix_def trim_def utf8_width_def
      is_whitespace_def drop_end_while_def)

section \<open>The wire format round trip\<close>

definition event_block :: "(json \<Rightarrow> string) \<Rightarrow> string \<times> json \<Rightarrow> string" where
  "event_block to_str ev = ''event: '' @ fst ev @ [CHR 0x0A] @ ''data: '' @ to_str (snd ev)"

lemma split_block_plain:
  "single_line s \<Longrightarrow> split_block (s @ t) = None \<longleftrightarrow> split_block t = None"
  by (induction s) (auto simp: single_line_def starts_with_delims)

lemma split_block_LF_Cons:
  "c \<noteq> CHR 0x0A \<Longrightarrow> split_block (CHR 0x0A # c # cs) = None \<longleftrightarrow> split_block (c # cs) = None"
  by (subst split_block.simps(2)) (simp add: starts_with_delims del: split_block.simps(2))

lemma single_line_append [simp]: "single_line (s @ t) \<longleftrightarrow> single_line s \<and> single_line t"
  by (auto simp: single_line_def)

lemma well_framed_event_block:
  assumes "single_line (fst ev)" "single_line (to_str (snd ev))"
  shows "well_framed (False, event_block to_str ev)"
proof -
  have data: "single_line (''data: '' @ to_str (snd ev))" and event: "single_line (''event: '' @ fst ev)"
    using assms by (simp_all add: single_line_def)
  have "split_block (''data: '' @ to_str (snd ev) @ [CHR 0x0A]) = None"
    using split_block_plain [OF data, of "[CHR 0x0A]"] by (simp add: starts_with_delims)
  then have "split_block (CHR 0x0A # ''data: '' @ to_str (snd ev) @ [CHR 0x0A]) = None"
    using split_block_LF_Cons [of "CHR ''d''" "''ata: '' @ to_str (snd ev) @ [CHR 0x0A]"] by simp
  then have "split_block (event_block to_str ev @ [CHR 0x0A]) = None"
    using split_block_plain [OF event] by (simp add: event_block_def)
  then show ?thesis
    by (simp add: well_framed_def delimiter_def LF_LF_def take_sse_block_split)
qed

lemma lines_event_block:
  assumes "single_line (fst ev)" "single_line (to_str (snd ev))"
  shows "lines (event_block to_str ev) = [''event: '' @ fst ev, ''data: '' @ to_str (snd ev)]"
proof -
  have "CHR 0x0A \<notin> set (''event: '' @ fst ev)" "CHR 0x0A \<notin> set (''data: '' @ to_str (snd ev))"
    using assms by (simp_all add: single_line_def)
  moreover have "strip_cr (''event: '' @ fst ev) = ''event: '' @ fst ev"
    using assms(1) by (auto simp: strip_cr_def byte_val_CR single_line_def) (metis last_in_set)
  ultimately show ?thesis
    using lines_acc_line [of "''event: '' @ fst ev" "''data: '' @ to_str (snd ev)" "[]"]
      lines_acc_rest [of "''data: '' @ to_str (snd ev)" "[]"]
    by (simp add: lines_def event_block_def)
qed

lemma parse_event_block:
  assumes "single_line (fst ev)" "single_line (to_str (snd ev))" "from_str (to_str (snd ev)) = Some (snd ev)"
  shows "parse_sse_value from_str (event_block to_str ev) = Some ev"
  using assms
  by (simp add: parse_sse_value_def lines_event_block strip_sse_field_def strip_prefix_def starts_with_def or_else_def)

text \<open>
  The wire format round trip: a sequence of events, each printed by \<open>format_sse_value\<close>, is cut into
  blocks and parsed back to the same events with nothing left over, whenever the JSON printer and
  parser agree on the payloads and neither a name nor a printed payload spans lines.
\<close>

theorem sse_wire_roundtrip:
  assumes "\<And>e v. (e, v) \<in> set evs \<Longrightarrow> single_line e \<and> single_line (to_str v) \<and> from_str (to_str v) = Some v"
  shows "\<exists>blocks. drain_blocks (concat (map (\<lambda>(e, v). format_sse_value to_str e v) evs)) = (blocks, []) \<and>
    map (parse_sse_value from_str) blocks = map Some evs"
proof -
  let ?frames = "map (\<lambda>ev. (False, event_block to_str ev)) evs"
  have "list_all well_framed ?frames"
    using assms by (auto simp: list_all_iff well_framed_event_block)
  moreover have "fst (take_sse_block []) = None"
    by (simp add: take_sse_block_split)
  ultimately have "drain_blocks (concat (map (\<lambda>(crlf, block). block @ delimiter crlf) ?frames) @ []) = (map snd ?frames, [])"
    by (rule drain_framed)
  moreover have "concat (map (\<lambda>(crlf, block). block @ delimiter crlf) ?frames) =
      concat (map (\<lambda>(e, v). format_sse_value to_str e v) evs)"
    by (simp add: o_def format_sse_value_def event_block_def delimiter_def case_prod_unfold)
  moreover have "map (parse_sse_value from_str) (map snd ?frames) = map Some evs"
    using assms by (auto simp: parse_event_block)
  ultimately show ?thesis by auto
qed

theorem sse_wire_roundtrip_witness:
  "\<exists>blocks. drain_blocks (concat (map (\<lambda>(e, v). format_sse_value (\<lambda>_. ''null'') e v)
      [(''response.created'', JNull), (''response.completed'', JNull)])) = (blocks, []) \<and>
    map (parse_sse_value (\<lambda>_. Some JNull)) blocks =
      map Some [(''response.created'', JNull), (''response.completed'', JNull)]"
  by (rule sse_wire_roundtrip) (auto simp: single_line_def)

end
