(* ===== verification/Adapter.thy ===== *)
theory Adapter
  imports Streaming
begin

text \<open>
  The pure translation helpers of \<open>crates/vellum-proxy-runtime/src/adapter.rs\<close>: the patch envelope
  checker, the custom-tool and namespace-tool contexts that restore Codex items from provider items,
  and the scrubbers that carry a conversation from one provider realm to another.

  \<open>serde_json::from_str\<close> is the parameter \<open>from_str\<close>; \<open>sha_hex\<close> stands for the hexadecimal
  SHA-256 digest. The \<open>HashSet\<close>s of the contexts are lists whose order stands for the unspecified
  iteration order.
\<close>

section \<open>Patch envelopes\<close>

definition is_apply_patch :: "string \<Rightarrow> bool" where
  "is_apply_patch name \<longleftrightarrow> name = ''apply_patch''"

datatype file_change_kind = Add | Update | Delete

record file_change =
  fc_path :: string
  fc_kind :: file_change_kind
  added_lines :: nat
  removed_lines :: nat

definition BEGIN_PATCH :: string where
  "BEGIN_PATCH = ''*** Begin Patch''"

definition END_PATCH :: string where
  "END_PATCH = ''*** End Patch''"

fun update_first :: "('a \<Rightarrow> bool) \<Rightarrow> ('a \<Rightarrow> 'a) \<Rightarrow> 'a list \<Rightarrow> 'a list" where
  "update_first P f [] = []"
| "update_first P f (x # xs) = (if P x then f x # xs else x # update_first P f xs)"

definition update_last :: "('a \<Rightarrow> bool) \<Rightarrow> ('a \<Rightarrow> 'a) \<Rightarrow> 'a list \<Rightarrow> 'a list" where
  "update_last P f xs = rev (update_first P f (rev xs))"

definition nonblank :: "string \<Rightarrow> bool" where
  "nonblank line \<longleftrightarrow> trim line \<noteq> []"

definition normalize_patch_delimiters :: "string \<Rightarrow> string" where
  "normalize_patch_delimiters patch =
     (let ls = lines patch;
          ls1 = update_first nonblank (\<lambda>l. if trim l = ''*** Begin Patch ***'' then BEGIN_PATCH else l) ls;
          ls2 = update_last nonblank (\<lambda>l. if trim l = ''*** End Patch ***'' then END_PATCH else l) ls1
      in join_with [CHR 0x0A] ls2 @ (if ends_with patch [CHR 0x0A] then [CHR 0x0A] else []))"

definition validate_change :: "file_change \<Rightarrow> string + unit" where
  "validate_change change =
     (if fc_kind change = Add \<and> added_lines change = 0 then
        Inl (''`*** Add File: '' @ fc_path change @
          ''` has no `+` content lines; an empty new file must still declare its content'')
      else if fc_kind change = Update \<and> added_lines change = 0 \<and> removed_lines change = 0 then
        Inl (''`*** Update File: '' @ fc_path change @
          ''` contains no `+` or `-` lines, so it would not change anything'')
      else Inr ())"

text \<open>The state of the checker: the finished sections and the current one.\<close>

type_synonym patch_state = "file_change list \<times> file_change option"

definition push_change ::
  "string \<Rightarrow> file_change_kind \<Rightarrow> nat \<Rightarrow> patch_state \<Rightarrow> string + patch_state"
where
  "push_change path kind number st =
     (if trim path = [] then Inl (''line '' @ show_nat number @ '': file section has an empty path'')
      else
        let new = \<lparr>fc_path = trim path, fc_kind = kind, added_lines = 0, removed_lines = 0\<rparr> in
        case snd st of
          Some previous \<Rightarrow>
            (case validate_change previous of
               Inl e \<Rightarrow> Inl e
             | Inr _ \<Rightarrow> Inr (fst st @ [previous], Some new))
        | None \<Rightarrow> Inr (fst st, Some new))"

definition body_line :: "string \<Rightarrow> nat \<Rightarrow> file_change \<Rightarrow> string + file_change" where
  "body_line line number change =
     (case fc_kind change of
        Delete \<Rightarrow>
          if trim line \<noteq> [] then
            Inl (''line '' @ show_nat number @ '': `*** Delete File:` sections take no body, found `'' @ trim line @ ''`'')
          else Inr change
      | Add \<Rightarrow>
          if starts_with line ''+'' then Inr (change\<lparr>added_lines := added_lines change + 1\<rparr>)
          else if trim line \<noteq> [] then
            Inl (''line '' @ show_nat number @
              '': every line of an `*** Add File:` section must start with `+`, found `'' @ trim line @ ''`'')
          else Inr change
      | Update \<Rightarrow>
          if line = [] \<or> hd line = CHR ''@'' \<or> hd line = CHR '' '' then Inr change
          else if hd line = CHR ''+'' then Inr (change\<lparr>added_lines := added_lines change + 1\<rparr>)
          else if hd line = CHR ''-'' then Inr (change\<lparr>removed_lines := removed_lines change + 1\<rparr>)
          else Inl (''line '' @ show_nat number @
              '': update hunk lines must start with `+`, `-`, `@@`, or a space, found `'' @ trim line @ ''`''))"

definition patch_line :: "string \<Rightarrow> nat \<Rightarrow> patch_state \<Rightarrow> string + patch_state" where
  "patch_line line number st =
     (case strip_prefix line ''*** Update File: '' of
        Some path \<Rightarrow> push_change path Update number st
      | None \<Rightarrow>
     (case strip_prefix line ''*** Add File: '' of
        Some path \<Rightarrow> push_change path Add number st
      | None \<Rightarrow>
     (case strip_prefix line ''*** Delete File: '' of
        Some path \<Rightarrow> push_change path Delete number st
      | None \<Rightarrow>
          if starts_with line ''***'' then
            Inl (''line '' @ show_nat number @ '': unknown patch section `'' @ trim line @
              ''`; expected `*** Add File:`, `*** Update File:`, `*** Delete File:`, or `'' @ END_PATCH @ ''`'')
          else case snd st of
            None \<Rightarrow> Inl (''line '' @ show_nat number @
              '': content before any `*** Add File:` / `*** Update File:` / `*** Delete File:` section'')
          | Some change \<Rightarrow>
              (case body_line line number change of
                 Inl e \<Rightarrow> Inl e
               | Inr change' \<Rightarrow> Inr (fst st, Some change')))))"

fun patch_lines :: "string list \<Rightarrow> nat \<Rightarrow> patch_state \<Rightarrow> string + patch_state" where
  "patch_lines [] number st = Inr st"
| "patch_lines (line # rest) number st =
     (case patch_line line number st of
        Inl e \<Rightarrow> Inl e
      | Inr st' \<Rightarrow> patch_lines rest (number + 1) st')"

fun position :: "('a \<Rightarrow> bool) \<Rightarrow> 'a list \<Rightarrow> nat option" where
  "position P [] = None"
| "position P (x # xs) = (if P x then Some 0 else map_option Suc (position P xs))"

definition rposition :: "('a \<Rightarrow> bool) \<Rightarrow> 'a list \<Rightarrow> nat option" where
  "rposition P xs = map_option (\<lambda>i. length xs - 1 - i) (position P (rev xs))"

definition validate_patch :: "string \<Rightarrow> string + file_change list" where
  "validate_patch patch =
     (let ls = lines patch in
      case position nonblank ls of
        None \<Rightarrow> Inl ''patch is empty; expected a document starting with `*** Begin Patch`''
      | Some first \<Rightarrow>
          if trim_end (ls ! first) \<noteq> BEGIN_PATCH then
            Inl (''patch must start with `'' @ BEGIN_PATCH @ ''`, found `'' @ trim (ls ! first) @ ''`'')
          else
            let last' = (case rposition nonblank ls of Some l \<Rightarrow> l | None \<Rightarrow> first) in
            if trim_end (ls ! last') \<noteq> END_PATCH then
              Inl (''patch must end with `'' @ END_PATCH @ ''`, found `'' @ trim (ls ! last') @ ''`'')
            else
              case patch_lines (take (last' - (first + 1)) (drop (first + 1) ls)) (first + 2) ([], None) of
                Inl e \<Rightarrow> Inl e
              | Inr (changes, current) \<Rightarrow>
                  (case (case current of
                           Some change \<Rightarrow> map_sum (\<lambda>e. e) (\<lambda>_. changes @ [change]) (validate_change change)
                         | None \<Rightarrow> Inr changes) of
                     Inl e \<Rightarrow> Inl e
                   | Inr all_changes \<Rightarrow>
                       if all_changes = [] then
                         Inl (''patch contains no file sections between `'' @ BEGIN_PATCH @ ''` and `'' @ END_PATCH @ ''`'')
                       else Inr all_changes))"

section \<open>Item identifiers\<close>

definition normalized_item_id :: "(string \<Rightarrow> string) \<Rightarrow> string \<Rightarrow> string \<Rightarrow> string" where
  "normalized_item_id sha_hex expected_prefix source =
     (if starts_with source expected_prefix then source
      else expected_prefix @ ''vellum_'' @ take 24 (sha_hex source))"

definition expected_prefix :: "string \<Rightarrow> string option" where
  "expected_prefix item_type =
     (if item_type = ''message'' then Some ''msg_''
      else if item_type = ''function_call'' then Some ''fc_''
      else if item_type = ''reasoning'' then Some ''rs_''
      else if item_type = ''custom_tool_call'' then Some ''ctc_''
      else if item_type = ''tool_search_call'' then Some ''tsc_''
      else None)"

definition obj_str :: "(string \<times> json) list \<Rightarrow> string \<Rightarrow> string option" where
  "obj_str object k = Option.bind (map_of object k) json_as_str"

definition normalize_official_item_id ::
  "(string \<Rightarrow> string) \<Rightarrow> (string \<times> json) list \<Rightarrow> (string \<times> json) list"
where
  "normalize_official_item_id sha_hex object =
     (case obj_str object ''type'' of
        None \<Rightarrow> object
      | Some item_type \<Rightarrow>
     (case obj_str object ''id'' of
        None \<Rightarrow> object
      | Some i \<Rightarrow>
     (case expected_prefix item_type of
        None \<Rightarrow>
          if starts_with i ''resp_vellum_'' \<or> starts_with i ''call_'' then obj_remove ''id'' object else object
      | Some p \<Rightarrow> obj_insert ''id'' (JString (normalized_item_id sha_hex p i)) object)))"

section \<open>Custom tools and namespaces\<close>

record codex_tool_context =
  custom_tools :: "string list"
  tool_search :: bool

definition declare_tool :: "json \<Rightarrow> codex_tool_context \<Rightarrow> codex_tool_context" where
  "declare_tool tool c =
     (if get_str tool ''type'' = Some ''custom'' then
        (case get_str tool ''name'' of
           Some name \<Rightarrow> c\<lparr>custom_tools := List.insert name (custom_tools c)\<rparr>
         | None \<Rightarrow> c)
      else if get_str tool ''type'' = Some ''tool_search'' then c\<lparr>tool_search := True\<rparr>
      else c)"

definition tool_context_from_request :: "json \<Rightarrow> codex_tool_context" where
  "tool_context_from_request request =
     (case get_array request ''tools'' of
        Some tools \<Rightarrow> fold declare_tool tools \<lparr>custom_tools = [], tool_search = False\<rparr>
      | None \<Rightarrow> \<lparr>custom_tools = [], tool_search = False\<rparr>)"

definition is_custom :: "codex_tool_context \<Rightarrow> string \<Rightarrow> bool" where
  "is_custom c name \<longleftrightarrow> name \<in> set (custom_tools c)"

definition is_tool_search :: "codex_tool_context \<Rightarrow> string \<Rightarrow> bool" where
  "is_tool_search c name \<longleftrightarrow> tool_search c \<and> name = ''tool_search''"

definition custom_tool_input :: "(string \<Rightarrow> json option) \<Rightarrow> string \<Rightarrow> string" where
  "custom_tool_input from_str arguments =
     (if trim arguments = [] then []
      else case Option.bind (from_str arguments)
             (\<lambda>v. Option.bind (or_else (json_get v ''input'') (json_get v ''patch'')) json_as_str) of
             Some t \<Rightarrow> t
           | None \<Rightarrow> arguments)"

definition tool_search_arguments :: "(string \<Rightarrow> json option) \<Rightarrow> json option \<Rightarrow> json" where
  "tool_search_arguments from_str arguments =
     (case arguments of
        Some (JString a) \<Rightarrow>
          if trim a = [] then JObject []
          else (case from_str a of Some v \<Rightarrow> v | None \<Rightarrow> JString a)
      | Some v \<Rightarrow> v
      | None \<Rightarrow> JObject [])"

text \<open>The log line about a malformed patch has no effect on the item.\<close>

definition restore_output_item ::
  "(string \<Rightarrow> json option) \<Rightarrow> (string \<Rightarrow> string) \<Rightarrow> codex_tool_context \<Rightarrow> json \<Rightarrow> bool \<times> json"
where
  "restore_output_item from_str sha_hex c item =
     (case (get_str item ''type'', get_str item ''name'', item) of
        (Some kind, Some name, JObject object) \<Rightarrow>
          if kind \<noteq> ''function_call'' \<or> (\<not> is_custom c name \<and> \<not> is_tool_search c name) then (False, item)
          else if is_tool_search c name then
            (True, JObject (obj_insert ''execution'' (JString ''client'')
               (obj_insert ''arguments'' (tool_search_arguments from_str (json_get item ''arguments''))
                 (obj_remove ''name''
                   (normalize_official_item_id sha_hex
                     (obj_insert ''type'' (JString ''tool_search_call'') object))))))
          else
            let raw = custom_tool_input from_str
                  (case get_str item ''arguments'' of Some a \<Rightarrow> a | None \<Rightarrow> []);
                input = (if is_apply_patch name then normalize_patch_delimiters raw else raw)
            in (True, JObject (obj_insert ''input'' (JString input)
                 (obj_remove ''arguments''
                   (normalize_official_item_id sha_hex
                     (obj_insert ''type'' (JString ''custom_tool_call'') object)))))
      | _ \<Rightarrow> (False, item))"

definition restore_response_tools ::
  "(string \<Rightarrow> json option) \<Rightarrow> (string \<Rightarrow> string) \<Rightarrow> codex_tool_context \<Rightarrow> json \<Rightarrow> json"
where
  "restore_response_tools from_str sha_hex c response =
     json_update ''output'' (map_array (\<lambda>item. snd (restore_output_item from_str sha_hex c item))) response"

definition flatten_namespace_name :: "string \<Rightarrow> string \<Rightarrow> string" where
  "flatten_namespace_name namespace name = namespace @ ''__'' @ name"

type_synonym namespace_tool_context = "(string \<times> string) list"

definition declare_namespace :: "json \<Rightarrow> namespace_tool_context \<Rightarrow> namespace_tool_context" where
  "declare_namespace tool c =
     (if get_str tool ''type'' = Some ''namespace'' then
        let namespace = (case get_str tool ''name'' of Some n \<Rightarrow> n | None \<Rightarrow> ''namespace'') in
        case get_array tool ''tools'' of
          Some children' \<Rightarrow>
            fold (\<lambda>child c. case get_str child ''name'' of
                    Some name \<Rightarrow> List.insert (namespace, name) c
                  | None \<Rightarrow> c) children' c
        | None \<Rightarrow> c
      else c)"

definition namespace_context_from_request :: "json \<Rightarrow> namespace_tool_context" where
  "namespace_context_from_request request =
     (case get_array request ''tools'' of
        Some tools \<Rightarrow> fold declare_namespace tools []
      | None \<Rightarrow> [])"

definition namespace_split :: "namespace_tool_context \<Rightarrow> string \<Rightarrow> (string \<times> string) option" where
  "namespace_split c name =
     find_map (\<lambda>(namespace, child).
       if flatten_namespace_name namespace child = name then Some (namespace, child) else None) c"

definition restore_item :: "namespace_tool_context \<Rightarrow> json \<Rightarrow> bool \<times> json" where
  "restore_item c item =
     (case (get_str item ''type'', get_str item ''name'', item) of
        (Some kind, Some name, JObject object) \<Rightarrow>
          if kind \<noteq> ''function_call'' then (False, item)
          else (case namespace_split c name of
                  None \<Rightarrow> (False, item)
                | Some (namespace, child) \<Rightarrow>
                    (True, JObject (obj_insert ''name'' (JString child)
                       (obj_insert ''namespace'' (JString namespace) object))))
      | _ \<Rightarrow> (False, item))"

definition restore_response :: "namespace_tool_context \<Rightarrow> json \<Rightarrow> json" where
  "restore_response c response =
     json_update ''output'' (map_array (\<lambda>item. snd (restore_item c item))) response"

section \<open>Crossing provider realms\<close>

definition omit_disabled_official_reasoning_summary :: "json \<Rightarrow> bool \<times> json" where
  "omit_disabled_official_reasoning_summary body =
     (case body of
        JObject object \<Rightarrow>
          (case map_of object ''reasoning'' of
             Some (JObject reasoning) \<Rightarrow>
               if obj_str reasoning ''summary'' \<noteq> Some ''none'' then (False, body)
               else
                 let reasoning' = obj_remove ''summary'' reasoning in
                 (True, JObject (if reasoning' = [] then obj_remove ''reasoning'' object
                                 else obj_update ''reasoning'' (\<lambda>_. JObject reasoning') object))
           | _ \<Rightarrow> (False, body))
      | _ \<Rightarrow> (False, body))"

definition prepare_openai_official_native :: "json \<Rightarrow> string \<Rightarrow> json" where
  "prepare_openai_official_native original upstream_model =
     snd (omit_disabled_official_reasoning_summary
       (on_object (obj_insert ''model'' (JString upstream_model)) original))"

definition is_reasoning_item :: "json \<Rightarrow> bool" where
  "is_reasoning_item v \<longleftrightarrow> get_str v ''type'' = Some ''reasoning''"

lemma weight_kept_object_child:
  "set kvs' \<subseteq> set kvs \<Longrightarrow> (k, c) \<in> set kvs' \<Longrightarrow> json_weight c < json_weight (JObject kvs)"
  using weight_object_child [of k c kvs] by auto

lemma weight_kept_array_child:
  "set xs' \<subseteq> set xs \<Longrightarrow> x \<in> set xs' \<Longrightarrow> json_weight x < json_weight (JArray xs)"
  using weight_array_child [of x xs] by auto

function strip_cross_realm_fields :: "json \<Rightarrow> json" where
  "strip_cross_realm_fields v =
     (case v of
        JObject object \<Rightarrow>
          JObject (map (\<lambda>(k, c). (k, strip_cross_realm_fields c))
            (obj_remove ''encrypted_content'' (obj_remove ''reasoning_content'' object)))
      | JArray xs \<Rightarrow> JArray (map strip_cross_realm_fields (filter (\<lambda>x. \<not> is_reasoning_item x) xs))
      | _ \<Rightarrow> v)"
  by pat_completeness auto
termination
  by (relation "measure json_weight")
    (auto simp del: json_weight.simps intro: weight_array_child weight_kept_object_child [OF subset_refl]
      dest!: subsetD [OF obj_remove_subset])

declare strip_cross_realm_fields.simps [simp del]

definition nonempty_json_string :: "json option \<Rightarrow> bool" where
  "nonempty_json_string v = (case Option.bind v json_as_str of Some t \<Rightarrow> trim t \<noteq> [] | None \<Rightarrow> False)"

definition reasoning_has_summary_text :: "json option \<Rightarrow> bool" where
  "reasoning_has_summary_text summary =
     (case Option.bind summary json_as_array of
        Some parts \<Rightarrow> list_ex (\<lambda>part. nonempty_json_string (json_get part ''text'')) parts
      | None \<Rightarrow> False)"

definition opaque_summary :: "(string \<times> json) list \<Rightarrow> (string \<times> json) list" where
  "opaque_summary object =
     (if is_reasoning object \<and> \<not> reasoning_has_summary_text (map_of object ''summary'') then
        (case readable_reasoning object of
           Some readable \<Rightarrow> obj_insert ''summary'' (summary_of readable) object
         | None \<Rightarrow> object)
      else object)"

definition reshape_opaque :: "(string \<times> json) list \<Rightarrow> (string \<times> json) list" where
  "reshape_opaque object =
     (let o1 = obj_remove ''reasoning_content'' (obj_remove ''encrypted_content'' (opaque_summary object))
      in if is_reasoning o1 then obj_remove ''content'' o1 else o1)"

lemma reshape_opaque_children:
  assumes "(k, v) \<in> set (reshape_opaque object)"
  shows "(k, v) \<in> set object \<or> (k = ''summary'' \<and> (\<exists>t. v = summary_of t) \<and> readable_reasoning object \<noteq> None)"
proof -
  from assms have "(k, v) \<in> set (opaque_summary object)"
    by (auto simp: reshape_opaque_def Let_def dest!: subsetD [OF obj_remove_subset] split: if_splits)
  then show ?thesis
    using set_obj_insert [of "''summary''" _ object]
    by (auto simp: opaque_summary_def split: option.splits if_splits)
qed

lemma reshape_opaque_weight:
  assumes "(k, c) \<in> set (reshape_opaque object)"
  shows "json_weight c < json_weight (JObject object)"
  using reshape_opaque_children [OF assms] readable_reasoning_weight [of object] weight_object_child [of k c object]
  by (auto simp: summary_of_def)

definition keeps_opaque_item :: "json \<Rightarrow> bool" where
  "keeps_opaque_item child \<longleftrightarrow>
     \<not> is_reasoning_item child
     \<or> reasoning_has_summary_text (json_get child ''summary'') \<or> nonempty_json_string (json_get child ''content'')"

function strip_opaque_reasoning_keep_summary :: "json \<Rightarrow> json" where
  "strip_opaque_reasoning_keep_summary v =
     (case v of
        JObject object \<Rightarrow>
          JObject (map (\<lambda>(k, c). (k, strip_opaque_reasoning_keep_summary c)) (reshape_opaque object))
      | JArray xs \<Rightarrow> JArray (filter keeps_opaque_item (map strip_opaque_reasoning_keep_summary xs))
      | _ \<Rightarrow> v)"
  by pat_completeness auto
termination
  by (relation "measure json_weight")
    (auto simp del: json_weight.simps intro: weight_array_child reshape_opaque_weight)

declare strip_opaque_reasoning_keep_summary.simps [simp del]

function strip_cross_realm_fields_for_official :: "json \<Rightarrow> json" where
  "strip_cross_realm_fields_for_official v =
     (case v of
        JObject object \<Rightarrow>
          JObject (map (\<lambda>(k, c). (k, strip_cross_realm_fields_for_official c)) (obj_remove ''reasoning_content'' object))
      | JArray xs \<Rightarrow>
          JArray (map strip_cross_realm_fields_for_official (filter (\<lambda>x. \<not> is_reasoning_item x) xs))
      | _ \<Rightarrow> v)"
  by pat_completeness auto
termination
  by (relation "measure json_weight")
    (auto simp del: json_weight.simps intro: weight_array_child weight_kept_object_child [OF subset_refl]
      dest!: subsetD [OF obj_remove_subset])

declare strip_cross_realm_fields_for_official.simps [simp del]

definition keeps_official_item :: "json \<Rightarrow> bool" where
  "keeps_official_item child \<longleftrightarrow>
     \<not> is_reasoning_item child
     \<or> ((case get_str child ''id'' of Some i \<Rightarrow> starts_with i ''rs_'' | None \<Rightarrow> False)
        \<and> (case get_str child ''encrypted_content'' of Some t \<Rightarrow> trim t \<noteq> [] | None \<Rightarrow> False))"

definition reshape_official ::
  "(string \<Rightarrow> string) \<Rightarrow> (string \<times> json) list \<Rightarrow> (string \<times> json) list"
where
  "reshape_official sha_hex object = normalize_official_item_id sha_hex (obj_remove ''reasoning_content'' object)"

lemma normalize_official_item_id_children:
  "(k, c) \<in> set (normalize_official_item_id sha_hex object) \<Longrightarrow>
     (k, c) \<in> set object \<or> (k = ''id'' \<and> (\<exists>s. c = JString s) \<and> object \<noteq> [])"
  using set_obj_insert [of "''id''" _ object]
  by (auto simp: normalize_official_item_id_def obj_str_def split: option.splits if_splits
      dest!: subsetD [OF obj_remove_subset])

lemma reshape_official_weight:
  assumes "(k, c) \<in> set (reshape_official sha_hex object)"
  shows "json_weight c < json_weight (JObject object)"
proof -
  have "(k, c) \<in> set object \<or> ((\<exists>s. c = JString s) \<and> object \<noteq> [])"
    using normalize_official_item_id_children [OF assms [unfolded reshape_official_def]]
      obj_remove_subset [of "''reasoning_content''" object] by (cases object) auto
  then show ?thesis
  proof
    assume "(k, c) \<in> set object"
    then show ?thesis by (rule weight_kept_object_child [OF subset_refl])
  next
    assume c: "(\<exists>s. c = JString s) \<and> object \<noteq> []"
    then obtain p rest where "object = p # rest" by (cases object) auto
    moreover have "0 < json_weight v" for v by (cases v) auto
    ultimately show ?thesis using c by (cases p) auto
  qed
qed

function sanitize_for_official :: "(string \<Rightarrow> string) \<Rightarrow> json \<Rightarrow> json" where
  "sanitize_for_official sha_hex v =
     (case v of
        JObject object \<Rightarrow>
          JObject (map (\<lambda>(k, c). (k, sanitize_for_official sha_hex c)) (reshape_official sha_hex object))
      | JArray xs \<Rightarrow> JArray (map (sanitize_for_official sha_hex) (filter keeps_official_item xs))
      | _ \<Rightarrow> v)"
  by pat_completeness auto
termination
  by (relation "measure (\<lambda>(s, v). json_weight v)")
    (auto simp del: json_weight.simps intro: weight_array_child reshape_official_weight)

declare sanitize_for_official.simps [simp del]

fun contains_vellum_synthetic_item :: "json \<Rightarrow> bool" where
  "contains_vellum_synthetic_item (JObject object) \<longleftrightarrow>
     (case obj_str object ''id'' of Some i \<Rightarrow> starts_with i ''resp_vellum_'' | None \<Rightarrow> False)
     \<or> list_ex (\<lambda>(k, v). contains_vellum_synthetic_item v) object"
| "contains_vellum_synthetic_item (JArray xs) = list_ex contains_vellum_synthetic_item xs"
| "contains_vellum_synthetic_item v = False"

section \<open>What an accepted patch says\<close>

lemma trim_nonblank:
  assumes "byte_val c < 128" "\<not> is_whitespace [c]"
  shows "trim (c # cs) \<noteq> []"
proof -
  have w: "utf8_width c = 1" using assms(1) by (simp add: utf8_width_def)
  let ?xs = "[c] # chars cs"
  have "[c] \<in> set (drop_end_while is_whitespace ?xs)"
    unfolding drop_end_while_def using assms(2)
    by (simp add: dropWhile_append)
  then have "concat (drop_end_while is_whitespace ?xs) \<noteq> []" by auto
  then show ?thesis using w assms(2) by (simp add: trim_def)
qed

lemma trim_sign: "starts_with line ''+'' \<or> starts_with line ''-'' \<Longrightarrow> trim line \<noteq> []"
proof -
  assume "starts_with line ''+'' \<or> starts_with line ''-''"
  then obtain c cs where "line = c # cs" "c \<in> {CHR ''+'', CHR ''-''}"
    by (cases line) (auto simp: starts_with_def)
  then show "trim line \<noteq> []"
    using trim_nonblank [of c cs] by (auto simp: byte_val_def is_whitespace_def)
qed

definition state_changes :: "patch_state \<Rightarrow> file_change list" where
  "state_changes st = fst st @ (case snd st of Some c \<Rightarrow> [c] | None \<Rightarrow> [])"

definition total_added :: "file_change list \<Rightarrow> nat" where
  "total_added cs = sum_list (map added_lines cs)"

definition total_removed :: "file_change list \<Rightarrow> nat" where
  "total_removed cs = sum_list (map removed_lines cs)"

text \<open>What holds of a section under construction, and what a finished one adds.\<close>

definition section_ok :: "file_change \<Rightarrow> bool" where
  "section_ok c \<longleftrightarrow> fc_path c \<noteq> [] \<and> (fc_kind c = Delete \<longrightarrow> added_lines c = 0 \<and> removed_lines c = 0) \<and>
     (fc_kind c = Add \<longrightarrow> removed_lines c = 0)"

definition section_done :: "file_change \<Rightarrow> bool" where
  "section_done c \<longleftrightarrow> section_ok c \<and> (fc_kind c \<noteq> Delete \<longrightarrow> 0 < added_lines c + removed_lines c)"

definition patch_inv :: "patch_state \<Rightarrow> bool" where
  "patch_inv st \<longleftrightarrow> list_all section_done (fst st) \<and> (case snd st of Some c \<Rightarrow> section_ok c | None \<Rightarrow> True)"

lemma validate_change_done: "section_ok c \<Longrightarrow> validate_change c = Inr u \<Longrightarrow> section_done c"
  by (cases "fc_kind c") (auto simp: section_ok_def section_done_def validate_change_def split: if_splits)

lemma push_change_inv:
  assumes "push_change path kind number st = Inr st'" "patch_inv st"
  shows "patch_inv st' \<and> total_added (state_changes st') = total_added (state_changes st) \<and>
    total_removed (state_changes st') = total_removed (state_changes st)"
proof -
  let ?new = "\<lparr>fc_path = trim path, fc_kind = kind, added_lines = 0, removed_lines = 0\<rparr>"
  have new: "section_ok ?new" if "trim path \<noteq> []"
    using that by (simp add: section_ok_def)
  show ?thesis
  proof (cases "snd st")
    case None
    with assms new show ?thesis
      by (auto simp: push_change_def patch_inv_def state_changes_def total_added_def total_removed_def split: if_splits)
  next
    case (Some c)
    with assms have "section_done c"
      by (auto simp: push_change_def patch_inv_def intro: validate_change_done split: if_splits sum.splits)
    with Some assms new show ?thesis
      by (auto simp: push_change_def patch_inv_def state_changes_def total_added_def total_removed_def
          split: if_splits sum.splits)
  qed
qed

lemma body_line_inv:
  assumes "body_line line number c = Inr c'" "section_ok c"
  shows "section_ok c' \<and> added_lines c' = added_lines c + of_bool (starts_with line ''+'') \<and>
    removed_lines c' = removed_lines c + of_bool (starts_with line ''-'')"
proof (cases "fc_kind c")
  case Add
  with assms show ?thesis
    using trim_sign [of line]
    by (auto simp: body_line_def section_ok_def starts_with_def split: if_splits)
next
  case Update
  with assms show ?thesis
    by (cases line) (auto simp: body_line_def section_ok_def starts_with_def split: if_splits)
next
  case Delete
  with assms show ?thesis
    using trim_sign [of line]
    by (auto simp: body_line_def section_ok_def split: if_splits)
qed

lemma patch_line_inv:
  assumes "patch_line line number st = Inr st'" "patch_inv st"
  shows "patch_inv st' \<and>
    total_added (state_changes st') = total_added (state_changes st) + of_bool (starts_with line ''+'') \<and>
    total_removed (state_changes st') = total_removed (state_changes st) + of_bool (starts_with line ''-'')"
proof (cases "\<exists>path kind. push_change path kind number st = Inr st' \<and> starts_with line ''***''")
  case True
  then obtain path kind where p: "push_change path kind number st = Inr st'" and line: "starts_with line ''***''"
    by blast
  from line have "\<not> starts_with line ''+''" "\<not> starts_with line ''-''"
    by (auto simp: starts_with_iff)
  with push_change_inv [OF p assms(2)] show ?thesis by simp
next
  case False
  have "strip_prefix line ''*** Update File: '' = None" "strip_prefix line ''*** Add File: '' = None"
    "strip_prefix line ''*** Delete File: '' = None"
    using False assms(1)
    by (auto simp: patch_line_def strip_prefix_def starts_with_iff split: if_splits option.splits)
  with assms False obtain c c' where c: "snd st = Some c" "body_line line number c = Inr c'" "st' = (fst st, Some c')"
    by (auto simp: patch_line_def split: if_splits option.splits sum.splits)
  with assms(2) body_line_inv [OF c(2)] show ?thesis
    by (auto simp: patch_inv_def state_changes_def total_added_def total_removed_def)
qed

lemma patch_lines_inv:
  "patch_lines ls number st = Inr st' \<Longrightarrow> patch_inv st \<Longrightarrow> patch_inv st' \<and>
     total_added (state_changes st') = total_added (state_changes st) + length (filter (\<lambda>l. starts_with l ''+'') ls) \<and>
     total_removed (state_changes st') = total_removed (state_changes st) + length (filter (\<lambda>l. starts_with l ''-'') ls)"
proof (induction ls arbitrary: number st)
  case (Cons l ls)
  from Cons.prems(1) obtain st1 where st1: "patch_line l number st = Inr st1"
    and rest: "patch_lines ls (number + 1) st1 = Inr st'"
    by (auto split: sum.splits)
  note l = patch_line_inv [OF st1 Cons.prems(2)]
  with Cons.IH [OF rest] show ?case by auto
qed simp

lemma position_Some: "position P xs = Some i \<Longrightarrow> i < length xs \<and> P (xs ! i) \<and> (\<forall>j < i. \<not> P (xs ! j))"
proof (induction xs arbitrary: i)
  case (Cons x xs)
  then show ?case by (cases i) (auto split: if_splits simp: less_Suc_eq_0_disj)
qed simp

lemma position_None: "position P xs = None \<longleftrightarrow> (\<forall>x \<in> set xs. \<not> P x)"
  by (induction xs) auto

lemma rposition_Some:
  assumes "rposition P xs = Some l"
  shows "l < length xs \<and> P (xs ! l) \<and> (\<forall>j. l < j \<longrightarrow> j < length xs \<longrightarrow> \<not> P (xs ! j))"
proof -
  from assms obtain i where i: "position P (rev xs) = Some i" and l: "l = length xs - 1 - i"
    by (auto simp: rposition_def)
  from position_Some [OF i] have i': "i < length xs" "P (rev xs ! i)" "\<And>j. j < i \<Longrightarrow> \<not> P (rev xs ! j)"
    by auto
  have "\<not> P (xs ! j)" if "l < j" "j < length xs" for j
    using i'(3) [of "length xs - 1 - j"] i'(1) that l by (simp add: rev_nth)
  with i' l show ?thesis by (simp add: rev_nth)
qed

text \<open>
  An accepted patch is what its summary says: it starts and ends with the delimiters on different
  lines (so the slice between them exists), it has at least one section, every section has a path and
  a body its kind allows, and the added and removed lines of the summary are exactly the \<open>+\<close> and
  \<open>-\<close> lines of the document between the delimiters.
\<close>

theorem accepted_patch_exact:
  assumes "validate_patch patch = Inr changes"
  shows "changes \<noteq> [] \<and>
    (\<forall>c \<in> set changes. fc_path c \<noteq> [] \<and>
       (case fc_kind c of
          Add \<Rightarrow> 0 < added_lines c \<and> removed_lines c = 0
        | Update \<Rightarrow> 0 < added_lines c + removed_lines c
        | Delete \<Rightarrow> added_lines c = 0 \<and> removed_lines c = 0)) \<and>
    (\<exists>first last. first < last \<and> last < length (lines patch) \<and>
       trim_end (lines patch ! first) = BEGIN_PATCH \<and> trim_end (lines patch ! last) = END_PATCH \<and>
       (let body = take (last - (first + 1)) (drop (first + 1) (lines patch)) in
        total_added changes = length (filter (\<lambda>l. starts_with l ''+'') body) \<and>
        total_removed changes = length (filter (\<lambda>l. starts_with l ''-'') body)))"
proof -
  let ?ls = "lines patch"
  from assms obtain first where first: "position nonblank ?ls = Some first"
    by (auto simp: validate_patch_def Let_def split: option.splits)
  note f = position_Some [OF first]
  have "rposition nonblank ?ls \<noteq> None"
    using f by (auto simp: rposition_def position_None)
  then obtain last where last: "rposition nonblank ?ls = Some last" by auto
  note l = rposition_Some [OF last]
  let ?body = "take (last - (first + 1)) (drop (first + 1) ?ls)"
  from assms first last have delims: "trim_end (?ls ! first) = BEGIN_PATCH" "trim_end (?ls ! last) = END_PATCH"
    by (auto simp: validate_patch_def Let_def split: if_splits)
  with assms first last obtain done' current where run: "patch_lines ?body (first + 2) ([], None) = Inr (done', current)"
    and fin: "(case current of
        Some change \<Rightarrow> map_sum (\<lambda>e. e) (\<lambda>_. done' @ [change]) (validate_change change)
      | None \<Rightarrow> Inr done') = Inr changes" and ne: "changes \<noteq> []"
    by (auto simp: validate_patch_def Let_def split: if_splits sum.splits)
  have inv: "patch_inv (done', current)"
      "total_added (state_changes (done', current)) = length (filter (\<lambda>l. starts_with l ''+'') ?body)"
      "total_removed (state_changes (done', current)) = length (filter (\<lambda>l. starts_with l ''-'') ?body)"
    using patch_lines_inv [OF run] by (auto simp: patch_inv_def state_changes_def total_added_def total_removed_def)
  have changes: "changes = state_changes (done', current)" "list_all section_done changes"
  proof -
    show "changes = state_changes (done', current)"
      using fin by (cases current) (auto simp: state_changes_def map_sum_def split: sum.splits)
    show "list_all section_done changes"
    proof (cases current)
      case None
      with fin inv(1) show ?thesis by (simp add: patch_inv_def)
    next
      case (Some c)
      with fin obtain u where "validate_change c = Inr u" "changes = done' @ [c]"
        by (cases "validate_change c") auto
      with Some inv(1) show ?thesis by (auto simp: patch_inv_def intro: validate_change_done)
    qed
  qed
  have "first \<le> last" using f l by (metis linorder_not_less)
  moreover have "first \<noteq> last" using delims by (auto simp: BEGIN_PATCH_def END_PATCH_def)
  ultimately have "first < last" by simp
  moreover have "\<forall>c \<in> set changes. fc_path c \<noteq> [] \<and>
       (case fc_kind c of
          Add \<Rightarrow> 0 < added_lines c \<and> removed_lines c = 0
        | Update \<Rightarrow> 0 < added_lines c + removed_lines c
        | Delete \<Rightarrow> added_lines c = 0 \<and> removed_lines c = 0)"
    using changes(2) by (auto simp: list_all_iff section_done_def section_ok_def split: file_change_kind.splits)
  ultimately show ?thesis
    unfolding Let_def
    by (intro conjI ne exI [of _ first] exI [of _ last])
      (use l delims inv(2,3) changes(1) in \<open>simp_all add: Let_def\<close>)
qed

theorem accepted_patch_exact_witness:
  "let patch = ''*** Begin Patch'' @ [CHR 0x0A] @ ''*** Add File: a'' @ [CHR 0x0A] @ ''+x'' @ [CHR 0x0A] @ ''*** End Patch'' in
   \<exists>changes. validate_patch patch = Inr changes \<and> total_added changes = 1"
proof -
  let ?p = "''*** Begin Patch'' @ [CHR 0x0A] @ ''*** Add File: a'' @ [CHR 0x0A] @ ''+x'' @ [CHR 0x0A] @ ''*** End Patch''"
  let ?c = "[\<lparr>fc_path = ''a'', fc_kind = Add, added_lines = 1, removed_lines = 0\<rparr>]"
  have "validate_patch ?p = Inr ?c" by code_simp
  from accepted_patch_exact [OF this] show ?thesis
    using \<open>validate_patch ?p = Inr ?c\<close> by (auto simp: Let_def total_added_def)
qed

section \<open>What the scrubbers guarantee\<close>

lemma json_wf_child: "json_wf (JObject kvs) \<Longrightarrow> (k, c) \<in> set kvs \<Longrightarrow> json_wf c"
  by (auto simp: list_all_iff)

lemma get_str_object: "get_str (JObject kvs) k = obj_str kvs k"
  by (simp add: get_str_def obj_str_def)

text \<open>A rewriting that maps strings to themselves keeps every string field of a reshaped object.\<close>

lemma obj_str_map:
  assumes "\<And>v. json_as_str (f v) = json_as_str v"
  shows "obj_str (map (\<lambda>(k, c). (k, f c)) kvs) k = obj_str kvs k"
  by (simp add: obj_str_def map_of_map_snd bind_map_option o_def assms cong: bind_option_cong)

lemma is_reasoning_item_object: "is_reasoning_item (JObject kvs) = is_reasoning kvs"
  by (simp add: is_reasoning_item_def is_reasoning_def get_str_def)

lemma is_reasoning_str: "is_reasoning kvs \<longleftrightarrow> obj_str kvs ''type'' = Some ''reasoning''"
  by (simp add: is_reasoning_def obj_str_def)

lemma scrub_as_str:
  "json_as_str (strip_cross_realm_fields v) = json_as_str v"
  "json_as_str (strip_cross_realm_fields_for_official v) = json_as_str v"
  "json_as_str (strip_opaque_reasoning_keep_summary v) = json_as_str v"
  "json_as_str (sanitize_for_official sha_hex v) = json_as_str v"
  by (cases v; simp add: strip_cross_realm_fields.simps strip_cross_realm_fields_for_official.simps
      strip_opaque_reasoning_keep_summary.simps sanitize_for_official.simps)+

lemma strip_cross_realm_fields_scalar: "is_scalar_json v \<Longrightarrow> strip_cross_realm_fields v = v"
  by (cases v) (simp_all add: strip_cross_realm_fields.simps is_scalar_json_def)

lemma strip_opaque_reasoning_keep_summary_scalar: "is_scalar_json v \<Longrightarrow> strip_opaque_reasoning_keep_summary v = v"
  by (cases v) (simp_all add: strip_opaque_reasoning_keep_summary.simps is_scalar_json_def)

lemma sanitize_for_official_scalar: "is_scalar_json v \<Longrightarrow> sanitize_for_official sha_hex v = v"
  by (cases v) (simp_all add: sanitize_for_official.simps is_scalar_json_def)

lemmas scrub_obj_str = scrub_as_str [THEN obj_str_map]

lemma obj_str_remove: "distinct (map fst kvs) \<Longrightarrow> obj_str (obj_remove j kvs) k = (if k = j then None else obj_str kvs k)"
  by (simp add: obj_str_def map_of_obj_remove)

lemma obj_str_insert: "obj_str (obj_insert j v kvs) k = (if k = j then json_as_str v else obj_str kvs k)"
  by (simp add: obj_str_def map_of_obj_insert)

text \<open>The strict scrubber: no reasoning item in any array, no opaque field in any object.\<close>

fun cross_realm_clean :: "json \<Rightarrow> bool" where
  "cross_realm_clean (JObject kvs) \<longleftrightarrow> map_of kvs ''reasoning_content'' = None \<and> map_of kvs ''encrypted_content'' = None"
| "cross_realm_clean (JArray xs) \<longleftrightarrow> list_all (\<lambda>x. \<not> is_reasoning_item x) xs"
| "cross_realm_clean v \<longleftrightarrow> True"

lemma strip_cross_realm_reasoning:
  assumes "json_wf x"
  shows "is_reasoning_item (strip_cross_realm_fields x) = is_reasoning_item x"
proof (cases x)
  case (JObject kvs)
  with assms show ?thesis
    by (simp add: strip_cross_realm_fields.simps [of "JObject kvs"] is_reasoning_item_object is_reasoning_str scrub_obj_str
        obj_str_remove distinct_obj_remove)
qed (simp_all add: strip_cross_realm_fields.simps is_reasoning_item_def get_str_def)

interpretation strict: json_rewriting strip_cross_realm_fields
  "\<lambda>kvs. obj_remove ''encrypted_content'' (obj_remove ''reasoning_content'' kvs)"
  "filter (\<lambda>x. \<not> is_reasoning_item x)" "\<lambda>xs. xs" cross_realm_clean
proof (unfold_locales, goal_cases)
  case (6 kvs k c)
  then have "(k, c) \<in> set kvs" by (auto dest!: subsetD [OF obj_remove_subset])
  with 6 show ?case by (auto intro: json_wf_child weight_kept_object_child [OF subset_refl] simp del: json_wf.simps json_weight.simps)
next
  case (7 kvs)
  then show ?case
    by (simp add: strip_cross_realm_fields.simps [of "JObject kvs"] map_of_map_snd map_of_obj_remove distinct_obj_remove)
next
  case (8 xs)
  then show ?case
    by (auto simp: strip_cross_realm_fields.simps [of "JArray xs"] list_all_iff strip_cross_realm_reasoning)
qed (auto simp: strip_cross_realm_fields_scalar strip_cross_realm_fields.simps [of "JObject kvs" for kvs] strip_cross_realm_fields.simps [of "JArray xs" for xs]
    is_scalar_json_def split: json.splits)

text \<open>The portable scrubber: readable summaries only.\<close>

fun summaries_only :: "json \<Rightarrow> bool" where
  "summaries_only (JObject kvs) \<longleftrightarrow>
     map_of kvs ''reasoning_content'' = None \<and> map_of kvs ''encrypted_content'' = None \<and>
     (is_reasoning kvs \<longrightarrow> map_of kvs ''content'' = None)"
| "summaries_only (JArray xs) \<longleftrightarrow>
     list_all (\<lambda>x. is_reasoning_item x \<longrightarrow> reasoning_has_summary_text (json_get x ''summary'')) xs"
| "summaries_only v \<longleftrightarrow> True"

lemma distinct_opaque_summary: "distinct (map fst kvs) \<Longrightarrow> distinct (map fst (opaque_summary kvs))"
  by (simp add: opaque_summary_def distinct_obj_insert split: option.splits)

lemma strip_opaque_object:
  assumes "json_wf (JObject kvs)"
  shows "summaries_only (strip_opaque_reasoning_keep_summary (JObject kvs))"
proof -
  let ?o = "obj_remove ''reasoning_content'' (obj_remove ''encrypted_content'' (opaque_summary kvs))"
  have d: "distinct (map fst (opaque_summary kvs))"
    using assms by (simp add: distinct_opaque_summary)
  then have "distinct (map fst ?o)" by (simp add: distinct_obj_remove)
  with d show ?thesis
    by (auto simp: strip_opaque_reasoning_keep_summary.simps [of "JObject kvs"] reshape_opaque_def Let_def map_of_map_snd
        map_of_obj_remove distinct_obj_remove is_reasoning_str scrub_obj_str obj_str_remove)
qed

interpretation portable: json_rewriting strip_opaque_reasoning_keep_summary reshape_opaque
  "\<lambda>xs. xs" "filter keeps_opaque_item" summaries_only
proof (unfold_locales, goal_cases)
  case (6 kvs k c)
  then have "json_wf c"
    using reshape_opaque_children [of k c kvs] json_wf_child [of kvs k c] by (auto simp: summary_of_def)
  with 6 show ?case by (auto intro: reshape_opaque_weight simp del: json_weight.simps)
next
  case (7 kvs)
  then show ?case by (rule strip_opaque_object)
next
  case (8 xs)
  have "reasoning_has_summary_text (json_get y ''summary'')"
    if x: "x \<in> set xs" "y = strip_opaque_reasoning_keep_summary x" and y: "keeps_opaque_item y" "is_reasoning_item y" for x y
  proof -
    obtain kvs where y': "y = JObject kvs" using y(2) by (cases y) (auto simp: is_reasoning_item_def get_str_def)
    then obtain kvs0 where "x = JObject kvs0"
      using x(2) by (cases x) (auto simp: strip_opaque_reasoning_keep_summary.simps)
    with x 8 have "summaries_only y" using strip_opaque_object [of kvs0] by (auto simp: list_all_iff)
    with y' y show ?thesis
      by (simp add: keeps_opaque_item_def is_reasoning_item_object nonempty_json_string_def)
  qed
  then show ?case
    by (auto simp: strip_opaque_reasoning_keep_summary.simps [of "JArray xs"] list_all_iff)
qed (auto simp: strip_opaque_reasoning_keep_summary_scalar strip_opaque_reasoning_keep_summary.simps [of "JObject kvs" for kvs] strip_opaque_reasoning_keep_summary.simps [of "JArray xs" for xs]
    is_scalar_json_def split: json.splits)

text \<open>The official scrubber: encrypted reasoning of the official realm stays, identifiers are normalized.\<close>

definition official_id :: "string option \<Rightarrow> string \<Rightarrow> bool" where
  "official_id kind i =
     (case kind of
        None \<Rightarrow> True
      | Some t \<Rightarrow>
          (case expected_prefix t of
             Some p \<Rightarrow> starts_with i p
           | None \<Rightarrow> \<not> starts_with i ''resp_vellum_'' \<and> \<not> starts_with i ''call_''))"

fun official_clean :: "json \<Rightarrow> bool" where
  "official_clean (JObject kvs) \<longleftrightarrow>
     map_of kvs ''reasoning_content'' = None \<and>
     (\<forall>i. obj_str kvs ''id'' = Some i \<longrightarrow> official_id (obj_str kvs ''type'') i)"
| "official_clean (JArray xs) \<longleftrightarrow> list_all keeps_official_item xs"
| "official_clean v \<longleftrightarrow> True"

lemma starts_with_normalized: "starts_with (normalized_item_id sha_hex p i) p"
  by (simp add: normalized_item_id_def starts_with_def)

lemma normalize_id_other: "k \<noteq> ''id'' \<Longrightarrow> distinct (map fst kvs) \<Longrightarrow>
    map_of (normalize_official_item_id sha_hex kvs) k = map_of kvs k"
  by (simp add: normalize_official_item_id_def map_of_obj_insert map_of_obj_remove split: option.splits)

lemma normalize_id_clean:
  assumes "distinct (map fst kvs)" "obj_str (normalize_official_item_id sha_hex kvs) ''id'' = Some i"
  shows "official_id (obj_str kvs ''type'') i"
  using assms
  by (auto simp: normalize_official_item_id_def obj_str_insert obj_str_remove starts_with_normalized
      official_id_def split: option.splits if_splits)

lemma sanitize_object:
  assumes "json_wf (JObject kvs)"
  shows "official_clean (sanitize_for_official sha_hex (JObject kvs))"
proof -
  let ?o = "obj_remove ''reasoning_content'' kvs"
  have d: "distinct (map fst kvs)" "distinct (map fst ?o)" using assms by (simp_all add: distinct_obj_remove)
  have "obj_str (normalize_official_item_id sha_hex ?o) ''type'' = obj_str ?o ''type''"
    using normalize_id_other [of "''type''" ?o sha_hex] d by (simp add: obj_str_def)
  with d show ?thesis
    using normalize_id_clean [OF d(2), of sha_hex]
    by (auto simp: sanitize_for_official.simps [of sha_hex "JObject kvs"] reshape_official_def map_of_map_snd scrub_obj_str
        normalize_id_other map_of_obj_remove)
qed

lemma sanitize_keeps:
  assumes "json_wf x" "keeps_official_item x"
  shows "keeps_official_item (sanitize_for_official sha_hex x)"
proof (cases x)
  case (JObject kvs)
  let ?o = "obj_remove ''reasoning_content'' kvs"
  let ?n = "normalize_official_item_id sha_hex ?o"
  have d: "distinct (map fst kvs)" "distinct (map fst ?o)" using assms JObject by (simp_all add: distinct_obj_remove)
  have "obj_str ?n ''type'' = obj_str kvs ''type''" "obj_str ?n ''encrypted_content'' = obj_str kvs ''encrypted_content''"
    using normalize_id_other [OF _ d(2), of _ sha_hex] by (simp_all add: obj_str_def map_of_obj_remove d)
  moreover have "obj_str ?n ''id'' = obj_str kvs ''id''"
    if "obj_str kvs ''type'' = Some ''reasoning''" "obj_str kvs ''id'' = Some i" "starts_with i ''rs_''" for i
    using that by (simp add: normalize_official_item_id_def obj_str_remove d obj_str_insert expected_prefix_def
        normalized_item_id_def)
  ultimately show ?thesis
    using assms(2) JObject
    by (auto simp: keeps_official_item_def is_reasoning_item_def sanitize_for_official.simps [of sha_hex "JObject kvs"]
        reshape_official_def get_str_object scrub_obj_str split: option.splits)
qed (simp_all add: keeps_official_item_def is_reasoning_item_def get_str_def sanitize_for_official.simps)

interpretation official: json_rewriting "sanitize_for_official sha_hex" "reshape_official sha_hex"
  "filter keeps_official_item" "\<lambda>xs. xs" official_clean for sha_hex
proof (unfold_locales, goal_cases)
  case (6 kvs k c)
  then have "json_wf c"
    using normalize_official_item_id_children [of k c sha_hex "obj_remove ''reasoning_content'' kvs"]
      obj_remove_subset [of "''reasoning_content''" kvs] json_wf_child [of kvs k c]
    by (auto simp: reshape_official_def)
  with 6 show ?case by (auto intro: reshape_official_weight simp del: json_weight.simps)
next
  case (7 kvs)
  then show ?case by (rule sanitize_object)
next
  case (8 xs)
  then show ?case
    by (auto simp: sanitize_for_official.simps [of _ "JArray xs"] list_all_iff sanitize_keeps)
qed (auto simp: sanitize_for_official_scalar sanitize_for_official.simps [of sha_hex "JObject kvs" for kvs] sanitize_for_official.simps [of sha_hex "JArray xs" for xs]
    is_scalar_json_def split: json.splits)

interpretation strict_minimal: minimal_rewriting strip_cross_realm_fields
  "\<lambda>kvs. obj_remove ''encrypted_content'' (obj_remove ''reasoning_content'' kvs)"
  "filter (\<lambda>x. \<not> is_reasoning_item x)" "\<lambda>xs. xs" cross_realm_clean
  by unfold_locales (auto simp: obj_remove_absent list_all_iff)

interpretation portable_minimal: minimal_rewriting strip_opaque_reasoning_keep_summary reshape_opaque
  "\<lambda>xs. xs" "filter keeps_opaque_item" summaries_only
proof (unfold_locales, goal_cases)
  case (1 kvs)
  then have "opaque_summary kvs = kvs" by (auto simp: opaque_summary_def readable_reasoning_def or_else_def)
  with 1 show ?case by (auto simp: reshape_opaque_def Let_def obj_remove_absent)
next
  case (2 xs)
  then show ?case by (auto simp: keeps_opaque_item_def list_all_iff)
qed

text \<open>
  C33: A conversation leaves its provider's realm without its secrets. After the strict scrubber no array at
  any depth has a reasoning item as an element and no object at any depth carries \<open>reasoning_content\<close> or
  \<open>encrypted_content\<close>; after the portable one every reasoning item left in an array has a readable
  summary and nothing opaque. A value that is clean in this sense is not changed at all.
\<close>

theorem realm_scrubbers_clean:
  assumes "json_wf v"
  shows "json_all cross_realm_clean (strip_cross_realm_fields v) \<and>
    json_all summaries_only (strip_opaque_reasoning_keep_summary v) \<and>
    (json_all cross_realm_clean v \<longrightarrow> strip_cross_realm_fields v = v) \<and>
    (json_all summaries_only v \<longrightarrow> strip_opaque_reasoning_keep_summary v = v)"
  using strict.rewrite_everywhere [OF assms] portable.rewrite_everywhere [OF assms]
    strict_minimal.rewrite_clean [OF assms] portable_minimal.rewrite_clean [OF assms] by blast

text \<open>An item that is the value of a field, not an element of an array, is left where it is.\<close>

lemma reasoning_in_field_survives:
  "strip_cross_realm_fields (JObject [(''item'', JObject [(''type'', JString ''reasoning'')])]) =
     JObject [(''item'', JObject [(''type'', JString ''reasoning'')])]"
  by code_simp

definition sample_conversation :: json where
  "sample_conversation =
     JObject [(''input'', JArray [JObject [(''type'', JString ''reasoning''), (''encrypted_content'', JString ''x'')],
       JObject [(''role'', JString ''user''), (''content'', JString ''hi'')]])]"

theorem realm_scrubbers_clean_witness:
  "json_all summaries_only (strip_opaque_reasoning_keep_summary sample_conversation) \<and>
   json_all cross_realm_clean (strip_cross_realm_fields sample_conversation) \<and>
   strip_cross_realm_fields sample_conversation =
     JObject [(''input'', JArray [JObject [(''role'', JString ''user''), (''content'', JString ''hi'')]])]"
proof -
  have "json_wf sample_conversation" by (simp add: sample_conversation_def)
  moreover have "strip_cross_realm_fields sample_conversation =
     JObject [(''input'', JArray [JObject [(''role'', JString ''user''), (''content'', JString ''hi'')]])]" by code_simp
  ultimately show ?thesis using realm_scrubbers_clean [of sample_conversation] by blast
qed

text \<open>
  What enters the official realm is in its form: \<open>sanitize_for_official\<close> leaves in arrays only
  reasoning items with an official identifier and nonempty ciphertext, removes \<open>reasoning_content\<close>
  everywhere, and gives every item with a known type an identifier with the prefix of that type.
\<close>

theorem official_sanitizer_clean:
  assumes "json_wf v"
  shows "json_all official_clean (sanitize_for_official sha_hex v)"
  by (rule official.rewrite_everywhere [OF assms])

theorem official_sanitizer_clean_witness:
  "json_all official_clean (sanitize_for_official (\<lambda>_. ''0123'')
     (JArray [JObject [(''type'', JString ''message''), (''id'', JString ''resp_vellum_1'')]]))"
  using official_sanitizer_clean [of "JArray [JObject [(''type'', JString ''message''), (''id'', JString ''resp_vellum_1'')]]"
    "\<lambda>_. ''0123''"]
  by simp

section \<open>Namespaces\<close>

lemma namespace_split_Some:
  "namespace_split c name = Some (ns, child) \<Longrightarrow> (ns, child) \<in> set c \<and> flatten_namespace_name ns child = name"
  by (auto simp: namespace_split_def find_map_Some_split split: if_splits)

lemma namespace_split_unique:
  assumes "(ns, child) \<in> set c" "inj_on (\<lambda>(ns, child). flatten_namespace_name ns child) (set c)"
  shows "namespace_split c (flatten_namespace_name ns child) = Some (ns, child)"
proof (cases "namespace_split c (flatten_namespace_name ns child)")
  case None
  with assms(1) show ?thesis
    by (auto simp: namespace_split_def find_map_None_iff split: if_splits dest: bspec)
next
  case (Some p)
  then obtain ns' child' where p: "p = (ns', child')" by (cases p)
  from namespace_split_Some [OF Some [unfolded p]] have "(ns', child') \<in> set c"
    "flatten_namespace_name ns' child' = flatten_namespace_name ns child" by auto
  with assms have "(ns', child') = (ns, child)"
    by (auto dest!: inj_onD [where x = "(ns', child')" and y = "(ns, child)"])
  with Some p show ?thesis by simp
qed

text \<open>
  A namespaced tool call survives the flattening: where no two declared tools flatten to one name, a
  provider's call of the flattened name is restored to the declared namespace and child, whatever the
  iteration order of the set; every other item is left alone.
\<close>

theorem namespace_roundtrip:
  assumes "(ns, child) \<in> set c" and "inj_on (\<lambda>(ns, child). flatten_namespace_name ns child) (set c)"
    and "get_str (JObject object) ''type'' = Some ''function_call''"
    and "get_str (JObject object) ''name'' = Some (flatten_namespace_name ns child)"
  shows "\<exists>object'. restore_item c (JObject object) = (True, JObject object') \<and>
    obj_str object' ''namespace'' = Some ns \<and> obj_str object' ''name'' = Some child \<and>
    (\<forall>k. k \<noteq> ''namespace'' \<longrightarrow> k \<noteq> ''name'' \<longrightarrow> map_of object' k = map_of object k)"
  using assms(3,4) namespace_split_unique [OF assms(1,2)]
  by (simp add: restore_item_def obj_str_insert map_of_obj_insert)

theorem namespace_roundtrip_witness:
  "\<exists>object'. restore_item [(''web'', ''run'')] (JObject [(''type'', JString ''function_call''), (''name'', JString ''web__run'')])
     = (True, JObject object') \<and> obj_str object' ''namespace'' = Some ''web'' \<and> obj_str object' ''name'' = Some ''run''"
  using namespace_roundtrip [of "''web''" "''run''" "[(''web'', ''run'')]"
    "[(''type'', JString ''function_call''), (''name'', JString ''web__run'')]"]
  by (auto simp: get_str_def flatten_namespace_name_def)

text \<open>
  Without that condition the result depends on the iteration order of the \<open>HashSet\<close>: two declared
  tools can flatten to the same name, and either may be restored.
\<close>

theorem namespace_flattening_ambiguous:
  "namespace_split [(''a'', ''b__c''), (''a__b'', ''c'')] ''a__b__c'' = Some (''a'', ''b__c'') \<and>
   namespace_split [(''a__b'', ''c''), (''a'', ''b__c'')] ''a__b__c'' = Some (''a__b'', ''c'')"
  by (simp add: namespace_split_def flatten_namespace_name_def)

end
