(* ===== verification/Sse_Normalizer.thy ===== *)
theory Sse_Normalizer
  imports Adapter
begin

text \<open>
  The third-party SSE normalizer \<open>ThirdPartySseNormalizer\<close> of
  \<open>crates/vellum-proxy-runtime/src/streaming.rs\<close>: every upstream block goes through \<open>push_block\<close>,
  which validates it, drops replays by sequence number, cleans it, restores Codex tool items, holds
  back finished messages until their phase is known, and prints what the client sees.

  Hash maps are maps, hash sets are lists without duplicates. Parameters: \<open>from_str\<close> and \<open>to_str\<close>
  (JSON), \<open>sha_hex\<close> (identifiers of restored items). Log lines are not modelled.
\<close>

section \<open>State\<close>

record native_custom_call =
  ncc_item_id :: string
  ncc_arguments :: string

definition default_custom_call :: native_custom_call where
  "default_custom_call = \<lparr>ncc_item_id = [], ncc_arguments = []\<rparr>"

record sse_normalizer =
  pending_message_done :: "json list"
  saw_function_call :: bool
  saw_visible_text :: bool
  payload_replay_heuristics :: bool
  seen_sequence_numbers :: "(string \<times> nat) list"
  last_text_deltas :: "nat \<times> nat \<rightharpoonup> string"
  completed_reasoning_summaries :: "string \<rightharpoonup> json"
  payload_replay_drops :: u64
  grok_doom_loop_triggers :: "string list"
  tool_context :: codex_tool_context
  namespace_context :: namespace_tool_context
  custom_calls :: "nat \<rightharpoonup> native_custom_call"
  tool_search_calls :: "nat list"

definition new_normalizer :: "json \<Rightarrow> bool \<Rightarrow> sse_normalizer" where
  "new_normalizer request heuristics =
     \<lparr>pending_message_done = [], saw_function_call = False, saw_visible_text = False,
      payload_replay_heuristics = heuristics, seen_sequence_numbers = [], last_text_deltas = Map.empty,
      completed_reasoning_summaries = Map.empty, payload_replay_drops = 0, grok_doom_loop_triggers = [],
      tool_context = tool_context_from_request request,
      namespace_context = namespace_context_from_request request,
      custom_calls = Map.empty, tool_search_calls = []\<rparr>"

section \<open>Doom-loop triggers\<close>

definition capture_trigger :: "json \<Rightarrow> string list \<Rightarrow> string list" where
  "capture_trigger trigger known =
     (case json_as_str trigger of
        Some t \<Rightarrow> if t \<in> set known then known else known @ [t]
      | None \<Rightarrow> known)"

definition capture_grok_doom_loop_triggers :: "json \<Rightarrow> sse_normalizer \<Rightarrow> sse_normalizer" where
  "capture_grok_doom_loop_triggers v n =
     (case Option.bind (or_else (json_pointer v [''doom_loop_check'', ''triggers''])
         (json_pointer v [''response'', ''doom_loop_check'', ''triggers''])) json_as_array of
        Some triggers \<Rightarrow> n\<lparr>grok_doom_loop_triggers := fold capture_trigger triggers (grok_doom_loop_triggers n)\<rparr>
      | None \<Rightarrow> n)"

text \<open>\<open>str::split_once\<close> at a character.\<close>

fun split_once :: "char \<Rightarrow> string \<Rightarrow> (string \<times> string) option" where
  "split_once d [] = None"
| "split_once d (c # cs) = (if c = d then Some ([], cs) else map_option (apfst ((#) c)) (split_once d cs))"

definition is_confident_trigger :: "string \<Rightarrow> bool" where
  "is_confident_trigger trigger =
     (case strip_prefix trigger ''tail_repetition:'' of
        None \<Rightarrow> False
      | Some rest \<Rightarrow>
          (case split_once CHR ''@'' rest of
             None \<Rightarrow> False
           | Some (threshold, channel) \<Rightarrow>
               channel = ''thinking'' \<and> (case parse_u32 threshold of Some t \<Rightarrow> t \<le> 8 | None \<Rightarrow> False)))"

definition take_confident_doom_loop_trigger :: "sse_normalizer \<Rightarrow> string option \<times> sse_normalizer" where
  "take_confident_doom_loop_trigger n =
     (case position is_confident_trigger (grok_doom_loop_triggers n) of
        None \<Rightarrow> (None, n)
      | Some i \<Rightarrow>
          (Some (grok_doom_loop_triggers n ! i),
           n\<lparr>grok_doom_loop_triggers :=
               take i (grok_doom_loop_triggers n) @ drop (Suc i) (grok_doom_loop_triggers n)\<rparr>))"

section \<open>Reasoning summaries for the journal\<close>

definition capture_reasoning_item :: "json \<Rightarrow> (string \<rightharpoonup> json) \<Rightarrow> string \<rightharpoonup> json" where
  "capture_reasoning_item item completed =
     (if get_str item ''type'' \<noteq> Some ''reasoning'' then completed
      else case (get_str item ''id'', json_get item ''summary'') of
             (Some i, Some summary) \<Rightarrow> completed(i \<mapsto> summary)
           | _ \<Rightarrow> completed)"

definition capture_response_reasoning :: "json \<Rightarrow> (string \<rightharpoonup> json) \<Rightarrow> string \<rightharpoonup> json" where
  "capture_response_reasoning response completed =
     (case get_array response ''output'' of
        Some outs \<Rightarrow> fold capture_reasoning_item outs completed
      | None \<Rightarrow> completed)"

definition restore_reasoning_item :: "(string \<rightharpoonup> json) \<Rightarrow> json \<Rightarrow> json" where
  "restore_reasoning_item completed item =
     (case get_str item ''id'' of
        None \<Rightarrow> item
      | Some i \<Rightarrow>
          (case completed i of
             None \<Rightarrow> item
           | Some summary \<Rightarrow> on_object (obj_insert ''summary'' summary) item))"

definition restore_full_reasoning_for_history :: "sse_normalizer \<Rightarrow> json \<Rightarrow> json" where
  "restore_full_reasoning_for_history n response =
     json_update ''output'' (map_array (restore_reasoning_item (completed_reasoning_summaries n))) response"

section \<open>The stages of \<open>push_block\<close>\<close>

definition phase_of :: "sse_normalizer \<Rightarrow> string" where
  "phase_of n = (if saw_function_call n then ''commentary'' else ''final_answer'')"

definition flush_pending :: "(json \<Rightarrow> string) \<Rightarrow> string \<Rightarrow> sse_normalizer \<Rightarrow> string list" where
  "flush_pending to_str phase n =
     map (\<lambda>pending. format_sse_value to_str ''response.output_item.done''
            (set_message_phase_at_pointer [''item''] phase pending)) (pending_message_done n)"

definition finish :: "(json \<Rightarrow> string) \<Rightarrow> sse_normalizer \<Rightarrow> string list \<times> sse_normalizer" where
  "finish to_str n = (flush_pending to_str (phase_of n) n, n\<lparr>pending_message_done := []\<rparr>)"

text \<open>The finished reasoning item of an \<open>output_item.done\<close> event.\<close>

definition note_reasoning_done :: "string \<Rightarrow> json \<Rightarrow> sse_normalizer \<Rightarrow> sse_normalizer" where
  "note_reasoning_done event v n =
     (if event = ''response.output_item.done'' \<and>
         Option.bind (json_pointer v [''item'', ''type'']) json_as_str = Some ''reasoning''
      then (case (Option.bind (json_pointer v [''item'', ''id'']) json_as_str, json_pointer v [''item'', ''summary'']) of
              (Some i, Some summary) \<Rightarrow>
                n\<lparr>completed_reasoning_summaries := (completed_reasoning_summaries n)(i \<mapsto> summary)\<rparr>
            | _ \<Rightarrow> n)
      else n)"

definition is_visible :: "string option \<Rightarrow> bool" where
  "is_visible t = (case t of Some s \<Rightarrow> trim s \<noteq> [] | None \<Rightarrow> False)"

definition index_of :: "json \<Rightarrow> string \<Rightarrow> nat" where
  "index_of v k = (case get_u64 v k of Some i \<Rightarrow> i | None \<Rightarrow> 0)"

text \<open>A text delta: dropped when blank or, for Grok without sequence numbers, when it repeats the last one.\<close>

definition text_delta :: "string \<Rightarrow> json \<Rightarrow> sse_normalizer \<Rightarrow> bool \<times> sse_normalizer" where
  "text_delta event v n =
     (if event \<noteq> ''response.output_text.delta'' then (False, n)
      else
        let delta = (case get_str v ''delta'' of Some d \<Rightarrow> d | None \<Rightarrow> []);
            key = (index_of v ''output_index'', index_of v ''content_index'')
        in if trim delta = [] then (True, n)
           else if payload_replay_heuristics n \<and> get_u64 v ''sequence_number'' = None
                \<and> last_text_deltas n key = Some delta
             then (True, n\<lparr>payload_replay_drops := saturating_add (payload_replay_drops n) 1\<rparr>)
             else (False, n\<lparr>last_text_deltas := (last_text_deltas n)(key \<mapsto> delta)\<rparr>))"

definition note_visible_text :: "string \<Rightarrow> json \<Rightarrow> sse_normalizer \<Rightarrow> sse_normalizer" where
  "note_visible_text event v n =
     (if (event = ''response.output_text.delta'' \<or> event = ''response.output_text.done'')
         \<and> is_visible (Option.bind (or_else (json_get v ''delta'') (json_get v ''text'')) json_as_str)
      then n\<lparr>saw_visible_text := True\<rparr> else n)"

text \<open>An item that was restored as a custom call: its identifier is kept, and an empty input is filled in.\<close>

definition restore_custom_item ::
  "(string \<Rightarrow> json option) \<Rightarrow> string \<Rightarrow> nat \<Rightarrow> string \<Rightarrow> json \<Rightarrow> sse_normalizer \<Rightarrow> json \<times> sse_normalizer"
where
  "restore_custom_item from_str event idx item_id item n =
     (let state = (case custom_calls n idx of Some s \<Rightarrow> s | None \<Rightarrow> default_custom_call)\<lparr>ncc_item_id := item_id\<rparr>;
          empty_input = (case get_str item ''input'' of Some t \<Rightarrow> t = [] | None \<Rightarrow> True);
          item' = (if event = ''response.output_item.done'' \<and> empty_input \<and> ncc_arguments state \<noteq> []
                   then on_object (obj_insert ''input'' (JString (custom_tool_input from_str (ncc_arguments state)))) item
                   else item)
      in (item', n\<lparr>custom_calls := (custom_calls n)(idx \<mapsto> state)\<rparr>))"

definition restore_event_item ::
  "(string \<Rightarrow> json option) \<Rightarrow> (string \<Rightarrow> string) \<Rightarrow> string \<Rightarrow> json \<Rightarrow> sse_normalizer \<Rightarrow> json \<times> sse_normalizer"
where
  "restore_event_item from_str sha_hex event v n =
     (if event \<noteq> ''response.output_item.added'' \<and> event \<noteq> ''response.output_item.done'' then (v, n)
      else case json_get v ''item'' of
        None \<Rightarrow> (v, n)
      | Some item \<Rightarrow>
          let idx = index_of v ''output_index'';
              n1 = (if (case get_array item ''content'' of Some parts \<Rightarrow> has_visible_part parts | None \<Rightarrow> False)
                    then n\<lparr>saw_visible_text := True\<rparr> else n);
              item_id = (case get_str item ''id'' of Some i \<Rightarrow> i | None \<Rightarrow> []);
              (restored, item1) = restore_output_item from_str sha_hex (tool_context n1) item;
              (item2, n2) =
                (if \<not> restored then (item1, n1)
                 else if get_str item1 ''type'' = Some ''tool_search_call''
                   then (item1, n1\<lparr>tool_search_calls := List.insert idx (tool_search_calls n1)\<rparr>)
                   else restore_custom_item from_str event idx item_id item1 n1);
              item3 = snd (restore_item (namespace_context n2) item2)
          in (json_update ''item'' (\<lambda>_. item3) v, n2))"

definition custom_input_events :: "(json \<Rightarrow> string) \<Rightarrow> string \<Rightarrow> nat \<Rightarrow> string \<Rightarrow> string list" where
  "custom_input_events to_str item_id idx input =
     (if input = [] then []
      else [format_sse_value to_str ''response.custom_tool_call_input.delta''
              (JObject [(''type'', JString ''response.custom_tool_call_input.delta''), (''item_id'', JString item_id),
                        (''output_index'', JInt (int idx)), (''delta'', JString input)])])
     @ [format_sse_value to_str ''response.custom_tool_call_input.done''
          (JObject [(''type'', JString ''response.custom_tool_call_input.done''), (''item_id'', JString item_id),
                    (''output_index'', JInt (int idx)), (''input'', JString input)])]"

text \<open>
  The argument events of calls that are shown in another form: \<open>None\<close> when the event is not one of
  them, otherwise the blocks it is replaced by.
\<close>

definition call_arguments ::
  "(string \<Rightarrow> json option) \<Rightarrow> (json \<Rightarrow> string) \<Rightarrow> string \<Rightarrow> json \<Rightarrow> sse_normalizer \<Rightarrow>
     string list option \<times> sse_normalizer"
where
  "call_arguments from_str to_str event v n =
     (let idx = index_of v ''output_index'' in
      if event \<noteq> ''response.function_call_arguments.delta'' \<and> event \<noteq> ''response.function_call_arguments.done''
        then (None, n)
      else if idx \<in> set (tool_search_calls n) then (Some [], n)
      else case custom_calls n idx of
        None \<Rightarrow> (None, n)
      | Some state \<Rightarrow>
          if event = ''response.function_call_arguments.delta'' then
            (Some [], case get_str v ''delta'' of
               Some delta \<Rightarrow>
                 n\<lparr>custom_calls := (custom_calls n)(idx \<mapsto> state\<lparr>ncc_arguments := ncc_arguments state @ delta\<rparr>)\<rparr>
             | None \<Rightarrow> n)
          else
            let state' = (case get_str v ''arguments'' of
                            Some arguments \<Rightarrow> state\<lparr>ncc_arguments := arguments\<rparr>
                          | None \<Rightarrow> state)
            in (Some (custom_input_events to_str (ncc_item_id state') idx
                        (custom_tool_input from_str (ncc_arguments state'))),
                n\<lparr>custom_calls := (custom_calls n)(idx \<mapsto> state')\<rparr>))"

definition handle_completed ::
  "(string \<Rightarrow> json option) \<Rightarrow> (json \<Rightarrow> string) \<Rightarrow> (string \<Rightarrow> string) \<Rightarrow> string \<Rightarrow> json \<Rightarrow> sse_normalizer \<Rightarrow>
     string list \<times> sse_normalizer"
where
  "handle_completed from_str to_str sha_hex event v n =
     (let v1 = json_update ''response'' (\<lambda>r. restore_response (namespace_context n)
                 (restore_response_tools from_str sha_hex (tool_context n) r)) v;
          n1 = (case json_get v ''response'' of
                  Some r \<Rightarrow> n\<lparr>completed_reasoning_summaries :=
                                capture_response_reasoning r (completed_reasoning_summaries n)\<rparr>
                | None \<Rightarrow> n);
          n2 = (case json_get v1 ''response'' of
                  Some r \<Rightarrow> n1\<lparr>saw_visible_text := saw_visible_text n1 \<or> response_contains_visible_text r,
                               saw_function_call := saw_function_call n1 \<or> response_contains_function_call r\<rparr>
                | None \<Rightarrow> n1)
      in if \<not> saw_visible_text n2 \<and> \<not> saw_function_call n2 then
           ([failed_sse_event to_str
               ''Upstream model ended with only a provider control token; retry the turn''], n2)
         else
           (flush_pending to_str (phase_of n2) n2 @
              [format_sse_value to_str event
                 (json_update ''response'' (assign_response_message_phases_with (phase_of n2)) v1)],
            n2\<lparr>pending_message_done := []\<rparr>))"

text \<open>Everything after the replay check, on the value without the private doom-loop field.\<close>

definition forward_value ::
  "(string \<Rightarrow> json option) \<Rightarrow> (json \<Rightarrow> string) \<Rightarrow> (string \<Rightarrow> string) \<Rightarrow> string \<Rightarrow> json \<Rightarrow> sse_normalizer \<Rightarrow>
     string list \<times> sse_normalizer"
where
  "forward_value from_str to_str sha_hex event v0 n0 =
     (let v1 = normalize_third_party_readable_reasoning v0;
          n1 = note_reasoning_done event v1 n0;
          v2 = strip_provider_control_tokens_with_options (payload_replay_heuristics n1) v1;
          (dropped, n2) = text_delta event v2 n1
      in if dropped then ([], n2)
         else
           let n3 = note_visible_text event v2 n2;
               (v3, n4) = restore_event_item from_str sha_hex event v2 n3;
               (replaced, n5) = call_arguments from_str to_str event v3 n4
           in case replaced of
                Some blocks \<Rightarrow> (blocks, n5)
              | None \<Rightarrow>
                  let n6 = (if sse_value_contains_function_call v3 then n5\<lparr>saw_function_call := True\<rparr> else n5) in
                  if event = ''response.output_item.done''
                     \<and> Option.bind (json_pointer v3 [''item'', ''type'']) json_as_str = Some ''message''
                    then ([], n6\<lparr>pending_message_done := pending_message_done n6 @ [v3]\<rparr>)
                  else if event = ''response.completed'' then handle_completed from_str to_str sha_hex event v3 n6
                  else ([format_sse_value to_str event v3], n6))"

definition is_doom_loop_event :: "string \<Rightarrow> json \<Rightarrow> bool" where
  "is_doom_loop_event event v \<longleftrightarrow>
     event = ''response.doom_loop_check'' \<or> get_str v ''type'' = Some ''response.doom_loop_check''"

definition remove_doom_loop_check :: "json \<Rightarrow> json" where
  "remove_doom_loop_check v = json_update ''response'' (on_object (obj_remove ''doom_loop_check'')) v"

definition push_block ::
  "(string \<Rightarrow> json option) \<Rightarrow> (json \<Rightarrow> string) \<Rightarrow> (string \<Rightarrow> string) \<Rightarrow> string \<Rightarrow> sse_normalizer \<Rightarrow>
     (sse_protocol_error + string list) \<times> sse_normalizer"
where
  "push_block from_str to_str sha_hex block n =
     (case parse_sse_value from_str block of
        None \<Rightarrow> (Inr (sanitize_unparsed_sse_block block), n)
      | Some (event, v) \<Rightarrow>
          (case validate_known_sse_event event v of
             Inl e \<Rightarrow> (Inl e, n)
           | Inr _ \<Rightarrow>
               let n1 = capture_grok_doom_loop_triggers v n in
               if is_doom_loop_event event v then (Inr [], n1)
               else
                 let v1 = remove_doom_loop_check v in
                 (case get_u64 v1 ''sequence_number'' of
                    Some s \<Rightarrow>
                      if (event, s) \<in> set (seen_sequence_numbers n1) then (Inr [], n1)
                      else apfst Inr (forward_value from_str to_str sha_hex event v1
                             (n1\<lparr>seen_sequence_numbers := (event, s) # seen_sequence_numbers n1\<rparr>))
                  | None \<Rightarrow> apfst Inr (forward_value from_str to_str sha_hex event v1 n1))))"

section \<open>Replays\<close>

text \<open>No stage after the replay check touches the record of seen sequence numbers.\<close>

lemma seen_note_reasoning_done [simp]: "seen_sequence_numbers (note_reasoning_done event v n) = seen_sequence_numbers n"
  by (simp add: note_reasoning_done_def split: option.splits)

lemma seen_text_delta [simp]: "seen_sequence_numbers (snd (text_delta event v n)) = seen_sequence_numbers n"
  by (simp add: text_delta_def Let_def)

lemma seen_note_visible_text [simp]: "seen_sequence_numbers (note_visible_text event v n) = seen_sequence_numbers n"
  by (simp add: note_visible_text_def)

lemma seen_restore_event_item [simp]:
  "seen_sequence_numbers (snd (restore_event_item from_str sha_hex event v n)) = seen_sequence_numbers n"
  by (simp add: restore_event_item_def restore_custom_item_def Let_def split: option.splits prod.splits)

lemma seen_call_arguments [simp]:
  "seen_sequence_numbers (snd (call_arguments from_str to_str event v n)) = seen_sequence_numbers n"
  by (simp add: call_arguments_def Let_def split: option.splits)

lemma seen_handle_completed [simp]:
  "seen_sequence_numbers (snd (handle_completed from_str to_str sha_hex event v n)) = seen_sequence_numbers n"
  by (simp add: handle_completed_def Let_def split: option.splits)

lemma seen_capture [simp]: "seen_sequence_numbers (capture_grok_doom_loop_triggers v n) = seen_sequence_numbers n"
  by (simp add: capture_grok_doom_loop_triggers_def split: option.splits)

lemma seen_forward_value [simp]:
  "seen_sequence_numbers (snd (forward_value from_str to_str sha_hex event v n)) = seen_sequence_numbers n"
  by (simp add: forward_value_def Let_def case_prod_beta split: option.splits)

lemma get_u64_remove_doom [simp]:
  "k \<noteq> ''response'' \<Longrightarrow> get_u64 (remove_doom_loop_check v) k = get_u64 v k"
  by (cases v) (simp_all add: remove_doom_loop_check_def json_update_def on_object_def get_u64_def map_of_obj_update)

definition block_identity :: "(string \<Rightarrow> json option) \<Rightarrow> string \<Rightarrow> (string \<times> nat) option" where
  "block_identity from_str block =
     Option.bind (parse_sse_value from_str block) (\<lambda>(event, v). map_option (Pair event) (get_u64 v ''sequence_number''))"

definition emits ::
  "(string \<Rightarrow> json option) \<Rightarrow> (json \<Rightarrow> string) \<Rightarrow> (string \<Rightarrow> string) \<Rightarrow> string \<Rightarrow> sse_normalizer \<Rightarrow> bool"
where
  "emits from_str to_str sha_hex block n =
     (case fst (push_block from_str to_str sha_hex block n) of Inr blocks \<Rightarrow> blocks \<noteq> [] | Inl _ \<Rightarrow> False)"

lemma push_block_seen_mono:
  "set (seen_sequence_numbers n) \<subseteq> set (seen_sequence_numbers (snd (push_block from_str to_str sha_hex block n)))"
  by (auto simp: push_block_def Let_def split: option.splits sum.splits)

lemma push_block_marks:
  assumes "block_identity from_str block = Some i" "emits from_str to_str sha_hex block n"
  shows "i \<notin> set (seen_sequence_numbers n)"
    and "i \<in> set (seen_sequence_numbers (snd (push_block from_str to_str sha_hex block n)))"
proof -
  from assms(1) obtain event v s where p: "parse_sse_value from_str block = Some (event, v)"
    and s: "get_u64 v ''sequence_number'' = Some s" and i: "i = (event, s)"
    by (auto simp: block_identity_def bind_eq_Some_conv)
  show "i \<notin> set (seen_sequence_numbers n)"
    using assms(2) p s i by (auto simp: emits_def push_block_def Let_def split: sum.splits if_splits)
  show "i \<in> set (seen_sequence_numbers (snd (push_block from_str to_str sha_hex block n)))"
    using assms(2) p s i by (auto simp: emits_def push_block_def Let_def split: sum.splits if_splits)
qed

interpretation replay: credit_system "\<lambda>block n. snd (push_block from_str to_str sha_hex block n)" "\<lambda>n. True"
  "\<lambda>block n. block_identity from_str block = Some i \<and> emits from_str to_str sha_hex block n" "\<lambda>block n. False"
  "\<lambda>n. of_bool (i \<notin> set (seen_sequence_numbers n))" for from_str to_str sha_hex i
proof (unfold_locales, goal_cases)
  case (2 n block)
  show ?case
    using push_block_marks [of from_str block i to_str sha_hex n]
      push_block_seen_mono [of n from_str to_str sha_hex block] by auto
qed simp

text \<open>
  C18: A replayed frame reaches the client once: whatever blocks the provider sends, among those that carry
  one event name with one sequence number at most one makes the normalizer emit anything.
\<close>

theorem replayed_event_forwarded_once:
  "count_events (\<lambda>block n. block_identity from_str block = Some i \<and> emits from_str to_str sha_hex block n)
     (\<lambda>block n. snd (push_block from_str to_str sha_hex block n)) blocks n \<le> 1"
proof -
  have "count_events (\<lambda>block n. False) (\<lambda>block n. snd (push_block from_str to_str sha_hex block n)) blocks n = 0"
    by (simp add: count_events_static list_all_iff)
  from replay.events_bound [OF TrueI this, of i] show ?thesis
    by (auto split: if_splits intro: order_trans)
qed

section \<open>Private diagnostics\<close>

text \<open>The value is not a private diagnostic by its own type, and its response carries none.\<close>

definition no_doom :: "json \<Rightarrow> bool" where
  "no_doom v \<longleftrightarrow> get_str v ''type'' \<noteq> Some ''response.doom_loop_check'' \<and>
     (\<forall>r. json_get v ''response'' = Some r \<longrightarrow> json_get r ''doom_loop_check'' = None)"

definition pending_clean :: "sse_normalizer \<Rightarrow> bool" where
  "pending_clean n \<longleftrightarrow> list_all no_doom (pending_message_done n)"

lemma json_get_update: "json_get (json_update k f v) j = (if j = k then map_option f (json_get v k) else json_get v j)"
  by (cases v) (simp_all add: json_update_def on_object_def map_of_obj_update)

lemma get_str_update: "j \<noteq> k \<Longrightarrow> get_str (json_update k f v) j = get_str v j"
  by (simp add: get_str_def json_get_update)

lemma no_doom_update: "k \<notin> {''response'', ''type''} \<Longrightarrow> no_doom (json_update k f v) = no_doom v"
  by (auto simp: no_doom_def json_get_update get_str_update)

lemma no_doom_update_response:
  "no_doom v \<Longrightarrow> (\<And>r. json_get (f r) ''doom_loop_check'' = json_get r ''doom_loop_check'') \<Longrightarrow>
     no_doom (json_update ''response'' f v)"
  by (auto simp: no_doom_def json_get_update get_str_update)

lemma no_doom_remove:
  assumes wf: "json_wf v" and own: "get_str v ''type'' \<noteq> Some ''response.doom_loop_check''"
  shows "no_doom (remove_doom_loop_check v)"
proof -
  have "json_get (on_object (obj_remove ''doom_loop_check'') r) ''doom_loop_check'' = None"
    if "json_get v ''response'' = Some r" for r
  proof (cases r)
    case (JObject kvs)
    have "json_wf (JObject kvs)"
      using that wf JObject by (cases v) (auto dest!: map_of_SomeD intro: json_wf_child simp del: json_wf.simps)
    with JObject show ?thesis by (simp add: on_object_def map_of_obj_remove)
  qed (simp_all add: on_object_def)
  with own show ?thesis
    by (auto simp: no_doom_def remove_doom_loop_check_def json_get_update get_str_update)
qed

lemma json_wf_remove_doom: "json_wf v \<Longrightarrow> json_wf (remove_doom_loop_check v)"
proof (cases v)
  case (JObject kvs)
  assume wf: "json_wf v"
  have "json_wf (on_object (obj_remove ''doom_loop_check'') r)" if "json_wf r" for r
    using that by (cases r) (auto simp: on_object_def distinct_obj_remove list_all_iff
        dest!: subsetD [OF obj_remove_subset])
  with wf JObject show ?thesis
    by (auto simp: remove_doom_loop_check_def json_update_def on_object_def list_all_iff dest!: set_obj_update)
qed (simp_all add: remove_doom_loop_check_def json_update_def on_object_def)

lemma reshape_keeps_absent:
  "k \<noteq> ''summary'' \<Longrightarrow> map_of object k = None \<Longrightarrow> map_of (reshape_reasoning object) k = None"
proof -
  assume "k \<noteq> ''summary''" "map_of object k = None"
  then have "(k, v) \<notin> set (reshape_reasoning object)" for v
    using reshape_reasoning_children [of k v object] by (force simp: map_of_eq_None_iff)
  then show ?thesis by (auto simp: map_of_eq_None_iff image_iff)
qed

lemma normalize_keeps_absent:
  "k \<noteq> ''summary'' \<Longrightarrow> json_get v k = None \<Longrightarrow> json_get (normalize_third_party_readable_reasoning v) k = None"
proof (cases v)
  case (JObject object)
  then show "k \<noteq> ''summary'' \<Longrightarrow> json_get v k = None \<Longrightarrow> ?thesis"
    by (simp add: normalize_third_party_readable_reasoning.simps [of "JObject object"] map_of_map_snd reshape_keeps_absent)
qed (simp_all add: normalize_third_party_readable_reasoning.simps [of "JArray xs" for xs]
    normalize_third_party_readable_reasoning.simps [of JNull] normalize_third_party_readable_reasoning.simps [of "JBool b" for b]
    normalize_third_party_readable_reasoning.simps [of "JInt b" for b] normalize_third_party_readable_reasoning.simps [of "JFloat b" for b])

lemma map_of_reshape_other:
  "distinct (map fst object) \<Longrightarrow> k \<notin> {''summary'', ''content'', ''encrypted_content'', ''reasoning_content''} \<Longrightarrow>
     map_of (reshape_reasoning object) k = map_of object k"
  by (simp add: reshape_reasoning_def map_of_obj_remove distinct_obj_remove distinct_with_summary map_of_with_summary)

lemma normalize_JString [simp]: "normalize_third_party_readable_reasoning v = JString s \<longleftrightarrow> v = JString s"
  by (cases v) (simp_all add: normalize_third_party_readable_reasoning.simps [of "JArray xs" for xs]
    normalize_third_party_readable_reasoning.simps [of "JObject xs" for xs] normalize_third_party_readable_reasoning.simps [of "JString xs" for xs]
    normalize_third_party_readable_reasoning.simps [of JNull] normalize_third_party_readable_reasoning.simps [of "JBool b" for b]
    normalize_third_party_readable_reasoning.simps [of "JInt b" for b] normalize_third_party_readable_reasoning.simps [of "JFloat b" for b])

lemma get_str_eq: "get_str v k = Some s \<longleftrightarrow> json_get v k = Some (JString s)"
  by (auto simp: get_str_def bind_eq_Some_conv elim!: json_as_str.elims)

lemma no_doom_normalize:
  assumes "no_doom v" "json_wf v"
  shows "no_doom (normalize_third_party_readable_reasoning v)"
proof (cases v)
  case (JObject object)
  have "json_get r ''doom_loop_check'' = None"
    if r: "map_of (map (\<lambda>(k, c). (k, normalize_third_party_readable_reasoning c)) (reshape_reasoning object)) ''response'' = Some r" for r
  proof -
    from r obtain c where c: "map_of (reshape_reasoning object) ''response'' = Some c"
      and r': "r = normalize_third_party_readable_reasoning c" by (auto simp: map_of_map_snd)
    then have "map_of object ''response'' = Some c"
      using assms(2) JObject map_of_reshape_other [of object "''response''"] by simp
    with assms(1) JObject have "json_get c ''doom_loop_check'' = None" by (simp add: no_doom_def)
    then show ?thesis unfolding r' by (simp add: normalize_keeps_absent)
  qed
  moreover have "map_of (reshape_reasoning object) ''type'' = map_of object ''type''"
    using assms(2) JObject map_of_reshape_other [of object "''type''"] by simp
  ultimately show ?thesis
    using assms(1)
    by (auto simp: JObject no_doom_def get_str_eq map_of_map_snd
        normalize_third_party_readable_reasoning.simps [of "JObject object"])
qed (use normalize_keeps_absent [of "''response''" v] normalize_keeps_absent [of "''type''" v] in
      \<open>simp_all add: no_doom_def get_str_eq\<close>)

lemma map_of_strip_output_text_None:
  "map_of (strip_output_text c object) k = None \<longleftrightarrow> map_of object k = None"
  by (simp add: strip_output_text_def Let_def map_of_obj_update)

lemma map_of_strip_output_text_other:
  "k \<notin> {''delta'', ''text''} \<Longrightarrow> map_of (strip_output_text c object) k = map_of object k"
  by (simp add: strip_output_text_def Let_def map_of_obj_update)

lemma strip_keeps_absent:
  "json_get v k = None \<Longrightarrow> json_get (strip_provider_control_tokens_with_options c v) k = None"
  by (cases v) (simp_all add: strip_provider_control_tokens_with_options.simps [of c "JObject kvs" for kvs]
      strip_provider_control_tokens_with_options.simps [of c "JArray xs" for xs]
      strip_provider_control_tokens_with_options.simps [of c JNull] strip_provider_control_tokens_with_options.simps [of c "JBool b" for b]
      strip_provider_control_tokens_with_options.simps [of c "JInt b" for b]
      strip_provider_control_tokens_with_options.simps [of c "JFloat b" for b]
      strip_provider_control_tokens_with_options.simps [of c "JString b" for b]
      map_of_map_snd map_of_strip_output_text_None)

lemma strip_JString [simp]: "strip_provider_control_tokens_with_options c v = JString s \<longleftrightarrow> v = JString s"
  by (cases v) (simp_all add: strip_provider_control_tokens_with_options.simps [of c "JObject kvs" for kvs]
      strip_provider_control_tokens_with_options.simps [of c "JArray xs" for xs]
      strip_provider_control_tokens_with_options.simps [of c JNull] strip_provider_control_tokens_with_options.simps [of c "JBool b" for b]
      strip_provider_control_tokens_with_options.simps [of c "JInt b" for b]
      strip_provider_control_tokens_with_options.simps [of c "JFloat b" for b]
      strip_provider_control_tokens_with_options.simps [of c "JString b" for b])

lemma no_doom_strip:
  assumes "no_doom v"
  shows "no_doom (strip_provider_control_tokens_with_options c v)"
proof (cases v)
  case (JObject object)
  with assms show ?thesis
    by (auto simp: no_doom_def get_str_eq strip_provider_control_tokens_with_options.simps [of c "JObject object"] map_of_map_snd
        map_of_strip_output_text_other intro: strip_keeps_absent)
qed (use strip_keeps_absent [of v "''response''" c] strip_keeps_absent [of v "''type''" c] in
      \<open>simp_all add: no_doom_def get_str_eq\<close>)

lemma no_doom_restore_event_item:
  "no_doom v \<Longrightarrow> no_doom (fst (restore_event_item from_str sha_hex event v n))"
  by (auto simp: restore_event_item_def Let_def no_doom_update split: option.splits prod.splits)

text \<open>A block the client may see: an event other than the private one, on a value without the private field.\<close>

definition shown :: "(json \<Rightarrow> string) \<Rightarrow> string \<Rightarrow> bool" where
  "shown to_str block \<longleftrightarrow>
     (\<exists>e v. block = format_sse_value to_str e v \<and> e \<noteq> ''response.doom_loop_check'' \<and> no_doom v)"

lemma shown_format: "e \<noteq> ''response.doom_loop_check'' \<Longrightarrow> no_doom v \<Longrightarrow> shown to_str (format_sse_value to_str e v)"
  by (auto simp: shown_def)

lemma shown_failed: "shown to_str (failed_sse_event to_str m)"
  unfolding shown_def failed_sse_event_def failed_sse_event_inner_def Let_def format_sse_value_def
  by (intro exI [of _ "''response.failed''"] exI conjI) (auto simp: no_doom_def get_str_eq)

lemma shown_custom: "list_all (shown to_str) (custom_input_events to_str item_id idx input)"
  by (auto simp: custom_input_events_def no_doom_def get_str_eq intro!: shown_format)

lemma shown_flush: "pending_clean n \<Longrightarrow> list_all (shown to_str) (flush_pending to_str phase n)"
  by (auto simp: flush_pending_def pending_clean_def list_all_iff set_message_phase_at_pointer_def no_doom_update
      intro!: shown_format)

lemma pending_note_reasoning_done [simp]: "pending_message_done (note_reasoning_done event v n) = pending_message_done n"
  by (simp add: note_reasoning_done_def split: option.splits)

lemma pending_text_delta [simp]: "pending_message_done (snd (text_delta event v n)) = pending_message_done n"
  by (simp add: text_delta_def Let_def)

lemma pending_note_visible_text [simp]: "pending_message_done (note_visible_text event v n) = pending_message_done n"
  by (simp add: note_visible_text_def)

lemma pending_restore_event_item [simp]:
  "pending_message_done (snd (restore_event_item from_str sha_hex event v n)) = pending_message_done n"
  by (simp add: restore_event_item_def restore_custom_item_def Let_def split: option.splits prod.splits)

lemma pending_call_arguments [simp]:
  "pending_message_done (snd (call_arguments from_str to_str event v n)) = pending_message_done n"
  by (simp add: call_arguments_def Let_def split: option.splits)

lemma pending_capture [simp]: "pending_message_done (capture_grok_doom_loop_triggers v n) = pending_message_done n"
  by (simp add: capture_grok_doom_loop_triggers_def split: option.splits)

lemma call_arguments_shown:
  "fst (call_arguments from_str to_str event v n) = Some blocks \<Longrightarrow> list_all (shown to_str) blocks"
  using shown_custom by (auto simp: call_arguments_def Let_def split: if_splits option.splits)

lemma response_rewriting_doom:
  "json_get (json_update ''output'' f r) ''doom_loop_check'' = json_get r ''doom_loop_check''"
  by (simp add: json_get_update)

lemma handle_completed_shown:
  assumes "pending_clean n" "no_doom v" "event \<noteq> ''response.doom_loop_check''"
  shows "list_all (shown to_str) (fst (handle_completed from_str to_str sha_hex event v n)) \<and>
    pending_clean (snd (handle_completed from_str to_str sha_hex event v n))"
proof -
  have pc: "pending_clean n'" if "pending_message_done n' = pending_message_done n" for n'
    using assms(1) that by (simp add: pending_clean_def)
  have nd: "no_doom (json_update ''response'' (assign_response_message_phases_with phase)
      (json_update ''response'' (\<lambda>r. restore_response c (restore_response_tools from_str sha_hex tc r)) v))" for phase c tc
    by (intro no_doom_update_response assms(2))
      (simp_all add: assign_response_message_phases_with_def restore_response_def restore_response_tools_def
        response_rewriting_doom)
  show ?thesis
    unfolding handle_completed_def Let_def
    by (auto simp: shown_failed pending_clean_def [of "_\<lparr>pending_message_done := []\<rparr>"]
        intro!: pc shown_flush shown_format nd assms(3) split: option.splits)
qed

lemma forward_value_shown:
  assumes "pending_clean n" "no_doom v" "json_wf v" "event \<noteq> ''response.doom_loop_check''"
  shows "list_all (shown to_str) (fst (forward_value from_str to_str sha_hex event v n)) \<and>
    pending_clean (snd (forward_value from_str to_str sha_hex event v n))"
proof -
  define v1 where "v1 = normalize_third_party_readable_reasoning v"
  define n1 where "n1 = note_reasoning_done event v1 n"
  define v2 where "v2 = strip_provider_control_tokens_with_options (payload_replay_heuristics n1) v1"
  define td where "td = text_delta event v2 n1"
  define r where "r = restore_event_item from_str sha_hex event v2 (note_visible_text event v2 (snd td))"
  define ca where "ca = call_arguments from_str to_str event (fst r) (snd r)"
  note defs = v1_def n1_def v2_def td_def r_def ca_def
  have v: "no_doom (fst r)"
    unfolding defs by (intro no_doom_restore_event_item no_doom_strip no_doom_normalize assms)
  have pc: "pending_clean n'" if "pending_message_done n' = pending_message_done n" for n'
    using assms(1) that by (simp add: pending_clean_def)
  have same: "pending_message_done (snd td) = pending_message_done n" "pending_message_done (snd ca) = pending_message_done n"
    by (simp_all add: defs)
  show ?thesis
  proof (cases "fst td")
    case True
    then have "forward_value from_str to_str sha_hex event v n = ([], snd td)"
      by (simp add: forward_value_def Let_def case_prod_beta defs [symmetric])
    then show ?thesis using pc same by simp
  next
    case False
    show ?thesis
    proof (cases "fst ca")
      case (Some blocks)
      with False have "forward_value from_str to_str sha_hex event v n = (blocks, snd ca)"
        by (simp add: forward_value_def Let_def case_prod_beta defs [symmetric])
      then show ?thesis
        using pc same call_arguments_shown [of from_str to_str event "fst r" "snd r" blocks] Some
        by (simp add: ca_def)
    next
      case None
      define n6 where "n6 = (if sse_value_contains_function_call (fst r) then (snd ca)\<lparr>saw_function_call := True\<rparr> else snd ca)"
      have n6: "pending_clean n6" using pc same by (simp add: n6_def)
      have "forward_value from_str to_str sha_hex event v n =
        (if event = ''response.output_item.done''
            \<and> Option.bind (json_pointer (fst r) [''item'', ''type'']) json_as_str = Some ''message''
         then ([], n6\<lparr>pending_message_done := pending_message_done n6 @ [fst r]\<rparr>)
         else if event = ''response.completed'' then handle_completed from_str to_str sha_hex event (fst r) n6
         else ([format_sse_value to_str event (fst r)], n6))"
        using False None by (simp only: forward_value_def Let_def case_prod_beta defs [symmetric] n6_def option.case if_False)
      then show ?thesis
        using n6 v handle_completed_shown [OF n6 v assms(4)] shown_format [OF assms(4) v]
        by (auto simp: pending_clean_def)
    qed
  qed
qed

lemma push_block_shown:
  assumes parser: "\<And>s v. from_str s = Some v \<Longrightarrow> json_wf v" and n: "pending_clean n"
  shows "pending_clean (snd (push_block from_str to_str sha_hex block n))"
    and "parse_sse_value from_str block \<noteq> None \<Longrightarrow> fst (push_block from_str to_str sha_hex block n) = Inr outs \<Longrightarrow>
      list_all (shown to_str) outs"
proof -
  have step: "pending_clean (snd (push_block from_str to_str sha_hex block n)) \<and>
      (parse_sse_value from_str block \<noteq> None \<longrightarrow>
        (\<forall>outs. fst (push_block from_str to_str sha_hex block n) = Inr outs \<longrightarrow> list_all (shown to_str) outs))"
  proof (cases "parse_sse_value from_str block")
    case None
    with n show ?thesis by (simp add: push_block_def)
  next
    case (Some p)
    obtain event v where p: "p = (event, v)" by (cases p)
    have wf: "json_wf v"
      using Some p parser by (auto simp: parse_sse_value_def Let_def split: option.splits)
    have pc: "pending_clean n'" if "pending_message_done n' = pending_message_done n" for n'
      using n that by (simp add: pending_clean_def)
    have fwd: "list_all (shown to_str) (fst (forward_value from_str to_str sha_hex event (remove_doom_loop_check v) n')) \<and>
        pending_clean (snd (forward_value from_str to_str sha_hex event (remove_doom_loop_check v) n'))"
      if "pending_message_done n' = pending_message_done n" "\<not> is_doom_loop_event event v" for n'
      using that by (intro forward_value_shown pc no_doom_remove json_wf_remove_doom wf)
        (auto simp: is_doom_loop_event_def)
    show ?thesis
      using fwd by (auto simp: push_block_def Some p Let_def intro!: pc split: sum.splits option.splits)
  qed
  show "pending_clean (snd (push_block from_str to_str sha_hex block n))" using step by simp
  show "parse_sse_value from_str block \<noteq> None \<Longrightarrow> fst (push_block from_str to_str sha_hex block n) = Inr outs \<Longrightarrow>
      list_all (shown to_str) outs" using step by simp
qed

text \<open>
  C19: Grok's private diagnostics stay private: after any blocks, whatever the normalizer prints for a parsed
  event is an event of another name than \<open>response.doom_loop_check\<close>, on a value that does not have
  this type itself and whose \<open>response\<close> has no field of that name. The JSON parser is only required
  to build objects with distinct keys.
\<close>

theorem private_diagnostics_not_forwarded:
  assumes "\<And>s v. from_str s = Some v \<Longrightarrow> json_wf v"
    and "parse_sse_value from_str block \<noteq> None"
    and "fst (push_block from_str to_str sha_hex block
          (fold (\<lambda>block n. snd (push_block from_str to_str sha_hex block n)) blocks (new_normalizer request heuristics)))
        = Inr outs"
  shows "list_all (shown to_str) outs"
proof -
  let ?step = "\<lambda>block n. snd (push_block from_str to_str sha_hex block n)"
  have "step_system ?step pending_clean"
    by unfold_locales (rule push_block_shown(1) [OF assms(1)])
  then have "pending_clean (fold ?step blocks (new_normalizer request heuristics))"
    by (rule step_system.run_invar) (simp add: pending_clean_def new_normalizer_def)
  from push_block_shown(2) [OF assms(1) this assms(2,3)] show ?thesis .
qed

definition diagnosed_response :: json where
  "diagnosed_response =
     JObject [(''type'', JString ''response.created''),
       (''response'', JObject [(''id'', JString ''r1''), (''doom_loop_check'', JBool True)])]"

definition cleaned_response :: json where
  "cleaned_response =
     JObject [(''type'', JString ''response.created''), (''response'', JObject [(''id'', JString ''r1'')])]"

definition leak_printer :: "json \<Rightarrow> string" where
  "leak_printer v = (if json_pointer v [''response'', ''doom_loop_check''] = None then ''clean'' else ''leak'')"

theorem private_diagnostics_not_forwarded_witness:
  "list_all (shown leak_printer) [format_sse_value leak_printer ''response.created'' cleaned_response]"
proof (rule private_diagnostics_not_forwarded
    [of "\<lambda>_. Some diagnosed_response" "''event: response.created'' @ [CHR 0x0A] @ ''data: {}''" leak_printer "\<lambda>s. s" "[]" JNull False])
  show "parse_sse_value (\<lambda>_. Some diagnosed_response) (''event: response.created'' @ [CHR 0x0A] @ ''data: {}'') \<noteq> None"
    by code_simp
  show "fst (push_block (\<lambda>_. Some diagnosed_response) leak_printer (\<lambda>s. s) (''event: response.created'' @ [CHR 0x0A] @ ''data: {}'')
      (fold (\<lambda>block n. snd (push_block (\<lambda>_. Some diagnosed_response) leak_printer (\<lambda>s. s) block n)) [] (new_normalizer JNull False)))
    = Inr [format_sse_value leak_printer ''response.created'' cleaned_response]"
    by code_simp
qed (auto simp: diagnosed_response_def)

text \<open>
  A trigger is also read from a field at the top of any event, and that copy is forwarded: the event
  below has its trigger captured and still shows the field to the client.
\<close>

definition diagnostic_event :: json where
  "diagnostic_event = JObject [(''type'', JString ''response.in_progress''),
     (''doom_loop_check'', JObject [(''triggers'', JArray [JString ''tail_repetition:4@thinking''])])]"

lemma diagnostic_event_push:
  "push_block (\<lambda>_. Some diagnostic_event) to_str sha_hex ''data: {}'' (new_normalizer JNull True) =
     (Inr [format_sse_value to_str ''response.in_progress'' diagnostic_event],
      (new_normalizer JNull True)\<lparr>grok_doom_loop_triggers := [''tail_repetition:4@thinking'']\<rparr>)"
proof -
  have norm: "normalize_third_party_readable_reasoning diagnostic_event = diagnostic_event"
    by (rule normalize_id) (simp add: diagnostic_event_def is_reasoning_def)
  have strip: "strip_provider_control_tokens_with_options c diagnostic_event = diagnostic_event" for c
    by (simp add: diagnostic_event_def strip_provider_control_tokens_with_options.simps strip_output_text_def Let_def)
  have parse: "parse_sse_value (\<lambda>_. Some diagnostic_event) ''data: {}'' = Some (''response.in_progress'', diagnostic_event)"
    by (simp add: parse_sse_value_def lines_def byte_val_def strip_sse_field_def strip_prefix_def starts_with_def
        or_else_def get_str_def diagnostic_event_def)
  have valid: "validate_known_sse_event ''response.in_progress'' diagnostic_event = Inr ()"
    by (simp add: validate_known_sse_event_def diagnostic_event_def check_fields_def CONTAINER_FIELDS_def TEXT_FIELDS_def
        INDEX_FIELDS_def)
  have doom: "remove_doom_loop_check diagnostic_event = diagnostic_event"
    by (simp add: remove_doom_loop_check_def json_update_def on_object_def diagnostic_event_def)
  have fields: "get_u64 diagnostic_event k = None" "get_str diagnostic_event ''type'' = Some ''response.in_progress''"
    "json_get diagnostic_event ''item'' = None" "json_get diagnostic_event ''response'' = None"
    "json_get diagnostic_event ''doom_loop_check'' = Some (JObject [(''triggers'', JArray [JString ''tail_repetition:4@thinking''])])"
    for k
    by (simp_all add: diagnostic_event_def get_u64_def get_str_def)
  show ?thesis
    by (simp add: push_block_def parse valid doom is_doom_loop_event_def fields capture_grok_doom_loop_triggers_def
        capture_trigger_def or_else_def forward_value_def norm strip note_reasoning_done_def text_delta_def
        note_visible_text_def restore_event_item_def call_arguments_def sse_value_contains_function_call_def
        is_call_type_def new_normalizer_def Let_def)
qed

lemma confident_example: "is_confident_trigger ''tail_repetition:4@thinking''"
  by (simp add: is_confident_trigger_def strip_prefix_def starts_with_def parse_u32_def parse_digits_def
      is_ascii_digit_def byte_val_def)

theorem top_level_diagnostic_forwarded:
  "let (res, n) = push_block (\<lambda>_. Some diagnostic_event) to_str sha_hex ''data: {}'' (new_normalizer JNull True)
   in res = Inr [format_sse_value to_str ''response.in_progress'' diagnostic_event] \<and>
      json_get diagnostic_event ''doom_loop_check'' \<noteq> None \<and>
      fst (take_confident_doom_loop_trigger n) = Some ''tail_repetition:4@thinking''"
  unfolding diagnostic_event_push
  by (simp add: take_confident_doom_loop_trigger_def confident_example diagnostic_event_def)

end
