(* ===== verification/Progress_Fingerprint.thy ===== *)
theory Progress_Fingerprint
  imports Json_Value "HOL-Library.List_Lexorder" "HOL-Library.Char_ord"
begin

text \<open>
  Progress identities (\<open>crates/vellum-proxy-runtime/src/progress_fingerprint.rs\<close>) over the evidence
  operations of \<open>evidence_operation.rs\<close>: which observations count as progress, and the bounded
  tracker that recognizes progress already seen. The parameter \<open>sha\<close> is the hexadecimal SHA-256.
\<close>

section \<open>Evidence operations\<close>

datatype evidence_operation_kind = Query | Inspect | Verify | Mutate | Execute

datatype evidence_channel = Workspace | Session | Vcs | Database | Process | External | UnknownChannel

datatype canonical_subject_kind =
  File | Symbol | TaskLiteral | ErrorFamilySubject | TestSubject | SessionState | RepositoryState | OtherSubject

record canonical_subject =
  cs_kind :: canonical_subject_kind
  cs_key :: string

datatype fact_provenance = Independent | SelfGeneratedConversation

datatype error_family = PermissionDenied | NotFound | Locked | InvalidObject | ParseFailed | Timeout | OtherError

datatype evidence_result = Found | NoResult | ErrorResult error_family | Completed | UnknownResult

datatype evidence_signature_level = StructuredFact | NormalizedDigest

record evidence_signature =
  es_level :: evidence_signature_level
  es_digest :: string
  es_provenance :: fact_provenance
  es_fact :: "string option"

record evidence_operation =
  source_index :: nat
  occurrence_id :: string
  eo_operation :: evidence_operation_kind
  channel :: evidence_channel
  subjects :: "canonical_subject list"
  eo_result :: evidence_result
  stable_evidence :: "evidence_signature list"
  descriptor :: string
  completed :: bool

text \<open>The derived \<open>Debug\<close> names.\<close>

fun debug_channel :: "evidence_channel \<Rightarrow> string" where
  "debug_channel Workspace = ''Workspace''"
| "debug_channel Session = ''Session''"
| "debug_channel Vcs = ''Vcs''"
| "debug_channel Database = ''Database''"
| "debug_channel Process = ''Process''"
| "debug_channel External = ''External''"
| "debug_channel UnknownChannel = ''Unknown''"

fun debug_error_family :: "error_family \<Rightarrow> string" where
  "debug_error_family PermissionDenied = ''PermissionDenied''"
| "debug_error_family NotFound = ''NotFound''"
| "debug_error_family Locked = ''Locked''"
| "debug_error_family InvalidObject = ''InvalidObject''"
| "debug_error_family ParseFailed = ''ParseFailed''"
| "debug_error_family Timeout = ''Timeout''"
| "debug_error_family OtherError = ''Other''"

fun debug_result :: "evidence_result \<Rightarrow> string" where
  "debug_result Found = ''Found''"
| "debug_result NoResult = ''NoResult''"
| "debug_result (ErrorResult family) = ''Error { family: '' @ debug_error_family family @ '' }''"
| "debug_result Completed = ''Completed''"
| "debug_result UnknownResult = ''Unknown''"

section \<open>Fingerprints\<close>

datatype progress_kind = UserInstruction | WorkspaceMutation | VerificationState | IndependentEvidence

datatype efficiency_progress_axis = WorldChange | ValidationChange | EvidenceGain

fun efficiency_axis :: "progress_kind \<Rightarrow> efficiency_progress_axis" where
  "efficiency_axis UserInstruction = WorldChange"
| "efficiency_axis WorkspaceMutation = WorldChange"
| "efficiency_axis VerificationState = ValidationChange"
| "efficiency_axis IndependentEvidence = EvidenceGain"

record progress_fingerprint =
  pf_kind :: progress_kind
  pf_digest :: string

definition new_fingerprint :: "(string \<Rightarrow> string) \<Rightarrow> progress_kind \<Rightarrow> string \<Rightarrow> progress_fingerprint" where
  "new_fingerprint sha kind material = \<lparr>pf_kind = kind, pf_digest = ''sha256:'' @ sha material\<rparr>"

text \<open>\<open>str::split\<close> on a predicate.\<close>

fun split_on :: "(char \<Rightarrow> bool) \<Rightarrow> string \<Rightarrow> string \<Rightarrow> string list" where
  "split_on P [] part = [part]"
| "split_on P (c # cs) part = (if P c then part # split_on P cs [] else split_on P cs (part @ [c]))"

definition command_identity :: "string \<Rightarrow> string" where
  "command_identity d =
     (case split_on (\<lambda>c. c = CHR '']'') d [] of
        _ # second # _ \<Rightarrow> trim second
      | _ \<Rightarrow> d)"

definition subject_keys :: "evidence_operation \<Rightarrow> string" where
  "subject_keys op = join_with '','' (map cs_key (subjects op))"

definition stable_digest :: "evidence_operation \<Rightarrow> string" where
  "stable_digest op = join_with '','' (map es_digest (stable_evidence op))"

definition mutation_material :: "evidence_operation \<Rightarrow> string" where
  "mutation_material op =
     (let payload = stable_digest op;
          identity = (if payload = [] then command_identity (descriptor op) else payload)
      in ''mutate|'' @ debug_channel (channel op) @ ''|'' @ debug_result (eo_result op) @ ''|''
           @ subject_keys op @ ''|'' @ identity)"

definition verification_material :: "evidence_operation \<Rightarrow> string" where
  "verification_material op =
     ''verify|'' @ debug_result (eo_result op) @ ''|'' @ subject_keys op @ ''|''
       @ command_identity (descriptor op) @ ''|'' @ stable_digest op"

definition is_error_result :: "evidence_result \<Rightarrow> bool" where
  "is_error_result r = (case r of ErrorResult _ \<Rightarrow> True | _ \<Rightarrow> False)"

definition evidence_fingerprints :: "(string \<Rightarrow> string) \<Rightarrow> evidence_operation \<Rightarrow> progress_fingerprint list" where
  "evidence_fingerprints sha op =
     (if channel op = Session \<or> is_error_result (eo_result op) then []
      else map (\<lambda>s. new_fingerprint sha IndependentEvidence (es_digest s))
             (filter (\<lambda>s. es_provenance s = Independent) (stable_evidence op)))"

definition fingerprints_from_operation ::
  "(string \<Rightarrow> string) \<Rightarrow> evidence_operation \<Rightarrow> progress_fingerprint list"
where
  "fingerprints_from_operation sha op =
     (let own =
        (if eo_operation op = Mutate \<and> (channel op = Workspace \<or> channel op = Vcs)
         then [new_fingerprint sha WorkspaceMutation (mutation_material op)]
         else if eo_operation op = Verify
         then [new_fingerprint sha VerificationState (verification_material op)]
         else [])
      in remdups_adj (sort_key pf_digest (own @ evidence_fingerprints sha op)))"

section \<open>The tracker of seen progress\<close>

record seen_progress_tracker =
  recent :: "progress_fingerprint list"
  sp_capacity :: nat

definition tracker_with_capacity :: "nat \<Rightarrow> seen_progress_tracker" where
  "tracker_with_capacity n = \<lparr>recent = [], sp_capacity = max n 1\<rparr>"

definition trim_to_capacity :: "seen_progress_tracker \<Rightarrow> seen_progress_tracker" where
  "trim_to_capacity t =
     (let cap = max (sp_capacity t) 1 in
      if cap < length (recent t) then t\<lparr>recent := drop (length (recent t) - cap) (recent t)\<rparr> else t)"

definition set_capacity :: "nat \<Rightarrow> seen_progress_tracker \<Rightarrow> seen_progress_tracker" where
  "set_capacity n t = trim_to_capacity (t\<lparr>sp_capacity := max n 1\<rparr>)"

definition capacity :: "seen_progress_tracker \<Rightarrow> nat" where
  "capacity t = max (sp_capacity t) 1"

definition is_genuine_advance ::
  "progress_fingerprint \<Rightarrow> seen_progress_tracker \<Rightarrow> bool \<times> seen_progress_tracker"
where
  "is_genuine_advance fp t =
     (if fp \<in> set (recent t) then (False, t)
      else (True, trim_to_capacity (t\<lparr>recent := recent t @ [fp]\<rparr>)))"

section \<open>Lemmas\<close>

definition tracker_inv :: "seen_progress_tracker \<Rightarrow> bool" where
  "tracker_inv t \<longleftrightarrow> distinct (recent t) \<and> length (recent t) \<le> capacity t"

lemma tracker_inv_with_capacity: "tracker_inv (tracker_with_capacity n)"
  by (simp add: tracker_inv_def tracker_with_capacity_def)

lemma trim_inv: "distinct (recent t) \<Longrightarrow> tracker_inv (trim_to_capacity t)"
  by (auto simp: tracker_inv_def trim_to_capacity_def capacity_def Let_def)

lemma set_capacity_inv: "tracker_inv t \<Longrightarrow> tracker_inv (set_capacity n t)"
  by (simp add: set_capacity_def trim_inv tracker_inv_def [of t])

lemma advance_inv: "tracker_inv t \<Longrightarrow> tracker_inv (snd (is_genuine_advance fp t))"
  by (simp add: is_genuine_advance_def trim_inv tracker_inv_def [of t])

lemma set_capacity_same: "tracker_inv t \<Longrightarrow> capacity t = max n 1 \<Longrightarrow> recent (set_capacity n t) = recent t"
  by (simp add: set_capacity_def trim_to_capacity_def tracker_inv_def capacity_def Let_def)

lemma capacity_set_capacity [simp]: "capacity (set_capacity n t) = max n 1"
  by (simp add: set_capacity_def trim_to_capacity_def capacity_def Let_def)

lemma capacity_advance [simp]: "capacity (snd (is_genuine_advance fp t)) = capacity t"
  by (simp add: is_genuine_advance_def trim_to_capacity_def capacity_def Let_def)

text \<open>While the window is not full, an advance is remembered and nothing is forgotten.\<close>

lemma advance_recent:
  "length (recent t) < capacity t \<Longrightarrow> set (recent (snd (is_genuine_advance fp t))) = insert fp (set (recent t))"
  by (auto simp: is_genuine_advance_def trim_to_capacity_def capacity_def Let_def)

end
