(* ===== verification/Task_Stall.thy ===== *)
theory Task_Stall
  imports Progress_Fingerprint
begin

text \<open>
  The macro progress backstop (\<open>crates/vellum-proxy-runtime/src/task_stall.rs\<close> with the messages of
  \<open>stall_recovery.rs\<close>): completed tool results are folded into counters and a window of progress
  fingerprints; from the counters a recovery of level one or two is decided, and markers found in the
  history are reconciled with the state.

  Counters keep their widths and saturate. The environment variable \<open>VELLUM_TASK_STALL_MODE\<close> is the
  argument of \<open>mode_from_env\<close>.
\<close>

section \<open>State\<close>

definition TASK_STALL_SCHEMA_VERSION :: u32 where
  "TASK_STALL_SCHEMA_VERSION = 1"

datatype stall_mode = Off | Shadow | Recover

definition mode_from_env :: "string option \<Rightarrow> stall_mode" where
  "mode_from_env raw =
     (let lower = to_ascii_lowercase (case raw of Some r \<Rightarrow> r | None \<Rightarrow> []) in
      if lower = ''recover'' then Recover else if lower = ''off'' then Off else Shadow)"

definition injects_recovery :: "stall_mode \<Rightarrow> bool" where
  "injects_recovery m \<longleftrightarrow> m = Recover"

datatype stall_recovery_state = NoRecovery | Warned | Escalated

record task_stall_policy =
  mode :: stall_mode
  recovery_after_tool_results :: u32
  post_recovery_patience :: u32
  progress_history_capacity :: nat

definition default_without_env :: task_stall_policy where
  "default_without_env =
     \<lparr>mode = Shadow, recovery_after_tool_results = 5, post_recovery_patience = 8, progress_history_capacity = 32\<rparr>"

definition default_policy :: "string option \<Rightarrow> task_stall_policy" where
  "default_policy raw = default_without_env\<lparr>mode := mode_from_env raw\<rparr>"

definition shadow_policy :: task_stall_policy where
  "shadow_policy = default_without_env\<lparr>mode := Shadow\<rparr>"

definition recover_policy :: task_stall_policy where
  "recover_policy = default_without_env\<lparr>mode := Recover\<rparr>"

record task_stall_state =
  schema_version :: u32
  task_revision :: u64
  tool_results_since_progress :: u32
  total_tool_results :: u64
  last_progress_seq :: u64
  last_progress :: "progress_fingerprint option"
  recent_progress :: seen_progress_tracker
  recovery_total :: u32
  epoch_recovery_level :: u8
  recovery_state :: stall_recovery_state
  last_recovery_seq :: "u64 option"
  post_recovery_tool_results_without_progress :: u32
  last_activity_seq :: u64
  unattributed_operations :: u64
  last_recovery_source_index :: "nat option"

definition default_stall_state :: task_stall_state where
  "default_stall_state =
     \<lparr>schema_version = TASK_STALL_SCHEMA_VERSION, task_revision = 0, tool_results_since_progress = 0,
      total_tool_results = 0, last_progress_seq = 0, last_progress = None,
      recent_progress = tracker_with_capacity 32, recovery_total = 0, epoch_recovery_level = 0,
      recovery_state = NoRecovery, last_recovery_seq = None, post_recovery_tool_results_without_progress = 0,
      last_activity_seq = 0, unattributed_operations = 0, last_recovery_source_index = None\<rparr>"

definition migrate :: "task_stall_state \<Rightarrow> task_stall_state" where
  "migrate s =
     (if epoch_recovery_level s = 0 then
        s\<lparr>epoch_recovery_level :=
            (case recovery_state s of Escalated \<Rightarrow> 2 | Warned \<Rightarrow> 1 | NoRecovery \<Rightarrow> 0)\<rparr>
      else s)"

record completed_tool_observation =
  ob_operation :: evidence_operation
  attributed :: bool
  user_instruction_revision :: u64

record stall_recovery_action =
  sa_message :: string
  sa_recovery_count :: u32
  sa_level :: stall_recovery_state

record task_stall_transition =
  genuine_progress :: bool
  counted :: bool
  stall_candidate :: bool
  tt_recovery :: "stall_recovery_action option"

section \<open>Folding an observation\<close>

definition descriptor_has_token :: "string \<Rightarrow> string list \<Rightarrow> bool" where
  "descriptor_has_token haystack tokens =
     list_ex (\<lambda>part. part \<noteq> [] \<and> part \<in> set tokens)
       (split_on (\<lambda>c. \<not> (is_ascii_digit c \<or> is_ascii_lowercase c \<or> is_ascii_uppercase c) \<and> c \<noteq> CHR ''-'') haystack [])"

definition POLL_TOKENS :: "string list" where
  "POLL_TOKENS = [''get-process'', ''get-job'', ''ps'', ''top'', ''htop'', ''wait-process'', ''wait-job'',
     ''receive-job'', ''wait'']"

definition is_status_poll :: "evidence_operation \<Rightarrow> bool" where
  "is_status_poll op \<longleftrightarrow>
     channel op = Process \<and> eo_operation op \<in> {Execute, Inspect, Query} \<and>
     descriptor_has_token (to_ascii_lowercase (descriptor op)) POLL_TOKENS"

definition post_recovery_eligible :: "task_stall_state \<Rightarrow> nat \<Rightarrow> bool" where
  "post_recovery_eligible s idx =
     (if epoch_recovery_level s = 0 then False
      else case last_recovery_source_index s of
             Some marker_index \<Rightarrow> marker_index < idx
           | None \<Rightarrow> True)"

text \<open>One candidate fingerprint: a new one is progress.\<close>

definition note_fingerprint :: "progress_fingerprint \<Rightarrow> bool \<times> task_stall_state \<Rightarrow> bool \<times> task_stall_state" where
  "note_fingerprint fp gs =
     (case is_genuine_advance fp (recent_progress (snd gs)) of
        (True, t) \<Rightarrow> (True, (snd gs)\<lparr>recent_progress := t, last_progress := Some fp\<rparr>)
      | (False, t) \<Rightarrow> (fst gs, (snd gs)\<lparr>recent_progress := t\<rparr>))"

definition revision_fingerprint :: "(string \<Rightarrow> string) \<Rightarrow> u64 \<Rightarrow> progress_fingerprint" where
  "revision_fingerprint sha revision = new_fingerprint sha UserInstruction (''rev:'' @ show_nat (unat revision))"

definition candidate_fingerprints ::
  "(string \<Rightarrow> string) \<Rightarrow> completed_tool_observation \<Rightarrow> task_stall_state \<Rightarrow> progress_fingerprint list"
where
  "candidate_fingerprints sha ob s =
     (if task_revision s < user_instruction_revision ob
      then [revision_fingerprint sha (user_instruction_revision ob)] else [])
     @ (if is_status_poll (ob_operation ob) then [] else fingerprints_from_operation sha (ob_operation ob))"

definition begin_observation ::
  "completed_tool_observation \<Rightarrow> task_stall_policy \<Rightarrow> task_stall_state \<Rightarrow> task_stall_state"
where
  "begin_observation ob policy s =
     (let s1 = migrate (s\<lparr>schema_version := TASK_STALL_SCHEMA_VERSION\<rparr>) in
      s1\<lparr>recent_progress := set_capacity (progress_history_capacity policy) (recent_progress s1),
         last_activity_seq := saturating_add (last_activity_seq s1) 1,
         total_tool_results := saturating_add (total_tool_results s1) 1,
         unattributed_operations :=
           (if attributed ob then unattributed_operations s1
            else saturating_add (unattributed_operations s1) 1)\<rparr>)"

definition settle_observation ::
  "bool \<Rightarrow> bool \<Rightarrow> nat \<Rightarrow> task_stall_state \<Rightarrow> task_stall_state"
where
  "settle_observation genuine cnt idx s =
     (if genuine then
        (let s1 = s\<lparr>tool_results_since_progress := 0, post_recovery_tool_results_without_progress := 0,
                    last_progress_seq := last_activity_seq s\<rparr>
         in if post_recovery_eligible s1 idx \<or> epoch_recovery_level s1 = 0
            then s1\<lparr>epoch_recovery_level := 0, recovery_state := NoRecovery\<rparr> else s1)
      else if cnt then
        (let s1 = s\<lparr>tool_results_since_progress := saturating_add (tool_results_since_progress s) 1\<rparr>
         in if post_recovery_eligible s1 idx
            then s1\<lparr>post_recovery_tool_results_without_progress :=
                      saturating_add (post_recovery_tool_results_without_progress s1) 1\<rparr>
            else s1)
      else s)"

definition reduce_task_stall_observation ::
  "(string \<Rightarrow> string) \<Rightarrow> completed_tool_observation \<Rightarrow> task_stall_policy \<Rightarrow> task_stall_state \<Rightarrow>
     task_stall_transition \<times> task_stall_state"
where
  "reduce_task_stall_observation sha ob policy s =
     (if mode policy = Off \<or> \<not> completed (ob_operation ob) then
        (\<lparr>genuine_progress = False, counted = False, stall_candidate = False, tt_recovery = None\<rparr>, s)
      else
        let s1 = begin_observation ob policy s;
            (genuine, s2) = fold note_fingerprint (candidate_fingerprints sha ob s1) (False, s1);
            s3 = (if task_revision s1 < user_instruction_revision ob
                  then s2\<lparr>task_revision := user_instruction_revision ob\<rparr> else s2);
            cnt = (\<not> is_status_poll (ob_operation ob));
            s4 = settle_observation genuine cnt (source_index (ob_operation ob)) s3
        in (\<lparr>genuine_progress = genuine, counted = cnt,
             stall_candidate = (cnt \<and> recovery_after_tool_results policy \<le> tool_results_since_progress s4),
             tt_recovery = None\<rparr>, s4))"

section \<open>Recovery\<close>

definition NL :: string where
  "NL = [CHR 0x0A]"

definition level_one_message :: "task_stall_state \<Rightarrow> string" where
  "level_one_message s =
     ''The recent tool results have not produced a new workspace, verification, user-instruction, or independent evidence state.''
     @ NL @ NL @ ''Observed '' @ show_nat (unat (tool_results_since_progress s))
     @ '' completed tool result(s) since last genuine progress.'' @ NL @ NL
     @ ''Do not repeat already-observed transcript/session searches unchanged.'' @ NL
     @ ''Your next step must change execution strategy: modify the workspace, run a verification that can distinguish hypotheses, query a genuinely new independent source, or explicitly state what user information is missing.''"

definition level_two_message :: string where
  "level_two_message =
     ''Previous recovery guidance did not produce material progress.'' @ NL
     @ ''Do not continue the same investigation pattern.'' @ NL
     @ ''Switch to task execution or explicitly report the missing prerequisite.''"

definition bounded_finalization_message :: string where
  "bounded_finalization_message =
     ''No further tool calls are available for this bounded finalization turn.'' @ NL
     @ ''Do not continue investigation. If the requested workspace result is already complete, finish with a concise result summary. Otherwise state the exact blocker or missing requirement.''"

definition decide_task_stall_recovery ::
  "task_stall_state \<Rightarrow> task_stall_policy \<Rightarrow> stall_recovery_action option"
where
  "decide_task_stall_recovery s policy =
     (if \<not> injects_recovery (mode policy) then None
      else if tool_results_since_progress s < recovery_after_tool_results policy then None
      else if epoch_recovery_level s = 0 then
        Some \<lparr>sa_message = level_one_message s, sa_recovery_count = saturating_add (recovery_total s) 1,
              sa_level = Warned\<rparr>
      else if epoch_recovery_level s = 1
           \<and> post_recovery_patience policy \<le> post_recovery_tool_results_without_progress s then
        Some \<lparr>sa_message = level_two_message, sa_recovery_count = saturating_add (recovery_total s) 1,
              sa_level = Escalated\<rparr>
      else None)"

definition eval_watchdog_should_stop :: "task_stall_state \<Rightarrow> task_stall_policy \<Rightarrow> bool" where
  "eval_watchdog_should_stop s policy \<longleftrightarrow>
     1 \<le> recovery_total s \<and> 1 \<le> epoch_recovery_level s
     \<and> post_recovery_patience policy \<le> post_recovery_tool_results_without_progress s
     \<and> recovery_after_tool_results policy \<le> tool_results_since_progress s"

fun stall_markers_from :: "nat \<Rightarrow> nat \<times> nat option \<Rightarrow> json list \<Rightarrow> nat \<times> nat option" where
  "stall_markers_from i best [] = best"
| "stall_markers_from i best (item # items) =
     stall_markers_from (i + 1)
       (case Option.bind (strip_prefix (case get_str item ''id'' of Some x \<Rightarrow> x | None \<Rightarrow> [])
           ''synthetic:task_stall_recovery:'') parse_u32 of
          Some count \<Rightarrow> if fst best \<le> count then (count, Some i) else best
        | None \<Rightarrow> best) items"

definition stall_recovery_markers :: "json list \<Rightarrow> u32 \<times> nat option" where
  "stall_recovery_markers items = apfst word_of_nat (stall_markers_from 0 (0, None) items)"

definition stall_recovery_marker_count :: "json list \<Rightarrow> u32" where
  "stall_recovery_marker_count items = fst (stall_recovery_markers items)"

definition reconcile_stall_recovery ::
  "u32 \<Rightarrow> nat option \<Rightarrow> task_stall_state \<Rightarrow> task_stall_state"
where
  "reconcile_stall_recovery marker_count marker_index s0 =
     (let s = migrate s0 in
      if recovery_total s < marker_count then
        (let newly = saturating_sub marker_count (recovery_total s);
             level = min (saturating_add (epoch_recovery_level s) (ucast (min newly 2))) 2
         in s\<lparr>recovery_total := marker_count, epoch_recovery_level := level,
              recovery_state := (if 2 \<le> level then Escalated else Warned),
              last_recovery_source_index := marker_index\<rparr>)
      else if 0 < epoch_recovery_level s \<and> last_recovery_source_index s = None
        then s\<lparr>last_recovery_source_index := marker_index\<rparr>
        else s)"

section \<open>Diagnostics\<close>

record task_stall_diagnostic =
  request_id_hash :: "string option"
  stall_mode_name :: string
  d_task_revision :: u64
  d_tool_results_since_progress :: u32
  d_last_progress_seq :: u64
  last_progress_kind :: "string option"
  last_progress_digest :: "string option"
  recovery_injected_count :: u32
  post_recovery_no_progress :: u32
  investigation_ledger_count :: u64
  d_unattributed_operations :: u64
  d_stall_candidate :: bool
  watchdog_candidate :: bool
  watchdog_stop :: bool

fun debug_progress_kind :: "progress_kind \<Rightarrow> string" where
  "debug_progress_kind UserInstruction = ''UserInstruction''"
| "debug_progress_kind WorkspaceMutation = ''WorkspaceMutation''"
| "debug_progress_kind VerificationState = ''VerificationState''"
| "debug_progress_kind IndependentEvidence = ''IndependentEvidence''"

definition diagnostic_from_state ::
  "task_stall_state \<Rightarrow> task_stall_policy \<Rightarrow> nat \<Rightarrow> bool \<Rightarrow> string option \<Rightarrow> task_stall_diagnostic"
where
  "diagnostic_from_state s policy ledger_count candidate rid =
     \<lparr>request_id_hash = rid,
      stall_mode_name = (case mode policy of Off \<Rightarrow> ''off'' | Shadow \<Rightarrow> ''shadow'' | Recover \<Rightarrow> ''recover''),
      d_task_revision = task_revision s,
      d_tool_results_since_progress = tool_results_since_progress s,
      d_last_progress_seq = last_progress_seq s,
      last_progress_kind = map_option (\<lambda>fp. debug_progress_kind (pf_kind fp)) (last_progress s),
      last_progress_digest = map_option pf_digest (last_progress s),
      recovery_injected_count = recovery_total s,
      post_recovery_no_progress = post_recovery_tool_results_without_progress s,
      investigation_ledger_count = as_u64 ledger_count,
      d_unattributed_operations = unattributed_operations s,
      d_stall_candidate = candidate,
      watchdog_candidate = eval_watchdog_should_stop s policy,
      watchdog_stop = False\<rparr>"

section \<open>Progress in a bounded set of fingerprints\<close>

text \<open>
  \<open>within F\<close>: the window holds only fingerprints of \<open>F\<close>, each once. When \<open>F\<close> fits into the
  window, nothing of it is ever forgotten.
\<close>

definition within :: "progress_fingerprint set \<Rightarrow> task_stall_state \<Rightarrow> bool" where
  "within F s \<longleftrightarrow> distinct (recent (recent_progress s)) \<and> set (recent (recent_progress s)) \<subseteq> F"

abbreviation window :: "task_stall_state \<Rightarrow> progress_fingerprint set" where
  "window s \<equiv> set (recent (recent_progress s))"

lemma within_length:
  assumes "within F s" "finite F"
  shows "length (recent (recent_progress s)) = card (window s)" "card (window s) \<le> card F"
  using assms card_mono [of F "window s"] by (auto simp: within_def distinct_card)

lemma note_fingerprint_within:
  assumes F: "finite F" "card F \<le> capacity (recent_progress s)" and w: "within F s" and fp: "fp \<in> F"
    and r_def: "r = note_fingerprint fp (g, s)"
  shows "within F (snd r)" "window (snd r) = insert fp (window s)"
    "fst r \<longleftrightarrow> g \<or> fp \<notin> window s" "capacity (recent_progress (snd r)) = capacity (recent_progress s)"
proof -
  show "fst r \<longleftrightarrow> g \<or> fp \<notin> window s"
    by (auto simp: r_def note_fingerprint_def is_genuine_advance_def)
  show "capacity (recent_progress (snd r)) = capacity (recent_progress s)"
    by (simp add: r_def note_fingerprint_def is_genuine_advance_def trim_to_capacity_def capacity_def Let_def)
  have "length (recent (recent_progress s)) < capacity (recent_progress s)" if "fp \<notin> window s"
  proof -
    have "card (window s) < card F"
      using that w fp F(1) by (intro psubset_card_mono) (auto simp: within_def)
    with within_length [OF w F(1)] F(2) show ?thesis by simp
  qed
  then have r: "recent (recent_progress (snd r)) =
      (if fp \<in> window s then recent (recent_progress s) else recent (recent_progress s) @ [fp])"
    by (cases "fp \<in> window s") (auto simp: r_def note_fingerprint_def is_genuine_advance_def trim_to_capacity_def
        capacity_def Let_def max_def split: if_splits)
  from r show "window (snd r) = insert fp (window s)" by auto
  from r w fp show "within F (snd r)" by (auto simp: within_def)
qed

lemma note_fingerprints_within:
  assumes "finite F" "card F \<le> capacity (recent_progress s)" "within F s" "set fps \<subseteq> F"
  shows "within F (snd (fold note_fingerprint fps (g, s))) \<and>
    window (snd (fold note_fingerprint fps (g, s))) = set fps \<union> window s \<and>
    (fst (fold note_fingerprint fps (g, s)) \<longleftrightarrow> g \<or> \<not> set fps \<subseteq> window s)"
  using assms
proof (induction fps arbitrary: g s)
  case (Cons fp fps)
  let ?r = "note_fingerprint fp (g, s)"
  have fp: "fp \<in> F" using Cons.prems by simp
  note n = note_fingerprint_within [OF Cons.prems(1-3) fp refl, of g]
  obtain g' s' where r: "?r = (g', s')" by (cases ?r)
  have IH: "within F (snd (fold note_fingerprint fps (g', s'))) \<and>
    window (snd (fold note_fingerprint fps (g', s'))) = set fps \<union> window s' \<and>
    (fst (fold note_fingerprint fps (g', s')) \<longleftrightarrow> g' \<or> \<not> set fps \<subseteq> window s')"
    by (rule Cons.IH) (use Cons.prems n r in auto)
  have "window s' = insert fp (window s)" "g' \<longleftrightarrow> g \<or> fp \<notin> window s"
    using n r by simp_all
  with IH show ?case by (simp only: fold.simps o_apply r) auto
qed simp

text \<open>The frame of the folds: only the window and the last progress change.\<close>

lemma note_fingerprints_frame:
  "tool_results_since_progress (snd (fold note_fingerprint fps gs)) = tool_results_since_progress (snd gs) \<and>
   epoch_recovery_level (snd (fold note_fingerprint fps gs)) = epoch_recovery_level (snd gs) \<and>
   recovery_state (snd (fold note_fingerprint fps gs)) = recovery_state (snd gs) \<and>
   recovery_total (snd (fold note_fingerprint fps gs)) = recovery_total (snd gs)"
  by (induction fps arbitrary: gs) (auto simp: note_fingerprint_def is_genuine_advance_def)

lemma window_begin:
  assumes "within F s" "finite F" "card F \<le> max (progress_history_capacity policy) 1"
  shows "window (begin_observation ob policy s) = window s" "within F (begin_observation ob policy s)"
    "capacity (recent_progress (begin_observation ob policy s)) = max (progress_history_capacity policy) 1"
proof -
  have "length (recent (recent_progress s)) \<le> max (progress_history_capacity policy) 1"
    using within_length [OF assms(1,2)] assms(3) by simp
  then have r: "recent (recent_progress (begin_observation ob policy s)) = recent (recent_progress s)"
    by (simp add: begin_observation_def migrate_def set_capacity_def trim_to_capacity_def Let_def)
  then show "window (begin_observation ob policy s) = window s" "within F (begin_observation ob policy s)"
    using assms(1) by (simp_all add: within_def)
  show "capacity (recent_progress (begin_observation ob policy s)) = max (progress_history_capacity policy) 1"
    by (simp add: begin_observation_def Let_def)
qed

lemma recent_settle [simp]: "recent_progress (settle_observation g c i s) = recent_progress s"
  by (simp add: settle_observation_def Let_def)

lemma recovery_total_begin: "recovery_total (begin_observation ob policy s) = recovery_total s"
  by (simp add: begin_observation_def migrate_def Let_def)

lemma recovery_total_settle: "recovery_total (settle_observation g c i s) = recovery_total s"
  by (simp add: settle_observation_def Let_def)

lemma recovery_total_reduce:
  "recovery_total (snd (reduce_task_stall_observation sha ob policy s)) = recovery_total s"
proof -
  let ?s1 = "begin_observation ob policy s"
  have "recovery_total (snd (fold note_fingerprint (candidate_fingerprints sha ob ?s1) (False, ?s1))) = recovery_total s"
    using note_fingerprints_frame [of "candidate_fingerprints sha ob ?s1" "(False, ?s1)"]
    by (simp add: recovery_total_begin)
  then show ?thesis
    by (simp add: reduce_task_stall_observation_def recovery_total_settle Let_def case_prod_beta)
qed

text \<open>
  An observation shows only fingerprints of \<open>F\<close>: those of its operation, and the one of the revision
  of the user's instructions if there is one. A result counts when it is complete and no status poll.
\<close>

definition confined :: "(string \<Rightarrow> string) \<Rightarrow> progress_fingerprint set \<Rightarrow> completed_tool_observation \<Rightarrow> bool" where
  "confined sha F ob \<longleftrightarrow>
     (user_instruction_revision ob \<noteq> 0 \<longrightarrow> revision_fingerprint sha (user_instruction_revision ob) \<in> F) \<and>
     set (fingerprints_from_operation sha (ob_operation ob)) \<subseteq> F"

definition counts :: "completed_tool_observation \<Rightarrow> bool" where
  "counts ob \<longleftrightarrow> completed (ob_operation ob) \<and> \<not> is_status_poll (ob_operation ob)"

lemma candidates_confined: "confined sha F ob \<Longrightarrow> set (candidate_fingerprints sha ob s) \<subseteq> F"
  by (auto simp: confined_def candidate_fingerprints_def)

lemma observation_step:
  assumes F: "finite F" "card F \<le> max (progress_history_capacity policy) 1" and w: "within F s"
    and ob: "confined sha F ob" and on: "mode policy \<noteq> Off"
    and level: "epoch_recovery_level s = 0" "recovery_state s = NoRecovery"
  defines "s' \<equiv> snd (reduce_task_stall_observation sha ob policy s)"
  shows "within F s' \<and> epoch_recovery_level s' = 0 \<and> recovery_state s' = NoRecovery \<and> window s \<subseteq> window s' \<and>
    (if window s' = window s
     then tool_results_since_progress s' =
       (if counts ob then saturating_add (tool_results_since_progress s) 1 else tool_results_since_progress s)
     else tool_results_since_progress s' = 0)"
proof (cases "completed (ob_operation ob)")
  case False
  then have "s' = s" by (simp add: s'_def reduce_task_stall_observation_def)
  with False w level show ?thesis by (simp add: counts_def)
next
  case True
  let ?s1 = "begin_observation ob policy s"
  let ?fps = "candidate_fingerprints sha ob ?s1"
  let ?r = "fold note_fingerprint ?fps (False, ?s1)"
  have b: "epoch_recovery_level ?s1 = 0" "recovery_state ?s1 = NoRecovery"
      "tool_results_since_progress ?s1 = tool_results_since_progress s"
    using level by (simp_all add: begin_observation_def migrate_def Let_def)
  have n: "within F (snd ?r)" "window (snd ?r) = set ?fps \<union> window s"
      "fst ?r \<longleftrightarrow> \<not> set ?fps \<subseteq> window s"
    using note_fingerprints_within [of F ?s1 ?fps False] window_begin [OF w F, of ob] F candidates_confined [OF ob]
    by auto
  have f: "tool_results_since_progress (snd ?r) = tool_results_since_progress s"
      "epoch_recovery_level (snd ?r) = 0" "recovery_state (snd ?r) = NoRecovery"
    using note_fingerprints_frame [of ?fps "(False, ?s1)"] b by auto
  define s3 where "s3 = (if task_revision ?s1 < user_instruction_revision ob
      then (snd ?r)\<lparr>task_revision := user_instruction_revision ob\<rparr> else snd ?r)"
  have s3: "tool_results_since_progress s3 = tool_results_since_progress s" "epoch_recovery_level s3 = 0"
    "recovery_state s3 = NoRecovery" "recent_progress s3 = recent_progress (snd ?r)"
    using f by (simp_all add: s3_def)
  have s': "s' = settle_observation (fst ?r) (counts ob) (source_index (ob_operation ob)) s3"
    using True on by (simp add: s'_def reduce_task_stall_observation_def Let_def case_prod_beta s3_def counts_def)
  have "recent_progress s' = recent_progress (snd ?r)" by (simp add: s' s3(4))
  then have "within F s'" "window s' = set ?fps \<union> window s"
    using n(1,2) by (simp_all add: within_def)
  then show ?thesis
    using s3 n(3) by (auto simp: s' settle_observation_def post_recovery_eligible_def Let_def)
qed

text \<open>
  While fewer than the threshold of results are counted, every confined result that counts uses up some
  of the potential, and no other observation adds to it: either the fingerprints not seen yet or the results left until the threshold.
\<close>

definition stall_potential :: "progress_fingerprint set \<Rightarrow> nat \<Rightarrow> task_stall_state \<Rightarrow> nat" where
  "stall_potential F n s = card (F - window s) * n + (n - unat (tool_results_since_progress s))"

lemma stall_potential_decreases:
  assumes "finite F" "within F s'" "window s \<subseteq> window s'"
    and "if window s' = window s
     then tool_results_since_progress s' =
       (if c then saturating_add (tool_results_since_progress s) 1 else tool_results_since_progress s)
     else tool_results_since_progress s' = 0"
    and n: "unat (tool_results_since_progress s) < n" "n < 2 ^ 32"
  shows "stall_potential F n s' + of_bool c \<le> stall_potential F n s"
proof (cases "window s' = window s")
  case True
  with assms have "unat (tool_results_since_progress s') = unat (tool_results_since_progress s) + of_bool c"
    by (cases c) (simp_all add: unat_saturating_add)
  with True n show ?thesis by (cases c) (simp_all add: stall_potential_def)
next
  case False
  have "card (F - window s') < card (F - window s)"
    using False assms(1-3) by (intro psubset_card_mono) (auto simp: within_def)
  then have "(card (F - window s') + 1) * n \<le> card (F - window s) * n"
    by (intro mult_le_mono1) simp
  with False assms(4) n show ?thesis by (cases c) (simp_all add: stall_potential_def)
qed

lemma stall_reached:
  assumes F: "finite F" "card F \<le> max (progress_history_capacity policy) 1" and on: "mode policy \<noteq> Off"
    and n: "n < 2 ^ 32"
  shows "within F s \<Longrightarrow> epoch_recovery_level s = 0 \<Longrightarrow> recovery_state s = NoRecovery \<Longrightarrow>
    list_all (confined sha F) obs \<Longrightarrow> stall_potential F n s \<le> length (filter counts obs) \<Longrightarrow>
    \<exists>k \<le> length obs.
      let s' = fold (\<lambda>ob s. snd (reduce_task_stall_observation sha ob policy s)) (take k obs) s in
      n \<le> unat (tool_results_since_progress s') \<and> epoch_recovery_level s' = 0 \<and>
      recovery_total s' = recovery_total s"
proof (induction obs arbitrary: s)
  case Nil
  then show ?case by (simp add: stall_potential_def)
next
  case (Cons ob obs)
  let ?s' = "snd (reduce_task_stall_observation sha ob policy s)"
  show ?case
  proof (cases "n \<le> unat (tool_results_since_progress s)")
    case True
    with Cons.prems show ?thesis by (intro exI [of _ 0]) simp
  next
    case False
    have ob: "confined sha F ob" using Cons.prems(4) by simp
    note st = observation_step [OF F Cons.prems(1) ob on Cons.prems(2,3)]
    have "stall_potential F n ?s' + of_bool (counts ob) \<le> stall_potential F n s"
      by (rule stall_potential_decreases) (use st F n False in auto)
    then have "stall_potential F n ?s' \<le> length (filter counts obs)"
      using Cons.prems(5) by (cases "counts ob") simp_all
    with Cons.IH [of ?s'] st Cons.prems(4) obtain k where "k \<le> length obs"
      "let s' = fold (\<lambda>ob s. snd (reduce_task_stall_observation sha ob policy s)) (take k obs) ?s' in
       n \<le> unat (tool_results_since_progress s') \<and> epoch_recovery_level s' = 0 \<and> recovery_total s' = recovery_total ?s'"
      by auto
    moreover have "recovery_total ?s' = recovery_total s" by (rule recovery_total_reduce)
    ultimately show ?thesis by (intro exI [of _ "Suc k"]) (simp add: Let_def)
  qed
qed


definition idle_read :: completed_tool_observation where
  "idle_read =
     \<lparr>ob_operation = \<lparr>source_index = 1, occurrence_id = ''o'', eo_operation = Query, channel = Workspace, subjects = [],
        eo_result = Completed, stable_evidence = [], descriptor = ''Query/Workspace [] rg x'', completed = True\<rparr>,
      attributed = True, user_instruction_revision = 0\<rparr>"

lemma idle_read_confined: "confined sha F idle_read"
  by (simp add: confined_def idle_read_def is_status_poll_def fingerprints_from_operation_def evidence_fingerprints_def)

text \<open>The same read under the first instruction of the user.\<close>

definition instructed_read :: completed_tool_observation where
  "instructed_read = idle_read\<lparr>user_instruction_revision := 1\<rparr>"

lemma instructed_read_confined: "confined sha {revision_fingerprint sha 1} instructed_read" "counts instructed_read"
  using idle_read_confined [of sha "{}"]
  by (simp_all add: instructed_read_def confined_def counts_def) (simp add: idle_read_def is_status_poll_def)


section \<open>The recovery ladder\<close>

datatype stall_op = Observe completed_tool_observation | Reconcile u32 "nat option"

fun stall_step :: "(string \<Rightarrow> string) \<Rightarrow> task_stall_policy \<Rightarrow> stall_op \<Rightarrow> task_stall_state \<Rightarrow> task_stall_state" where
  "stall_step sha policy (Observe ob) s = snd (reduce_task_stall_observation sha ob policy s)"
| "stall_step sha policy (Reconcile count idx) s = reconcile_stall_recovery count idx s"

text \<open>The level of the epoch and the recovery state tell the same story.\<close>

fun rung :: "stall_recovery_state \<Rightarrow> u8" where
  "rung NoRecovery = 0"
| "rung Warned = 1"
| "rung Escalated = 2"

definition ladder_inv :: "task_stall_state \<Rightarrow> bool" where
  "ladder_inv s \<longleftrightarrow> epoch_recovery_level s = rung (recovery_state s)"

lemma rung_le: "rung r \<le> 2"
  by (cases r) simp_all

lemma migrate_ladder: "ladder_inv s \<Longrightarrow> migrate s = s"
  by (cases "recovery_state s") (simp_all add: ladder_inv_def migrate_def)

lemma ladder_begin: "ladder_inv s \<Longrightarrow> ladder_inv (begin_observation ob policy s)"
  using migrate_ladder [of "s\<lparr>schema_version := TASK_STALL_SCHEMA_VERSION\<rparr>"]
  by (simp add: begin_observation_def ladder_inv_def Let_def)

lemma ladder_settle: "ladder_inv s \<Longrightarrow> ladder_inv (settle_observation g c i s)"
  by (simp add: settle_observation_def ladder_inv_def Let_def)

lemma ladder_reduce:
  assumes "ladder_inv s"
  shows "ladder_inv (snd (reduce_task_stall_observation sha ob policy s))"
proof -
  let ?s1 = "begin_observation ob policy s"
  let ?s2 = "snd (fold note_fingerprint (candidate_fingerprints sha ob ?s1) (False, ?s1))"
  have "ladder_inv ?s2"
    using note_fingerprints_frame [of "candidate_fingerprints sha ob ?s1" "(False, ?s1)"] ladder_begin [OF assms]
    by (simp add: ladder_inv_def)
  moreover from this have "ladder_inv (?s2\<lparr>task_revision := r\<rparr>)" for r
    by (simp add: ladder_inv_def)
  ultimately show ?thesis
    using assms by (simp add: reduce_task_stall_observation_def Let_def case_prod_beta ladder_settle)
qed

lemma epoch_level_step:
  assumes "(m :: u32) \<noteq> 0"
  shows "min (saturating_add (rung r) (ucast (min m 2))) 2 = (if r = NoRecovery \<and> m = 1 then 1 else 2)"
proof -
  have "unat m \<noteq> 0" using assms by (simp add: unat_eq_zero)
  then have "unat m = 1 \<or> 2 \<le> unat m" by linarith
  then have "m = 1 \<or> 2 \<le> m" by (auto simp: word_le_nat_alt word_unat_eq_iff)
  then have "min m 2 = (if m = 1 then 1 else 2)" by (auto simp: min_def)
  then show ?thesis by (cases r) (simp_all add: saturating_add_def)
qed

lemma reconcile_level:
  assumes inv: "ladder_inv s" and lt: "recovery_total s < count"
    and r_def: "r = (if recovery_state s = NoRecovery \<and> saturating_sub count (recovery_total s) = 1 then Warned else Escalated)"
  shows "reconcile_stall_recovery count idx s =
    s\<lparr>recovery_total := count, epoch_recovery_level := rung r, recovery_state := r, last_recovery_source_index := idx\<rparr>"
proof -
  let ?m = "saturating_sub count (recovery_total s)"
  have "?m \<noteq> 0" using lt by (auto simp: saturating_sub_def dest: order_less_not_sym)
  from epoch_level_step [OF this]
  have l: "min (saturating_add (epoch_recovery_level s) (ucast (min ?m 2))) 2 = rung r"
    using inv by (simp only: ladder_inv_def r_def) simp
  have "(if 2 \<le> rung r then Escalated else Warned) = r" by (simp add: r_def word_le_nat_alt)
  with l lt show ?thesis
    unfolding reconcile_stall_recovery_def Let_def migrate_ladder [OF inv] by (simp only: if_True)
qed

lemma ladder_reconcile: "ladder_inv s \<Longrightarrow> ladder_inv (reconcile_stall_recovery count idx s)"
  by (cases "recovery_total s < count")
    (simp_all only: reconcile_level, simp_all add: reconcile_stall_recovery_def migrate_ladder ladder_inv_def Let_def)

lemma ladder_step: "ladder_inv s \<Longrightarrow> ladder_inv (stall_step sha policy op s)"
  by (cases op) (simp_all add: ladder_reduce ladder_reconcile)

interpretation ladder: step_system "stall_step sha policy" ladder_inv
  by unfold_locales (rule ladder_step)

lemma ladder_default: "ladder_inv default_stall_state"
  by (simp add: ladder_inv_def default_stall_state_def)

lemma next_recovery:
  assumes "unat (n :: u32) < 2 ^ 32 - 1"
  shows "n < saturating_add n 1" "saturating_sub (saturating_add n 1) n = 1"
    "unat (saturating_add n 1) = unat n + 1"
proof -
  show u: "unat (saturating_add n 1) = unat n + 1" using assms by (simp add: unat_saturating_add)
  then show lt: "n < saturating_add n 1" by (simp add: word_less_nat_alt)
  have "unat (saturating_sub (saturating_add n 1) n) = unat (1 :: u32)"
    using u by (simp add: unat_saturating_sub)
  then show "saturating_sub (saturating_add n 1) n = 1" by (simp only: word_unat_eq_iff)
qed

lemma reconcile_decided:
  assumes inv: "ladder_inv s" and total: "unat (recovery_total s) < 2 ^ 32 - 1"
    and d: "decide_task_stall_recovery s policy = Some a"
  shows "recovery_state (reconcile_stall_recovery (sa_recovery_count a) idx s) = sa_level a"
    "recovery_total (reconcile_stall_recovery (sa_recovery_count a) idx s) = saturating_add (recovery_total s) 1"
    "rung (sa_level a) = rung (recovery_state s) + 1"
proof -
  have a: "sa_recovery_count a = saturating_add (recovery_total s) 1"
      "sa_level a = (if recovery_state s = NoRecovery then Warned else Escalated)" "recovery_state s \<noteq> Escalated"
    using d inv
    by (cases "recovery_state s"; auto simp: decide_task_stall_recovery_def ladder_inv_def split: if_splits)+
  then show "rung (sa_level a) = rung (recovery_state s) + 1" by (cases "recovery_state s") simp_all
  note n = next_recovery [OF total]
  show "recovery_state (reconcile_stall_recovery (sa_recovery_count a) idx s) = sa_level a"
    "recovery_total (reconcile_stall_recovery (sa_recovery_count a) idx s) = saturating_add (recovery_total s) 1"
    unfolding a(1) reconcile_level [OF inv n(1) refl] by (simp_all add: n(2) a(2))
qed

text \<open>
  The recovery ladder: after any sequence of observations and marker reconciliations the epoch is on
  one of the three rungs its recovery state names. A decided recovery whose marker is found in the
  history moves the epoch up by exactly the one rung that was decided, and on the top rung no recovery
  is decided any more.
\<close>

theorem recovery_ladder:
  assumes "s = fold (stall_step sha policy) ops default_stall_state"
    and "unat (recovery_total s) < 2 ^ 32 - 1"
  shows "epoch_recovery_level s = rung (recovery_state s) \<and>
    (epoch_recovery_level s = 2 \<longrightarrow> decide_task_stall_recovery s policy = None) \<and>
    (\<forall>a. decide_task_stall_recovery s policy = Some a \<longrightarrow>
       (let s' = reconcile_stall_recovery (sa_recovery_count a) idx s in
          recovery_state s' = sa_level a \<and> epoch_recovery_level s' = epoch_recovery_level s + 1 \<and>
          unat (recovery_total s') = unat (recovery_total s) + 1))"
proof -
  have inv: "ladder_inv s" unfolding assms(1) by (rule ladder.run_invar) (rule ladder_default)
  have "ladder_inv (reconcile_stall_recovery n idx s)" for n
    by (rule ladder_reconcile) (rule inv)
  with inv show ?thesis
    using reconcile_decided [OF inv assms(2)] next_recovery(3) [OF assms(2)]
    by (auto simp: ladder_inv_def Let_def decide_task_stall_recovery_def)
qed

definition hasty_policy :: task_stall_policy where
  "hasty_policy = recover_policy\<lparr>recovery_after_tool_results := 1\<rparr>"

theorem recovery_ladder_witness:
  "let s = fold (stall_step (\<lambda>s. s) hasty_policy) [Observe idle_read] default_stall_state in
     \<exists>a. decide_task_stall_recovery s hasty_policy = Some a \<and>
       epoch_recovery_level (reconcile_stall_recovery (sa_recovery_count a) (Some 5) s) = 1"
proof -
  let ?s = "fold (stall_step (\<lambda>s. s) hasty_policy) [Observe idle_read] default_stall_state"
  have t: "recovery_total ?s = 0" by (simp add: recovery_total_reduce) (simp add: default_stall_state_def)
  have st: "epoch_recovery_level ?s = 0" "tool_results_since_progress ?s = 1"
    using observation_step [OF _ _ _ idle_read_confined [where F = "{}"], of hasty_policy default_stall_state "\<lambda>s. s"]
    by (auto simp: counts_def idle_read_def is_status_poll_def hasty_policy_def recover_policy_def default_stall_state_def within_def tracker_with_capacity_def
        saturating_add_def split: if_splits)
  obtain a where "decide_task_stall_recovery ?s hasty_policy = Some a"
    using st by (simp add: decide_task_stall_recovery_def hasty_policy_def recover_policy_def injects_recovery_def)
  then show ?thesis
    using recovery_ladder [OF refl, of "\<lambda>s. s" hasty_policy "[Observe idle_read]" "Some 5"] t st(1)
    by (auto simp: Let_def)
qed

end
