(* ===== verification/Broker_Store.thy ===== *)
theory Broker_Store
  imports Json_Value "HOL-Library.AList"
begin

text \<open>
  The durable stores of the remote broker (\<open>crates/vellum-remote-broker/src/event_store.rs\<close>,
  \<open>snapshot_store.rs\<close>, \<open>lease_manager.rs\<close>, \<open>approval_registry.rs\<close>) over one database: threads and their
  event log, acknowledgements, commands with their idempotency keys, snapshots, writer leases and
  pending approvals.

  A table is the list of its rows, keyed by its primary key where it has one; an operation is what its
  SQL statements do to the tables, one call of an operation at a time as under the connection's mutex.
  \<open>UNIQUE\<close> and \<open>FOREIGN KEY\<close> constraints of the schema (\<open>migrations/\<close>) are error branches; failures
  of the disk are not modelled. Columns that are only ever written \<open>NULL\<close> or a constant are left out.
  An instant is a number of nanoseconds, columns hold milliseconds, and \<open>i64\<close> columns are signed
  integers to which \<open>u64\<close> values are cast. Serializers, SHA-256 and the texts of errors are the
  parameter \<open>codec\<close>.
\<close>

section \<open>Protocol types\<close>

datatype thread_runtime_status =
    UnknownStatus | StoredNotLoaded | Loading | Idle | Running | WaitingForApproval | Interrupted
  | CompletedStatus | FailedStatus | Orphaned | IndeterminateStatus

type_synonym instant = int

datatype approval_decision = Accept | Decline

datatype approval_state =
    ApPending | ApPresented | ApAccepted | ApDeclined | ApCancelled | ApResolved | ApOrphaned | ApExpired

record active_turn_view =
  tv_turn_id :: string
  tv_state :: thread_runtime_status
  tv_started_at :: "instant option"

record writer_lease_view =
  wl_lease_id :: string
  wl_holder_device_id :: string
  wl_expires_at :: instant
  wl_generation :: u64

record pending_approval =
  pa_approval_token :: string
  pa_thread_id :: "string option"
  pa_turn_id :: "string option"
  pa_item_id :: "string option"
  pa_method :: string
  pa_state :: approval_state
  pa_created_at :: instant
  pa_request :: json

record thread_snapshot =
  sn_thread_id :: string
  sn_snapshot_seq :: u64
  sn_status :: thread_runtime_status
  sn_loaded :: bool
  sn_active_turn :: "active_turn_view option"
  sn_pending_approvals :: "pending_approval list"
  sn_items :: "json list"
  sn_usage :: "json option"
  sn_writer_lease :: "writer_lease_view option"

record thread_event =
  te_seq :: u64
  te_thread_id :: string
  te_upstream_epoch :: u64
  te_method :: string
  te_occurred_at :: instant
  te_turn_id :: "string option"
  te_item_id :: "string option"
  te_data :: json

datatype json_rpc_id = IdNumber int | IdString string

fun id_to_value :: "json_rpc_id \<Rightarrow> json" where
  "id_to_value (IdNumber n) = JInt n"
| "id_to_value (IdString s) = JString s"

definition is_i64 :: "int \<Rightarrow> bool" where
  "is_i64 n \<longleftrightarrow> - (2 ^ 63) \<le> n \<and> n < 2 ^ 63"

fun id_from_value :: "json \<Rightarrow> json_rpc_id option" where
  "id_from_value (JInt n) = (if is_i64 n then Some (IdNumber n) else None)"
| "id_from_value (JString s) = Some (IdString s)"
| "id_from_value _ = None"

section \<open>Rows\<close>

datatype store_error = SqliteForeignKey | SqliteUnique | JsonError

record stored_event =
  se_seq :: u64
  se_thread_seq :: u64
  se_thread_id :: string
  se_turn_id :: "string option"
  se_item_id :: "string option"
  se_upstream_epoch :: u64
  se_method :: string
  se_occurred_at :: instant
  se_payload :: json

text \<open>The active turn of an update: \<open>Some None\<close> clears it, \<open>None\<close> leaves it unchanged.\<close>

record thread_projection_update =
  pu_status :: thread_runtime_status
  pu_loaded :: bool
  pu_active_turn_id :: "string option option"
  pu_upstream_epoch :: "u64 option"

record epoch_row =
  er_started_at_ms :: int
  er_codex_version :: "string option"

record thread_row =
  tr_cwd :: "string option"
  tr_latest_status :: string
  tr_loaded :: bool
  tr_active_turn_id :: "string option"
  tr_last_upstream_epoch :: "int option"
  tr_last_event_seq :: int
  tr_last_snapshot_seq :: "int option"
  tr_created_at_ms :: int
  tr_updated_at_ms :: int

record event_row =
  ev_seq :: int
  ev_thread_id :: string
  ev_turn_id :: "string option"
  ev_item_id :: "string option"
  ev_upstream_epoch :: int
  ev_method :: string
  ev_occurred_at_ms :: int
  ev_received_at_ms :: int
  ev_payload_ciphertext :: string
  ev_payload_sha256 :: string
  ev_thread_seq :: "int option"

record command_row =
  cr_device_id :: string
  cr_thread_id :: "string option"
  cr_command_kind :: string
  cr_command_ciphertext :: string
  cr_state :: string
  cr_result_ciphertext :: "string option"
  cr_error_ciphertext :: "string option"
  cr_created_at_ms :: int
  cr_updated_at_ms :: int
  cr_command_sha256 :: "string option"

record snapshot_row =
  sr_created_at_ms :: int
  sr_payload_ciphertext :: string
  sr_payload_sha256 :: string

record lease_row =
  lr_lease_id :: string
  lr_device_id :: string
  lr_acquired_at_ms :: int
  lr_expires_at_ms :: int
  lr_generation :: int

record device_row =
  dr_display_name :: string
  dr_created_at_ms :: int
  dr_last_seen_at_ms :: "int option"

record approval_row =
  ar_local_token :: string
  ar_upstream_epoch :: int
  ar_upstream_request_id :: string
  ar_upstream_request_id_json :: "string option"
  ar_thread_id :: "string option"
  ar_turn_id :: "string option"
  ar_item_id :: "string option"
  ar_method :: string
  ar_state :: string
  ar_request_ciphertext :: string
  ar_response_ciphertext :: "string option"
  ar_created_at_ms :: int
  ar_presented_at_ms :: "int option"
  ar_resolved_at_ms :: "int option"

record broker_db =
  upstream_epochs :: "(int \<times> epoch_row) list"
  remote_threads :: "(string \<times> thread_row) list"
  remote_events :: "event_row list"
  events_sequence :: int
  client_thread_acks :: "((string \<times> string) \<times> int) list"
  client_commands :: "(string \<times> command_row) list"
  remote_snapshots :: "((string \<times> int) \<times> snapshot_row) list"
  writer_leases :: "(string \<times> lease_row) list"
  client_devices :: "(string \<times> device_row) list"
  pending_server_requests :: "approval_row list"

definition empty_db :: broker_db where
  "empty_db =
     \<lparr>upstream_epochs = [], remote_threads = [], remote_events = [], events_sequence = 0,
      client_thread_acks = [], client_commands = [], remote_snapshots = [], writer_leases = [],
      client_devices = [], pending_server_requests = []\<rparr>"

record codec =
  print_json :: "json \<Rightarrow> string"
  parse_json :: "string \<Rightarrow> json option"
  print_snapshot :: "thread_snapshot \<Rightarrow> string"
  parse_snapshot :: "string \<Rightarrow> thread_snapshot option"
  event_value :: "thread_event \<Rightarrow> json"
  sha256_hex :: "string \<Rightarrow> string"

definition timestamp_millis :: "instant \<Rightarrow> int" where
  "timestamp_millis t = t div 1000000"

definition from_timestamp_millis :: "int \<Rightarrow> instant" where
  "from_timestamp_millis ms = ms * 1000000"

definition as_i64 :: "u64 \<Rightarrow> int" where
  "as_i64 w = sint w"

definition i64_as_u64 :: "int \<Rightarrow> u64" where
  "i64_as_u64 n = word_of_int n"

definition alter :: "'k \<Rightarrow> ('v \<Rightarrow> 'v) \<Rightarrow> ('k \<times> 'v) list \<Rightarrow> ('k \<times> 'v) list" where
  "alter k f rows = (case map_of rows k of Some r \<Rightarrow> AList.update k (f r) rows | None \<Rightarrow> rows)"

section \<open>Threads and the event log\<close>

fun status_name :: "thread_runtime_status \<Rightarrow> string" where
  "status_name UnknownStatus = ''unknown''"
| "status_name StoredNotLoaded = ''stored_not_loaded''"
| "status_name Loading = ''loading''"
| "status_name Idle = ''idle''"
| "status_name Running = ''running''"
| "status_name WaitingForApproval = ''waiting_for_approval''"
| "status_name Interrupted = ''interrupted''"
| "status_name CompletedStatus = ''completed''"
| "status_name FailedStatus = ''failed''"
| "status_name Orphaned = ''orphaned''"
| "status_name IndeterminateStatus = ''indeterminate''"

definition parse_status :: "string \<Rightarrow> thread_runtime_status" where
  "parse_status s =
     (if s = ''unknown'' then UnknownStatus
      else if s = ''stored_not_loaded'' then StoredNotLoaded
      else if s = ''loading'' then Loading
      else if s = ''idle'' then Idle
      else if s = ''running'' then Running
      else if s = ''waiting_for_approval'' then WaitingForApproval
      else if s = ''interrupted'' then Interrupted
      else if s = ''completed'' then CompletedStatus
      else if s = ''failed'' then FailedStatus
      else if s = ''orphaned'' then Orphaned
      else if s = ''indeterminate'' then IndeterminateStatus
      else UnknownStatus)"

definition ensure_thread_on ::
  "string \<Rightarrow> string option \<Rightarrow> thread_runtime_status \<Rightarrow> instant \<Rightarrow> broker_db \<Rightarrow> broker_db"
where
  "ensure_thread_on thread cwd status now db =
     (let ms = timestamp_millis now;
          row = (case map_of (remote_threads db) thread of
                   None \<Rightarrow> \<lparr>tr_cwd = cwd, tr_latest_status = status_name status, tr_loaded = False,
                     tr_active_turn_id = None, tr_last_upstream_epoch = None, tr_last_event_seq = 0,
                     tr_last_snapshot_seq = None, tr_created_at_ms = ms, tr_updated_at_ms = ms\<rparr>
                 | Some r \<Rightarrow> r\<lparr>tr_cwd := or_else cwd (tr_cwd r), tr_updated_at_ms := ms\<rparr>)
      in db\<lparr>remote_threads := AList.update thread row (remote_threads db)\<rparr>)"

definition ensure_thread ::
  "string \<Rightarrow> string option \<Rightarrow> thread_runtime_status \<Rightarrow> instant \<Rightarrow> broker_db \<Rightarrow> broker_db"
where
  "ensure_thread = ensure_thread_on"

definition update_thread_projection ::
  "string \<Rightarrow> thread_projection_update \<Rightarrow> instant \<Rightarrow> broker_db \<Rightarrow> (store_error + unit) \<times> broker_db"
where
  "update_thread_projection thread u now db =
     (let db1 = ensure_thread_on thread None (pu_status u) now db;
          epoch = map_option as_i64 (pu_upstream_epoch u)
      in if (case epoch of Some e \<Rightarrow> map_of (upstream_epochs db1) e = None | None \<Rightarrow> False)
         then (Inl SqliteForeignKey, db1)
         else (Inr (), db1\<lparr>remote_threads := alter thread (\<lambda>r.
           r\<lparr>tr_latest_status := status_name (pu_status u), tr_loaded := pu_loaded u,
             tr_active_turn_id := (case pu_active_turn_id u of Some v \<Rightarrow> v | None \<Rightarrow> tr_active_turn_id r),
             tr_last_upstream_epoch := or_else epoch (tr_last_upstream_epoch r),
             tr_updated_at_ms := timestamp_millis now\<rparr>) (remote_threads db1)\<rparr>))"

definition ensure_epoch :: "u64 \<Rightarrow> string option \<Rightarrow> instant \<Rightarrow> broker_db \<Rightarrow> broker_db" where
  "ensure_epoch epoch version now db =
     (if map_of (upstream_epochs db) (as_i64 epoch) = None
      then db\<lparr>upstream_epochs := AList.update (as_i64 epoch)
                \<lparr>er_started_at_ms = timestamp_millis now, er_codex_version = version\<rparr> (upstream_epochs db)\<rparr>
      else db)"

text \<open>\<open>COALESCE(thread_seq, seq)\<close>, the cursor of an event.\<close>

definition event_cursor :: "event_row \<Rightarrow> int" where
  "event_cursor e = (case ev_thread_seq e of Some n \<Rightarrow> n | None \<Rightarrow> ev_seq e)"

definition thread_events :: "string \<Rightarrow> broker_db \<Rightarrow> event_row list" where
  "thread_events thread db = filter (\<lambda>e. ev_thread_id e = thread) (remote_events db)"

text \<open>\<open>COALESCE(MAX(thread_seq), 0) + 1\<close>; \<open>MAX\<close> skips \<open>NULL\<close>.\<close>

definition next_thread_seq :: "string \<Rightarrow> broker_db \<Rightarrow> int" where
  "next_thread_seq thread db =
     (case List.map_filter ev_thread_seq (thread_events thread db) of
        [] \<Rightarrow> 1
      | n # ns \<Rightarrow> fold max ns n + 1)"

definition append_event ::
  "('x) codec_scheme \<Rightarrow> string \<Rightarrow> u64 \<Rightarrow> string \<Rightarrow> json \<Rightarrow> string option \<Rightarrow> string option \<Rightarrow> instant \<Rightarrow>
     thread_projection_update \<Rightarrow> instant \<Rightarrow> broker_db \<Rightarrow> stored_event \<times> broker_db"
where
  "append_event c thread epoch method payload turn item occurred u received db =
     (let bytes = print_json c payload;
          db1 = ensure_thread_on thread None (pu_status u) received (ensure_epoch epoch None received db);
          n = next_thread_seq thread db1;
          s = events_sequence db1 + 1;
          row = \<lparr>ev_seq = s, ev_thread_id = thread, ev_turn_id = turn, ev_item_id = item,
                 ev_upstream_epoch = as_i64 epoch, ev_method = method,
                 ev_occurred_at_ms = timestamp_millis occurred, ev_received_at_ms = timestamp_millis received,
                 ev_payload_ciphertext = bytes, ev_payload_sha256 = sha256_hex c bytes, ev_thread_seq = Some n\<rparr>
      in (\<lparr>se_seq = i64_as_u64 s, se_thread_seq = i64_as_u64 n, se_thread_id = thread, se_turn_id = turn,
           se_item_id = item, se_upstream_epoch = epoch, se_method = method, se_occurred_at = occurred,
           se_payload = payload\<rparr>,
          db1\<lparr>remote_events := remote_events db1 @ [row], events_sequence := s,
              remote_threads := alter thread (\<lambda>r.
                r\<lparr>tr_last_event_seq := n, tr_last_upstream_epoch := Some (as_i64 epoch),
                  tr_latest_status := status_name (pu_status u), tr_loaded := pu_loaded u,
                  tr_updated_at_ms := timestamp_millis received,
                  tr_active_turn_id := (case pu_active_turn_id u of
                     Some v \<Rightarrow> v | None \<Rightarrow> or_else turn (tr_active_turn_id r))\<rparr>) (remote_threads db1)\<rparr>))"

definition stored_event_of_row :: "('x) codec_scheme \<Rightarrow> event_row \<Rightarrow> stored_event" where
  "stored_event_of_row c e =
     \<lparr>se_seq = i64_as_u64 (ev_seq e), se_thread_seq = i64_as_u64 (event_cursor e), se_thread_id = ev_thread_id e,
      se_turn_id = ev_turn_id e, se_item_id = ev_item_id e, se_upstream_epoch = i64_as_u64 (ev_upstream_epoch e),
      se_method = ev_method e, se_occurred_at = from_timestamp_millis (ev_occurred_at_ms e),
      se_payload = (case parse_json c (ev_payload_ciphertext e) of Some v \<Rightarrow> v | None \<Rightarrow> JNull)\<rparr>"

definition events_after :: "('x) codec_scheme \<Rightarrow> string \<Rightarrow> u64 \<Rightarrow> nat \<Rightarrow> broker_db \<Rightarrow> stored_event list" where
  "events_after c thread after limit db =
     map (stored_event_of_row c)
       (take limit (sort_key event_cursor (filter (\<lambda>e. as_i64 after < event_cursor e) (thread_events thread db))))"

definition TIMELINE_METHODS :: "string list" where
  "TIMELINE_METHODS = [''turn/started'', ''turn/completed'', ''item/started'', ''item/completed'']"

definition session_timeline_events :: "('x) codec_scheme \<Rightarrow> string \<Rightarrow> broker_db \<Rightarrow> stored_event list" where
  "session_timeline_events c thread db =
     map (stored_event_of_row c)
       (sort_key event_cursor (filter (\<lambda>e. ev_method e \<in> set TIMELINE_METHODS) (thread_events thread db)))"

definition latest_seq :: "string \<Rightarrow> broker_db \<Rightarrow> u64" where
  "latest_seq thread db =
     (case map_of (remote_threads db) thread of
        Some r \<Rightarrow> i64_as_u64 (tr_last_event_seq r)
      | None \<Rightarrow>
          (case map event_cursor (thread_events thread db) of
             [] \<Rightarrow> 0
           | n # ns \<Rightarrow> i64_as_u64 (fold max ns n)))"

definition earliest_seq :: "string \<Rightarrow> broker_db \<Rightarrow> u64 option" where
  "earliest_seq thread db =
     (case map event_cursor (thread_events thread db) of
        [] \<Rightarrow> None
      | n # ns \<Rightarrow> Some (i64_as_u64 (fold min ns n)))"

definition thread_projection ::
  "string \<Rightarrow> broker_db \<Rightarrow> (thread_runtime_status \<times> bool \<times> string option \<times> u64) option"
where
  "thread_projection thread db =
     map_option (\<lambda>r. (parse_status (tr_latest_status r), tr_loaded r, tr_active_turn_id r,
                      i64_as_u64 (tr_last_event_seq r))) (map_of (remote_threads db) thread)"

definition into_protocol :: "stored_event \<Rightarrow> thread_event" where
  "into_protocol e =
     \<lparr>te_seq = se_thread_seq e, te_thread_id = se_thread_id e, te_upstream_epoch = se_upstream_epoch e,
      te_method = se_method e, te_occurred_at = se_occurred_at e, te_turn_id = se_turn_id e,
      te_item_id = se_item_id e, te_data = se_payload e\<rparr>"

section \<open>Acknowledgements and commands\<close>

definition set_ack :: "string \<Rightarrow> string \<Rightarrow> u64 \<Rightarrow> broker_db \<Rightarrow> broker_db" where
  "set_ack device thread through db =
     (let n = as_i64 through;
          m = (case map_of (client_thread_acks db) (device, thread) of
                 Some old \<Rightarrow> if old < n then n else old
               | None \<Rightarrow> n)
      in db\<lparr>client_thread_acks := AList.update (device, thread) m (client_thread_acks db)\<rparr>)"

definition store_command ::
  "('x) codec_scheme \<Rightarrow> string \<Rightarrow> string \<Rightarrow> string option \<Rightarrow> string \<Rightarrow> json \<Rightarrow> string \<Rightarrow> json option \<Rightarrow> json option \<Rightarrow>
     instant \<Rightarrow> broker_db \<Rightarrow> broker_db"
where
  "store_command c key device thread kind command state res err now db =
     (let bytes = print_json c command;
          ms = timestamp_millis now;
          row = (case map_of (client_commands db) key of
                   None \<Rightarrow> \<lparr>cr_device_id = device, cr_thread_id = thread, cr_command_kind = kind,
                     cr_command_ciphertext = bytes, cr_state = state,
                     cr_result_ciphertext = map_option (print_json c) res,
                     cr_error_ciphertext = map_option (print_json c) err,
                     cr_created_at_ms = ms, cr_updated_at_ms = ms, cr_command_sha256 = Some (sha256_hex c bytes)\<rparr>
                 | Some r \<Rightarrow> r\<lparr>cr_state := state, cr_result_ciphertext := map_option (print_json c) res,
                     cr_error_ciphertext := map_option (print_json c) err, cr_updated_at_ms := ms,
                     cr_command_sha256 := Some (sha256_hex c bytes)\<rparr>)
      in db\<lparr>client_commands := AList.update key row (client_commands db)\<rparr>)"

record stored_command =
  sc_state :: string
  sc_result :: "json option"
  sc_error :: "json option"
  sc_kind :: "string option"
  sc_device :: "string option"
  sc_sha :: "string option"

definition decode_column :: "('x) codec_scheme \<Rightarrow> string option \<Rightarrow> store_error + json option" where
  "decode_column c bytes =
     (case bytes of
        None \<Rightarrow> Inr None
      | Some b \<Rightarrow> (case parse_json c b of Some v \<Rightarrow> Inr (Some v) | None \<Rightarrow> Inl JsonError))"

definition get_command :: "('x) codec_scheme \<Rightarrow> string \<Rightarrow> broker_db \<Rightarrow> store_error + stored_command option" where
  "get_command c key db =
     (case map_of (client_commands db) key of
        None \<Rightarrow> Inr None
      | Some r \<Rightarrow>
          (case decode_column c (cr_result_ciphertext r) of
             Inl e \<Rightarrow> Inl e
           | Inr res \<Rightarrow>
               (case decode_column c (cr_error_ciphertext r) of
                  Inl e \<Rightarrow> Inl e
                | Inr err \<Rightarrow> Inr (Some \<lparr>sc_state = cr_state r, sc_result = res, sc_error = err,
                    sc_kind = Some (cr_command_kind r), sc_device = Some (cr_device_id r),
                    sc_sha = cr_command_sha256 r\<rparr>))))"

definition SIDE_EFFECT_KINDS :: "string list" where
  "SIDE_EFFECT_KINDS = [''thread.start'', ''turn.start'', ''turn.interrupt'', ''approval.respond'']"

definition is_interrupted_command :: "command_row \<Rightarrow> bool" where
  "is_interrupted_command r \<longleftrightarrow> cr_state r = ''processing'' \<and> cr_command_kind r \<in> set SIDE_EFFECT_KINDS"

definition mark_processing_indeterminate :: "instant \<Rightarrow> broker_db \<Rightarrow> u64 \<times> broker_db" where
  "mark_processing_indeterminate now db =
     (as_u64 (length (filter (is_interrupted_command \<circ> snd) (client_commands db))),
      db\<lparr>client_commands := map (\<lambda>(k, r).
           (k, if is_interrupted_command r
               then r\<lparr>cr_state := ''indeterminate'', cr_updated_at_ms := timestamp_millis now\<rparr> else r))
         (client_commands db)\<rparr>)"

section \<open>Snapshots\<close>

definition save_snapshot ::
  "('x) codec_scheme \<Rightarrow> thread_snapshot \<Rightarrow> instant \<Rightarrow> broker_db \<Rightarrow> (store_error + unit) \<times> broker_db"
where
  "save_snapshot c sn now db =
     (let bytes = print_snapshot c sn;
          ms = timestamp_millis now;
          n = as_i64 (sn_snapshot_seq sn)
      in if map_of (remote_threads db) (sn_thread_id sn) = None then (Inl SqliteForeignKey, db)
         else (Inr (), db\<lparr>
           remote_snapshots := AList.update (sn_thread_id sn, n)
             \<lparr>sr_created_at_ms = ms, sr_payload_ciphertext = bytes, sr_payload_sha256 = sha256_hex c bytes\<rparr>
             (remote_snapshots db),
           remote_threads := alter (sn_thread_id sn)
             (\<lambda>r. r\<lparr>tr_last_snapshot_seq := Some n, tr_updated_at_ms := ms\<rparr>) (remote_threads db)\<rparr>))"

text \<open>\<open>ORDER BY snapshot_seq DESC LIMIT 1\<close> over a primary key: the row with the greatest number.\<close>

fun newest_snapshot :: "((string \<times> int) \<times> snapshot_row) list \<Rightarrow> string \<Rightarrow> (int \<times> snapshot_row) option" where
  "newest_snapshot [] thread = None"
| "newest_snapshot (((t, n), r) # rows) thread =
     (if t \<noteq> thread then newest_snapshot rows thread
      else case newest_snapshot rows thread of
             Some (m, r') \<Rightarrow> if n < m then Some (m, r') else Some (n, r)
           | None \<Rightarrow> Some (n, r))"

definition latest_snapshot :: "('x) codec_scheme \<Rightarrow> string \<Rightarrow> broker_db \<Rightarrow> store_error + thread_snapshot option" where
  "latest_snapshot c thread db =
     (case newest_snapshot (remote_snapshots db) thread of
        None \<Rightarrow> Inr None
      | Some (n, r) \<Rightarrow>
          (case parse_snapshot c (sr_payload_ciphertext r) of
             Some sn \<Rightarrow> Inr (Some sn)
           | None \<Rightarrow> Inl JsonError))"

definition build_fallback_snapshot ::
  "string \<Rightarrow> u64 \<Rightarrow> thread_runtime_status \<Rightarrow> bool \<Rightarrow> pending_approval list \<Rightarrow> writer_lease_view option \<Rightarrow>
     thread_snapshot"
where
  "build_fallback_snapshot thread n status loaded pending lease =
     \<lparr>sn_thread_id = thread, sn_snapshot_seq = n, sn_status = status, sn_loaded = loaded, sn_active_turn = None,
      sn_pending_approvals = pending, sn_items = [], sn_usage = None, sn_writer_lease = lease\<rparr>"

section \<open>Writer leases\<close>

definition ensure_device :: "string \<Rightarrow> string \<Rightarrow> instant \<Rightarrow> broker_db \<Rightarrow> broker_db" where
  "ensure_device device name now db =
     (let ms = timestamp_millis now;
          row = (case map_of (client_devices db) device of
                   None \<Rightarrow> \<lparr>dr_display_name = name, dr_created_at_ms = ms, dr_last_seen_at_ms = Some ms\<rparr>
                 | Some r \<Rightarrow> r\<lparr>dr_display_name := name, dr_last_seen_at_ms := Some ms\<rparr>)
      in db\<lparr>client_devices := AList.update device row (client_devices db)\<rparr>)"

text \<open>\<open>DELETE FROM writer_leases WHERE expires_at_ms < now\<close>.\<close>

definition purge_expired :: "int \<Rightarrow> (string \<times> lease_row) list \<Rightarrow> (string \<times> lease_row) list" where
  "purge_expired ms leases = filter (\<lambda>(t, r). \<not> lr_expires_at_ms r < ms) leases"

definition lease_view :: "lease_row \<Rightarrow> writer_lease_view" where
  "lease_view r =
     \<lparr>wl_lease_id = lr_lease_id r, wl_holder_device_id = lr_device_id r,
      wl_expires_at = from_timestamp_millis (lr_expires_at_ms r), wl_generation = i64_as_u64 (lr_generation r)\<rparr>"

definition lease_expiry :: "int \<Rightarrow> instant \<Rightarrow> instant" where
  "lease_expiry ttl now = now + ttl * 1000000000"

definition acquire_lease ::
  "int \<Rightarrow> string \<Rightarrow> string \<Rightarrow> string \<Rightarrow> instant \<Rightarrow> broker_db \<Rightarrow>
     (store_error + (writer_lease_view + writer_lease_view)) \<times> broker_db"
where
  "acquire_lease ttl thread device fresh now db =
     (let leases = purge_expired (timestamp_millis now) (writer_leases db);
          expires = lease_expiry ttl now;
          db1 = db\<lparr>writer_leases := leases\<rparr>
      in case map_of leases thread of
           Some r \<Rightarrow>
             if lr_device_id r \<noteq> device then (Inr (Inl (lease_view r)), db1)
             else (Inr (Inr \<lparr>wl_lease_id = lr_lease_id r, wl_holder_device_id = device, wl_expires_at = expires,
                             wl_generation = i64_as_u64 (lr_generation r)\<rparr>),
                   db1\<lparr>writer_leases := alter thread
                     (\<lambda>r. r\<lparr>lr_expires_at_ms := timestamp_millis expires\<rparr>) leases\<rparr>)
         | None \<Rightarrow>
             if list_ex (\<lambda>(t, r). lr_lease_id r = fresh) leases then (Inl SqliteUnique, db)
             else if map_of (client_devices db) device = None then (Inl SqliteForeignKey, db)
             else (Inr (Inr \<lparr>wl_lease_id = fresh, wl_holder_device_id = device, wl_expires_at = expires,
                             wl_generation = 1\<rparr>),
                   db1\<lparr>writer_leases := leases @ [(thread,
                     \<lparr>lr_lease_id = fresh, lr_device_id = device, lr_acquired_at_ms = timestamp_millis now,
                      lr_expires_at_ms = timestamp_millis expires, lr_generation = 1\<rparr>)]\<rparr>))"

definition heartbeat ::
  "int \<Rightarrow> string \<Rightarrow> string \<Rightarrow> string \<Rightarrow> instant \<Rightarrow> broker_db \<Rightarrow> writer_lease_view option \<times> broker_db"
where
  "heartbeat ttl thread device lease now db =
     (let expires = lease_expiry ttl now in
      case map_of (writer_leases db) thread of
        Some r \<Rightarrow>
          if lr_device_id r = device \<and> lr_lease_id r = lease
          then (Some \<lparr>wl_lease_id = lease, wl_holder_device_id = device, wl_expires_at = expires,
                      wl_generation = i64_as_u64 (lr_generation r)\<rparr>,
                db\<lparr>writer_leases := alter thread
                  (\<lambda>r. r\<lparr>lr_expires_at_ms := timestamp_millis expires\<rparr>) (writer_leases db)\<rparr>)
          else (None, db)
      | None \<Rightarrow> (None, db))"

definition current_lease :: "string \<Rightarrow> instant \<Rightarrow> broker_db \<Rightarrow> writer_lease_view option \<times> broker_db" where
  "current_lease thread now db =
     (let leases = purge_expired (timestamp_millis now) (writer_leases db)
      in (map_option lease_view (map_of leases thread), db\<lparr>writer_leases := leases\<rparr>))"

definition release_lease :: "string \<Rightarrow> string \<Rightarrow> string \<Rightarrow> broker_db \<Rightarrow> bool \<times> broker_db" where
  "release_lease thread device lease db =
     (case map_of (writer_leases db) thread of
        Some r \<Rightarrow>
          if lr_device_id r = device \<and> lr_lease_id r = lease
          then (True, db\<lparr>writer_leases := AList.delete thread (writer_leases db)\<rparr>)
          else (False, db)
      | None \<Rightarrow> (False, db))"

section \<open>Pending approvals\<close>

record stored_approval =
  sa_approval :: pending_approval
  sa_upstream_epoch :: u64
  sa_upstream_request_id :: json_rpc_id

definition show_int :: "int \<Rightarrow> string" where
  "show_int n = (if n < 0 then CHR ''-'' # show_nat (nat (- n)) else show_nat (nat n))"

definition parse_i64 :: "string \<Rightarrow> int option" where
  "parse_i64 s =
     (let (neg, digits) = (case s of
            c # cs \<Rightarrow> if c = CHR ''-'' then (True, cs) else if c = CHR ''+'' then (False, cs) else (False, s)
          | [] \<Rightarrow> (False, s))
      in case parse_digits digits of
           Some n \<Rightarrow> let v = (if neg then - int n else int n) in if is_i64 v then Some v else None
         | None \<Rightarrow> None)"

fun request_id_text :: "json_rpc_id \<Rightarrow> string" where
  "request_id_text (IdNumber n) = show_int n"
| "request_id_text (IdString s) = s"

fun parse_approval_state :: "string \<Rightarrow> approval_state" where
  "parse_approval_state s =
     (if s = ''pending'' then ApPending
      else if s = ''presented'' then ApPresented
      else if s = ''accepted'' then ApAccepted
      else if s = ''declined'' then ApDeclined
      else if s = ''cancelled'' then ApCancelled
      else if s = ''resolved'' then ApResolved
      else if s = ''expired'' then ApExpired
      else ApOrphaned)"

definition is_open :: "approval_row \<Rightarrow> bool" where
  "is_open r \<longleftrightarrow> ar_state r = ''pending'' \<or> ar_state r = ''presented''"

definition register_approval ::
  "('x) codec_scheme \<Rightarrow> u64 \<Rightarrow> json_rpc_id \<Rightarrow> string \<Rightarrow> json \<Rightarrow> string option \<Rightarrow> string option \<Rightarrow> string option \<Rightarrow>
     string \<Rightarrow> instant \<Rightarrow> broker_db \<Rightarrow> (store_error + stored_approval) \<times> broker_db"
where
  "register_approval c epoch rid method request thread turn item token now db =
     (if list_ex (\<lambda>r. ar_local_token r = token \<or>
           (ar_upstream_epoch r = as_i64 epoch \<and> ar_upstream_request_id r = request_id_text rid))
         (pending_server_requests db)
      then (Inl SqliteUnique, db)
      else (Inr \<lparr>sa_approval = \<lparr>pa_approval_token = token, pa_thread_id = thread, pa_turn_id = turn,
                   pa_item_id = item, pa_method = method, pa_state = ApPending, pa_created_at = now,
                   pa_request = request\<rparr>,
                 sa_upstream_epoch = epoch, sa_upstream_request_id = rid\<rparr>,
            db\<lparr>pending_server_requests := pending_server_requests db @
              [\<lparr>ar_local_token = token, ar_upstream_epoch = as_i64 epoch,
                ar_upstream_request_id = request_id_text rid,
                ar_upstream_request_id_json = Some (print_json c (id_to_value rid)),
                ar_thread_id = thread, ar_turn_id = turn, ar_item_id = item, ar_method = method,
                ar_state = ''pending'', ar_request_ciphertext = print_json c request,
                ar_response_ciphertext = None, ar_created_at_ms = timestamp_millis now,
                ar_presented_at_ms = None, ar_resolved_at_ms = None\<rparr>]\<rparr>))"

definition mark_presented :: "string \<Rightarrow> instant \<Rightarrow> broker_db \<Rightarrow> broker_db" where
  "mark_presented token now db =
     db\<lparr>pending_server_requests := map (\<lambda>r.
       if ar_local_token r = token \<and> is_open r
       then r\<lparr>ar_state := ''presented'', ar_presented_at_ms := Some (timestamp_millis now)\<rparr> else r)
       (pending_server_requests db)\<rparr>"

definition pending_of_row :: "('x) codec_scheme \<Rightarrow> approval_row \<Rightarrow> pending_approval" where
  "pending_of_row c r =
     \<lparr>pa_approval_token = ar_local_token r, pa_thread_id = ar_thread_id r, pa_turn_id = ar_turn_id r,
      pa_item_id = ar_item_id r, pa_method = ar_method r, pa_state = parse_approval_state (ar_state r),
      pa_created_at = from_timestamp_millis (ar_created_at_ms r),
      pa_request = (case parse_json c (ar_request_ciphertext r) of Some v \<Rightarrow> v | None \<Rightarrow> JNull)\<rparr>"

definition request_id_of_row :: "('x) codec_scheme \<Rightarrow> approval_row \<Rightarrow> json_rpc_id" where
  "request_id_of_row c r =
     (case ar_upstream_request_id_json r of
        Some bytes \<Rightarrow>
          (case id_from_value (case parse_json c bytes of Some v \<Rightarrow> v | None \<Rightarrow> JNull) of
             Some rid \<Rightarrow> rid
           | None \<Rightarrow> IdString (ar_upstream_request_id r))
      | None \<Rightarrow>
          (case parse_i64 (ar_upstream_request_id r) of
             Some n \<Rightarrow> IdNumber n
           | None \<Rightarrow> IdString (ar_upstream_request_id r)))"

definition get_approval :: "('x) codec_scheme \<Rightarrow> string \<Rightarrow> broker_db \<Rightarrow> stored_approval option" where
  "get_approval c token db =
     map_option (\<lambda>r. \<lparr>sa_approval = pending_of_row c r, sa_upstream_epoch = i64_as_u64 (ar_upstream_epoch r),
                      sa_upstream_request_id = request_id_of_row c r\<rparr>)
       (List.find (\<lambda>r. ar_local_token r = token) (pending_server_requests db))"

fun decision_state :: "approval_decision \<Rightarrow> string" where
  "decision_state Accept = ''accepted''"
| "decision_state Decline = ''declined''"

definition resolve_approval ::
  "('x) codec_scheme \<Rightarrow> string \<Rightarrow> approval_decision \<Rightarrow> json \<Rightarrow> instant \<Rightarrow> broker_db \<Rightarrow> broker_db"
where
  "resolve_approval c token decision response now db =
     db\<lparr>pending_server_requests := map (\<lambda>r.
       if ar_local_token r = token
       then r\<lparr>ar_state := decision_state decision, ar_response_ciphertext := Some (print_json c response),
              ar_resolved_at_ms := Some (timestamp_millis now)\<rparr> else r) (pending_server_requests db)\<rparr>"

definition orphan_epoch :: "u64 \<Rightarrow> instant \<Rightarrow> broker_db \<Rightarrow> u64 \<times> broker_db" where
  "orphan_epoch epoch now db =
     (let hit = (\<lambda>r. ar_upstream_epoch r = as_i64 epoch \<and> is_open r) in
      (as_u64 (length (filter hit (pending_server_requests db))),
       db\<lparr>pending_server_requests := map (\<lambda>r.
         if hit r then r\<lparr>ar_state := ''orphaned'', ar_resolved_at_ms := Some (timestamp_millis now)\<rparr> else r)
         (pending_server_requests db)\<rparr>))"

definition list_pending_for_thread :: "('x) codec_scheme \<Rightarrow> string \<Rightarrow> broker_db \<Rightarrow> pending_approval list" where
  "list_pending_for_thread c thread db =
     map (pending_of_row c) (sort_key ar_created_at_ms
       (filter (\<lambda>r. ar_thread_id r = Some thread \<and> is_open r) (pending_server_requests db)))"

section \<open>Operations as steps\<close>

text \<open>The operations that change the database, for runs of them in any order.\<close>

datatype store_op =
    EnsureThread string "string option" thread_runtime_status instant
  | UpdateProjection string thread_projection_update instant
  | EnsureEpoch u64 "string option" instant
  | AppendEvent string u64 string json "string option" "string option" instant thread_projection_update instant
  | SetAck string string u64
  | StoreCommand string string "string option" string json string "json option" "json option" instant
  | MarkIndeterminate instant
  | SaveSnapshot thread_snapshot instant
  | EnsureDevice string string instant
  | Acquire int string string string instant
  | Heartbeat int string string string instant
  | CurrentLease string instant
  | Release string string string
  | Register u64 json_rpc_id string json "string option" "string option" "string option" string instant
  | MarkPresented string instant
  | Resolve string approval_decision json instant
  | OrphanEpoch u64 instant

fun store_step :: "('x) codec_scheme \<Rightarrow> store_op \<Rightarrow> broker_db \<Rightarrow> broker_db" where
  "store_step c (EnsureThread t cwd st now) db = ensure_thread t cwd st now db"
| "store_step c (UpdateProjection t u now) db = snd (update_thread_projection t u now db)"
| "store_step c (EnsureEpoch e v now) db = ensure_epoch e v now db"
| "store_step c (AppendEvent t e m p turn item occ u now) db = snd (append_event c t e m p turn item occ u now db)"
| "store_step c (SetAck d t n) db = set_ack d t n db"
| "store_step c (StoreCommand k d t kd cmd st res err now) db = store_command c k d t kd cmd st res err now db"
| "store_step c (MarkIndeterminate now) db = snd (mark_processing_indeterminate now db)"
| "store_step c (SaveSnapshot sn now) db = snd (save_snapshot c sn now db)"
| "store_step c (EnsureDevice d n now) db = ensure_device d n now db"
| "store_step c (Acquire ttl t d l now) db = snd (acquire_lease ttl t d l now db)"
| "store_step c (Heartbeat ttl t d l now) db = snd (heartbeat ttl t d l now db)"
| "store_step c (CurrentLease t now) db = snd (current_lease t now db)"
| "store_step c (Release t d l) db = snd (release_lease t d l db)"
| "store_step c (Register e rid m rq t turn item tok now) db = snd (register_approval c e rid m rq t turn item tok now db)"
| "store_step c (MarkPresented tok now) db = mark_presented tok now db"
| "store_step c (Resolve tok dec resp now) db = resolve_approval c tok dec resp now db"
| "store_step c (OrphanEpoch e now) db = snd (orphan_epoch e now db)"

lemma map_of_alter: "map_of (alter k f rows) j = (if j = k then map_option f (map_of rows k) else map_of rows j)"
  by (auto simp: alter_def update_conv' split: option.splits)

section \<open>The event log\<close>

definition last_seq :: "string \<Rightarrow> broker_db \<Rightarrow> int option" where
  "last_seq thread db = map_option tr_last_event_seq (map_of (remote_threads db) thread)"

text \<open>Every thread's events are numbered without gaps from one, and its row points to the last.\<close>

definition log_inv :: "broker_db \<Rightarrow> bool" where
  "log_inv db \<longleftrightarrow> (\<forall>t. let n = length (thread_events t db) in
     map ev_thread_seq (thread_events t db) = map (\<lambda>i. Some (int i)) [1..<Suc n] \<and>
     (case last_seq t db of None \<Rightarrow> n = 0 | Some k \<Rightarrow> k = int n))"

lemma log_invD:
  assumes "log_inv db"
  shows "map ev_thread_seq (thread_events t db) = map (\<lambda>i. Some (int i)) [1..<Suc (length (thread_events t db))]"
    "last_seq t db = None \<Longrightarrow> thread_events t db = []"
    "last_seq t db = Some k \<Longrightarrow> k = int (length (thread_events t db))"
  using assms unfolding log_inv_def Let_def by (auto split: option.splits dest: spec [of _ t])

text \<open>Operations that leave the log and the threads' rows alone, or only refresh the rows.\<close>

lemma log_inv_frame:
  assumes "log_inv db" "remote_events db' = remote_events db"
    and "\<And>t. last_seq t db' = last_seq t db \<or> (last_seq t db = None \<and> last_seq t db' = Some 0)"
  shows "log_inv db'"
  unfolding log_inv_def Let_def
proof
  fix t
  have e: "thread_events t db' = thread_events t db" using assms(2) by (simp add: thread_events_def)
  show "map ev_thread_seq (thread_events t db') = map (\<lambda>i. Some (int i)) [1..<Suc (length (thread_events t db'))] \<and>
     (case last_seq t db' of None \<Rightarrow> length (thread_events t db') = 0 | Some k \<Rightarrow> k = int (length (thread_events t db')))"
    unfolding e using log_invD [OF assms(1), of t] assms(3) [of t] by (auto split: option.splits)
qed

lemma last_seq_ensure_thread_on:
  "last_seq t (ensure_thread_on thread cwd status now db) =
    (if t = thread then Some (case last_seq thread db of Some n \<Rightarrow> n | None \<Rightarrow> 0) else last_seq t db)"
  by (auto simp: last_seq_def ensure_thread_on_def Let_def update_conv' split: option.splits)

lemma last_seq_alter:
  assumes "\<And>r. tr_last_event_seq (f r) = tr_last_event_seq r"
  shows "last_seq t (db\<lparr>remote_threads := alter thread f (remote_threads db)\<rparr>) = last_seq t db"
  using assms by (auto simp: last_seq_def map_of_alter map_option.compositionality o_def)

lemma events_ensure_thread_on [simp]:
  "remote_events (ensure_thread_on thread cwd status now db) = remote_events db"
  "events_sequence (ensure_thread_on thread cwd status now db) = events_sequence db"
  by (simp_all add: ensure_thread_on_def Let_def)

lemma events_ensure_epoch [simp]:
  "remote_events (ensure_epoch e v now db) = remote_events db"
  "remote_threads (ensure_epoch e v now db) = remote_threads db"
  by (simp_all add: ensure_epoch_def)

lemma last_seq_ensure_epoch [simp]: "last_seq t (ensure_epoch e v now db) = last_seq t db"
  by (simp add: last_seq_def)

lemma fold_max_upt: "1 \<le> n \<Longrightarrow> fold max (map int [2..<Suc n]) 1 = int n"
  by (induction n rule: dec_induct) (auto simp: max_def)

lemma map_filter_all:
  assumes "map f xs = map (\<lambda>y. Some (g y)) ys"
  shows "List.map_filter f xs = map g ys"
proof -
  have "List.map_filter f xs = map the (filter (\<lambda>x. x \<noteq> None) (map f xs))"
    by (induction xs) (auto simp: map_filter_simps split: option.splits)
  also have "\<dots> = map g ys" unfolding assms by (induction ys) auto
  finally show ?thesis .
qed

lemma next_thread_seq_log:
  assumes "log_inv db"
  shows "next_thread_seq t db = int (length (thread_events t db)) + 1"
proof -
  let ?n = "length (thread_events t db)"
  have m: "List.map_filter ev_thread_seq (thread_events t db) = map int [1..<Suc ?n]"
    by (rule map_filter_all) (rule log_invD(1) [OF assms])
  show ?thesis
  proof (cases "?n = 0")
    case False
    then have "[1..<Suc ?n] = 1 # [2..<Suc ?n]"
      using upt_conv_Cons [of 1 "Suc ?n"] by (simp add: numeral_2_eq_2 Suc_le_eq del: upt_Suc)
    then show ?thesis
      using fold_max_upt [of ?n] False unfolding next_thread_seq_def m by (simp del: upt_Suc)
  next
    case True
    then show ?thesis unfolding next_thread_seq_def m by simp
  qed
qed

text \<open>What an append writes, with the thread's row and epoch already in place.\<close>

lemma append_event_row:
  assumes "db1 = ensure_thread_on thread None (pu_status u) now (ensure_epoch e None now db)"
  shows "\<exists>r. remote_events (snd (append_event c thread e m p turn item occ u now db)) = remote_events db @ [r] \<and>
    ev_seq r = events_sequence db1 + 1 \<and> ev_thread_id r = thread \<and> ev_turn_id r = turn \<and> ev_item_id r = item \<and>
    ev_upstream_epoch r = as_i64 e \<and> ev_method r = m \<and> ev_occurred_at_ms r = timestamp_millis occ \<and>
    ev_payload_ciphertext r = print_json c p \<and> ev_thread_seq r = Some (next_thread_seq thread db1)"
  by (simp add: append_event_def Let_def assms)

lemma log_inv_append:
  assumes "log_inv db"
  shows "log_inv (snd (append_event c thread e m p turn item occ u now db))"
proof -
  let ?db1 = "ensure_thread_on thread None (pu_status u) now (ensure_epoch e None now db)"
  let ?db2 = "snd (append_event c thread e m p turn item occ u now db)"
  have inv1: "log_inv ?db1"
    by (rule log_inv_frame [OF assms]) (auto simp: last_seq_ensure_thread_on split: option.splits)
  let ?n = "next_thread_seq thread ?db1"
  have seq: "?n = int (length (thread_events thread ?db1)) + 1" by (rule next_thread_seq_log) (rule inv1)
  show ?thesis
    unfolding log_inv_def Let_def
  proof
    fix t
    have last: "last_seq t ?db2 = (if t = thread then Some ?n else last_seq t ?db1)"
      by (auto simp: append_event_def Let_def last_seq_def map_of_alter ensure_thread_on_def update_conv')
    obtain r where "remote_events ?db2 = remote_events db @ [r]" "ev_thread_id r = thread"
      and r: "ev_thread_seq r = Some ?n"
      using append_event_row [OF refl] by metis
    then have ev: "thread_events t ?db2 = thread_events t ?db1 @ (if t = thread then [r] else [])"
      by (simp add: thread_events_def)
    show "map ev_thread_seq (thread_events t ?db2) = map (\<lambda>i. Some (int i)) [1..<Suc (length (thread_events t ?db2))] \<and>
      (case last_seq t ?db2 of None \<Rightarrow> length (thread_events t ?db2) = 0 | Some k \<Rightarrow> k = int (length (thread_events t ?db2)))"
    proof (cases "t = thread")
      case True
      then show ?thesis using log_invD(1) [OF inv1, of t] last seq ev r by simp
    next
      case False
      with ev last log_invD [OF inv1, of t] show ?thesis by (auto split: option.splits)
    qed
  qed
qed

lemma log_inv_update_projection: "log_inv db \<Longrightarrow> log_inv (snd (update_thread_projection t u now db))"
proof -
  assume inv: "log_inv db"
  let ?db1 = "ensure_thread_on t None (pu_status u) now db"
  have inv1: "log_inv ?db1"
    by (rule log_inv_frame [OF inv]) (auto simp: last_seq_ensure_thread_on split: option.splits)
  show ?thesis
    by (auto simp: update_thread_projection_def Let_def inv1 last_seq_alter
        intro: log_inv_frame [OF inv1])
qed

lemma log_inv_save_snapshot: "log_inv db \<Longrightarrow> log_inv (snd (save_snapshot c sn now db))"
  by (rule log_inv_frame [of db])
    (auto simp: save_snapshot_def Let_def last_seq_def map_of_alter map_option.compositionality o_def)

lemma log_inv_unrelated:
  "log_inv db \<Longrightarrow> remote_events db' = remote_events db \<Longrightarrow> remote_threads db' = remote_threads db \<Longrightarrow> log_inv db'"
  by (rule log_inv_frame) (auto simp: last_seq_def)

text \<open>The operations on the other tables.\<close>

lemmas other_table_defs = set_ack_def store_command_def mark_processing_indeterminate_def ensure_device_def
  acquire_lease_def heartbeat_def current_lease_def release_lease_def register_approval_def mark_presented_def
  resolve_approval_def orphan_epoch_def

lemma log_inv_step: "log_inv db \<Longrightarrow> log_inv (store_step c op db)"
proof (cases op)
  case (EnsureThread t cwd st now)
  assume "log_inv db"
  then show ?thesis
    by (rule log_inv_frame) (auto simp: EnsureThread ensure_thread_def last_seq_ensure_thread_on split: option.splits)
qed (auto simp: log_inv_update_projection log_inv_append log_inv_save_snapshot other_table_defs Let_def
    split: option.splits intro: log_inv_unrelated)

interpretation event_log: step_system "store_step c" log_inv for c
  by unfold_locales (rule log_inv_step)

lemma log_inv_empty: "log_inv empty_db"
  by (simp add: log_inv_def empty_db_def thread_events_def last_seq_def)

lemma log_inv_reachable: "log_inv (fold (store_step c) ops empty_db)"
  by (rule event_log.run_invar) (rule log_inv_empty)

section \<open>Reading the log\<close>

lemma event_cursor_log:
  assumes "log_inv db"
  shows "map event_cursor (thread_events t db) = map int [1..<Suc (length (thread_events t db))]"
proof -
  have "map event_cursor es = map int is" if "map ev_thread_seq es = map (\<lambda>i. Some (int i)) is" for es "is"
    using that by (induction es arbitrary: "is") (auto simp: event_cursor_def Cons_eq_map_conv)
  from this [OF log_invD(1) [OF assms]] show ?thesis .
qed

lemma filter_numbered:
  assumes "map f xs = map int [j..<j + length xs]"
  shows "filter (\<lambda>x. int k < f x) xs = drop (Suc k - j) xs"
  using assms
proof (induction xs arbitrary: j)
  case (Cons x xs)
  from Cons.prems have x: "f x = int j" and "map f xs = map int [Suc j..<Suc j + length xs]"
    by (simp_all add: upt_conv_Cons del: upt_Suc)
  then have "filter (\<lambda>x. int k < f x) xs = drop (Suc k - Suc j) xs" by (intro Cons.IH) simp
  with x show ?case by (cases "k < j") (auto simp: Suc_diff_le not_less)
qed simp

lemma sorted_numbered: "map f xs = map int [j..<n] \<Longrightarrow> sort_key f xs = xs"
  by (rule sort_key_id_if_sorted) (simp add: sorted_map sorted_wrt_mono_rel [OF _ sorted_upt] del: upt_Suc)

lemma events_after_log:
  assumes inv: "log_inv db" and after: "as_i64 after = int k"
  shows "events_after c t after limit db = map (stored_event_of_row c) (take limit (drop k (thread_events t db)))"
proof -
  let ?es = "thread_events t db"
  have m: "map event_cursor ?es = map int [1..<1 + length ?es]"
    using event_cursor_log [OF inv, of t] by simp
  have "filter (\<lambda>e. int k < event_cursor e) ?es = drop k ?es"
    using filter_numbered [OF m, of k] by simp
  moreover have "sort_key event_cursor (drop k ?es) = drop k ?es"
  proof (rule sorted_numbered)
    show "map event_cursor (drop k ?es) = map int [1 + k..<1 + length ?es]"
      by (simp add: drop_map [symmetric] m del: upt_Suc) (simp add: drop_map del: upt_Suc)
  qed
  ultimately show ?thesis by (simp add: events_after_def after)
qed

lemma as_i64_as_u64: "k < 2 ^ 63 \<Longrightarrow> as_i64 (as_u64 k) = int k"
  by (simp add: as_i64_def as_u64_def signed_of_nat signed_take_bit_int_eq_self)

lemma i64_as_u64_int [simp]: "i64_as_u64 (int k) = as_u64 k"
  by (simp add: i64_as_u64_def as_u64_def)

lemma latest_seq_log: "log_inv db \<Longrightarrow> latest_seq t db = as_u64 (length (thread_events t db))"
  using log_invD(2,3) [of db t]
  by (auto simp: latest_seq_def last_seq_def as_u64_def split: option.splits)

text \<open>
  C16: The event log of a thread has no gaps and replays exactly: after any operations on the database the
  newest number is the number of events, and reading after a cursor returns the events after it, in
  order and numbered consecutively, up to the limit. Numbers are compared as signed 64-bit integers,
  hence the bound on the length of the log.
\<close>

theorem event_log_gapless:
  assumes "db = fold (store_step c) ops empty_db" and "log = thread_events t db"
    and "length log < 2 ^ 63" and "k \<le> length log"
  shows "latest_seq t db = as_u64 (length log) \<and>
    events_after c t (as_u64 k) limit db = map (stored_event_of_row c) (take limit (drop k log)) \<and>
    map se_thread_seq (events_after c t (as_u64 k) limit db) = map as_u64 [Suc k..<Suc (min (k + limit) (length log))]"
proof -
  have inv: "log_inv db" unfolding assms(1) by (rule log_inv_reachable)
  have ev: "events_after c t (as_u64 k) limit db = map (stored_event_of_row c) (take limit (drop k log))"
    unfolding assms(2) by (rule events_after_log [OF inv]) (rule as_i64_as_u64, use assms in simp)
  have "map se_thread_seq (events_after c t (as_u64 k) limit db) = map i64_as_u64 (map event_cursor (take limit (drop k log)))"
    by (simp add: ev stored_event_of_row_def)
  also have "map event_cursor (take limit (drop k log)) = take limit (drop k (map event_cursor log))"
    by (simp add: take_map drop_map)
  also have "\<dots> = map int [Suc k..<Suc (min (k + limit) (length log))]"
    unfolding assms(2) event_cursor_log [OF inv] by (simp add: take_map drop_map take_upt min_def del: upt_Suc)
  finally show ?thesis using ev latest_seq_log [OF inv, of t] assms(2) by (simp add: o_def del: upt_Suc)
qed

definition idle_projection :: thread_projection_update where
  "idle_projection = \<lparr>pu_status = Running, pu_loaded = True, pu_active_turn_id = None, pu_upstream_epoch = Some 1\<rparr>"

definition plain_codec :: codec where
  "plain_codec = \<lparr>print_json = (\<lambda>_. []), parse_json = (\<lambda>_. Some JNull), print_snapshot = (\<lambda>_. []),
     parse_snapshot = (\<lambda>_. None), event_value = (\<lambda>_. JNull), sha256_hex = (\<lambda>_. [])\<rparr>"

definition two_events :: "store_op list" where
  "two_events = [AppendEvent ''t'' 1 ''turn/started'' JNull None None 0 idle_projection 0,
     AppendEvent ''t'' 1 ''turn/completed'' JNull None None 0 idle_projection 0]"

theorem event_log_gapless_witness:
  "let db = fold (store_step plain_codec) two_events empty_db in
     length (thread_events ''t'' db) = 2 \<and> latest_seq ''t'' db = as_u64 2 \<and>
     map se_thread_seq (events_after plain_codec ''t'' (as_u64 1) 10 db) = [as_u64 2]"
proof -
  let ?db = "fold (store_step plain_codec) two_events empty_db"
  have l: "length (thread_events ''t'' ?db) = 2"
    by (simp add: two_events_def append_event_def thread_events_def empty_db_def Let_def ensure_epoch_def
        ensure_thread_on_def)
  have two: "(2 :: nat) < 2 ^ 63" "(1 :: nat) \<le> 2" "[Suc 1..<Suc (min (1 + 10) 2)] = [2]" by (simp, simp, code_simp)
  note run = event_log_gapless [OF refl refl, of "''t''" plain_codec two_events 1 10, unfolded l, OF two(1,2), unfolded two(3)]
  from l run [THEN conjunct1] run [THEN conjunct2, THEN conjunct2] show ?thesis
    unfolding Let_def list.map by (intro conjI)
qed

section \<open>Writer leases are exclusive\<close>

definition lease_inv :: "broker_db \<Rightarrow> bool" where
  "lease_inv db \<longleftrightarrow> distinct (map fst (writer_leases db))"

lemma map_of_purge:
  "distinct (map fst rows) \<Longrightarrow> map_of (purge_expired ms rows) t =
    (case map_of rows t of Some r \<Rightarrow> if lr_expires_at_ms r < ms then None else Some r | None \<Rightarrow> None)"
  by (induction rows) (auto simp: purge_expired_def map_of_eq_None_iff split: option.splits)

lemma distinct_purge: "distinct (map fst rows) \<Longrightarrow> distinct (map fst (purge_expired ms rows))"
  by (simp add: purge_expired_def distinct_map_filter)

lemma distinct_alter: "distinct (map fst rows) \<Longrightarrow> distinct (map fst (alter k f rows))"
  by (simp add: alter_def distinct_update split: option.splits)

lemma leases_other_ops [simp]:
  "writer_leases (ensure_thread_on t cwd st now db) = writer_leases db"
  "writer_leases (ensure_epoch e v now db) = writer_leases db"
  "writer_leases (snd (update_thread_projection t u now db)) = writer_leases db"
  "writer_leases (snd (append_event c t e m p turn item occ u now db)) = writer_leases db"
  "writer_leases (snd (save_snapshot c sn now db)) = writer_leases db"
  by (simp_all add: ensure_thread_on_def ensure_epoch_def update_thread_projection_def append_event_def
      save_snapshot_def Let_def)

lemma lease_inv_step: "lease_inv db \<Longrightarrow> lease_inv (store_step c op db)"
proof (cases op)
  case (Acquire ttl t d l now)
  assume inv: "lease_inv db"
  let ?p = "purge_expired (timestamp_millis now) (writer_leases db)"
  have "distinct (map fst ?p)" using inv by (simp add: lease_inv_def distinct_purge)
  then show ?thesis
    using inv by (auto simp: Acquire lease_inv_def acquire_lease_def Let_def distinct_alter map_of_eq_None_iff
        split: option.splits)
qed (auto simp: lease_inv_def other_table_defs ensure_thread_def Let_def distinct_alter distinct_purge distinct_delete
    simp del: acquire_lease_def split: option.splits)

interpretation leases: step_system "store_step c" lease_inv for c
  by unfold_locales (rule lease_inv_step)

lemma lease_inv_reachable: "lease_inv (fold (store_step c) ops empty_db)"
  by (rule leases.run_invar) (simp add: lease_inv_def empty_db_def)

text \<open>An operation before the expiry of a lease that is not its holder's own on that thread.\<close>

fun foreign_to :: "string \<Rightarrow> lease_row \<Rightarrow> store_op \<Rightarrow> bool" where
  "foreign_to t r (Acquire ttl t' d l now) \<longleftrightarrow>
     timestamp_millis now \<le> lr_expires_at_ms r \<and> (t' = t \<longrightarrow> d \<noteq> lr_device_id r)"
| "foreign_to t r (Heartbeat ttl t' d l now) \<longleftrightarrow> (t' = t \<longrightarrow> d \<noteq> lr_device_id r)"
| "foreign_to t r (CurrentLease t' now) \<longleftrightarrow> timestamp_millis now \<le> lr_expires_at_ms r"
| "foreign_to t r (Release t' d l) \<longleftrightarrow> (t' = t \<longrightarrow> d \<noteq> lr_device_id r)"
| "foreign_to t r _ \<longleftrightarrow> True"

lemma map_of_leases_append: "map_of (rows @ [(k, v)]) t = (case map_of rows t of Some r \<Rightarrow> Some r | None \<Rightarrow> if t = k then Some v else None)"
  by (auto simp: map_add_def split: option.splits)

lemma lease_kept:
  assumes inv: "lease_inv db" and held: "map_of (writer_leases db) t = Some r" and op: "foreign_to t r op"
  shows "map_of (writer_leases (store_step c op db)) t = Some r"
proof (cases op)
  case (Acquire ttl t' d l now)
  have "map_of (purge_expired (timestamp_millis now) (writer_leases db)) t = Some r"
    using inv held op by (simp add: Acquire lease_inv_def map_of_purge)
  then show ?thesis
    using op held by (auto simp: Acquire acquire_lease_def Let_def map_of_alter map_of_leases_append split: option.splits)
next
  case (Heartbeat ttl t' d l now)
  with op held show ?thesis by (auto simp: heartbeat_def Let_def map_of_alter split: option.splits)
next
  case (CurrentLease t' now)
  with inv held op show ?thesis by (simp add: current_lease_def Let_def lease_inv_def map_of_purge)
next
  case (Release t' d l)
  with op held show ?thesis by (auto simp: release_lease_def delete_conv' split: option.splits)
qed (use held in \<open>auto simp: other_table_defs ensure_thread_def Let_def split: option.splits\<close>)

lemma lease_kept_run:
  "lease_inv db \<Longrightarrow> map_of (writer_leases db) t = Some r \<Longrightarrow> list_all (foreign_to t r) ops \<Longrightarrow>
   map_of (writer_leases (fold (store_step c) ops db)) t = Some r"
proof (induction ops arbitrary: db)
  case (Cons op ops)
  have "map_of (writer_leases (store_step c op db)) t = Some r"
    using Cons.prems by (intro lease_kept) simp_all
  with Cons.IH [of "store_step c op db"] lease_inv_step [OF Cons.prems(1), of c op] Cons.prems(3) show ?case by simp
qed simp

text \<open>
  C14: A writer lease is exclusive until it expires and free afterwards: in any reachable database no
  operations of other devices up to the expiry can take, extend or end the lease of a thread, and
  another device that asks for it is shown the holder; once it has expired, a known device with a fresh
  lease id gets it.
\<close>

theorem writer_lease_exclusive:
  assumes "db0 = fold (store_step c) ops0 empty_db" and "map_of (writer_leases db0) t = Some r"
    and "list_all (foreign_to t r) ops" and "db = fold (store_step c) ops db0" and "d \<noteq> lr_device_id r"
  shows "map_of (writer_leases db) t = Some r \<and>
    (timestamp_millis now \<le> lr_expires_at_ms r \<longrightarrow>
       fst (acquire_lease ttl t d l now db) = Inr (Inl (lease_view r))) \<and>
    (lr_expires_at_ms r < timestamp_millis now \<and> map_of (client_devices db) d \<noteq> None \<and>
       l \<notin> lr_lease_id ` snd ` set (writer_leases db) \<longrightarrow>
       fst (acquire_lease ttl t d l now db) =
         Inr (Inr \<lparr>wl_lease_id = l, wl_holder_device_id = d, wl_expires_at = lease_expiry ttl now, wl_generation = 1\<rparr>))"
proof -
  have inv0: "lease_inv db0" unfolding assms(1) by (rule lease_inv_reachable)
  have held: "map_of (writer_leases db) t = Some r"
    unfolding assms(4) by (rule lease_kept_run [OF inv0 assms(2,3)])
  have "lease_inv db" unfolding assms(4) by (rule leases.run_invar [OF inv0])
  then have p: "map_of (purge_expired ms (writer_leases db)) t = (if lr_expires_at_ms r < ms then None else Some r)" for ms
    by (simp add: lease_inv_def map_of_purge held)
  have "\<not> list_ex (\<lambda>(t, r). lr_lease_id r = l) (purge_expired ms (writer_leases db))"
    if "l \<notin> lr_lease_id ` snd ` set (writer_leases db)" for ms
    using that by (force simp: list_ex_iff purge_expired_def)
  then show ?thesis
    using held assms(5) by (auto simp: acquire_lease_def Let_def p)
qed

definition lease_setup :: "store_op list" where
  "lease_setup = [EnsureDevice ''a'' ''A'' 0, EnsureDevice ''b'' ''B'' 0, Acquire 30 ''t'' ''a'' ''lease_1'' 0]"

theorem writer_lease_exclusive_witness:
  "\<exists>r. map_of (writer_leases (fold (store_step plain_codec) lease_setup empty_db)) ''t'' = Some r \<and> lr_device_id r = ''a'' \<and>
     fst (acquire_lease 30 ''t'' ''b'' ''lease_2'' 1000000000
       (fold (store_step plain_codec) [CurrentLease ''t'' 5, Release ''t'' ''b'' ''lease_1'']
         (fold (store_step plain_codec) lease_setup empty_db))) = Inr (Inl (lease_view r))"
proof -
  let ?r = "\<lparr>lr_lease_id = ''lease_1'', lr_device_id = ''a'', lr_acquired_at_ms = 0, lr_expires_at_ms = 30000, lr_generation = 1\<rparr>"
  have "map_of (writer_leases (fold (store_step plain_codec) lease_setup empty_db)) ''t'' = Some ?r"
    by (simp add: lease_setup_def ensure_device_def acquire_lease_def Let_def empty_db_def purge_expired_def
        timestamp_millis_def lease_expiry_def)
  then show ?thesis
    using writer_lease_exclusive [OF refl _ _ refl, of plain_codec lease_setup "''t''" ?r
        "[CurrentLease ''t'' 5, Release ''t'' ''b'' ''lease_1'']" "''b''" 1000000000 30 "''lease_2''"]
    by (intro exI [of _ ?r]) (simp add: timestamp_millis_def)
qed

end
