(* ===== verification/Thread_Actor.thy ===== *)
theory Thread_Actor
  imports Broker_Store
begin

text \<open>
  The actor of one remote thread (\<open>crates/vellum-remote-broker/src/thread_actor.rs\<close> with
  \<open>command_router.rs\<close>, \<open>recovery.rs\<close> and the protocol types): it attaches clients, runs their commands
  at most once, ingests upstream events and approval requests, and recovers after restarts.

  A message is handled on a \<open>world\<close>: the actor's fields, the shared database, the metrics, the log of
  what was sent upstream and the log of what was broadcast to clients (type and payload of each
  envelope). What the outside supplies while a message is handled is the argument \<open>env\<close>: the clock,
  the fresh identifier, the epoch of the upstream connection and its answers, and what other actors and
  the gateway do to the database while a command is handled. The database is locked per statement, so
  their operations \<open>env_meanwhile\<close> come between the lookup of the key (0), the record of the intent
  (1), the check of the lease (2) and, after the answer of the upstream, the record of the outcome (3).
\<close>

section \<open>Protocol\<close>

datatype subscription_mode = WriterMode | ObserverMode

datatype remote_error_code =
    UnsupportedProtocol | Unauthenticated | DeviceRevoked | WriterLeaseRequired | WriterLeaseConflict
  | ThreadNotFound | ThreadNotLoaded | UpstreamUnavailable | UpstreamIncompatible | UpstreamOverloaded
  | StaleUpstreamEpoch | ApprovalOrphaned | CommandConflict | ReplayGap | SnapshotRequired
  | InvalidWorkspace | InternalError

record remote_error =
  re_code :: remote_error_code
  re_message :: string
  re_retryable :: bool
  re_details :: json

definition new_remote_error :: "remote_error_code \<Rightarrow> string \<Rightarrow> bool \<Rightarrow> remote_error" where
  "new_remote_error code message retryable =
     \<lparr>re_code = code, re_message = message, re_retryable = retryable, re_details = JNull\<rparr>"

record user_input =
  ui_kind :: string
  ui_text :: "string option"
  ui_extra :: json

record turn_settings =
  ts_model :: "string option"
  ts_approval_policy :: "string option"
  ts_extra :: json

datatype thread_command =
    ThreadStart string "string option" "string option"
  | ThreadResume string
  | TurnStart "user_input list" turn_settings
  | TurnSteer string string "user_input list"
  | TurnInterrupt string
  | ApprovalRespond string approval_decision
  | ThreadArchive
  | WriterAcquire
  | WriterRelease string

record thread_command_request =
  rq_idempotency_key :: string
  rq_thread_id :: "string option"
  rq_expected_writer_lease_id :: "string option"
  rq_command :: thread_command

datatype command_status = AcceptedCmd | ProcessingCmd | CompletedCmd | FailedCmd | IndeterminateCmd

record thread_command_result =
  rs_idempotency_key :: string
  rs_status :: command_status
  rs_result :: json
  rs_error :: "remote_error option"

datatype app_server_error =
    TransportError string | ProtocolError string | Overloaded | Incompatible string | TimeoutError | NotReady

fun display_app_server_error :: "app_server_error \<Rightarrow> string" where
  "display_app_server_error (TransportError s) = ''transport error: '' @ s"
| "display_app_server_error (ProtocolError s) = ''protocol error: '' @ s"
| "display_app_server_error Overloaded = ''upstream overloaded''"
| "display_app_server_error (Incompatible s) = ''incompatible upstream: '' @ s"
| "display_app_server_error TimeoutError = ''request timed out''"
| "display_app_server_error NotReady = ''upstream not ready''"

record actor_codec = codec +
  command_value :: "thread_command \<Rightarrow> json"
  inputs_value :: "user_input list \<Rightarrow> json"
  lease_value :: "writer_lease_view \<Rightarrow> json"
  error_value :: "remote_error \<Rightarrow> json"
  error_from_value :: "json \<Rightarrow> remote_error option"
  approval_value :: "pending_approval \<Rightarrow> json"
  result_value :: "thread_command_result \<Rightarrow> json"
  store_error_text :: "store_error \<Rightarrow> string"

section \<open>Command routing\<close>

fun command_kind :: "thread_command \<Rightarrow> string" where
  "command_kind (ThreadStart _ _ _) = ''thread.start''"
| "command_kind (ThreadResume _) = ''thread.resume''"
| "command_kind (TurnStart _ _) = ''turn.start''"
| "command_kind (TurnSteer _ _ _) = ''turn.steer''"
| "command_kind (TurnInterrupt _) = ''turn.interrupt''"
| "command_kind (ApprovalRespond _ _) = ''approval.respond''"
| "command_kind ThreadArchive = ''thread.archive''"
| "command_kind WriterAcquire = ''writer.acquire''"
| "command_kind (WriterRelease _) = ''writer.release''"

fun requires_writer :: "thread_command \<Rightarrow> bool" where
  "requires_writer (TurnStart _ _) = True"
| "requires_writer (TurnSteer _ _ _) = True"
| "requires_writer (TurnInterrupt _) = True"
| "requires_writer ThreadArchive = True"
| "requires_writer (ThreadResume _) = True"
| "requires_writer _ = False"

definition accepted :: "string \<Rightarrow> json \<Rightarrow> thread_command_result" where
  "accepted key v = \<lparr>rs_idempotency_key = key, rs_status = AcceptedCmd, rs_result = v, rs_error = None\<rparr>"

definition completed_result :: "string \<Rightarrow> json \<Rightarrow> thread_command_result" where
  "completed_result key v = \<lparr>rs_idempotency_key = key, rs_status = CompletedCmd, rs_result = v, rs_error = None\<rparr>"

definition failed :: "string \<Rightarrow> remote_error \<Rightarrow> thread_command_result" where
  "failed key e = \<lparr>rs_idempotency_key = key, rs_status = FailedCmd, rs_result = JNull, rs_error = Some e\<rparr>"

definition processing :: "string \<Rightarrow> thread_command_result" where
  "processing key = \<lparr>rs_idempotency_key = key, rs_status = ProcessingCmd, rs_result = JObject [], rs_error = None\<rparr>"

definition indeterminate :: "string \<Rightarrow> thread_command_result" where
  "indeterminate key =
     \<lparr>rs_idempotency_key = key, rs_status = IndeterminateCmd,
      rs_result = JObject [(''needsReconcile'', JBool True)],
      rs_error = Some (new_remote_error UpstreamUnavailable
        ''command outcome is indeterminate; reconcile before retrying'' True)\<rparr>"

definition lease_required :: "string \<Rightarrow> thread_command_result" where
  "lease_required key =
     failed key (new_remote_error WriterLeaseRequired ''This device does not hold the writer lease.'' True)"

datatype recovered_command_state = RcCompleted | RcSafeToRetry | RcIndeterminate | RcOrphaned

definition classify_after_upstream_restart :: "string \<Rightarrow> bool \<Rightarrow> recovered_command_state" where
  "classify_after_upstream_restart kind previously_completed =
     (if previously_completed then RcCompleted
      else if kind \<in> {''thread.start'', ''turn.start'', ''turn.interrupt'', ''approval.respond''} then RcIndeterminate
      else RcSafeToRetry)"

definition reconcile_processing_commands :: "instant \<Rightarrow> broker_db \<Rightarrow> u64 \<times> broker_db" where
  "reconcile_processing_commands = mark_processing_indeterminate"

definition classify_upstream_command_error :: "app_server_error \<Rightarrow> bool \<Rightarrow> string \<times> remote_error" where
  "classify_upstream_command_error e side_effectful =
     (let unavailable = new_remote_error UpstreamUnavailable (display_app_server_error e) True;
          lost = new_remote_error UpstreamUnavailable
            (''indeterminate after possible upstream accept: '' @ display_app_server_error e) True
      in case e of
           NotReady \<Rightarrow> (''failed'', unavailable)
         | Incompatible _ \<Rightarrow> (''failed'', unavailable)
         | TimeoutError \<Rightarrow> if side_effectful then (''indeterminate'', lost) else (''failed'', unavailable)
         | TransportError _ \<Rightarrow> if side_effectful then (''indeterminate'', lost) else (''failed'', unavailable)
         | _ \<Rightarrow> (''failed'', unavailable))"

section \<open>Reading upstream payloads\<close>

definition extract_turn_id :: "json \<Rightarrow> string option" where
  "extract_turn_id v =
     or_else (get_str v ''turnId'') (Option.bind (json_get v ''turn'') (\<lambda>t. get_str t ''id''))"

definition extract_item_id :: "json \<Rightarrow> string option" where
  "extract_item_id v =
     or_else (get_str v ''itemId'') (Option.bind (json_get v ''item'') (\<lambda>t. get_str t ''id''))"

definition normalize_thread_status :: "json \<Rightarrow> thread_runtime_status option" where
  "normalize_thread_status v =
     (case or_else (Option.bind (json_pointer v [''status'', ''type'']) json_as_str) (get_str v ''type'') of
        Some t \<Rightarrow>
          if t = ''active'' \<or> t = ''running'' then Some Running
          else if t = ''idle'' then Some Idle
          else if t = ''notLoaded'' then Some StoredNotLoaded
          else if t = ''systemError'' \<or> t = ''failed'' then Some FailedStatus
          else if t = ''interrupted'' then Some Interrupted
          else None
      | None \<Rightarrow>
          (case get_str v ''status'' of
             Some t \<Rightarrow>
               if t = ''running'' \<or> t = ''active'' then Some Running
               else if t = ''idle'' then Some Idle
               else if t = ''failed'' then Some FailedStatus
               else if t = ''interrupted'' then Some Interrupted
               else None
           | None \<Rightarrow> None))"

section \<open>State\<close>

record thread_actor =
  a_thread_id :: string
  a_status :: thread_runtime_status
  a_loaded :: bool
  a_active_turn_id :: "string option"
  a_recent_items :: "json list"
  a_usage :: "json option"
  a_subscribers :: "(string \<times> subscription_mode) list"

definition new_actor :: "string \<Rightarrow> thread_actor" where
  "new_actor thread =
     \<lparr>a_thread_id = thread, a_status = Idle, a_loaded = False, a_active_turn_id = None, a_recent_items = [],
      a_usage = None, a_subscribers = []\<rparr>"

text \<open>The metrics the actor touches.\<close>

record broker_metrics =
  m_pending_approvals :: u64
  m_event_seq :: u64
  m_replay_events_total :: u64
  m_snapshot_total :: u64
  m_command_idempotency_hits_total :: u64
  m_orphaned_approvals_total :: u64

datatype upstream_action = Call string json | Respond json_rpc_id json

record world =
  w_actor :: thread_actor
  w_db :: broker_db
  w_metrics :: broker_metrics
  w_sent :: "upstream_action list"
  w_broadcasts :: "(string \<times> json) list"

record actor_env =
  env_now :: instant
  env_fresh :: string
  env_epoch :: u64
  env_ttl :: int
  env_answer :: "string \<Rightarrow> json \<Rightarrow> app_server_error + json"
  env_respond :: "json_rpc_id \<Rightarrow> json \<Rightarrow> app_server_error option"
  env_meanwhile :: "nat \<Rightarrow> store_op list"

definition on_actor :: "(thread_actor \<Rightarrow> thread_actor) \<Rightarrow> world \<Rightarrow> world" where
  "on_actor f w = w\<lparr>w_actor := f (w_actor w)\<rparr>"

definition on_db :: "(broker_db \<Rightarrow> broker_db) \<Rightarrow> world \<Rightarrow> world" where
  "on_db f w = w\<lparr>w_db := f (w_db w)\<rparr>"

definition on_metrics :: "(broker_metrics \<Rightarrow> broker_metrics) \<Rightarrow> world \<Rightarrow> world" where
  "on_metrics f w = w\<lparr>w_metrics := f (w_metrics w)\<rparr>"

definition broadcast :: "string \<Rightarrow> json \<Rightarrow> world \<Rightarrow> world" where
  "broadcast kind payload w = w\<lparr>w_broadcasts := w_broadcasts w @ [(kind, payload)]\<rparr>"

definition upstream_call :: "actor_env \<Rightarrow> string \<Rightarrow> json \<Rightarrow> world \<Rightarrow> (app_server_error + json) \<times> world" where
  "upstream_call env method params w =
     (env_answer env method params, w\<lparr>w_sent := w_sent w @ [Call method params]\<rparr>)"

definition upstream_respond :: "actor_env \<Rightarrow> json_rpc_id \<Rightarrow> json \<Rightarrow> world \<Rightarrow> app_server_error option \<times> world" where
  "upstream_respond env rid v w = (env_respond env rid v, w\<lparr>w_sent := w_sent w @ [Respond rid v]\<rparr>)"

section \<open>Snapshots and projections\<close>

definition current_snapshot ::
  "thread_actor \<Rightarrow> u64 \<Rightarrow> pending_approval list \<Rightarrow> writer_lease_view option \<Rightarrow> thread_snapshot"
where
  "current_snapshot a latest pending lease =
     (build_fallback_snapshot (a_thread_id a) latest (a_status a) (a_loaded a) pending lease)
       \<lparr>sn_active_turn := map_option (\<lambda>t. \<lparr>tv_turn_id = t, tv_state = a_status a, tv_started_at = None\<rparr>)
          (a_active_turn_id a),
        sn_items := a_recent_items a,
        sn_usage := a_usage a\<rparr>"

definition persist_snapshot :: "('x) codec_scheme \<Rightarrow> actor_env \<Rightarrow> world \<Rightarrow> world" where
  "persist_snapshot c env w =
     (let thread = a_thread_id (w_actor w);
          latest = latest_seq thread (w_db w);
          pending = list_pending_for_thread c thread (w_db w);
          (lease, db1) = current_lease thread (env_now env) (w_db w);
          sn = current_snapshot (w_actor w) latest pending lease
      in case save_snapshot c sn (env_now env) db1 of
           (Inl e, db2) \<Rightarrow> w\<lparr>w_db := db2\<rparr>
         | (Inr _, db2) \<Rightarrow>
             on_metrics (\<lambda>m. m\<lparr>m_snapshot_total := m_snapshot_total m + 1\<rparr>) (w\<lparr>w_db := db2\<rparr>))"

definition persist_projection :: "actor_env \<Rightarrow> u64 option \<Rightarrow> world \<Rightarrow> world" where
  "persist_projection env epoch w =
     (let a = w_actor w;
          u = \<lparr>pu_status = a_status a, pu_loaded = a_loaded a, pu_active_turn_id = Some (a_active_turn_id a),
               pu_upstream_epoch = or_else epoch (if env_epoch env = 0 then None else Some (env_epoch env))\<rparr>
      in w\<lparr>w_db := snd (update_thread_projection (a_thread_id a) u (env_now env) (w_db w))\<rparr>)"

definition project_event :: "string \<Rightarrow> json \<Rightarrow> string option \<Rightarrow> thread_actor \<Rightarrow> thread_actor" where
  "project_event method payload turn a =
     (let a1 =
        (if method = ''turn/started'' then a\<lparr>a_status := Running, a_active_turn_id := turn\<rparr>
         else if method = ''turn/completed'' then
           (let t = (case or_else (Option.bind (json_pointer payload [''turn'', ''status'']) json_as_str)
                        (get_str payload ''status'') of Some t \<Rightarrow> t | None \<Rightarrow> ''completed'');
                st = (if t = ''failed'' then FailedStatus
                      else if t = ''interrupted'' then Interrupted
                      else if t = ''inProgress'' then Running
                      else CompletedStatus)
            in a\<lparr>a_status := st, a_active_turn_id := (if st = Running then a_active_turn_id a else None)\<rparr>)
         else if method = ''thread/status/changed'' then
           (case normalize_thread_status payload of Some st \<Rightarrow> a\<lparr>a_status := st\<rparr> | None \<Rightarrow> a)
         else a)
      in if contains_str method ''usage'' \<or> json_get payload ''usage'' \<noteq> None
         then a1\<lparr>a_usage := or_else (json_get payload ''usage'') (Some payload)\<rparr> else a1)"

definition remember_event :: "('x) codec_scheme \<Rightarrow> thread_event \<Rightarrow> thread_actor \<Rightarrow> thread_actor" where
  "remember_event c e a =
     (if te_method e \<in> {''turn/started'', ''turn/completed'', ''item/started'', ''item/completed''}
      then a\<lparr>a_recent_items := a_recent_items a @ [event_value c e]\<rparr> else a)"

definition hydrate_from_store :: "('x) codec_scheme \<Rightarrow> broker_db \<Rightarrow> thread_actor \<Rightarrow> thread_actor" where
  "hydrate_from_store c db a =
     (let
          a1 = (case thread_projection (a_thread_id a) db of
                  Some (st, loaded, turn, _) \<Rightarrow> a\<lparr>a_status := st, a_loaded := loaded, a_active_turn_id := turn\<rparr>
                | None \<Rightarrow> a);
          a2 = (case latest_snapshot c (a_thread_id a) db of
                  Inr (Some sn) \<Rightarrow> a1\<lparr>a_status := sn_status sn, a_loaded := sn_loaded sn,
                      a_active_turn_id := map_option tv_turn_id (sn_active_turn sn), a_usage := sn_usage sn\<rparr>
                | _ \<Rightarrow> a1)
      in fold (\<lambda>e a. remember_event c (into_protocol e)
                       (project_event (se_method e) (se_payload e) (se_turn_id e) a))
           (session_timeline_events c (a_thread_id a) db) (a2\<lparr>a_recent_items := []\<rparr>))"

section \<open>Attaching a client\<close>

record attach_result =
  at_snapshot :: thread_snapshot
  at_replay :: "thread_event list"

definition attach :: "('x) codec_scheme \<Rightarrow> actor_env \<Rightarrow> u64 \<Rightarrow> world \<Rightarrow> attach_result \<times> world" where
  "attach c env last_ack w =
     (let
          a = (if a_recent_items (w_actor w) = [] then hydrate_from_store c (w_db w) (w_actor w) else w_actor w);
          thread = a_thread_id a;
          latest = latest_seq thread (w_db w);
          pending = list_pending_for_thread c thread (w_db w);
          (lease, db1) = current_lease thread (env_now env) (w_db w);
          sn0 = (case latest_snapshot c thread db1 of
                   Inr (Some sn) \<Rightarrow>
                     if sn_items sn \<noteq> [] \<or> 0 < sn_snapshot_seq sn then sn else current_snapshot a latest pending lease
                 | _ \<Rightarrow> current_snapshot a latest pending lease);
          sn1 = (if sn_items sn0 = [] \<and> a_recent_items a \<noteq> []
                 then sn0\<lparr>sn_items := a_recent_items a, sn_usage := a_usage a, sn_status := a_status a,
                          sn_loaded := a_loaded a\<rparr> else sn0);
          sn2 = (if latest < sn_snapshot_seq sn1 then sn1\<lparr>sn_snapshot_seq := latest\<rparr> else sn1);
          replay_from = (if last_ack < sn_snapshot_seq sn2 then sn_snapshot_seq sn2 else last_ack);
          replay = map into_protocol (events_after c thread replay_from 10000 db1)
      in (\<lparr>at_snapshot = sn2, at_replay = replay\<rparr>,
          on_metrics (\<lambda>m. m\<lparr>m_replay_events_total := m_replay_events_total m + as_u64 (length replay)\<rparr>)
            (w\<lparr>w_actor := a, w_db := db1\<rparr>)))"

section \<open>Upstream messages\<close>

definition projection_of :: "u64 \<Rightarrow> thread_actor \<Rightarrow> thread_projection_update" where
  "projection_of epoch a =
     (let clear_turn = (a_status a \<in> {CompletedStatus, FailedStatus, Interrupted, Idle} \<and> a_active_turn_id a = None)
      in \<lparr>pu_status = a_status a, pu_loaded = a_loaded a,
          pu_active_turn_id = (if clear_turn then Some None
            else if a_active_turn_id a \<noteq> None then Some (a_active_turn_id a) else None),
          pu_upstream_epoch = Some epoch\<rparr>)"

definition record_upstream_event ::
  "('x) codec_scheme \<Rightarrow> actor_env \<Rightarrow> u64 \<Rightarrow> string \<Rightarrow> json \<Rightarrow> world \<Rightarrow> thread_event \<times> world"
where
  "record_upstream_event c env epoch method payload w =
     (let turn = extract_turn_id payload;
          a = project_event method payload turn (w_actor w);
          (stored, db1) = append_event c (a_thread_id a) epoch method payload turn (extract_item_id payload)
                            (env_now env) (projection_of epoch a) (env_now env) (w_db w);
          e = into_protocol stored
      in (e, broadcast ''thread.event'' (event_value c e)
               (on_metrics (\<lambda>m. m\<lparr>m_event_seq := se_seq stored\<rparr>)
                 (w\<lparr>w_actor := remember_event c e a, w_db := db1\<rparr>))))"

definition ingest_upstream_event ::
  "('x) codec_scheme \<Rightarrow> actor_env \<Rightarrow> u64 \<Rightarrow> string \<Rightarrow> json \<Rightarrow> world \<Rightarrow> world"
where
  "ingest_upstream_event c env epoch method payload w =
     (case record_upstream_event c env epoch method payload w of
        (e, w1) \<Rightarrow>
          if a_status (w_actor w1) \<in> {CompletedStatus, WaitingForApproval} \<or> te_seq e mod 250 = 0
          then persist_snapshot c env w1 else w1)"

definition APPROVAL_METHODS :: "string list" where
  "APPROVAL_METHODS = [''item/commandExecution/requestApproval'', ''item/fileChange/requestApproval'']"

definition ingest_server_request ::
  "('x) actor_codec_scheme \<Rightarrow> actor_env \<Rightarrow> u64 \<Rightarrow> json_rpc_id \<Rightarrow> string \<Rightarrow> json \<Rightarrow> world \<Rightarrow> world"
where
  "ingest_server_request c env epoch rid method payload w =
     (if method \<notin> set APPROVAL_METHODS
      then snd (upstream_respond env rid
             (JObject [(''error'', JString (''unsupported server request: '' @ method))]) w)
      else
        case register_approval c epoch rid method payload (Some (a_thread_id (w_actor w))) None None
               (''approval_'' @ env_fresh env) (env_now env) (w_db w) of
          (Inl e, db1) \<Rightarrow> w\<lparr>w_db := db1\<rparr>
        | (Inr stored, db1) \<Rightarrow>
            let w1 = on_metrics (\<lambda>m. m\<lparr>m_pending_approvals := m_pending_approvals m + 1\<rparr>)
                       (on_actor (\<lambda>a. a\<lparr>a_status := WaitingForApproval\<rparr>) (w\<lparr>w_db := db1\<rparr>));
                w2 = persist_projection env (Some epoch) w1;
                w3 = broadcast ''approval.pending'' (approval_value c (sa_approval stored)) w2
            in persist_snapshot c env w3)"

definition upstream_disconnected :: "actor_env \<Rightarrow> u64 \<Rightarrow> world \<Rightarrow> world" where
  "upstream_disconnected env epoch w =
     (let (orphaned, db1) = orphan_epoch epoch (env_now env) (w_db w)
      in persist_projection env (Some epoch)
           (on_actor (\<lambda>a. a\<lparr>a_status := IndeterminateStatus\<rparr>)
             (on_metrics (\<lambda>m. m\<lparr>m_orphaned_approvals_total := m_orphaned_approvals_total m + orphaned\<rparr>)
               (w\<lparr>w_db := db1\<rparr>))))"

definition adopt_status :: "json \<Rightarrow> thread_actor \<Rightarrow> thread_actor" where
  "adopt_status v a =
     (case normalize_thread_status (case json_get v ''thread'' of Some t \<Rightarrow> t | None \<Rightarrow> v) of
        Some st \<Rightarrow> a\<lparr>a_status := st\<rparr>
      | None \<Rightarrow> a)"

definition should_resume :: "bool \<Rightarrow> thread_actor \<Rightarrow> bool" where
  "should_resume force_resume a \<longleftrightarrow>
     a_loaded a
     \<or> a_status a \<in> {Running, WaitingForApproval, IndeterminateStatus, Loading, Orphaned}
     \<or> a_active_turn_id a \<noteq> None
     \<or> (force_resume \<and> a_subscribers a \<noteq> [])"

definition adopt_resumed :: "json \<Rightarrow> thread_actor \<Rightarrow> thread_actor" where
  "adopt_resumed v a =
     (let a1 = adopt_status v (a\<lparr>a_loaded := True\<rparr>) in
      case or_else (Option.bind (json_pointer v [''thread'', ''activeTurnId'']) json_as_str) (extract_turn_id v) of
        Some t \<Rightarrow> a1\<lparr>a_active_turn_id := Some t\<rparr>
      | None \<Rightarrow> a1)"

definition adopt_read :: "json \<Rightarrow> thread_actor \<Rightarrow> thread_actor" where
  "adopt_read v a =
     (let a1 = adopt_status v a in if a_status a1 = StoredNotLoaded then a1\<lparr>a_loaded := False\<rparr> else a1)"

definition recover_on_startup :: "actor_env \<Rightarrow> bool \<Rightarrow> world \<Rightarrow> world" where
  "recover_on_startup env force_resume w =
     (let resume = should_resume force_resume (w_actor w);
          params = JObject [(''threadId'', JString (a_thread_id (w_actor w)))];
          (resumed, w1) = (if resume then apfst Some (upstream_call env ''thread/resume'' params w) else (None, w))
      in case resumed of
           Some (Inr v) \<Rightarrow> persist_projection env None (on_actor (adopt_resumed v) w1)
         | _ \<Rightarrow>
             (case upstream_call env ''thread/read'' params w1 of
                (Inr v, w2) \<Rightarrow> persist_projection env None (on_actor (adopt_read v) w2)
              | (Inl e, w2) \<Rightarrow>
                  if resume then persist_projection env None (on_actor (\<lambda>a. a\<lparr>a_status := IndeterminateStatus\<rparr>) w2)
                  else w2))"

section \<open>Commands\<close>

definition respond_approval ::
  "('x) actor_codec_scheme \<Rightarrow> actor_env \<Rightarrow> string \<Rightarrow> string \<Rightarrow> approval_decision \<Rightarrow> world \<Rightarrow>
     thread_command_result \<times> world"
where
  "respond_approval c env key token decision w =
     (case get_approval c token (w_db w) of
        None \<Rightarrow> (failed key (new_remote_error ApprovalOrphaned ''approval token not found'' False), w)
      | Some stored \<Rightarrow>
          if sa_upstream_epoch stored \<noteq> env_epoch env
          then (failed key (new_remote_error StaleUpstreamEpoch
                  ''approval belongs to a previous upstream epoch'' False), w)
          else
            let response = JObject [(''decision'', JString (case decision of Accept \<Rightarrow> ''accept'' | Decline \<Rightarrow> ''decline''))];
                (err, w1) = upstream_respond env (sa_upstream_request_id stored) response w
            in case err of
                 Some e \<Rightarrow>
                   (case classify_upstream_command_error e True of
                      (state, remote_error) \<Rightarrow>
                        if state = ''indeterminate'' then (indeterminate key, w1) else (failed key remote_error, w1))
               | None \<Rightarrow>
                   (completed_result key (JObject [(''approvalToken'', JString token)]),
                    on_db (resolve_approval c token decision response (env_now env)) w1))"

definition upstream_failed :: "string \<Rightarrow> app_server_error \<Rightarrow> thread_command_result" where
  "upstream_failed key e = failed key (new_remote_error UpstreamUnavailable (display_app_server_error e) True)"

definition upstream_lost :: "string \<Rightarrow> app_server_error \<Rightarrow> thread_command_result" where
  "upstream_lost key e =
     (case classify_upstream_command_error e True of
        (state, remote_error) \<Rightarrow> if state = ''indeterminate'' then indeterminate key else failed key remote_error)"

text \<open>The \<open>match\<close> on the command: what is sent upstream and what becomes of the answer.\<close>

fun execute_command ::
  "('x) actor_codec_scheme \<Rightarrow> actor_env \<Rightarrow> string \<Rightarrow> string \<Rightarrow> thread_command \<Rightarrow> world \<Rightarrow>
     thread_command_result \<times> world"
where
  "execute_command c env device key (ThreadStart _ _ _) w =
     (failed key (new_remote_error InternalError ''thread.start must be handled by broker coordinator'' False), w)"
| "execute_command c env device key (ThreadResume thread) w =
     (if thread \<noteq> a_thread_id (w_actor w)
      then (failed key (new_remote_error ThreadNotFound ''thread.resume target does not match actor thread'' False), w)
      else case upstream_call env ''thread/resume'' (JObject [(''threadId'', JString thread)]) w of
             (Inr v, w1) \<Rightarrow> (accepted key v, on_actor (\<lambda>a. a\<lparr>a_loaded := True\<rparr>) w1)
           | (Inl e, w1) \<Rightarrow> (upstream_failed key e, w1))"
| "execute_command c env device key (TurnStart input settings) w =
     (let params0 = [(''threadId'', JString (a_thread_id (w_actor w))), (''input'', inputs_value c input)];
          params1 = (case ts_model settings of Some m \<Rightarrow> obj_insert ''model'' (JString m) params0 | None \<Rightarrow> params0);
          params2 = (case ts_approval_policy settings of
                       Some p \<Rightarrow> obj_insert ''approvalPolicy'' (JString p) params1 | None \<Rightarrow> params1)
      in case upstream_call env ''turn/start'' (JObject params2) w of
           (Inr v, w1) \<Rightarrow>
             (accepted key v,
              persist_projection env (Some (env_epoch env)) (on_actor (\<lambda>a.
                a\<lparr>a_status := Running, a_active_turn_id := or_else (extract_turn_id v) (a_active_turn_id a)\<rparr>) w1))
         | (Inl e, w1) \<Rightarrow> (upstream_lost key e, w1))"
| "execute_command c env device key (TurnSteer expected message input) w =
     (case upstream_call env ''turn/steer'' (JObject [(''threadId'', JString (a_thread_id (w_actor w))),
           (''expectedTurnId'', JString expected), (''clientUserMessageId'', JString message),
           (''input'', inputs_value c input)]) w of
        (Inr v, w1) \<Rightarrow> (accepted key v, w1)
      | (Inl e, w1) \<Rightarrow> (upstream_failed key e, w1))"
| "execute_command c env device key (TurnInterrupt turn) w =
     (case upstream_call env ''turn/interrupt'' (JObject [(''threadId'', JString (a_thread_id (w_actor w))),
           (''turnId'', JString turn)]) w of
        (Inr v, w1) \<Rightarrow>
          (accepted key v, persist_projection env None (on_actor (\<lambda>a. a\<lparr>a_status := Interrupted\<rparr>) w1))
      | (Inl e, w1) \<Rightarrow> (upstream_lost key e, w1))"
| "execute_command c env device key (ApprovalRespond token decision) w = respond_approval c env key token decision w"
| "execute_command c env device key WriterAcquire w =
     (case acquire_lease (env_ttl env) (a_thread_id (w_actor w)) device (''lease_'' @ env_fresh env) (env_now env) (w_db w) of
        (Inr (Inr lease), db1) \<Rightarrow> (accepted key (lease_value c lease), w\<lparr>w_db := db1\<rparr>)
      | (Inr (Inl holder), db1) \<Rightarrow>
          (failed key \<lparr>re_code = WriterLeaseConflict, re_message = ''writer lease held by another device'',
             re_retryable = True, re_details = lease_value c holder\<rparr>, w\<lparr>w_db := db1\<rparr>)
      | (Inl e, db1) \<Rightarrow> (failed key (new_remote_error InternalError (store_error_text c e) True), w\<lparr>w_db := db1\<rparr>))"
| "execute_command c env device key (WriterRelease lease) w =
     (case release_lease (a_thread_id (w_actor w)) device lease (w_db w) of
        (ok, db1) \<Rightarrow> (accepted key (JObject [(''released'', JBool ok)]), w\<lparr>w_db := db1\<rparr>))"
| "execute_command c env device key ThreadArchive w =
     (case upstream_call env ''thread/archive'' (JObject [(''threadId'', JString (a_thread_id (w_actor w)))]) w of
        (Inr v, w1) \<Rightarrow> (accepted key v, w1)
      | (Inl e, w1) \<Rightarrow> (upstream_failed key e, w1))"

text \<open>The answer to a request whose key is already stored.\<close>

definition replay_stored ::
  "('x) actor_codec_scheme \<Rightarrow> string \<Rightarrow> string \<Rightarrow> string \<Rightarrow> string \<Rightarrow> stored_command \<Rightarrow> world \<Rightarrow>
     thread_command_result \<times> world"
where
  "replay_stored c key device kind sha s w =
     (if sc_device s \<noteq> Some device \<or> sc_kind s \<noteq> Some kind
         \<or> (case sc_sha s of Some stored_sha \<Rightarrow> stored_sha \<noteq> sha | None \<Rightarrow> False)
      then (failed key (new_remote_error CommandConflict
              ''idempotency key reused with different command identity'' False), w)
      else
        ((if sc_state s = ''processing'' then processing key
          else if sc_state s = ''completed'' then
            completed_result key (case sc_result s of Some v \<Rightarrow> v | None \<Rightarrow> JNull)
          else if sc_state s = ''failed'' then
            \<lparr>rs_idempotency_key = key, rs_status = FailedCmd, rs_result = JNull,
             rs_error = Option.bind (sc_error s) (error_from_value c)\<rparr>
          else if sc_state s = ''indeterminate'' then indeterminate key
          else failed key (new_remote_error CommandConflict
                 (''unsupported stored command state: '' @ sc_state s) False)),
         on_metrics (\<lambda>m. m\<lparr>m_command_idempotency_hits_total := m_command_idempotency_hits_total m + 1\<rparr>) w))"

definition writer_allowed :: "string option \<Rightarrow> string \<Rightarrow> writer_lease_view option \<Rightarrow> bool" where
  "writer_allowed expected device lease =
     (case (expected, lease) of
        (Some x, Some l) \<Rightarrow> x = wl_lease_id l \<and> wl_holder_device_id l = device
      | (None, Some l) \<Rightarrow> wl_holder_device_id l = device
      | _ \<Rightarrow> False)"

fun stored_state :: "command_status \<Rightarrow> string" where
  "stored_state AcceptedCmd = ''completed''"
| "stored_state CompletedCmd = ''completed''"
| "stored_state ProcessingCmd = ''processing''"
| "stored_state FailedCmd = ''failed''"
| "stored_state IndeterminateCmd = ''indeterminate''"

text \<open>What others do to the database between two statements.\<close>

definition others :: "('x) codec_scheme \<Rightarrow> actor_env \<Rightarrow> nat \<Rightarrow> world \<Rightarrow> world" where
  "others c env i w = on_db (fold (store_step c) (env_meanwhile env i)) w"

text \<open>
  A request up to the point where the command is run: the result if it is not run, or the world in
  which it is.
\<close>

definition prepare_command ::
  "('x) actor_codec_scheme \<Rightarrow> actor_env \<Rightarrow> string \<Rightarrow> thread_command_request \<Rightarrow> world \<Rightarrow>
     thread_command_result \<times> world + world"
where
  "prepare_command c env device rq w =
     (let key = rq_idempotency_key rq;
          thread = a_thread_id (w_actor w);
          kind = command_kind (rq_command rq);
          command = command_value c (rq_command rq);
          sha = sha256_hex c (print_json c command);
          store = (\<lambda>th state res err. on_db (store_command c key device th kind command state res err (env_now env)))
      in if trim key = []
         then Inl (failed key (new_remote_error CommandConflict ''idempotencyKey is required'' False), w)
         else
           case get_command c key (w_db w) of
             Inr (Some s) \<Rightarrow> Inl (replay_stored c key device kind sha s w)
           | _ \<Rightarrow>
               let w1 = others c env 1
                          (store (or_else (rq_thread_id rq) (Some thread)) ''processing'' None None (others c env 0 w));
                   (lease, db2) = (if requires_writer (rq_command rq) then current_lease thread (env_now env) (w_db w1)
                                   else (None, w_db w1));
                   w2 = others c env 2 (w1\<lparr>w_db := db2\<rparr>)
               in if requires_writer (rq_command rq) \<and> \<not> writer_allowed (rq_expected_writer_lease_id rq) device lease
                  then Inl (lease_required key,
                        store (Some thread) ''failed'' None (map_option (error_value c) (rs_error (lease_required key))) w2)
                  else Inr w2)"

text \<open>
  A request up to the point where its result is known; the flag says whether the command was run, so
  that its outcome is still to be stored.
\<close>

definition run_command ::
  "('x) actor_codec_scheme \<Rightarrow> actor_env \<Rightarrow> string \<Rightarrow> thread_command_request \<Rightarrow> world \<Rightarrow>
     bool \<times> thread_command_result \<times> world"
where
  "run_command c env device rq w =
     (case prepare_command c env device rq w of
        Inl (r, w1) \<Rightarrow> (False, r, w1)
      | Inr w2 \<Rightarrow> (True, execute_command c env device (rq_idempotency_key rq) (rq_command rq) w2))"

definition handle_command ::
  "('x) actor_codec_scheme \<Rightarrow> actor_env \<Rightarrow> string \<Rightarrow> thread_command_request \<Rightarrow> world \<Rightarrow>
     thread_command_result \<times> world"
where
  "handle_command c env device rq w =
     (case run_command c env device rq w of
        (False, r, w1) \<Rightarrow> (r, w1)
      | (True, r, w1) \<Rightarrow>
          (r, broadcast ''thread.commandResult'' (result_value c r)
                (on_db (store_command c (rq_idempotency_key rq) device (Some (a_thread_id (w_actor w)))
                   (command_kind (rq_command rq)) (command_value c (rq_command rq)) (stored_state (rs_status r))
                   (Some (rs_result r)) (map_option (error_value c) (rs_error r)) (env_now env))
                  (others c env 3 w1))))"

section \<open>The mailbox\<close>

datatype actor_message =
    AttachClient string subscription_mode u64
  | DetachClient string
  | ClientCommand string thread_command_request
  | Ack string u64
  | UpstreamEvent u64 string json
  | UpstreamServerRequest u64 json_rpc_id string json
  | UpstreamDisconnected u64
  | RecoverOnStartup
  | RecoverAfterReconnect u64
  | CreateSnapshot

fun actor_step :: "('x) actor_codec_scheme \<Rightarrow> actor_env \<Rightarrow> actor_message \<Rightarrow> world \<Rightarrow> world" where
  "actor_step c env (AttachClient device mode last_ack) w =
     snd (attach c env last_ack (on_actor (\<lambda>a. a\<lparr>a_subscribers := AList.update device mode (a_subscribers a)\<rparr>) w))"
| "actor_step c env (DetachClient device) w =
     on_actor (\<lambda>a. a\<lparr>a_subscribers := AList.delete device (a_subscribers a)\<rparr>) w"
| "actor_step c env (ClientCommand device rq) w = snd (handle_command c env device rq w)"
| "actor_step c env (Ack device through) w = on_db (set_ack device (a_thread_id (w_actor w)) through) w"
| "actor_step c env (UpstreamEvent epoch method payload) w = ingest_upstream_event c env epoch method payload w"
| "actor_step c env (UpstreamServerRequest epoch rid method payload) w =
     ingest_server_request c env epoch rid method payload w"
| "actor_step c env (UpstreamDisconnected epoch) w = upstream_disconnected env epoch w"
| "actor_step c env RecoverOnStartup w =
     recover_on_startup env False (on_actor (hydrate_from_store c (w_db w)) w)"
| "actor_step c env (RecoverAfterReconnect epoch) w = recover_on_startup env True w"
| "actor_step c env CreateSnapshot w = persist_snapshot c env w"

definition start_actor :: "string \<Rightarrow> instant \<Rightarrow> broker_db \<Rightarrow> broker_metrics \<Rightarrow> world" where
  "start_actor thread now db m =
     \<lparr>w_actor = new_actor thread, w_db = ensure_thread thread None Idle now db, w_metrics = m, w_sent = [],
      w_broadcasts = []\<rparr>"

section \<open>The actor works through the store\<close>

text \<open>Operations that append no event and save no snapshot.\<close>

fun quiet :: "store_op \<Rightarrow> bool" where
  "quiet (AppendEvent _ _ _ _ _ _ _ _ _) = False"
| "quiet (SaveSnapshot _ _) = False"
| "quiet _ = True"

text \<open>
  \<open>db_reach Q c db db'\<close>: operations of the store lead from \<open>db\<close> to \<open>db'\<close>, each of them quiet or
  one of \<open>Q\<close>.
\<close>

definition db_reach :: "(store_op \<Rightarrow> bool) \<Rightarrow> ('x) codec_scheme \<Rightarrow> broker_db \<Rightarrow> broker_db \<Rightarrow> bool" where
  "db_reach Q c db db' \<longleftrightarrow> (\<exists>ops. list_all (\<lambda>op. Q op \<or> quiet op) ops \<and> db' = fold (store_step c) ops db)"

abbreviation any_op :: "store_op \<Rightarrow> bool" where
  "any_op \<equiv> \<lambda>_. True"

abbreviation no_op :: "store_op \<Rightarrow> bool" where
  "no_op \<equiv> \<lambda>_. False"

lemma db_reach_refl [simp, intro]: "db_reach Q c db db"
  unfolding db_reach_def by (intro exI [of _ "[]"]) simp

lemma db_reach_fold:
  assumes "db_reach Q c a b" "list_all (\<lambda>op. Q op \<or> quiet op) ops"
  shows "db_reach Q c a (fold (store_step c) ops b)"
proof -
  from assms(1) obtain ops1 where "list_all (\<lambda>op. Q op \<or> quiet op) ops1" "b = fold (store_step c) ops1 a"
    unfolding db_reach_def by auto
  with assms(2) show ?thesis unfolding db_reach_def by (intro exI [of _ "ops1 @ ops"]) simp
qed

lemma db_reach_step: "db_reach Q c a b \<Longrightarrow> Q op \<or> quiet op \<Longrightarrow> db_reach Q c a (store_step c op b)"
  using db_reach_fold [of Q c a b "[op]"] by simp

lemma db_reach_any: "db_reach Q c a b \<Longrightarrow> db_reach any_op c a b"
  unfolding db_reach_def by (auto simp: list_all_iff)

lemma db_reach_invar:
  assumes "db_reach Q c db db'" "I db" and step: "\<And>op db. Q op \<or> quiet op \<Longrightarrow> I db \<Longrightarrow> I (store_step c op db)"
  shows "I db'"
proof -
  have "list_all (\<lambda>op. Q op \<or> quiet op) ops \<Longrightarrow> I a \<Longrightarrow> I (fold (store_step c) ops a)" for ops a
    by (induction ops arbitrary: a) (auto intro: step)
  with assms(1,2) show ?thesis by (auto simp: db_reach_def)
qed

text \<open>What others do while a command is handled.\<close>

definition meanwhile :: "(store_op \<Rightarrow> bool) \<Rightarrow> actor_env \<Rightarrow> bool" where
  "meanwhile Q env \<longleftrightarrow> (\<forall>i. list_all (\<lambda>op. Q op \<or> quiet op) (env_meanwhile env i))"

lemma meanwhile_any [simp]: "meanwhile any_op env"
  by (simp add: meanwhile_def list_all_iff)

lemmas reach_ops =
  db_reach_step [of q c a b "EnsureThread t cwd st now" for q c a b t cwd st now, simplified]
  db_reach_step [of q c a b "UpdateProjection t u now" for q c a b t u now, simplified]
  db_reach_step [of q c a b "AppendEvent t e m p turn item occ u now" for q c a b t e m p turn item occ u now, simplified]
  db_reach_step [of q c a b "SetAck d t n" for q c a b d t n, simplified]
  db_reach_step [of q c a b "StoreCommand k d t kd cmd st res err now" for q c a b k d t kd cmd st res err now, simplified]
  db_reach_step [of q c a b "SaveSnapshot sn now" for q c a b sn now, simplified]
  db_reach_step [of q c a b "Acquire ttl t d l now" for q c a b ttl t d l now, simplified]
  db_reach_step [of q c a b "CurrentLease t now" for q c a b t now, simplified]
  db_reach_step [of q c a b "Release t d l" for q c a b t d l, simplified]
  db_reach_step [of q c a b "Register e rid m rq t turn item tok now" for q c a b e rid m rq t turn item tok now, simplified]
  db_reach_step [of q c a b "Resolve tok dec resp now" for q c a b tok dec resp now, simplified]
  db_reach_step [of q c a b "OrphanEpoch e now" for q c a b e now, simplified]

lemma world_fields [simp]:
  "w_db (on_actor f w) = w_db w" "w_db (on_metrics g w) = w_db w" "w_db (broadcast k p w) = w_db w"
  "w_db (on_db h w) = h (w_db w)" "w_db (snd (upstream_call env m v w)) = w_db w"
  "w_db (snd (upstream_respond env rid v w)) = w_db w"
  "w_sent (on_actor f w) = w_sent w" "w_sent (on_metrics g w) = w_sent w" "w_sent (broadcast k p w) = w_sent w"
  "w_sent (on_db h w) = w_sent w"
  "w_actor (on_actor f w) = f (w_actor w)" "w_actor (on_metrics g w) = w_actor w" "w_actor (broadcast k p w) = w_actor w"
  "w_actor (on_db h w) = w_actor w"
  by (simp_all add: on_actor_def on_metrics_def broadcast_def on_db_def upstream_call_def upstream_respond_def)

lemma reach_persist_snapshot: "db_reach any_op c db (w_db w) \<Longrightarrow> db_reach any_op c db (w_db (persist_snapshot c env w))"
  unfolding persist_snapshot_def Let_def
  by (auto split: prod.splits sum.splits dest!: arg_cong [of _ _ snd] intro!: reach_ops)

lemma reach_persist_projection: "db_reach q c db (w_db w) \<Longrightarrow> db_reach q c db (w_db (persist_projection env e w))"
  by (simp add: persist_projection_def Let_def reach_ops)

lemma project_event_id [simp]: "a_thread_id (project_event m p t a) = a_thread_id a"
  by (auto simp: project_event_def Let_def split: option.splits)

lemma remember_event_id [simp]: "a_thread_id (remember_event c e a) = a_thread_id a"
  by (simp add: remember_event_def)

lemma hydrate_id [simp]: "a_thread_id (hydrate_from_store c db a) = a_thread_id a"
proof -
  have f: "a_thread_id (fold (\<lambda>e a. remember_event c (into_protocol e)
      (project_event (se_method e) (se_payload e) (se_turn_id e) a)) es a) = a_thread_id a" for es a
    by (induction es arbitrary: a) simp_all
  show ?thesis unfolding hydrate_from_store_def Let_def f by (auto split: option.splits sum.splits)
qed

lemma attach_db:
  "w_db (snd (attach c env ack w)) = snd (current_lease (a_thread_id (w_actor w)) (env_now env) (w_db w))"
  by (simp add: attach_def Let_def case_prod_beta split del: if_split) simp

lemma reach_attach: "db_reach q c db (w_db w) \<Longrightarrow> db_reach q c db (w_db (snd (attach c env ack w)))"
  unfolding attach_db by (rule reach_ops)

lemma reach_ingest: "db_reach any_op c db (w_db w) \<Longrightarrow> db_reach any_op c db (w_db (ingest_upstream_event c env e m p w))"
proof -
  assume "db_reach any_op c db (w_db w)"
  then have "db_reach any_op c db (w_db (snd (record_upstream_event c env e m p w)))"
    unfolding record_upstream_event_def Let_def case_prod_beta by (simp add: reach_ops)
  then show ?thesis
    unfolding ingest_upstream_event_def case_prod_beta by (simp add: reach_persist_snapshot)
qed

lemma reach_server_request: "db_reach any_op c db (w_db w) \<Longrightarrow> db_reach any_op c db (w_db (ingest_server_request c env e rid m p w))"
proof -
  assume "db_reach any_op c db (w_db w)"
  then have "db_reach any_op c db (snd (register_approval c e rid m p (Some (a_thread_id (w_actor w))) None None
      (''approval_'' @ env_fresh env) (env_now env) (w_db w)))" by (rule reach_ops)
  with \<open>db_reach any_op c db (w_db w)\<close> show ?thesis
    unfolding ingest_server_request_def Let_def case_prod_beta
    by (auto split: sum.splits intro!: reach_persist_snapshot reach_persist_projection)
qed

lemma reach_disconnected: "db_reach q c db (w_db w) \<Longrightarrow> db_reach q c db (w_db (upstream_disconnected env e w))"
  unfolding upstream_disconnected_def Let_def
  by (auto split: prod.splits dest!: arg_cong [of _ _ snd] intro!: reach_persist_projection reach_ops)

lemma reach_recover: "db_reach q c db (w_db w) \<Longrightarrow> db_reach q c db (w_db (recover_on_startup env force w))"
  unfolding recover_on_startup_def Let_def
  by (auto simp: upstream_call_def apfst_def split: prod.splits sum.splits option.splits if_splits
      intro!: reach_persist_projection)

lemma reach_respond_approval:
  "db_reach q c db (w_db w) \<Longrightarrow> db_reach q c db (w_db (snd (respond_approval c env key token dec w)))"
  unfolding respond_approval_def Let_def
  by (auto simp: upstream_respond_def split: prod.splits option.splits intro!: reach_ops)

lemma reach_execute: "db_reach q c db (w_db w) \<Longrightarrow> db_reach q c db (w_db (snd (execute_command c env device key cmd w)))"
  by (cases cmd)
    (auto simp: upstream_call_def Let_def split: prod.splits sum.splits option.splits dest!: arg_cong [of _ _ snd]
      intro!: reach_persist_projection reach_respond_approval reach_ops)

lemma others_fields [simp]: "w_sent (others c env i w) = w_sent w" "w_actor (others c env i w) = w_actor w"
  by (simp_all add: others_def)

lemma reach_others: "meanwhile q env \<Longrightarrow> db_reach q c db (w_db w) \<Longrightarrow> db_reach q c db (w_db (others c env i w))"
  by (simp add: others_def meanwhile_def db_reach_fold)

definition prepared_world :: "thread_command_result \<times> world + world \<Rightarrow> world" where
  "prepared_world p = (case p of Inl (r, w1) \<Rightarrow> w1 | Inr w2 \<Rightarrow> w2)"

lemma prepared_world_simps [simp]: "prepared_world (Inl x) = snd x" "prepared_world (Inr w) = w"
  by (simp_all add: prepared_world_def case_prod_beta)

lemma reach_prepare:
  assumes "meanwhile q env" "db_reach q c db (w_db w)"
  shows "db_reach q c db (w_db (prepared_world (prepare_command c env device rq w)))"
proof -
  define w1 where "w1 = others c env 1 (on_db (store_command c (rq_idempotency_key rq) device
      (or_else (rq_thread_id rq) (Some (a_thread_id (w_actor w)))) (command_kind (rq_command rq))
      (command_value c (rq_command rq)) ''processing'' None None (env_now env)) (others c env 0 w))"
  define lp where "lp = (if requires_writer (rq_command rq) then current_lease (a_thread_id (w_actor w)) (env_now env) (w_db w1)
      else (None, w_db w1))"
  have "db_reach q c db (w_db w1)"
    unfolding w1_def using assms by (intro reach_others) (simp_all add: reach_ops reach_others)
  then have "db_reach q c db (snd lp)" by (simp add: lp_def reach_ops)
  then have "db_reach q c db (w_db (others c env 2 (w1\<lparr>w_db := snd lp\<rparr>)))"
    using assms(1) by (simp add: reach_others)
  then show ?thesis
    using assms(2) unfolding prepare_command_def Let_def w1_def [symmetric] lp_def [symmetric] case_prod_beta
    by (auto simp: replay_stored_def reach_ops split: sum.splits option.splits)
qed

lemma reach_run_command:
  "meanwhile q env \<Longrightarrow> db_reach q c db (w_db w) \<Longrightarrow> db_reach q c db (w_db (snd (snd (run_command c env device rq w))))"
  using reach_prepare [of q env c db w device rq] unfolding run_command_def
  by (auto split: sum.splits intro!: reach_execute)

lemma reach_handle_command:
  "meanwhile q env \<Longrightarrow> db_reach q c db (w_db w) \<Longrightarrow> db_reach q c db (w_db (snd (handle_command c env device rq w)))"
  using reach_run_command [of q env c db w device rq] unfolding handle_command_def
  by (auto split: prod.splits bool.splits intro!: reach_ops reach_others)

lemma reach_actor_step: "db_reach any_op c (w_db w) (w_db (actor_step c env msg w))"
  by (cases msg)
    (auto intro!: reach_attach reach_handle_command reach_ingest reach_server_request reach_disconnected reach_recover
      reach_persist_snapshot reach_ops)

section \<open>Runs of the broker\<close>

text \<open>
  What can happen to the world of an actor: one of its messages, an operation on the shared database by
  another part of the broker, a restart of the broker, and a crash at one of the points that matter:
  when the intent of a command is recorded and the command is not yet run, when it was run and its
  outcome is not yet stored, and when an event is recorded and the snapshot after it is not yet saved.
\<close>

datatype broker_op =
    Actor actor_env actor_message
  | Elsewhere store_op
  | Restart instant
  | CrashBeforeCommand actor_env string thread_command_request
  | CrashInCommand actor_env string thread_command_request
  | CrashInEvent actor_env u64 string json

definition restart :: "instant \<Rightarrow> world \<Rightarrow> world" where
  "restart now w =
     w\<lparr>w_actor := new_actor (a_thread_id (w_actor w)), w_db := ensure_thread (a_thread_id (w_actor w)) None Idle now (w_db w)\<rparr>"

fun broker_step :: "('x) actor_codec_scheme \<Rightarrow> broker_op \<Rightarrow> world \<Rightarrow> world" where
  "broker_step c (Actor env msg) w = actor_step c env msg w"
| "broker_step c (Elsewhere op) w = on_db (store_step c op) w"
| "broker_step c (Restart now) w = restart now w"
| "broker_step c (CrashBeforeCommand env device rq) w =
     restart (env_now env) (prepared_world (prepare_command c env device rq w))"
| "broker_step c (CrashInCommand env device rq) w = restart (env_now env) (snd (snd (run_command c env device rq w)))"
| "broker_step c (CrashInEvent env epoch method payload) w =
     restart (env_now env) (snd (record_upstream_event c env epoch method payload w))"

lemma reach_record: "db_reach any_op c db (w_db w) \<Longrightarrow> db_reach any_op c db (w_db (snd (record_upstream_event c env e m p w)))"
  unfolding record_upstream_event_def Let_def case_prod_beta by (simp add: reach_ops)

lemma reach_broker_step: "db_reach any_op c (w_db w) (w_db (broker_step c op w))"
  by (cases op) (auto simp: restart_def reach_actor_step
      intro!: db_reach_step reach_run_command reach_prepare reach_record reach_ops)

section \<open>Commands are sent at most once\<close>

definition key_stored :: "string \<Rightarrow> broker_db \<Rightarrow> bool" where
  "key_stored key db \<longleftrightarrow> map_of (client_commands db) key \<noteq> None"

definition column_ok :: "('x) codec_scheme \<Rightarrow> string option \<Rightarrow> bool" where
  "column_ok c bytes \<longleftrightarrow> (case bytes of Some b \<Rightarrow> parse_json c b \<noteq> None | None \<Rightarrow> True)"

text \<open>Every stored outcome can be read back.\<close>

definition commands_ok :: "('x) codec_scheme \<Rightarrow> broker_db \<Rightarrow> bool" where
  "commands_ok c db \<longleftrightarrow> (\<forall>k r. map_of (client_commands db) k = Some r \<longrightarrow>
     column_ok c (cr_result_ciphertext r) \<and> column_ok c (cr_error_ciphertext r))"

lemma commands_other_ops [simp]:
  "client_commands (ensure_thread_on t cwd st now db) = client_commands db"
  "client_commands (ensure_epoch e v now db) = client_commands db"
  "client_commands (snd (update_thread_projection t u now db)) = client_commands db"
  "client_commands (snd (append_event c t e m p turn item occ u now db)) = client_commands db"
  "client_commands (snd (save_snapshot c sn now db)) = client_commands db"
  "client_commands (snd (acquire_lease ttl t d l now db)) = client_commands db"
  "client_commands (snd (heartbeat ttl t d l now db)) = client_commands db"
  "client_commands (snd (current_lease t now db)) = client_commands db"
  "client_commands (snd (release_lease t d l db)) = client_commands db"
  "client_commands (snd (register_approval c e rid m rq th turn item tok now db)) = client_commands db"
  by (simp_all add: ensure_thread_on_def ensure_epoch_def update_thread_projection_def append_event_def
      save_snapshot_def acquire_lease_def heartbeat_def current_lease_def release_lease_def register_approval_def
      Let_def split: option.splits)

lemma map_of_marked:
  "map_of (client_commands (snd (mark_processing_indeterminate now db))) k =
    map_option (\<lambda>r. if is_interrupted_command r
       then r\<lparr>cr_state := ''indeterminate'', cr_updated_at_ms := timestamp_millis now\<rparr> else r)
      (map_of (client_commands db) k)"
  by (simp add: mark_processing_indeterminate_def map_of_map)

lemma key_stored_step: "key_stored key db \<Longrightarrow> key_stored key (store_step c op db)"
  by (cases op) (auto simp: key_stored_def map_of_marked ensure_thread_def set_ack_def store_command_def ensure_device_def
      mark_presented_def resolve_approval_def orphan_epoch_def Let_def update_conv')

lemma key_stored_reach: "db_reach q c db db' \<Longrightarrow> key_stored key db \<Longrightarrow> key_stored key db'"
  by (rule db_reach_invar) (auto intro: key_stored_step)

lemma commands_ok_step:
  assumes "\<And>v. parse_json c (print_json c v) \<noteq> None" "commands_ok c db"
  shows "commands_ok c (store_step c op db)"
proof -
  have "column_ok c (map_option (print_json c) x)" for x
    using assms(1) by (simp add: column_ok_def split: option.splits)
  then show ?thesis
    using assms(2)
    by (cases op) (auto simp: commands_ok_def map_of_marked ensure_thread_def set_ack_def store_command_def
        ensure_device_def mark_presented_def resolve_approval_def orphan_epoch_def Let_def update_conv'
        split: option.splits if_splits)
qed

lemma get_command_stored:
  assumes "commands_ok c db" "key_stored key db"
  shows "\<exists>s. get_command c key db = Inr (Some s)"
  using assms
  by (fastforce simp: key_stored_def commands_ok_def get_command_def decode_column_def column_ok_def
      split: option.splits)

lemma sent_persist [simp]:
  "w_sent (persist_projection env e w) = w_sent w" "w_sent (persist_snapshot c env w) = w_sent w"
  by (simp_all add: persist_projection_def persist_snapshot_def Let_def case_prod_beta on_metrics_def split: sum.splits)

lemma execute_sends:
  "\<exists>as. w_sent (snd (execute_command c env device key cmd w)) = w_sent w @ as \<and> length as \<le> 1"
  by (cases cmd) (auto simp: upstream_call_def respond_approval_def upstream_respond_def Let_def
      split: prod.splits sum.splits option.splits)

text \<open>A request whose key is stored sends nothing.\<close>

lemma run_command_found:
  "get_command c (rq_idempotency_key rq) (w_db w) = Inr (Some s) \<Longrightarrow>
     w_sent (snd (snd (run_command c env device rq w))) = w_sent w"
  by (simp add: run_command_def prepare_command_def Let_def replay_stored_def)

lemma run_command_stored:
  assumes "commands_ok c (w_db w)" "key_stored (rq_idempotency_key rq) (w_db w)"
  shows "w_sent (snd (snd (run_command c env device rq w))) = w_sent w"
  using get_command_stored [OF assms] run_command_found by blast

lemma w_db_update: "w_db (w\<lparr>w_db := db\<rparr>) = db"
  by simp

text \<open>
  The database at the moment the lease is checked: after the intent was stored, and with what others
  did meanwhile.
\<close>

definition lease_check_db ::
  "('x) actor_codec_scheme \<Rightarrow> actor_env \<Rightarrow> string \<Rightarrow> thread_command_request \<Rightarrow> world \<Rightarrow> broker_db"
where
  "lease_check_db c env device rq w =
     fold (store_step c)
       (env_meanwhile env 0 @
        [StoreCommand (rq_idempotency_key rq) device (or_else (rq_thread_id rq) (Some (a_thread_id (w_actor w))))
           (command_kind (rq_command rq)) (command_value c (rq_command rq)) ''processing'' None None (env_now env)] @
        env_meanwhile env 1) (w_db w)"

lemma lease_check_db_stored: "key_stored (rq_idempotency_key rq) (lease_check_db c env device rq w)"
proof -
  let ?store = "StoreCommand (rq_idempotency_key rq) device (or_else (rq_thread_id rq) (Some (a_thread_id (w_actor w))))
      (command_kind (rq_command rq)) (command_value c (rq_command rq)) ''processing'' None None (env_now env)"
  have stored: "key_stored (rq_idempotency_key rq) (store_step c ?store db)" for db
    by (simp add: key_stored_def store_command_def Let_def update_conv')
  have "db_reach any_op c db (fold (store_step c) (env_meanwhile env 1) db)" for db
    by (rule db_reach_fold) (simp_all add: list_all_iff)
  from key_stored_reach [OF this stored] show ?thesis by (simp add: lease_check_db_def)
qed

lemma reach_lease_check: "db_reach any_op c (w_db w) (lease_check_db c env device rq w)"
  unfolding lease_check_db_def by (rule db_reach_fold) (simp_all add: list_all_iff)

text \<open>
  A request whose key is not found: the intent is stored first; then the command is refused for want of
  the lease, or it is executed.
\<close>

lemma run_command_cases:
  assumes key: "trim (rq_idempotency_key rq) \<noteq> []" and none: "\<nexists>s. get_command c (rq_idempotency_key rq) (w_db w) = Inr (Some s)"
  shows "\<exists>w2. db_reach any_op c (lease_check_db c env device rq w) (w_db w2) \<and> w_sent w2 = w_sent w \<and>
    ((\<exists>f. snd (run_command c env device rq w) = (lease_required (rq_idempotency_key rq), on_db f w2)) \<or>
     snd (run_command c env device rq w) = execute_command c env device (rq_idempotency_key rq) (rq_command rq) w2 \<and>
     (requires_writer (rq_command rq) \<longrightarrow> writer_allowed (rq_expected_writer_lease_id rq) device
        (fst (current_lease (a_thread_id (w_actor w)) (env_now env) (lease_check_db c env device rq w)))))"
proof -
  let ?key = "rq_idempotency_key rq"
  let ?store = "\<lambda>th state err. store_command c ?key device th (command_kind (rq_command rq))
      (command_value c (rq_command rq)) state None err (env_now env)"
  define w1 where "w1 = others c env 1
      (on_db (?store (or_else (rq_thread_id rq) (Some (a_thread_id (w_actor w)))) ''processing'' None) (others c env 0 w))"
  define lp where "lp = (if requires_writer (rq_command rq) then current_lease (a_thread_id (w_actor w)) (env_now env) (w_db w1)
      else (None, w_db w1))"
  define w2 where "w2 = others c env 2 (w1\<lparr>w_db := snd lp\<rparr>)"
  define f where "f = ?store (Some (a_thread_id (w_actor w))) ''failed''
      (map_option (error_value c) (rs_error (lease_required ?key)))"
  have w1: "w_db w1 = lease_check_db c env device rq w"
    by (simp add: w1_def lease_check_db_def others_def)
  have "prepare_command c env device rq w =
      (if requires_writer (rq_command rq) \<and> \<not> writer_allowed (rq_expected_writer_lease_id rq) device (fst lp)
       then Inl (lease_required ?key, on_db f w2) else Inr w2)"
  proof (cases "get_command c ?key (w_db w)")
    case (Inr x)
    with none have "x = None" by (cases x) auto
    with Inr key show ?thesis
      unfolding prepare_command_def Let_def w1_def [symmetric] lp_def [symmetric] case_prod_beta w2_def [symmetric] f_def by simp
  qed (use key in \<open>unfold prepare_command_def Let_def w1_def [symmetric] lp_def [symmetric] case_prod_beta w2_def [symmetric] f_def, simp\<close>)
  then have run: "snd (run_command c env device rq w) =
      (if requires_writer (rq_command rq) \<and> \<not> writer_allowed (rq_expected_writer_lease_id rq) device (fst lp)
       then (lease_required ?key, on_db f w2) else execute_command c env device ?key (rq_command rq) w2)"
    by (simp add: run_command_def)
  have "db_reach any_op c (w_db w1) (w_db w2)"
    unfolding w2_def by (rule reach_others) (simp_all add: lp_def reach_ops)
  moreover have "w_sent w2 = w_sent w" by (simp add: w2_def w1_def)
  ultimately show ?thesis
    using run by (intro exI [of _ w2]) (auto simp: lp_def w1)
qed

lemma run_command_fresh:
  assumes none: "\<nexists>s. get_command c (rq_idempotency_key rq) (w_db w) = Inr (Some s)" and w': "w' = snd (snd (run_command c env device rq w))"
  shows "w_sent w' = w_sent w \<or> key_stored (rq_idempotency_key rq) (w_db w') \<and> length (w_sent w') \<le> Suc (length (w_sent w))"
proof (cases "trim (rq_idempotency_key rq) = []")
  case True
  then show ?thesis by (simp add: w' run_command_def prepare_command_def Let_def)
next
  case False
  from run_command_cases [OF False none, of env device] obtain w2 where
    r: "db_reach any_op c (lease_check_db c env device rq w) (w_db w2)" and s: "w_sent w2 = w_sent w" and
    d: "(\<exists>f. snd (run_command c env device rq w) = (lease_required (rq_idempotency_key rq), on_db f w2)) \<or>
      snd (run_command c env device rq w) = execute_command c env device (rq_idempotency_key rq) (rq_command rq) w2"
    by blast
  then have c: "w_sent w' = w_sent w \<or> w' = snd (execute_command c env device (rq_idempotency_key rq) (rq_command rq) w2)"
    unfolding w' by auto
  show ?thesis
  proof (cases "w_sent w' = w_sent w")
    case False
    with c have e: "w' = snd (execute_command c env device (rq_idempotency_key rq) (rq_command rq) w2)" by simp
    have "key_stored (rq_idempotency_key rq) (w_db w')"
      unfolding e by (rule key_stored_reach [OF reach_execute [OF r] lease_check_db_stored])
    moreover obtain as where "w_sent w' = w_sent w2 @ as" "length as \<le> 1"
      using execute_sends [of c env device "rq_idempotency_key rq" "rq_command rq" w2] e by auto
    ultimately show ?thesis using s by simp
  qed simp
qed

text \<open>The idempotency key of a step that runs a command.\<close>

fun op_key :: "broker_op \<Rightarrow> string option" where
  "op_key (Actor env (ClientCommand device rq)) = Some (rq_idempotency_key rq)"
| "op_key (CrashBeforeCommand env device rq) = Some (rq_idempotency_key rq)"
| "op_key (CrashInCommand env device rq) = Some (rq_idempotency_key rq)"
| "op_key _ = None"

definition sends :: "('x) actor_codec_scheme \<Rightarrow> string \<Rightarrow> broker_op \<Rightarrow> world \<Rightarrow> bool" where
  "sends c key op w \<longleftrightarrow> op_key op = Some key \<and> w_sent (broker_step c op w) \<noteq> w_sent w"

lemma handle_command_sent: "w_sent (snd (handle_command c env device rq w)) = w_sent (snd (snd (run_command c env device rq w)))"
  by (simp add: handle_command_def split: prod.splits bool.splits)

lemma handle_command_reach:
  "db_reach any_op c (w_db (snd (snd (run_command c env device rq w)))) (w_db (snd (handle_command c env device rq w)))"
  by (auto simp: handle_command_def split: prod.splits bool.splits intro!: reach_ops reach_others)

lemma prepare_sends_nothing: "w_sent (prepared_world (prepare_command c env device rq w)) = w_sent w"
  unfolding prepare_command_def Let_def case_prod_beta
  by (auto simp: replay_stored_def split: sum.splits option.splits)

lemma command_step:
  assumes "sends c key op w"
  shows "\<exists>env device rq. key = rq_idempotency_key rq \<and>
    w_sent (broker_step c op w) = w_sent (snd (snd (run_command c env device rq w))) \<and>
    db_reach any_op c (w_db (snd (snd (run_command c env device rq w)))) (w_db (broker_step c op w))"
  using assms
  by (cases op rule: op_key.cases)
    (auto simp: sends_def handle_command_sent handle_command_reach restart_def prepare_sends_nothing intro!: exI reach_ops)

definition send_credit :: "string \<Rightarrow> world \<Rightarrow> nat" where
  "send_credit key w = (if key_stored key (w_db w) then 0 else 1)"

lemma send_spends:
  assumes "commands_ok c (w_db w)"
  shows "of_bool (sends c key op w) + send_credit key (broker_step c op w) \<le> send_credit key w"
proof (cases "sends c key op w")
  case True
  then have sent: "w_sent (broker_step c op w) \<noteq> w_sent w" by (simp add: sends_def)
  from command_step [OF True] obtain env device rq where key: "key = rq_idempotency_key rq"
    and s: "w_sent (broker_step c op w) = w_sent (snd (snd (run_command c env device rq w)))"
    and r: "db_reach any_op c (w_db (snd (snd (run_command c env device rq w)))) (w_db (broker_step c op w))"
    by metis
  have new: "\<not> key_stored key (w_db w)"
    using run_command_stored [OF assms, of rq env device] sent s key by auto
  then have "\<nexists>s. get_command c (rq_idempotency_key rq) (w_db w) = Inr (Some s)"
    by (auto simp: key key_stored_def get_command_def)
  from run_command_fresh [OF this refl, of env device] sent s
  have "key_stored key (w_db (broker_step c op w))"
    using key_stored_reach [OF r] key by auto
  with new show ?thesis by (simp add: send_credit_def)
next
  case False
  then show ?thesis
    using key_stored_reach [OF reach_broker_step, of key w c op] by (simp add: send_credit_def)
qed

definition codec_reads :: "('x) codec_scheme \<Rightarrow> bool" where
  "codec_reads c \<longleftrightarrow> (\<forall>v. parse_json c (print_json c v) \<noteq> None)"

lemma commands_ok_reach: "codec_reads c \<Longrightarrow> commands_ok c db \<Longrightarrow> db_reach any_op c db db' \<Longrightarrow> commands_ok c db'"
  by (rule db_reach_invar) (auto simp: codec_reads_def intro!: commands_ok_step)

interpretation delivery: credit_system "broker_step c" "\<lambda>w. codec_reads c \<and> commands_ok c (w_db w)" "sends c key"
    "\<lambda>op w. False" "send_credit key" for c key
proof unfold_locales
  fix op and w :: world
  assume inv: "codec_reads c \<and> commands_ok c (w_db w)"
  then show "codec_reads c \<and> commands_ok c (w_db (broker_step c op w))"
    by (blast intro: commands_ok_reach reach_broker_step)
  show "of_bool (sends c key op w) + send_credit key (broker_step c op w) \<le> send_credit key w"
    by (rule send_spends) (simp add: inv)
qed


text \<open>A codec and an upstream for examples.\<close>

definition plain_actor_codec :: actor_codec where
  "plain_actor_codec = codec.extend plain_codec
     \<lparr>command_value = (\<lambda>_. JNull), inputs_value = (\<lambda>_. JNull), lease_value = (\<lambda>_. JNull), error_value = (\<lambda>_. JNull),
      error_from_value = (\<lambda>_. None), approval_value = (\<lambda>_. JNull), result_value = (\<lambda>_. JNull),
      store_error_text = (\<lambda>_. [])\<rparr>"

definition ready_env :: actor_env where
  "ready_env = \<lparr>env_now = 0, env_fresh = ''1'', env_epoch = 1, env_ttl = 30, env_answer = (\<lambda>_ _. Inr JNull),
     env_respond = (\<lambda>_ _. None), env_meanwhile = (\<lambda>_. [])\<rparr>"

definition zero_metrics :: broker_metrics where
  "zero_metrics = \<lparr>m_pending_approvals = 0, m_event_seq = 0, m_replay_events_total = 0, m_snapshot_total = 0,
     m_command_idempotency_hits_total = 0, m_orphaned_approvals_total = 0\<rparr>"

definition request :: "string \<Rightarrow> thread_command \<Rightarrow> thread_command_request" where
  "request key cmd = \<lparr>rq_idempotency_key = key, rq_thread_id = None, rq_expected_writer_lease_id = None, rq_command = cmd\<rparr>"

lemma trim_k: "trim ''k'' = ''k''"
  by code_simp

text \<open>A run in which a device gets the lease, and the world after it.\<close>

definition holder_run :: "broker_op list" where
  "holder_run = [Elsewhere (EnsureDevice ''a'' ''A'' 0), Elsewhere (Acquire 30 ''t'' ''a'' ''lease_1'' 0)]"

abbreviation holder_world :: world where
  "holder_world \<equiv> fold (broker_step plain_actor_codec) holder_run (start_actor ''t'' 0 empty_db zero_metrics)"

lemma holder_world_facts:
  "w_actor holder_world = new_actor ''t''" "client_commands (w_db holder_world) = []" "w_sent holder_world = []"
  "writer_leases (w_db holder_world) = [(''t'', \<lparr>lr_lease_id = ''lease_1'', lr_device_id = ''a'', lr_acquired_at_ms = 0,
     lr_expires_at_ms = 30000, lr_generation = 1\<rparr>)]"
  by (simp_all add: holder_run_def start_actor_def ensure_device_def acquire_lease_def Let_def empty_db_def
      ensure_thread_def ensure_thread_on_def purge_expired_def timestamp_millis_def lease_expiry_def)

lemmas command_eval = run_command_def prepare_command_def others_def request_def Let_def get_command_def current_lease_def store_command_def
  purge_expired_def ready_env_def timestamp_millis_def writer_allowed_def lease_view_def new_actor_def upstream_call_def trim_k

lemma holder_sends:
  "w_sent (snd (snd (run_command plain_actor_codec ready_env ''a'' (request ''k'' ThreadArchive) holder_world))) \<noteq> []"
  by (simp add: command_eval holder_world_facts)


text \<open>
  Two actors are another matter: the key is looked up in one statement and stored in the next, and the
  store overwrites. A key that another actor or the gateway stored in between does not stop the command,
  so two threads, or a thread and the gateway, that get one key at once may each send it.
\<close>

definition busy_env :: actor_env where
  "busy_env = ready_env\<lparr>env_meanwhile :=
     (\<lambda>i. if i = 0 then [StoreCommand ''k'' ''a'' (Some ''u'') ''thread.archive'' JNull ''processing'' None None 0] else [])\<rparr>"

lemma concurrent_key_sends:
  "key_stored ''k'' (w_db (others plain_actor_codec busy_env 0 holder_world)) \<and>
   w_sent (snd (handle_command plain_actor_codec busy_env ''a'' (request ''k'' ThreadArchive) holder_world)) \<noteq> []"
  by (simp add: handle_command_sent command_eval busy_env_def holder_world_facts key_stored_def update_conv')

section \<open>The actor keeps its thread\<close>

text \<open>The fields of the actor that only hydration and events change.\<close>

definition core :: "thread_actor \<Rightarrow> string \<times> json list" where
  "core a = (a_thread_id a, a_recent_items a)"

lemma core_persist [simp]:
  "w_actor (persist_projection env e w) = w_actor w" "w_actor (persist_snapshot c env w) = w_actor w"
  by (simp_all add: persist_projection_def persist_snapshot_def Let_def case_prod_beta on_metrics_def split: sum.splits)

lemma core_adopt [simp]:
  "core (adopt_status v a) = core a" "core (adopt_resumed v a) = core a" "core (adopt_read v a) = core a"
proof -
  show "core (adopt_status v a) = core a" for a
    by (simp add: adopt_status_def core_def split: option.splits)
  from this [of "a\<lparr>a_loaded := True\<rparr>"] this [of a]
  show "core (adopt_resumed v a) = core a" "core (adopt_read v a) = core a"
    by (auto simp: adopt_resumed_def adopt_read_def core_def Let_def split: option.splits)
qed

lemma core_update [simp]:
  "core (a\<lparr>a_status := st\<rparr>) = core a" "core (a\<lparr>a_loaded := b\<rparr>) = core a" "core (a\<lparr>a_active_turn_id := x\<rparr>) = core a"
  "core (a\<lparr>a_subscribers := y\<rparr>) = core a"
  by (simp_all add: core_def)

lemma actor_upstream [simp]:
  "w_actor (snd (upstream_call env m v w)) = w_actor w" "w_actor (snd (upstream_respond env rid v w)) = w_actor w"
  by (simp_all add: upstream_call_def upstream_respond_def)

lemma core_execute: "core (w_actor (snd (execute_command c env device key cmd w))) = core (w_actor w)"
  by (cases cmd) (auto simp: upstream_call_def respond_approval_def upstream_respond_def Let_def
      split: prod.splits sum.splits option.splits)

lemma actor_prepare: "w_actor (prepared_world (prepare_command c env device rq w)) = w_actor w"
  unfolding prepare_command_def Let_def case_prod_beta
  by (auto simp: replay_stored_def split: sum.splits option.splits)

lemma core_run_command: "core (w_actor (snd (snd (run_command c env device rq w)))) = core (w_actor w)"
  using actor_prepare [of c env device rq w] unfolding run_command_def
  by (auto simp: core_execute split: sum.splits)

lemma core_handle_command: "core (w_actor (snd (handle_command c env device rq w))) = core (w_actor w)"
  using core_run_command [of c env device rq w] unfolding handle_command_def
  by (auto split: prod.splits bool.splits)

lemma core_disconnected: "core (w_actor (upstream_disconnected env e w)) = core (w_actor w)"
  by (simp add: upstream_disconnected_def Let_def case_prod_beta)

lemma core_recover: "core (w_actor (recover_on_startup env force w)) = core (w_actor w)"
  unfolding recover_on_startup_def Let_def
  by (auto simp: upstream_call_def apfst_def split: prod.splits sum.splits option.splits if_splits)

text \<open>An approval request is quiet up to the snapshot it may end with.\<close>

lemma server_request_cases:
  "\<exists>w1. db_reach no_op c (w_db w) (w_db w1) \<and> core (w_actor w1) = core (w_actor w) \<and>
    (ingest_server_request c env e rid m p w = w1 \<or> ingest_server_request c env e rid m p w = persist_snapshot c env w1)"
proof (cases "m \<in> set APPROVAL_METHODS")
  case False
  then show ?thesis
    by (intro exI [of _ "ingest_server_request c env e rid m p w"]) (simp add: ingest_server_request_def)
next
  case True
  let ?reg = "register_approval c e rid m p (Some (a_thread_id (w_actor w))) None None
      (''approval_'' @ env_fresh env) (env_now env) (w_db w)"
  have r: "db_reach no_op c (w_db w) (snd ?reg)" by (rule reach_ops) simp
  show ?thesis
  proof (cases "fst ?reg")
    case (Inl err)
    with True have "ingest_server_request c env e rid m p w = w\<lparr>w_db := snd ?reg\<rparr>"
      by (simp add: ingest_server_request_def case_prod_beta)
    with r show ?thesis by (intro exI [of _ "w\<lparr>w_db := snd ?reg\<rparr>"]) simp
  next
    case (Inr stored)
    let ?w1 = "on_metrics (\<lambda>m. m\<lparr>m_pending_approvals := m_pending_approvals m + 1\<rparr>)
        (on_actor (\<lambda>a. a\<lparr>a_status := WaitingForApproval\<rparr>) (w\<lparr>w_db := snd ?reg\<rparr>))"
    let ?w3 = "broadcast ''approval.pending'' (approval_value c (sa_approval stored)) (persist_projection env (Some e) ?w1)"
    have "db_reach no_op c (w_db w) (w_db ?w3)"
      using r by (simp add: reach_persist_projection)
    moreover have "ingest_server_request c env e rid m p w = persist_snapshot c env ?w3"
      using True Inr by (simp add: ingest_server_request_def case_prod_beta Let_def)
    ultimately show ?thesis by (intro exI [of _ ?w3]) simp
  qed
qed

lemma thread_id_record: "a_thread_id (w_actor (snd (record_upstream_event c env e m p w))) = a_thread_id (w_actor w)"
  by (simp add: record_upstream_event_def Let_def case_prod_beta)

lemma thread_id_ingest: "a_thread_id (w_actor (ingest_upstream_event c env e m p w)) = a_thread_id (w_actor w)"
  by (simp add: ingest_upstream_event_def record_upstream_event_def Let_def case_prod_beta)

lemma thread_id_attach: "a_thread_id (w_actor (snd (attach c env ack w))) = a_thread_id (w_actor w)"
  by (simp add: attach_def Let_def case_prod_beta split del: if_split) simp

lemma coreD: "core a = core b \<Longrightarrow> a_thread_id a = a_thread_id b"
  by (simp add: core_def)

lemma thread_id_step: "a_thread_id (w_actor (broker_step c op w)) = a_thread_id (w_actor w)"
proof (cases op)
  case (Actor env msg)
  show ?thesis
  proof (cases msg)
    case (UpstreamServerRequest epoch rid m p)
    from server_request_cases [of c w env epoch rid m p] show ?thesis
      by (auto simp: Actor UpstreamServerRequest dest!: coreD)
  qed (use coreD [OF core_recover] in \<open>simp_all add: Actor thread_id_ingest thread_id_attach
      coreD [OF core_handle_command] coreD [OF core_disconnected]\<close>)
qed (simp_all add: restart_def new_actor_def coreD [OF core_run_command] actor_prepare thread_id_record)

lemma thread_id_run: "a_thread_id (w_actor (fold (broker_step c) ops w)) = a_thread_id (w_actor w)"
  by (induction ops arbitrary: w) (simp_all add: thread_id_step)

section \<open>Writing needs the lease\<close>

lemma lease_inv_world: "lease_inv (w_db w) \<Longrightarrow> lease_inv (w_db (broker_step c op w))"
  by (rule db_reach_invar [OF reach_broker_step]) (auto intro: lease_inv_step)

interpretation world_leases: step_system "broker_step c" "\<lambda>w. lease_inv (w_db w)" for c
  by unfold_locales (rule lease_inv_world)

lemma current_lease_Some:
  assumes "lease_inv db" "fst (current_lease t now db) = Some v"
  shows "\<exists>r. map_of (writer_leases db) t = Some r \<and> v = lease_view r \<and> timestamp_millis now \<le> lr_expires_at_ms r"
  using assms by (auto simp: current_lease_def Let_def lease_inv_def map_of_purge split: option.splits if_splits)

text \<open>
  C15: A command that changes the thread goes upstream only for a device that holds the unexpired writer
  lease at the moment the lease is checked, which is after the intent was stored and with all that
  others did until then; and if the client named the lease it expects, only under that lease.
\<close>

theorem writer_commands_need_lease:
  assumes "w = fold (broker_step c) ops (start_actor thread now0 empty_db m)"
    and "requires_writer (rq_command rq)"
    and "w_sent (snd (handle_command c env device rq w)) \<noteq> w_sent w"
  shows "\<exists>r. map_of (writer_leases (lease_check_db c env device rq w)) thread = Some r \<and> lr_device_id r = device \<and>
    timestamp_millis (env_now env) \<le> lr_expires_at_ms r \<and>
    (case rq_expected_writer_lease_id rq of Some x \<Rightarrow> lr_lease_id r = x | None \<Rightarrow> True)"
proof -
  let ?db = "lease_check_db c env device rq w"
  have "lease_inv (w_db w)"
    unfolding assms(1) by (rule world_leases.run_invar) (simp add: start_actor_def lease_inv_def ensure_thread_def empty_db_def)
  then have inv: "lease_inv ?db"
    by (rule db_reach_invar [OF reach_lease_check]) (auto intro: lease_inv_step)
  have key: "trim (rq_idempotency_key rq) \<noteq> []"
    using assms(3) by (auto simp: handle_command_def run_command_def prepare_command_def Let_def)
  have none: "\<nexists>s. get_command c (rq_idempotency_key rq) (w_db w) = Inr (Some s)"
    using assms(3) run_command_found [of c rq w] by (auto simp: handle_command_sent)
  have thread: "a_thread_id (w_actor w) = thread"
    unfolding assms(1) thread_id_run by (simp add: start_actor_def new_actor_def)
  from run_command_cases [OF key none, of env device] obtain w2 where s: "w_sent w2 = w_sent w" and
    d: "(\<exists>f. snd (run_command c env device rq w) = (lease_required (rq_idempotency_key rq), on_db f w2)) \<or>
      (requires_writer (rq_command rq) \<longrightarrow> writer_allowed (rq_expected_writer_lease_id rq) device
        (fst (current_lease (a_thread_id (w_actor w)) (env_now env) ?db)))"
    by blast
  then have "writer_allowed (rq_expected_writer_lease_id rq) device (fst (current_lease thread (env_now env) ?db))"
    using assms(2,3) thread by (auto simp: handle_command_sent)
  then obtain v where v: "fst (current_lease thread (env_now env) ?db) = Some v" "wl_holder_device_id v = device"
      "case rq_expected_writer_lease_id rq of Some x \<Rightarrow> wl_lease_id v = x | None \<Rightarrow> True"
    by (auto simp: writer_allowed_def split: option.splits)
  from current_lease_Some [OF inv v(1)] v(2,3) show ?thesis
    by (auto simp: lease_view_def split: option.splits)
qed

theorem writer_commands_need_lease_witness:
  "\<exists>r. map_of (writer_leases (lease_check_db plain_actor_codec ready_env ''a'' (request ''k'' ThreadArchive) holder_world))
      ''t'' = Some r \<and> lr_device_id r = ''a''"
proof -
  have "w_sent (snd (handle_command plain_actor_codec ready_env ''a'' (request ''k'' ThreadArchive) holder_world)) \<noteq> w_sent holder_world"
    using holder_sends unfolding handle_command_sent holder_world_facts .
  moreover have "requires_writer (rq_command (request ''k'' ThreadArchive))" by (simp add: request_def)
  ultimately show ?thesis
    using writer_commands_need_lease [OF refl, of "request ''k'' ThreadArchive" plain_actor_codec ready_env "''a''" holder_run
        "''t''" 0 zero_metrics]
    by blast
qed

end
