(* ===== verification/Actor_Recovery.thy ===== *)
theory Actor_Recovery
  imports Thread_Actor
begin

text \<open>
  What a client or a restarted broker gets back: the replay after attaching is complete, and the
  timeline rebuilt from the event log is the one of all events that came in, over restarts and crashes
  (\<open>attach\<close>, \<open>hydrate_from_store\<close>, \<open>persist_snapshot\<close> and \<open>ingest_upstream_event\<close> of
  \<open>thread_actor.rs\<close> over the stores). At the end, three behaviours of the code that its comments and
  error messages do not announce.
\<close>

section \<open>Frames\<close>

lemma quiet_frame:
  assumes "db_reach no_op c db db'"
  shows "remote_events db' = remote_events db" "remote_snapshots db' = remote_snapshots db"
proof -
  have "remote_events db' = remote_events db \<and> remote_snapshots db' = remote_snapshots db"
  proof (rule db_reach_invar [OF assms])
    fix op and db1 :: broker_db
    assume "no_op op \<or> quiet op" "remote_events db1 = remote_events db \<and> remote_snapshots db1 = remote_snapshots db"
    then show "remote_events (store_step c op db1) = remote_events db \<and>
        remote_snapshots (store_step c op db1) = remote_snapshots db"
      by (cases op) (auto simp: other_table_defs ensure_thread_def ensure_thread_on_def ensure_epoch_def
          update_thread_projection_def Let_def split: option.splits)
  qed simp
  then show "remote_events db' = remote_events db" "remote_snapshots db' = remote_snapshots db" by auto
qed

lemma quiet_thread_events: "db_reach no_op c db db' \<Longrightarrow> thread_events t db' = thread_events t db"
  by (simp add: thread_events_def quiet_frame)

section \<open>The log belongs to the actor\<close>

abbreviation snapshot_keys :: "broker_db \<Rightarrow> (string \<times> int) set" where
  "snapshot_keys db \<equiv> fst ` set (remote_snapshots db)"

text \<open>Operations of other parts of the broker: they write no events and no snapshots of the actor's thread.\<close>

fun foreign_op :: "string \<Rightarrow> store_op \<Rightarrow> bool" where
  "foreign_op t (AppendEvent t' _ _ _ _ _ _ _ _) \<longleftrightarrow> t' \<noteq> t"
| "foreign_op t (SaveSnapshot sn _) \<longleftrightarrow> sn_thread_id sn \<noteq> t"
| "foreign_op t _ \<longleftrightarrow> True"

lemma append_other_thread: "t' \<noteq> t \<Longrightarrow> thread_events t (snd (append_event c t' e m p turn item occ u now db)) = thread_events t db"
  using append_event_row [OF refl, of c t' e m p turn item occ u now db] by (auto simp: thread_events_def)

lemma foreign_thread_events:
  assumes "foreign_op t op"
  shows "thread_events t (store_step c op db) = thread_events t db"
proof (cases "quiet op")
  case True
  then have "db_reach no_op c db (store_step c op db)" by (intro db_reach_step) auto
  then show ?thesis by (rule quiet_thread_events)
next
  case False
  with assms show ?thesis
    by (cases op) (auto simp: append_other_thread [unfolded thread_events_def] save_snapshot_def Let_def thread_events_def)
qed

lemma foreign_snapshot_keys: "foreign_op t op \<Longrightarrow> (t, m) \<in> snapshot_keys (store_step c op db) \<longleftrightarrow> (t, m) \<in> snapshot_keys db"
proof (cases "quiet op")
  case True
  then have "db_reach no_op c db (store_step c op db)" by (intro db_reach_step) auto
  then show ?thesis by (simp add: quiet_frame)
next
  case False
  assume "foreign_op t op"
  with False show ?thesis
    by (cases op) (auto simp: append_event_def ensure_thread_on_def ensure_epoch_def save_snapshot_def Let_def dom_update)
qed

text \<open>
  The steps of a broker in which only the actor writes the log and the snapshots of its thread, as in the
  code: others leave them alone, between messages and while a command is handled.
\<close>

fun own_log_op :: "string \<Rightarrow> broker_op \<Rightarrow> bool" where
  "own_log_op t (Actor env msg) \<longleftrightarrow> meanwhile (foreign_op t) env"
| "own_log_op t (Elsewhere op) \<longleftrightarrow> foreign_op t op"
| "own_log_op t (CrashBeforeCommand env device rq) \<longleftrightarrow> meanwhile (foreign_op t) env"
| "own_log_op t (CrashInCommand env device rq) \<longleftrightarrow> meanwhile (foreign_op t) env"
| "own_log_op t _ \<longleftrightarrow> True"

text \<open>The steps of the actor that write its log or a snapshot; every other step is quiet about them.\<close>

fun writes_thread :: "broker_op \<Rightarrow> bool" where
  "writes_thread (Actor env (UpstreamEvent epoch method payload)) \<longleftrightarrow> True"
| "writes_thread (Actor env (UpstreamServerRequest epoch rid method payload)) \<longleftrightarrow> True"
| "writes_thread (Actor env CreateSnapshot) \<longleftrightarrow> True"
| "writes_thread (CrashInEvent env epoch method payload) \<longleftrightarrow> True"
| "writes_thread _ \<longleftrightarrow> False"

lemma db_reach_quiet: "db_reach no_op c a b \<Longrightarrow> db_reach Q c a b"
  unfolding db_reach_def by (auto simp: list_all_iff)

lemma quiet_foreign: "quiet op \<Longrightarrow> foreign_op t op"
  by (cases op) simp_all

lemma foreign_frame:
  assumes "db_reach (foreign_op t) c db db'"
  shows "thread_events t db' = thread_events t db" "(t, m) \<in> snapshot_keys db' \<longleftrightarrow> (t, m) \<in> snapshot_keys db"
proof -
  have "thread_events t db' = thread_events t db \<and> (\<forall>m. (t, m) \<in> snapshot_keys db' \<longleftrightarrow> (t, m) \<in> snapshot_keys db)"
  proof (rule db_reach_invar [OF assms])
    fix op and db1 :: broker_db
    assume "foreign_op t op \<or> quiet op"
      and same: "thread_events t db1 = thread_events t db \<and> (\<forall>m. (t, m) \<in> snapshot_keys db1 \<longleftrightarrow> (t, m) \<in> snapshot_keys db)"
    then have op: "foreign_op t op" using quiet_foreign by blast
    show "thread_events t (store_step c op db1) = thread_events t db \<and>
        (\<forall>m. (t, m) \<in> snapshot_keys (store_step c op db1) \<longleftrightarrow> (t, m) \<in> snapshot_keys db)"
      unfolding foreign_thread_events [OF op] foreign_snapshot_keys [OF op] by (rule same)
  qed simp
  then show "thread_events t db' = thread_events t db" "(t, m) \<in> snapshot_keys db' \<longleftrightarrow> (t, m) \<in> snapshot_keys db" by auto
qed

lemma restart_db: "w_db (restart now w) = ensure_thread (a_thread_id (w_actor w)) None Idle now (w_db w)"
  by (simp add: restart_def)

lemma quiet_step_reach:
  assumes "own_log_op t op" "\<not> writes_thread op"
  shows "db_reach (foreign_op t) c (w_db w) (w_db (broker_step c op w))"
proof (cases op)
  case (Actor env msg)
  with assms show ?thesis
    by (cases msg) (auto intro!: reach_attach reach_handle_command reach_disconnected reach_recover reach_ops)
qed (use assms in \<open>auto simp: restart_db intro!: db_reach_step reach_prepare reach_run_command reach_ops\<close>)

lemma ensure_thread_events: "thread_events t (ensure_thread t' cwd st now db) = thread_events t db"
  using quiet_thread_events [of undefined db "store_step undefined (EnsureThread t' cwd st now) db"]
  by (simp add: db_reach_step [of _ _ _ _ "EnsureThread t' cwd st now", simplified])

lemma log_inv_reach: "db_reach q c db db' \<Longrightarrow> log_inv db \<Longrightarrow> log_inv db'"
  by (rule db_reach_invar) (auto intro: log_inv_step)

lemma events_persist_snapshot: "thread_events t (w_db (persist_snapshot c env w)) = thread_events t (w_db w)"
  by (auto simp: persist_snapshot_def Let_def case_prod_beta save_snapshot_def current_lease_def thread_events_def
      split: sum.splits)

section \<open>The timeline\<close>

definition timeline :: "('x) codec_scheme \<Rightarrow> string \<Rightarrow> broker_db \<Rightarrow> json list" where
  "timeline c t db =
     map (\<lambda>r. event_value c (into_protocol (stored_event_of_row c r)))
       (filter (\<lambda>r. ev_method r \<in> set TIMELINE_METHODS) (thread_events t db))"

lemma sorted_timeline:
  assumes "log_inv db"
  shows "sort_key event_cursor (filter P (thread_events t db)) = filter P (thread_events t db)"
proof (rule sort_key_id_if_sorted)
  have "sorted (map event_cursor (thread_events t db))"
    unfolding event_cursor_log [OF assms] by (simp add: sorted_map sorted_wrt_mono_rel [OF _ sorted_upt] del: upt_Suc)
  then show "sorted (map event_cursor (filter P (thread_events t db)))"
    by (simp add: sorted_map sorted_wrt_filter)
qed

lemma remember_timeline:
  "set (map se_method es) \<subseteq> set TIMELINE_METHODS \<Longrightarrow>
   a_recent_items (fold (\<lambda>e a. remember_event c (into_protocol e) (project_event (se_method e) (se_payload e) (se_turn_id e) a)) es a)
     = a_recent_items a @ map (\<lambda>e. event_value c (into_protocol e)) es"
proof (induction es arbitrary: a)
  case (Cons e es)
  have "a_recent_items (project_event m p t a) = a_recent_items a" for m p t a
    by (auto simp: project_event_def Let_def split: option.splits)
  with Cons show ?case by (auto simp: remember_event_def into_protocol_def TIMELINE_METHODS_def)
qed simp

lemma hydrate_items:
  assumes "log_inv db"
  shows "a_recent_items (hydrate_from_store c db a) = timeline c (a_thread_id a) db"
proof -
  let ?rows = "filter (\<lambda>r. ev_method r \<in> set TIMELINE_METHODS) (thread_events (a_thread_id a) db)"
  have es: "session_timeline_events c (a_thread_id a) db = map (stored_event_of_row c) ?rows"
    by (simp add: session_timeline_events_def sorted_timeline [OF assms])
  show ?thesis
    unfolding hydrate_from_store_def Let_def es
    by (subst remember_timeline) (auto simp: timeline_def stored_event_of_row_def)
qed

section \<open>Recording an event\<close>

text \<open>
  The event that is kept of what came in at position \<open>i\<close> of the log: it has the next number, the time
  cut to whole milliseconds, and the payload as it is read back.
\<close>

definition recorded_event :: "('x) codec_scheme \<Rightarrow> string \<Rightarrow> nat \<Rightarrow> instant \<times> u64 \<times> string \<times> json \<Rightarrow> thread_event" where
  "recorded_event c t i e =
     (case e of (now, epoch, method, payload) \<Rightarrow>
        \<lparr>te_seq = as_u64 (Suc i), te_thread_id = t, te_upstream_epoch = epoch, te_method = method,
         te_occurred_at = now - now mod 1000000, te_turn_id = extract_turn_id payload, te_item_id = extract_item_id payload,
         te_data = (case parse_json c (print_json c payload) of Some v \<Rightarrow> v | None \<Rightarrow> JNull)\<rparr>)"

lemma record_event_facts:
  assumes inv: "log_inv (w_db w)" and t: "t = a_thread_id (w_actor w)" and n: "n = length (thread_events t (w_db w))"
    and r: "record_upstream_event c env epoch m p w = (e, w1)"
  shows "\<exists>r. thread_events t (w_db w1) = thread_events t (w_db w) @ [r] \<and>
      into_protocol (stored_event_of_row c r) = recorded_event c t n (env_now env, epoch, m, p)"
    and "remote_snapshots (w_db w1) = remote_snapshots (w_db w)"
    and "te_seq e = as_u64 (Suc n)" and "a_thread_id (w_actor w1) = t"
proof -
  let ?turn = "extract_turn_id p"
  let ?a = "project_event m p ?turn (w_actor w)"
  let ?ap = "append_event c t epoch m p ?turn (extract_item_id p) (env_now env) (projection_of epoch ?a) (env_now env) (w_db w)"
  let ?db1 = "ensure_thread_on t None (pu_status (projection_of epoch ?a)) (env_now env) (ensure_epoch epoch None (env_now env) (w_db w))"
  have e: "e = into_protocol (fst ?ap)" and w1: "w_db w1 = snd ?ap" "w_actor w1 = remember_event c e ?a"
    using r t by (auto simp: record_upstream_event_def Let_def case_prod_beta)
  have inv1: "log_inv ?db1"
    by (rule log_inv_frame [OF inv]) (auto simp: last_seq_ensure_thread_on split: option.splits)
  have te: "thread_events t ?db1 = thread_events t (w_db w)" by (simp add: thread_events_def)
  have seq: "next_thread_seq t ?db1 = int (Suc n)"
    using next_thread_seq_log [OF inv1, of t] unfolding te n by simp
  obtain r where row: "remote_events (snd ?ap) = remote_events (w_db w) @ [r]"
    "ev_seq r = events_sequence ?db1 + 1" "ev_thread_id r = t" "ev_turn_id r = ?turn" "ev_item_id r = extract_item_id p"
    "ev_upstream_epoch r = as_i64 epoch" "ev_method r = m" "ev_occurred_at_ms r = timestamp_millis (env_now env)"
    "ev_payload_ciphertext r = print_json c p" "ev_thread_seq r = Some (int (Suc n))"
    using append_event_row [OF refl, of c t epoch m p ?turn "extract_item_id p" "env_now env" "projection_of epoch ?a" "env_now env" "w_db w"]
    unfolding seq by blast
  have f: "fst ?ap = \<lparr>se_seq = i64_as_u64 (events_sequence ?db1 + 1), se_thread_seq = as_u64 (Suc n), se_thread_id = t,
      se_turn_id = ?turn, se_item_id = extract_item_id p, se_upstream_epoch = epoch, se_method = m,
      se_occurred_at = env_now env, se_payload = p\<rparr>"
    by (simp add: append_event_def Let_def seq del: of_nat_Suc)
  show "te_seq e = as_u64 (Suc n)" by (simp add: e f into_protocol_def)
  show "a_thread_id (w_actor w1) = t" by (simp add: w1 t)
  show "remote_snapshots (w_db w1) = remote_snapshots (w_db w)"
    by (simp add: w1 append_event_def Let_def ensure_thread_on_def ensure_epoch_def)
  have "into_protocol (stored_event_of_row c r) = recorded_event c t n (env_now env, epoch, m, p)"
    by (simp add: into_protocol_def stored_event_of_row_def event_cursor_def row timestamp_millis_def recorded_event_def
        from_timestamp_millis_def i64_as_u64_def as_i64_def as_u64_def minus_mod_eq_div_mult del: of_nat_Suc)
  moreover have "thread_events t (w_db w1) = thread_events t (w_db w) @ [r]"
    by (simp add: w1 thread_events_def row)
  ultimately show "\<exists>r. thread_events t (w_db w1) = thread_events t (w_db w) @ [r] \<and>
      into_protocol (stored_event_of_row c r) = recorded_event c t n (env_now env, epoch, m, p)" by blast
qed

section \<open>A restart recovers the timeline\<close>

text \<open>What the steps of a run bring in from the upstream, in order.\<close>

fun ingested :: "broker_op \<Rightarrow> (instant \<times> u64 \<times> string \<times> json) list" where
  "ingested (Actor env (UpstreamEvent epoch method payload)) = [(env_now env, epoch, method, payload)]"
| "ingested (CrashInEvent env epoch method payload) = [(env_now env, epoch, method, payload)]"
| "ingested _ = []"

definition recorded_events ::
  "('x) codec_scheme \<Rightarrow> string \<Rightarrow> nat \<Rightarrow> (instant \<times> u64 \<times> string \<times> json) list \<Rightarrow> thread_event list"
where
  "recorded_events c t n es = map (\<lambda>(i, e). recorded_event c t i e) (enumerate n es)"

lemma recorded_events_append:
  "recorded_events c t n (xs @ ys) = recorded_events c t n xs @ recorded_events c t (n + length xs) ys"
  by (simp add: recorded_events_def enumerate_append_eq)

lemma recorded_events_simps [simp]:
  "recorded_events c t n [] = []" "recorded_events c t n [e] = [recorded_event c t n e]"
  "length (recorded_events c t n es) = length es"
  by (simp_all add: recorded_events_def)

text \<open>The log of a thread as its clients see it.\<close>

definition protocol_log :: "('x) codec_scheme \<Rightarrow> string \<Rightarrow> broker_db \<Rightarrow> thread_event list" where
  "protocol_log c t db = map (\<lambda>r. into_protocol (stored_event_of_row c r)) (thread_events t db)"

lemma quiet_step_events:
  assumes own: "own_log_op t op" and none: "ingested op = []"
  shows "thread_events t (w_db (broker_step c op w)) = thread_events t (w_db w)"
proof (cases "writes_thread op")
  case True
  from this none consider env where "op = Actor env CreateSnapshot" |
    env epoch rid m p where "op = Actor env (UpstreamServerRequest epoch rid m p)"
    by (cases op rule: writes_thread.cases) auto
  then show ?thesis
  proof cases
    case 2
    obtain w1 where w1: "db_reach no_op c (w_db w) (w_db w1)"
      "broker_step c op w = w1 \<or> broker_step c op w = persist_snapshot c env w1"
      using server_request_cases [of c w env epoch rid m p] by (auto simp: 2)
    then show ?thesis using quiet_thread_events [OF w1(1), of t] by (auto simp: events_persist_snapshot)
  qed (simp add: events_persist_snapshot)
next
  case False
  show ?thesis by (rule foreign_frame(1) [OF quiet_step_reach [OF own False]])
qed

lemma protocol_log_step:
  assumes inv: "log_inv (w_db w)" and own: "own_log_op t op" and t: "t = a_thread_id (w_actor w)"
  shows "protocol_log c t (w_db (broker_step c op w)) =
    protocol_log c t (w_db w) @ recorded_events c t (length (thread_events t (w_db w))) (ingested op)"
proof (cases "ingested op = []")
  case True
  with quiet_step_events [OF own True, of c w] show ?thesis by (simp add: protocol_log_def)
next
  case False
  then obtain env epoch m p where i: "ingested op = [(env_now env, epoch, m, p)]" and
    op: "op = Actor env (UpstreamEvent epoch m p) \<or> op = CrashInEvent env epoch m p"
    by (cases op rule: ingested.cases) auto
  obtain e w1 where r: "record_upstream_event c env epoch m p w = (e, w1)" by (cases "record_upstream_event c env epoch m p w")
  from record_event_facts(1) [OF inv t refl r] have "protocol_log c t (w_db w1) =
      protocol_log c t (w_db w) @ [recorded_event c t (length (thread_events t (w_db w))) (env_now env, epoch, m, p)]"
    by (auto simp: protocol_log_def)
  moreover have "thread_events t (w_db (broker_step c op w)) = thread_events t (w_db w1)"
    using op ensure_thread_events [of t] by (auto simp: ingest_upstream_event_def r events_persist_snapshot restart_db)
  ultimately show ?thesis by (simp add: protocol_log_def i)
qed

lemma protocol_log_run:
  assumes "log_inv (w_db w)" "list_all (own_log_op t) ops" "t = a_thread_id (w_actor w)"
  shows "protocol_log c t (w_db (fold (broker_step c) ops w)) =
    protocol_log c t (w_db w) @ recorded_events c t (length (thread_events t (w_db w))) (concat (map ingested ops))"
  using assms
proof (induction ops arbitrary: w)
  case (Cons op ops)
  let ?w = "broker_step c op w"
  have step: "protocol_log c t (w_db ?w) =
      protocol_log c t (w_db w) @ recorded_events c t (length (thread_events t (w_db w))) (ingested op)"
    using Cons.prems by (intro protocol_log_step) simp_all
  from arg_cong [OF this, of length]
  have len: "length (thread_events t (w_db ?w)) = length (thread_events t (w_db w)) + length (ingested op)"
    by (simp add: protocol_log_def)
  have "log_inv (w_db ?w)" by (rule log_inv_reach [OF reach_broker_step]) (use Cons.prems in simp)
  with Cons.IH [of ?w] Cons.prems
  have "protocol_log c t (w_db (fold (broker_step c) ops ?w)) =
      protocol_log c t (w_db ?w) @ recorded_events c t (length (thread_events t (w_db ?w))) (concat (map ingested ops))"
    by (simp add: thread_id_step)
  then show ?case by (simp add: recorded_events_append len step)
qed simp

lemma start_actor_log: "log_inv (w_db (start_actor thread now empty_db m))"
  "thread_events t (w_db (start_actor thread now empty_db m)) = []" "a_thread_id (w_actor (start_actor thread now empty_db m)) = thread"
  using log_inv_step [OF log_inv_empty, of _ "EnsureThread thread None Idle now"]
  by (simp_all add: start_actor_def new_actor_def thread_events_def ensure_thread_def empty_db_def)

text \<open>
  No event of a session is lost by restarts and crashes. After any run, whatever came in from the
  upstream is in the log of the thread, in order, numbered from one, with its time cut to whole
  milliseconds and its payload as the parser reads it back; and an actor that knows only the name of its
  thread and the database rebuilds its timeline as exactly the events of turns and items among these.
\<close>

theorem restart_recovers_timeline:
  assumes "list_all (own_log_op thread) ops"
    and "w = fold (broker_step c) ops (start_actor thread now empty_db m)"
    and "es = recorded_events c thread 0 (concat (map ingested ops))"
  shows "protocol_log c thread (w_db w) = es \<and>
    a_recent_items (hydrate_from_store c (w_db w) (new_actor thread)) =
      map (event_value c)
        (filter (\<lambda>e. te_method e \<in> {''turn/started'', ''turn/completed'', ''item/started'', ''item/completed''}) es)"
proof -
  note start = start_actor_log [where thread = thread and now = now and m = m]
  have log: "protocol_log c thread (w_db w) = es"
    using protocol_log_run [OF start(1) assms(1) start(3) [symmetric], of c] start(2) [of thread]
    by (simp add: assms(2,3) protocol_log_def)
  have "log_inv (w_db (fold (broker_step c) ops v))" if "log_inv (w_db v)" for v
    using that by (induction ops arbitrary: v) (auto intro: log_inv_reach [OF reach_broker_step])
  with start(1) have "log_inv (w_db w)" by (simp add: assms(2))
  from hydrate_items [OF this, of c "new_actor thread"]
  have "a_recent_items (hydrate_from_store c (w_db w) (new_actor thread)) = timeline c thread (w_db w)"
    by (simp add: new_actor_def)
  also have "\<dots> = map (event_value c) (filter (\<lambda>e. te_method e \<in> set TIMELINE_METHODS) (protocol_log c thread (w_db w)))"
    by (simp add: timeline_def protocol_log_def filter_map comp_def into_protocol_def stored_event_of_row_def)
  finally show ?thesis using log by (simp add: TIMELINE_METHODS_def insert_commute)
qed

definition null_event :: "string \<Rightarrow> broker_op" where
  "null_event m = Actor ready_env (UpstreamEvent 1 m JNull)"

theorem restart_recovers_timeline_witness:
  "let w = fold (broker_step plain_actor_codec)
         [null_event ''turn/started'', Restart 5, CrashInEvent ready_env 1 ''item/delta'' JNull, null_event ''turn/completed'']
       (start_actor ''t'' 0 empty_db zero_metrics)
   in length (protocol_log plain_actor_codec ''t'' (w_db w)) = 3 \<and>
      length (a_recent_items (hydrate_from_store plain_actor_codec (w_db w) (new_actor ''t''))) = 2"
  using restart_recovers_timeline [OF _ refl refl, of "''t''"
      "[null_event ''turn/started'', Restart 5, CrashInEvent ready_env 1 ''item/delta'' JNull, null_event ''turn/completed'']"
      plain_actor_codec 0 zero_metrics]
  by (simp add: Let_def null_event_def meanwhile_def ready_env_def recorded_events_def recorded_event_def)

section \<open>Attaching loses no event\<close>

lemma newest_snapshot_char:
  "case newest_snapshot rows t of
     None \<Rightarrow> \<forall>n. (t, n) \<notin> fst ` set rows
   | Some (m, r) \<Rightarrow> ((t, m), r) \<in> set rows \<and> (\<forall>n. (t, n) \<in> fst ` set rows \<longrightarrow> n \<le> m)"
proof (induction rows t rule: newest_snapshot.induct)
  case (2 t' n r rows t)
  show ?case
  proof (cases "t' = t")
    case True
    with 2(2) show ?thesis by (cases "newest_snapshot rows t") (force split: prod.splits)+
  next
    case False
    with 2(1) show ?thesis by (cases "newest_snapshot rows t") (force split: prod.splits)+
  qed
qed simp

text \<open>Every stored snapshot can be read back with its number.\<close>

definition snapshots_ok :: "('x) codec_scheme \<Rightarrow> broker_db \<Rightarrow> bool" where
  "snapshots_ok c db \<longleftrightarrow> (\<forall>t m r. ((t, m), r) \<in> set (remote_snapshots db) \<longrightarrow>
     (\<exists>sn. parse_snapshot c (sr_payload_ciphertext r) = Some sn \<and> as_i64 (sn_snapshot_seq sn) = m))"

definition snapshot_reads :: "('x) codec_scheme \<Rightarrow> bool" where
  "snapshot_reads c \<longleftrightarrow> (\<forall>sn. \<exists>sn'. parse_snapshot c (print_snapshot c sn) = Some sn' \<and>
     sn_snapshot_seq sn' = sn_snapshot_seq sn)"

lemma set_update_subset: "set (AList.update k v al) \<subseteq> insert (k, v) (set al)"
  by (induction al) auto

lemma snapshots_ok_step:
  assumes reads: "snapshot_reads c" and ok: "snapshots_ok c db"
  shows "snapshots_ok c (store_step c op db)"
proof (cases "\<exists>sn now. op = SaveSnapshot sn now")
  case True
  then obtain sn now where op: "op = SaveSnapshot sn now" by auto
  obtain sn' where sn': "parse_snapshot c (print_snapshot c sn) = Some sn'" "sn_snapshot_seq sn' = sn_snapshot_seq sn"
    using reads by (auto simp: snapshot_reads_def)
  show ?thesis
    using ok sn' set_update_subset [of "(sn_thread_id sn, as_i64 (sn_snapshot_seq sn))" _ "remote_snapshots db"]
    by (fastforce simp: op snapshots_ok_def save_snapshot_def Let_def)
next
  case False
  then have "remote_snapshots (store_step c op db) = remote_snapshots db"
    by (cases op) (auto simp: other_table_defs ensure_thread_def ensure_thread_on_def ensure_epoch_def
        update_thread_projection_def append_event_def Let_def split: option.splits)
  with ok show ?thesis by (simp add: snapshots_ok_def)
qed

lemma persist_snapshot_keys:
  assumes inv: "log_inv (w_db w)" and t: "t = a_thread_id (w_actor w)"
    and n: "n = length (thread_events t (w_db w))" "n < 2 ^ 63"
  shows "snapshot_keys (w_db (persist_snapshot c env w)) =
    (if map_of (remote_threads (w_db w)) t = None then snapshot_keys (w_db w) else insert (t, int n) (snapshot_keys (w_db w)))"
proof -
  have "as_i64 (latest_seq t (w_db w)) = int n"
    using latest_seq_log [OF inv, of t] n by (simp add: as_i64_as_u64)
  then show ?thesis
    by (simp add: persist_snapshot_def Let_def case_prod_beta save_snapshot_def current_lease_def current_snapshot_def
        build_fallback_snapshot_def t [symmetric] dom_update split: sum.splits)
qed

text \<open>
  Snapshots keep up with the log: none is ahead of it, and the newest is at most 249 events behind the
  last multiple of 250, or 250 more for each of \<open>k\<close> snapshots that were missed.
\<close>

definition snapshots_current :: "nat \<Rightarrow> string \<Rightarrow> broker_db \<Rightarrow> bool" where
  "snapshots_current k t db \<longleftrightarrow> (let n = length (thread_events t db) in n < 2 ^ 63 \<longrightarrow>
     (\<forall>m. (t, m) \<in> snapshot_keys db \<longrightarrow> 0 \<le> m \<and> m \<le> int n) \<and>
     (k < n div 250 \<longrightarrow> (\<exists>m. (t, m) \<in> snapshot_keys db \<and> int (250 * (n div 250 - k)) \<le> m)))"

lemma snapshots_current_frame:
  assumes "snapshots_current k t db" "thread_events t db' = thread_events t db"
    and "\<And>m. (t, m) \<in> snapshot_keys db' \<longleftrightarrow> (t, m) \<in> snapshot_keys db"
  shows "snapshots_current k t db'"
  using assms by (simp add: snapshots_current_def)

lemma snapshots_current_foreign:
  "snapshots_current k t db \<Longrightarrow> db_reach (foreign_op t) c db db' \<Longrightarrow> snapshots_current k t db'"
  by (rule snapshots_current_frame) (simp_all add: foreign_frame)

text \<open>A snapshot of the whole log is current, and one that is saved keeps the others current.\<close>

lemma snapshots_current_insert:
  assumes cur: "snapshots_current k t db" and ev: "thread_events t db' = thread_events t db"
    and keys: "length (thread_events t db) < 2 ^ 63 \<Longrightarrow>
      snapshot_keys db' = snapshot_keys db \<or> snapshot_keys db' = insert (t, int (length (thread_events t db))) (snapshot_keys db)"
  shows "snapshots_current k t db'"
proof -
  let ?n = "length (thread_events t db)"
  have le: "250 * (?n div 250 - k) \<le> ?n" by (metis diff_le_self le_trans mult_le_mono2 times_div_less_eq_dividend)
  show ?thesis unfolding snapshots_current_def Let_def ev
  proof (intro impI)
    assume b: "?n < 2 ^ 63"
    from keys [OF b] show "(\<forall>m. (t, m) \<in> snapshot_keys db' \<longrightarrow> 0 \<le> m \<and> m \<le> int ?n) \<and>
      (k < ?n div 250 \<longrightarrow> (\<exists>m. (t, m) \<in> snapshot_keys db' \<and> int (250 * (?n div 250 - k)) \<le> m))"
    proof
      assume same: "snapshot_keys db' = snapshot_keys db"
      show ?thesis unfolding same using cur b by (simp add: snapshots_current_def Let_def)
    next
      assume more: "snapshot_keys db' = insert (t, int ?n) (snapshot_keys db)"
      show ?thesis unfolding more using cur b le by (auto simp: snapshots_current_def Let_def)
    qed
  qed
qed

lemma snapshots_current_persist:
  assumes inv: "log_inv (w_db w)" and t: "t = a_thread_id (w_actor w)" and cur: "snapshots_current k t (w_db w)"
  shows "snapshots_current k t (w_db (persist_snapshot c env w))"
  using cur
  by (rule snapshots_current_insert)
    (use persist_snapshot_keys [OF inv t refl, of c env] in \<open>auto simp: events_persist_snapshot split: if_splits\<close>)

text \<open>One more event: the snapshots stay current unless a multiple of 250 is reached; then one more is missed.\<close>

lemma snapshots_current_append:
  assumes cur: "snapshots_current k t db" and ev: "length (thread_events t db') = Suc (length (thread_events t db))"
    and keys: "snapshot_keys db' = snapshot_keys db"
  shows "snapshots_current (k + of_bool (Suc (length (thread_events t db)) mod 250 = 0)) t db'"
proof -
  let ?n = "length (thread_events t db)" and ?l = "of_bool (Suc (length (thread_events t db)) mod 250 = 0) :: nat"
  have div: "Suc ?n div 250 = ?n div 250 + ?l" by (simp add: div_Suc)
  then have diff: "Suc ?n div 250 - (k + ?l) = ?n div 250 - k" "k + ?l < Suc ?n div 250 \<longleftrightarrow> k < ?n div 250" by simp_all
  have bounds: "0 \<le> m \<and> m \<le> int (Suc ?n)" if "Suc ?n < 2 ^ 63" "(t, m) \<in> snapshot_keys db" for m
    using cur that by (force simp: snapshots_current_def Let_def)
  have floor: "\<exists>m. (t, m) \<in> snapshot_keys db \<and> int (250 * (?n div 250 - k)) \<le> m" if "Suc ?n < 2 ^ 63" "k < ?n div 250"
    using cur that by (simp add: snapshots_current_def Let_def)
  show ?thesis
    unfolding snapshots_current_def Let_def ev keys diff using bounds floor by blast
qed

lemma record_event_snapshots:
  assumes inv: "log_inv (w_db w)" and t: "t = a_thread_id (w_actor w)" and cur: "snapshots_current k t (w_db w)"
    and r: "record_upstream_event c env epoch m p w = (e, w1)"
  shows "length (thread_events t (w_db w1)) = Suc (length (thread_events t (w_db w)))"
    "snapshots_current (k + of_bool (Suc (length (thread_events t (w_db w))) mod 250 = 0)) t (w_db w1)"
proof -
  note f = record_event_facts [OF inv t refl r]
  show n: "length (thread_events t (w_db w1)) = Suc (length (thread_events t (w_db w)))" using f(1) by auto
  show "snapshots_current (k + of_bool (Suc (length (thread_events t (w_db w))) mod 250 = 0)) t (w_db w1)"
    by (rule snapshots_current_append [OF cur n]) (simp add: f(2))
qed

text \<open>A snapshot after the last event makes up for all that were missed.\<close>

lemma snapshots_current_fresh:
  assumes inv: "log_inv (w_db w)" and t: "t = a_thread_id (w_actor w)" and cur: "snapshots_current k t (w_db w)"
    and some: "thread_events t (w_db w) \<noteq> []"
  shows "snapshots_current j t (w_db (persist_snapshot c env w))"
proof -
  let ?n = "length (thread_events t (w_db w))"
  have row: "map_of (remote_threads (w_db w)) t \<noteq> None"
    using log_invD(2) [OF inv, of t] some by (cases "map_of (remote_threads (w_db w)) t") (auto simp: last_seq_def)
  have le: "250 * (?n div 250 - j) \<le> ?n" by (metis diff_le_self le_trans mult_le_mono2 times_div_less_eq_dividend)
  show ?thesis
    unfolding snapshots_current_def Let_def events_persist_snapshot
  proof (intro impI)
    assume b: "?n < 2 ^ 63"
    have "snapshot_keys (w_db (persist_snapshot c env w)) = insert (t, int ?n) (snapshot_keys (w_db w))"
      using persist_snapshot_keys [OF inv t refl b, of c env] row by simp
    then show "(\<forall>m. (t, m) \<in> snapshot_keys (w_db (persist_snapshot c env w)) \<longrightarrow> 0 \<le> m \<and> m \<le> int ?n) \<and>
      (j < ?n div 250 \<longrightarrow> (\<exists>m. (t, m) \<in> snapshot_keys (w_db (persist_snapshot c env w)) \<and> int (250 * (?n div 250 - j)) \<le> m))"
      using cur b le by (auto simp: snapshots_current_def Let_def)
  qed
qed

lemma snapshots_current_ingest:
  assumes inv: "log_inv (w_db w)" and t: "t = a_thread_id (w_actor w)" and cur: "snapshots_current k t (w_db w)"
  shows "snapshots_current k t (w_db (ingest_upstream_event c env epoch m p w))"
proof -
  obtain e w1 where r: "record_upstream_event c env epoch m p w = (e, w1)" by (cases "record_upstream_event c env epoch m p w")
  let ?n = "length (thread_events t (w_db w))"
  note f = record_event_facts [OF inv t refl r] and g = record_event_snapshots [OF inv t cur r]
  have inv1: "log_inv (w_db w1)"
    using log_inv_reach [OF reach_record [OF db_reach_refl] inv, of c env epoch m p] r by simp
  have t1: "t = a_thread_id (w_actor w1)" using f(4) by simp
  show ?thesis
  proof (cases "ingest_upstream_event c env epoch m p w = persist_snapshot c env w1")
    case True
    have "thread_events t (w_db w1) \<noteq> []" using g(1) by auto
    with True snapshots_current_fresh [OF inv1 t1 g(2)] show ?thesis by simp
  next
    case False
    then have same: "ingest_upstream_event c env epoch m p w = w1" and "te_seq e mod 250 \<noteq> 0"
      by (auto simp: ingest_upstream_event_def r split: if_splits)
    show ?thesis
    proof (cases "Suc ?n < 2 ^ 63")
      case True
      then have "unat (te_seq e) = Suc ?n"
        unfolding f(3) as_u64_def by (simp only: unat_of_nat) (simp add: take_bit_nat_eq_self)
      then have "unat (te_seq e mod 250) = Suc ?n mod 250" by (simp add: unat_mod)
      with \<open>te_seq e mod 250 \<noteq> 0\<close> have "Suc ?n mod 250 \<noteq> 0" by (metis unat_0 unat_eq_zero)
      with g(2) same show ?thesis by simp
    qed (use g(1) same in \<open>simp add: snapshots_current_def\<close>)
  qed
qed

text \<open>A crash that comes between an event whose number is a multiple of 250 and its snapshot.\<close>

definition misses_snapshot :: "string \<Rightarrow> broker_op \<Rightarrow> world \<Rightarrow> bool" where
  "misses_snapshot t op w \<longleftrightarrow>
     (\<exists>env epoch method payload. op = CrashInEvent env epoch method payload) \<and> Suc (length (thread_events t (w_db w))) mod 250 = 0"

lemma snapshots_current_step:
  assumes inv: "log_inv (w_db w)" and t: "t = a_thread_id (w_actor w)" and cur: "snapshots_current k t (w_db w)"
    and op: "own_log_op t op"
  shows "snapshots_current (k + of_bool (misses_snapshot t op w)) t (w_db (broker_step c op w))"
proof (cases "writes_thread op")
  case False
  then have "\<not> misses_snapshot t op w" by (auto simp: misses_snapshot_def)
  with snapshots_current_foreign [OF cur quiet_step_reach [OF op False]] show ?thesis by simp
next
  case True
  then consider env epoch m p where "op = Actor env (UpstreamEvent epoch m p)" |
    env epoch rid m p where "op = Actor env (UpstreamServerRequest epoch rid m p)" |
    env where "op = Actor env CreateSnapshot" | env epoch m p where "op = CrashInEvent env epoch m p"
    by (cases op rule: writes_thread.cases) auto
  then show ?thesis
  proof cases
    case 1
    with snapshots_current_ingest [OF inv t cur] show ?thesis by (simp add: misses_snapshot_def)
  next
    case 2
    obtain w1 where w1: "db_reach no_op c (w_db w) (w_db w1)" "core (w_actor w1) = core (w_actor w)"
      "broker_step c op w = w1 \<or> broker_step c op w = persist_snapshot c env w1"
      using server_request_cases [of c w env epoch rid m p] by (auto simp: 2)
    have "snapshots_current k t (w_db w1)" by (rule snapshots_current_foreign [OF cur db_reach_quiet [OF w1(1)]])
    moreover have "t = a_thread_id (w_actor w1)" using coreD [OF w1(2)] t by simp
    ultimately show ?thesis
      using w1(3) snapshots_current_persist [OF log_inv_reach [OF w1(1) inv]] 2 by (auto simp: misses_snapshot_def)
  next
    case 3
    with snapshots_current_persist [OF inv t cur] show ?thesis by (simp add: misses_snapshot_def)
  next
    case 4
    obtain e w1 where r: "record_upstream_event c env epoch m p w = (e, w1)" by (cases "record_upstream_event c env epoch m p w")
    have "db_reach (foreign_op t) c (w_db w1) (w_db (broker_step c op w))"
      by (simp add: 4 r restart_db reach_ops)
    from snapshots_current_foreign [OF record_event_snapshots(2) [OF inv t cur r] this] show ?thesis
      by (simp add: misses_snapshot_def 4)
  qed
qed

lemma attach_facts:
  assumes inv: "log_inv (w_db w)" and ok: "snapshots_ok c (w_db w)" and t: "t = a_thread_id (w_actor w)"
    and cur: "snapshots_current k t (w_db w)" and n: "n = length (thread_events t (w_db w))" "n < 2 ^ 63"
    and sn: "sn = at_snapshot (fst (attach c env ack w))"
  shows "unat (sn_snapshot_seq sn) \<le> n \<and> n < unat (sn_snapshot_seq sn) + 250 * Suc k"
proof -
  have latest: "latest_seq t (w_db w) = as_u64 n" "unat (as_u64 n) = n"
    using latest_seq_log [OF inv, of t] n by (simp_all add: as_u64_def unat_of_nat take_bit_nat_eq_self)
  have snaps: "remote_snapshots (snd (current_lease t (env_now env) (w_db w))) = remote_snapshots (w_db w)"
    by (simp add: current_lease_def Let_def)
  have old: "unat (sn_snapshot_seq old) \<le> n \<and> n < unat (sn_snapshot_seq old) + 250 * Suc k"
    if "latest_snapshot c t (snd (current_lease t (env_now env) (w_db w))) = Inr (Some old)" for old
  proof -
    from that obtain m r where m: "newest_snapshot (remote_snapshots (w_db w)) t = Some (m, r)"
        "parse_snapshot c (sr_payload_ciphertext r) = Some old"
      by (auto simp: latest_snapshot_def snaps split: option.splits)
    with newest_snapshot_char [where rows = "remote_snapshots (w_db w)" and t = t]
    have mem: "((t, m), r) \<in> set (remote_snapshots (w_db w))"
      and max: "\<And>k. (t, k) \<in> snapshot_keys (w_db w) \<Longrightarrow> k \<le> m" by auto
    then have m_eq: "as_i64 (sn_snapshot_seq old) = m" using ok m(2) by (fastforce simp: snapshots_ok_def)
    have "(t, m) \<in> snapshot_keys (w_db w)" using mem by force
    then have bounds: "0 \<le> m" "m \<le> int n" using cur n by (auto simp: snapshots_current_def Let_def)
    have floor: "int (250 * (n div 250 - k)) \<le> m"
    proof (cases "k < n div 250")
      case True
      with cur n obtain l where "(t, l) \<in> snapshot_keys (w_db w)" "int (250 * (n div 250 - k)) \<le> l"
        by (auto simp: snapshots_current_def Let_def)
      with max show ?thesis by fastforce
    qed (use bounds in simp)
    have "sn_snapshot_seq old = word_of_int m" using m_eq by (simp add: as_i64_def flip: m_eq)
    then have "unat (sn_snapshot_seq old) = nat m"
      using bounds n(2) by (simp add: unsigned_of_int nat_take_bit_eq take_bit_nat_eq_self)
    moreover have "n < 250 * (n div 250) + 250" by (simp add: mult.commute [of 250])
    moreover have "250 * (n div 250) \<le> 250 * (n div 250 - k) + 250 * k"
      using mult_le_mono2 [of "n div 250" "(n div 250 - k) + k" 250] unfolding add_mult_distrib2 by simp
    ultimately show ?thesis using bounds floor by auto
  qed
  have "sn_snapshot_seq sn = as_u64 n \<or>
      (\<exists>old. latest_snapshot c t (snd (current_lease t (env_now env) (w_db w))) = Inr (Some old) \<and>
         sn_snapshot_seq sn = sn_snapshot_seq old)"
    unfolding sn attach_def Let_def case_prod_beta
    by (auto simp: t [symmetric] latest current_snapshot_def build_fallback_snapshot_def split: sum.splits option.splits)
  then show ?thesis using old latest(2) by auto
qed

lemma attach_replay:
  assumes inv: "log_inv (w_db w)" and t: "t = a_thread_id (w_actor w)" and res: "res = fst (attach c env ack w)"
    and from_def: "from = max (unat (sn_snapshot_seq (at_snapshot res))) (unat ack)" and b: "from < 2 ^ 63"
  shows "at_replay res = map (\<lambda>r. into_protocol (stored_event_of_row c r)) (take 10000 (drop from (thread_events t (w_db w))))"
proof -
  let ?db1 = "snd (current_lease t (env_now env) (w_db w))"
  have ev: "thread_events t ?db1 = thread_events t (w_db w)" by (simp add: current_lease_def Let_def thread_events_def)
  have inv1: "log_inv ?db1" using inv by (auto simp: current_lease_def Let_def intro: log_inv_unrelated)
  have r: "at_replay res = map into_protocol (events_after c t
      (if ack < sn_snapshot_seq (at_snapshot res) then sn_snapshot_seq (at_snapshot res) else ack) 10000 ?db1)"
    unfolding res attach_def Let_def case_prod_beta by (simp add: t split del: if_split) (simp add: t)
  have "from = unat (if ack < sn_snapshot_seq (at_snapshot res) then sn_snapshot_seq (at_snapshot res) else ack)"
    unfolding from_def by (simp add: word_less_nat_alt max_def)
  then have "as_u64 from = (if ack < sn_snapshot_seq (at_snapshot res) then sn_snapshot_seq (at_snapshot res) else ack)"
    by (simp add: as_u64_def)
  with events_after_log [OF inv1 as_i64_as_u64 [OF b], of c t 10000] r ev show ?thesis by simp
qed

lemma replay_invariants:
  assumes "snapshot_reads c" "list_all (own_log_op t) ops" "log_inv (w_db w)" "snapshots_ok c (w_db w)"
    "snapshots_current k t (w_db w)" "t = a_thread_id (w_actor w)"
  shows "let v = fold (broker_step c) ops w in log_inv (w_db v) \<and> snapshots_ok c (w_db v) \<and> a_thread_id (w_actor v) = t \<and>
    snapshots_current (k + count_events (misses_snapshot t) (broker_step c) ops w) t (w_db v)"
  using assms(2-)
proof (induction ops arbitrary: w k)
  case (Cons op ops)
  let ?v = "broker_step c op w"
  have "log_inv (w_db ?v)" by (rule log_inv_reach [OF reach_broker_step]) (use Cons.prems in simp)
  moreover have "snapshots_ok c (w_db ?v)"
    by (rule db_reach_invar [OF reach_broker_step]) (use Cons.prems assms(1) in \<open>auto intro!: snapshots_ok_step\<close>)
  moreover have "snapshots_current (k + of_bool (misses_snapshot t op w)) t (w_db ?v)"
    using Cons.prems by (intro snapshots_current_step) auto
  moreover have "t = a_thread_id (w_actor ?v)" using Cons.prems by (simp add: thread_id_step)
  ultimately show ?case using Cons.IH [of ?v "k + of_bool (misses_snapshot t op w)"] Cons.prems
    by (simp add: add.assoc)
qed simp

text \<open>
  C13: A client that attaches loses no event: whatever the actor and the rest of the broker did before,
  restarts and crashes included, the snapshot it gets is not ahead of the log, and the replay holds
  exactly the events after the snapshot or after what the client already had, whichever is later, up
  to the limit of 10000. The snapshot is at most 249 events old, and 250 more for every crash that came
  right between an event with a number divisible by 250 and its snapshot; with fewer than 40 such crashes
  the limit never cuts the replay. Snapshots need only be read back with their number.
\<close>

theorem attach_replay_complete:
  assumes "\<forall>sn. \<exists>sn'. parse_snapshot c (print_snapshot c sn) = Some sn' \<and> sn_snapshot_seq sn' = sn_snapshot_seq sn"
    and "list_all (own_log_op thread) ops"
    and "w = fold (broker_step c) ops (start_actor thread now empty_db m)"
    and "missed = count_events (misses_snapshot thread) (broker_step c) ops (start_actor thread now empty_db m)"
    and "log = thread_events thread (w_db w)" and "length log < 2 ^ 63" and "unat ack < 2 ^ 63"
    and "res = fst (attach c env ack w)"
  shows "let seq = unat (sn_snapshot_seq (at_snapshot res));
             unseen = map (\<lambda>r. into_protocol (stored_event_of_row c r)) (drop (max seq (unat ack)) log) in
    seq \<le> length log \<and> length log < seq + 250 * Suc missed \<and>
    at_replay res = take 10000 unseen \<and> (missed < 40 \<longrightarrow> at_replay res = unseen)"
proof -
  let ?start = "start_actor thread now empty_db m"
  have "snapshots_ok c (w_db ?start)" "snapshots_current 0 thread (w_db ?start)"
    by (simp_all add: start_actor_def new_actor_def ensure_thread_def ensure_thread_on_def empty_db_def snapshots_ok_def
        snapshots_current_def thread_events_def Let_def)
  from replay_invariants [OF _ assms(2) start_actor_log(1) this start_actor_log(3) [symmetric]] assms(1)
  have w: "log_inv (w_db w)" "snapshots_ok c (w_db w)" "thread = a_thread_id (w_actor w)" "snapshots_current missed thread (w_db w)"
    by (auto simp: assms(3,4) snapshot_reads_def Let_def)
  let ?seq = "unat (sn_snapshot_seq (at_snapshot res))"
  have seq: "?seq \<le> length log \<and> length log < ?seq + 250 * Suc missed"
    using attach_facts [OF w, of "length log" "at_snapshot res" env ack] assms(5-8) by simp
  then have "max ?seq (unat ack) < 2 ^ 63" using assms(6,7) by simp
  from attach_replay [OF w(1,3) assms(8) refl this]
  have "at_replay res = map (\<lambda>r. into_protocol (stored_event_of_row c r)) (take 10000 (drop (max ?seq (unat ack)) log))"
    using assms(5) by simp
  moreover have "length (drop (max ?seq (unat ack)) log) \<le> 10000" if "missed < 40"
  proof -
    have "250 * Suc missed \<le> 10000" using that by simp
    with seq show ?thesis by (auto simp: max_def)
  qed
  ultimately show ?thesis using seq by (simp add: Let_def take_map del: mult_Suc_right)
qed

text \<open>A codec that keeps the number of a snapshot as the length of its text.\<close>

definition numbering_codec :: actor_codec where
  "numbering_codec = plain_actor_codec\<lparr>
     print_snapshot := (\<lambda>sn. replicate (unat (sn_snapshot_seq sn)) CHR ''x''),
     parse_snapshot := (\<lambda>s. Some (build_fallback_snapshot [] (as_u64 (length s)) Idle False [] None))\<rparr>"

theorem attach_replay_complete_witness:
  "let ops = [null_event ''turn/started'', CrashInEvent ready_env 1 ''item/started'' JNull];
       w = fold (broker_step numbering_codec) ops (start_actor ''t'' 0 empty_db zero_metrics);
       res = fst (attach numbering_codec ready_env 0 w);
       seq = unat (sn_snapshot_seq (at_snapshot res))
   in length (thread_events ''t'' (w_db w)) = 2 \<and>
      at_replay res = map (\<lambda>r. into_protocol (stored_event_of_row numbering_codec r)) (drop seq (thread_events ''t'' (w_db w)))"
proof -
  let ?start = "start_actor ''t'' 0 empty_db zero_metrics"
  let ?ops = "[null_event ''turn/started'', CrashInEvent ready_env 1 ''item/started'' JNull]"
  let ?w = "fold (broker_step numbering_codec) ?ops ?start"
  have own: "list_all (own_log_op ''t'') ?ops" by (simp add: null_event_def meanwhile_def ready_env_def)
  note start = start_actor_log [where thread = "''t''" and now = 0 and m = zero_metrics]
  from arg_cong [OF protocol_log_run [OF start(1) own start(3) [symmetric], of numbering_codec], of length]
  have len: "length (thread_events ''t'' (w_db ?w)) = 2"
    by (simp add: protocol_log_def start(2) null_event_def)
  have missed: "count_events (misses_snapshot ''t'') (broker_step numbering_codec) ?ops ?start \<le> 2"
    by (simp add: of_bool_def)
  have "\<forall>sn. \<exists>sn'. parse_snapshot numbering_codec (print_snapshot numbering_codec sn) = Some sn' \<and>
      sn_snapshot_seq sn' = sn_snapshot_seq sn"
    by (simp add: numbering_codec_def build_fallback_snapshot_def as_u64_def)
  from attach_replay_complete [OF this own refl refl refl _ _ refl, of 0 zero_metrics 0 ready_env] len missed
  show ?thesis by (simp add: Let_def del: fold_simps)
qed

section \<open>Unannounced behaviours\<close>

text \<open>
  An approval that was accepted can be declined afterwards under another idempotency key: nothing looks
  at its state, and the upstream request is answered a second time.
\<close>

lemma find_map_same_token:
  assumes "\<And>r. P r \<Longrightarrow> P (f r)"
  shows "List.find P (map (\<lambda>r. if P r then f r else r) rows) = map_option f (List.find P rows)"
  using assms by (induction rows) auto

lemma get_approval_resolved:
  assumes "get_approval c token db = Some s"
  shows "\<exists>s'. get_approval c token (resolve_approval c token d v now db) = Some s' \<and>
    sa_upstream_epoch s' = sa_upstream_epoch s \<and> sa_upstream_request_id s' = sa_upstream_request_id s \<and>
    pa_state (sa_approval s') = parse_approval_state (decision_state d)"
proof -
  let ?P = "\<lambda>r. ar_local_token r = token"
  let ?f = "\<lambda>r. r\<lparr>ar_state := decision_state d, ar_response_ciphertext := Some (print_json c v),
    ar_resolved_at_ms := Some (timestamp_millis now)\<rparr>"
  obtain r where r: "List.find ?P (pending_server_requests db) = Some r"
    and s: "s = \<lparr>sa_approval = pending_of_row c r, sa_upstream_epoch = i64_as_u64 (ar_upstream_epoch r),
                sa_upstream_request_id = request_id_of_row c r\<rparr>"
    using assms by (auto simp only: get_approval_def map_option_eq_Some)
  have "List.find ?P (pending_server_requests (resolve_approval c token d v now db)) = Some (?f r)"
    by (simp add: resolve_approval_def find_map_same_token [of ?P ?f] r)
  then show ?thesis
    by (simp add: get_approval_def s request_id_of_row_def pending_of_row_def split: option.split)
qed

lemma approval_answered_twice:
  assumes "get_approval c token (w_db w) = Some s" "sa_upstream_epoch s = env_epoch env"
    and "\<And>rid v. env_respond env rid v = None"
    and "w1 = snd (respond_approval c env k token Accept w)"
  shows "pa_state (sa_approval (the (get_approval c token (w_db w1)))) = ApAccepted \<and>
    w_sent (snd (respond_approval c env k' token Decline w1)) = w_sent w @
      [Respond (sa_upstream_request_id s) (JObject [(''decision'', JString ''accept'')]),
       Respond (sa_upstream_request_id s) (JObject [(''decision'', JString ''decline'')])]"
proof -
  let ?v = "JObject [(''decision'', JString ''accept'')]"
  have w1: "w_db w1 = resolve_approval c token Accept ?v (env_now env) (w_db w)"
      "w_sent w1 = w_sent w @ [Respond (sa_upstream_request_id s) ?v]"
    using assms by (simp_all add: respond_approval_def upstream_respond_def Let_def)
  obtain s' where "get_approval c token (w_db w1) = Some s'" "sa_upstream_epoch s' = sa_upstream_epoch s"
      "sa_upstream_request_id s' = sa_upstream_request_id s" "pa_state (sa_approval s') = ApAccepted"
    using get_approval_resolved [OF assms(1), of Accept ?v "env_now env"] w1(1) by auto
  with assms(2,3) w1(2) show ?thesis
    by (simp add: respond_approval_def upstream_respond_def Let_def)
qed

text \<open>
  The thread is not part of a command's identity: the same key sent to another thread's actor is
  answered with the first thread's outcome, and nothing is done for the second.
\<close>

lemma idempotency_ignores_thread:
  assumes "get_command c (rq_idempotency_key rq) (w_db w) = Inr (Some s)" "trim (rq_idempotency_key rq) \<noteq> []"
    and "w2 = w\<lparr>w_actor := new_actor other\<rparr>"
  shows "fst (handle_command c env device rq w2) = fst (handle_command c env device rq w) \<and>
    w_db (snd (handle_command c env device rq w2)) = w_db w"
  using assms by (simp add: handle_command_def run_command_def prepare_command_def replay_stored_def Let_def)

text \<open>
  A thread that waits for an approval is running again after a restart: the status rebuilt from the
  turn events overrides the durable one.
\<close>

lemma hydrate_overrides_status:
  assumes "log_inv db" "timeline_rows = filter (\<lambda>r. ev_method r \<in> set TIMELINE_METHODS) (thread_events t db)"
    and "timeline_rows = rows @ [r]" "ev_method r = ''turn/started''"
  shows "a_status (hydrate_from_store c db (new_actor t)) = Running"
proof -
  have es: "session_timeline_events c t db = map (stored_event_of_row c) rows @ [stored_event_of_row c r]"
  proof -
    have "filter (\<lambda>r. ev_method r \<in> set TIMELINE_METHODS) (thread_events t db) = rows @ [r]"
      using assms(2,3) by simp
    then show ?thesis
      unfolding session_timeline_events_def sorted_timeline [OF assms(1)] by simp
  qed
  have id: "a_thread_id (new_actor t) = t" by (simp add: new_actor_def)
  show ?thesis
    unfolding hydrate_from_store_def Let_def id es
    by (simp add: stored_event_of_row_def assms(4) remember_event_def project_event_def Let_def)
qed

end
