(* ===== verification/Lifecycle.thy ===== *)
theory Lifecycle
  imports Prelude "HOL-Library.While_Combinator"
begin

unbundle bit_operations_syntax

text \<open>
  The request lifecycle of the proxy (\<open>crates/vellum-proxy-runtime/src/lifecycle.rs\<close>): admission and
  draining in one atomic word, and the generations of the serving task. Several tasks run these
  methods at the same time, so a method is a program of atomic steps and the system is every
  interleaving of them. All accesses in the source are \<open>SeqCst\<close>: the steps happen in one order.
\<close>

section \<open>Admission and draining\<close>

definition DRAINING :: u64 where
  "DRAINING = push_bit 63 1"

definition active_count :: "u64 \<Rightarrow> u64" where
  "active_count state = state AND NOT DRAINING"

definition begin_drain :: "u64 \<Rightarrow> u64" where
  "begin_drain state = state OR DRAINING"

text \<open>
  Where a task is in its use of the lifecycle: outside of it, before the load of the loop in \<open>begin\<close>,
  before the compare-exchange with the value it loaded, with a guard, or refused.
\<close>

datatype task =
    Outside
  | Loading
  | Exchanging u64
  | Holding
  | Refused

datatype task_event = Call | Step | Drop

text \<open>
  The next step of a task: it calls \<open>begin\<close>, it does one atomic access of \<open>begin\<close>, or it drops its
  guard. Events that do not fit where the task is change nothing.
\<close>

fun task_step :: "task_event \<Rightarrow> u64 \<Rightarrow> task \<Rightarrow> u64 \<times> task" where
  "task_step Call state Outside = (state, Loading)"
| "task_step Call state Refused = (state, Loading)"
| "task_step Step state Loading = (state, if state AND DRAINING \<noteq> 0 then Refused else Exchanging state)"
| "task_step Step state (Exchanging current) =
     (if state = current then (current + 1, Holding) else (state, Loading))"
| "task_step Drop state Holding = (state - 1, Outside)"
| "task_step _ state t = (state, t)"

record lifecycle =
  lc_state :: u64
  lc_tasks :: "task list"

datatype lifecycle_event = Task nat task_event | BeginDrain

fun lifecycle_step :: "lifecycle_event \<Rightarrow> lifecycle \<Rightarrow> lifecycle" where
  "lifecycle_step (Task i e) l =
     (if i < length (lc_tasks l)
      then let (state, t) = task_step e (lc_state l) (lc_tasks l ! i)
           in l\<lparr>lc_state := state, lc_tasks := (lc_tasks l)[i := t]\<rparr>
      else l)"
| "lifecycle_step BeginDrain l = l\<lparr>lc_state := begin_drain (lc_state l)\<rparr>"

definition new_lifecycle :: "nat \<Rightarrow> lifecycle" where
  "new_lifecycle n = \<lparr>lc_state = 0, lc_tasks = replicate n Outside\<rparr>"

definition draining :: "lifecycle \<Rightarrow> bool" where
  "draining l \<longleftrightarrow> lc_state l AND DRAINING \<noteq> 0"

definition holders :: "lifecycle \<Rightarrow> nat" where
  "holders l = length (filter (\<lambda>t. t = Holding) (lc_tasks l))"

section \<open>The word is a counter and a flag\<close>

definition packed :: "nat \<Rightarrow> bool \<Rightarrow> u64" where
  "packed n d = of_nat n + (if d then DRAINING else 0)"

lemma bit_DRAINING [simp]: "bit DRAINING k \<longleftrightarrow> k = 63"
  unfolding DRAINING_def bit_push_bit_iff bit_1_iff by auto

lemma bit_small:
  assumes "n < 2 ^ 63"
  shows "bit (of_nat n :: u64) k \<longleftrightarrow> k < 63 \<and> bit n k"
proof -
  have "\<not> bit n k" if "k \<ge> 63"
  proof -
    have "(2::nat) ^ 63 \<le> 2 ^ k" using that by (rule power_increasing) simp
    with assms have "n < 2 ^ k" by (rule less_le_trans)
    then show ?thesis by (simp add: bit_iff_odd)
  qed
  then show ?thesis by (cases "k < 63") (auto simp: bit_of_nat_iff)
qed

lemma packed_or:
  assumes "n < 2 ^ 63"
  shows "packed n d = of_nat n OR (if d then DRAINING else 0)"
proof (cases d)
  case True
  have "of_nat n AND DRAINING = 0"
    by (rule bit_eqI) (simp add: bit_and_iff bit_small [OF assms])
  with True show ?thesis by (simp add: packed_def disjunctive_add_eq_or)
qed (simp add: packed_def)

lemma packed_flag: "n < 2 ^ 63 \<Longrightarrow> packed n d AND DRAINING \<noteq> 0 \<longleftrightarrow> d"
proof (cases d)
  case True
  assume "n < 2 ^ 63"
  then have "bit (packed n d AND DRAINING) 63" using True by (simp add: packed_or bit_and_iff bit_or_iff)
  with True show ?thesis by auto
next
  case False
  assume "n < 2 ^ 63"
  then have "packed n d AND DRAINING = 0"
    using False by (intro bit_eqI) (auto simp: packed_or bit_and_iff bit_or_iff bit_small)
  with False show ?thesis by simp
qed

lemma packed_count:
  assumes "n < 2 ^ 63"
  shows "active_count (packed n d) = of_nat n"
  by (rule bit_eqI)
    (use assms in \<open>auto simp: active_count_def packed_or bit_and_iff bit_or_iff bit_not_iff bit_small\<close>)

lemma packed_drain:
  assumes "n < 2 ^ 63"
  shows "begin_drain (packed n d) = packed n True"
  by (rule bit_eqI) (use assms in \<open>auto simp: begin_drain_def packed_or bit_or_iff\<close>)

section \<open>Invariant\<close>

fun loaded_clear :: "task \<Rightarrow> bool" where
  "loaded_clear (Exchanging current) \<longleftrightarrow> current AND DRAINING = 0"
| "loaded_clear _ \<longleftrightarrow> True"

definition lifecycle_inv :: "lifecycle \<Rightarrow> bool" where
  "lifecycle_inv l \<longleftrightarrow>
     length (lc_tasks l) < 2 ^ 63 \<and> lc_state l = packed (holders l) (draining l) \<and> list_all loaded_clear (lc_tasks l)"

lemma holders_less: "length (lc_tasks l) < 2 ^ 63 \<Longrightarrow> holders l < 2 ^ 63"
  unfolding holders_def using length_filter_le le_less_trans by blast

lemma holders_small: "lifecycle_inv l \<Longrightarrow> holders l < 2 ^ 63"
  unfolding lifecycle_inv_def by (blast intro: holders_less)

lemma filter_update:
  "i < length xs \<Longrightarrow>
   length (filter P (xs[i := x])) + of_bool (P (xs ! i)) = length (filter P xs) + of_bool (P x)"
proof (induction xs arbitrary: i)
  case (Cons y xs)
  then show ?case by (cases i) auto
qed simp

lemma holders_update:
  "i < length (lc_tasks l) \<Longrightarrow>
   holders (l\<lparr>lc_state := s, lc_tasks := (lc_tasks l)[i := t]\<rparr>) + of_bool (lc_tasks l ! i = Holding) =
   holders l + of_bool (t = Holding)"
  using filter_update [of i "lc_tasks l" "\<lambda>t. t = Holding" t] by (simp add: holders_def)

text \<open>A step of a task either leaves the word alone or moves the counter by one.\<close>

lemma task_step_cases:
  assumes "lifecycle_inv l" "i < length (lc_tasks l)" "(s, t) = task_step e (lc_state l) (lc_tasks l ! i)"
  obtains
    (keep) "s = lc_state l" "t = Holding \<longleftrightarrow> lc_tasks l ! i = Holding" "loaded_clear t"
  | (admit) "\<not> draining l" "lc_tasks l ! i \<noteq> Holding" "t = Holding" "s = packed (Suc (holders l)) False"
  | (release) n where "holders l = Suc n" "lc_tasks l ! i = Holding" "t = Outside" "s = packed n (draining l)"
proof -
  let ?t = "lc_tasks l ! i"
  have st: "lc_state l = packed (holders l) (draining l)" using assms(1) by (simp add: lifecycle_inv_def)
  have clear: "loaded_clear ?t" using assms(1,2) by (simp add: lifecycle_inv_def list_all_length)
  show thesis
  proof (cases "e = Drop \<and> ?t = Holding")
    case True
    then have "holders l \<noteq> 0" using assms(2) nth_mem [of i "lc_tasks l"] by (auto simp: holders_def filter_empty_conv)
    then obtain n where n: "holders l = Suc n" using not0_implies_Suc by blast
    have "s = packed n (draining l)" "t = Outside" using True assms(3) st n by (simp_all add: packed_def)
    with True n show thesis by (intro release) auto
  next
    case False
    show thesis
    proof (cases "e = Step \<and> ?t = Exchanging (lc_state l)")
      case True
      then have d: "\<not> draining l" using clear by (simp add: draining_def)
      have "s = packed (Suc (holders l)) False" "t = Holding"
        using True assms(3) st d by (simp_all add: packed_def add.commute)
      with True d show thesis by (intro admit) auto
    next
      case no_cas: False
      show thesis
        by (rule keep; use False no_cas assms(3) clear in \<open>cases e; cases ?t\<close>)
          (auto split: if_splits)
    qed
  qed
qed

lemma draining_packed:
  "lc_state l = packed n d \<Longrightarrow> n < 2 ^ 63 \<Longrightarrow> draining l \<longleftrightarrow> d"
  by (simp add: draining_def packed_flag)

lemma lifecycle_inv_step: "lifecycle_inv l \<Longrightarrow> lifecycle_inv (lifecycle_step e l)"
proof (cases e)
  case (Task i te)
  assume inv: "lifecycle_inv l"
  obtain s t where st: "task_step te (lc_state l) (lc_tasks l ! i) = (s, t)" by force
  let ?l = "l\<lparr>lc_state := s, lc_tasks := (lc_tasks l)[i := t]\<rparr>"
  show ?thesis
  proof (cases "i < length (lc_tasks l)")
    case True
    have small: "holders ?l < 2 ^ 63" by (rule holders_less) (use inv in \<open>auto simp: lifecycle_inv_def\<close>)
    note count = holders_update [OF True, where s = s and t = t]
    have "loaded_clear t \<and> (\<exists>d. s = packed (holders ?l) d)"
      using inv True st [symmetric]
    proof (cases rule: task_step_cases)
      case keep
      with count have "holders ?l = holders l" by simp
      with keep inv have "s = packed (holders ?l) (draining l)" by (simp only: lifecycle_inv_def)
      with keep show ?thesis by blast
    next
      case admit
      with count have "holders ?l = Suc (holders l)" by simp
      with admit show ?thesis by auto
    next
      case (release n)
      with count have "holders ?l = n" by simp
      with release show ?thesis by auto
    qed
    then have "loaded_clear t \<and> lc_state ?l = packed (holders ?l) (draining ?l)"
      using small by (auto simp: draining_packed)
    then have "lifecycle_inv ?l" using inv by (auto simp: lifecycle_inv_def list_all_iff dest!: subsetD [OF set_update_subset_insert])
    with True st Task show ?thesis by simp
  qed (use inv Task in simp)
next
  case BeginDrain
  assume inv: "lifecycle_inv l"
  then have small: "holders l < 2 ^ 63" by (rule holders_small)
  with inv have "begin_drain (lc_state l) = packed (holders l) True" by (simp add: lifecycle_inv_def packed_drain)
  with inv small BeginDrain show ?thesis by (simp add: lifecycle_inv_def holders_def draining_def packed_flag)
qed

lemma lifecycle_inv_new: "n < 2 ^ 63 \<Longrightarrow> lifecycle_inv (new_lifecycle n)"
  by (simp add: lifecycle_inv_def new_lifecycle_def holders_def draining_def packed_def list_all_iff)

section \<open>Draining is final\<close>

text \<open>Once the flag is set it stays set, and tasks without a guard do not get one.\<close>

definition drained_below :: "lifecycle \<Rightarrow> lifecycle \<Rightarrow> bool" where
  "drained_below l l' \<longleftrightarrow>
     length (lc_tasks l') = length (lc_tasks l) \<and>
     (draining l \<longrightarrow> draining l' \<and>
       (\<forall>i < length (lc_tasks l). lc_tasks l' ! i = Holding \<longrightarrow> lc_tasks l ! i = Holding))"

lemma drained_below_step:
  assumes "lifecycle_inv l"
  shows "drained_below l (lifecycle_step e l)"
proof (cases e)
  case (Task i te)
  obtain s t where st: "task_step te (lc_state l) (lc_tasks l ! i) = (s, t)" by force
  show ?thesis
  proof (cases "i < length (lc_tasks l)")
    case True
    note h = holders_small [OF assms]
    have "draining l \<longrightarrow> s AND DRAINING \<noteq> 0 \<and> (t = Holding \<longrightarrow> lc_tasks l ! i = Holding)"
      using assms True st [symmetric]
      by (cases rule: task_step_cases) (use h in \<open>auto simp: draining_def packed_flag\<close>)
    with True st Task show ?thesis
      by (auto simp: drained_below_def draining_def nth_list_update)
  qed (use Task in \<open>simp add: drained_below_def\<close>)
next
  case BeginDrain
  have "bit (begin_drain (lc_state l) AND DRAINING) 63"
    by (simp add: begin_drain_def bit_and_iff bit_or_iff)
  with BeginDrain show ?thesis by (auto simp: drained_below_def draining_def)
qed

interpretation lifecycle_run: monotone_system lifecycle_step lifecycle_inv drained_below
proof
  show "drained_below l l" for l by (simp add: drained_below_def)
  show "drained_below l l'" if "drained_below l k" "drained_below k l'" for l k l'
    using that by (simp add: drained_below_def)
qed (rule lifecycle_inv_step drained_below_step, assumption)+

text \<open>
  C7: Whatever the interleaving, the counter in the word is the number of tasks that hold a guard; after
  a drain has begun no task is admitted any more, and once the counter then reads zero no request is
  in flight and none ever will be.
\<close>

theorem drain_is_final:
  assumes "n < 2 ^ 63" and "l = fold lifecycle_step es (new_lifecycle n)" and "l' = fold lifecycle_step es' l"
  shows "unat (active_count (lc_state l)) = holders l \<and>
    (draining l \<longrightarrow> draining l' \<and>
      (\<forall>i < n. lc_tasks l' ! i = Holding \<longrightarrow> lc_tasks l ! i = Holding) \<and>
      (active_count (lc_state l) = 0 \<longrightarrow> holders l' = 0))"
proof -
  have inv0: "lifecycle_inv (new_lifecycle n)" by (rule lifecycle_inv_new) fact
  have inv: "lifecycle_inv l" unfolding assms(2) by (rule lifecycle_run.run_invar [OF inv0])
  have len: "length (lc_tasks l) = n"
    using lifecycle_run.run_below [OF inv0, of es] by (simp add: assms(2) drained_below_def new_lifecycle_def)
  have below: "drained_below l l'" unfolding assms(3) by (rule lifecycle_run.run_below [OF inv])
  note small = holders_small [OF inv]
  then have count: "active_count (lc_state l) = of_nat (holders l)"
    using inv by (simp add: lifecycle_inv_def packed_count)
  have exact: "unat (active_count (lc_state l)) = holders l"
    using small by (simp add: count unat_of_nat take_bit_nat_eq_self)
  moreover have "holders l' = 0" if "draining l" "active_count (lc_state l) = 0"
  proof -
    have "Holding \<notin> set (lc_tasks l)" using that(2) exact by (auto simp: holders_def filter_empty_conv)
    with that(1) below have "Holding \<notin> set (lc_tasks l')" by (auto simp: drained_below_def in_set_conv_nth)
    then show ?thesis by (auto simp: holders_def filter_empty_conv)
  qed
  ultimately show ?thesis using below len by (simp add: drained_below_def)
qed

theorem drain_is_final_witness:
  "let l = fold lifecycle_step [Task 0 Call, Task 0 Step, Task 0 Step, Task 1 Call, Task 1 Step, BeginDrain, Task 0 Drop] (new_lifecycle 2);
       l' = fold lifecycle_step [Task 1 Step, Task 1 Step, Task 0 Call, Task 0 Step] l
   in draining l \<and> active_count (lc_state l) = 0 \<and> draining l' \<and> holders l' = 0"
proof -
  define l where "l = fold lifecycle_step [Task 0 Call, Task 0 Step, Task 0 Step, Task 1 Call, Task 1 Step, BeginDrain, Task 0 Drop] (new_lifecycle 2)"
  define l' where "l' = fold lifecycle_step [Task 1 Step, Task 1 Step, Task 0 Call, Task 0 Step] l"
  have l: "draining l \<and> active_count (lc_state l) = 0" unfolding l_def by code_simp
  then have "draining l' \<and> holders l' = 0" using drain_is_final [OF _ l_def l'_def] by simp
  with l show ?thesis unfolding Let_def l'_def l_def by blast
qed

section \<open>Admission ends\<close>

text \<open>
  The loop of \<open>begin\<close> retries when another task changed the word in between. It is lock-free: a retry
  is paid for by a change, and a task that is not disturbed returns after its load and its exchange.
\<close>

fun in_begin :: "task \<Rightarrow> bool" where
  "in_begin Loading \<longleftrightarrow> True"
| "in_begin (Exchanging _) \<longleftrightarrow> True"
| "in_begin _ \<longleftrightarrow> False"

fun begin_returns :: "nat \<Rightarrow> lifecycle_event list \<Rightarrow> lifecycle \<Rightarrow> bool" where
  "begin_returns i [] l \<longleftrightarrow> \<not> in_begin (lc_tasks l ! i)"
| "begin_returns i (e # es) l \<longleftrightarrow> \<not> in_begin (lc_tasks l ! i) \<or> begin_returns i es (lifecycle_step e l)"

text \<open>Another task, or the drain, changes the word.\<close>

definition disturbs :: "nat \<Rightarrow> lifecycle_event \<Rightarrow> lifecycle \<Rightarrow> bool" where
  "disturbs i e l \<longleftrightarrow> (case e of Task j _ \<Rightarrow> j \<noteq> i | BeginDrain \<Rightarrow> True) \<and> lc_state (lifecycle_step e l) \<noteq> lc_state l"

text \<open>The steps a task can still take in \<open>begin\<close> without another change of the word.\<close>

fun steps_left :: "u64 \<Rightarrow> task \<Rightarrow> nat" where
  "steps_left state Loading = 1"
| "steps_left state (Exchanging current) = (if state = current then 0 else 2)"
| "steps_left state _ = 0"

lemma begin_step_paid:
  assumes "i < length (lc_tasks l)" "in_begin (lc_tasks l ! i)" "in_begin (lc_tasks (lifecycle_step e l) ! i)"
  shows "of_bool (e = Task i Step) + steps_left (lc_state (lifecycle_step e l)) (lc_tasks (lifecycle_step e l) ! i)
    \<le> 2 * of_bool (disturbs i e l) + steps_left (lc_state l) (lc_tasks l ! i)"
proof (cases "\<exists>te. e = Task i te")
  case True
  then obtain te where "e = Task i te" ..
  with assms show ?thesis
    by (cases te; cases "lc_tasks l ! i") (auto simp: disturbs_def split: if_splits)
next
  case False
  then have "lc_tasks (lifecycle_step e l) ! i = lc_tasks l ! i"
    by (cases e) (auto split: prod.splits)
  with False show ?thesis
    by (cases "lc_tasks l ! i") (auto simp: disturbs_def split: lifecycle_event.splits)
qed

lemma length_tasks_step [simp]: "length (lc_tasks (lifecycle_step e l)) = length (lc_tasks l)"
  by (cases e) (auto split: prod.splits)

lemma begin_steps_paid:
  "i < length (lc_tasks l) \<Longrightarrow> \<not> begin_returns i es l \<Longrightarrow>
   count_events (\<lambda>e l. e = Task i Step) lifecycle_step es l
     \<le> 2 * count_events (disturbs i) lifecycle_step es l + steps_left (lc_state l) (lc_tasks l ! i)"
proof (induction es arbitrary: l)
  case (Cons e es)
  have "in_begin (lc_tasks (lifecycle_step e l) ! i)" using Cons.prems by (cases es) auto
  with Cons.prems have "of_bool (e = Task i Step) + steps_left (lc_state (lifecycle_step e l)) (lc_tasks (lifecycle_step e l) ! i)
      \<le> 2 * of_bool (disturbs i e l) + steps_left (lc_state l) (lc_tasks l ! i)"
    by (intro begin_step_paid) simp_all
  moreover have "count_events (\<lambda>e l. e = Task i Step) lifecycle_step es (lifecycle_step e l)
      \<le> 2 * count_events (disturbs i) lifecycle_step es (lifecycle_step e l) +
        steps_left (lc_state (lifecycle_step e l)) (lc_tasks (lifecycle_step e l) ! i)"
    using Cons.prems by (intro Cons.IH) simp_all
  ultimately show ?case by simp
qed simp

text \<open>
  C32: A call of \<open>begin\<close> returns: a task in its loop that takes more than twice as many steps as others
  change the word meanwhile, and one more, has left the loop with a guard or a refusal.
\<close>

theorem begin_terminates:
  assumes "i < length (lc_tasks l)" and "lc_tasks l ! i = Loading"
    and "2 * count_events (disturbs i) lifecycle_step es l + 1 < count_events (\<lambda>e l. e = Task i Step) lifecycle_step es l"
  shows "begin_returns i es l"
  using begin_steps_paid [OF assms(1), of es] assms(2,3) by fastforce

theorem begin_terminates_witness:
  "begin_returns 1 [Task 1 Step, Task 0 Call, Task 0 Step, Task 0 Step, Task 1 Step, Task 1 Step, Task 1 Step]
     (lifecycle_step (Task 1 Call) (new_lifecycle 2))"
  by (rule begin_terminates) code_simp+

section \<open>Generations\<close>

text \<open>
  A serve generation is its id and a cancellation flag its clones share, so the set of cancelled ids is
  state of the system. \<open>bump\<close> takes two atomic actions: it draws the next id, then it replaces the
  generation in the slot under the lock and cancels the old one. \<open>cancel_current\<close> copies the generation
  out of the slot and cancels the copy afterwards. \<open>gn_returned\<close> lists the generations handed out.
\<close>

datatype generation_task = Ready | Drawn u64 | Copied u64

record generation_controller =
  gn_current :: u64
  gn_slot :: u64
  gn_cancelled :: "u64 list"
  gn_returned :: "u64 list"
  gn_tasks :: "generation_task list"

datatype controller_call = Draw | Install | Copy | CancelCopy

fun generation_action :: "controller_call \<Rightarrow> nat \<Rightarrow> generation_controller \<Rightarrow> generation_controller" where
  "generation_action Draw i g =
     (if gn_tasks g ! i = Ready
      then g\<lparr>gn_current := gn_current g + 1, gn_tasks := (gn_tasks g)[i := Drawn (gn_current g + 1)]\<rparr> else g)"
| "generation_action Install i g =
     (case gn_tasks g ! i of
        Drawn next_id \<Rightarrow>
          g\<lparr>gn_cancelled := gn_slot g # gn_cancelled g, gn_slot := next_id,
            gn_returned := next_id # gn_returned g, gn_tasks := (gn_tasks g)[i := Ready]\<rparr>
      | _ \<Rightarrow> g)"
| "generation_action Copy i g =
     (if gn_tasks g ! i = Ready then g\<lparr>gn_tasks := (gn_tasks g)[i := Copied (gn_slot g)]\<rparr> else g)"
| "generation_action CancelCopy i g =
     (case gn_tasks g ! i of
        Copied gen \<Rightarrow> g\<lparr>gn_cancelled := gen # gn_cancelled g, gn_tasks := (gn_tasks g)[i := Ready]\<rparr>
      | _ \<Rightarrow> g)"

definition generation_step :: "controller_call \<times> nat \<Rightarrow> generation_controller \<Rightarrow> generation_controller" where
  "generation_step = (\<lambda>(a, i) g. if i < length (gn_tasks g) then generation_action a i g else g)"

definition new_controller :: "nat \<Rightarrow> generation_controller" where
  "new_controller n = \<lparr>gn_current = 0, gn_slot = 0, gn_cancelled = [], gn_returned = [0], gn_tasks = replicate n Ready\<rparr>"

definition is_current :: "u64 \<Rightarrow> generation_controller \<Rightarrow> bool" where
  "is_current gen g \<longleftrightarrow> gn_current g = gen"

definition is_cancelled :: "u64 \<Rightarrow> generation_controller \<Rightarrow> bool" where
  "is_cancelled gen g \<longleftrightarrow> gen \<in> set (gn_cancelled g)"

text \<open>
  However calls overlap, a generation that was handed out and is no longer in the slot has been
  cancelled: never do two of them serve.
\<close>

definition one_live :: "generation_controller \<Rightarrow> bool" where
  "one_live g \<longleftrightarrow> (\<forall>gen \<in> set (gn_returned g). gen = gn_slot g \<or> is_cancelled gen g)"

interpretation controller: step_system generation_step one_live
proof
  fix ev :: "controller_call \<times> nat" and g :: generation_controller assume inv: "one_live g"
  obtain a i where ev: "ev = (a, i)" by force
  show "one_live (generation_step ev g)"
    using inv unfolding ev generation_step_def
    by (cases a) (auto simp: one_live_def is_cancelled_def split: generation_task.splits)
qed

text \<open>
  One generation at a time: whatever the interleaving, at most the generation in the slot is not
  cancelled. Two overlapping calls of \<open>bump\<close> may however install their generations in the wrong order:
  then the generation whose id is current is cancelled and an older one keeps serving.
\<close>

lemma one_live_generation:
  assumes "g = fold generation_step evs (new_controller n)" and "gen \<in> set (gn_returned g)" and "\<not> is_cancelled gen g"
  shows "gen = gn_slot g"
proof -
  have "one_live g"
    unfolding assms(1) by (rule controller.run_invar) (simp add: one_live_def new_controller_def)
  with assms(2,3) show ?thesis by (auto simp: one_live_def)
qed

lemma overlapping_bumps:
  "let g = fold generation_step [(Draw, 0), (Draw, 1), (Install, 1), (Install, 0)] (new_controller 2) in
   is_current 2 g \<and> is_cancelled 2 g \<and> gn_slot g = 1 \<and> \<not> is_cancelled 1 g"
  by code_simp

end
