(* ===== verification/History.thy ===== *)
theory History
  imports Json_Value "HOL-Library.AList" "HOL-Library.List_Lexorder" "HOL-Library.Char_ord" "HOL-Library.Multiset"
begin

text \<open>
  The continuation history of the proxy (\<open>crates/vellum-proxy-runtime/src/history.rs\<close>): recorded
  exchanges linked by \<open>previous_response_id\<close>, the journals of compactions, and the store that keeps
  them in memory or in a file of JSON lines. A \<open>HashMap\<close> is an association list whose order is
  arbitrary. What a request says about its conversation (the identity metadata of the client and the
  session of a Grok request) is read by other modules: the function \<open>request_key\<close> that does it is an
  argument. SHA-256 and the JSON printer and parser are arguments too.
\<close>

section \<open>Data\<close>

record history_entry =
  he_response_id :: string
  he_previous_response_id :: "string option"
  he_route_id :: string
  he_continuation_realm :: "string option"
  he_input_items :: "json list"
  he_output_items :: "json list"
  he_created_at :: int

record compaction_journal_record =
  jr_response_id :: string
  jr_compaction_id :: string
  jr_generation :: u32
  jr_engine_id :: string
  jr_engine_provenance :: "string option"
  jr_route_id :: string
  jr_upstream_model :: string
  jr_tokens_before :: u64
  jr_tokens_after :: u64
  jr_elapsed_ms :: u64
  jr_schema_version :: u32
  jr_source_items :: "json list"
  jr_canonical_items :: "json list"
  jr_source_hash :: string
  jr_checkpoint_hash :: string
  jr_provider_owned :: bool

record local_compaction_record_v1 =
  lcr_schema_version :: u32
  lcr_response_id :: string
  lcr_compaction_id :: string
  lcr_generation :: u32
  lcr_engine_id :: string
  lcr_engine_provenance :: "string option"
  lcr_source_items :: "json list"
  lcr_source_hash :: string
  lcr_replacement_items :: "json list"
  lcr_replacement_hash :: string
  lcr_route_id :: string
  lcr_upstream_model :: string
  lcr_tokens_before :: u64
  lcr_tokens_after :: u64
  lcr_elapsed_ms :: u64
  lcr_failure :: "string option"
  lcr_created_at :: int

record compaction_journal =
  cj_compaction_id :: string
  cj_engine_id :: string
  cj_engine_provenance :: "string option"
  cj_route_id :: string
  cj_upstream_model :: string
  cj_tokens_before :: u64
  cj_tokens_after :: u64
  cj_elapsed_ms :: u64
  cj_response_id :: string
  cj_generation :: u32
  cj_canonical_items :: "json list"
  cj_source_items :: "json list"
  cj_schema_version :: u32
  cj_source_hash :: string
  cj_checkpoint_hash :: string
  cj_created_at :: int

record compacted_replay_provenance =
  rp_items :: "json list"
  rp_canonical_prefix_len :: nat
  rp_parent_compaction_id :: "string option"

definition LOCAL_COMPACTION_RECORD_SCHEMA_V1 :: u32 where
  "LOCAL_COMPACTION_RECORD_SCHEMA_V1 = 1"

definition hash_items :: "(string \<Rightarrow> string) \<Rightarrow> (json \<Rightarrow> string) \<Rightarrow> json list \<Rightarrow> string" where
  "hash_items sha print items = sha (print (JArray items))"

definition validate_local :: "(string \<Rightarrow> string) \<Rightarrow> (json \<Rightarrow> string) \<Rightarrow> local_compaction_record_v1 \<Rightarrow> string + unit" where
  "validate_local sha print r =
     (if lcr_schema_version r \<noteq> LOCAL_COMPACTION_RECORD_SCHEMA_V1
      then Inl (''unsupported local compaction record schema '' @ show_nat (unat (lcr_schema_version r)))
      else if lcr_engine_id r = [] then Inl ''local compaction record has no engine id''
      else if hash_items sha print (lcr_source_items r) \<noteq> lcr_source_hash r
        then Inl ''local compaction record source hash mismatch''
      else if hash_items sha print (lcr_replacement_items r) \<noteq> lcr_replacement_hash r
        then Inl ''local compaction record replacement hash mismatch''
      else Inr ())"

definition into_storage_record :: "local_compaction_record_v1 \<Rightarrow> compaction_journal_record" where
  "into_storage_record r =
     \<lparr>jr_response_id = lcr_response_id r, jr_compaction_id = lcr_compaction_id r, jr_generation = lcr_generation r,
      jr_engine_id = lcr_engine_id r, jr_engine_provenance = lcr_engine_provenance r, jr_route_id = lcr_route_id r,
      jr_upstream_model = lcr_upstream_model r, jr_tokens_before = lcr_tokens_before r,
      jr_tokens_after = lcr_tokens_after r, jr_elapsed_ms = lcr_elapsed_ms r, jr_schema_version = lcr_schema_version r,
      jr_source_items = lcr_source_items r, jr_canonical_items = lcr_replacement_items r,
      jr_source_hash = lcr_source_hash r, jr_checkpoint_hash = lcr_replacement_hash r, jr_provider_owned = False\<rparr>"

definition from_record :: "int \<Rightarrow> compaction_journal_record \<Rightarrow> compaction_journal" where
  "from_record now r =
     \<lparr>cj_compaction_id = jr_compaction_id r, cj_engine_id = jr_engine_id r,
      cj_engine_provenance = jr_engine_provenance r, cj_route_id = jr_route_id r,
      cj_upstream_model = jr_upstream_model r, cj_tokens_before = jr_tokens_before r,
      cj_tokens_after = jr_tokens_after r, cj_elapsed_ms = jr_elapsed_ms r, cj_response_id = jr_response_id r,
      cj_generation = jr_generation r, cj_canonical_items = jr_canonical_items r, cj_source_items = jr_source_items r,
      cj_schema_version = jr_schema_version r, cj_source_hash = jr_source_hash r,
      cj_checkpoint_hash = jr_checkpoint_hash r, cj_created_at = now\<rparr>"

section \<open>Requests and exchanges\<close>

fun input_value_items :: "json \<Rightarrow> json list" where
  "input_value_items (JArray items) = items"
| "input_value_items (JObject kvs) = [JObject kvs]"
| "input_value_items (JString text) =
     [JObject [(''type'', JString ''message''), (''role'', JString ''user''),
       (''content'', JArray [JObject [(''type'', JString ''input_text''), (''text'', JString text)]])]]"
| "input_value_items _ = []"

definition request_input_items :: "json \<Rightarrow> json list" where
  "request_input_items request = (case json_get request ''input'' of Some v \<Rightarrow> input_value_items v | None \<Rightarrow> [])"

definition nonblank_str :: "json \<Rightarrow> string \<Rightarrow> string option" where
  "nonblank_str v k = (case get_str v k of Some s \<Rightarrow> if trim s = [] then None else Some s | None \<Rightarrow> None)"

definition entry_from_exchange ::
  "json \<Rightarrow> json \<Rightarrow> string \<Rightarrow> string option \<Rightarrow> int \<Rightarrow> history_entry option"
where
  "entry_from_exchange request response route_id realm created_at =
     map_option (\<lambda>response_id.
       \<lparr>he_response_id = response_id, he_previous_response_id = nonblank_str request ''previous_response_id'',
        he_route_id = route_id, he_continuation_realm = realm, he_input_items = request_input_items request,
        he_output_items = (case get_array response ''output'' of Some xs \<Rightarrow> xs | None \<Rightarrow> []),
        he_created_at = created_at\<rparr>)
       (nonblank_str response ''id'')"

section \<open>The store\<close>

type_synonym entries = "(string \<times> history_entry) list"

record memory_history_store =
  hs_entries :: entries
  hs_journals :: "(string \<times> compaction_journal list) list"
  hs_conversation_keys :: "(string \<times> string) list"

definition new_store :: memory_history_store where
  "new_store = \<lparr>hs_entries = [], hs_journals = [], hs_conversation_keys = []\<rparr>"

text \<open>The loop of \<open>walk_chain\<close>, newest entry first; \<open>seen\<close> are the ids already visited.\<close>

function walk_loop :: "entries \<Rightarrow> string list \<Rightarrow> string option \<Rightarrow> history_entry list" where
  "walk_loop es seen None = []"
| "walk_loop es seen (Some i) =
     (if i \<in> set seen then []
      else case map_of es i of
             None \<Rightarrow> []
           | Some e \<Rightarrow> e # walk_loop es (i # seen) (he_previous_response_id e))"
  by pat_completeness auto
termination
proof (relation "measure (\<lambda>(es, seen, _). card (fst ` set es - set seen))")
  fix es :: entries and seen i e
  assume "i \<notin> set seen" "map_of es i = Some e"
  then have "fst ` set es - set (i # seen) \<subset> fst ` set es - set seen" by (force dest: map_of_SomeD)
  then show "((es, i # seen, he_previous_response_id e), es, seen, Some i) \<in>
      measure (\<lambda>(es, seen, _). card (fst ` set es - set seen))"
    by (simp add: psubset_card_mono del: set_simps)
qed simp

definition walk_chain :: "entries \<Rightarrow> string \<Rightarrow> history_entry list" where
  "walk_chain es head = rev (walk_loop es [] (Some head))"

definition get_chain :: "string \<Rightarrow> memory_history_store \<Rightarrow> history_entry list" where
  "get_chain head s = walk_chain (hs_entries s) head"

definition inherit_conversation_key ::
  "(json \<Rightarrow> string option) \<Rightarrow> json \<Rightarrow> string option \<Rightarrow> (string \<times> string) list \<Rightarrow> string option"
where
  "inherit_conversation_key request_key request previous existing =
     or_else (request_key request) (Option.bind previous (map_of existing))"

definition record_exchange_with_context ::
  "(json \<Rightarrow> string option) \<Rightarrow> json \<Rightarrow> json \<Rightarrow> string \<Rightarrow> string option \<Rightarrow> string option \<Rightarrow> int \<Rightarrow>
     memory_history_store \<Rightarrow> bool \<times> memory_history_store"
where
  "record_exchange_with_context request_key request response route_id conversation_key realm now s =
     (case entry_from_exchange request response route_id realm now of
        None \<Rightarrow> (False, s)
      | Some e \<Rightarrow>
          let keys = hs_conversation_keys s;
              inherited = inherit_conversation_key request_key request (he_previous_response_id e) keys;
              key = or_else (case conversation_key of Some k \<Rightarrow> if trim k = [] then None else Some k | None \<Rightarrow> None) inherited
          in (True, s\<lparr>hs_entries := AList.update (he_response_id e) e (hs_entries s),
                      hs_conversation_keys := (case key of Some k \<Rightarrow> AList.update (he_response_id e) k keys | None \<Rightarrow> keys)\<rparr>))"

definition record_exchange_with_conversation_key ::
  "(json \<Rightarrow> string option) \<Rightarrow> json \<Rightarrow> json \<Rightarrow> string \<Rightarrow> string option \<Rightarrow> int \<Rightarrow>
     memory_history_store \<Rightarrow> bool \<times> memory_history_store"
where
  "record_exchange_with_conversation_key request_key request response route_id conversation_key now s =
     record_exchange_with_context request_key request response route_id conversation_key None now s"

definition record_exchange ::
  "(json \<Rightarrow> string option) \<Rightarrow> json \<Rightarrow> json \<Rightarrow> string \<Rightarrow> int \<Rightarrow> memory_history_store \<Rightarrow> bool \<times> memory_history_store"
where
  "record_exchange request_key request response route_id now s =
     record_exchange_with_conversation_key request_key request response route_id None now s"

definition response_conversation_key :: "string \<Rightarrow> memory_history_store \<Rightarrow> string option" where
  "response_conversation_key i s = map_of (hs_conversation_keys s) i"

definition response_continuation_realm :: "string \<Rightarrow> memory_history_store \<Rightarrow> string option" where
  "response_continuation_realm i s =
     (case rev (get_chain i s) of e # _ \<Rightarrow> he_continuation_realm e | [] \<Rightarrow> None)"

definition in_conversation :: "(string \<times> string) list \<Rightarrow> string \<Rightarrow> history_entry \<Rightarrow> bool" where
  "in_conversation keys k e \<longleftrightarrow> map_of keys (he_response_id e) = Some k"

definition conversation_route_exchange_count :: "string \<Rightarrow> string \<Rightarrow> memory_history_store \<Rightarrow> u64" where
  "conversation_route_exchange_count k route_id s =
     as_u64 (length (filter (\<lambda>e. he_route_id e = route_id \<and> in_conversation (hs_conversation_keys s) k e)
       (map snd (hs_entries s))))"

section \<open>Conversations\<close>

datatype conversation_leaf = Missing | Unique string | Ambiguous "string list"

definition conversation_leaf_lookup ::
  "entries \<Rightarrow> (string \<times> string) list \<Rightarrow> string \<Rightarrow> string option \<Rightarrow> conversation_leaf"
where
  "conversation_leaf_lookup es keys k route_id =
     (let matching = filter (\<lambda>e. in_conversation keys k e \<and>
                        (case route_id of None \<Rightarrow> True | Some r \<Rightarrow> he_route_id e = r)) (map snd es);
          referenced = set (List.map_filter he_previous_response_id matching);
          leaves = sort (map he_response_id (filter (\<lambda>e. he_response_id e \<notin> referenced) matching))
      in if matching = [] then Missing
         else case leaves of [] \<Rightarrow> Missing | [head] \<Rightarrow> Unique head | _ \<Rightarrow> Ambiguous leaves)"

definition chain_for_conversation_leaf ::
  "entries \<Rightarrow> (string \<times> string) list \<Rightarrow> string \<Rightarrow> string option \<Rightarrow> string + history_entry list"
where
  "chain_for_conversation_leaf es keys k route_id =
     (case conversation_leaf_lookup es keys k route_id of
        Missing \<Rightarrow> Inr []
      | Unique head \<Rightarrow> Inr (walk_chain es head)
      | Ambiguous leaves \<Rightarrow> Inl (''ambiguous conversation branch: multiple leaf heads '' @ join_with '','' leaves))"

definition latest_chain_for_conversation ::
  "string \<Rightarrow> string option \<Rightarrow> memory_history_store \<Rightarrow> string + history_entry list"
where
  "latest_chain_for_conversation k route_id s =
     chain_for_conversation_leaf (hs_entries s) (hs_conversation_keys s) k route_id"

definition latest_response_id_for_conversation ::
  "string \<Rightarrow> string option \<Rightarrow> memory_history_store \<Rightarrow> string + string option"
where
  "latest_response_id_for_conversation k route_id s =
     map_sum id (\<lambda>chain. case rev chain of e # _ \<Rightarrow> Some (he_response_id e) | [] \<Rightarrow> None)
       (latest_chain_for_conversation k route_id s)"

section \<open>Compaction journals\<close>

definition journals_of :: "string \<Rightarrow> memory_history_store \<Rightarrow> compaction_journal list" where
  "journals_of i s = (case map_of (hs_journals s) i of Some js \<Rightarrow> js | None \<Rightarrow> [])"

definition record_compaction_record ::
  "int \<Rightarrow> compaction_journal_record \<Rightarrow> memory_history_store \<Rightarrow> memory_history_store"
where
  "record_compaction_record now r s =
     s\<lparr>hs_journals := AList.update (jr_response_id r) (journals_of (jr_response_id r) s @ [from_record now r])
        (hs_journals s)\<rparr>"

definition ENGINE_ID :: string where
  "ENGINE_ID = ''codex_local_v0_150''"

definition ENGINE_PROVENANCE :: string where
  "ENGINE_PROVENANCE = ''openai-codex@rust-v0.150.0-alpha.8+fcbdb578''"

definition record_compaction ::
  "(string \<Rightarrow> string) \<Rightarrow> (json \<Rightarrow> string) \<Rightarrow> int \<Rightarrow> string \<Rightarrow> string \<Rightarrow> u32 \<Rightarrow> json list \<Rightarrow>
     memory_history_store \<Rightarrow> memory_history_store"
where
  "record_compaction sha print now response_id compaction_id generation canonical_items =
     record_compaction_record now
       \<lparr>jr_response_id = response_id, jr_compaction_id = compaction_id, jr_generation = generation,
        jr_engine_id = ENGINE_ID, jr_engine_provenance = Some ENGINE_PROVENANCE, jr_route_id = [],
        jr_upstream_model = [], jr_tokens_before = 0, jr_tokens_after = 0, jr_elapsed_ms = 0,
        jr_schema_version = LOCAL_COMPACTION_RECORD_SCHEMA_V1, jr_source_items = canonical_items,
        jr_canonical_items = canonical_items, jr_source_hash = hash_items sha print canonical_items,
        jr_checkpoint_hash = hash_items sha print canonical_items, jr_provider_owned = False\<rparr>"

definition record_local_compaction ::
  "(string \<Rightarrow> string) \<Rightarrow> (json \<Rightarrow> string) \<Rightarrow> int \<Rightarrow> local_compaction_record_v1 \<Rightarrow> memory_history_store \<Rightarrow>
     (string + unit) \<times> memory_history_store"
where
  "record_local_compaction sha print now r s =
     (case validate_local sha print r of
        Inl e \<Rightarrow> (Inl e, s)
      | Inr _ \<Rightarrow> (Inr (), record_compaction_record now (into_storage_record r) s))"

definition last_opt :: "'a list \<Rightarrow> 'a option" where
  "last_opt xs = (if xs = [] then None else Some (last xs))"

definition journal_record :: "string \<Rightarrow> memory_history_store \<Rightarrow> compaction_journal option" where
  "journal_record i s = last_opt (journals_of i s)"

definition journal_record_for_compaction :: "string \<Rightarrow> memory_history_store \<Rightarrow> compaction_journal option" where
  "journal_record_for_compaction cid s =
     List.find (\<lambda>j. cj_compaction_id j = cid) (concat (map snd (hs_journals s)))"

definition compaction_ids_for_response :: "string \<Rightarrow> memory_history_store \<Rightarrow> string list" where
  "compaction_ids_for_response i s = map cj_compaction_id (journals_of i s)"

definition compaction_generation :: "string \<Rightarrow> memory_history_store \<Rightarrow> u32 option" where
  "compaction_generation cid s =
     map_option cj_generation (List.find (\<lambda>j. cj_compaction_id j = cid) (concat (map snd (hs_journals s))))"

definition journal_canonical_items :: "string \<Rightarrow> memory_history_store \<Rightarrow> json list option" where
  "journal_canonical_items i s = map_option cj_canonical_items (last_opt (journals_of i s))"

definition canonical_items_for_compaction :: "string \<Rightarrow> memory_history_store \<Rightarrow> json list option" where
  "canonical_items_for_compaction cid s =
     map_option cj_canonical_items (List.find (\<lambda>j. cj_compaction_id j = cid) (concat (map snd (hs_journals s))))"

section \<open>Replay\<close>

definition exchange_items :: "history_entry \<Rightarrow> json list" where
  "exchange_items e = he_input_items e @ he_output_items e"

definition flatten_chain_items :: "history_entry list \<Rightarrow> json list \<Rightarrow> json list" where
  "flatten_chain_items chain current_items = concat (map exchange_items chain) @ current_items"

text \<open>The walk from the newest entry to the first one with a journal; \<open>after\<close> are the items behind it.\<close>

fun replay_loop ::
  "memory_history_store \<Rightarrow> history_entry list \<Rightarrow> json list \<Rightarrow> compacted_replay_provenance + json list"
where
  "replay_loop s [] after = Inr after"
| "replay_loop s (e # newest_first) after =
     (case journal_canonical_items (he_response_id e) s of
        Some items \<Rightarrow>
          Inl \<lparr>rp_items = items @ after, rp_canonical_prefix_len = length items,
               rp_parent_compaction_id = last_opt (compaction_ids_for_response (he_response_id e) s)\<rparr>
      | None \<Rightarrow> replay_loop s newest_first (exchange_items e @ after))"

definition root_id :: "string \<Rightarrow> history_entry list \<Rightarrow> string" where
  "root_id head chain =
     (case chain of
        e # _ \<Rightarrow> (case he_previous_response_id e of Some p \<Rightarrow> p | None \<Rightarrow> head)
      | [] \<Rightarrow> head)"

definition compacted_replay_with_provenance ::
  "string \<Rightarrow> memory_history_store \<Rightarrow> compacted_replay_provenance option"
where
  "compacted_replay_with_provenance head s =
     (let chain = get_chain head s in
      case replay_loop s (rev chain) [] of
        Inl r \<Rightarrow> Some r
      | Inr after \<Rightarrow>
          (let root = root_id head chain in
           case journal_record_for_compaction root s of
             Some j \<Rightarrow>
               Some \<lparr>rp_items = cj_canonical_items j @ after, rp_canonical_prefix_len = length (cj_canonical_items j),
                     rp_parent_compaction_id = Some (cj_compaction_id j)\<rparr>
           | None \<Rightarrow>
               (case journal_canonical_items root s of
                  Some items \<Rightarrow>
                    Some \<lparr>rp_items = items @ after, rp_canonical_prefix_len = length items,
                          rp_parent_compaction_id = last_opt (compaction_ids_for_response root s)\<rparr>
                | None \<Rightarrow> None)))"

definition compacted_replay_items :: "string \<Rightarrow> memory_history_store \<Rightarrow> json list option" where
  "compacted_replay_items head s = map_option rp_items (compacted_replay_with_provenance head s)"

definition compacted_replay_parent :: "string \<Rightarrow> memory_history_store \<Rightarrow> string option" where
  "compacted_replay_parent head s =
     (let chain = get_chain head s in
      case find_map (\<lambda>e. last_opt (compaction_ids_for_response (he_response_id e) s)) (rev chain) of
        Some i \<Rightarrow> Some i
      | None \<Rightarrow>
          (let root = root_id head chain in
           if journal_record_for_compaction root s \<noteq> None then Some root
           else last_opt (compaction_ids_for_response root s)))"

section \<open>Operations as steps\<close>

datatype history_op =
    RecordExchange json json string "string option" "string option" int
  | RecordCompaction int compaction_journal_record
  | RecordLocal int local_compaction_record_v1

record history_env =
  hv_sha :: "string \<Rightarrow> string"
  hv_print :: "json \<Rightarrow> string"
  hv_request_key :: "json \<Rightarrow> string option"

fun history_step :: "history_env \<Rightarrow> history_op \<Rightarrow> memory_history_store \<Rightarrow> memory_history_store" where
  "history_step v (RecordExchange request response route_id key realm now) s =
     snd (record_exchange_with_context (hv_request_key v) request response route_id key realm now s)"
| "history_step v (RecordCompaction now r) s = record_compaction_record now r s"
| "history_step v (RecordLocal now r) s = snd (record_local_compaction (hv_sha v) (hv_print v) now r s)"

text \<open>The maps have one entry per key, and an entry or journal is filed under its own response id.\<close>

definition store_inv :: "memory_history_store \<Rightarrow> bool" where
  "store_inv s \<longleftrightarrow>
     distinct (map fst (hs_entries s)) \<and> (\<forall>(i, e) \<in> set (hs_entries s). he_response_id e = i) \<and>
     distinct (map fst (hs_journals s)) \<and>
     (\<forall>(i, js) \<in> set (hs_journals s). js \<noteq> [] \<and> (\<forall>j \<in> set js. cj_response_id j = i)) \<and>
     distinct (map fst (hs_conversation_keys s))"

lemma set_alist_update: "distinct (map fst xs) \<Longrightarrow> set (AList.update k v xs) = {(i, x) \<in> set xs. i \<noteq> k} \<union> {(k, v)}"
  by (induction xs) (auto simp: image_iff)

lemma journals_of_in: "journals_of i s \<noteq> [] \<Longrightarrow> (i, journals_of i s) \<in> set (hs_journals s)"
  by (auto simp: journals_of_def dest: map_of_SomeD split: option.splits)

lemma store_inv_compaction:
  assumes "store_inv s"
  shows "store_inv (record_compaction_record now r s)"
proof -
  have "cj_response_id j = jr_response_id r" if "j \<in> set (journals_of (jr_response_id r) s)" for j
    using assms that journals_of_in [of "jr_response_id r" s] by (fastforce simp: store_inv_def)
  with assms show ?thesis
    by (auto simp: store_inv_def record_compaction_record_def from_record_def distinct_update set_alist_update)
qed

lemma store_inv_step: "store_inv s \<Longrightarrow> store_inv (history_step v op s)"
proof (cases op)
  case (RecordExchange request response route_id key realm now)
  assume "store_inv s"
  then show ?thesis
    unfolding RecordExchange
    by (cases "entry_from_exchange request response route_id realm now")
      (auto simp: record_exchange_with_context_def store_inv_def Let_def distinct_update set_alist_update split: option.splits)
next
  case (RecordLocal now r)
  assume "store_inv s"
  then show ?thesis
    unfolding RecordLocal by (auto simp: record_local_compaction_def store_inv_compaction split: sum.splits)
qed (simp add: store_inv_compaction)

interpretation history: step_system "history_step v" store_inv for v
  by unfold_locales (rule store_inv_step)

lemma store_inv_reachable: "store_inv (fold (history_step v) ops new_store)"
  by (rule history.run_invar) (simp add: store_inv_def new_store_def)

section \<open>Walking a chain\<close>

fun linked :: "string option \<Rightarrow> history_entry list \<Rightarrow> bool" where
  "linked cur [] \<longleftrightarrow> True"
| "linked cur (e # newest_first) \<longleftrightarrow> cur = Some (he_response_id e) \<and> linked (he_previous_response_id e) newest_first"

definition keyed :: "entries \<Rightarrow> bool" where
  "keyed es \<longleftrightarrow> (\<forall>i e. map_of es i = Some e \<longrightarrow> he_response_id e = i)"

lemma store_keyed: "store_inv s \<Longrightarrow> keyed (hs_entries s)"
  by (auto simp: keyed_def store_inv_def dest!: map_of_SomeD)

lemmas walk_Some = walk_loop.simps(2)

declare walk_Some [simp del]

lemma walk_loop_spec:
  assumes "keyed es"
  shows "linked cur (walk_loop es seen cur) \<and> distinct (map he_response_id (walk_loop es seen cur)) \<and>
    he_response_id ` set (walk_loop es seen cur) \<inter> set seen = {} \<and>
    (\<forall>e \<in> set (walk_loop es seen cur). map_of es (he_response_id e) = Some e)"
  using assms
proof (induction es seen cur rule: walk_loop.induct)
  case (2 es seen i)
  show ?case
  proof (cases "i \<in> set seen \<or> map_of es i = None")
    case False
    then obtain e where e: "map_of es i = Some e" and new: "i \<notin> set seen" by auto
    moreover have "he_response_id e = i" using 2(2) e by (simp add: keyed_def)
    ultimately show ?thesis using 2(1) [OF new e 2(2)] by (auto simp: walk_Some)
  qed (auto simp: walk_Some)
qed simp

lemma walk_loop_stops:
  "keyed es \<Longrightarrow> xs = walk_loop es seen cur \<Longrightarrow>
   (if xs = [] then cur else he_previous_response_id (last xs)) = Some p \<Longrightarrow>
   map_of es p = None \<or> p \<in> set seen \<union> he_response_id ` set xs"
proof (induction es seen cur arbitrary: xs rule: walk_loop.induct)
  case (2 es seen i)
  show ?case
  proof (cases "i \<in> set seen \<or> map_of es i = None")
    case True
    then have "xs = []" using 2(3) by (auto simp: walk_Some)
    with True 2(4) show ?thesis by auto
  next
    case False
    then obtain e where e: "map_of es i = Some e" and new: "i \<notin> set seen" by auto
    let ?ys = "walk_loop es (i # seen) (he_previous_response_id e)"
    have xs: "xs = e # ?ys" using 2(3) e new by (simp add: walk_Some)
    moreover have "he_response_id e = i" using 2(2) e by (simp add: keyed_def)
    moreover have "(if ?ys = [] then he_previous_response_id e else he_previous_response_id (last ?ys)) = Some p"
      using 2(4) xs by (auto split: if_splits)
    ultimately show ?thesis using 2(1) [OF new e 2(2) refl] by auto
  qed
qed simp

lemma linked_nth:
  "linked cur xs \<Longrightarrow> Suc i < length xs \<Longrightarrow> he_previous_response_id (xs ! i) = Some (he_response_id (xs ! Suc i))"
proof (induction xs arbitrary: cur i)
  case (Cons x xs)
  then show ?case by (cases i; cases xs) auto
qed simp

lemma linked_rev:
  assumes "linked cur xs" "Suc i < length xs"
  shows "he_previous_response_id (rev xs ! Suc i) = Some (he_response_id (rev xs ! i))"
proof -
  have "he_previous_response_id (xs ! (length xs - Suc (Suc i))) =
      Some (he_response_id (xs ! Suc (length xs - Suc (Suc i))))"
    using assms by (intro linked_nth) auto
  moreover have "Suc (length xs - Suc (Suc i)) = length xs - Suc i" using assms(2) by simp
  ultimately show ?thesis using assms(2) by (simp add: rev_nth)
qed

text \<open>
  Following \<open>previous_response_id\<close> always ends and returns the whole chain: in every store that
  recording produces, links in a circle included, the chain of a known head consists of stored
  entries, none twice, each naming its predecessor, and it goes back until an entry has no
  predecessor, an unknown one, or one the chain already has.
\<close>

theorem walk_chain_exact:
  assumes "s = fold (history_step v) ops new_store" and "chain = get_chain head s"
  shows "distinct (map he_response_id chain) \<and> length chain \<le> length (hs_entries s) \<and>
    (\<forall>e \<in> set chain. map_of (hs_entries s) (he_response_id e) = Some e) \<and>
    (\<forall>i. Suc i < length chain \<longrightarrow> he_previous_response_id (chain ! Suc i) = Some (he_response_id (chain ! i))) \<and>
    (if map_of (hs_entries s) head = None then chain = []
     else chain \<noteq> [] \<and> he_response_id (last chain) = head \<and>
       (case he_previous_response_id (hd chain) of
          None \<Rightarrow> True
        | Some p \<Rightarrow> map_of (hs_entries s) p = None \<or> p \<in> set (map he_response_id chain)))"
proof -
  define es where "es = hs_entries s"
  define xs where "xs = walk_loop es [] (Some head)"
  have k: "keyed es" unfolding es_def assms(1) by (rule store_keyed [OF store_inv_reachable])
  have chain: "chain = rev xs" by (simp add: assms(2) get_chain_def walk_chain_def xs_def es_def)
  have xs: "linked (Some head) xs" "distinct (map he_response_id xs)" "\<forall>e \<in> set xs. map_of es (he_response_id e) = Some e"
    using walk_loop_spec [OF k, of "Some head" "[]"] by (simp_all add: xs_def)
  have "length xs = card (he_response_id ` set xs)" using distinct_card [OF xs(2)] by simp
  also have "\<dots> \<le> card (fst ` set es)"
    by (rule card_mono) (use xs(3) in \<open>force dest: map_of_SomeD\<close>)+
  also have "\<dots> \<le> length es" by (metis card_length length_map list.set_map)
  finally have len: "length xs \<le> length es" .
  have ends: "map_of es p = None \<or> p \<in> he_response_id ` set xs"
    if "xs \<noteq> []" "he_previous_response_id (last xs) = Some p" for p
    using walk_loop_stops [OF k xs_def, of p] that by auto
  have "xs = [] \<longleftrightarrow> map_of es head = None" by (simp add: xs_def walk_Some split: option.splits)
  moreover have "he_response_id (hd xs) = head" if "xs \<noteq> []" using xs(1) that by (cases xs) auto
  ultimately show ?thesis
    using xs len ends linked_rev [OF xs(1)]
    by (auto simp: chain rev_map [symmetric] last_rev hd_rev es_def [symmetric] split: option.splits)
qed

section \<open>Recording\<close>

lemma walk_loop_fresh:
  "map_of es r = None \<Longrightarrow> set seen' = insert r (set seen) \<Longrightarrow>
   walk_loop (AList.update r e es) seen' cur = walk_loop es seen cur"
proof (induction es seen cur arbitrary: seen' rule: walk_loop.induct)
  case (2 es seen i)
  consider (fresh) "i = r" | (stop) "i \<noteq> r" "i \<in> set seen \<or> map_of es i = None"
    | (go) x where "i \<noteq> r" "i \<notin> set seen" "map_of es i = Some x"
    by auto
  then show ?case
  proof cases
    case fresh
    with 2(2,3) show ?thesis by (simp add: walk_Some)
  next
    case stop
    have same: "i \<in> set seen' \<longleftrightarrow> i \<in> set seen" "map_of (AList.update r e es) i = map_of es i"
      using stop(1) 2(3) by (simp_all add: update_conv)
    from stop(2) show ?thesis by (rule disjE) (simp_all add: walk_Some same)
  next
    case (go x)
    have "walk_loop (AList.update r e es) (i # seen') (he_previous_response_id x) =
        walk_loop es (i # seen) (he_previous_response_id x)"
      by (rule 2(1) [OF go(2,3) 2(2)]) (use 2(3) in auto)
    with go 2(3) show ?thesis by (simp add: walk_Some update_conv)
  qed
qed simp

text \<open>
  What is recorded is replayed: an exchange recorded under a fresh response id becomes the end of the
  chain of the response it continues, so the replay of its id is the replay of that response followed
  by the items of the exchange.
\<close>

theorem recorded_exchange_extends_chain:
  assumes "entry_from_exchange request response route_id realm now = Some e"
    and "map_of (hs_entries s) (he_response_id e) = None"
    and "s' = snd (record_exchange_with_context request_key request response route_id key realm now s)"
  shows "get_chain (he_response_id e) s' =
      (case he_previous_response_id e of None \<Rightarrow> [] | Some p \<Rightarrow> get_chain p s) @ [e] \<and>
    flatten_chain_items (get_chain (he_response_id e) s') items =
      (case he_previous_response_id e of None \<Rightarrow> [] | Some p \<Rightarrow> flatten_chain_items (get_chain p s) []) @
      he_input_items e @ he_output_items e @ items"
proof -
  have es: "hs_entries s' = AList.update (he_response_id e) e (hs_entries s)"
    using assms(1,3) by (simp add: record_exchange_with_context_def Let_def)
  have "walk_loop (hs_entries s') [] (Some (he_response_id e)) =
      e # walk_loop (hs_entries s) [] (he_previous_response_id e)"
    using walk_loop_fresh [OF assms(2), of "[he_response_id e]" "[]"] by (simp add: es update_conv walk_Some)
  then show ?thesis
    by (cases "he_previous_response_id e")
      (simp_all add: get_chain_def walk_chain_def flatten_chain_items_def exchange_items_def)
qed

section \<open>The head of a conversation\<close>

lemma map_of_reordered:
  assumes "mset es = mset es'" "distinct (map fst es)"
  shows "map_of es = map_of es'"
proof -
  have "mset (map fst es) = mset (map fst es')" unfolding mset_map assms(1) ..
  then have "distinct (map fst es')" using assms(2) mset_eq_imp_distinct_iff by blast
  from map_of_inject_set [OF assms(2) this] mset_eq_setD [OF assms(1)] show ?thesis by blast
qed

lemma walk_loop_map_of: "map_of es = map_of es' \<Longrightarrow> walk_loop es seen cur = walk_loop es' seen cur"
proof (induction es seen cur rule: walk_loop.induct)
  case (2 es seen i)
  show ?case
  proof (cases "i \<in> set seen \<or> map_of es i = None")
    case True
    with 2(2) show ?thesis by (auto simp: walk_Some)
  next
    case False
    then obtain e where "map_of es i = Some e" "i \<notin> set seen" by auto
    with 2 show ?thesis by (simp add: walk_Some)
  qed
qed simp

lemma set_map_filter: "set (List.map_filter f xs) = {y. \<exists>x \<in> set xs. f x = Some y}"
  by (force simp: List.map_filter_def image_iff)

lemma leaf_lookup_reordered:
  assumes "mset es = mset es'"
  shows "conversation_leaf_lookup es keys k route_id = conversation_leaf_lookup es' keys k route_id"
proof -
  define P where "P = (\<lambda>e. in_conversation keys k e \<and> (case route_id of None \<Rightarrow> True | Some r \<Rightarrow> he_route_id e = r))"
  define m where "m = (\<lambda>es :: entries. filter P (map snd es))"
  have m: "mset (m es) = mset (m es')" using assms by (simp add: m_def)
  then have s: "set (m es) = set (m es')" by (rule mset_eq_setD)
  then have refs: "set (List.map_filter he_previous_response_id (m es)) = set (List.map_filter he_previous_response_id (m es'))"
    by (simp add: set_map_filter)
  have "mset (map he_response_id (filter Q (m es))) = mset (map he_response_id (filter Q (m es')))" for Q
    using m by simp
  then have leaves: "sort (map he_response_id (filter Q (m es))) = sort (map he_response_id (filter Q (m es')))" for Q
    by (metis properties_for_sort mset_sort sorted_sort)
  have "m es = [] \<longleftrightarrow> m es' = []" using s by auto
  moreover define g where "g = (\<lambda>none leaves :: string list. if none then Missing
      else case leaves of [] \<Rightarrow> Missing | [head] \<Rightarrow> Unique head | _ \<Rightarrow> Ambiguous leaves)"
  have "conversation_leaf_lookup es keys k route_id = g (m es = []) (sort (map he_response_id
      (filter (\<lambda>e. he_response_id e \<notin> set (List.map_filter he_previous_response_id (m es))) (m es))))" for es
    by (simp only: conversation_leaf_lookup_def Let_def g_def m_def P_def)
  ultimately show ?thesis by (simp only: refs leaves)
qed

text \<open>
  The head of a conversation is never a matter of hash order: however the maps of the store are
  iterated, the lookup gives the same chain, the same miss or the same error.
\<close>

theorem conversation_head_deterministic:
  assumes "s = fold (history_step v) ops new_store" and "mset (hs_entries s) = mset (hs_entries s')"
    and "mset (hs_conversation_keys s) = mset (hs_conversation_keys s')"
  shows "latest_chain_for_conversation k route_id s' = latest_chain_for_conversation k route_id s"
proof -
  have inv: "store_inv s" unfolding assms(1) by (rule store_inv_reachable)
  have es: "map_of (hs_entries s) = map_of (hs_entries s')"
    using assms(2) inv by (intro map_of_reordered) (simp_all add: store_inv_def)
  have "map_of (hs_conversation_keys s) = map_of (hs_conversation_keys s')"
    using assms(3) inv by (intro map_of_reordered) (simp_all add: store_inv_def)
  then have "in_conversation (hs_conversation_keys s) = in_conversation (hs_conversation_keys s')"
    by (simp add: in_conversation_def fun_eq_iff)
  then have "conversation_leaf_lookup (hs_entries s) (hs_conversation_keys s) k route_id =
      conversation_leaf_lookup (hs_entries s') (hs_conversation_keys s') k route_id"
    using leaf_lookup_reordered [OF assms(2), of "hs_conversation_keys s'"]
    by (simp add: conversation_leaf_lookup_def)
  moreover have "walk_chain (hs_entries s) = walk_chain (hs_entries s')"
    by (simp add: fun_eq_iff walk_chain_def walk_loop_map_of [OF es])
  ultimately show ?thesis
    by (simp only: latest_chain_for_conversation_def chain_for_conversation_leaf_def)
qed

section \<open>Replay after a compaction\<close>

lemma replay_loop_skip:
  "\<forall>e \<in> set xs. journals_of (he_response_id e) s = [] \<Longrightarrow>
   replay_loop s (rev xs @ ys) after = replay_loop s ys (concat (map exchange_items xs) @ after)"
  by (induction xs arbitrary: ys after rule: rev_induct) (auto simp: journal_canonical_items_def last_opt_def)

lemma find_map_skip: "\<forall>x \<in> set xs. f x = None \<Longrightarrow> find_map f (xs @ ys) = find_map f ys"
  by (induction xs) auto

lemma last_opt_map: "last_opt (map f xs) = map_option f (last_opt xs)"
  by (simp add: last_opt_def last_map)

text \<open>
  C27: The replay after a compaction is exact: it is the installed window of the newest journal of the
  latest compacted response of the chain, followed by exactly the exchanges recorded after that
  response; the parent of the next compaction is the same journal.
\<close>

theorem compacted_replay_exact:
  assumes "get_chain head s = before @ e # after" and "journals_of (he_response_id e) s \<noteq> []"
    and "\<forall>x \<in> set after. journals_of (he_response_id x) s = []"
    and "j = last (journals_of (he_response_id e) s)"
  shows "compacted_replay_with_provenance head s =
      Some \<lparr>rp_items = cj_canonical_items j @ flatten_chain_items after [],
            rp_canonical_prefix_len = length (cj_canonical_items j),
            rp_parent_compaction_id = Some (cj_compaction_id j)\<rparr> \<and>
    compacted_replay_parent head s = Some (cj_compaction_id j)"
proof -
  have e: "journal_canonical_items (he_response_id e) s = Some (cj_canonical_items j)"
      "last_opt (compaction_ids_for_response (he_response_id e) s) = Some (cj_compaction_id j)"
    using assms(2,4)
    by (simp_all add: journal_canonical_items_def compaction_ids_for_response_def last_opt_def last_map)
  have "\<forall>x \<in> set (rev after). last_opt (compaction_ids_for_response (he_response_id x) s) = None"
    using assms(3) by (simp add: compaction_ids_for_response_def last_opt_def)
  note skip = find_map_skip [OF this]
  show ?thesis
    using e replay_loop_skip [OF assms(3), of "e # rev before" "[]"]
    by (simp add: compacted_replay_with_provenance_def compacted_replay_parent_def assms(1) skip flatten_chain_items_def)
qed

text \<open>
  The compaction named as parent is always the one whose window is replayed, also when the chain
  starts from a compaction id or from a compacted response that is not in the store.
\<close>

theorem replay_and_parent_agree:
  "compacted_replay_parent head s =
     Option.bind (compacted_replay_with_provenance head s) rp_parent_compaction_id"
proof -
  let ?f = "\<lambda>e. last_opt (compaction_ids_for_response (he_response_id e) s)"
  have j: "journal_canonical_items i s = None \<longleftrightarrow> last_opt (compaction_ids_for_response i s) = None" for i
    by (simp add: journal_canonical_items_def compaction_ids_for_response_def last_opt_def)
  have loop: "case replay_loop s xs after of
      Inl r \<Rightarrow> find_map ?f xs = rp_parent_compaction_id r \<and> find_map ?f xs \<noteq> None
    | Inr _ \<Rightarrow> find_map ?f xs = None" for xs after
  proof (induction xs arbitrary: after)
    case (Cons e xs)
    from Cons [of "exchange_items e @ after"] show ?case
      using j [of "he_response_id e"]
      by (cases "journal_canonical_items (he_response_id e) s") (auto split: option.splits sum.splits dest: sym)
  qed simp
  have root: "cj_compaction_id j = i" if "journal_record_for_compaction i s = Some j" for i j
    using that by (auto simp: journal_record_for_compaction_def find_Some_iff)
  note defs = compacted_replay_with_provenance_def compacted_replay_parent_def Let_def
  show ?thesis
  proof (cases "replay_loop s (rev (get_chain head s)) []")
    case (Inl r)
    with loop [of "rev (get_chain head s)" "[]"] obtain y where
      "find_map ?f (rev (get_chain head s)) = Some y" "rp_parent_compaction_id r = Some y"
      by (auto dest: sym)
    with Inl show ?thesis by (simp add: defs)
  next
    case (Inr after)
    with loop [of "rev (get_chain head s)" "[]"] j root show ?thesis
      by (auto simp: defs split: option.splits)
  qed
qed

section \<open>Local compactions\<close>

lemma find_only:
  assumes "j \<in> set xs" "P j" "\<forall>x \<in> set xs. P x \<longrightarrow> x = j"
  shows "List.find P xs = Some j"
proof (cases "List.find P xs")
  case None
  with assms(1,2) show ?thesis by (auto simp: find_None_iff)
next
  case (Some y)
  then have "y \<in> set xs" "P y" by (auto simp: find_Some_iff)
  with assms(3) Some show ?thesis by blast
qed

lemma update_elements: "(k, v) \<in> set (AList.update k v xs) \<and> set (AList.update k v xs) \<subseteq> insert (k, v) (set xs)"
  by (induction xs) auto

lemma recorded_journal_found:
  assumes fresh: "journal_record_for_compaction (jr_compaction_id r) s = None"
  shows "journal_record_for_compaction (jr_compaction_id r) (record_compaction_record now r s) = Some (from_record now r)"
proof -
  let ?s = "record_compaction_record now r s"
  let ?j = "from_record now r"
  let ?J = "journals_of (jr_response_id r) s @ [?j]"
  have up: "hs_journals ?s = AList.update (jr_response_id r) ?J (hs_journals s)"
    by (simp add: record_compaction_record_def)
  show ?thesis unfolding journal_record_for_compaction_def
  proof (rule find_only)
    have "(jr_response_id r, ?J) \<in> set (hs_journals ?s)" unfolding up using update_elements by fast
    then show "?j \<in> set (concat (map snd (hs_journals ?s)))" by force
    show "cj_compaction_id ?j = jr_compaction_id r" by (simp add: from_record_def)
    show "\<forall>x \<in> set (concat (map snd (hs_journals ?s))). cj_compaction_id x = jr_compaction_id r \<longrightarrow> x = ?j"
    proof (intro ballI impI)
      fix x assume "x \<in> set (concat (map snd (hs_journals ?s)))" and x: "cj_compaction_id x = jr_compaction_id r"
      then obtain i xs where i: "(i, xs) \<in> set (hs_journals ?s)" "x \<in> set xs" by auto
      have old: "y \<notin> set ys \<or> cj_compaction_id y \<noteq> jr_compaction_id r" if "(i, ys) \<in> set (hs_journals s)" for i y ys
        using fresh that by (fastforce simp: journal_record_for_compaction_def find_None_iff)
      have "x \<notin> set (journals_of (jr_response_id r) s)"
        using old [OF journals_of_in, of "jr_response_id r" x] x by (cases "journals_of (jr_response_id r) s") auto
      moreover have "(i, xs) = (jr_response_id r, ?J) \<or> (i, xs) \<in> set (hs_journals s)"
        using i(1) update_elements [of "jr_response_id r" ?J "hs_journals s"] unfolding up by fast
      ultimately show "x = ?j" using i(2) x old by auto
    qed
  qed
qed

text \<open>
  A local compaction is stored only intact, and then it is what a follow-up finds: a record whose
  hashes do not match its items, or of an unknown schema or engine, is refused and nothing changes; an
  accepted one becomes the newest journal of its response, and a fresh compaction id resolves to its
  replacement.
\<close>

theorem local_compaction_recorded:
  assumes "record_local_compaction sha print now r s = (res, s')"
  shows "(case res of
      Inl _ \<Rightarrow> s' = s
    | Inr _ \<Rightarrow>
        lcr_engine_id r \<noteq> [] \<and> lcr_source_hash r = hash_items sha print (lcr_source_items r) \<and>
        lcr_replacement_hash r = hash_items sha print (lcr_replacement_items r) \<and>
        journal_canonical_items (lcr_response_id r) s' = Some (lcr_replacement_items r) \<and>
        (journal_record_for_compaction (lcr_compaction_id r) s = None \<longrightarrow>
           canonical_items_for_compaction (lcr_compaction_id r) s' = Some (lcr_replacement_items r)))"
proof (cases "validate_local sha print r")
  case (Inl e)
  with assms have "res = Inl e" "s' = s" by (simp_all add: record_local_compaction_def)
  then show ?thesis by simp
next
  case (Inr u)
  let ?j = "from_record now (into_storage_record r)"
  have s': "s' = record_compaction_record now (into_storage_record r) s" and res: "res = Inr ()"
    using assms Inr by (auto simp: record_local_compaction_def)
  have js: "journals_of (lcr_response_id r) s' = journals_of (lcr_response_id r) s @ [?j]"
    by (simp add: s' record_compaction_record_def into_storage_record_def journals_of_def [of _ "_\<lparr>hs_journals := _\<rparr>"] update_conv)
  have j: "cj_canonical_items ?j = lcr_replacement_items r" "cj_compaction_id ?j = lcr_compaction_id r"
    by (simp_all add: from_record_def into_storage_record_def)
  have "journal_record_for_compaction (lcr_compaction_id r) s' = Some ?j"
    if "journal_record_for_compaction (lcr_compaction_id r) s = None"
    using recorded_journal_found [of "into_storage_record r" s now] that by (simp add: s' into_storage_record_def)
  then show ?thesis
    using Inr res js j
    by (auto simp: validate_local_def journal_canonical_items_def canonical_items_for_compaction_def
        journal_record_for_compaction_def last_opt_def split: if_splits)
qed

section \<open>The store in a file\<close>

text \<open>
  \<open>FileHistoryStore\<close> keeps the same maps and writes all of them, one JSON value per line, after every
  change; opening it reads the lines back. The derived serializers of entries and journals are
  fields of a codec.
\<close>

record history_codec =
  print_entry :: "history_entry \<Rightarrow> string"
  parse_entry :: "string \<Rightarrow> history_entry option"
  journal_value :: "compaction_journal \<Rightarrow> json"
  journal_from_value :: "json \<Rightarrow> compaction_journal option"
  print_value :: "json \<Rightarrow> string"
  parse_value :: "string \<Rightarrow> json option"

definition wrapped_journal :: "history_codec \<Rightarrow> compaction_journal \<Rightarrow> json" where
  "wrapped_journal c j = JObject [(''kind'', JString ''compaction''), (''journal'', journal_value c j)]"

definition wrapped_key :: "string \<Rightarrow> string \<Rightarrow> json" where
  "wrapped_key i k =
     JObject [(''kind'', JString ''conversation_key''), (''response_id'', JString i), (''conversation_key'', JString k)]"

definition stored_lines :: "history_codec \<Rightarrow> memory_history_store \<Rightarrow> string list" where
  "stored_lines c s =
     map (\<lambda>(_, e). print_entry c e) (hs_entries s)
     @ map (\<lambda>j. print_value c (wrapped_journal c j)) (concat (map snd (hs_journals s)))
     @ map (\<lambda>(i, k). print_value c (wrapped_key i k)) (hs_conversation_keys s)"

definition persist_locked :: "history_codec \<Rightarrow> memory_history_store \<Rightarrow> string" where
  "persist_locked c s = concat (map (\<lambda>l. l @ [CHR 0x0A]) (stored_lines c s))"

datatype open_error = ParseLine nat | ParseJournal nat | UnrecognizedLine nat

definition load_line :: "history_codec \<Rightarrow> nat \<Rightarrow> string \<Rightarrow> memory_history_store \<Rightarrow> open_error + memory_history_store" where
  "load_line c n line s =
     (if trim line = [] then Inr s
      else case parse_entry c line of
        Some e \<Rightarrow> Inr (s\<lparr>hs_entries := AList.update (he_response_id e) e (hs_entries s)\<rparr>)
      | None \<Rightarrow>
          (case parse_value c line of
             None \<Rightarrow> Inl (ParseLine n)
           | Some wrapped \<Rightarrow>
               if get_str wrapped ''kind'' = Some ''compaction'' then
                 (case journal_from_value c (case json_get wrapped ''journal'' of Some v \<Rightarrow> v | None \<Rightarrow> JNull) of
                    None \<Rightarrow> Inl (ParseJournal n)
                  | Some j \<Rightarrow>
                      Inr (s\<lparr>hs_journals := AList.update (cj_response_id j) (journals_of (cj_response_id j) s @ [j])
                               (hs_journals s)\<rparr>))
               else if get_str wrapped ''kind'' = Some ''conversation_key'' then
                 (let i = (case get_str wrapped ''response_id'' of Some i \<Rightarrow> i | None \<Rightarrow> []);
                      k = (case get_str wrapped ''conversation_key'' of Some k \<Rightarrow> k | None \<Rightarrow> [])
                  in Inr (if i \<noteq> [] \<and> k \<noteq> []
                          then s\<lparr>hs_conversation_keys := AList.update i k (hs_conversation_keys s)\<rparr> else s))
               else Inl (UnrecognizedLine n)))"

fun load_lines :: "history_codec \<Rightarrow> nat \<Rightarrow> string list \<Rightarrow> memory_history_store \<Rightarrow> open_error + memory_history_store" where
  "load_lines c n [] s = Inr s"
| "load_lines c n (line # ls) s =
     (case load_line c n line s of Inl e \<Rightarrow> Inl e | Inr s' \<Rightarrow> load_lines c (Suc n) ls s')"

definition open_store :: "history_codec \<Rightarrow> string option \<Rightarrow> open_error + memory_history_store" where
  "open_store c raw =
     (case raw of None \<Rightarrow> Inr new_store | Some text \<Rightarrow> load_lines c 1 (lines text) new_store)"

text \<open>
  The operations on a file store: those of the memory store, followed by a write of the whole file
  unless the operation returns before it (an exchange without an id, a refused compaction).
\<close>

fun writes_file :: "history_env \<Rightarrow> history_op \<Rightarrow> bool" where
  "writes_file v (RecordExchange request response route_id key realm now) \<longleftrightarrow>
     entry_from_exchange request response route_id realm now \<noteq> None"
| "writes_file v (RecordCompaction now r) \<longleftrightarrow> True"
| "writes_file v (RecordLocal now r) \<longleftrightarrow> (case validate_local (hv_sha v) (hv_print v) r of Inl _ \<Rightarrow> False | Inr _ \<Rightarrow> True)"

definition file_step ::
  "history_codec \<Rightarrow> history_env \<Rightarrow> history_op \<Rightarrow> memory_history_store \<times> string option \<Rightarrow>
     memory_history_store \<times> string option"
where
  "file_step c v op = (\<lambda>(s, file).
     (history_step v op s, if writes_file v op then Some (persist_locked c (history_step v op s)) else file))"

lemma step_without_write: "\<not> writes_file v op \<Longrightarrow> history_step v op s = s"
  by (cases op) (auto simp: record_exchange_with_context_def record_local_compaction_def split: sum.splits)

section \<open>A restart keeps the store\<close>

text \<open>What reading a store back needs of the serializers.\<close>

definition faithful_line :: "string \<Rightarrow> bool" where
  "faithful_line l \<longleftrightarrow> single_line l \<and> trim l \<noteq> []"

definition faithful_value :: "history_codec \<Rightarrow> json \<Rightarrow> bool" where
  "faithful_value c v \<longleftrightarrow>
     faithful_line (print_value c v) \<and> parse_entry c (print_value c v) = None \<and> parse_value c (print_value c v) = Some v"

definition faithful_codec :: "history_codec \<Rightarrow> memory_history_store \<Rightarrow> bool" where
  "faithful_codec c s \<longleftrightarrow>
     list_all (\<lambda>(_, e). faithful_line (print_entry c e) \<and> parse_entry c (print_entry c e) = Some e) (hs_entries s) \<and>
     list_all (\<lambda>j. faithful_value c (wrapped_journal c j) \<and> journal_from_value c (journal_value c j) = Some j)
       (concat (map snd (hs_journals s))) \<and>
     list_all (\<lambda>(i, k). faithful_value c (wrapped_key i k)) (hs_conversation_keys s)"

definition add_entry :: "history_entry \<Rightarrow> memory_history_store \<Rightarrow> memory_history_store" where
  "add_entry e s = s\<lparr>hs_entries := AList.update (he_response_id e) e (hs_entries s)\<rparr>"

definition add_journal :: "compaction_journal \<Rightarrow> memory_history_store \<Rightarrow> memory_history_store" where
  "add_journal j s =
     s\<lparr>hs_journals := AList.update (cj_response_id j) (journals_of (cj_response_id j) s @ [j]) (hs_journals s)\<rparr>"

definition add_key :: "string \<times> string \<Rightarrow> memory_history_store \<Rightarrow> memory_history_store" where
  "add_key ik s = s\<lparr>hs_conversation_keys := AList.update (fst ik) (snd ik) (hs_conversation_keys s)\<rparr>"

lemma load_entry:
  "faithful_line (print_entry c e) \<and> parse_entry c (print_entry c e) = Some e \<Longrightarrow>
   load_line c n (print_entry c e) s = Inr (add_entry e s)"
  by (simp add: load_line_def add_entry_def faithful_line_def)

lemma load_journal:
  "faithful_value c (wrapped_journal c j) \<and> journal_from_value c (journal_value c j) = Some j \<Longrightarrow>
   load_line c n (print_value c (wrapped_journal c j)) s = Inr (add_journal j s)"
  by (simp add: load_line_def add_journal_def faithful_value_def faithful_line_def)
    (simp add: wrapped_journal_def get_str_def)

lemma load_key:
  "faithful_value c (wrapped_key i k) \<Longrightarrow> i \<noteq> [] \<Longrightarrow> k \<noteq> [] \<Longrightarrow>
   load_line c n (print_value c (wrapped_key i k)) s = Inr (add_key (i, k) s)"
  by (simp add: load_line_def add_key_def faithful_value_def faithful_line_def)
    (simp add: wrapped_key_def get_str_def)

lemma load_lines_append:
  "load_lines c n (xs @ ys) s =
     (case load_lines c n xs s of Inl e \<Rightarrow> Inl e | Inr s' \<Rightarrow> load_lines c (n + length xs) ys s')"
  by (induction xs arbitrary: n s) (auto split: sum.splits)

lemma load_lines_fold:
  "(\<And>n x s. x \<in> set xs \<Longrightarrow> load_line c n (f x) s = Inr (g x s)) \<Longrightarrow> load_lines c n (map f xs) s = Inr (fold g xs s)"
  by (induction xs arbitrary: n s) auto

lemma update_new: "k \<notin> fst ` set xs \<Longrightarrow> AList.update k v xs = xs @ [(k, v)]"
  by (induction xs) auto

lemma update_end: "k \<notin> fst ` set xs \<Longrightarrow> AList.update k v (xs @ [(k, w)]) = xs @ [(k, v)]"
  by (induction xs) auto

lemma fold_add_entry:
  "distinct (map he_response_id es) \<Longrightarrow> he_response_id ` set es \<inter> fst ` set (hs_entries s) = {} \<Longrightarrow>
   fold add_entry es s = s\<lparr>hs_entries := hs_entries s @ map (\<lambda>e. (he_response_id e, e)) es\<rparr>"
proof (induction es arbitrary: s)
  case (Cons e es)
  have "add_entry e s = s\<lparr>hs_entries := hs_entries s @ [(he_response_id e, e)]\<rparr>"
    using Cons.prems by (simp add: add_entry_def update_new)
  with Cons show ?case by (simp add: image_iff)
qed simp

lemma fold_add_key:
  "distinct (map fst ks) \<Longrightarrow> fst ` set ks \<inter> fst ` set (hs_conversation_keys s) = {} \<Longrightarrow>
   fold add_key ks s = s\<lparr>hs_conversation_keys := hs_conversation_keys s @ ks\<rparr>"
proof (induction ks arbitrary: s)
  case (Cons k ks)
  have "add_key k s = s\<lparr>hs_conversation_keys := hs_conversation_keys s @ [k]\<rparr>"
    using Cons.prems by (simp add: add_key_def update_new)
  with Cons show ?case by (auto simp: image_iff)
qed simp

lemma map_of_end: "k \<notin> fst ` set xs \<Longrightarrow> ([k \<mapsto> v] ++ map_of xs) k = Some v"
  by (simp add: map_add_Some_iff map_of_eq_None_iff)

lemma fold_add_journals_one:
  "\<forall>j \<in> set js. cj_response_id j = i \<Longrightarrow> i \<notin> fst ` set xs \<Longrightarrow>
   fold add_journal js (s\<lparr>hs_journals := xs @ [(i, prior)]\<rparr>) = s\<lparr>hs_journals := xs @ [(i, prior @ js)]\<rparr>"
proof (induction js arbitrary: prior)
  case (Cons j js)
  have "add_journal j (s\<lparr>hs_journals := xs @ [(i, prior)]\<rparr>) = s\<lparr>hs_journals := xs @ [(i, prior @ [j])]\<rparr>"
    using Cons.prems by (simp add: add_journal_def journals_of_def map_of_end update_end)
  with Cons show ?case by simp
qed simp

lemma fold_add_journals:
  "\<forall>(i, js) \<in> set jss. js \<noteq> [] \<and> (\<forall>j \<in> set js. cj_response_id j = i) \<Longrightarrow>
   distinct (map fst jss) \<Longrightarrow> fst ` set jss \<inter> fst ` set (hs_journals s) = {} \<Longrightarrow>
   fold add_journal (concat (map snd jss)) s = s\<lparr>hs_journals := hs_journals s @ jss\<rparr>"
proof (induction jss arbitrary: s)
  case (Cons ijs jss)
  obtain i j js where ijs: "ijs = (i, j # js)" using Cons.prems(1) by (cases ijs; cases "snd ijs") auto
  have i: "i \<notin> fst ` set (hs_journals s)" using Cons.prems(3) ijs by auto
  have "add_journal j s = s\<lparr>hs_journals := hs_journals s @ [(i, [j])]\<rparr>"
    using Cons.prems(1) ijs i map_of_eq_None_iff [of "hs_journals s" i]
    by (simp add: add_journal_def journals_of_def update_new)
  then have "fold add_journal (j # js) s = s\<lparr>hs_journals := hs_journals s @ [(i, j # js)]\<rparr>"
    using fold_add_journals_one [of js i "hs_journals s", where s = s and prior = "[j]"] Cons.prems(1) ijs i by simp
  moreover have "fold add_journal (concat (map snd jss)) (s\<lparr>hs_journals := hs_journals s @ [(i, j # js)]\<rparr>) =
      s\<lparr>hs_journals := (hs_journals s @ [(i, j # js)]) @ jss\<rparr>"
    using Cons.prems ijs by (subst Cons.IH) (auto simp: image_iff)
  ultimately show ?case by (simp add: ijs)
qed simp

text \<open>Keys and ids that are stored are not empty.\<close>

definition keys_ok :: "memory_history_store \<Rightarrow> bool" where
  "keys_ok s \<longleftrightarrow> (\<forall>(i, k) \<in> set (hs_conversation_keys s). i \<noteq> [] \<and> k \<noteq> [])"

lemma nonblank_str_nonempty: "nonblank_str v k = Some s \<Longrightarrow> s \<noteq> []"
  by (auto simp: nonblank_str_def trim_def chars.simps drop_end_while_def split: option.splits if_splits)

lemma keys_ok_exchange:
  assumes "keys_ok s" "\<forall>x. request_key x \<noteq> Some []"
  shows "keys_ok (snd (record_exchange_with_context request_key request response route_id key realm now s))"
proof (cases "entry_from_exchange request response route_id realm now")
  case (Some e)
  let ?keys = "hs_conversation_keys s"
  have i: "he_response_id e \<noteq> []"
    using Some by (auto simp: entry_from_exchange_def dest: nonblank_str_nonempty)
  have "map_of ?keys p \<noteq> Some []" for p using assms(1) by (auto simp: keys_ok_def dest!: map_of_SomeD)
  then have inherited: "inherit_conversation_key request_key request p ?keys \<noteq> Some []" for p
    using assms(2) by (cases p) (auto simp: inherit_conversation_key_def or_else_def split: option.splits)
  have upd: "\<forall>(i, k) \<in> set (AList.update (he_response_id e) k ?keys). i \<noteq> [] \<and> k \<noteq> []" if "k \<noteq> []" for k
    using assms(1) i that update_elements [of "he_response_id e" k ?keys] by (fastforce simp: keys_ok_def)
  have trim: "trim [] = []" by (simp add: trim_def chars.simps drop_end_while_def)
  define k' where "k' = or_else (case key of Some k \<Rightarrow> if trim k = [] then None else Some k | None \<Rightarrow> None)
    (inherit_conversation_key request_key request (he_previous_response_id e) ?keys)"
  have k': "k' \<noteq> Some []" using inherited trim by (auto simp: k'_def or_else_def split: option.splits)
  have "hs_conversation_keys (snd (record_exchange_with_context request_key request response route_id key realm now s)) =
      (case k' of Some k \<Rightarrow> AList.update (he_response_id e) k ?keys | None \<Rightarrow> ?keys)"
    using Some by (simp add: record_exchange_with_context_def Let_def k'_def)
  with k' assms(1) upd show ?thesis unfolding keys_ok_def by (cases k') auto
qed (use assms in \<open>simp add: record_exchange_with_context_def\<close>)

lemma keys_ok_step:
  assumes "keys_ok s" "\<forall>x. hv_request_key v x \<noteq> Some []"
  shows "keys_ok (history_step v op s)"
proof (cases op)
  case (RecordExchange request response route_id key realm now)
  then show ?thesis using keys_ok_exchange [OF assms] by simp
next
  case (RecordLocal now r)
  with assms(1) show ?thesis
    by (simp add: keys_ok_def record_local_compaction_def record_compaction_record_def split: sum.splits)
qed (use assms(1) in \<open>simp add: keys_ok_def record_compaction_record_def\<close>)

lemma open_persisted:
  assumes "faithful_codec c s" "store_inv s" "keys_ok s"
  shows "open_store c (Some (persist_locked c s)) = Inr s"
proof -
  note c = assms(1) [unfolded faithful_codec_def list_all_iff]
  have "list_all single_line (stored_lines c s)"
    using c by (auto simp: stored_lines_def list_all_iff faithful_value_def faithful_line_def)
  then have lines: "lines (persist_locked c s) = stored_lines c s"
    unfolding persist_locked_def by (rule lines_of_terminated)
  let ?es = "map snd (hs_entries s)"
  have es: "map (\<lambda>e. (he_response_id e, e)) ?es = hs_entries s" "map he_response_id ?es = map fst (hs_entries s)"
    using assms(2) by (auto simp: store_inv_def intro!: map_idI)
  have "load_lines c n (map (\<lambda>(_, e). print_entry c e) (hs_entries s)) s0 =
      Inr (fold (\<lambda>(_, e). add_entry e) (hs_entries s) s0)" for n s0
    by (rule load_lines_fold) (use c load_entry in \<open>fastforce simp: case_prod_unfold\<close>)
  moreover have "fold (\<lambda>(_, e). add_entry e) (hs_entries s) new_store = new_store\<lparr>hs_entries := hs_entries s\<rparr>"
  proof -
    have "distinct (map he_response_id ?es)" unfolding es(2) using assms(2) by (simp add: store_inv_def)
    from fold_add_entry [OF this, of new_store] es(1) show ?thesis
      by (simp add: new_store_def fold_map o_def case_prod_unfold)
  qed
  moreover have "load_lines c n (map (\<lambda>j. print_value c (wrapped_journal c j)) (concat (map snd (hs_journals s)))) s0 =
      Inr (fold add_journal (concat (map snd (hs_journals s))) s0)" for n s0
    by (rule load_lines_fold) (use c load_journal in blast)
  moreover have "load_lines c n (map (\<lambda>(i, k). print_value c (wrapped_key i k)) (hs_conversation_keys s)) s0 =
      Inr (fold add_key (hs_conversation_keys s) s0)" for n s0
    by (rule load_lines_fold) (use c assms(3) load_key in \<open>fastforce simp: keys_ok_def\<close>)
  ultimately show ?thesis
    using assms(2)
    by (simp add: open_store_def lines stored_lines_def load_lines_append fold_add_journals fold_add_key store_inv_def new_store_def)
qed

text \<open>
  C11: A restart keeps the history: if the file store was created empty and any exchanges and compactions
  were recorded, opening its file yields exactly the maps that were in memory, each response with its
  journals in order. The serializers need only read back what they wrote for the stored values.
\<close>

theorem file_store_survives_restart:
  assumes "\<forall>x. hv_request_key v x \<noteq> Some []"
    and "(s, f) = fold (file_step c v) ops (new_store, None)" and "faithful_codec c s"
  shows "open_store c f = Inr s"
proof -
  have "store_inv s \<and> keys_ok s \<and> (f = Some (persist_locked c s) \<or> f = None \<and> s = new_store)"
    using assms(2)
  proof (induction ops arbitrary: s f rule: rev_induct)
    case Nil
    then show ?case by (simp add: store_inv_def new_store_def keys_ok_def)
  next
    case (snoc op ops)
    obtain s0 f0 where run: "(s0, f0) = fold (file_step c v) ops (new_store, None)" by (metis prod.exhaust)
    note IH = snoc.IH [OF run]
    have "(s, f) = file_step c v op (s0, f0)" using snoc.prems run [symmetric] by simp
    then have s: "s = history_step v op s0" "f = (if writes_file v op then Some (persist_locked c s) else f0)"
      by (simp_all add: file_step_def)
    have "store_inv s" unfolding s(1) by (rule store_inv_step) (use IH in simp)
    moreover have "keys_ok s" unfolding s(1) by (rule keys_ok_step) (use IH assms(1) in simp_all)
    ultimately show ?case
      using IH s step_without_write [of v op s0] by auto
  qed
  with assms(3) open_persisted show ?thesis by (auto simp: open_store_def)
qed

section \<open>Examples\<close>

definition plain_exchange :: "string \<Rightarrow> string option \<Rightarrow> history_op" where
  "plain_exchange i previous =
     RecordExchange (JObject (case previous of Some p \<Rightarrow> [(''previous_response_id'', JString p)] | None \<Rightarrow> []))
       (JObject [(''id'', JString i)]) ''route'' None None 0"

definition plain_env :: history_env where
  "plain_env = \<lparr>hv_sha = (\<lambda>x. x), hv_print = (\<lambda>_. []), hv_request_key = (\<lambda>_. Some ''k'')\<rparr>"

text \<open>Two responses that continue each other: the walk ends.\<close>

theorem walk_chain_exact_witness:
  "let s = fold (history_step plain_env) [plain_exchange ''a'' (Some ''b''), plain_exchange ''b'' (Some ''a'')] new_store in
   map he_response_id (get_chain ''b'' s) = [''a'', ''b''] \<and> distinct (map he_response_id (get_chain ''b'' s))"
proof -
  let ?s = "fold (history_step plain_env) [plain_exchange ''a'' (Some ''b''), plain_exchange ''b'' (Some ''a'')] new_store"
  have "map he_response_id (get_chain ''b'' ?s) = [''a'', ''b'']" by code_simp
  with walk_chain_exact [OF refl refl, where v = plain_env and head = "''b''" and
      ops = "[plain_exchange ''a'' (Some ''b''), plain_exchange ''b'' (Some ''a'')]"]
  show ?thesis unfolding Let_def by blast
qed

theorem compacted_replay_exact_witness:
  "let s = fold (history_step plain_env) [plain_exchange ''a'' None, plain_exchange ''b'' (Some ''a'')] new_store;
       s' = record_compaction (\<lambda>x. x) (\<lambda>_. []) 0 ''a'' ''c'' 1 [JNull] s
   in compacted_replay_parent ''b'' s' = Some ''c''"
proof -
  define s where "s = fold (history_step plain_env) [plain_exchange ''a'' None, plain_exchange ''b'' (Some ''a'')] new_store"
  define s' where "s' = record_compaction (\<lambda>x. x) (\<lambda>_. []) 0 ''a'' ''c'' 1 [JNull] s"
  obtain e x where chain: "get_chain ''b'' s' = [] @ e # [x]" and ids: "he_response_id e = ''a''" "he_response_id x = ''b''"
  proof
    show "get_chain ''b'' s' = [] @ hd (get_chain ''b'' s') # [last (get_chain ''b'' s')]" unfolding s'_def s_def by code_simp
    show "he_response_id (hd (get_chain ''b'' s')) = ''a''" unfolding s'_def s_def by code_simp
    show "he_response_id (last (get_chain ''b'' s')) = ''b''" unfolding s'_def s_def by code_simp
  qed
  have js: "map cj_compaction_id (journals_of ''a'' s') = [''c'']" "journals_of ''b'' s' = []"
    unfolding s'_def s_def by code_simp+
  then have "cj_compaction_id (last (journals_of ''a'' s')) = ''c''" by auto
  moreover have "journals_of (he_response_id e) s' \<noteq> []" "\<forall>y \<in> set [x]. journals_of (he_response_id y) s' = []"
    using js ids by auto
  ultimately have "compacted_replay_parent ''b'' s' = Some ''c''"
    using compacted_replay_exact [OF chain _ _ refl] ids by simp
  then show ?thesis unfolding Let_def s'_def s_def .
qed

definition table_codec :: "memory_history_store \<Rightarrow> history_codec" where
  "table_codec s =
     \<lparr>print_entry = (\<lambda>e. CHR ''e'' # he_response_id e),
      parse_entry = (\<lambda>l. case l of x # i \<Rightarrow> if x = CHR ''e'' then map_of (hs_entries s) i else None | [] \<Rightarrow> None),
      journal_value = (\<lambda>_. JNull), journal_from_value = (\<lambda>_. None),
      print_value = (\<lambda>v. CHR ''k'' # (case get_str v ''response_id'' of Some i \<Rightarrow> i | None \<Rightarrow> [])),
      parse_value = (\<lambda>l. case l of x # i \<Rightarrow> map_option (wrapped_key i) (map_of (hs_conversation_keys s) i) | [] \<Rightarrow> None)\<rparr>"

theorem file_store_survives_restart_witness:
  "let s = fold (history_step plain_env) [plain_exchange ''a'' None, plain_exchange ''b'' (Some ''a'')] new_store in
   open_store (table_codec s) (snd (fold (file_step (table_codec s) plain_env)
     [plain_exchange ''a'' None, plain_exchange ''b'' (Some ''a'')] (new_store, None))) = Inr s"
proof -
  define ops where "ops = [plain_exchange ''a'' None, plain_exchange ''b'' (Some ''a'')]"
  define s where "s = fold (history_step plain_env) ops new_store"
  have run: "(s, snd (fold (file_step (table_codec s) plain_env) ops (new_store, None))) =
      fold (file_step (table_codec s) plain_env) ops (new_store, None)"
    by (simp add: s_def ops_def file_step_def)
  have "\<forall>x. hv_request_key plain_env x \<noteq> Some []" by (simp add: plain_env_def)
  moreover have "faithful_codec (table_codec s) s" unfolding s_def ops_def by code_simp
  ultimately show ?thesis
    using file_store_survives_restart [OF _ run] unfolding Let_def s_def ops_def by blast
qed

end
