(* ===== verification/Replay.thy ===== *)
theory Replay
  imports History
begin

text \<open>
  Replaying the history into a request (\<open>replay.rs\<close>, \<open>continuation.rs\<close>, \<open>recovery_policy.rs\<close>, parts of
  \<open>compaction.rs\<close>, \<open>route.rs\<close> and \<open>adapter.rs\<close> of \<open>crates/vellum-proxy-runtime/src\<close>): how a turn continues,
  which stored items are prepended to its input and under which identities, what becomes of the
  markers of a compaction, and the checks a Chat transcript has to pass before it is sent.
  \<open>Value::to_string\<close> is the argument \<open>print\<close>.
\<close>

section \<open>Continuation mode and recovery policy\<close>

datatype continuation_mode = ServerPreviousResponseId | StatelessEncryptedReplay | PortableSemanticReplay

datatype provider_kind = Official | OpenAiCompatible | GrokCli

record route_continuation_decision =
  cd_mode :: continuation_mode
  cd_same_route :: bool
  cd_store_enabled :: bool

definition get_bool :: "json \<Rightarrow> string \<Rightarrow> bool option" where
  "get_bool v k = (case json_get v k of Some (JBool b) \<Rightarrow> Some b | _ \<Rightarrow> None)"

definition request_disables_server_store :: "json \<Rightarrow> bool" where
  "request_disables_server_store request \<longleftrightarrow>
     get_bool request ''store'' = Some False \<or>
     (case json_get request ''metadata'' of
        Some (JObject kvs) \<Rightarrow>
          list_ex (\<lambda>k. get_bool (JObject kvs) k = Some True) [''zdr'', ''zero_data_retention'', ''stateless'']
      | _ \<Rightarrow> False)"

definition ensure_encrypted_reasoning_include :: "json \<Rightarrow> json" where
  "ensure_encrypted_reasoning_include request =
     (case request of
        JObject kvs \<Rightarrow>
          JObject (case map_of kvs ''include'' of
            None \<Rightarrow> obj_insert ''include'' (JArray [JString ''reasoning.encrypted_content'']) kvs
          | Some (JArray xs) \<Rightarrow>
              if list_ex (\<lambda>x. json_as_str x = Some ''reasoning.encrypted_content'') xs then kvs
              else obj_insert ''include'' (JArray (xs @ [JString ''reasoning.encrypted_content''])) kvs
          | Some _ \<Rightarrow> obj_insert ''include'' (JArray [JString ''reasoning.encrypted_content'']) kvs)
      | _ \<Rightarrow> request)"

definition resolve_continuation ::
  "string \<Rightarrow> provider_kind \<Rightarrow> json \<Rightarrow> string option \<Rightarrow> route_continuation_decision"
where
  "resolve_continuation route_id kind request previous_route_id =
     (let same_route = (case previous_route_id of Some p \<Rightarrow> p = route_id | None \<Rightarrow> True) in
      \<lparr>cd_mode = (if same_route \<and> kind = Official then ServerPreviousResponseId else PortableSemanticReplay),
       cd_same_route = same_route, cd_store_enabled = \<not> request_disables_server_store request\<rparr>)"

record recovery_policy =
  rc_task_stall :: bool
  rc_task_efficiency :: bool
  rc_investigation_recovery :: bool

definition POLICY_DISABLED :: recovery_policy where
  "POLICY_DISABLED = \<lparr>rc_task_stall = False, rc_task_efficiency = False, rc_investigation_recovery = False\<rparr>"

definition POLICY_ENABLED :: recovery_policy where
  "POLICY_ENABLED = \<lparr>rc_task_stall = True, rc_task_efficiency = True, rc_investigation_recovery = True\<rparr>"

definition resolve_recovery_policy :: "provider_kind \<Rightarrow> recovery_policy" where
  "resolve_recovery_policy kind = (case kind of Official \<Rightarrow> POLICY_DISABLED | _ \<Rightarrow> POLICY_ENABLED)"

section \<open>Outcome and context\<close>

record hydration_outcome =
  ho_replayed_prefix_len :: nat
  ho_suffix_start :: nat
  ho_suffix_end :: nat
  ho_continuation_mode :: continuation_mode
  ho_client_carried_full_history :: bool
  ho_overlap_skipped :: nat
  ho_same_route :: bool
  ho_item_identities :: "string list"

record replay_context =
  rx_prefix_len :: nat
  rx_suffix_start :: nat
  rx_suffix_end :: nat
  rx_continuation_mode :: continuation_mode
  rx_client_carried_full_history :: bool
  rx_overlap_skipped :: nat
  rx_allow_reasoning_replay :: bool
  rx_compaction_repairs :: nat
  rx_same_route :: bool
  rx_item_identities :: "string list"

definition USIZE_MAX :: nat where
  "USIZE_MAX = 2 ^ 64 - 1"

definition default_replay_context :: replay_context where
  "default_replay_context =
     \<lparr>rx_prefix_len = 0, rx_suffix_start = 0, rx_suffix_end = USIZE_MAX, rx_continuation_mode = PortableSemanticReplay,
      rx_client_carried_full_history = False, rx_overlap_skipped = 0, rx_allow_reasoning_replay = True,
      rx_compaction_repairs = 0, rx_same_route = True, rx_item_identities = []\<rparr>"

definition stored_item_identity :: "string \<Rightarrow> string \<Rightarrow> nat \<Rightarrow> string" where
  "stored_item_identity response_id part index = ''store:'' @ response_id @ '':'' @ part @ '':'' @ show_nat index"

definition request_item_identity :: "nat \<Rightarrow> string" where
  "request_item_identity index = ''req:'' @ show_nat index"

definition journal_item_identity :: "string \<Rightarrow> nat \<Rightarrow> string" where
  "journal_item_identity compaction_id index = ''journal:'' @ compaction_id @ '':'' @ show_nat index"

definition checkpoint_item_identity :: "string \<Rightarrow> nat \<Rightarrow> string" where
  "checkpoint_item_identity compaction_id index = ''checkpoint:'' @ compaction_id @ '':'' @ show_nat index"

definition assert_input_identity_len :: "nat \<Rightarrow> string list \<Rightarrow> string + unit" where
  "assert_input_identity_len input_len identities =
     (if input_len \<noteq> length identities
      then Inl (''internal protocol error: input length '' @ show_nat input_len @ '' != item_identities '' @
             show_nat (length identities))
      else Inr ())"

definition seed_request_identities :: "nat \<Rightarrow> string list" where
  "seed_request_identities input_len = map request_item_identity [0..<input_len]"

definition native_passthrough :: "nat \<Rightarrow> hydration_outcome" where
  "native_passthrough input_len =
     \<lparr>ho_replayed_prefix_len = 0, ho_suffix_start = 0, ho_suffix_end = input_len,
      ho_continuation_mode = ServerPreviousResponseId, ho_client_carried_full_history = False,
      ho_overlap_skipped = 0, ho_same_route = True, ho_item_identities = []\<rparr>"

definition first_turn :: "nat \<Rightarrow> hydration_outcome" where
  "first_turn input_len =
     \<lparr>ho_replayed_prefix_len = 0, ho_suffix_start = 0, ho_suffix_end = input_len,
      ho_continuation_mode = PortableSemanticReplay, ho_client_carried_full_history = False,
      ho_overlap_skipped = 0, ho_same_route = True, ho_item_identities = seed_request_identities input_len\<rparr>"

definition replay_context_of :: "hydration_outcome \<Rightarrow> replay_context" where
  "replay_context_of h =
     \<lparr>rx_prefix_len = ho_replayed_prefix_len h, rx_suffix_start = ho_suffix_start h, rx_suffix_end = ho_suffix_end h,
      rx_continuation_mode = ho_continuation_mode h,
      rx_client_carried_full_history = ho_client_carried_full_history h, rx_overlap_skipped = ho_overlap_skipped h,
      rx_allow_reasoning_replay = ho_same_route h, rx_compaction_repairs = 0, rx_same_route = ho_same_route h,
      rx_item_identities = ho_item_identities h\<rparr>"

record chat_message_provenance =
  mp_occurrence_id :: "string option"
  mp_from_prefix :: bool

definition provenance_for_item :: "replay_context \<Rightarrow> nat \<Rightarrow> chat_message_provenance" where
  "provenance_for_item rx index =
     \<lparr>mp_occurrence_id = Some (if index < length (rx_item_identities rx) then rx_item_identities rx ! index
                              else request_item_identity index),
      mp_from_prefix = (index < rx_prefix_len rx)\<rparr>"

definition suffix_items :: "replay_context \<Rightarrow> json list \<Rightarrow> json list" where
  "suffix_items rx items =
     (let start = min (rx_suffix_start rx) (length items);
          stop = max (min (rx_suffix_end rx) (length items)) start
      in take (stop - start) (drop start items))"

definition prefix_items :: "replay_context \<Rightarrow> json list \<Rightarrow> json list" where
  "prefix_items rx items = take (min (rx_prefix_len rx) (length items)) items"

text \<open>A failed call has already pushed the item and the identity; the caller gives up on the request.\<close>

definition append_synthetic_replay_item ::
  "json \<Rightarrow> replay_context \<Rightarrow> json \<Rightarrow> string \<Rightarrow> (string + unit) \<times> json \<times> replay_context"
where
  "append_synthetic_replay_item body rx item identity =
     (case get_array body ''input'' of
        None \<Rightarrow> (Inl ''request body is missing input array'', body, rx)
      | Some xs \<Rightarrow>
          let ys = xs @ [item];
              body' = json_update ''input'' (\<lambda>_. JArray ys) body;
              rx' = rx\<lparr>rx_item_identities := rx_item_identities rx @ [identity],
                       rx_suffix_end := (if rx_suffix_end rx \<noteq> USIZE_MAX then rx_suffix_end rx + 1 else rx_suffix_end rx)\<rparr>
          in (if length ys \<noteq> length (rx_item_identities rx')
              then Inl (''input array length ('' @ show_nat (length ys) @
                     '') does not match replay item identities length ('' @
                     show_nat (length (rx_item_identities rx')) @ '')'')
              else Inr (), body', rx'))"

section \<open>Hydration\<close>

definition is_tool_call :: "json \<Rightarrow> bool" where
  "is_tool_call item \<longleftrightarrow> get_str item ''type'' \<in> Some ` set [''function_call'', ''local_shell_call'', ''custom_tool_call'',
     ''tool_search_call'', ''computer_call'', ''web_search_call'']"

definition is_tool_output :: "json \<Rightarrow> bool" where
  "is_tool_output item \<longleftrightarrow> get_str item ''type'' \<in> Some ` set [''function_call_output'', ''local_shell_call_output'',
     ''custom_tool_call_output'', ''tool_search_output'', ''computer_call_output'', ''web_search_call_output'']"

definition CODEX_LOCAL_V0_150_MARKER_PREFIX :: string where
  "CODEX_LOCAL_V0_150_MARKER_PREFIX = ''vcompact.codex0150.''"

definition LEGACY_CANONICAL_MARKER_PREFIX :: string where
  "LEGACY_CANONICAL_MARKER_PREFIX = ''vcomp1.''"

definition has_provider_issued_id :: "json \<Rightarrow> bool" where
  "has_provider_issued_id item \<longleftrightarrow>
     (let i = (case or_else (get_str item ''id'') (get_str item ''call_id'') of Some i \<Rightarrow> i | None \<Rightarrow> []) in
      trim i \<noteq> [] \<and>
      \<not> (starts_with i ''resp_vellum_'' \<or> starts_with i ''cmp_vellum_'' \<or> starts_with i ''cmp_local_''
         \<or> starts_with i LEGACY_CANONICAL_MARKER_PREFIX \<or> starts_with i CODEX_LOCAL_V0_150_MARKER_PREFIX))"

definition is_user_message_item :: "json \<Rightarrow> bool" where
  "is_user_message_item item \<longleftrightarrow>
     get_str item ''role'' = Some ''user'' \<and> \<not> is_tool_call item \<and> \<not> is_tool_output item"

fun full_entry_output_from :: "nat \<Rightarrow> history_entry list \<Rightarrow> nat \<Rightarrow> nat \<Rightarrow> bool" where
  "full_entry_output_from idx [] start stop \<longleftrightarrow> False"
| "full_entry_output_from idx (e # es) start stop \<longleftrightarrow>
     (let input_end = idx + length (he_input_items e);
          entry_end = input_end + length (he_output_items e)
      in (he_output_items e \<noteq> [] \<and> start \<le> input_end \<and> entry_end \<le> stop) \<or>
         full_entry_output_from entry_end es start stop)"

definition overlap_includes_full_entry_output :: "history_entry list \<Rightarrow> nat \<Rightarrow> nat \<Rightarrow> bool" where
  "overlap_includes_full_entry_output chain start stop = full_entry_output_from 0 chain start stop"

text \<open>The conditions under which the last \<open>k\<close> stored items count as resent by the client.\<close>

definition overlap_ok :: "history_entry list \<Rightarrow> json list \<Rightarrow> json list \<Rightarrow> nat \<Rightarrow> bool" where
  "overlap_ok chain stored current k \<longleftrightarrow>
     (let tail = drop (length stored - k) stored in
      length tail = length (take k current) \<and> list_all2 json_eq tail (take k current) \<and>
      overlap_includes_full_entry_output chain (length stored - k) (length stored) \<and>
      list_ex has_provider_issued_id tail \<and> \<not> list_all is_user_message_item tail)"

fun overlap_down :: "history_entry list \<Rightarrow> json list \<Rightarrow> json list \<Rightarrow> nat \<Rightarrow> nat" where
  "overlap_down chain stored current 0 = 0"
| "overlap_down chain stored current (Suc k) =
     (if overlap_ok chain stored current (Suc k) then Suc k else overlap_down chain stored current k)"

definition safe_overlap_len :: "history_entry list \<Rightarrow> json list \<Rightarrow> json list \<Rightarrow> nat" where
  "safe_overlap_len chain stored current = overlap_down chain stored current (min (length stored) (length current))"

definition restore_input :: "json list \<Rightarrow> json" where
  "restore_input items = (case items of [x] \<Rightarrow> x | _ \<Rightarrow> JArray items)"

definition entry_identities :: "history_entry \<Rightarrow> string list" where
  "entry_identities e =
     map (stored_item_identity (he_response_id e) ''input'') [0..<length (he_input_items e)] @
     map (stored_item_identity (he_response_id e) ''output'') [0..<length (he_output_items e)]"

definition flatten_chain_identities :: "history_entry list \<Rightarrow> string list" where
  "flatten_chain_identities chain = concat (map entry_identities chain)"

definition hydrate_input_with_mode ::
  "json \<Rightarrow> history_entry list \<Rightarrow> continuation_mode \<Rightarrow> json \<times> hydration_outcome"
where
  "hydrate_input_with_mode body0 chain mode =
     (let had_previous = (case get_str body0 ''previous_response_id'' of Some i \<Rightarrow> i \<noteq> [] | None \<Rightarrow> False);
          body = (if had_previous then on_object (obj_remove ''previous_response_id'') body0 else body0);
          outcome = (\<lambda>prefix start stop full overlap ids.
            \<lparr>ho_replayed_prefix_len = prefix, ho_suffix_start = start, ho_suffix_end = stop,
             ho_continuation_mode = mode, ho_client_carried_full_history = full, ho_overlap_skipped = overlap,
             ho_same_route = True, ho_item_identities = ids\<rparr>)
      in case json_get body ''input'' of
           None \<Rightarrow> (body, outcome 0 0 0 False 0 [])
         | Some original \<Rightarrow>
             let current = input_value_items original;
                 current_ids = map request_item_identity [0..<length current]
             in if chain = []
                then (json_update ''input'' (\<lambda>_. restore_input current) body,
                      outcome 0 0 (length current) False 0 current_ids)
                else
                  let stored = flatten_chain_items chain [];
                      stored_ids = flatten_chain_identities chain;
                      overlap = safe_overlap_len chain stored current;
                      full = (overlap = length stored \<and> stored \<noteq> []);
                      prepended = (if overlap = 0 then stored else take (length stored - overlap) stored);
                      prepended_ids = (if overlap = 0 then stored_ids else take (length stored_ids - overlap) stored_ids);
                      prefix_len = length prepended + overlap;
                      hydrated = prepended @ current;
                      total = length hydrated
                  in (json_update ''input'' (\<lambda>_. JArray hydrated) body,
                      outcome prefix_len (min prefix_len total) total full overlap (prepended_ids @ current_ids)))"

section \<open>Identities\<close>

lemma colon_not_in_index: "CHR '':'' \<notin> set (show_nat n)"
proof
  assume "CHR '':'' \<in> set (show_nat n)"
  then obtain d :: nat where "d \<in> {48..57}" "CHR '':'' = char_of d" using show_nat_digits [of n] by auto
  then have "of_char CHR '':'' = (of_char (char_of d :: char) :: nat)" by simp
  with \<open>d \<in> {48..57}\<close> show False by simp
qed

lemma stored_item_identity_inj:
  assumes "stored_item_identity r p i = stored_item_identity r' p' i'" "CHR '':'' \<notin> set p" "CHR '':'' \<notin> set p'"
  shows "r = r' \<and> p = p' \<and> i = i'"
proof -
  let ?c = "CHR '':''"
  have "(r @ ?c # p) @ ?c # show_nat i = (r' @ ?c # p') @ ?c # show_nat i'"
    using assms(1) by (simp add: stored_item_identity_def)
  from split_last_sep [OF this colon_not_in_index colon_not_in_index]
  have 1: "r @ ?c # p = r' @ ?c # p'" "show_nat i = show_nat i'" by simp_all
  from split_last_sep [OF 1(1) assms(2,3)] show_nat_inj [OF 1(2)] show ?thesis by simp
qed

lemma set_entry_identities:
  "x \<in> set (entry_identities e) \<Longrightarrow>
   \<exists>part i. x = stored_item_identity (he_response_id e) part i \<and> CHR '':'' \<notin> set part"
proof -
  have "CHR '':'' \<notin> set ''input''" "CHR '':'' \<notin> set ''output''" by simp_all
  moreover assume "x \<in> set (entry_identities e)"
  ultimately show ?thesis unfolding entry_identities_def set_append set_map by blast
qed

lemma distinct_entry_identities: "distinct (entry_identities e)"
proof -
  have c: "CHR '':'' \<notin> set ''input''" "CHR '':'' \<notin> set ''output''" by simp_all
  have inj: "inj_on (stored_item_identity (he_response_id e) p) A" if "CHR '':'' \<notin> set p" for p A
    using stored_item_identity_inj that by (meson inj_onI)
  have "stored_item_identity (he_response_id e) ''input'' i \<noteq> stored_item_identity (he_response_id e) ''output'' j" for i j
    using stored_item_identity_inj c by blast
  then show ?thesis by (auto simp: entry_identities_def distinct_map inj c)
qed

lemma distinct_flatten_identities:
  "distinct (map he_response_id chain) \<Longrightarrow> distinct (flatten_chain_identities chain)"
proof (induction chain)
  case (Cons e chain)
  have "set (entry_identities e) \<inter> set (entry_identities e') = {}" if "e' \<in> set chain" for e'
  proof -
    have "he_response_id e \<noteq> he_response_id e'" using Cons.prems that by auto
    then show ?thesis using stored_item_identity_inj by (blast dest!: set_entry_identities)
  qed
  with Cons show ?case by (auto simp: flatten_chain_identities_def distinct_entry_identities)
qed (simp add: flatten_chain_identities_def)

lemma request_identities_fresh:
  "distinct (map request_item_identity [0..<n])"
  "set (flatten_chain_identities chain) \<inter> set (map request_item_identity [0..<n]) = {}"
proof -
  have "inj_on request_item_identity A" for A
    by (auto simp: inj_on_def request_item_identity_def dest: show_nat_inj)
  then show "distinct (map request_item_identity [0..<n])" by (simp add: distinct_map)
  have "stored_item_identity r p i \<noteq> request_item_identity j" for r p i j
    by (simp add: stored_item_identity_def request_item_identity_def)
  then show "set (flatten_chain_identities chain) \<inter> set (map request_item_identity [0..<n]) = {}"
    unfolding flatten_chain_identities_def disjoint_iff by (auto dest!: set_entry_identities)
qed

lemma length_flatten: "length (flatten_chain_identities chain) = length (flatten_chain_items chain [])"
  by (induction chain) (simp_all add: flatten_chain_identities_def flatten_chain_items_def exchange_items_def entry_identities_def)

section \<open>Overlap\<close>

lemma overlap_down_spec:
  "overlap_down chain stored current n \<le> n \<and>
   (overlap_down chain stored current n = 0 \<or> overlap_ok chain stored current (overlap_down chain stored current n))"
  by (induction n) auto

lemma overlap_down_maximal:
  "overlap_ok chain stored current j \<Longrightarrow> j \<le> n \<Longrightarrow> j \<le> overlap_down chain stored current n"
  by (induction n) (auto simp: le_Suc_eq)

text \<open>
  The client has resent the last \<open>j\<close> stored items: they are its first \<open>j\<close> items, they hold the whole
  output of some exchange, one of them has an id a provider gave, and they are not user messages alone.
\<close>

definition resent :: "history_entry list \<Rightarrow> json list \<Rightarrow> nat \<Rightarrow> bool" where
  "resent chain current j \<longleftrightarrow>
     (\<exists>pre e post kept tail. chain = pre @ e # post \<and> he_output_items e \<noteq> [] \<and>
        flatten_chain_items chain [] = kept @ tail \<and> length tail = j \<and> list_all2 json_eq tail (take j current) \<and>
        length (he_output_items e) + length (flatten_chain_items post []) \<le> j \<and>
        (\<exists>x \<in> set tail. has_provider_issued_id x) \<and> (\<exists>x \<in> set tail. \<not> is_user_message_item x))"

lemma full_entry_output_from_iff:
  "full_entry_output_from idx chain start (idx + length (flatten_chain_items chain [])) \<longleftrightarrow>
   (\<exists>pre e post. chain = pre @ e # post \<and> he_output_items e \<noteq> [] \<and>
      start + length (he_output_items e) + length (flatten_chain_items post []) \<le> idx + length (flatten_chain_items chain []))"
proof (induction chain arbitrary: idx)
  case (Cons a chain)
  let ?L = "\<lambda>es. length (flatten_chain_items es [])"
  have L: "?L (a # chain) = length (he_input_items a) + length (he_output_items a) + ?L chain"
    by (simp add: flatten_chain_items_def exchange_items_def)
  have split: "(\<exists>pre e post. a # chain = pre @ e # post \<and> P e post) \<longleftrightarrow> P a chain \<or> (\<exists>pre e post. chain = pre @ e # post \<and> P e post)" for P
    by (auto simp: Cons_eq_append_conv)
  show ?case
    unfolding split L full_entry_output_from.simps Let_def
    using Cons.IH [of "idx + length (he_input_items a) + length (he_output_items a)"]
    by (auto simp: add.assoc)
qed simp

lemma overlap_ok_iff:
  assumes "j \<le> length (flatten_chain_items chain [])"
  shows "overlap_ok chain (flatten_chain_items chain []) current j \<longleftrightarrow> resent chain current j"
proof -
  let ?stored = "flatten_chain_items chain []"
  have tail: "(\<exists>kept tail. ?stored = kept @ tail \<and> length tail = j \<and> P tail) \<longleftrightarrow> P (drop (length ?stored - j) ?stored)" for P
  proof
    assume "P (drop (length ?stored - j) ?stored)"
    then show "\<exists>kept tail. ?stored = kept @ tail \<and> length tail = j \<and> P tail"
      using assms by (intro exI [of _ "take (length ?stored - j) ?stored"] exI [of _ "drop (length ?stored - j) ?stored"]) simp
  qed auto
  have len: "length (drop (length ?stored - j) ?stored) = length (take j current)"
    if "list_all2 json_eq (drop (length ?stored - j) ?stored) (take j current)"
    using that by (rule list_all2_lengthD)
  have full: "overlap_includes_full_entry_output chain (length ?stored - j) (length ?stored) \<longleftrightarrow>
      (\<exists>pre e post. chain = pre @ e # post \<and> he_output_items e \<noteq> [] \<and>
         length (he_output_items e) + length (flatten_chain_items post []) \<le> j)"
    using full_entry_output_from_iff [of 0 chain "length ?stored - j"] assms
    by (fastforce simp: overlap_includes_full_entry_output_def)
  have "resent chain current j \<longleftrightarrow>
      (\<exists>pre e post. chain = pre @ e # post \<and> he_output_items e \<noteq> [] \<and>
         length (he_output_items e) + length (flatten_chain_items post []) \<le> j) \<and>
      (\<exists>kept tail. ?stored = kept @ tail \<and> length tail = j \<and> list_all2 json_eq tail (take j current) \<and>
         (\<exists>x \<in> set tail. has_provider_issued_id x) \<and> (\<exists>x \<in> set tail. \<not> is_user_message_item x))"
    unfolding resent_def by blast
  also have "\<dots> \<longleftrightarrow> overlap_ok chain ?stored current j"
    unfolding tail full [symmetric] using len by (auto simp: overlap_ok_def Let_def list_ex_iff list_all_iff)
  finally show ?thesis by simp
qed

lemma resent_bounds: "resent chain current j \<Longrightarrow> j \<le> length (flatten_chain_items chain []) \<and> j \<le> length current"
  by (auto simp: resent_def dest!: list_all2_lengthD)

lemma safe_overlap_len_resent:
  fixes chain current
  defines "k \<equiv> safe_overlap_len chain (flatten_chain_items chain []) current"
  shows "k \<noteq> 0 \<Longrightarrow> resent chain current k" "resent chain current j \<Longrightarrow> j \<le> k"
proof -
  let ?stored = "flatten_chain_items chain []"
  have k: "k \<le> length ?stored" "k = 0 \<or> overlap_ok chain ?stored current k"
    using overlap_down_spec [of chain ?stored current "min (length ?stored) (length current)"]
    by (auto simp: k_def safe_overlap_len_def)
  show "k \<noteq> 0 \<Longrightarrow> resent chain current k" using k overlap_ok_iff by blast
  show "j \<le> k" if j: "resent chain current j"
    using resent_bounds [OF j] overlap_ok_iff [of j chain current] j
    by (auto simp: k_def safe_overlap_len_def intro: overlap_down_maximal)
qed

lemma json_eq_get_str:
  assumes "json_eq x y" "json_wf x" "json_wf y"
  shows "get_str x k = get_str y k"
proof (cases x)
  case (JObject kvs)
  with assms(1) obtain lws where y: "y = JObject lws" by (cases y) (auto simp: json_eq.simps [of "JObject kvs"])
  have len: "length kvs = length lws"
    and keys: "\<And>k v. (k, v) \<in> set kvs \<Longrightarrow> \<exists>w. map_of lws k = Some w \<and> json_eq v w"
    using assms(1) by (auto simp: JObject y json_eq.simps [of "JObject kvs"] list_all_iff split: option.splits)
  have d: "distinct (map fst kvs)" "distinct (map fst lws)" using assms(2,3) by (auto simp: JObject y)
  have "fst ` set kvs \<subseteq> fst ` set lws" using keys by (force dest: map_of_SomeD)
  moreover have "card (fst ` set kvs) = card (fst ` set lws)"
    using d len by (metis distinct_card length_map list.set_map)
  ultimately have "fst ` set kvs = fst ` set lws" by (simp add: card_subset_eq)
  then have none: "map_of kvs k = None \<longleftrightarrow> map_of lws k = None" by (simp add: map_of_eq_None_iff)
  have str: "json_as_str v = json_as_str w" if "json_eq v w" for v w
    using that by (cases v; cases w) (auto simp: json_eq.simps)
  show ?thesis
  proof (cases "map_of kvs k")
    case None
    then show ?thesis using none by (simp add: get_str_def JObject y)
  next
    case (Some v)
    with keys obtain w where "map_of lws k = Some w" "json_eq v w" by (blast dest: map_of_SomeD)
    with Some str show ?thesis by (simp add: get_str_def JObject y)
  qed
qed (use assms(1) in \<open>cases y; auto simp: json_eq.simps get_str_def\<close>)+


lemma json_eq_user_message:
  assumes "json_eq x y" "json_wf x" "json_wf y"
  shows "is_user_message_item x \<longleftrightarrow> is_user_message_item y"
  using json_eq_get_str [OF assms]
  by (simp add: is_user_message_item_def is_tool_call_def is_tool_output_def)

lemma overlap_not_only_users:
  assumes "overlap_ok chain stored current k" "list_all json_wf stored" "list_all json_wf current"
  shows "\<not> list_all is_user_message_item current"
proof
  assume users: "list_all is_user_message_item current"
  have "\<forall>x \<in> set (drop (length stored - k) stored). is_user_message_item x"
  proof
    fix x
    assume x: "x \<in> set (drop (length stored - k) stored)"
    have "list_all2 json_eq (drop (length stored - k) stored) (take k current)"
      using assms(1) by (simp add: overlap_ok_def Let_def)
    from this x obtain y where y: "y \<in> set (take k current)" "json_eq x y" 
      by (metis list_all2_conv_all_nth in_set_conv_nth)
    have "json_wf x" "json_wf y" "is_user_message_item y"
      using assms(2,3) users x y(1) by (auto simp: list_all_iff dest: in_set_dropD in_set_takeD)
    then show "is_user_message_item x" using json_eq_user_message [OF y(2)] by simp
  qed
  then show False using assms(1) by (simp add: overlap_ok_def Let_def list_all_iff)
qed

lemma json_wf_input_value_items: "json_wf v \<Longrightarrow> list_all json_wf (input_value_items v)"
  by (cases v rule: input_value_items.cases) simp_all

lemma json_wf_get: "json_wf v \<Longrightarrow> json_get v k = Some w \<Longrightarrow> json_wf w"
  by (cases v) (auto simp: list_all_iff dest: map_of_SomeD)

lemma hydrate_body:
  assumes "json_wf body" "json_get body ''input'' = Some v"
    and "body1 = (if b then on_object (obj_remove ''previous_response_id'') body else body)"
  shows "json_get body1 ''input'' = Some v"
    and "json_get (json_update ''input'' f body1) ''input'' = Some (f v)"
    and "get_str (json_update ''input'' f body1) ''previous_response_id'' =
         (if b then None else get_str body ''previous_response_id'')"
proof -
  obtain kvs where body: "body = JObject kvs" using assms(2) by (cases body) auto
  have "distinct (map fst kvs)" using assms(1) body by simp
  then have "map_of (obj_remove ''previous_response_id'' kvs) = (map_of kvs)(''previous_response_id'' := None)"
    by (rule map_of_obj_remove)
  then show "json_get body1 ''input'' = Some v"
    and "json_get (json_update ''input'' f body1) ''input'' = Some (f v)"
    and "get_str (json_update ''input'' f body1) ''previous_response_id'' =
         (if b then None else get_str body ''previous_response_id'')"
    using assms(2) by (simp_all add: assms(3) body on_object_def json_update_def map_of_obj_update get_str_def)
qed


definition sample_exchange :: history_entry where
  "sample_exchange =
     \<lparr>he_response_id = ''r1'', he_previous_response_id = None, he_route_id = ''a'', he_continuation_realm = None,
      he_input_items = [JObject [(''role'', JString ''user'')]], he_output_items = [JObject [(''id'', JString ''m1'')]],
      he_created_at = 0\<rparr>"

definition sample_resend :: json where
  "sample_resend = JObject [(''previous_response_id'', JString ''r1''),
     (''input'', JArray [JObject [(''id'', JString ''m1'')], JObject [(''role'', JString ''user'')]])]"

lemma sample_resent: "resent [sample_exchange] [JObject [(''id'', JString ''m1'')], JObject [(''role'', JString ''user'')]] 1"
proof -
  have "json_eq (JObject [(''id'', JString ''m1'')]) (JObject [(''id'', JString ''m1'')])" by code_simp
  moreover have "has_provider_issued_id (JObject [(''id'', JString ''m1'')])" "\<not> is_user_message_item (JObject [(''id'', JString ''m1'')])"
    by code_simp+
  ultimately show ?thesis unfolding resent_def
    by (intro exI [of _ "[]"] exI [of _ sample_exchange] exI [of _ "he_input_items sample_exchange"]
        exI [of _ "he_output_items sample_exchange"])
      (simp add: sample_exchange_def flatten_chain_items_def exchange_items_def)
qed


end
