(* ===== verification/Chat_Transcript.thy ===== *)
theory Chat_Transcript
  imports Replay
begin

text \<open>
  Compaction markers and the Chat transcript (the second half of \<open>replay.rs\<close>, with the readers of
  \<open>adapter.rs\<close>, \<open>compaction.rs\<close>, \<open>diagnostics.rs\<close> and \<open>route.rs\<close> it calls, and
  \<open>strip_client_local_compaction_pairs\<close> of \<open>exec.rs\<close>): how a compaction item is classified, what the local
  repair drops, the counters recorded of a transcript, the checks it has to pass before it is sent,
  and the two fixed messages that may be appended to it.

  \<open>Value::to_string\<close> is the argument \<open>print\<close>, the hexadecimal SHA-256 digest the argument \<open>sha_hex\<close>. The hash sets of the checks are
  lists without repetition.
\<close>

section \<open>Text of an item\<close>

definition NEUTRAL_USER_BRIDGE_TEXT :: string where
  "NEUTRAL_USER_BRIDGE_TEXT =
     ''Continue from the previous tool result. The original user task has not been resent or changed.''"

definition CHAT_CHECKPOINT_PREFACE :: string where
  "CHAT_CHECKPOINT_PREFACE = ''Conversation checkpoint; not a new user request''"

definition CHAT_CHECKPOINT_RESUME_TEXT :: string where
  "CHAT_CHECKPOINT_RESUME_TEXT =
     ''Continue the task described in the conversation checkpoint above, starting from where it stopped. '' @
     ''The checkpoint is context, not a new user request, and the original user task has not been resent or changed.''"

definition OFFICIAL_SUMMARY_PREFIX :: string where
  "OFFICIAL_SUMMARY_PREFIX =
     ''Another language model started to solve this problem and produced a summary of its thinking process. '' @
     ''You also have access to the state of the tools that were used by that language model. '' @
     ''Use this to build on the work that has already been done and avoid duplicating work. '' @
     ''Here is the summary produced by the other language model, '' @
     ''use the information in this summary to assist with your own analysis:''"

definition part_text :: "json \<Rightarrow> string option" where
  "part_text part = or_else (get_str part ''text'') (get_str part ''content'')"

definition parts_text :: "json list \<Rightarrow> string" where
  "parts_text parts = join_with [CHR 0x0A] (List.map_filter part_text parts)"

definition content_to_text :: "(json \<Rightarrow> string) \<Rightarrow> json \<Rightarrow> json" where
  "content_to_text print value =
     (case value of
        JString s \<Rightarrow> JString s
      | JArray parts \<Rightarrow> JString (parts_text parts)
      | JObject kvs \<Rightarrow> (case map_of kvs ''text'' of Some t \<Rightarrow> t | None \<Rightarrow> JString (print value))
      | _ \<Rightarrow> JString (print value))"

definition content_to_plain_string :: "(json \<Rightarrow> string) \<Rightarrow> json \<Rightarrow> string" where
  "content_to_plain_string print value =
     (case content_to_text print value of JString text \<Rightarrow> text | other \<Rightarrow> print other)"

definition item_text :: "json \<Rightarrow> string option" where
  "item_text item =
     (case json_get item ''content'' of
        Some (JString text) \<Rightarrow> Some text
      | Some (JArray parts) \<Rightarrow> Some (parts_text parts)
      | _ \<Rightarrow> None)"

definition item_plain_text :: "(json \<Rightarrow> string) \<Rightarrow> json \<Rightarrow> string" where
  "item_plain_text print item =
     (case json_get item ''content'' of Some c \<Rightarrow> content_to_plain_string print c | None \<Rightarrow> [])"

text \<open>\<open>content_to_plain_string(message.get("content").unwrap_or(&Value::Null))\<close>.\<close>

definition message_text :: "(json \<Rightarrow> string) \<Rightarrow> json \<Rightarrow> string" where
  "message_text print message =
     content_to_plain_string print (case json_get message ''content'' of Some c \<Rightarrow> c | None \<Rightarrow> JNull)"

section \<open>Compaction items\<close>

datatype compaction_disposition = VellumJournal | ProvenClientLocal | ProviderOwnedOpaque | UnknownCompaction

definition is_vellum_local_compaction :: "json \<Rightarrow> bool" where
  "is_vellum_local_compaction item \<longleftrightarrow>
     (let opaque = (case get_str item ''encrypted_content'' of Some s \<Rightarrow> s | None \<Rightarrow> []) in
      starts_with opaque LEGACY_CANONICAL_MARKER_PREFIX \<or> starts_with opaque CODEX_LOCAL_V0_150_MARKER_PREFIX \<or>
      (case get_str item ''id'' of
         Some i \<Rightarrow> starts_with i ''cmp_vellum_'' \<or> starts_with i ''cmp_local_'' | None \<Rightarrow> False))"

definition is_codex_local_v0_150_marker :: "json \<Rightarrow> bool" where
  "is_codex_local_v0_150_marker item \<longleftrightarrow>
     (case get_str item ''encrypted_content'' of
        Some s \<Rightarrow> starts_with s CODEX_LOCAL_V0_150_MARKER_PREFIX | None \<Rightarrow> False)"

definition is_legacy_canonical_marker :: "json \<Rightarrow> bool" where
  "is_legacy_canonical_marker item \<longleftrightarrow>
     (case get_str item ''encrypted_content'' of
        Some s \<Rightarrow> starts_with s LEGACY_CANONICAL_MARKER_PREFIX | None \<Rightarrow> False)"

definition LEGACY_CANONICAL_UNSUPPORTED :: string where
  "LEGACY_CANONICAL_UNSUPPORTED = ''legacy_canonical_compaction_unsupported''"

definition reject_legacy_canonical_history :: "json list \<Rightarrow> string + unit" where
  "reject_legacy_canonical_history items =
     (if list_ex is_legacy_canonical_marker items then Inl LEGACY_CANONICAL_UNSUPPORTED else Inr ())"

definition is_provider_owned_opaque_compaction :: "json \<Rightarrow> bool" where
  "is_provider_owned_opaque_compaction item \<longleftrightarrow>
     (let opaque = (case get_str item ''encrypted_content'' of Some s \<Rightarrow> s | None \<Rightarrow> []) in
      opaque \<noteq> [] \<and> \<not> starts_with opaque LEGACY_CANONICAL_MARKER_PREFIX \<and>
      \<not> starts_with opaque CODEX_LOCAL_V0_150_MARKER_PREFIX)"

definition is_verified_summary_text :: "string \<Rightarrow> bool" where
  "is_verified_summary_text text \<longleftrightarrow>
     (let t = trim text in
      starts_with t OFFICIAL_SUMMARY_PREFIX \<or> starts_with t CHAT_CHECKPOINT_PREFACE \<or>
      contains_str t ''This session is being continued from a previous conversation'')"

definition embedded_compaction_summary :: "(json \<Rightarrow> string) \<Rightarrow> json \<Rightarrow> string option" where
  "embedded_compaction_summary print item =
     or_else
       (case map_option (content_to_plain_string print) (json_get item ''summary'') of
          Some text \<Rightarrow> if trim text \<noteq> [] then Some text else None | None \<Rightarrow> None)
       (case map_option (content_to_plain_string print) (json_get item ''content'') of
          Some text \<Rightarrow> if trim text \<noteq> [] \<and> is_verified_summary_text text then Some text else None | None \<Rightarrow> None)"

definition is_proven_client_local_compaction :: "(json \<Rightarrow> string) \<Rightarrow> json \<Rightarrow> bool" where
  "is_proven_client_local_compaction print item \<longleftrightarrow>
     (if get_str item ''type'' = Some ''context_compaction'' then True
      else if is_vellum_local_compaction item \<or> is_provider_owned_opaque_compaction item then False
      else embedded_compaction_summary print item \<noteq> None)"

definition classify_compaction_item :: "(json \<Rightarrow> string) \<Rightarrow> json \<Rightarrow> compaction_disposition option" where
  "classify_compaction_item print item =
     (if get_str item ''type'' = Some ''context_compaction'' then Some ProvenClientLocal
      else if get_str item ''type'' = Some ''compaction'' then
        Some (if is_vellum_local_compaction item then VellumJournal
              else if is_provider_owned_opaque_compaction item then ProviderOwnedOpaque
              else if is_proven_client_local_compaction print item then ProvenClientLocal
              else UnknownCompaction)
      else None)"

definition is_client_local_compaction_marker :: "(json \<Rightarrow> string) \<Rightarrow> json \<Rightarrow> bool" where
  "is_client_local_compaction_marker print item \<longleftrightarrow> classify_compaction_item print item = Some ProvenClientLocal"

definition is_summary_item :: "json \<Rightarrow> bool" where
  "is_summary_item item \<longleftrightarrow>
     get_str item ''role'' = Some ''user'' \<and>
     (case item_text item of Some text \<Rightarrow> starts_with text OFFICIAL_SUMMARY_PREFIX | None \<Rightarrow> False)"

definition is_canonical_checkpoint_item :: "json \<Rightarrow> bool" where
  "is_canonical_checkpoint_item item \<longleftrightarrow>
     Option.bind (json_get item ''metadata'') (\<lambda>m. get_str m ''vellum_checkpoint'') = Some ''canonical'' \<or>
     is_summary_item item \<or>
     get_str item ''type'' = Some ''compaction'' \<or> get_str item ''type'' = Some ''context_compaction''"

definition is_model_switch_marker :: "json \<Rightarrow> bool" where
  "is_model_switch_marker item \<longleftrightarrow>
     (get_str item ''role'' = Some ''developer'' \<or> get_str item ''role'' = Some ''system'') \<and>
     contains_str (case item_text item of Some t \<Rightarrow> t | None \<Rightarrow> []) ''<model_switch>''"

definition is_verified_summary_replacement :: "(json \<Rightarrow> string) \<Rightarrow> json \<Rightarrow> bool" where
  "is_verified_summary_replacement print item \<longleftrightarrow>
     \<not> is_tool_call item \<and> \<not> is_tool_output item \<and>
     (is_canonical_checkpoint_item item \<or> is_summary_item item \<or>
      is_verified_summary_text (item_plain_text print item))"

text \<open>The state of the loop of \<open>strip_client_local_compaction\<close> and the loop.\<close>

record strip_state =
  ss_out :: "json list"
  ss_repaired :: bool
  ss_discarded_summary :: "string option"
  ss_skip_verified_replacement :: bool

definition strip_step :: "(json \<Rightarrow> string) \<Rightarrow> json \<Rightarrow> strip_state \<Rightarrow> strip_state" where
  "strip_step print item s =
     (if ss_skip_verified_replacement s then
        if is_verified_summary_replacement print item then
          s\<lparr>ss_skip_verified_replacement := False, ss_repaired := True,
            ss_discarded_summary := or_else (ss_discarded_summary s) (Some (item_plain_text print item))\<rparr>
        else s\<lparr>ss_skip_verified_replacement := False, ss_out := ss_out s @ [item]\<rparr>
      else if is_client_local_compaction_marker print item then
        s\<lparr>ss_repaired := True, ss_skip_verified_replacement := True,
          ss_discarded_summary := or_else (embedded_compaction_summary print item) (ss_discarded_summary s)\<rparr>
      else s\<lparr>ss_out := ss_out s @ [item]\<rparr>)"

definition strip_client_local_compaction ::
  "(json \<Rightarrow> string) \<Rightarrow> json list \<Rightarrow> json list \<times> bool \<times> string option"
where
  "strip_client_local_compaction print items =
     (let s = fold (strip_step print) items
                \<lparr>ss_out = [], ss_repaired = False, ss_discarded_summary = None, ss_skip_verified_replacement = False\<rparr>
      in (ss_out s, ss_repaired s, ss_discarded_summary s))"

text \<open>The sibling of \<open>exec.rs\<close> that keeps the identity of each item; it does not read the embedded summary.\<close>

fun strip_pairs_loop ::
  "(json \<Rightarrow> string) \<Rightarrow> (json \<times> string) list \<Rightarrow> bool \<Rightarrow> bool \<Rightarrow> string option \<Rightarrow> (json \<times> string) list
     \<Rightarrow> (json \<times> string) list \<times> bool \<times> string option"
where
  "strip_pairs_loop print [] skip repaired discarded out = (out, repaired, discarded)"
| "strip_pairs_loop print ((item, identity) # pairs) skip repaired discarded out =
     (if skip then
        if is_verified_summary_replacement print item then
          strip_pairs_loop print pairs False True
            (or_else discarded (Some (case json_get item ''content'' of
               Some c \<Rightarrow> content_to_plain_string print c | None \<Rightarrow> []))) out
        else strip_pairs_loop print pairs False repaired discarded (out @ [(item, identity)])
      else if is_client_local_compaction_marker print item then
        strip_pairs_loop print pairs True True discarded out
      else strip_pairs_loop print pairs False repaired discarded (out @ [(item, identity)]))"

definition strip_client_local_compaction_pairs ::
  "(json \<Rightarrow> string) \<Rightarrow> (json \<times> string) list \<Rightarrow> (json \<times> string) list \<times> bool \<times> string option"
where
  "strip_client_local_compaction_pairs print pairs = strip_pairs_loop print pairs False False None []"

section \<open>The current query\<close>

definition is_synthetic_bridge_text :: "string \<Rightarrow> bool" where
  "is_synthetic_bridge_text text \<longleftrightarrow> trim text = NEUTRAL_USER_BRIDGE_TEXT"

definition is_checkpoint_resume_text :: "string \<Rightarrow> bool" where
  "is_checkpoint_resume_text text \<longleftrightarrow> trim text = CHAT_CHECKPOINT_RESUME_TEXT"

definition is_chat_checkpoint_message :: "(json \<Rightarrow> string) \<Rightarrow> json \<Rightarrow> bool" where
  "is_chat_checkpoint_message print message \<longleftrightarrow>
     get_str message ''role'' = Some ''assistant'' \<and> starts_with (message_text print message) CHAT_CHECKPOINT_PREFACE"

definition is_semantic_role :: "json \<Rightarrow> bool" where
  "is_semantic_role message \<longleftrightarrow> get_str message ''role'' \<in> {Some ''user'', Some ''assistant'', Some ''tool''}"

definition last_semantic_message :: "json list \<Rightarrow> json option" where
  "last_semantic_message messages = List.find is_semantic_role (rev messages)"

definition is_excluded_from_user_query :: "(json \<Rightarrow> string) \<Rightarrow> json \<Rightarrow> bool" where
  "is_excluded_from_user_query print item \<longleftrightarrow>
     is_canonical_checkpoint_item item \<or> is_summary_item item \<or> is_model_switch_marker item \<or>
     is_client_local_compaction_marker print item \<or>
     is_synthetic_bridge_text (item_plain_text print item) \<or> is_checkpoint_resume_text (item_plain_text print item) \<or>
     starts_with (item_plain_text print item) CHAT_CHECKPOINT_PREFACE"

definition query_of_item :: "(json \<Rightarrow> string) \<Rightarrow> json \<Rightarrow> string option" where
  "query_of_item print item =
     (if is_excluded_from_user_query print item then None
      else if (case get_str item ''role'' of Some r \<Rightarrow> r | None \<Rightarrow> ''user'') \<noteq> ''user'' then None
      else let t = trim (item_plain_text print item) in if t = [] then None else Some t)"

definition current_suffix_user_query :: "(json \<Rightarrow> string) \<Rightarrow> json list \<Rightarrow> replay_context \<Rightarrow> string option" where
  "current_suffix_user_query print items replay = find_map (query_of_item print) (rev (suffix_items replay items))"

definition hash_text :: "(string \<Rightarrow> string) \<Rightarrow> string \<Rightarrow> string" where
  "hash_text sha_hex value = ''sha256:'' @ take 32 (sha_hex value)"

definition user_turn_safety_hash :: "(string \<Rightarrow> string) \<Rightarrow> string \<Rightarrow> string" where
  "user_turn_safety_hash sha_hex occurrence_id = hash_text sha_hex occurrence_id"

section \<open>Diagnostics\<close>

record chat_message_shape_counts =
  sh_empty_messages :: nat
  sh_tool_pairs :: nat
  sh_orphan_tool_results :: nat
  sh_duplicate_tool_ids :: nat

definition nonblank_field :: "json \<Rightarrow> string \<Rightarrow> bool" where
  "nonblank_field v k \<longleftrightarrow> (case get_str v k of Some s \<Rightarrow> trim s \<noteq> [] | None \<Rightarrow> False)"

definition message_has_semantic_content :: "(json \<Rightarrow> string) \<Rightarrow> json \<Rightarrow> bool" where
  "message_has_semantic_content print message \<longleftrightarrow>
     trim (item_plain_text print message) \<noteq> [] \<or> nonblank_field message ''reasoning_content'' \<or>
     nonblank_field message ''reasoning'' \<or>
     (case get_array message ''tool_calls'' of Some calls \<Rightarrow> calls \<noteq> [] | None \<Rightarrow> False)"

fun shape_calls ::
  "json list \<Rightarrow> string list \<Rightarrow> string list \<Rightarrow> nat \<Rightarrow> string list \<times> string list \<times> nat"
where
  "shape_calls [] opened seen dups = (opened, seen, dups)"
| "shape_calls (call # calls) opened seen dups =
     (case get_str call ''id'' of
        None \<Rightarrow> shape_calls calls opened seen dups
      | Some i \<Rightarrow> shape_calls calls (List.insert i opened) (List.insert i seen) (if i \<in> set seen then dups + 1 else dups))"

fun shape_loop ::
  "(json \<Rightarrow> string) \<Rightarrow> json list \<Rightarrow> string list \<Rightarrow> string list \<Rightarrow> chat_message_shape_counts \<Rightarrow> chat_message_shape_counts"
where
  "shape_loop print [] opened seen shape =
     shape\<lparr>sh_orphan_tool_results := sh_orphan_tool_results shape + length opened\<rparr>"
| "shape_loop print (m # ms) opened seen shape0 =
     (let shape = (if \<not> message_has_semantic_content print m
                   then shape0\<lparr>sh_empty_messages := sh_empty_messages shape0 + 1\<rparr> else shape0);
          orphan = shape\<lparr>sh_orphan_tool_results := sh_orphan_tool_results shape + 1\<rparr>
      in if get_str m ''role'' = Some ''assistant'' then
           case get_array m ''tool_calls'' of
             None \<Rightarrow> shape_loop print ms opened seen shape
           | Some calls \<Rightarrow>
               (case shape_calls calls opened seen (sh_duplicate_tool_ids shape) of
                  (opened', seen', dups) \<Rightarrow>
                    shape_loop print ms opened' seen' (shape\<lparr>sh_duplicate_tool_ids := dups\<rparr>))
         else if get_str m ''role'' = Some ''tool'' then
           case get_str m ''tool_call_id'' of
             None \<Rightarrow> shape_loop print ms opened seen orphan
           | Some i \<Rightarrow>
               if i \<in> set opened
               then shape_loop print ms (removeAll i opened) seen (shape\<lparr>sh_tool_pairs := sh_tool_pairs shape + 1\<rparr>)
               else shape_loop print ms opened seen orphan
         else shape_loop print ms opened seen shape)"

definition chat_message_shape :: "(json \<Rightarrow> string) \<Rightarrow> json list \<Rightarrow> chat_message_shape_counts" where
  "chat_message_shape print messages =
     shape_loop print messages [] []
       \<lparr>sh_empty_messages = 0, sh_tool_pairs = 0, sh_orphan_tool_results = 0, sh_duplicate_tool_ids = 0\<rparr>"

definition ROLE_SEQUENCE_LIMIT :: nat where
  "ROLE_SEQUENCE_LIMIT = 160"

fun role_sequence_loop :: "nat \<Rightarrow> string \<Rightarrow> json list \<Rightarrow> string option" where
  "role_sequence_loop index summary [] = Some summary"
| "role_sequence_loop index summary (m # ms) =
     (let role = (case get_str m ''role'' of Some r \<Rightarrow> r | None \<Rightarrow> ''?'');
          s = (if 0 < index then summary @ ''>'' else summary) @ role
      in if ROLE_SEQUENCE_LIMIT \<le> length s
         then map_option (\<lambda>t. t @ ''...'') (truncate_string (ROLE_SEQUENCE_LIMIT - 3) s)
         else role_sequence_loop (Suc index) s ms)"

definition role_sequence_summary :: "json list \<Rightarrow> string option" where
  "role_sequence_summary messages = role_sequence_loop 0 [] messages"

record harness_transcript_diagnostics =
  td_message_count :: nat
  td_role_sequence :: string
  td_empty_messages :: nat
  td_tool_pairs :: nat
  td_orphan_tool_results :: nat
  td_duplicate_tool_ids :: nat
  td_first_role :: "string option"
  td_last_role :: "string option"
  td_body_bytes :: "nat option"
  td_message_bytes :: "nat option"
  td_system_message_bytes :: "nat option"
  td_tool_count :: nat
  td_tool_bytes :: "nat option"
  td_model :: "string option"
  td_upstream_status :: "nat option"
  td_replay_prefix_items :: nat
  td_current_suffix_items :: nat
  td_user_messages :: nat
  td_assistant_messages :: nat
  td_tool_messages :: nat
  td_system_messages :: nat
  td_tool_calls :: nat
  td_summaries :: nat
  td_overlap_skips :: nat
  td_neutral_bridges :: nat
  td_checkpoint_resumes :: nat
  td_compaction_repairs :: nat
  td_user_turn_hashes :: "string list"

definition nth_opt :: "'a list \<Rightarrow> nat \<Rightarrow> 'a option" where
  "nth_opt xs i = (if i < length xs then Some (xs ! i) else None)"

definition count_message ::
  "(json \<Rightarrow> string) \<Rightarrow> (string \<Rightarrow> string) \<Rightarrow> chat_message_provenance list \<Rightarrow> nat \<times> json
     \<Rightarrow> harness_transcript_diagnostics \<Rightarrow> harness_transcript_diagnostics"
where
  "count_message print sha_hex provenance im d =
     (case im of (index, m) \<Rightarrow>
        let role = get_str m ''role''; text = message_text print m in
        if role = Some ''user'' then
          d\<lparr>td_user_messages := td_user_messages d + 1,
            td_neutral_bridges := td_neutral_bridges d + (if is_synthetic_bridge_text text then 1 else 0),
            td_checkpoint_resumes := td_checkpoint_resumes d + (if is_checkpoint_resume_text text then 1 else 0),
            td_user_turn_hashes := td_user_turn_hashes d @
              (case Option.bind (nth_opt provenance index) mp_occurrence_id of
                 Some occurrence \<Rightarrow> [user_turn_safety_hash sha_hex occurrence] | None \<Rightarrow> [])\<rparr>
        else if role = Some ''assistant'' then
          d\<lparr>td_assistant_messages := td_assistant_messages d + 1,
            td_tool_calls := td_tool_calls d + (case get_array m ''tool_calls'' of Some calls \<Rightarrow> length calls | None \<Rightarrow> 0),
            td_summaries := td_summaries d + (if starts_with text CHAT_CHECKPOINT_PREFACE then 1 else 0)\<rparr>
        else if role = Some ''tool'' then d\<lparr>td_tool_messages := td_tool_messages d + 1\<rparr>
        else if role = Some ''system'' then d\<lparr>td_system_messages := td_system_messages d + 1\<rparr>
        else d)"

text \<open>\<open>None\<close> is the panic of the role summary.\<close>

definition chat_transcript_diagnostics_with_provenance ::
  "(json \<Rightarrow> string) \<Rightarrow> (string \<Rightarrow> string) \<Rightarrow> json list \<Rightarrow> chat_message_provenance list \<Rightarrow> replay_context
     \<Rightarrow> harness_transcript_diagnostics option"
where
  "chat_transcript_diagnostics_with_provenance print sha_hex messages provenance replay =
     (let suffix = rx_suffix_end replay - rx_suffix_start replay;
          shape = chat_message_shape print messages
      in case role_sequence_summary messages of
           None \<Rightarrow> None
         | Some roles \<Rightarrow>
             Some (fold (count_message print sha_hex provenance) (List.enumerate 0 messages)
               \<lparr>td_message_count = length messages, td_role_sequence = roles,
                td_empty_messages = sh_empty_messages shape, td_tool_pairs = sh_tool_pairs shape,
                td_orphan_tool_results = sh_orphan_tool_results shape, td_duplicate_tool_ids = sh_duplicate_tool_ids shape,
                td_first_role = (case messages of m # _ \<Rightarrow> get_str m ''role'' | [] \<Rightarrow> None),
                td_last_role = (case rev messages of m # _ \<Rightarrow> get_str m ''role'' | [] \<Rightarrow> None),
                td_body_bytes = None, td_message_bytes = None, td_system_message_bytes = None, td_tool_count = 0,
                td_tool_bytes = None, td_model = None, td_upstream_status = None,
                td_replay_prefix_items = rx_prefix_len replay,
                td_current_suffix_items = (if suffix = USIZE_MAX then 0 else suffix),
                td_user_messages = 0, td_assistant_messages = 0, td_tool_messages = 0, td_system_messages = 0,
                td_tool_calls = 0, td_summaries = 0, td_overlap_skips = rx_overlap_skipped replay,
                td_neutral_bridges = 0, td_checkpoint_resumes = 0, td_compaction_repairs = rx_compaction_repairs replay,
                td_user_turn_hashes = []\<rparr>))"

definition chat_transcript_diagnostics ::
  "(json \<Rightarrow> string) \<Rightarrow> (string \<Rightarrow> string) \<Rightarrow> json list \<Rightarrow> replay_context \<Rightarrow> harness_transcript_diagnostics option"
where
  "chat_transcript_diagnostics print sha_hex messages replay =
     chat_transcript_diagnostics_with_provenance print sha_hex messages [] replay"

section \<open>Checks\<close>

datatype continuation_tail = NativeToolResult | NeutralUserBridge

datatype reasoning_replay = NoReasoningReplay | ToolCallBound

record runtime_chat_capabilities =
  cc_continuation_tail :: continuation_tail
  cc_reasoning_replay :: reasoning_replay

definition default_chat_capabilities :: runtime_chat_capabilities where
  "default_chat_capabilities = \<lparr>cc_continuation_tail = NativeToolResult, cc_reasoning_replay = NoReasoningReplay\<rparr>"

definition CHAT_CAPABILITY_PROBE_VERSION :: nat where
  "CHAT_CAPABILITY_PROBE_VERSION = 5"

definition migrate_legacy :: "runtime_chat_capabilities \<Rightarrow> bool \<Rightarrow> bool \<Rightarrow> nat option \<Rightarrow> runtime_chat_capabilities" where
  "migrate_legacy c chat_wire reasoning probe_version =
     (if (case probe_version of Some v \<Rightarrow> CHAT_CAPABILITY_PROBE_VERSION \<le> v | None \<Rightarrow> False) then c
      else if chat_wire \<and> reasoning \<and> cc_reasoning_replay c = NoReasoningReplay
           then \<lparr>cc_continuation_tail = cc_continuation_tail c, cc_reasoning_replay = ToolCallBound\<rparr>
      else c)"

text \<open>
  The errors of the checks. The unresolved calls are kept in the order in which they were opened; the
  code prints them in the order of its hash map.
\<close>

datatype transcript_error =
    EmptyTranscript
  | NoSemanticTurn
  | EmptyAssistant nat
  | CallsBeforeClosed nat
  | CallMissingId
  | DuplicateCallId string
  | ToolMissingCallId nat
  | OrphanToolResult string nat
  | InterruptedCalls nat
  | UnresolvedCalls "string list"
  | OccurrenceTwice string
  | ManyCheckpoints nat
  | CheckpointTail
  | UnauthorizedBridge
  | ManyBridges

fun empty_assistant_from :: "(json \<Rightarrow> string) \<Rightarrow> nat \<Rightarrow> json list \<Rightarrow> transcript_error + unit" where
  "empty_assistant_from print index [] = Inr ()"
| "empty_assistant_from print index (m # ms) =
     (if get_str m ''role'' = Some ''assistant'' \<and> \<not> message_has_semantic_content print m then Inl (EmptyAssistant index)
      else empty_assistant_from print (Suc index) ms)"

definition check_chat_message_shape :: "(json \<Rightarrow> string) \<Rightarrow> json list \<Rightarrow> transcript_error + unit" where
  "check_chat_message_shape print messages =
     (if messages = [] then Inl EmptyTranscript
      else if \<not> list_ex (\<lambda>m. get_str m ''role'' = Some ''user'' \<or> get_str m ''role'' = Some ''tool'') messages
           then Inl NoSemanticTurn
      else empty_assistant_from print 0 messages)"

fun open_calls_loop ::
  "json list \<Rightarrow> string list \<Rightarrow> string list \<Rightarrow> transcript_error + string list \<times> string list"
where
  "open_calls_loop [] opened seen = Inr (opened, seen)"
| "open_calls_loop (call # calls) opened seen =
     (case get_str call ''id'' of
        None \<Rightarrow> Inl CallMissingId
      | Some i \<Rightarrow> if i \<in> set seen then Inl (DuplicateCallId i)
                 else open_calls_loop calls (opened @ [i]) (i # seen))"

fun pairing_loop :: "nat \<Rightarrow> string list \<Rightarrow> string list \<Rightarrow> json list \<Rightarrow> transcript_error + unit" where
  "pairing_loop index opened seen [] = (if opened \<noteq> [] then Inl (UnresolvedCalls opened) else Inr ())"
| "pairing_loop index opened seen (m # ms) =
     (if get_str m ''role'' = Some ''assistant'' then
        case get_array m ''tool_calls'' of
          None \<Rightarrow> pairing_loop (Suc index) opened seen ms
        | Some calls \<Rightarrow>
            if opened \<noteq> [] then Inl (CallsBeforeClosed index)
            else (case open_calls_loop calls opened seen of
                    Inl e \<Rightarrow> Inl e
                  | Inr (opened', seen') \<Rightarrow> pairing_loop (Suc index) opened' seen' ms)
      else if get_str m ''role'' = Some ''tool'' then
        case get_str m ''tool_call_id'' of
          None \<Rightarrow> Inl (ToolMissingCallId index)
        | Some i \<Rightarrow> if i \<notin> set opened then Inl (OrphanToolResult i index)
                   else pairing_loop (Suc index) (removeAll i opened) seen ms
      else if opened \<noteq> [] then Inl (InterruptedCalls index)
      else pairing_loop (Suc index) opened seen ms)"

definition check_tool_pairing :: "json list \<Rightarrow> transcript_error + unit" where
  "check_tool_pairing messages = pairing_loop 0 [] [] messages"

fun occurrences_loop ::
  "(json \<Rightarrow> string) \<Rightarrow> chat_message_provenance list \<Rightarrow> nat \<Rightarrow> string list \<Rightarrow> json list \<Rightarrow> transcript_error + unit"
where
  "occurrences_loop print provenance index seen [] = Inr ()"
| "occurrences_loop print provenance index seen (m # ms) =
     (if get_str m ''role'' \<noteq> Some ''user'' then occurrences_loop print provenance (Suc index) seen ms
      else if is_synthetic_bridge_text (message_text print m) \<or> starts_with (message_text print m) CHAT_CHECKPOINT_PREFACE
           then occurrences_loop print provenance (Suc index) seen ms
      else case Option.bind (nth_opt provenance index) mp_occurrence_id of
             None \<Rightarrow> occurrences_loop print provenance (Suc index) seen ms
           | Some occurrence \<Rightarrow>
               if occurrence \<in> set seen then Inl (OccurrenceTwice occurrence)
               else occurrences_loop print provenance (Suc index) (occurrence # seen) ms)"

definition check_duplicate_active_user_occurrences ::
  "(json \<Rightarrow> string) \<Rightarrow> json list \<Rightarrow> chat_message_provenance list \<Rightarrow> transcript_error + unit"
where
  "check_duplicate_active_user_occurrences print messages provenance = occurrences_loop print provenance 0 [] messages"

definition check_active_checkpoint_count :: "(json \<Rightarrow> string) \<Rightarrow> json list \<Rightarrow> transcript_error + unit" where
  "check_active_checkpoint_count print messages =
     (let checkpoints = length (filter (\<lambda>m. starts_with (message_text print m) CHAT_CHECKPOINT_PREFACE \<or>
                                           starts_with (message_text print m) OFFICIAL_SUMMARY_PREFIX) messages)
      in if 1 < checkpoints then Inl (ManyCheckpoints checkpoints) else Inr ())"

definition check_checkpoint_is_not_the_tail :: "(json \<Rightarrow> string) \<Rightarrow> json list \<Rightarrow> transcript_error + unit" where
  "check_checkpoint_is_not_the_tail print messages =
     (if (case last_semantic_message messages of Some m \<Rightarrow> is_chat_checkpoint_message print m | None \<Rightarrow> False)
      then Inl CheckpointTail else Inr ())"

definition is_bridge_message :: "(json \<Rightarrow> string) \<Rightarrow> json \<Rightarrow> bool" where
  "is_bridge_message print m \<longleftrightarrow> get_str m ''role'' = Some ''user'' \<and> is_synthetic_bridge_text (message_text print m)"

definition check_unauthorized_bridge ::
  "(json \<Rightarrow> string) \<Rightarrow> json list \<Rightarrow> runtime_chat_capabilities \<Rightarrow> transcript_error + unit"
where
  "check_unauthorized_bridge print messages capabilities =
     (let bridges = length (filter (is_bridge_message print) messages) in
      if bridges = 0 then Inr ()
      else if cc_continuation_tail capabilities \<noteq> NeutralUserBridge then Inl UnauthorizedBridge
      else if 1 < bridges then Inl ManyBridges
      else Inr ())"

definition check_chat_transcript_invariants_with_provenance ::
  "(json \<Rightarrow> string) \<Rightarrow> json list \<Rightarrow> chat_message_provenance list \<Rightarrow> runtime_chat_capabilities \<Rightarrow> replay_context
     \<Rightarrow> transcript_error + unit"
where
  "check_chat_transcript_invariants_with_provenance print messages provenance capabilities replay =
     (case check_chat_message_shape print messages of Inl e \<Rightarrow> Inl e | Inr _ \<Rightarrow>
      case check_tool_pairing messages of Inl e \<Rightarrow> Inl e | Inr _ \<Rightarrow>
      case check_duplicate_active_user_occurrences print messages provenance of Inl e \<Rightarrow> Inl e | Inr _ \<Rightarrow>
      case check_active_checkpoint_count print messages of Inl e \<Rightarrow> Inl e | Inr _ \<Rightarrow>
      case check_checkpoint_is_not_the_tail print messages of Inl e \<Rightarrow> Inl e | Inr _ \<Rightarrow>
      check_unauthorized_bridge print messages capabilities)"

definition check_chat_transcript_invariants ::
  "(json \<Rightarrow> string) \<Rightarrow> json list \<Rightarrow> runtime_chat_capabilities \<Rightarrow> replay_context \<Rightarrow> transcript_error + unit"
where
  "check_chat_transcript_invariants print messages capabilities replay =
     check_chat_transcript_invariants_with_provenance print messages [] capabilities replay"

section \<open>The projection and its tail\<close>

record chat_projection =
  cp_messages :: "json list"
  cp_provenance :: "chat_message_provenance list"

definition no_provenance :: chat_message_provenance where
  "no_provenance = \<lparr>mp_occurrence_id = None, mp_from_prefix = False\<rparr>"

definition empty_projection :: chat_projection where
  "empty_projection = \<lparr>cp_messages = [], cp_provenance = []\<rparr>"

definition push_message :: "json \<Rightarrow> chat_message_provenance \<Rightarrow> chat_projection \<Rightarrow> chat_projection" where
  "push_message value provenance p =
     p\<lparr>cp_messages := cp_messages p @ [value], cp_provenance := cp_provenance p @ [provenance]\<rparr>"

fun pair_up :: "json list \<Rightarrow> chat_message_provenance list \<Rightarrow> (json \<times> chat_message_provenance) list" where
  "pair_up [] ps = []"
| "pair_up (m # ms) [] = (m, no_provenance) # pair_up ms []"
| "pair_up (m # ms) (p # ps) = (m, p) # pair_up ms ps"

definition into_pairs :: "chat_projection \<Rightarrow> (json \<times> chat_message_provenance) list" where
  "into_pairs p = pair_up (cp_messages p) (cp_provenance p)"

definition from_pairs :: "(json \<times> chat_message_provenance) list \<Rightarrow> chat_projection" where
  "from_pairs pairs = fold (\<lambda>(m, prov). push_message m prov) pairs empty_projection"

definition from_messages :: "json list \<Rightarrow> chat_projection" where
  "from_messages messages = \<lparr>cp_messages = messages, cp_provenance = replicate (length messages) no_provenance\<rparr>"

definition user_message :: "string \<Rightarrow> json" where
  "user_message text = JObject [(''role'', JString ''user''), (''content'', JString text)]"

definition apply_neutral_user_bridge_to_projection ::
  "(json \<Rightarrow> string) \<Rightarrow> runtime_chat_capabilities \<Rightarrow> chat_projection \<Rightarrow> chat_projection"
where
  "apply_neutral_user_bridge_to_projection print capabilities p =
     (if cc_continuation_tail capabilities \<noteq> NeutralUserBridge then p
      else if list_ex (is_bridge_message print) (cp_messages p) then p
      else if Option.bind (last_semantic_message (cp_messages p)) (\<lambda>m. get_str m ''role'') = Some ''tool''
           then push_message (user_message NEUTRAL_USER_BRIDGE_TEXT)
                  \<lparr>mp_occurrence_id = Some ''synthetic:bridge'', mp_from_prefix = False\<rparr> p
      else p)"

definition apply_neutral_user_bridge ::
  "(json \<Rightarrow> string) \<Rightarrow> json list \<Rightarrow> runtime_chat_capabilities \<Rightarrow> json list"
where
  "apply_neutral_user_bridge print messages capabilities =
     cp_messages (apply_neutral_user_bridge_to_projection print capabilities (from_messages messages))"

definition is_resume_message :: "(json \<Rightarrow> string) \<Rightarrow> json \<Rightarrow> bool" where
  "is_resume_message print m \<longleftrightarrow> get_str m ''role'' = Some ''user'' \<and> is_checkpoint_resume_text (message_text print m)"

definition apply_checkpoint_resume_tail_to_projection :: "(json \<Rightarrow> string) \<Rightarrow> chat_projection \<Rightarrow> chat_projection" where
  "apply_checkpoint_resume_tail_to_projection print p =
     (if list_ex (is_resume_message print) (cp_messages p) then p
      else if \<not> (case last_semantic_message (cp_messages p) of
                   Some m \<Rightarrow> is_chat_checkpoint_message print m | None \<Rightarrow> False) then p
      else push_message (user_message CHAT_CHECKPOINT_RESUME_TEXT)
             \<lparr>mp_occurrence_id = Some ''synthetic:checkpoint-resume'', mp_from_prefix = False\<rparr> p)"

definition should_replay_reasoning :: "runtime_chat_capabilities \<Rightarrow> replay_context \<Rightarrow> bool" where
  "should_replay_reasoning capabilities replay \<longleftrightarrow>
     cc_reasoning_replay capabilities = ToolCallBound \<and> rx_allow_reasoning_replay replay \<and> rx_same_route replay"

section \<open>What the local repair drops\<close>

text \<open>The items that stay, read off the list itself; the flag says that a marker has just been dropped.\<close>

fun kept_items :: "(json \<Rightarrow> string) \<Rightarrow> bool \<Rightarrow> json list \<Rightarrow> json list" where
  "kept_items print skip [] = []"
| "kept_items print True (i # is) =
     (if is_verified_summary_replacement print i then kept_items print False is else i # kept_items print False is)"
| "kept_items print False (i # is) =
     (if is_client_local_compaction_marker print i then kept_items print True is else i # kept_items print False is)"

lemma marker_is_replacement:
  assumes "is_client_local_compaction_marker print i"
  shows "is_verified_summary_replacement print i"
proof -
  have "get_str i ''type'' = Some ''context_compaction'' \<or> get_str i ''type'' = Some ''compaction''"
    using assms by (auto simp: is_client_local_compaction_marker_def classify_compaction_item_def split: if_splits)
  then show ?thesis
    by (auto simp: is_verified_summary_replacement_def is_tool_call_def is_tool_output_def is_canonical_checkpoint_item_def)
qed

lemma kept_items_length: "length (kept_items print skip is) \<le> length is"
  by (induction print skip "is" rule: kept_items.induct) auto

lemma kept_items_same_length: "length (kept_items print skip is) = length is \<Longrightarrow> kept_items print skip is = is"
proof (induction print skip "is" rule: kept_items.induct)
  case (2 print i "is")
  then show ?case using kept_items_length [of print False "is"] by (auto split: if_splits)
next
  case (3 print i "is")
  then show ?case using kept_items_length [of print True "is"] by (auto split: if_splits)
qed simp

lemma kept_items_spec:
  "subseq (kept_items print skip is) is \<and>
   list_all (\<lambda>i. \<not> is_client_local_compaction_marker print i) (kept_items print skip is) \<and>
   filter (\<lambda>i. \<not> is_verified_summary_replacement print i) (kept_items print skip is) =
     filter (\<lambda>i. \<not> is_verified_summary_replacement print i) is"
  by (induction print skip "is" rule: kept_items.induct) (auto dest: marker_is_replacement)

lemma strip_fold:
  "ss_out (fold (strip_step print) is s) = ss_out s @ kept_items print (ss_skip_verified_replacement s) is \<and>
   (ss_repaired (fold (strip_step print) is s) \<longleftrightarrow>
      ss_repaired s \<or> length (kept_items print (ss_skip_verified_replacement s) is) < length is)"
proof (induction "is" arbitrary: s)
  case (Cons i "is")
  show ?case
    using Cons.IH [of "strip_step print i s"] kept_items_length [of print False "is"] kept_items_length [of print True "is"]
    by (cases "ss_skip_verified_replacement s") (auto simp: strip_step_def)
qed simp

lemma strip_pairs_fold:
  "map fst (fst (strip_pairs_loop print ps skip repaired d out)) = map fst out @ kept_items print skip (map fst ps) \<and>
   (fst (snd (strip_pairs_loop print ps skip repaired d out)) \<longleftrightarrow>
      repaired \<or> length (kept_items print skip (map fst ps)) < length ps) \<and>
   subseq (fst (strip_pairs_loop print ps skip repaired d out)) (out @ ps)"
proof (induction print ps skip repaired d out rule: strip_pairs_loop.induct)
  case (2 print item identity pairs skip repaired discarded out)
  have "length (kept_items print b (map fst pairs)) \<le> length pairs" for b
    using kept_items_length [of print b "map fst pairs"] by simp
  note len = this [of True] this [of False]
  have skip_one: "subseq xs (out @ pairs) \<Longrightarrow> subseq xs (out @ (item, identity) # pairs)" for xs
    by (rule subseq_order.order_trans) (auto intro: list_emb_append_mono)
  show ?case using 2 len by (cases skip) (auto intro: skip_one)
qed simp

text \<open>
  The local repair of a compacted history removes every proven client-local marker, removes otherwise
  only items that pass for a summary, keeps everything else in order, and reports a repair exactly when it
  removed something; the copy that carries identities keeps the same items, each with its own identity.
\<close>

theorem strip_keeps_ordinary_items:
  "case strip_client_local_compaction print (map fst pairs) of (out, repaired, _) \<Rightarrow>
     subseq out (map fst pairs) \<and>
     list_all (\<lambda>i. \<not> is_client_local_compaction_marker print i) out \<and>
     filter (\<lambda>i. \<not> is_verified_summary_replacement print i) out =
       filter (\<lambda>i. \<not> is_verified_summary_replacement print i) (map fst pairs) \<and>
     (repaired \<longleftrightarrow> out \<noteq> map fst pairs) \<and>
     (case strip_client_local_compaction_pairs print pairs of (out', repaired', _) \<Rightarrow>
        map fst out' = out \<and> repaired' = repaired \<and> subseq out' pairs)"
proof -
  let ?k = "kept_items print False (map fst pairs)"
  let ?s = "\<lparr>ss_out = [], ss_repaired = False, ss_discarded_summary = None, ss_skip_verified_replacement = False\<rparr>"
  have ne: "?k \<noteq> map fst pairs \<longleftrightarrow> length ?k < length pairs"
    using kept_items_same_length [of print False "map fst pairs"] kept_items_length [of print False "map fst pairs"] by force
  show ?thesis
    using kept_items_spec [of print False "map fst pairs"] strip_fold [of print "map fst pairs" ?s]
      strip_pairs_fold [of print pairs False False None "[]"] ne
    by (auto simp: strip_client_local_compaction_def strip_client_local_compaction_pairs_def Let_def split: prod.splits)
qed

text \<open>
  What passes for a summary is wider than a summary: a provider-owned opaque compaction directly behind a
  local marker is dropped with it, and of two adjacent markers the second is taken for the summary of
  the first, so that its own summary stays.
\<close>

lemma opaque_dropped_behind_marker:
  "strip_client_local_compaction print
     [JObject [(''type'', JString ''context_compaction'')],
      JObject [(''type'', JString ''compaction''), (''encrypted_content'', JString ''gAAAA'')]] = ([], True, Some [])"
  by (simp add: strip_client_local_compaction_def strip_step_def is_client_local_compaction_marker_def
      classify_compaction_item_def is_verified_summary_replacement_def is_tool_call_def is_tool_output_def
      is_canonical_checkpoint_item_def get_str_def embedded_compaction_summary_def or_else_def item_plain_text_def)

section \<open>Tool pairing\<close>

text \<open>
  What a paired transcript is, without the bookkeeping of the check: an assistant message that announces
  calls is followed by its block, in which exactly the announced calls are answered, each once and in
  any order; no id is announced twice in the transcript. An assistant message without a list of calls
  may stand anywhere, also inside a block.
\<close>

definition is_tool_message :: "json \<Rightarrow> bool" where
  "is_tool_message m \<longleftrightarrow> get_str m ''role'' = Some ''tool''"

definition announced_calls :: "json \<Rightarrow> json list option" where
  "announced_calls m = (if get_str m ''role'' = Some ''assistant'' then get_array m ''tool_calls'' else None)"

definition in_block :: "json \<Rightarrow> bool" where
  "in_block m \<longleftrightarrow> is_tool_message m \<or> (get_str m ''role'' = Some ''assistant'' \<and> get_array m ''tool_calls'' = None)"

definition answered_ids :: "json list \<Rightarrow> string option list" where
  "answered_ids ms = map (\<lambda>m. get_str m ''tool_call_id'') (filter is_tool_message ms)"

inductive paired :: "string set \<Rightarrow> json list \<Rightarrow> bool" where
  paired_nil: "paired S []"
| paired_plain: "\<not> is_tool_message m \<Longrightarrow> announced_calls m = None \<Longrightarrow> paired S ms \<Longrightarrow> paired S (m # ms)"
| paired_block:
    "announced_calls m = Some calls \<Longrightarrow> map (\<lambda>c. get_str c ''id'') calls = map Some ids \<Longrightarrow> distinct ids \<Longrightarrow>
     set ids \<inter> S = {} \<Longrightarrow> list_all in_block body \<Longrightarrow> mset (answered_ids body) = mset (map Some ids) \<Longrightarrow>
     paired (S \<union> set ids) rest \<Longrightarrow> paired S (m # body @ rest)"

lemma answered_ids_simps [simp]:
  "answered_ids [] = []"
  "answered_ids (m # ms) = (if is_tool_message m then [get_str m ''tool_call_id''] else []) @ answered_ids ms"
  by (simp_all add: answered_ids_def)

lemma paired_append_plain:
  "list_all in_block body \<Longrightarrow> answered_ids body = [] \<Longrightarrow> paired S rest \<Longrightarrow> paired S (body @ rest)"
  by (induction body)
    (auto simp: in_block_def announced_calls_def is_tool_message_def intro!: paired_plain split: if_splits)

lemma mset_remove_answer:
  assumes "distinct opened" and "i \<in> set opened"
  shows "add_mset (Some i) (mset xs) = mset (map Some opened) \<longleftrightarrow> mset xs = mset (map Some (removeAll i opened))"
proof -
  have "mset opened = add_mset i (mset (removeAll i opened))"
    using assms by (simp flip: distinct_remove1_removeAll)
  then have "mset (map Some opened) = add_mset (Some i) (mset (map Some (removeAll i opened)))"
    by simp
  then show ?thesis by simp
qed

lemma open_calls_ok:
  "map (\<lambda>c. get_str c ''id'') calls = map Some ids \<Longrightarrow> distinct ids \<Longrightarrow> set ids \<inter> set seen = {} \<Longrightarrow>
   open_calls_loop calls opened seen = Inr (opened @ ids, rev ids @ seen)"
proof (induction calls arbitrary: ids opened seen)
  case (Cons c calls)
  then obtain i ids' where "ids = i # ids'" by (cases ids) auto
  with Cons.prems Cons.IH [of ids' "i # seen" "opened @ [i]"] show ?case by auto
qed simp

lemma open_calls_only:
  "open_calls_loop calls opened seen = Inr (opened', seen') \<Longrightarrow>
   \<exists>ids. map (\<lambda>c. get_str c ''id'') calls = map Some ids \<and> distinct ids \<and> set ids \<inter> set seen = {} \<and>
     opened' = opened @ ids \<and> seen' = rev ids @ seen"
proof (induction calls arbitrary: opened seen)
  case (Cons c calls)
  then obtain i where i: "get_str c ''id'' = Some i" "i \<notin> set seen"
    and "open_calls_loop calls (opened @ [i]) (i # seen) = Inr (opened', seen')"
    by (auto split: option.splits if_splits)
  with Cons.IH obtain ids where "map (\<lambda>c. get_str c ''id'') calls = map Some ids" "distinct ids"
    "set ids \<inter> set (i # seen) = {}" "opened' = (opened @ [i]) @ ids" "seen' = rev ids @ i # seen" by metis
  with i show ?case by (intro exI [of _ "i # ids"]) auto
qed simp

lemma pairing_block:
  "distinct opened \<Longrightarrow> list_all in_block body \<Longrightarrow> mset (answered_ids body) = mset (map Some opened) \<Longrightarrow>
   pairing_loop index opened seen (body @ rest) = pairing_loop (index + length body) [] seen rest"
proof (induction body arbitrary: index opened)
  case (Cons m body)
  show ?case
  proof (cases "is_tool_message m")
    case True
    have "set (answered_ids (m # body)) = set (map Some opened)" by (rule mset_eq_setD [OF Cons.prems(3)])
    then have "get_str m ''tool_call_id'' \<in> set (map Some opened)" using True by auto
    then obtain i where i: "get_str m ''tool_call_id'' = Some i" "i \<in> set opened" by auto
    with True Cons.prems have "mset (answered_ids body) = mset (map Some (removeAll i opened))"
      using mset_remove_answer [OF Cons.prems(1) i(2), of "answered_ids body"] by simp
    with True i Cons show ?thesis by (simp add: is_tool_message_def distinct_removeAll)
  next
    case False
    with Cons show ?thesis by (simp add: in_block_def is_tool_message_def)
  qed
qed simp

lemma paired_accepted: "paired S ms \<Longrightarrow> S = set seen \<Longrightarrow> pairing_loop index [] seen ms = Inr ()"
proof (induction arbitrary: index seen rule: paired.induct)
  case (paired_plain m S ms)
  then show ?case by (auto simp: is_tool_message_def announced_calls_def split: if_splits)
next
  case (paired_block m calls ids S body rest)
  have "open_calls_loop calls [] seen = Inr (ids, rev ids @ seen)"
    using open_calls_ok [of calls ids seen "[]"] paired_block by simp
  moreover have "get_str m ''role'' = Some ''assistant''" "get_array m ''tool_calls'' = Some calls"
    using paired_block.hyps(1) by (auto simp: announced_calls_def split: if_splits)
  moreover have "pairing_loop (Suc (index + length body)) [] (rev ids @ seen) rest = Inr ()"
    by (rule paired_block.IH) (simp add: paired_block.prems Un_commute)
  ultimately show ?case
    using pairing_block [OF paired_block.hyps(3,5,6), of "Suc index" "rev ids @ seen" rest] by simp
qed simp

lemma accepted_paired:
  "pairing_loop index opened seen ms = Inr () \<Longrightarrow> distinct opened \<Longrightarrow>
   \<exists>body rest. ms = body @ rest \<and> list_all in_block body \<and> mset (answered_ids body) = mset (map Some opened) \<and>
     paired (set seen) rest"
proof (induction ms arbitrary: index opened seen)
  case Nil
  then show ?case by (auto intro: paired_nil split: if_splits)
next
  case (Cons m ms)
  consider (prose) "get_str m ''role'' = Some ''assistant''" "get_array m ''tool_calls'' = None"
    | (calls) calls where "get_str m ''role'' = Some ''assistant''" "get_array m ''tool_calls'' = Some calls"
    | (tool) "get_str m ''role'' = Some ''tool''"
    | (plain) "get_str m ''role'' \<notin> {Some ''assistant'', Some ''tool''}"
    by (cases "get_array m ''tool_calls''") auto
  then show ?case
  proof cases
    case prose
    with Cons.prems Cons.IH obtain body rest where "ms = body @ rest" "list_all in_block body"
      "mset (answered_ids body) = mset (map Some opened)" "paired (set seen) rest" by (auto split: if_splits) metis
    moreover have "in_block m" "\<not> is_tool_message m" using prose by (simp_all add: in_block_def is_tool_message_def)
    ultimately show ?thesis by - (rule exI [where x = "m # body"], rule exI [where x = rest], simp)
  next
    case calls
    with Cons.prems obtain opened' seen' where o: "opened = []" "open_calls_loop calls [] seen = Inr (opened', seen')"
      and loop: "pairing_loop (Suc index) opened' seen' ms = Inr ()" by (auto split: if_splits sum.splits)
    from open_calls_only [OF o(2)] obtain ids where ids: "map (\<lambda>c. get_str c ''id'') calls = map Some ids" "distinct ids"
      "set ids \<inter> set seen = {}" "opened' = ids" "seen' = rev ids @ seen" by auto
    from Cons.IH [OF loop] ids obtain body rest where "ms = body @ rest" "list_all in_block body"
      "mset (answered_ids body) = mset (map Some ids)" "paired (set seen') rest" by auto
    moreover have "announced_calls m = Some calls" using calls by (simp add: announced_calls_def)
    ultimately have "paired (set seen) (m # body @ rest)"
      using ids by (intro paired_block) (auto simp: Un_commute)
    with \<open>ms = body @ rest\<close> o(1) show ?thesis by - (rule exI [where x = "[]"], simp)
  next
    case tool
    with Cons.prems obtain i where i: "get_str m ''tool_call_id'' = Some i" "i \<in> set opened"
      and loop: "pairing_loop (Suc index) (removeAll i opened) seen ms = Inr ()" by (auto split: if_splits option.splits)
    from Cons.IH [OF loop] Cons.prems(2) obtain body rest where b: "ms = body @ rest" "list_all in_block body"
      "mset (answered_ids body) = mset (map Some (removeAll i opened))" "paired (set seen) rest"
      by (auto simp: distinct_removeAll)
    moreover have "in_block m" "is_tool_message m" using tool by (simp_all add: in_block_def is_tool_message_def)
    ultimately show ?thesis
      using i mset_remove_answer [OF Cons.prems(2) i(2), of "answered_ids body"]
      by - (rule exI [where x = "m # body"], rule exI [where x = rest], simp)
  next
    case plain
    with Cons.prems have o: "opened = []" and loop: "pairing_loop (Suc index) [] seen ms = Inr ()"
      by (auto split: if_splits)
    from Cons.IH [OF loop] have "paired (set seen) ms" by (auto intro: paired_append_plain)
    with plain have "paired (set seen) (m # ms)"
      by (intro paired_plain) (auto simp: is_tool_message_def announced_calls_def)
    with o show ?thesis by - (rule exI [where x = "[]"], simp)
  qed
qed

text \<open>
  The check accepts a transcript exactly when its tool calls are paired: every block answers the
  calls announced before it, each once, and no id is announced twice.
\<close>

theorem check_tool_pairing_iff: "check_tool_pairing messages = Inr () \<longleftrightarrow> paired {} messages"
proof
  assume "check_tool_pairing messages = Inr ()"
  from accepted_paired [OF this [unfolded check_tool_pairing_def]] show "paired {} messages"
    by (auto intro: paired_append_plain)
qed (simp add: check_tool_pairing_def paired_accepted)

section \<open>Diagnostics of an accepted transcript\<close>

lemma shape_calls_open:
  "open_calls_loop calls opened seen = Inr (opened', seen') \<Longrightarrow>
   distinct opened2 \<Longrightarrow> set opened2 = set opened \<Longrightarrow> set seen2 = set seen \<Longrightarrow>
   \<exists>opened3 seen3. shape_calls calls opened2 seen2 d = (opened3, seen3, d) \<and>
     distinct opened3 \<and> set opened3 = set opened' \<and> set seen3 = set seen'"
proof (induction calls arbitrary: opened seen opened2 seen2)
  case (Cons c calls)
  then obtain i where i: "get_str c ''id'' = Some i" "i \<notin> set seen"
    and loop: "open_calls_loop calls (opened @ [i]) (i # seen) = Inr (opened', seen')"
    by (auto split: option.splits if_splits)
  from Cons.IH [OF loop, of "List.insert i opened2" "List.insert i seen2"] Cons.prems i show ?case by simp
qed simp

lemma accepted_shape:
  "pairing_loop index opened seen ms = Inr () \<Longrightarrow>
   distinct opened2 \<Longrightarrow> set opened2 = set opened \<Longrightarrow> set seen2 = set seen \<Longrightarrow>
   sh_orphan_tool_results (shape_loop print ms opened2 seen2 sh) = sh_orphan_tool_results sh \<and>
   sh_duplicate_tool_ids (shape_loop print ms opened2 seen2 sh) = sh_duplicate_tool_ids sh \<and>
   sh_tool_pairs (shape_loop print ms opened2 seen2 sh) = sh_tool_pairs sh + length (filter is_tool_message ms)"
proof (induction ms arbitrary: index opened seen opened2 seen2 sh)
  case Nil
  then show ?case by (auto split: if_splits)
next
  case (Cons m ms)
  consider (prose) "get_str m ''role'' = Some ''assistant''" "get_array m ''tool_calls'' = None"
    | (calls) calls where "get_str m ''role'' = Some ''assistant''" "get_array m ''tool_calls'' = Some calls"
    | (tool) "get_str m ''role'' = Some ''tool''"
    | (plain) "get_str m ''role'' \<notin> {Some ''assistant'', Some ''tool''}"
    by (cases "get_array m ''tool_calls''") auto
  then show ?case
  proof cases
    case prose
    with Cons.prems(1) have "pairing_loop (Suc index) opened seen ms = Inr ()" by simp
    from Cons.IH [OF this Cons.prems(2-4)] prose show ?thesis by (simp add: is_tool_message_def)
  next
    case calls
    with Cons.prems(1) obtain opened' seen' where o: "open_calls_loop calls opened seen = Inr (opened', seen')"
      and loop: "pairing_loop (Suc index) opened' seen' ms = Inr ()" by (auto split: if_splits sum.splits)
    define sh1 where "sh1 = (if \<not> message_has_semantic_content print m
      then sh\<lparr>sh_empty_messages := sh_empty_messages sh + 1\<rparr> else sh)"
    from shape_calls_open [OF o Cons.prems(2-4)] obtain opened3 seen3
      where s: "shape_calls calls opened2 seen2 (sh_duplicate_tool_ids sh1) = (opened3, seen3, sh_duplicate_tool_ids sh1)"
        "distinct opened3" "set opened3 = set opened'" "set seen3 = set seen'" by metis
    have "shape_loop print (m # ms) opened2 seen2 sh = shape_loop print ms opened3 seen3 (sh1\<lparr>sh_duplicate_tool_ids := sh_duplicate_tool_ids sh1\<rparr>)"
      using calls s(1) by (simp add: Let_def sh1_def [symmetric])
    with Cons.IH [OF loop s(2-4)] calls show ?thesis by (simp add: is_tool_message_def sh1_def)
  next
    case tool
    with Cons.prems(1) obtain i where i: "get_str m ''tool_call_id'' = Some i" "i \<in> set opened"
      and loop: "pairing_loop (Suc index) (removeAll i opened) seen ms = Inr ()" by (auto split: if_splits option.splits)
    from Cons.IH [OF loop, of "removeAll i opened2" seen2] Cons.prems(2-4) tool i show ?thesis
      by (simp add: is_tool_message_def distinct_removeAll Let_def)
  next
    case plain
    with Cons.prems(1) have "pairing_loop (Suc index) opened seen ms = Inr ()" by (auto split: if_splits)
    from Cons.IH [OF this Cons.prems(2-4)] plain show ?thesis by (simp add: is_tool_message_def)
  qed
qed

lemma count_message_kept:
  "td_orphan_tool_results (fold (count_message print sha_hex prov) ims d) = td_orphan_tool_results d"
  "td_duplicate_tool_ids (fold (count_message print sha_hex prov) ims d) = td_duplicate_tool_ids d"
  "td_tool_pairs (fold (count_message print sha_hex prov) ims d) = td_tool_pairs d"
  "td_role_sequence (fold (count_message print sha_hex prov) ims d) = td_role_sequence d"
  "td_tool_messages (fold (count_message print sha_hex prov) ims d) =
     td_tool_messages d + length (filter is_tool_message (map snd ims))"
  by (induction ims arbitrary: d)
    (auto simp: count_message_def Let_def is_tool_message_def split: prod.splits)

lemma role_sequence_bound:
  "length summary < ROLE_SEQUENCE_LIMIT \<Longrightarrow> role_sequence_loop index summary ms = Some s \<Longrightarrow> length s \<le> ROLE_SEQUENCE_LIMIT"
  by (induction index summary ms rule: role_sequence_loop.induct)
    (auto simp: Let_def truncate_string_def ROLE_SEQUENCE_LIMIT_def split: if_splits)

text \<open>
  The counters recorded of a transcript that passed the checks: no orphan result, no repeated call
  id, as many pairs as tool messages, and a role summary of at most 160 bytes.
\<close>

theorem accepted_transcript_diagnostics:
  assumes "check_chat_transcript_invariants_with_provenance print messages provenance capabilities replay = Inr ()"
    and "chat_transcript_diagnostics_with_provenance print sha_hex messages provenance replay = Some d"
  shows "td_orphan_tool_results d = 0 \<and> td_duplicate_tool_ids d = 0 \<and> td_tool_pairs d = td_tool_messages d \<and>
         length (td_role_sequence d) \<le> 160"
proof -
  have pair: "check_tool_pairing messages = Inr ()"
    using assms(1) by (auto simp: check_chat_transcript_invariants_with_provenance_def split: sum.splits)
  from accepted_shape [OF pair [unfolded check_tool_pairing_def], of "[]" "[]" print]
  have shape: "sh_orphan_tool_results (chat_message_shape print messages) = 0"
    "sh_duplicate_tool_ids (chat_message_shape print messages) = 0"
    "sh_tool_pairs (chat_message_shape print messages) = length (filter is_tool_message messages)"
    by (simp_all add: chat_message_shape_def)
  from assms(2) obtain roles where roles: "role_sequence_summary messages = Some roles"
    by (auto simp: chat_transcript_diagnostics_with_provenance_def Let_def split: option.splits)
  have "length roles \<le> 160"
    using role_sequence_bound [of "[]" 0 messages roles] roles
    by (simp add: role_sequence_summary_def ROLE_SEQUENCE_LIMIT_def)
  then show ?thesis
    using assms(2) roles shape
    by (auto simp: chat_transcript_diagnostics_with_provenance_def Let_def count_message_kept)
qed


definition sample_call :: json where
  "sample_call = JObject [(''role'', JString ''assistant''), (''content'', JString []),
     (''tool_calls'', JArray [JObject [(''id'', JString ''a'')]])]"

definition sample_result :: json where
  "sample_result = JObject [(''role'', JString ''tool''), (''tool_call_id'', JString ''a''), (''content'', JString ''ok'')]"

definition sample_transcript :: "json list" where
  "sample_transcript = [user_message ''hi'', sample_call, sample_result]"

lemma sample_transcript_accepted:
  "check_chat_transcript_invariants_with_provenance (\<lambda>_. ''null'') sample_transcript [] default_chat_capabilities replay = Inr ()"
  by code_simp

theorem accepted_transcript_diagnostics_witness:
  "\<exists>d. chat_transcript_diagnostics_with_provenance (\<lambda>_. ''null'') id sample_transcript [] default_replay_context = Some d \<and>
     td_orphan_tool_results d = 0 \<and> td_tool_pairs d = td_tool_messages d"
proof -
  have "role_sequence_summary sample_transcript = Some ''user>assistant>tool''" by code_simp
  then obtain d where "chat_transcript_diagnostics_with_provenance (\<lambda>_. ''null'') id sample_transcript []
      default_replay_context = Some d"
    by (simp add: chat_transcript_diagnostics_with_provenance_def Let_def)
  with accepted_transcript_diagnostics [OF sample_transcript_accepted this] show ?thesis by blast
qed

section \<open>Limits of the checks\<close>

text \<open>
  An assistant message whose content is an explicit \<open>null\<close> prints as the text \<open>null\<close> and is not empty for the
  check; one without a content is.
\<close>

lemma null_content_counts_as_text:
  assumes "print JNull = ''null''"
  shows "check_chat_message_shape print
           [user_message ''hi'', JObject [(''role'', JString ''assistant''), (''content'', JNull)]] = Inr ()"
    and "check_chat_message_shape print [user_message ''hi'', JObject [(''role'', JString ''assistant'')]] =
           Inl (EmptyAssistant 1)"
proof -
  have "trim ''null'' \<noteq> []" "trim [] = []" by code_simp+
  then show "check_chat_message_shape print
           [user_message ''hi'', JObject [(''role'', JString ''assistant''), (''content'', JNull)]] = Inr ()"
    and "check_chat_message_shape print [user_message ''hi'', JObject [(''role'', JString ''assistant'')]] =
           Inl (EmptyAssistant 1)"
    using assms
    by (simp_all add: check_chat_message_shape_def user_message_def get_str_def get_array_def nonblank_field_def
        message_has_semantic_content_def item_plain_text_def content_to_plain_string_def content_to_text_def)
qed

text \<open>A user message between a call and its result is refused, an assistant message is not.\<close>

lemma assistant_may_interrupt:
  "check_tool_pairing [sample_call, user_message ''wait'', sample_result] = Inl (InterruptedCalls 1)"
  "check_tool_pairing [sample_call, JObject [(''role'', JString ''assistant''), (''content'', JString ''wait'')],
     sample_result] = Inr ()"
  by code_simp+

text \<open>A role with a two-byte character across position 157 makes the role summary panic.\<close>

lemma role_summary_panics:
  "role_sequence_summary [JObject [(''role'', JString (replicate 156 CHR ''a'' @ [CHR 0xC3, CHR 0xA9, CHR ''a'', CHR ''a'']))]]
     = None"
  by code_simp

section \<open>The appended messages\<close>

lemma user_message_simps [simp]:
  "get_str (user_message t) ''role'' = Some ''user''"
  "get_array (user_message t) ''tool_calls'' = None"
  "message_text print (user_message t) = t"
  by (simp_all add: user_message_def get_str_def get_array_def message_text_def content_to_plain_string_def content_to_text_def)

lemma fixed_texts:
  "trim NEUTRAL_USER_BRIDGE_TEXT = NEUTRAL_USER_BRIDGE_TEXT"
  "trim CHAT_CHECKPOINT_RESUME_TEXT = CHAT_CHECKPOINT_RESUME_TEXT"
  by code_simp+

lemma fixed_texts_apart:
  "\<not> is_synthetic_bridge_text CHAT_CHECKPOINT_RESUME_TEXT" "is_synthetic_bridge_text NEUTRAL_USER_BRIDGE_TEXT"
  "\<not> is_checkpoint_resume_text NEUTRAL_USER_BRIDGE_TEXT" "is_checkpoint_resume_text CHAT_CHECKPOINT_RESUME_TEXT"
  "\<not> starts_with NEUTRAL_USER_BRIDGE_TEXT CHAT_CHECKPOINT_PREFACE" "\<not> starts_with CHAT_CHECKPOINT_RESUME_TEXT CHAT_CHECKPOINT_PREFACE"
  "\<not> starts_with NEUTRAL_USER_BRIDGE_TEXT OFFICIAL_SUMMARY_PREFIX" "\<not> starts_with CHAT_CHECKPOINT_RESUME_TEXT OFFICIAL_SUMMARY_PREFIX"
  by (simp_all add: is_synthetic_bridge_text_def is_checkpoint_resume_text_def fixed_texts)
    (simp_all add: starts_with_def NEUTRAL_USER_BRIDGE_TEXT_def CHAT_CHECKPOINT_RESUME_TEXT_def
      CHAT_CHECKPOINT_PREFACE_def OFFICIAL_SUMMARY_PREFIX_def)

lemma shape_snoc:
  "check_chat_message_shape print ms = Inr () \<Longrightarrow> check_chat_message_shape print (ms @ [user_message t]) = Inr ()"
proof -
  have "empty_assistant_from print i ms = Inr () \<Longrightarrow> empty_assistant_from print i (ms @ [user_message t]) = Inr ()" for i
    by (induction ms arbitrary: i) (auto split: if_splits)
  then show "check_chat_message_shape print ms = Inr () \<Longrightarrow> ?thesis"
    by (auto simp: check_chat_message_shape_def split: if_splits)
qed

lemma pairing_snoc: "check_tool_pairing ms = Inr () \<Longrightarrow> check_tool_pairing (ms @ [user_message t]) = Inr ()"
proof -
  have "pairing_loop i opened seen ms = Inr () \<Longrightarrow> pairing_loop i opened seen (ms @ [user_message t]) = Inr ()"
    for i opened seen
    by (induction i opened seen ms rule: pairing_loop.induct) (auto split: if_splits option.splits sum.splits)
  then show "check_tool_pairing ms = Inr () \<Longrightarrow> ?thesis" by (simp add: check_tool_pairing_def)
qed

lemma occurrences_snoc:
  assumes "check_duplicate_active_user_occurrences print ms prov = Inr ()" and "length prov = length ms"
    and "is_synthetic_bridge_text t \<or> occ \<notin> Option.these (set (map mp_occurrence_id prov))"
  shows "check_duplicate_active_user_occurrences print (ms @ [user_message t])
           (prov @ [\<lparr>mp_occurrence_id = Some occ, mp_from_prefix = b\<rparr>]) = Inr ()"
proof -
  let ?p = "\<lparr>mp_occurrence_id = Some occ, mp_from_prefix = b\<rparr>"
  have "occurrences_loop print (prov @ [?p]) i seen (ns @ [user_message t]) = Inr ()"
    if "occurrences_loop print prov i seen ns = Inr ()" "length prov = i + length ns"
      "set seen \<subseteq> Option.these (set (map mp_occurrence_id prov))" for i seen ns
    using that
  proof (induction ns arbitrary: i seen)
    case Nil
    then show ?case using assms(3) by (auto simp: nth_opt_def)
  next
    case (Cons m ns)
    have nth: "nth_opt (prov @ [?p]) i = nth_opt prov i" "i < length prov"
      using Cons.prems(2) by (simp_all add: nth_opt_def nth_append)
    have mem: "o' \<in> Option.these (set (map mp_occurrence_id prov))"
      if "Option.bind (nth_opt prov i) mp_occurrence_id = Some o'" for o'
      using that nth(2) by (force simp: nth_opt_def Option.these_def in_set_conv_nth image_iff split: if_splits)
    show ?case using Cons nth mem by (auto split: if_splits option.splits)
  qed
  from this [of 0 "[]" ms] assms show ?thesis by (simp add: check_duplicate_active_user_occurrences_def)
qed

lemma last_semantic_snoc: "is_semantic_role m \<Longrightarrow> last_semantic_message (ms @ [m]) = Some m"
  by (simp add: last_semantic_message_def)

lemma tail_snoc: "check_checkpoint_is_not_the_tail print (ms @ [user_message t]) = Inr ()"
  by (simp add: check_checkpoint_is_not_the_tail_def last_semantic_snoc is_semantic_role_def is_chat_checkpoint_message_def)


text \<open>Everything the checks ask of a projection apart from its last message.\<close>

definition sound_but_tail :: "(json \<Rightarrow> string) \<Rightarrow> runtime_chat_capabilities \<Rightarrow> chat_projection \<Rightarrow> bool" where
  "sound_but_tail print capabilities p \<longleftrightarrow>
     length (cp_provenance p) = length (cp_messages p) \<and>
     check_chat_message_shape print (cp_messages p) = Inr () \<and> check_tool_pairing (cp_messages p) = Inr () \<and>
     check_duplicate_active_user_occurrences print (cp_messages p) (cp_provenance p) = Inr () \<and>
     check_active_checkpoint_count print (cp_messages p) = Inr () \<and>
     check_unauthorized_bridge print (cp_messages p) capabilities = Inr ()"

lemma sound_push:
  assumes "sound_but_tail print capabilities p"
    and "is_synthetic_bridge_text t \<or> occ \<notin> Option.these (set (map mp_occurrence_id (cp_provenance p)))"
    and "\<not> starts_with t CHAT_CHECKPOINT_PREFACE" "\<not> starts_with t OFFICIAL_SUMMARY_PREFIX"
    and "is_synthetic_bridge_text t \<longrightarrow>
      cc_continuation_tail capabilities = NeutralUserBridge \<and> \<not> list_ex (is_bridge_message print) (cp_messages p)"
  shows "sound_but_tail print capabilities
           (push_message (user_message t) \<lparr>mp_occurrence_id = Some occ, mp_from_prefix = b\<rparr> p)"
proof -
  have "check_active_checkpoint_count print (cp_messages p @ [user_message t]) = Inr ()"
    using assms(1,3,4) by (simp add: sound_but_tail_def check_active_checkpoint_count_def Let_def split: if_splits)
  moreover have "check_unauthorized_bridge print (cp_messages p @ [user_message t]) capabilities = Inr ()"
  proof (cases "is_synthetic_bridge_text t")
    case True
    with assms(5) have "filter (is_bridge_message print) (cp_messages p) = []" by (simp add: filter_empty_conv list_ex_iff)
    with True assms(5) show ?thesis by (simp add: check_unauthorized_bridge_def is_bridge_message_def)
  next
    case False
    with assms(1) show ?thesis by (simp add: sound_but_tail_def check_unauthorized_bridge_def is_bridge_message_def)
  qed
  ultimately show ?thesis
    using assms(1,2) by (simp add: sound_but_tail_def push_message_def shape_snoc pairing_snoc occurrences_snoc)
qed

lemma sound_bridge:
  "sound_but_tail print capabilities p \<Longrightarrow>
   sound_but_tail print capabilities (apply_neutral_user_bridge_to_projection print capabilities p)"
  unfolding apply_neutral_user_bridge_to_projection_def
  by (auto intro!: sound_push simp: fixed_texts_apart)

lemma sound_resume:
  "sound_but_tail print capabilities p \<Longrightarrow>
   ''synthetic:checkpoint-resume'' \<notin> Option.these (set (map mp_occurrence_id (cp_provenance p))) \<Longrightarrow>
   sound_but_tail print capabilities (apply_checkpoint_resume_tail_to_projection print p)"
  unfolding apply_checkpoint_resume_tail_to_projection_def
  by (auto intro!: sound_push simp: fixed_texts_apart)

lemma sound_accepted:
  "sound_but_tail print capabilities p \<Longrightarrow> check_checkpoint_is_not_the_tail print (cp_messages p) = Inr () \<Longrightarrow>
   check_chat_transcript_invariants_with_provenance print (cp_messages p) (cp_provenance p) capabilities replay = Inr ()"
  by (simp add: sound_but_tail_def check_chat_transcript_invariants_with_provenance_def)

lemma resume_clears_tail:
  "\<not> list_ex (is_resume_message print) (cp_messages p) \<Longrightarrow>
   check_checkpoint_is_not_the_tail print (cp_messages (apply_checkpoint_resume_tail_to_projection print p)) = Inr ()"
  by (auto simp: apply_checkpoint_resume_tail_to_projection_def push_message_def tail_snoc)
    (simp add: check_checkpoint_is_not_the_tail_def)

lemma bridge_adds_no_resume:
  "list_ex (is_resume_message print) (cp_messages (apply_neutral_user_bridge_to_projection print capabilities p)) =
   list_ex (is_resume_message print) (cp_messages p)"
  by (simp add: apply_neutral_user_bridge_to_projection_def push_message_def is_resume_message_def fixed_texts_apart)

lemma bridge_occurrences:
  "set (cp_provenance (apply_neutral_user_bridge_to_projection print capabilities p)) \<subseteq>
   insert \<lparr>mp_occurrence_id = Some ''synthetic:bridge'', mp_from_prefix = False\<rparr> (set (cp_provenance p))"
  by (auto simp: apply_neutral_user_bridge_to_projection_def push_message_def)

text \<open>
  The two fixed messages repair the tail and nothing else: a projection that passes every other
  check, and in which nobody has written the resume text, passes all checks once the bridge and the
  resume message have been considered in this order, whatever message it ended on.
\<close>

theorem tail_messages_accepted:
  assumes "sound_but_tail print capabilities p" and "\<not> list_ex (is_resume_message print) (cp_messages p)"
    and "''synthetic:checkpoint-resume'' \<notin> Option.these (set (map mp_occurrence_id (cp_provenance p)))"
    and "q = apply_checkpoint_resume_tail_to_projection print
               (apply_neutral_user_bridge_to_projection print capabilities p)"
  shows "check_chat_transcript_invariants_with_provenance print (cp_messages q) (cp_provenance q) capabilities replay = Inr ()"
proof -
  let ?b = "apply_neutral_user_bridge_to_projection print capabilities p"
  have "''synthetic:checkpoint-resume'' \<notin> Option.these (set (map mp_occurrence_id (cp_provenance ?b)))"
  proof
    assume "''synthetic:checkpoint-resume'' \<in> Option.these (set (map mp_occurrence_id (cp_provenance ?b)))"
    then obtain x where x: "x \<in> set (cp_provenance ?b)" "mp_occurrence_id x = Some ''synthetic:checkpoint-resume''"
      by (auto simp: in_these_eq)
    from x(1) bridge_occurrences
    have "x = \<lparr>mp_occurrence_id = Some ''synthetic:bridge'', mp_from_prefix = False\<rparr> \<or> x \<in> set (cp_provenance p)" by blast
    with x(2) assms(3) show False by (auto simp: in_these_eq image_iff)
  qed
  then show ?thesis
    unfolding assms(4)
    by (intro sound_accepted sound_resume sound_bridge resume_clears_tail)
      (use assms(1,2) in \<open>simp_all add: bridge_adds_no_resume\<close>)
qed

definition sample_checkpoint :: json where
  "sample_checkpoint = JObject [(''role'', JString ''assistant''), (''content'', JString (CHAT_CHECKPOINT_PREFACE @ '': done''))]"

theorem tail_messages_accepted_witness:
  "check_chat_transcript_invariants (\<lambda>_. ''null'') [user_message ''hi'', sample_checkpoint] default_chat_capabilities
     default_replay_context = Inl CheckpointTail \<and>
   (\<exists>q. q = apply_checkpoint_resume_tail_to_projection (\<lambda>_. ''null'')
           (apply_neutral_user_bridge_to_projection (\<lambda>_. ''null'') default_chat_capabilities
              (from_messages [user_message ''hi'', sample_checkpoint])) \<and>
     check_chat_transcript_invariants_with_provenance (\<lambda>_. ''null'') (cp_messages q) (cp_provenance q)
       default_chat_capabilities default_replay_context = Inr ())"
proof -
  let ?p = "from_messages [user_message ''hi'', sample_checkpoint]"
  have "check_chat_transcript_invariants (\<lambda>_. ''null'') [user_message ''hi'', sample_checkpoint] default_chat_capabilities
     replay = Inl CheckpointTail" for replay by code_simp
  moreover have "sound_but_tail (\<lambda>_. ''null'') default_chat_capabilities ?p"
    "\<not> list_ex (is_resume_message (\<lambda>_. ''null'')) (cp_messages ?p)" by code_simp+
  moreover have "''synthetic:checkpoint-resume'' \<notin> Option.these (set (map mp_occurrence_id (cp_provenance ?p)))"
    by (simp add: from_messages_def no_provenance_def)
  ultimately show ?thesis using tail_messages_accepted [OF _ _ _ refl] by blast
qed

end
