(* ===== verification/Chat_Projection.thy ===== *)
theory Chat_Projection
  imports Chat_Transcript Adapter
begin

text \<open>
  From Responses items to Chat messages (\<open>profile_adapter.rs\<close>): the projection of the input items, the
  merging of adjacent assistant messages, the removal of calls that have no result yet, the system
  head, and the smaller rewrites of the body on the way to the provider (tool choice, repeated tool
  definitions, the place of the reasoning effort). \<open>Value::to_string\<close> is the argument \<open>print\<close>.
\<close>

section \<open>Parts of a message\<close>

definition CUSTOM_TOOL_INPUT_FIELD :: string where
  "CUSTOM_TOOL_INPUT_FIELD = ''input''"

definition APPLY_PATCH_FIELD :: string where
  "APPLY_PATCH_FIELD = ''patch''"

definition custom_tool_arguments :: "(json \<Rightarrow> string) \<Rightarrow> string \<Rightarrow> json \<Rightarrow> string" where
  "custom_tool_arguments print name input =
     print (JObject [(if is_apply_patch name then APPLY_PATCH_FIELD else CUSTOM_TOOL_INPUT_FIELD, input)])"

definition is_image_part :: "json \<Rightarrow> bool" where
  "is_image_part part \<longleftrightarrow> get_str part ''type'' = Some ''input_image'' \<or> get_str part ''type'' = Some ''image''"

definition responses_image_url :: "json \<Rightarrow> string option" where
  "responses_image_url part =
     (case (case json_get part ''image_url'' of
              Some (JString url) \<Rightarrow> Some url
            | Some (JObject kvs) \<Rightarrow> get_str (JObject kvs) ''url''
            | _ \<Rightarrow> None) of
        Some url \<Rightarrow> if trim url \<noteq> [] then Some url else None
      | None \<Rightarrow> None)"

definition chat_image :: "json \<Rightarrow> string \<Rightarrow> json" where
  "chat_image part url =
     JObject [(''type'', JString ''image_url''),
       (''image_url'', JObject ((''url'', JString url) #
          (case get_str part ''detail'' of Some d \<Rightarrow> [(''detail'', JString d)] | None \<Rightarrow> [])))]"

definition chat_content_part :: "json \<Rightarrow> json option" where
  "chat_content_part part =
     (if is_image_part part then map_option (chat_image part) (responses_image_url part)
      else case part_text part of
             Some text \<Rightarrow> if text \<noteq> [] then Some (JObject [(''type'', JString ''text''), (''text'', JString text)]) else None
           | None \<Rightarrow> None)"

definition content_to_chat_message_content :: "(json \<Rightarrow> string) \<Rightarrow> json \<Rightarrow> json" where
  "content_to_chat_message_content print value =
     (case value of
        JArray parts \<Rightarrow>
          if \<not> list_ex is_image_part parts then content_to_text print value
          else if \<not> list_ex (\<lambda>part. is_image_part part \<and> responses_image_url part \<noteq> None) parts
               then content_to_text print value
          else JArray (List.map_filter chat_content_part parts)
      | _ \<Rightarrow> content_to_text print value)"

definition reasoning_summary_text :: "json \<Rightarrow> string option" where
  "reasoning_summary_text item =
     or_else
       (case map_option (\<lambda>parts. join_with [CHR 0x0A]
               (filter (\<lambda>text. trim text \<noteq> []) (List.map_filter (\<lambda>part. get_str part ''text'') parts)))
               (get_array item ''summary'') of
          Some text \<Rightarrow> if trim text \<noteq> [] then Some text else None | None \<Rightarrow> None)
       (case get_str item ''content'' of Some text \<Rightarrow> if trim text \<noteq> [] then Some text else None | None \<Rightarrow> None)"

definition chat_tool_call_value :: "(json \<Rightarrow> string) \<Rightarrow> json \<Rightarrow> string option \<Rightarrow> json" where
  "chat_tool_call_value print item item_type =
     (let call_id = (case or_else (json_get item ''call_id'') (json_get item ''id'') of Some v \<Rightarrow> v | None \<Rightarrow> JString ''call'');
          arguments =
            (if item_type = Some ''custom_tool_call''
             then custom_tool_arguments print (case get_str item ''name'' of Some n \<Rightarrow> n | None \<Rightarrow> [])
                    (case json_get item ''input'' of Some v \<Rightarrow> v | None \<Rightarrow> JString [])
             else (case get_str item ''arguments'' of Some a \<Rightarrow> a | None \<Rightarrow> ''{}''))
      in JObject [(''id'', call_id), (''type'', JString ''function''),
           (''function'', JObject
             [(''name'', case json_get item ''name'' of Some v \<Rightarrow> v | None \<Rightarrow> JString ''unknown''),
              (''arguments'', JString arguments)])])"

text \<open>The error is an image on a route that does not declare vision, with the id of the call.\<close>

definition chat_tool_output :: "(json \<Rightarrow> string) \<Rightarrow> json \<Rightarrow> string \<Rightarrow> bool \<Rightarrow> string + string \<times> json list" where
  "chat_tool_output print out call_id vision =
     (case out of
        JArray parts \<Rightarrow>
          let images = List.map_filter (\<lambda>part. if is_image_part part
                         then map_option (chat_image part) (responses_image_url part) else None) parts;
              text = filter (\<lambda>t. trim t \<noteq> [])
                       (map (content_to_plain_string print) (filter (\<lambda>part. \<not> is_image_part part) parts));
              text1 = (if images \<noteq> []
                       then text @ [''[Tool `'' @ call_id @ ''` returned '' @ show_nat (length images) @
                                    '' image(s); image content follows.]'']
                       else text);
              text2 = (if text1 = [] then [''[Tool completed without textual output.]''] else text1)
          in if images \<noteq> [] \<and> \<not> vision then Inl call_id else Inr (join_with [CHR 0x0A] text2, images)
      | _ \<Rightarrow> Inr (content_to_plain_string print out, []))"

section \<open>Projecting the items\<close>

record assistant_turn_acc =
  ta_content :: string
  ta_reasoning :: string
  ta_calls :: "json list"
  ta_provenance :: chat_message_provenance

definition EMPTY_ASSISTANT_CONTENT :: string where
  "EMPTY_ASSISTANT_CONTENT = []"

definition new_turn :: "chat_message_provenance \<Rightarrow> assistant_turn_acc" where
  "new_turn provenance = \<lparr>ta_content = [], ta_reasoning = [], ta_calls = [], ta_provenance = provenance\<rparr>"

definition turn_message :: "bool \<Rightarrow> assistant_turn_acc \<Rightarrow> json" where
  "turn_message replay_reasoning turn =
     JObject ([(''role'', JString ''assistant''),
        (''content'', JString (if trim (ta_content turn) = [] then EMPTY_ASSISTANT_CONTENT else ta_content turn))] @
       (if ta_calls turn \<noteq> [] then [(''tool_calls'', JArray (ta_calls turn))] else []) @
       (if replay_reasoning \<and> trim (ta_reasoning turn) \<noteq> []
        then [(''reasoning_content'', JString (ta_reasoning turn))] else []))"

definition flush_assistant_turn :: "assistant_turn_acc option \<Rightarrow> bool \<Rightarrow> chat_projection \<Rightarrow> chat_projection" where
  "flush_assistant_turn turn replay_reasoning p =
     (case turn of
        None \<Rightarrow> p
      | Some t \<Rightarrow>
          if ta_calls t = [] \<and> trim (ta_content t) = [] then p
          else push_message (turn_message replay_reasoning t) (ta_provenance t) p)"

definition flush_chat_tool_images :: "json list \<Rightarrow> chat_projection \<Rightarrow> chat_projection" where
  "flush_chat_tool_images images p =
     (if images = [] then p
      else push_message
             (JObject [(''role'', JString ''user''),
                (''content'', JArray (JObject [(''type'', JString ''text''),
                   (''text'', JString ''Image content returned by the preceding tool call(s).'')] # images))])
             no_provenance p)"

record projection_state =
  ps_projection :: chat_projection
  ps_turn :: "assistant_turn_acc option"
  ps_images :: "json list"

definition on_turn ::
  "chat_message_provenance \<Rightarrow> (assistant_turn_acc \<Rightarrow> assistant_turn_acc) \<Rightarrow> projection_state \<Rightarrow> projection_state"
where
  "on_turn provenance f s =
     s\<lparr>ps_turn := Some (f (case ps_turn s of Some t \<Rightarrow> t | None \<Rightarrow> new_turn provenance))\<rparr>"

definition flush_turn :: "bool \<Rightarrow> projection_state \<Rightarrow> projection_state" where
  "flush_turn replay_reasoning s =
     s\<lparr>ps_projection := flush_assistant_turn (ps_turn s) replay_reasoning (ps_projection s), ps_turn := None\<rparr>"

definition flush_images :: "projection_state \<Rightarrow> projection_state" where
  "flush_images s = s\<lparr>ps_projection := flush_chat_tool_images (ps_images s) (ps_projection s), ps_images := []\<rparr>"

definition push_state :: "json \<Rightarrow> chat_message_provenance \<Rightarrow> projection_state \<Rightarrow> projection_state" where
  "push_state m provenance s = s\<lparr>ps_projection := push_message m provenance (ps_projection s)\<rparr>"

definition add_text :: "string \<Rightarrow> string \<Rightarrow> string" where
  "add_text old new = (if trim old = [] then new else trim_end old @ [CHR 0x0A, CHR 0x0A] @ trim_start new)"

definition project_other ::
  "(json \<Rightarrow> string) \<Rightarrow> bool \<Rightarrow> json \<Rightarrow> chat_message_provenance \<Rightarrow> projection_state \<Rightarrow> projection_state"
where
  "project_other print replay_reasoning item provenance s =
     (let role = (case get_str item ''role'' of Some r \<Rightarrow> r | None \<Rightarrow> ''user'');
          source = (case json_get item ''content'' of Some c \<Rightarrow> c | None \<Rightarrow> item)
      in if role = ''assistant'' then
           let text = content_to_plain_string print (content_to_text print source) in
           on_turn provenance (\<lambda>t. if trim text \<noteq> [] then t\<lparr>ta_content := add_text (ta_content t) text\<rparr> else t) s
         else if role \<in> set [''system'', ''developer'', ''user'', ''tool''] then
           push_state
             (JObject [(''role'', JString (if role = ''developer'' then ''system'' else role)),
                (''content'', if role = ''user'' then content_to_chat_message_content print source
                              else content_to_text print source)])
             provenance (flush_turn replay_reasoning s)
         else s)"

definition project_item ::
  "(json \<Rightarrow> string) \<Rightarrow> bool \<Rightarrow> bool \<Rightarrow> json \<Rightarrow> chat_message_provenance \<Rightarrow> projection_state \<Rightarrow> string + projection_state"
where
  "project_item print replay_reasoning vision item provenance s0 =
     (let item_type = get_str item ''type'';
          is_output = (item_type \<in> Some ` set [''function_call_output'', ''custom_tool_call_output'', ''tool_search_output'']);
          s = (if \<not> is_output then flush_images s0 else s0)
      in if (is_canonical_checkpoint_item item \<and> item_type \<noteq> Some ''compaction'' \<and> item_type \<noteq> Some ''context_compaction'')
            \<or> is_summary_item item
         then Inr (push_state
                (JObject [(''role'', JString ''assistant''),
                   (''content'', JString (CHAT_CHECKPOINT_PREFACE @ [CHR 0x0A, CHR 0x0A] @ item_plain_text print item))])
                provenance (flush_turn replay_reasoning s))
         else if item_type \<in> Some ` set [''compaction'', ''context_compaction'', ''compaction_trigger''] then Inr s
         else if item_type \<in> Some ` set [''function_call'', ''custom_tool_call''] then
           Inr (on_turn provenance
                 (\<lambda>t. t\<lparr>ta_calls := ta_calls t @ [chat_tool_call_value print item item_type]\<rparr>) s)
         else if is_output then
           let call_id = (case get_str item ''call_id'' of Some i \<Rightarrow> i | None \<Rightarrow> ''call'');
               out = (case json_get item ''output'' of Some v \<Rightarrow> v | None \<Rightarrow> JNull)
           in (case chat_tool_output print out call_id vision of
                 Inl e \<Rightarrow> Inl e
               | Inr (content, images) \<Rightarrow>
                   Inr (let s' = push_state
                          (JObject [(''role'', JString ''tool''), (''tool_call_id'', JString call_id), (''content'', JString content)])
                          provenance (flush_turn replay_reasoning s)
                        in s'\<lparr>ps_images := ps_images s' @ images\<rparr>))
         else if item_type = Some ''reasoning'' then
           Inr (case reasoning_summary_text item of
                  None \<Rightarrow> s
                | Some summary \<Rightarrow>
                    if replay_reasoning
                    then on_turn provenance (\<lambda>t. t\<lparr>ta_reasoning :=
                           if trim (ta_reasoning t) = [] then summary
                           else trim_end (ta_reasoning t) @ [CHR 0x0A, CHR 0x0A] @ summary\<rparr>) s
                    else s)
         else Inr (project_other print replay_reasoning item provenance s))"

fun project_loop ::
  "(json \<Rightarrow> string) \<Rightarrow> bool \<Rightarrow> bool \<Rightarrow> (json \<times> chat_message_provenance) list \<Rightarrow> projection_state \<Rightarrow> string + projection_state"
where
  "project_loop print replay_reasoning vision [] s = Inr s"
| "project_loop print replay_reasoning vision ((item, provenance) # items) s =
     (case project_item print replay_reasoning vision item provenance s of
        Inl e \<Rightarrow> Inl e
      | Inr s' \<Rightarrow> project_loop print replay_reasoning vision items s')"

definition project_chat_items ::
  "(json \<Rightarrow> string) \<Rightarrow> (json \<times> chat_message_provenance) list \<Rightarrow> bool \<Rightarrow> bool \<Rightarrow> chat_projection \<Rightarrow> string + chat_projection"
where
  "project_chat_items print items replay_reasoning vision p =
     (case project_loop print replay_reasoning vision items \<lparr>ps_projection = p, ps_turn = None, ps_images = []\<rparr> of
        Inl e \<Rightarrow> Inl e
      | Inr s \<Rightarrow> Inr (ps_projection (flush_images (flush_turn replay_reasoning s))))"

section \<open>Adjacent assistant messages\<close>

definition plain_field :: "(json \<Rightarrow> string) \<Rightarrow> (string \<times> json) list \<Rightarrow> string \<Rightarrow> string" where
  "plain_field print kvs k = (case map_of kvs k of Some v \<Rightarrow> content_to_plain_string print v | None \<Rightarrow> [])"

definition merge_text_field ::
  "(json \<Rightarrow> string) \<Rightarrow> string \<Rightarrow> (string \<times> json) list \<times> (string \<times> json) list \<Rightarrow> (string \<times> json) list \<times> (string \<times> json) list"
where
  "merge_text_field print k s =
     (case s of (target, incoming) \<Rightarrow>
        let text = plain_field print incoming k in
        (if trim text = [] then target
         else obj_insert k (JString (add_text (plain_field print target k) text)) target,
         obj_remove k incoming))"

fun merge_calls :: "json list \<Rightarrow> json list \<Rightarrow> json list" where
  "merge_calls target [] = target"
| "merge_calls target (call # calls) =
     (if get_str call ''id'' \<noteq> None \<and> list_ex (\<lambda>c. get_str c ''id'' = get_str call ''id'') target
      then merge_calls target calls else merge_calls (target @ [call]) calls)"

text \<open>\<open>target.entry("tool_calls").or_insert(\<dots>)\<close>, and the calls appended when it is a list.\<close>

definition merge_call_field :: "json option \<Rightarrow> (string \<times> json) list \<Rightarrow> (string \<times> json) list" where
  "merge_call_field incoming target =
     (case incoming of
        Some (JArray calls) \<Rightarrow>
          (case map_of target ''tool_calls'' of
             None \<Rightarrow> obj_insert ''tool_calls'' (JArray (merge_calls [] calls)) target
           | Some (JArray old) \<Rightarrow> obj_insert ''tool_calls'' (JArray (merge_calls old calls)) target
           | Some _ \<Rightarrow> target)
      | _ \<Rightarrow> target)"

definition or_insert :: "string \<times> json \<Rightarrow> (string \<times> json) list \<Rightarrow> (string \<times> json) list" where
  "or_insert kv target = (if map_of target (fst kv) = None then target @ [kv] else target)"

definition merge_chat_assistant_message :: "(json \<Rightarrow> string) \<Rightarrow> json \<Rightarrow> json \<Rightarrow> json" where
  "merge_chat_assistant_message print target incoming =
     (case (target, incoming) of
        (JObject t, JObject i) \<Rightarrow>
          (case fold (merge_text_field print) [''content'', ''reasoning_content'', ''reasoning''] (t, i) of
             (t1, i1) \<Rightarrow>
               JObject (fold or_insert (filter (\<lambda>kv. fst kv \<noteq> ''role'') (obj_remove ''tool_calls'' i1))
                 (merge_call_field (map_of i1 ''tool_calls'') t1)))
      | _ \<Rightarrow> target)"

definition is_assistant :: "json \<Rightarrow> bool" where
  "is_assistant m \<longleftrightarrow> get_str m ''role'' = Some ''assistant''"

definition coalesce_step :: "(json \<Rightarrow> string) \<Rightarrow> json \<times> chat_message_provenance \<Rightarrow> chat_projection \<Rightarrow> chat_projection" where
  "coalesce_step print mp p =
     (case mp of (m, provenance) \<Rightarrow>
        if is_assistant m \<and> cp_messages p \<noteq> [] \<and> is_assistant (last (cp_messages p))
        then p\<lparr>cp_messages := butlast (cp_messages p) @ [merge_chat_assistant_message print (last (cp_messages p)) m]\<rparr>
        else push_message m provenance p)"

definition coalesce_adjacent_chat_assistant_messages :: "(json \<Rightarrow> string) \<Rightarrow> chat_projection \<Rightarrow> chat_projection" where
  "coalesce_adjacent_chat_assistant_messages print p = fold (coalesce_step print) (into_pairs p) empty_projection"

section \<open>Calls without a result\<close>

definition has_calls :: "json \<Rightarrow> bool" where
  "has_calls m \<longleftrightarrow> (case get_array m ''tool_calls'' of Some calls \<Rightarrow> calls \<noteq> [] | None \<Rightarrow> False)"

definition assistant_has_non_reasoning_content :: "(json \<Rightarrow> string) \<Rightarrow> json \<Rightarrow> bool" where
  "assistant_has_non_reasoning_content print message \<longleftrightarrow>
     (case json_get message ''content'' of Some c \<Rightarrow> trim (content_to_plain_string print c) \<noteq> [] | None \<Rightarrow> False)"

fun check_call_ids :: "string list \<Rightarrow> json list \<Rightarrow> transcript_error + unit" where
  "check_call_ids seen [] = Inr ()"
| "check_call_ids seen (call # calls) =
     (case get_str call ''id'' of
        None \<Rightarrow> Inl CallMissingId
      | Some i \<Rightarrow> if i \<in> set seen then Inl (DuplicateCallId i) else check_call_ids (i # seen) calls)"

definition answered_by :: "string list \<Rightarrow> string \<Rightarrow> json \<Rightarrow> bool" where
  "answered_by ids k v \<longleftrightarrow> (case get_str v k of Some i \<Rightarrow> i \<in> set ids | None \<Rightarrow> False)"

text \<open>The message with the completed calls only, and its completed results.\<close>

definition reconcile_block ::
  "(json \<Rightarrow> string) \<Rightarrow> json \<Rightarrow> chat_message_provenance \<Rightarrow> (json \<times> chat_message_provenance) list \<Rightarrow> chat_projection
     \<Rightarrow> chat_projection"
where
  "reconcile_block print message provenance results acc =
     (let completed = List.map_filter (\<lambda>(m, _). get_str m ''tool_call_id'') results;
          calls = (case get_array message ''tool_calls'' of Some calls \<Rightarrow> calls | None \<Rightarrow> []);
          kept = filter (answered_by completed ''id'') calls;
          retained = List.map_filter (\<lambda>c. get_str c ''id'') kept;
          m1 = (if kept = [] then on_object (obj_remove ''tool_calls'') message
                else json_update ''tool_calls'' (\<lambda>_. JArray kept) message);
          m2 = (if retained = [] then on_object (obj_remove ''reasoning'') (on_object (obj_remove ''reasoning_content'') m1)
                else m1);
          acc1 = (if retained \<noteq> [] \<or> assistant_has_non_reasoning_content print m2
                  then push_message m2 provenance acc else acc)
      in fold (\<lambda>(m, prov). push_message m prov) (filter (\<lambda>(m, _). answered_by retained ''tool_call_id'' m) results) acc1)"

function reconcile_loop ::
  "(json \<Rightarrow> string) \<Rightarrow> (json \<times> chat_message_provenance) list \<Rightarrow> chat_projection \<Rightarrow> transcript_error + chat_projection"
where
  "reconcile_loop print [] acc = Inr acc"
| "reconcile_loop print ((message, provenance) # pairs) acc =
     (if \<not> is_assistant message \<or> \<not> has_calls message then reconcile_loop print pairs (push_message message provenance acc)
      else case check_call_ids [] (the (get_array message ''tool_calls'')) of
             Inl e \<Rightarrow> Inl e
           | Inr _ \<Rightarrow>
               reconcile_loop print (dropWhile (\<lambda>(m, _). is_tool_message m) pairs)
                 (reconcile_block print message provenance (takeWhile (\<lambda>(m, _). is_tool_message m) pairs) acc))"
  by pat_completeness auto
termination
  by (relation "measure (\<lambda>(_, pairs, _). length pairs)") (auto simp: le_imp_less_Suc length_dropWhile_le)

definition reconcile_partial_chat_tool_continuations ::
  "(json \<Rightarrow> string) \<Rightarrow> chat_projection \<Rightarrow> transcript_error + chat_projection"
where
  "reconcile_partial_chat_tool_continuations print p = reconcile_loop print (into_pairs p) empty_projection"

section \<open>The head\<close>

definition is_system :: "json \<Rightarrow> bool" where
  "is_system m \<longleftrightarrow> get_str m ''role'' = Some ''system''"

definition system_text :: "(json \<Rightarrow> string) \<Rightarrow> json \<Rightarrow> string" where
  "system_text print m =
     (case map_option (content_to_text print) (json_get m ''content'') of Some (JString t) \<Rightarrow> t | _ \<Rightarrow> [])"

definition collapse_system_messages_to_head :: "(json \<Rightarrow> string) \<Rightarrow> chat_projection \<Rightarrow> chat_projection" where
  "collapse_system_messages_to_head print p =
     (let pairs = into_pairs p;
          rest = filter (\<lambda>(m, _). \<not> is_system m) pairs;
          spoken = filter (\<lambda>(m, _). is_system m \<and> trim (system_text print m) \<noteq> []) pairs
      in case spoken of
           [] \<Rightarrow> from_pairs rest
         | (_, provenance) # _ \<Rightarrow>
             from_pairs ((JObject [(''role'', JString ''system''),
                 (''content'', JString (join_with [CHR 0x0A, CHR 0x0A] (map (\<lambda>(m, _). system_text print m) spoken)))],
               provenance) # rest))"

text \<open>The last steps of \<open>responses_to_chat_projection\<close> on the projected messages.\<close>

definition finish_projection ::
  "(json \<Rightarrow> string) \<Rightarrow> runtime_chat_capabilities \<Rightarrow> chat_projection \<Rightarrow> transcript_error + chat_projection"
where
  "finish_projection print capabilities projection =
     (case reconcile_partial_chat_tool_continuations print (coalesce_adjacent_chat_assistant_messages print projection) of
        Inl e \<Rightarrow> Inl e
      | Inr q \<Rightarrow> Inr (apply_checkpoint_resume_tail_to_projection print
                   (apply_neutral_user_bridge_to_projection print capabilities
                     (collapse_system_messages_to_head print q))))"

section \<open>Tools and effort\<close>

definition nonblank_name :: "string option \<Rightarrow> string option" where
  "nonblank_name s = (case s of Some t \<Rightarrow> if trim t \<noteq> [] then Some t else None | None \<Rightarrow> None)"

definition function_tool_name :: "json \<Rightarrow> string option" where
  "function_tool_name tool =
     nonblank_name (Option.bind (or_else (json_get tool ''name'') (Option.bind (json_get tool ''function'') (\<lambda>v. json_get v ''name'')))
       json_as_str)"

datatype tool_shape = ResponsesShape | ChatShape

datatype tool_error = MissingToolName | ConflictingSchemas string

definition declared_function :: "tool_shape \<Rightarrow> json \<Rightarrow> json" where
  "declared_function shape tool =
     (case shape of
        ResponsesShape \<Rightarrow> tool
      | ChatShape \<Rightarrow> (case json_get tool ''function'' of Some f \<Rightarrow> f | None \<Rightarrow> tool))"

definition declared_schema :: "json \<Rightarrow> json" where
  "declared_schema function =
     (case or_else (json_get function ''parameters'') (json_get function ''input_schema'') of
        Some schema \<Rightarrow> schema
      | None \<Rightarrow> JObject [(''type'', JString ''object'')])"

text \<open>The message of a conflict also prints the hashes of the two schemas.\<close>

fun dedup_loop ::
  "tool_shape \<Rightarrow> (string \<times> json) list \<Rightarrow> json list \<Rightarrow> json list \<Rightarrow> tool_error + json list"
where
  "dedup_loop shape seen out [] = Inr out"
| "dedup_loop shape seen out (tool # tools) =
     (let function = declared_function shape tool in
      case nonblank_name (get_str function ''name'') of
        None \<Rightarrow> Inl MissingToolName
      | Some name \<Rightarrow>
          (case map_of seen name of
             Some previous \<Rightarrow>
               if \<not> json_eq previous (declared_schema function) then Inl (ConflictingSchemas name)
               else dedup_loop shape seen out tools
           | None \<Rightarrow> dedup_loop shape ((name, declared_schema function) # seen) (out @ [tool]) tools))"

definition deduplicate_function_tools :: "json list \<Rightarrow> tool_shape \<Rightarrow> tool_error + json list" where
  "deduplicate_function_tools tools shape = dedup_loop shape [] [] tools"

definition eq_ignore_case :: "string \<Rightarrow> string \<Rightarrow> bool" where
  "eq_ignore_case s t \<longleftrightarrow> to_ascii_lowercase s = to_ascii_lowercase t"

definition has_auto_or_missing_tool_choice :: "json \<Rightarrow> bool" where
  "has_auto_or_missing_tool_choice body \<longleftrightarrow>
     (case json_get body ''tool_choice'' of
        None \<Rightarrow> True
      | Some JNull \<Rightarrow> True
      | Some (JString choice) \<Rightarrow> eq_ignore_case choice ''auto''
      | Some choice \<Rightarrow> (case get_str choice ''type'' of Some t \<Rightarrow> eq_ignore_case t ''auto'' | None \<Rightarrow> False))"

definition normalize_chat_tool_choice :: "json \<Rightarrow> json" where
  "normalize_chat_tool_choice choice =
     (case choice of
        JObject kvs \<Rightarrow>
          (case or_else (get_str choice ''name'') (Option.bind (json_pointer choice [''function'', ''name'']) json_as_str) of
             Some name \<Rightarrow> JObject [(''type'', JString ''function''), (''function'', JObject [(''name'', JString name)])]
           | None \<Rightarrow> JString ''auto'')
      | _ \<Rightarrow> choice)"

definition strip_internal_fields :: "(string \<times> json) list \<Rightarrow> (string \<times> json) list" where
  "strip_internal_fields object = filter (\<lambda>kv. \<not> starts_with (fst kv) ''internal_'') object"

datatype effort_transport = ResponsesObject | ChatObject | ChatField | ProviderSpecific | NoTransport

definition merge_object_field :: "string \<Rightarrow> (string \<times> json) list \<Rightarrow> json \<Rightarrow> json" where
  "merge_object_field k patch target =
     on_object (\<lambda>object.
       case map_of object k of
         Some (JObject existing) \<Rightarrow> obj_insert k (JObject (fold (\<lambda>(f, v). obj_insert f v) patch existing)) object
       | _ \<Rightarrow> obj_insert k (JObject patch) object) target"

definition strip_relocated_effort_field :: "json \<Rightarrow> json" where
  "strip_relocated_effort_field body =
     on_object (\<lambda>object0.
       let object = obj_remove ''reasoning_effort'' object0 in
       case map_of object ''reasoning'' of
         Some (JObject reasoning) \<Rightarrow>
           let left = obj_remove ''effort'' reasoning in
           if left = [] then obj_remove ''reasoning'' object else obj_insert ''reasoning'' (JObject left) object
       | _ \<Rightarrow> object) body"

definition apply_reasoning_effort_transport :: "json \<Rightarrow> string \<Rightarrow> effort_transport \<Rightarrow> json" where
  "apply_reasoning_effort_transport body effort transport =
     (case transport of
        ResponsesObject \<Rightarrow> on_object (obj_insert ''reasoning'' (JObject [(''effort'', JString effort)])) body
      | ChatObject \<Rightarrow> on_object (obj_insert ''reasoning'' (JObject [(''effort'', JString effort)])) body
      | ChatField \<Rightarrow> on_object (obj_insert ''reasoning_effort'' (JString effort)) body
      | ProviderSpecific \<Rightarrow>
          strip_relocated_effort_field
            (merge_object_field ''chat_template_kwargs'' [(''reasoning_effort'', JString effort)] body)
      | NoTransport \<Rightarrow> body)"

section \<open>Projections as lists\<close>

lemma map_fst_pair_up [simp]: "map fst (pair_up ms ps) = ms"
  by (induction ms ps rule: pair_up.induct) simp_all

lemma map_fst_into_pairs [simp]: "map fst (into_pairs p) = cp_messages p"
  by (simp add: into_pairs_def)

lemma push_message_simps [simp]:
  "cp_messages (push_message m prov p) = cp_messages p @ [m]"
  "cp_provenance (push_message m prov p) = cp_provenance p @ [prov]"
  by (simp_all add: push_message_def)

lemma fold_push [simp]:
  "cp_messages (fold (\<lambda>(m, prov). push_message m prov) ps p) = cp_messages p @ map fst ps"
  by (induction ps arbitrary: p) auto

lemma cp_messages_from_pairs [simp]: "cp_messages (from_pairs ps) = map fst ps"
  by (simp add: from_pairs_def empty_projection_def)

section \<open>Reconciling a partial snapshot\<close>

text \<open>
  A snapshot taken while tools are still running: an assistant message with calls is followed by the
  results that have arrived, each for one of its calls and at most one per call; there are no other
  results, and no call id is used twice.
\<close>

inductive snapshot :: "string set \<Rightarrow> json list \<Rightarrow> bool" where
  snapshot_nil: "snapshot S []"
| snapshot_plain:
    "\<not> is_tool_message m \<Longrightarrow> announced_calls m = None \<or> announced_calls m = Some [] \<Longrightarrow> snapshot S ms \<Longrightarrow>
     snapshot S (m # ms)"
| snapshot_block:
    "announced_calls m = Some calls \<Longrightarrow> calls \<noteq> [] \<Longrightarrow> map (\<lambda>c. get_str c ''id'') calls = map Some ids \<Longrightarrow> distinct ids \<Longrightarrow>
     set ids \<inter> S = {} \<Longrightarrow> list_all is_tool_message results \<Longrightarrow>
     map (\<lambda>m. get_str m ''tool_call_id'') results = map Some rs \<Longrightarrow> distinct rs \<Longrightarrow> set rs \<subseteq> set ids \<Longrightarrow>
     snapshot (S \<union> set ids) rest \<Longrightarrow> snapshot S (m # results @ rest)"

text \<open>
  What becomes of one message when \<open>A\<close> are the ids with a result: an assistant message keeps the
  calls with a result; without any it loses its calls and its reasoning, and stays if it says something.
\<close>

definition settle :: "(json \<Rightarrow> string) \<Rightarrow> string option set \<Rightarrow> json \<Rightarrow> json list" where
  "settle print A m =
     (case announced_calls m of
        Some (call # calls) \<Rightarrow>
          (case filter (\<lambda>c. get_str c ''id'' \<in> A) (call # calls) of
             [] \<Rightarrow> (case json_get m ''content'' of
                     Some content \<Rightarrow>
                       if trim (content_to_plain_string print content) \<noteq> []
                       then [on_object (obj_remove ''reasoning'') (on_object (obj_remove ''reasoning_content'')
                               (on_object (obj_remove ''tool_calls'') m))]
                       else []
                   | None \<Rightarrow> [])
           | kept \<Rightarrow> [json_update ''tool_calls'' (\<lambda>_. JArray kept) m])
      | _ \<Rightarrow> [m])"

lemma settle_plain: "announced_calls m = None \<or> announced_calls m = Some [] \<Longrightarrow> settle print A m = [m]"
  by (auto simp: settle_def)

lemma settle_results:
  "list_all is_tool_message results \<Longrightarrow> concat (map (settle print A) results) = results"
  by (induction results) (auto simp: settle_plain announced_calls_def is_tool_message_def)

lemma snapshot_answers_fresh: "snapshot S ms \<Longrightarrow> i \<in> S \<Longrightarrow> Some i \<notin> set (answered_ids ms)"
proof (induction arbitrary: i rule: snapshot.induct)
  case (snapshot_block m calls ids S results rs rest)
  have "\<not> is_tool_message m"
    using snapshot_block.hyps(1) by (auto simp: announced_calls_def is_tool_message_def split: if_splits)
  moreover have "set (answered_ids results) = Some ` set rs"
    using snapshot_block.hyps(6,7) by (simp add: answered_ids_def list_all_iff flip: set_map)
  ultimately show ?case using snapshot_block by (auto simp: answered_ids_def)
qed simp_all

lemma snapshot_no_leading_result: "snapshot S ms \<Longrightarrow> takeWhile is_tool_message ms = [] \<and> dropWhile is_tool_message ms = ms"
  by (cases rule: snapshot.cases, assumption)
    (auto simp: announced_calls_def is_tool_message_def split: if_splits)

lemma paired_antimono: "paired S ms \<Longrightarrow> T \<subseteq> S \<Longrightarrow> paired T ms"
proof (induction arbitrary: T rule: paired.induct)
  case (paired_block m calls ids S body rest)
  have "paired (T \<union> set ids) rest" using paired_block.prems by (intro paired_block.IH) blast
  with paired_block show ?case by (intro paired.paired_block) blast+
qed (auto intro: paired.intros)

lemma paired_filter_system: "paired S ms \<Longrightarrow> paired S (filter (\<lambda>m. \<not> is_system m) ms)"
proof (induction rule: paired.induct)
  case (paired_block m calls ids S body rest)
  have "filter (\<lambda>m. \<not> is_system m) body = body"
    using paired_block.hyps(5)
    by (intro filter_True) (auto simp: list_all_iff in_block_def is_tool_message_def is_system_def)
  moreover have "\<not> is_system m" using paired_block.hyps(1) by (auto simp: announced_calls_def is_system_def split: if_splits)
  ultimately show ?case using paired_block by (auto intro: paired.paired_block)
qed (auto intro: paired.intros)

lemma map_filter_Some: "map f xs = map Some ys \<Longrightarrow> List.map_filter f xs = ys"
  by (induction xs arbitrary: ys) (auto simp: map_filter_simps)

lemma check_call_ids_ok:
  "map (\<lambda>c. get_str c ''id'') calls = map Some ids \<Longrightarrow> distinct ids \<Longrightarrow> set ids \<inter> set seen = {} \<Longrightarrow>
   check_call_ids seen calls = Inr ()"
proof (induction calls arbitrary: ids seen)
  case (Cons c calls)
  then obtain i ids' where "ids = i # ids'" by (cases ids) auto
  with Cons.prems Cons.IH [of ids' "i # seen"] show ?case by auto
qed simp

lemma filter_answered:
  "map (\<lambda>c. get_str c k) cs = map Some ids \<Longrightarrow>
   map (\<lambda>c. get_str c k) (filter (answered_by rs k) cs) = map Some (filter (\<lambda>i. i \<in> set rs) ids)"
proof (induction cs arbitrary: ids)
  case (Cons c cs)
  then obtain i ids' where "ids = i # ids'" by (cases ids) auto
  with Cons show ?case by (auto simp: answered_by_def)
qed simp

lemma announced_removed:
  assumes "json_wf m" and "announced_calls m = Some calls"
  shows "announced_calls (on_object (obj_remove ''reasoning'') (on_object (obj_remove ''reasoning_content'')
           (on_object (obj_remove ''tool_calls'') m))) = None"
    and "is_assistant (on_object (obj_remove ''reasoning'') (on_object (obj_remove ''reasoning_content'')
           (on_object (obj_remove ''tool_calls'') m)))"
    and "json_get (on_object (obj_remove ''reasoning'') (on_object (obj_remove ''reasoning_content'')
           (on_object (obj_remove ''tool_calls'') m))) ''content'' = json_get m ''content''"
proof -
  have role: "get_str m ''role'' = Some ''assistant''"
    using assms(2) by (auto simp: announced_calls_def split: if_splits)
  then obtain kvs where m: "m = JObject kvs" by (cases m) (auto simp: get_str_def)
  with assms(1) have d: "distinct (map fst kvs)" by simp
  note d1 = distinct_obj_remove [OF d, of "''tool_calls''"]
  note d2 = distinct_obj_remove [OF d1, of "''reasoning_content''"]
  show "announced_calls (on_object (obj_remove ''reasoning'') (on_object (obj_remove ''reasoning_content'')
           (on_object (obj_remove ''tool_calls'') m))) = None"
    and "is_assistant (on_object (obj_remove ''reasoning'') (on_object (obj_remove ''reasoning_content'')
           (on_object (obj_remove ''tool_calls'') m)))"
    and "json_get (on_object (obj_remove ''reasoning'') (on_object (obj_remove ''reasoning_content'')
           (on_object (obj_remove ''tool_calls'') m))) ''content'' = json_get m ''content''"
    using role
    by (simp_all add: m on_object_def announced_calls_def is_assistant_def get_str_def get_array_def
        map_of_obj_remove [OF d2] map_of_obj_remove [OF d1] map_of_obj_remove [OF d])
qed

lemma announced_updated:
  assumes "announced_calls m = Some calls"
  shows "announced_calls (json_update ''tool_calls'' (\<lambda>_. JArray kept) m) = Some kept"
proof -
  have "get_str m ''role'' = Some ''assistant''" "get_array m ''tool_calls'' = Some calls"
    using assms by (auto simp: announced_calls_def split: if_splits)
  then show ?thesis
    by (cases m) (auto simp: get_str_def get_array_def announced_calls_def json_update_def on_object_def
        map_of_obj_update bind_eq_Some_conv)
qed

text \<open>The block of one assistant message, in the shape of the grammar of paired transcripts.\<close>

lemma reconcile_block_paired:
  assumes wf: "json_wf m" and calls: "announced_calls m = Some calls"
    and ids: "map (\<lambda>c. get_str c ''id'') calls = map Some ids" "distinct ids" "set ids \<inter> S = {}"
    and results: "list_all is_tool_message (map fst results)"
      "map (\<lambda>m. get_str m ''tool_call_id'') (map fst results) = map Some rs" "distinct rs" "set rs \<subseteq> set ids"
    and rest: "paired (S \<union> set ids) rest" and some: "calls \<noteq> []"
    and A: "\<And>i. i \<in> set ids \<Longrightarrow> Some i \<in> A \<longleftrightarrow> i \<in> set rs"
  shows "cp_messages (reconcile_block print m prov results acc) = cp_messages acc @ settle print A m @ map fst results \<and>
     list_all is_assistant (settle print A m) \<and> paired S (settle print A m @ map fst results @ rest)"
proof -
  have array: "get_array m ''tool_calls'' = Some calls" "is_assistant m"
    using calls by (auto simp: announced_calls_def is_assistant_def split: if_splits)
  define kept where "kept = filter (answered_by rs ''id'') calls"
  have completed: "List.map_filter (\<lambda>(m, _). get_str m ''tool_call_id'') results = rs"
    by (rule map_filter_Some) (use results(2) in \<open>simp add: case_prod_unfold comp_def\<close>)
  have kept_ids: "map (\<lambda>c. get_str c ''id'') kept = map Some (filter (\<lambda>i. i \<in> set rs) ids)"
    unfolding kept_def by (rule filter_answered [OF ids(1)])
  note retained = map_filter_Some [OF kept_ids]
  have "filter (\<lambda>c. get_str c ''id'' \<in> A) calls = kept" unfolding kept_def
  proof (rule filter_cong [OF refl])
    fix c
    assume "c \<in> set calls"
    then have "get_str c ''id'' \<in> Some ` set ids" using ids(1) by (metis (no_types, lifting) image_eqI list.set_map)
    then show "(get_str c ''id'' \<in> A) = answered_by rs ''id'' c" using A by (auto simp: answered_by_def)
  qed
  then have settle: "settle print A m = (if kept = [] then
      (case json_get m ''content'' of
         Some content \<Rightarrow>
           if trim (content_to_plain_string print content) \<noteq> []
           then [on_object (obj_remove ''reasoning'') (on_object (obj_remove ''reasoning_content'')
                   (on_object (obj_remove ''tool_calls'') m))]
           else []
       | None \<Rightarrow> []) else [json_update ''tool_calls'' (\<lambda>_. JArray kept) m])"
    using some by (cases calls) (auto simp: settle_def calls split: list.splits if_splits)
  have same: "set (filter (\<lambda>i. i \<in> set rs) ids) = set rs" using results(4) by auto
  have all: "filter (\<lambda>(m, _). answered_by (filter (\<lambda>i. i \<in> set rs) ids) ''tool_call_id'' m) results = results"
  proof (intro filter_True ballI)
    fix x
    assume "x \<in> set results"
    then have "get_str (fst x) ''tool_call_id'' \<in> set (map Some rs)"
      unfolding results(2) [symmetric] by simp
    then show "case x of (m, _) \<Rightarrow> answered_by (filter (\<lambda>i. i \<in> set rs) ids) ''tool_call_id'' m"
      using same by (auto simp: answered_by_def split: prod.splits)
  qed
  have mset: "mset (answered_ids (map fst results)) = mset (map Some (filter (\<lambda>i. i \<in> set rs) ids))"
  proof -
    have "answered_ids (map fst results) = map Some rs"
      using results(1,2) by (simp add: answered_ids_def list_all_iff)
    moreover have "mset rs = mset (filter (\<lambda>i. i \<in> set rs) ids)"
      using same results(3) ids(2)
      by (intro iffD1 [OF set_eq_iff_mset_eq_distinct]) (simp_all del: set_filter)
    ultimately show ?thesis by simp
  qed
  have rest': "paired (S \<union> set (filter (\<lambda>i. i \<in> set rs) ids)) rest"
    using rest by (rule paired_antimono) auto
  have in_block: "list_all in_block (map fst results)"
    using results(1) by (simp add: list_all_iff in_block_def)
  show ?thesis
  proof (cases "rs = []")
    case True
    define m2 where "m2 = on_object (obj_remove ''reasoning'') (on_object (obj_remove ''reasoning_content'')
           (on_object (obj_remove ''tool_calls'') m))"
    have none: "announced_calls m2 = None" "is_assistant m2" "json_get m2 ''content'' = json_get m ''content''"
      using announced_removed [OF wf calls] by (simp_all add: m2_def)
    have "results = []" using results(2) True by simp
    moreover have "paired S rest" using rest' True by simp
    moreover from this none have "paired S (m2 # rest)"
      by (intro paired_plain) (simp_all add: is_tool_message_def is_assistant_def)
    moreover have "cp_messages (reconcile_block print m prov results acc) =
        cp_messages acc @ (if assistant_has_non_reasoning_content print m2 then [m2] else [])"
    proof -
      have "answered_by [] ''id'' c = False" for c by (simp add: answered_by_def split: option.splits)
      with \<open>results = []\<close> array show ?thesis
        by (simp add: reconcile_block_def Let_def m2_def map_filter_simps)
    qed
    moreover have "settle print A m = (if assistant_has_non_reasoning_content print m2 then [m2] else [])"
    proof -
      have "kept = []" using True by (auto simp: kept_def answered_by_def filter_empty_conv split: option.splits)
      then show ?thesis using none(3)
        by (auto simp: settle assistant_has_non_reasoning_content_def m2_def [symmetric] split: option.split)
    qed
    ultimately show ?thesis using none by simp
  next
    case False
    then have ne: "filter (\<lambda>i. i \<in> set rs) ids \<noteq> []" using same by force
    then have "kept \<noteq> []" using kept_ids by auto
    let ?m = "json_update ''tool_calls'' (\<lambda>_. JArray kept) m"
    have "announced_calls ?m = Some kept" by (rule announced_updated [OF calls])
    then have "is_assistant ?m" "paired S (?m # map fst results @ rest)"
      using kept_ids ids(2,3) in_block mset rest'
      by (auto simp: announced_calls_def is_assistant_def split: if_splits intro!: paired_block)
    moreover have "cp_messages (reconcile_block print m prov results acc) = cp_messages acc @ ?m # map fst results"
      using array completed retained ne \<open>kept \<noteq> []\<close> all
      by (simp add: reconcile_block_def Let_def kept_def [symmetric])
    ultimately show ?thesis using \<open>kept \<noteq> []\<close> by (simp add: settle)
  qed
qed

lemma leading_results:
  assumes "list_all is_tool_message (map fst rp)" "takeWhile is_tool_message (map fst restp) = []"
  shows "takeWhile (\<lambda>(m, _). is_tool_message m) (rp @ restp) = rp"
    and "dropWhile (\<lambda>(m, _). is_tool_message m) (rp @ restp) = restp"
proof -
  have "\<forall>x \<in> set rp. case x of (m, _) \<Rightarrow> is_tool_message m"
    using assms(1) by (fastforce simp: list_all_iff)
  moreover have "restp = [] \<or> \<not> is_tool_message (fst (hd restp))"
    using assms(2) by (cases restp) (auto split: if_splits)
  ultimately show "takeWhile (\<lambda>(m, _). is_tool_message m) (rp @ restp) = rp"
    "dropWhile (\<lambda>(m, _). is_tool_message m) (rp @ restp) = restp"
    by (cases restp; auto simp: takeWhile_append2 dropWhile_append2)+
qed

lemma reconcile_snapshot:
  "snapshot S ms \<Longrightarrow> map fst pairs = ms \<Longrightarrow> list_all json_wf ms \<Longrightarrow> A = Some ` B \<union> set (answered_ids ms) \<Longrightarrow> B \<subseteq> S \<Longrightarrow>
   \<exists>q. reconcile_loop print pairs acc = Inr q \<and> cp_messages q = cp_messages acc @ concat (map (settle print A) ms) \<and>
     paired S (concat (map (settle print A) ms)) \<and>
     filter (\<lambda>m. \<not> is_assistant m) (concat (map (settle print A) ms)) = filter (\<lambda>m. \<not> is_assistant m) ms"
proof (induction arbitrary: pairs acc B rule: snapshot.induct)
  case (snapshot_nil S)
  then show ?case by (auto intro: paired_nil)
next
  case (snapshot_plain m S ms)
  then obtain prov pairs' where pairs: "pairs = (m, prov) # pairs'" "map fst pairs' = ms" by auto
  let ?out = "concat (map (settle print A) ms)"
  have plain: "\<not> is_assistant m \<or> \<not> has_calls m"
    using snapshot_plain.hyps(2) by (auto simp: announced_calls_def is_assistant_def has_calls_def split: if_splits)
  note kept = settle_plain [OF snapshot_plain.hyps(2), of print A]
  from snapshot_plain.IH [of pairs' B "push_message m prov acc"] pairs snapshot_plain.prems snapshot_plain.hyps(1) obtain q
    where q: "reconcile_loop print pairs' (push_message m prov acc) = Inr q"
      "cp_messages q = (cp_messages acc @ [m]) @ ?out" "paired S ?out"
      "filter (\<lambda>m. \<not> is_assistant m) ?out = filter (\<lambda>m. \<not> is_assistant m) ms" by auto
  have "paired S (m # ?out)"
  proof (cases "announced_calls m")
    case None
    with q(3) snapshot_plain.hyps(1) show ?thesis by (auto intro: paired_plain)
  next
    case (Some calls)
    with snapshot_plain.hyps(2) have "announced_calls m = Some []" by simp
    from paired_block [OF this, of "[]" S "[]" ?out] q(3) show ?thesis by simp
  qed
  with q plain pairs(1) kept show ?case by (intro exI [of _ q]) auto
next
  case (snapshot_block m calls ids S results rs rest)
  then obtain prov rp restp where pairs: "pairs = (m, prov) # rp @ restp" "map fst rp = results" "map fst restp = rest"
    by (auto simp: map_eq_append_conv)
  let ?out = "concat (map (settle print A) rest)"
  have m: "is_assistant m" "get_array m ''tool_calls'' = Some calls" "has_calls m" "\<not> is_tool_message m"
    using snapshot_block.hyps(1,2)
    by (auto simp: announced_calls_def is_assistant_def has_calls_def is_tool_message_def split: if_splits)
  have ok: "check_call_ids [] calls = Inr ()" using snapshot_block.hyps by (intro check_call_ids_ok) auto
  have tool: "takeWhile (\<lambda>(m, _). is_tool_message m) (rp @ restp) = rp"
    "dropWhile (\<lambda>(m, _). is_tool_message m) (rp @ restp) = restp"
    using leading_results [of rp restp] snapshot_no_leading_result [OF snapshot_block.hyps(10)] snapshot_block.hyps(6) pairs(2,3)
    by simp_all
  have "set (answered_ids results) = Some ` set rs"
    using snapshot_block.hyps(6,7) by (simp add: answered_ids_def list_all_iff flip: set_map)
  then have A: "A = Some ` (B \<union> set rs) \<union> set (answered_ids rest)" "B \<union> set rs \<subseteq> S \<union> set ids"
    using snapshot_block.prems(3,4) snapshot_block.hyps(9) m(4) by (auto simp: answered_ids_def)
  have answered: "Some i \<in> A \<longleftrightarrow> i \<in> set rs" if "i \<in> set ids" for i
    using A(1) that snapshot_answers_fresh [OF snapshot_block.hyps(10), of i] snapshot_block.prems(4) snapshot_block.hyps(5) by auto
  define acc1 where "acc1 = reconcile_block print m prov rp acc"
  from snapshot_block.IH [OF pairs(3) _ A, of acc1] snapshot_block.prems obtain q
    where q: "reconcile_loop print restp acc1 = Inr q" "cp_messages q = cp_messages acc1 @ ?out"
      "paired (S \<union> set ids) ?out" "filter (\<lambda>m. \<not> is_assistant m) ?out = filter (\<lambda>m. \<not> is_assistant m) rest" by auto
  have wf: "json_wf m" using snapshot_block.prems(2) by simp
  from reconcile_block_paired [OF wf snapshot_block.hyps(1,3,4,5) _ _ snapshot_block.hyps(8,9) q(3) snapshot_block.hyps(2) answered,
      of rp print prov acc] snapshot_block.hyps(6,7) pairs(2)
  have heads: "cp_messages acc1 = cp_messages acc @ settle print A m @ results" "list_all is_assistant (settle print A m)"
    "paired S (settle print A m @ results @ ?out)" by (auto simp: acc1_def)
  have "reconcile_loop print pairs acc = Inr q"
    using m ok tool q(1) by (simp add: pairs(1) acc1_def)
  moreover have "filter (\<lambda>m. \<not> is_assistant m) (settle print A m) = []"
    using heads(2) by (simp add: filter_empty_conv list_all_iff)
  ultimately show ?case using heads q m settle_results [OF snapshot_block.hyps(6)]
    by (intro exI [of _ q]) simp
qed

text \<open>Merging neighbours leaves every other message alone.\<close>

lemma obj_get_or_insert: "map_of kvs k = Some v \<Longrightarrow> map_of (fold or_insert new kvs) k = Some v"
  by (induction new arbitrary: kvs) (auto simp: or_insert_def)

lemma merge_keeps_role:
  assumes "is_assistant target" shows "is_assistant (merge_chat_assistant_message print target incoming)"
proof -
  obtain t where t: "target = JObject t" "map_of t ''role'' = Some (JString ''assistant'')"
    using assms by (cases target) (auto simp: is_assistant_def get_str_def bind_eq_Some_conv elim: json_as_str.elims)
  have step: "map_of (fst (merge_text_field print k s)) ''role'' = map_of (fst s) ''role''" if "k \<noteq> ''role''" for k s
    using that by (cases s) (simp add: merge_text_field_def Let_def map_of_obj_insert)
  have calls: "map_of (merge_call_field c kvs) ''role'' = map_of kvs ''role''" for c kvs
    by (simp add: merge_call_field_def map_of_obj_insert split: option.split json.split)
  show ?thesis
    using t step
    by (cases incoming)
      (auto simp: merge_chat_assistant_message_def is_assistant_def get_str_def obj_get_or_insert calls case_prod_unfold)
qed

lemma coalesce_others:
  "filter (\<lambda>m. \<not> is_assistant m) (cp_messages (fold (coalesce_step print) pairs p)) =
     filter (\<lambda>m. \<not> is_assistant m) (cp_messages p @ map fst pairs)"
proof (induction pairs arbitrary: p)
  case (Cons mp pairs)
  have "filter (\<lambda>m. \<not> is_assistant m) (cp_messages (coalesce_step print mp p)) =
      filter (\<lambda>m. \<not> is_assistant m) (cp_messages p @ [fst mp])"
  proof (cases "cp_messages p" rule: rev_cases)
    case (snoc ms m)
    then show ?thesis by (cases mp) (simp add: coalesce_step_def merge_keeps_role)
  qed (cases mp, simp add: coalesce_step_def)
  with Cons show ?case by simp
qed simp

lemma coalesce_keeps_others:
  "filter (\<lambda>m. \<not> is_assistant m) (cp_messages (coalesce_adjacent_chat_assistant_messages print p)) =
     filter (\<lambda>m. \<not> is_assistant m) (cp_messages p)"
  by (simp add: coalesce_adjacent_chat_assistant_messages_def coalesce_others empty_projection_def)

text \<open>The words of the system messages, blank ones left out, and the head they make.\<close>

definition spoken_text :: "(json \<Rightarrow> string) \<Rightarrow> json \<Rightarrow> string option" where
  "spoken_text print m =
     (if is_system m
      then case map_option (content_to_text print) (json_get m ''content'') of
             Some (JString t) \<Rightarrow> if trim t = [] then None else Some t
           | _ \<Rightarrow> None
      else None)"

definition spoken_texts :: "(json \<Rightarrow> string) \<Rightarrow> json list \<Rightarrow> string list" where
  "spoken_texts print ms = List.map_filter (spoken_text print) ms"

definition system_head :: "string list \<Rightarrow> json list" where
  "system_head texts =
     (if texts = [] then []
      else [JObject [(''role'', JString ''system''), (''content'', JString (join_with [CHR 0x0A, CHR 0x0A] texts))]])"

lemma spoken_texts_eq:
  "map (\<lambda>(m, _). system_text print m) (filter (\<lambda>(m, _). is_system m \<and> trim (system_text print m) \<noteq> []) ps) =
     spoken_texts print (map fst ps)"
proof (induction ps)
  case (Cons a ps)
  have "trim [] = []" by code_simp
  then have "spoken_text print (fst a) =
      (if is_system (fst a) \<and> trim (system_text print (fst a)) \<noteq> [] then Some (system_text print (fst a)) else None)"
    by (auto simp: spoken_text_def system_text_def split: option.splits json.splits)
  with Cons show ?case by (cases a) (simp add: spoken_texts_def map_filter_simps)
qed (simp add: spoken_texts_def map_filter_simps)

lemma collapse_messages:
  "cp_messages (collapse_system_messages_to_head print r) =
     system_head (spoken_texts print (cp_messages r)) @ filter (\<lambda>m. \<not> is_system m) (cp_messages r)"
proof -
  have rest: "map fst (filter (\<lambda>(m, _). \<not> is_system m) (into_pairs r)) = filter (\<lambda>m. \<not> is_system m) (cp_messages r)"
    by (simp flip: map_fst_into_pairs add: filter_map comp_def case_prod_unfold)
  have texts: "spoken_texts print (cp_messages r) = map (\<lambda>(m, _). system_text print m)
      (filter (\<lambda>(m, _). is_system m \<and> trim (system_text print m) \<noteq> []) (into_pairs r))"
    by (simp add: spoken_texts_eq)
  show ?thesis unfolding texts
    by (auto simp: collapse_system_messages_to_head_def Let_def system_head_def rest split: list.split)
qed

lemma spoken_texts_others:
  "spoken_texts print (filter (\<lambda>m. \<not> is_assistant m) ms) = spoken_texts print ms"
proof (induction ms)
  case (Cons m ms)
  moreover have "is_assistant m \<Longrightarrow> spoken_text print m = None"
    by (simp add: spoken_text_def is_system_def is_assistant_def)
  ultimately show ?case by (auto simp: spoken_texts_def map_filter_simps split: option.split)
qed simp

lemma paired_system_head: "paired {} ms \<Longrightarrow> paired {} (system_head texts @ ms)"
  by (auto simp: system_head_def is_tool_message_def announced_calls_def get_str_def intro!: paired_plain)


definition sample_snapshot :: chat_projection where
  "sample_snapshot = from_messages
     [user_message ''hi'',
      JObject [(''role'', JString ''assistant''), (''content'', JString []),
        (''tool_calls'', JArray [JObject [(''id'', JString ''a'')], JObject [(''id'', JString ''b'')]])],
      sample_result]"

lemma sample_snapshot_coalesced:
  "cp_messages (coalesce_adjacent_chat_assistant_messages print sample_snapshot) = cp_messages sample_snapshot"
  by (simp add: sample_snapshot_def coalesce_adjacent_chat_assistant_messages_def coalesce_step_def into_pairs_def
      from_messages_def empty_projection_def push_message_def is_assistant_def sample_result_def get_str_def user_message_def)

lemma snapshot_sample: "snapshot {} (cp_messages sample_snapshot)"
proof -
  let ?m = "JObject [(''role'', JString ''assistant''), (''content'', JString []),
        (''tool_calls'', JArray [JObject [(''id'', JString ''a'')], JObject [(''id'', JString ''b'')]])]"
  have "snapshot {} (?m # [sample_result] @ [])"
    by (rule snapshot_block [where calls = "[JObject [(''id'', JString ''a'')], JObject [(''id'', JString ''b'')]]" and ids = "[''a'', ''b'']" and rs = "[''a'']"])
      (simp_all add: announced_calls_def get_str_def get_array_def is_tool_message_def sample_result_def snapshot_nil)
  then have "snapshot {} (user_message ''hi'' # ?m # [sample_result])"
    by - (rule snapshot_plain, simp_all add: is_tool_message_def announced_calls_def)
  then show ?thesis by (simp add: sample_snapshot_def from_messages_def)
qed


text \<open>
  A result that answers no call of its block does not fail the request: it is left out without a word,
  while the same result behind a user message is refused by the check.
\<close>

lemma foreign_result_dropped:
  "map_option cp_messages (case reconcile_partial_chat_tool_continuations print (from_messages
     [sample_call, sample_result, JObject [(''role'', JString ''tool''), (''tool_call_id'', JString ''x'')]]) of
       Inr q \<Rightarrow> Some q | Inl _ \<Rightarrow> None) = Some [sample_call, sample_result]"
  by (simp add: reconcile_partial_chat_tool_continuations_def from_messages_def into_pairs_def sample_call_def
      sample_result_def is_assistant_def has_calls_def get_str_def get_array_def is_tool_message_def
      reconcile_block_def Let_def map_filter_simps answered_by_def json_update_def on_object_def empty_projection_def
      push_message_def)

end
