(* ===== verification/Materialize.thy ===== *)
theory Materialize
  imports Chat_Transcript
begin

text \<open>
  Compaction markers on their way to a provider (\<open>exec.rs\<close>): a marker that stands for a journal of the
  history is replaced by the items of the journal, and the replay context is kept in step with the
  items: one identity per item, and the ranges of the replayed prefix and the current suffix. The
  history is the store of \<open>History\<close>, a failed lookup of a poisoned lock is not modelled.
\<close>

section \<open>Identities and ranges\<close>

definition LOCAL_COMPACTION_PREFIX :: string where
  "LOCAL_COMPACTION_PREFIX = CODEX_LOCAL_V0_150_MARKER_PREFIX"

definition local_compaction_item :: "string \<Rightarrow> json" where
  "local_compaction_item i =
     JObject [(''id'', JString i), (''type'', JString ''compaction''),
       (''encrypted_content'', JString (LOCAL_COMPACTION_PREFIX @ i))]"

datatype materialize_error =
    LegacyCanonicalUnsupported
  | ForeignCompaction
  | JournalMissing string
  | UnsupportedRecordSchema string u32
  | SourceHashMismatch string
  | ReplacementHashMismatch string
  | EmptyJournal string
  | Internal string

definition assert_replay_aligned :: "nat \<Rightarrow> replay_context \<Rightarrow> materialize_error + unit" where
  "assert_replay_aligned input_len replay =
     (case assert_input_identity_len input_len (rx_item_identities replay) of Inl e \<Rightarrow> Inl (Internal e) | Inr _ \<Rightarrow> Inr ())"

definition seed_replay_identities :: "nat \<Rightarrow> replay_context \<Rightarrow> materialize_error + replay_context" where
  "seed_replay_identities input_len replay =
     (let seeded =
        (if rx_item_identities replay = [] \<and> 0 < input_len
         then replay\<lparr>rx_item_identities := seed_request_identities input_len,
                     rx_suffix_end := (if rx_suffix_end replay = USIZE_MAX then input_len else rx_suffix_end replay)\<rparr>
         else replay)
      in case assert_replay_aligned input_len seeded of Inl e \<Rightarrow> Inl e | Inr _ \<Rightarrow> Inr seeded)"

definition apply_range_delta :: "nat \<Rightarrow> nat \<Rightarrow> int \<Rightarrow> nat" where
  "apply_range_delta bound item_index delta =
     (if bound \<le> item_index then bound
      else if 0 \<le> delta then usize_saturating_add bound (nat delta)
      else bound - nat (- delta))"

text \<open>
  The loop of \<open>realign_identities_after_item_filter\<close>: the item is looked for from the place where the last
  one was found; \<open>old_index\<close> and the rest of the list go together.
\<close>

fun realign_loop ::
  "replay_context \<Rightarrow> nat \<Rightarrow> json list \<Rightarrow> json list \<Rightarrow> string list \<Rightarrow> nat \<Rightarrow> nat \<Rightarrow> string list \<times> nat \<times> nat"
where
  "realign_loop replay old_index before [] kept prefix_len suffix_start = (kept, prefix_len, suffix_start)"
| "realign_loop replay old_index before (item # after) kept prefix_len suffix_start =
     (let skipped = length (takeWhile (\<lambda>x. \<not> json_eq x item) before);
          found = old_index + skipped
      in case drop skipped before of
           [] \<Rightarrow> realign_loop replay found [] after (kept @ [request_item_identity (length kept)]) prefix_len suffix_start
         | _ # rest \<Rightarrow>
             realign_loop replay (Suc found) rest after
               (kept @ [if found < length (rx_item_identities replay) then rx_item_identities replay ! found
                        else request_item_identity (length kept)])
               (if found < rx_prefix_len replay then prefix_len + 1 else prefix_len)
               (if found < rx_suffix_start replay then suffix_start + 1 else suffix_start))"

definition realign_identities_after_item_filter ::
  "replay_context \<Rightarrow> json list \<Rightarrow> json list \<Rightarrow> materialize_error + replay_context"
where
  "realign_identities_after_item_filter replay0 before after =
     (if length before = length after
      then (case assert_replay_aligned (length after) replay0 of Inl e \<Rightarrow> Inl e | Inr _ \<Rightarrow> Inr replay0)
      else case seed_replay_identities (length before) replay0 of
             Inl e \<Rightarrow> Inl e
           | Inr replay \<Rightarrow>
               (case realign_loop replay 0 before after [] 0 0 of
                  (kept, prefix_len, suffix_start) \<Rightarrow>
                    let replay' = replay\<lparr>rx_item_identities := kept, rx_prefix_len := prefix_len,
                                         rx_suffix_start := suffix_start, rx_suffix_end := length after\<rparr>
                    in case assert_replay_aligned (length after) replay' of Inl e \<Rightarrow> Inl e | Inr _ \<Rightarrow> Inr replay'))"

section \<open>Expanding markers\<close>

text \<open>
  Both stores answer a lookup of a journal with an error only when the mutex of the map is poisoned,
  that is after a panic in another thread; this error is not modelled.
\<close>

definition journal_pairs :: "string \<Rightarrow> json list \<Rightarrow> (json \<times> string) list" where
  "journal_pairs cid items = zip items (map (journal_item_identity cid) [0..<length items])"

text \<open>A marker with the id of a local journal: the journal has to be intact.\<close>

definition expand_journal ::
  "(string \<Rightarrow> string) \<Rightarrow> (json \<Rightarrow> string) \<Rightarrow> memory_history_store \<Rightarrow> string \<Rightarrow> materialize_error + (json \<times> string) list"
where
  "expand_journal sha print s cid =
     (case journal_record_for_compaction cid s of
        None \<Rightarrow> Inl (JournalMissing cid)
      | Some j \<Rightarrow>
          if cj_engine_id j \<noteq> ENGINE_ID then Inl LegacyCanonicalUnsupported
          else if cj_schema_version j \<noteq> LOCAL_COMPACTION_RECORD_SCHEMA_V1
               then Inl (UnsupportedRecordSchema cid (cj_schema_version j))
          else if cj_source_hash j = [] \<or> hash_items sha print (cj_source_items j) \<noteq> cj_source_hash j
               then Inl (SourceHashMismatch cid)
          else if cj_checkpoint_hash j = [] \<or> hash_items sha print (cj_canonical_items j) \<noteq> cj_checkpoint_hash j
               then Inl (ReplacementHashMismatch cid)
          else if cj_canonical_items j = [] then Inl (EmptyJournal cid)
          else Inr (journal_pairs cid (cj_canonical_items j)))"

text \<open>A marker of another engine or provider.\<close>

definition expand_foreign ::
  "memory_history_store \<Rightarrow> provider_kind \<Rightarrow> bool \<Rightarrow> bool \<Rightarrow> json \<times> string \<Rightarrow> materialize_error + (json \<times> string) list"
where
  "expand_foreign s kind allow portable p =
     (let otherwise = (if allow then Inr [p] else if portable then Inr [] else Inl ForeignCompaction) in
      if kind = Official then Inr [p]
      else case get_str (fst p) ''id'' of
             None \<Rightarrow> otherwise
           | Some i \<Rightarrow>
               if (case journal_record_for_compaction i s of Some j \<Rightarrow> cj_engine_id j \<noteq> ENGINE_ID | None \<Rightarrow> False)
               then Inl LegacyCanonicalUnsupported
               else (case canonical_items_for_compaction i s of
                       Some items \<Rightarrow> if items \<noteq> [] then Inr (journal_pairs i items) else otherwise
                     | None \<Rightarrow> otherwise))"

definition expand_item ::
  "(string \<Rightarrow> string) \<Rightarrow> (json \<Rightarrow> string) \<Rightarrow> memory_history_store \<Rightarrow> provider_kind \<Rightarrow> bool \<Rightarrow> bool
     \<Rightarrow> json \<times> string \<Rightarrow> materialize_error + (json \<times> string) list"
where
  "expand_item sha print s kind allow portable p =
     (let item = fst p in
      if classify_compaction_item print item = None \<or> classify_compaction_item print item = Some ProvenClientLocal then Inr [p]
      else if get_str item ''type'' \<noteq> Some ''compaction'' then Inr [p]
      else if is_legacy_canonical_marker item then Inl LegacyCanonicalUnsupported
      else case or_else
             (strip_prefix (case get_str item ''encrypted_content'' of Some x \<Rightarrow> x | None \<Rightarrow> []) LOCAL_COMPACTION_PREFIX)
             (case get_str item ''id'' of
                Some i \<Rightarrow> if starts_with i ''cmp_local_'' \<or> starts_with i ''cmp_vellum_'' then Some i else None
              | None \<Rightarrow> None) of
           None \<Rightarrow> expand_foreign s kind allow portable p
         | Some cid \<Rightarrow> expand_journal sha print s cid)"

text \<open>
  An item that is pushed as it is does not touch the ranges, which is a delta of zero; an expansion to
  \<open>n\<close> items is a delta of \<open>n - 1\<close>, a dropped item one of \<open>-1\<close>.
\<close>

fun materialize_loop ::
  "(json \<times> string \<Rightarrow> materialize_error + (json \<times> string) list) \<Rightarrow> nat \<Rightarrow> (json \<times> string) list \<Rightarrow> (json \<times> string) list
     \<Rightarrow> nat \<times> nat \<times> nat \<Rightarrow> materialize_error + (json \<times> string) list \<times> nat \<times> nat \<times> nat"
where
  "materialize_loop expand index [] out bounds = Inr (out, bounds)"
| "materialize_loop expand index (p # ps) out (prefix_len, suffix_start, suffix_end) =
     (case expand p of
        Inl e \<Rightarrow> Inl e
      | Inr ys \<Rightarrow>
          let shift = (\<lambda>b. apply_range_delta b index (int (length ys) - 1)) in
          materialize_loop expand (Suc index) ps (out @ ys) (shift prefix_len, shift suffix_start, shift suffix_end))"

definition materialize_local_compactions ::
  "(string \<Rightarrow> string) \<Rightarrow> (json \<Rightarrow> string) \<Rightarrow> memory_history_store \<Rightarrow> provider_kind \<Rightarrow> bool \<Rightarrow> bool
     \<Rightarrow> json \<Rightarrow> replay_context \<Rightarrow> materialize_error + json \<times> replay_context"
where
  "materialize_local_compactions sha print s kind allow portable body replay0 =
     (case get_array body ''input'' of
        None \<Rightarrow> Inr (body, replay0)
      | Some input \<Rightarrow>
          (case seed_replay_identities (length input) replay0 of
             Inl e \<Rightarrow> Inl e
           | Inr replay \<Rightarrow>
               (case materialize_loop (expand_item sha print s kind allow portable) 0
                       (zip input (rx_item_identities replay)) []
                       (rx_prefix_len replay, rx_suffix_start replay, rx_suffix_end replay) of
                  Inl e \<Rightarrow> Inl e
                | Inr (out, prefix_len, suffix_start, suffix_end) \<Rightarrow>
                    let replay' = replay\<lparr>rx_item_identities := map snd out, rx_prefix_len := prefix_len,
                                         rx_suffix_start := suffix_start, rx_suffix_end := suffix_end\<rparr>
                    in case assert_replay_aligned (length out) replay' of
                         Inl e \<Rightarrow> Inl e
                       | Inr _ \<Rightarrow> Inr (json_update ''input'' (\<lambda>_. JArray (map fst out)) body, replay'))))"

section \<open>Ranges\<close>

fun range_loop :: "nat \<Rightarrow> 'a list list \<Rightarrow> nat \<Rightarrow> nat" where
  "range_loop index [] b = b"
| "range_loop index (ys # yss) b = range_loop (Suc index) yss (apply_range_delta b index (int (length ys) - 1))"

lemma materialize_loop_spec:
  "materialize_loop expand index ps out (a, b, c) = Inr (out', r) \<Longrightarrow>
   \<exists>yss. map expand ps = map Inr yss \<and> out' = out @ concat yss \<and>
     r = (range_loop index yss a, range_loop index yss b, range_loop index yss c)"
proof (induction ps arbitrary: index out a b c)
  case (Cons p ps)
  from Cons.prems obtain ys where ys: "expand p = Inr ys"
    and loop: "materialize_loop expand (Suc index) ps (out @ ys)
      (apply_range_delta a index (int (length ys) - 1), apply_range_delta b index (int (length ys) - 1),
       apply_range_delta c index (int (length ys) - 1)) = Inr (out', r)"
    by (auto simp: Let_def split: sum.splits)
  from Cons.IH [OF loop] obtain yss where "map expand ps = map Inr yss" "out' = (out @ ys) @ concat yss"
    "r = (range_loop (Suc index) yss (apply_range_delta a index (int (length ys) - 1)),
      range_loop (Suc index) yss (apply_range_delta b index (int (length ys) - 1)),
      range_loop (Suc index) yss (apply_range_delta c index (int (length ys) - 1)))" by blast
  with ys show ?case by (intro exI [of _ "ys # yss"]) simp
qed simp

lemma range_loop_singletons:
  "list_all (\<lambda>ys. length ys = 1) yss \<Longrightarrow> b \<le> USIZE_MAX \<Longrightarrow> range_loop index yss b = b"
  by (induction yss arbitrary: index)
    (auto simp: apply_range_delta_def usize_saturating_add_def USIZE_MAX_def)

lemma length_concat_singletons: "list_all (\<lambda>ys. length ys = 1) yss \<Longrightarrow> length (concat yss) = length yss"
  by (induction yss) auto

text \<open>With at most one expansion the ranges follow the items.\<close>

lemma range_loop_exact:
  "length (filter (\<lambda>ys. length ys \<noteq> 1) yss) \<le> 1 \<Longrightarrow> b \<le> index + length yss \<Longrightarrow>
   b + length (concat yss) \<le> USIZE_MAX \<Longrightarrow>
   range_loop index yss b = (if b \<le> index then b else index + length (concat (take (b - index) yss)))"
proof (induction yss arbitrary: index b)
  case (Cons ys yss)
  have small: "b + length ys + length (concat yss) \<le> USIZE_MAX" using Cons.prems(3) by simp
  show ?case
  proof (cases "b \<le> index")
    case True
    then have "apply_range_delta b index (int (length ys) - 1) = b" by (simp add: apply_range_delta_def)
    moreover have "range_loop (Suc index) yss b = b"
      using Cons.IH [of b "Suc index"] Cons.prems True small by (auto split: if_splits)
    ultimately show ?thesis using True by simp
  next
    case False
    then obtain k where k: "b - index = Suc k" "b = index + Suc k" by (metis Suc_diff_Suc le_add_diff_inverse less_imp_le_nat not_le)
    show ?thesis
    proof (cases "length ys = 1")
      case True
      then have "apply_range_delta b index (int (length ys) - 1) = b"
        using small by (simp add: apply_range_delta_def usize_saturating_add_def USIZE_MAX_def)
      moreover have "range_loop (Suc index) yss b = (if b \<le> Suc index then b else Suc index + length (concat (take (b - Suc index) yss)))"
        using Cons.prems small True by (intro Cons.IH) auto
      ultimately show ?thesis using k True by (auto split: if_splits)
    next
      case ne: False
      then have "filter (\<lambda>ys. length ys \<noteq> 1) yss = []" using Cons.prems(1) by simp
      then have single: "list_all (\<lambda>ys. length ys = 1) yss" by (simp add: filter_empty_conv list_all_iff)
      have "apply_range_delta b index (int (length ys) - 1) = b + length ys - 1"
        using False small by (cases ys) (auto simp: apply_range_delta_def usize_saturating_add_def USIZE_MAX_def)
      moreover have "range_loop (Suc index) yss (b + length ys - 1) = b + length ys - 1"
        using small by (intro range_loop_singletons [OF single]) simp
      moreover have "length (concat (take k yss)) = k"
        using length_concat_singletons [of "take k yss"] single Cons.prems(2) k
        by (auto simp: list_all_iff dest: in_set_takeD)
      ultimately show ?thesis using k by simp
    qed
  qed
qed simp

lemma aligned_seed:
  assumes "length (rx_item_identities replay) = n"
  shows "seed_replay_identities n replay = Inr replay"
  using assms by (auto simp: seed_replay_identities_def assert_replay_aligned_def assert_input_identity_len_def)

text \<open>
  What may stand in the place of one item. A marker is an item of type \<open>compaction\<close> that is not a summary
  the client wrote itself. An own marker names its journal in its opaque content or by its id; a
  foreign one may have recorded items, and is kept or dropped otherwise.
\<close>

definition is_marker :: "(json \<Rightarrow> string) \<Rightarrow> json \<Rightarrow> bool" where
  "is_marker print item \<longleftrightarrow>
     get_str item ''type'' = Some ''compaction'' \<and> classify_compaction_item print item \<noteq> Some ProvenClientLocal"

definition own_journal :: "json \<Rightarrow> string \<Rightarrow> bool" where
  "own_journal item cid \<longleftrightarrow>
     get_str item ''encrypted_content'' = Some (LOCAL_COMPACTION_PREFIX @ cid) \<or>
     (\<forall>x. get_str item ''encrypted_content'' \<noteq> Some (LOCAL_COMPACTION_PREFIX @ x)) \<and> get_str item ''id'' = Some cid \<and>
       (starts_with cid ''cmp_local_'' \<or> starts_with cid ''cmp_vellum_'')"

definition intact :: "(string \<Rightarrow> string) \<Rightarrow> (json \<Rightarrow> string) \<Rightarrow> compaction_journal \<Rightarrow> bool" where
  "intact sha print j \<longleftrightarrow>
     cj_engine_id j = ENGINE_ID \<and> cj_schema_version j = LOCAL_COMPACTION_RECORD_SCHEMA_V1 \<and>
     cj_source_hash j \<noteq> [] \<and> hash_items sha print (cj_source_items j) = cj_source_hash j \<and>
     cj_checkpoint_hash j \<noteq> [] \<and> hash_items sha print (cj_canonical_items j) = cj_checkpoint_hash j \<and>
     cj_canonical_items j \<noteq> []"

definition recorded_items :: "memory_history_store \<Rightarrow> json \<Rightarrow> string \<Rightarrow> json list \<Rightarrow> bool" where
  "recorded_items s item i items \<longleftrightarrow>
     get_str item ''id'' = Some i \<and> canonical_items_for_compaction i s = Some items \<and> items \<noteq> []"

inductive replaced ::
  "(string \<Rightarrow> string) \<Rightarrow> (json \<Rightarrow> string) \<Rightarrow> memory_history_store \<Rightarrow> provider_kind \<Rightarrow> bool \<Rightarrow> bool
     \<Rightarrow> json \<times> string \<Rightarrow> (json \<times> string) list \<Rightarrow> bool"
  for sha print s kind allow portable
where
  ordinary: "\<not> is_marker print item \<Longrightarrow> replaced sha print s kind allow portable (item, i) [(item, i)]"
| own:
    "is_marker print item \<Longrightarrow> own_journal item cid \<Longrightarrow> journal_record_for_compaction cid s = Some j \<Longrightarrow> intact sha print j \<Longrightarrow>
     map fst ys = cj_canonical_items j \<Longrightarrow> map snd ys = map (journal_item_identity cid) [0..<length ys] \<Longrightarrow>
     replaced sha print s kind allow portable (item, i) ys"
| foreign_recorded:
    "is_marker print item \<Longrightarrow> (\<nexists>cid. own_journal item cid) \<Longrightarrow> kind \<noteq> Official \<Longrightarrow> recorded_items s item cid items \<Longrightarrow>
     map fst ys = items \<Longrightarrow> map snd ys = map (journal_item_identity cid) [0..<length ys] \<Longrightarrow>
     replaced sha print s kind allow portable (item, i) ys"
| foreign_kept:
    "is_marker print item \<Longrightarrow> (\<nexists>cid. own_journal item cid) \<Longrightarrow>
     kind = Official \<or> allow \<and> (\<nexists>cid items. recorded_items s item cid items) \<Longrightarrow>
     replaced sha print s kind allow portable (item, i) [(item, i)]"
| foreign_dropped:
    "is_marker print item \<Longrightarrow> (\<nexists>cid. own_journal item cid) \<Longrightarrow> kind \<noteq> Official \<Longrightarrow> \<not> allow \<Longrightarrow> portable \<Longrightarrow>
     (\<nexists>cid items. recorded_items s item cid items) \<Longrightarrow>
     replaced sha print s kind allow portable (item, i) []"

lemma journal_pairs_parts:
  "map fst (journal_pairs cid items) = items" "length (journal_pairs cid items) = length items"
  "map snd (journal_pairs cid items) = map (journal_item_identity cid) [0..<length items]"
  by (simp_all add: journal_pairs_def)

lemma is_marker_classified: "is_marker print item \<Longrightarrow> classify_compaction_item print item \<noteq> None"
  by (auto simp: is_marker_def classify_compaction_item_def)

lemma strip_prefix_eq: "strip_prefix x p = Some y \<longleftrightarrow> x = p @ y"
  by (auto simp: strip_prefix_def starts_with_def) (metis append_take_drop_id)

definition marker_journal_id :: "json \<Rightarrow> string option" where
  "marker_journal_id item = or_else
     (strip_prefix (case get_str item ''encrypted_content'' of Some x \<Rightarrow> x | None \<Rightarrow> []) LOCAL_COMPACTION_PREFIX)
     (case get_str item ''id'' of
        Some i \<Rightarrow> if starts_with i ''cmp_local_'' \<or> starts_with i ''cmp_vellum_'' then Some i else None
      | None \<Rightarrow> None)"

lemma marker_journal_id_eq: "marker_journal_id item = Some cid \<longleftrightarrow> own_journal item cid"
proof -
  let ?x = "case get_str item ''encrypted_content'' of Some x \<Rightarrow> x | None \<Rightarrow> []"
  have prefix: "?x = LOCAL_COMPACTION_PREFIX @ y \<longleftrightarrow> get_str item ''encrypted_content'' = Some (LOCAL_COMPACTION_PREFIX @ y)" for y
    by (auto simp: LOCAL_COMPACTION_PREFIX_def CODEX_LOCAL_V0_150_MARKER_PREFIX_def split: option.split)
  show ?thesis
  proof (cases "strip_prefix ?x LOCAL_COMPACTION_PREFIX")
    case None
    then have "\<nexists>y. get_str item ''encrypted_content'' = Some (LOCAL_COMPACTION_PREFIX @ y)"
      unfolding prefix [symmetric] by (simp flip: strip_prefix_eq)
    with None show ?thesis by (auto simp: marker_journal_id_def own_journal_def or_else_def split: option.splits if_splits)
  next
    case (Some y)
    then have "get_str item ''encrypted_content'' = Some (LOCAL_COMPACTION_PREFIX @ y)"
      by (simp add: strip_prefix_eq prefix)
    with Some show ?thesis by (auto simp: marker_journal_id_def own_journal_def or_else_def)
  qed
qed

lemma expand_foreign_replaced:
  assumes "expand_foreign s kind allow portable (item, i) = Inr ys" "is_marker print item" "\<nexists>cid. own_journal item cid"
  shows "replaced sha print s kind allow portable (item, i) ys"
proof (cases "\<exists>cid items. recorded_items s item cid items \<and> kind \<noteq> Official")
  case True
  then obtain cid items where r: "recorded_items s item cid items" "kind \<noteq> Official" by blast
  then have "ys = journal_pairs cid items"
    using assms(1) by (auto simp: expand_foreign_def recorded_items_def Let_def split: if_splits)
  with r assms(2,3) show ?thesis by (intro foreign_recorded [where cid = cid and items = items]) (simp_all add: journal_pairs_parts)
next
  case False
  then have "kind = Official \<and> ys = [(item, i)] \<or> kind \<noteq> Official \<and> (allow \<and> ys = [(item, i)] \<or> \<not> allow \<and> portable \<and> ys = [])"
    using assms(1) by (auto simp: expand_foreign_def recorded_items_def Let_def split: if_splits option.splits)
  with False assms(2,3) show ?thesis by (auto intro: foreign_kept foreign_dropped)
qed

lemma expand_item_replaced:
  assumes "expand_item sha print s kind allow portable p = Inr ys"
  shows "replaced sha print s kind allow portable p ys"
proof -
  obtain item i where p: "p = (item, i)" by (cases p)
  show ?thesis
  proof (cases "is_marker print item")
    case False
    then have "ys = [p]"
      using assms by (auto simp: expand_item_def is_marker_def p split: if_splits)
    with False show ?thesis by (simp add: p ordinary)
  next
    case True
    then have e: "(case marker_journal_id item of None \<Rightarrow> expand_foreign s kind allow portable p
        | Some cid \<Rightarrow> expand_journal sha print s cid) = Inr ys"
      using assms is_marker_classified [OF True]
      unfolding expand_item_def Let_def p fst_conv marker_journal_id_def [symmetric] is_marker_def
      by (simp split: if_splits)
    show ?thesis
    proof (cases "marker_journal_id item")
      case None
      then have "\<nexists>cid. own_journal item cid" by (simp flip: marker_journal_id_eq)
      with None e True show ?thesis unfolding p by (intro expand_foreign_replaced) simp_all
    next
      case (Some cid)
      with e obtain j where "journal_record_for_compaction cid s = Some j" "intact sha print j"
        "ys = journal_pairs cid (cj_canonical_items j)"
        by (auto simp: expand_journal_def intact_def split: option.splits if_splits)
      with True Some show ?thesis
        unfolding p by (intro own [where cid = cid and j = j]) (simp_all add: marker_journal_id_eq journal_pairs_parts)
    qed
  qed
qed

text \<open>
  C28: Materializing the compaction markers of a request is a replacement in place: every ordinary item
  stays with its identity; an own marker becomes the items of its intact journal with the identities of
  the journal; a foreign marker becomes its recorded items if there are any, stays on the official route
  or where foreign markers are allowed, and is dropped on a portable one; and there is one identity
  per item. When at most one item changes its number, the replayed prefix and the current suffix are
  the images of the old ones.
\<close>

theorem materialize_in_place:
  assumes "get_array body ''input'' = Some items" and "length (rx_item_identities replay) = length items"
    and "materialize_local_compactions sha print s kind allow portable body replay = Inr (body', replay')"
  shows "\<exists>yss. list_all2 (replaced sha print s kind allow portable) (zip items (rx_item_identities replay)) yss \<and>
    get_array body' ''input'' = Some (map fst (concat yss)) \<and> rx_item_identities replay' = map snd (concat yss) \<and>
    (length (filter (\<lambda>ys. length ys \<noteq> 1) yss) \<le> 1 \<and> rx_prefix_len replay \<le> length items \<and>
     rx_suffix_start replay \<le> length items \<and> rx_suffix_end replay = length items \<and>
     length items + length (concat yss) \<le> USIZE_MAX \<longrightarrow>
       prefix_items replay' (map fst (concat yss)) = map fst (concat (take (rx_prefix_len replay) yss)) \<and>
       suffix_items replay' (map fst (concat yss)) = map fst (concat (drop (rx_suffix_start replay) yss)))"
proof -
  let ?e = "expand_item sha print s kind allow portable"
  obtain kvs where body: "body = JObject kvs" using assms(1) by (cases body) (auto simp: get_array_def)
  from assms(3) obtain out a b c where
    loop: "materialize_loop ?e 0 (zip items (rx_item_identities replay)) []
      (rx_prefix_len replay, rx_suffix_start replay, rx_suffix_end replay) = Inr (out, a, b, c)"
    and res: "body' = json_update ''input'' (\<lambda>_. JArray (map fst out)) body"
      "replay' = replay\<lparr>rx_item_identities := map snd out, rx_prefix_len := a, rx_suffix_start := b, rx_suffix_end := c\<rparr>"
    by (auto simp: materialize_local_compactions_def assms(1) aligned_seed [OF assms(2)] Let_def split: sum.splits)
  from materialize_loop_spec [OF loop] obtain yss where yss: "map ?e (zip items (rx_item_identities replay)) = map Inr yss"
    "out = concat yss" "a = range_loop 0 yss (rx_prefix_len replay)" "b = range_loop 0 yss (rx_suffix_start replay)"
    "c = range_loop 0 yss (rx_suffix_end replay)" by auto
  have len: "length yss = length items" using arg_cong [OF yss(1), of length] assms(2) by simp
  have input: "get_array body' ''input'' = Some (map fst (concat yss))"
    using assms(1) by (auto simp: res(1) yss(2) body get_array_def json_update_def on_object_def map_of_obj_update
        bind_eq_Some_conv)
  have "prefix_items replay' (map fst (concat yss)) = map fst (concat (take (rx_prefix_len replay) yss)) \<and>
       suffix_items replay' (map fst (concat yss)) = map fst (concat (drop (rx_suffix_start replay) yss))"
    if one: "length (filter (\<lambda>ys. length ys \<noteq> 1) yss) \<le> 1" and "rx_prefix_len replay \<le> length items"
      "rx_suffix_start replay \<le> length items" "rx_suffix_end replay = length items"
      "length items + length (concat yss) \<le> USIZE_MAX"
  proof -
    have exact: "range_loop 0 yss n = length (concat (take n yss))" if "n \<le> length items" for n
      using range_loop_exact [OF one, of n 0] that \<open>length items + _ \<le> _\<close> len by (cases n) auto
    have split: "concat yss = concat (take n yss) @ concat (drop n yss)" for n
      by (metis append_take_drop_id concat_append)
    have "length (concat (take n yss)) \<le> length (concat yss)" for n
      using arg_cong [OF split [of n], of length] by simp
    moreover have "drop (length (concat (take n yss))) (concat yss) = concat (drop n yss)"
      "take (length (concat (take n yss))) (concat yss) = concat (take n yss)" for n
      using split [of n] by (metis append_eq_conv_conj)+
    ultimately show ?thesis
      using that exact len
      by (simp add: res(2) yss(3-5) prefix_items_def suffix_items_def Let_def take_map drop_map min_absorb1 max_absorb1)
  qed
  moreover have "list_all2 (replaced sha print s kind allow portable) (zip items (rx_item_identities replay)) yss"
    using yss(1) unfolding list.rel_eq [symmetric] list_all2_map1 list_all2_map2
    by (rule list_all2_mono) (rule expand_item_replaced)
  ultimately show ?thesis using input by (intro exI [of _ yss]) (simp add: res(2) yss(2))
qed

inductive_cases replaced_item: "replaced sha print s kind allow portable (item, i) ys"

lemma replaced_ordinary: "replaced sha print s kind allow portable (item, i) ys \<Longrightarrow> \<not> is_marker print item \<Longrightarrow> ys = [(item, i)]"
  by (auto elim: replaced_item)

lemma replaced_own:
  assumes "replaced sha print s kind allow portable (item, i) ys" "is_marker print item" "marker_journal_id item = Some cid"
    "journal_record_for_compaction cid s = Some j"
  shows "map fst ys = cj_canonical_items j \<and> map snd ys = map (journal_item_identity cid) [0..<length (cj_canonical_items j)]"
proof -
  have only: "own_journal item x \<longleftrightarrow> x = cid" for x using assms(3) by (auto simp flip: marker_journal_id_eq)
  from assms(1) show ?thesis
  proof cases
    case (own cid' j')
    then have "cid' = cid" "j' = j" using only assms(4) by auto
    moreover have "length ys = length (cj_canonical_items j')" using own by (metis length_map)
    ultimately show ?thesis using own by simp
  qed (use assms(2) only in auto)
qed

text \<open>
  With two expansions they do not: the position of the second marker is compared with a bound that the
  first one has already moved, and a prefix of four items is reported to have six.
\<close>

definition sample_journal :: memory_history_store where
  "sample_journal = record_compaction id (\<lambda>_. ''x'') 0 ''r'' ''c'' 1 [JNull, JNull, JNull] new_store"

lemma two_markers_shift_ranges:
  "map_sum id (\<lambda>(out, prefix_len, _). (length out, prefix_len))
     (materialize_loop (expand_item id (\<lambda>_. ''x'') sample_journal GrokCli False False) 0
       [(local_compaction_item ''c'', ''0''), (user_message ''old'', ''1''), (local_compaction_item ''c'', ''2''), (user_message ''new'', ''3'')]
       [] (2, 2, 4)) = Inr (8, 6)"
proof -
  have "expand_item id (\<lambda>_. ''x'') sample_journal GrokCli False False (local_compaction_item ''c'', i) =
      Inr [(JNull, journal_item_identity ''c'' 0), (JNull, journal_item_identity ''c'' 1), (JNull, journal_item_identity ''c'' 2)]"
    "expand_item id (\<lambda>_. ''x'') sample_journal GrokCli False False (user_message t, i) = Inr [(user_message t, i)]" for i t
    by code_simp+
  then show ?thesis by (simp add: apply_range_delta_def usize_saturating_add_def)
qed

section \<open>A recorded compaction comes back\<close>

text \<open>
  C29: What a local compaction recorded is what its marker becomes: a validated record under a fresh id,
  read back through the marker that the proxy hands to the client, yields exactly the replacement
  items with the identities of the journal.
\<close>

theorem local_compaction_materializes:
  assumes "record_local_compaction sha print now r s = (Inr (), s')"
    and "journal_record_for_compaction (lcr_compaction_id r) s = None"
    and "lcr_engine_id r = ENGINE_ID" and "lcr_replacement_items r \<noteq> []" and "\<And>x. sha x \<noteq> []"
  shows "expand_item sha print s' kind allow portable (local_compaction_item (lcr_compaction_id r), identity) =
    Inr (journal_pairs (lcr_compaction_id r) (lcr_replacement_items r))"
proof -
  let ?i = "lcr_compaction_id r"
  have ok: "validate_local sha print r = Inr ()" and s': "s' = record_compaction_record now (into_storage_record r) s"
    using assms(1) by (auto simp: record_local_compaction_def split: sum.splits)
  have "journal_record_for_compaction ?i s' = Some (from_record now (into_storage_record r))"
    using recorded_journal_found [of "into_storage_record r" s now] assms(2)
    by (simp add: s' into_storage_record_def)
  moreover have "hash_items sha print xs \<noteq> []" for xs by (simp add: hash_items_def assms(5))
  moreover have "lcr_schema_version r = LOCAL_COMPACTION_RECORD_SCHEMA_V1"
    "hash_items sha print (lcr_source_items r) = lcr_source_hash r"
    "hash_items sha print (lcr_replacement_items r) = lcr_replacement_hash r"
    using ok by (auto simp: validate_local_def split: if_splits)
  ultimately have journal: "expand_journal sha print s' ?i = Inr (journal_pairs ?i (lcr_replacement_items r))"
    using assms(3,4) by (auto simp: expand_journal_def from_record_def into_storage_record_def)
  have opaque: "get_str (local_compaction_item ?i) ''encrypted_content'' = Some (LOCAL_COMPACTION_PREFIX @ ?i)"
    "get_str (local_compaction_item ?i) ''type'' = Some ''compaction''"
    by (simp_all add: local_compaction_item_def get_str_def)
  have starts: "starts_with (LOCAL_COMPACTION_PREFIX @ ?i) CODEX_LOCAL_V0_150_MARKER_PREFIX"
    "\<not> starts_with (LOCAL_COMPACTION_PREFIX @ ?i) LEGACY_CANONICAL_MARKER_PREFIX"
    by (simp_all add: starts_with_def LOCAL_COMPACTION_PREFIX_def CODEX_LOCAL_V0_150_MARKER_PREFIX_def
        LEGACY_CANONICAL_MARKER_PREFIX_def)
  have "classify_compaction_item print (local_compaction_item ?i) = Some VellumJournal"
    using opaque starts by (simp add: classify_compaction_item_def is_vellum_local_compaction_def)
  moreover have "\<not> is_legacy_canonical_marker (local_compaction_item ?i)"
    using opaque starts by (simp add: is_legacy_canonical_marker_def)
  moreover have "strip_prefix (LOCAL_COMPACTION_PREFIX @ ?i) LOCAL_COMPACTION_PREFIX = Some ?i"
    by (simp add: strip_prefix_def starts_with_def)
  ultimately show ?thesis using opaque journal by (simp add: expand_item_def or_else_def)
qed

definition sample_record :: local_compaction_record_v1 where
  "sample_record =
     \<lparr>lcr_schema_version = 1, lcr_response_id = ''r'', lcr_compaction_id = ''c'', lcr_generation = 1,
      lcr_engine_id = ENGINE_ID, lcr_engine_provenance = None, lcr_source_items = [JNull], lcr_source_hash = ''h'',
      lcr_replacement_items = [JBool True], lcr_replacement_hash = ''h'', lcr_route_id = [], lcr_upstream_model = [],
      lcr_tokens_before = 0, lcr_tokens_after = 0, lcr_elapsed_ms = 0, lcr_failure = None, lcr_created_at = 0\<rparr>"

theorem local_compaction_materializes_witness:
  "\<exists>s'. record_local_compaction (\<lambda>_. ''h'') (\<lambda>_. []) 0 sample_record new_store = (Inr (), s') \<and>
     expand_item (\<lambda>_. ''h'') (\<lambda>_. []) s' GrokCli False False (local_compaction_item ''c'', ''req:0'') =
       Inr (journal_pairs ''c'' [JBool True])"
proof -
  have rec: "record_local_compaction (\<lambda>_. ''h'') (\<lambda>_. []) 0 sample_record new_store =
      (Inr (), record_compaction_record 0 (into_storage_record sample_record) new_store)"
    and fresh: "journal_record_for_compaction (lcr_compaction_id sample_record) new_store = None"
    and fields: "lcr_engine_id sample_record = ENGINE_ID" "lcr_replacement_items sample_record = [JBool True]"
      "lcr_compaction_id sample_record = ''c''"
    by code_simp+
  from local_compaction_materializes [OF rec fresh fields(1)] rec fields(2,3) show ?thesis by simp
qed

text \<open>A request with one marker behind two items, all of them replayed.\<close>

definition sample_marked :: json where
  "sample_marked = JObject [(''input'', JArray [user_message ''a'', local_compaction_item ''c'', user_message ''b''])]"

definition sample_ranges :: replay_context where
  "sample_ranges = \<lparr>rx_prefix_len = 2, rx_suffix_start = 2, rx_suffix_end = 3, rx_continuation_mode = PortableSemanticReplay,
      rx_client_carried_full_history = False, rx_overlap_skipped = 0, rx_allow_reasoning_replay = True,
      rx_compaction_repairs = 0, rx_same_route = True, rx_item_identities = [''0'', ''1'', ''2'']\<rparr>"

theorem materialize_in_place_witness:
  "\<exists>body' replay'. materialize_local_compactions id (\<lambda>_. ''x'') sample_journal GrokCli False False sample_marked sample_ranges =
       Inr (body', replay') \<and>
     rx_item_identities replay' = [''0'', ''journal:c:0'', ''journal:c:1'', ''journal:c:2'', ''2'']"
proof -
  let ?e = "expand_item id (\<lambda>_. ''x'') sample_journal GrokCli False False"
  have marker: "?e (local_compaction_item ''c'', i) =
      Inr [(JNull, ''journal:c:0''), (JNull, ''journal:c:1''), (JNull, ''journal:c:2'')]"
    and user: "?e (user_message t, i) = Inr [(user_message t, i)]" for i t
    by code_simp+
  have items: "get_array sample_marked ''input'' = Some [user_message ''a'', local_compaction_item ''c'', user_message ''b'']"
    "length (rx_item_identities sample_ranges) = length [user_message ''a'', local_compaction_item ''c'', user_message ''b'']"
    by (simp_all add: sample_marked_def sample_ranges_def get_array_def)
  obtain body' replay' where run: "materialize_local_compactions id (\<lambda>_. ''x'') sample_journal GrokCli False False
      sample_marked sample_ranges = Inr (body', replay')"
    by (simp add: materialize_local_compactions_def items(1) seed_replay_identities_def marker user sample_ranges_def
        assert_replay_aligned_def assert_input_identity_len_def Let_def)
  from materialize_in_place [OF items run] obtain yss where
    yss: "list_all2 (replaced id (\<lambda>_. ''x'') sample_journal GrokCli False False)
      (zip [user_message ''a'', local_compaction_item ''c'', user_message ''b''] (rx_item_identities sample_ranges)) yss"
    and ids: "rx_item_identities replay' = map snd (concat yss)" by blast
  then obtain y0 y1 y2 where y: "yss = [y0, y1, y2]"
    "replaced id (\<lambda>_. ''x'') sample_journal GrokCli False False (user_message ''a'', ''0'') y0"
    "replaced id (\<lambda>_. ''x'') sample_journal GrokCli False False (local_compaction_item ''c'', ''1'') y1"
    "replaced id (\<lambda>_. ''x'') sample_journal GrokCli False False (user_message ''b'', ''2'') y2"
    by (auto simp: sample_ranges_def list_all2_Cons1)
  have plain: "\<not> is_marker (\<lambda>_. ''x'') (user_message ''a'')" "\<not> is_marker (\<lambda>_. ''x'') (user_message ''b'')"
    "is_marker (\<lambda>_. ''x'') (local_compaction_item ''c'')" "marker_journal_id (local_compaction_item ''c'') = Some ''c''"
    "map_option cj_canonical_items (journal_record_for_compaction ''c'' sample_journal) = Some [JNull, JNull, JNull]"
    by code_simp+
  then obtain jr where jr: "journal_record_for_compaction ''c'' sample_journal = Some jr" "cj_canonical_items jr = [JNull, JNull, JNull]" by auto
  have "map (journal_item_identity ''c'') [0..<length (cj_canonical_items jr)] = [''journal:c:0'', ''journal:c:1'', ''journal:c:2'']"
    unfolding jr(2) by code_simp
  with replaced_own [OF y(3) plain(3,4) jr(1)] have "map snd y1 = [''journal:c:0'', ''journal:c:1'', ''journal:c:2'']" by simp
  with replaced_ordinary [OF y(2) plain(1)] replaced_ordinary [OF y(4) plain(2)] run ids y(1) show ?thesis by auto
qed

section \<open>Filtering items\<close>

lemma realign_loop_skip:
  "after = [] \<or> \<not> json_eq b (hd after) \<Longrightarrow>
   realign_loop replay i (b # bs) after kept pl ss = realign_loop replay (Suc i) bs after kept pl ss"
  by (cases after) (simp_all add: Let_def split: list.split)

lemma realign_loop_filter:
  assumes cong: "\<And>x y. x \<in> set before \<Longrightarrow> y \<in> set before \<Longrightarrow> json_eq x y \<Longrightarrow> P x = P y"
    and refl: "\<And>x. x \<in> set before \<Longrightarrow> json_eq x x"
    and "set bs \<subseteq> set before" and "length (rx_item_identities replay) = i + length bs"
  shows "realign_loop replay i bs (filter P bs) kept pl ss =
    (kept @ map snd (filter (\<lambda>p. P (fst p)) (zip bs (drop i (rx_item_identities replay)))),
     pl + length (filter P (take (rx_prefix_len replay - i) bs)), ss + length (filter P (take (rx_suffix_start replay - i) bs)))"
  using assms(3,4)
proof (induction bs arbitrary: i kept pl ss)
  case (Cons b bs)
  have b: "b \<in> set before" and sub: "set bs \<subseteq> set before" using Cons.prems(1) by simp_all
  have ids: "drop i (rx_item_identities replay) = rx_item_identities replay ! i # drop (Suc i) (rx_item_identities replay)"
    and i: "i < length (rx_item_identities replay)" using Cons.prems(2) by (simp_all add: Cons_nth_drop_Suc)
  have take: "take (n - i) (b # bs) = (if i < n then b # take (n - Suc i) bs else [])" for n
    by (cases "n - i") (auto simp: Suc_diff_Suc dest: arg_cong [of _ _ "\<lambda>k. k - 1"])
  have IH: "realign_loop replay (Suc i) bs (filter P bs) kept' pl' ss' =
    (kept' @ map snd (filter (\<lambda>p. P (fst p)) (zip bs (drop (Suc i) (rx_item_identities replay)))),
     pl' + length (filter P (take (rx_prefix_len replay - Suc i) bs)),
     ss' + length (filter P (take (rx_suffix_start replay - Suc i) bs)))" for kept' pl' ss'
    using Cons.prems by (intro Cons.IH) auto
  show ?case
  proof (cases "P b")
    case True
    then show ?thesis using refl [OF b] IH i by (simp add: ids take Let_def)
  next
    case False
    have "filter P bs = [] \<or> \<not> json_eq b (hd (filter P bs))"
    proof (cases "filter P bs")
      case (Cons x xs)
      then have "x \<in> set (filter P bs)" by simp
      then have "x \<in> set bs" "P x" unfolding set_filter by blast+
      with cong [OF b, of x] False sub Cons show ?thesis by auto
    qed simp
    from realign_loop_skip [OF this] False IH show ?thesis by (simp add: ids take)
  qed
qed simp

text \<open>
  After a filter that judges items by their value, the search for the kept items finds each at its
  own place, also when equal items occur several times: the identities are those of the kept items,
  and the ranges count the kept items of the old ranges.
\<close>

theorem realign_keeps_identities:
  assumes "\<And>x y. x \<in> set before \<Longrightarrow> y \<in> set before \<Longrightarrow> json_eq x y \<Longrightarrow> P x = P y"
    and "\<And>x. x \<in> set before \<Longrightarrow> json_eq x x"
    and "length (rx_item_identities replay) = length before"
    and "rx_prefix_len replay \<le> length before" and "rx_suffix_start replay \<le> length before"
  shows "\<exists>replay'. realign_identities_after_item_filter replay before (filter P before) = Inr replay' \<and>
    rx_item_identities replay' = map snd (filter (\<lambda>p. P (fst p)) (zip before (rx_item_identities replay))) \<and>
    rx_prefix_len replay' = length (filter P (take (rx_prefix_len replay) before)) \<and>
    rx_suffix_start replay' = length (filter P (take (rx_suffix_start replay) before))"
proof -
  have aligned: "assert_replay_aligned n r = Inr ()" if "length (rx_item_identities r) = n" for n r
    using that by (simp add: assert_replay_aligned_def assert_input_identity_len_def)
  show ?thesis
  proof (cases "length before = length (filter P before)")
    case True
    then have "\<forall>x \<in> set before. P x" by (metis filter_True filter_id_conv length_filter_less less_irrefl)
    then have "filter P (take n before) = take n before" "filter (\<lambda>p. P (fst p)) (zip before ids) = zip before ids" for n and ids :: "string list"
      by (auto intro!: filter_True dest: in_set_takeD set_zip_leftD)
    with True assms(3-5) aligned [of replay "length before"] show ?thesis
      by (simp add: realign_identities_after_item_filter_def)
  next
    case False
    have loop: "realign_loop replay 0 before (filter P before) [] 0 0 =
      (map snd (filter (\<lambda>p. P (fst p)) (zip before (rx_item_identities replay))),
       length (filter P (take (rx_prefix_len replay) before)), length (filter P (take (rx_suffix_start replay) before)))"
      using realign_loop_filter [OF assms(1,2), where bs = before and i = 0 and kept = "[]" and pl = 0 and ss = 0] assms(3)
      by simp
    have "length (filter (\<lambda>p. P (fst p)) (zip before ids)) = length (filter P before)" if "length ids = length before" for ids :: "string list"
      using that by (induction before ids rule: list_induct2') auto
    with False loop assms(3) aligned show ?thesis
      by (simp add: realign_identities_after_item_filter_def aligned_seed Let_def assert_replay_aligned_def
          assert_input_identity_len_def)
  qed
qed

theorem realign_keeps_identities_witness:
  "\<exists>replay'. realign_identities_after_item_filter sample_ranges [JNull, JBool True, JNull] (filter ((=) JNull) [JNull, JBool True, JNull]) =
     Inr replay' \<and> rx_item_identities replay' = [''0'', ''2''] \<and> rx_prefix_len replay' = 1"
proof -
  have eq: "json_eq x y \<longleftrightarrow> x = y" if "x \<in> set [JNull, JBool True, JNull]" "y \<in> set [JNull, JBool True, JNull]" for x y
    using that by (auto simp: json_eq.simps)
  have "\<exists>replay'. realign_identities_after_item_filter sample_ranges [JNull, JBool True, JNull] (filter ((=) JNull) [JNull, JBool True, JNull]) = Inr replay' \<and>
    rx_item_identities replay' = map snd (filter (\<lambda>p. JNull = fst p) (zip [JNull, JBool True, JNull] (rx_item_identities sample_ranges))) \<and>
    rx_prefix_len replay' = length (filter ((=) JNull) (take (rx_prefix_len sample_ranges) [JNull, JBool True, JNull])) \<and>
    rx_suffix_start replay' = length (filter ((=) JNull) (take (rx_suffix_start sample_ranges) [JNull, JBool True, JNull]))"
    by (rule realign_keeps_identities) (use eq in \<open>auto simp: sample_ranges_def\<close>)
  then obtain r where "realign_identities_after_item_filter sample_ranges [JNull, JBool True, JNull]
      (filter ((=) JNull) [JNull, JBool True, JNull]) = Inr r"
    "rx_item_identities r = map snd (filter (\<lambda>p. JNull = fst p) (zip [JNull, JBool True, JNull] (rx_item_identities sample_ranges)))"
    "rx_prefix_len r = length (filter ((=) JNull) (take (rx_prefix_len sample_ranges) [JNull, JBool True, JNull]))" by blast
  then show ?thesis by (intro exI [of _ r] conjI) (simp_all add: sample_ranges_def)
qed

end
