(* ===== verification/Grok_Session.thy ===== *)
theory Grok_Session
  imports History
begin

text \<open>
  The Grok session registry (\<open>grok_session.rs\<close>): which session a request belongs to, its request id and
  its turn index. Three maps are bounded by queues of insertion order; what has been evicted is found
  again in the durable history. The history is a pair of lookups that may fail, the randomness of a new
  session is an argument, SHA-256 (as 64 hexadecimal digits) and the JSON printer are functions; a
  poisoned lock is not modelled.
\<close>

section \<open>Maps with a queue of insertion order\<close>

type_synonym ('k, 'v) fifo = "'k list \<times> ('k \<times> 'v) list"

fun fifo_evict :: "nat \<Rightarrow> 'k list \<Rightarrow> ('k \<times> 'v) list \<Rightarrow> ('k, 'v) fifo" where
  "fifo_evict limit [] m = ([], m)"
| "fifo_evict limit (k # order) m =
     (if limit < length (k # order) then fifo_evict limit order (AList.delete k m) else (k # order, m))"

definition fifo_insert :: "nat \<Rightarrow> 'k \<Rightarrow> 'v \<Rightarrow> ('k, 'v) fifo \<Rightarrow> ('k, 'v) fifo" where
  "fifo_insert limit k v c =
     fifo_evict limit (if map_of (snd c) k = None then fst c @ [k] else fst c) (AList.update k v (snd c))"

definition fifo_inv :: "nat \<Rightarrow> ('k, 'v) fifo \<Rightarrow> bool" where
  "fifo_inv limit c \<longleftrightarrow>
     distinct (fst c) \<and> distinct (map fst (snd c)) \<and> set (fst c) = fst ` set (snd c) \<and> length (fst c) \<le> limit"

definition recent :: "nat \<Rightarrow> 'k \<Rightarrow> ('k, 'v) fifo \<Rightarrow> bool" where
  "recent n k c \<longleftrightarrow> k \<in> set (drop (length (fst c) - n) (fst c))"

lemma fifo_evict_eq:
  "fifo_evict limit order m =
     (drop (length order - limit) order, filter (\<lambda>p. fst p \<notin> set (take (length order - limit) order)) m)"
proof (induction order arbitrary: m)
  case (Cons k order)
  show ?case
  proof (cases "limit < length (k # order)")
    case True
    then have "length (k # order) - limit = Suc (length order - limit)" by simp
    with True Cons.IH show ?thesis by (auto simp: AList.delete_eq case_prod_beta intro!: filter_cong)
  qed simp
qed simp

lemma fifo_lookup:
  "map_of (snd (fifo_evict limit order m)) k =
     (if k \<in> set (take (length order - limit) order) then None else map_of m k)"
  by (induction m) (auto simp: fifo_evict_eq)

lemma recent_keys: "fifo_inv limit c \<Longrightarrow> recent n k c \<Longrightarrow> \<exists>v. map_of (snd c) k = Some v"
  unfolding fifo_inv_def recent_def by (metis in_set_dropD map_of_eq_None_iff not_None_eq)

lemma not_taken: "distinct xs \<Longrightarrow> k \<in> set (drop n xs) \<Longrightarrow> k \<notin> set (take n xs)"
  by (metis append_take_drop_id distinct_append disjoint_iff)

lemma fifo_insert_inv:
  assumes "fifo_inv limit c"
  shows "fifo_inv limit (fifo_insert limit k v c)"
proof -
  let ?order = "if map_of (snd c) k = None then fst c @ [k] else fst c"
  have order: "distinct ?order" "set ?order = fst ` set (AList.update k v (snd c))"
    using assms by (auto simp: fifo_inv_def update_keys map_of_eq_None_iff dom_update)
  have keys: "distinct (map fst (AList.update k v (snd c)))" using assms by (simp add: fifo_inv_def distinct_update)
  have "set (drop n ?order) = set ?order - set (take n ?order)" for n
    using order(1) by (metis Diff_cancel Un_Diff append_take_drop_id distinct_append Diff_triv inf_commute set_append sup_bot_left)
  then show ?thesis
    using order keys unfolding fifo_inv_def fifo_insert_def fifo_evict_eq by (auto simp: distinct_map_filter)
qed

lemma fifo_insert_recent:
  assumes "fifo_inv limit c" "recent n k c" "Suc n \<le> limit"
  shows "recent (Suc n) k (fifo_insert limit k' v c)"
proof -
  let ?order = "if map_of (snd c) k' = None then fst c @ [k'] else fst c"
  define ys where "ys = take (length (fst c) - n) (fst c)"
  define zs where "zs = drop (length (fst c) - n) (fst c)"
  have "fst c = ys @ zs" "length zs \<le> n" "k \<in> set zs"
    using assms(2) by (simp_all add: ys_def zs_def recent_def)
  then obtain zs' where split: "?order = ys @ zs'" "length zs' \<le> Suc n" "k \<in> set zs'"
    by (cases "map_of (snd c) k' = None") auto
  let ?d = "length ?order - limit"
  have "?d \<le> length ys" using split(1,2) assms(3) by simp
  then have "drop ?d ?order = drop ?d ys @ zs'" by (simp add: split(1))
  with split(2,3) show ?thesis
    by (auto simp: recent_def fifo_insert_def fifo_evict_eq drop_append intro!: UnI2)
qed

lemma fifo_insert_lookup_other:
  assumes "k \<noteq> k'"
  shows "map_of (snd (fifo_insert limit k' v c)) k \<in> {map_of (snd c) k, None}"
  using assms by (simp add: fifo_insert_def fifo_lookup update_conv')

lemma fifo_insert_lookup:
  assumes "fifo_inv limit c" "0 < limit" "map_of (snd c) k = None"
  shows "map_of (snd (fifo_insert limit k v c)) k = Some v" and "recent 1 k (fifo_insert limit k v c)"
proof -
  let ?order = "fst c @ [k]"
  have "distinct ?order" using assms by (auto simp: fifo_inv_def map_of_eq_None_iff)
  moreover have "k \<in> set (drop (length ?order - limit) ?order)" using assms(2) by simp
  ultimately have "k \<notin> set (take (length ?order - limit) ?order)" by (rule not_taken)
  then show "map_of (snd (fifo_insert limit k v c)) k = Some v"
    using assms(3) by (simp add: fifo_insert_def fifo_lookup update_conv')
  show "recent 1 k (fifo_insert limit k v c)" using assms(2,3)
    by (simp add: recent_def fifo_insert_def fifo_evict_eq drop_append Suc_diff_le)
qed

lemma recent_Suc: "recent n k c \<Longrightarrow> recent (Suc n) k c"
  unfolding recent_def by (meson diff_le_mono2 le_SucI order_refl set_drop_subset_set_drop subsetD)

text \<open>
  \<open>fifo_system\<close> is the contract of a component with such a map: an operation leaves it alone or inserts
  one entry, and rewrites the entry of a key only where it says so. Its consequences: the map stays
  bounded, and an entry is found until as many operations have followed as the map has room for.
\<close>

locale fifo_system =
  fixes limit :: nat
    and step :: "'op \<Rightarrow> 's \<Rightarrow> 's"
    and cache :: "'s \<Rightarrow> ('k, 'v) fifo"
    and replaces :: "'op \<Rightarrow> 'k \<Rightarrow> bool"
  assumes step_cache: "fifo_inv limit (cache s) \<Longrightarrow>
      cache (step x s) = cache s \<or> (\<exists>k v. cache (step x s) = fifo_insert limit k v (cache s))"
    and step_keeps: "fifo_inv limit (cache s) \<Longrightarrow> \<not> replaces x k \<Longrightarrow> map_of (snd (cache s)) k = Some v \<Longrightarrow>
      map_of (snd (cache (step x s))) k \<in> {Some v, None}"
begin

lemma step_fifo_inv: "fifo_inv limit (cache s) \<Longrightarrow> fifo_inv limit (cache (step x s))"
  using step_cache [of s x] fifo_insert_inv by metis

lemma step_recent:
  "fifo_inv limit (cache s) \<Longrightarrow> recent n k (cache s) \<Longrightarrow> Suc n \<le> limit \<Longrightarrow> recent (Suc n) k (cache (step x s))"
  using step_cache [of s x] fifo_insert_recent [of limit "cache s" n k] recent_Suc [of n k "cache s"] by metis

lemma run_keeps:
  "fifo_inv limit (cache s) \<Longrightarrow> recent n k (cache s) \<Longrightarrow> map_of (snd (cache s)) k = Some v \<Longrightarrow>
   n + length ops \<le> limit \<Longrightarrow> \<forall>x \<in> set ops. \<not> replaces x k \<Longrightarrow> map_of (snd (cache (fold step ops s))) k = Some v"
proof (induction ops arbitrary: s n)
  case (Cons x ops)
  have inv: "fifo_inv limit (cache (step x s))" using Cons.prems(1) by (rule step_fifo_inv)
  have rec: "recent (Suc n) k (cache (step x s))" using Cons.prems by (intro step_recent) auto
  have "map_of (snd (cache (step x s))) k = Some v"
    using step_keeps [OF Cons.prems(1) _ Cons.prems(3), of x] Cons.prems(5) recent_keys [OF inv rec] by auto
  with Cons.IH [OF inv rec] Cons.prems show ?case by simp
qed simp

end

sublocale fifo_system \<subseteq> bounded: step_system step "\<lambda>s. fifo_inv limit (cache s)"
  by unfold_locales (rule step_fifo_inv)

section \<open>The registry\<close>

definition GROK_SESSION_LRU_LIMIT :: nat where
  "GROK_SESSION_LRU_LIMIT = 4096"

record grok_request_identity =
  gi_session_id :: string
  gi_turn_index :: "u64 option"
  gi_request_id :: string

record grok_session_state =
  gs_response_sessions :: "(string \<times> string) list"
  gs_response_session_order :: "string list"
  gs_turn_indexes :: "(string \<times> u64) list"
  gs_turn_index_order :: "string list"
  gs_request_identities :: "((string \<times> string) \<times> grok_request_identity) list"
  gs_request_identity_order :: "(string \<times> string) list"

definition new_registry :: grok_session_state where
  "new_registry =
     \<lparr>gs_response_sessions = [], gs_response_session_order = [], gs_turn_indexes = [], gs_turn_index_order = [],
      gs_request_identities = [], gs_request_identity_order = []\<rparr>"

text \<open>The two methods of a history store that the registry calls, with the error texts of the store.\<close>

record history_lookups =
  hl_response_conversation_key :: "string \<Rightarrow> string + string option"
  hl_conversation_route_exchange_count :: "string \<Rightarrow> string \<Rightarrow> string + u64"

definition memory_lookups :: "memory_history_store \<Rightarrow> history_lookups" where
  "memory_lookups s =
     \<lparr>hl_response_conversation_key = (\<lambda>i. Inr (response_conversation_key i s)),
      hl_conversation_route_exchange_count = (\<lambda>k route_id. Inr (conversation_route_exchange_count k route_id s))\<rparr>"

datatype grok_error = ConversationKeyLookupFailed string | ExchangeCountFailed string

definition bind_response :: "string \<Rightarrow> string \<Rightarrow> grok_session_state \<Rightarrow> grok_session_state" where
  "bind_response response_id session st =
     (if response_id = [] \<or> session = [] then st
      else case fifo_evict GROK_SESSION_LRU_LIMIT
             (if map_of (gs_response_sessions st) response_id = None then gs_response_session_order st @ [response_id]
              else gs_response_session_order st)
             (AList.update response_id session (gs_response_sessions st)) of
             (order, sessions) \<Rightarrow> st\<lparr>gs_response_sessions := sessions, gs_response_session_order := order\<rparr>)"

definition conversation_key_from_raw :: "(string \<Rightarrow> string) \<Rightarrow> string option \<Rightarrow> string option" where
  "conversation_key_from_raw sha raw =
     (case raw of Some value \<Rightarrow> if trim value = [] then None else Some (sha (trim value)) | None \<Rightarrow> None)"

definition metadata_str :: "json \<Rightarrow> string \<Rightarrow> string option" where
  "metadata_str request k = (case json_get request ''metadata'' of Some v \<Rightarrow> get_str v k | None \<Rightarrow> None)"

definition conversation_key_from_request :: "(string \<Rightarrow> string) \<Rightarrow> json \<Rightarrow> string option" where
  "conversation_key_from_request sha request =
     conversation_key_from_raw sha
       (find_map id
         [get_str request ''conversation_id'', get_str request ''thread_id'', get_str request ''prompt_cache_key'',
          metadata_str request ''thread_id'', metadata_str request ''conversation_id'', metadata_str request ''session_id'',
          get_str request ''session''])"

definition grok_request_fingerprint :: "(string \<Rightarrow> string) \<Rightarrow> (json \<Rightarrow> string) \<Rightarrow> string \<Rightarrow> json \<Rightarrow> string" where
  "grok_request_fingerprint sha print session request = sha (session @ [CHR 0x00] @ print request)"

definition resolve_session ::
  "(string \<Rightarrow> string) \<Rightarrow> json \<Rightarrow> history_lookups option \<Rightarrow> string \<Rightarrow> grok_session_state
     \<Rightarrow> (grok_error + string) \<times> grok_session_state"
where
  "resolve_session sha request history random st =
     (let from_request = (case conversation_key_from_request sha request of
                            Some key \<Rightarrow> (Inr key, st) | None \<Rightarrow> (Inr (''vellum-grok-'' @ random), st)) in
      case map_option trim (get_str request ''previous_response_id'') of
        None \<Rightarrow> from_request
      | Some previous \<Rightarrow>
          if previous = [] then from_request
          else (case map_of (gs_response_sessions st) previous of
                  Some session \<Rightarrow> (Inr session, st)
                | None \<Rightarrow>
                    (case history of
                       None \<Rightarrow> from_request
                     | Some store \<Rightarrow>
                         (case hl_response_conversation_key store previous of
                            Inl e \<Rightarrow> (Inl (ConversationKeyLookupFailed e), st)
                          | Inr None \<Rightarrow> from_request
                          | Inr (Some key) \<Rightarrow> (Inr key, bind_response previous key st)))))"

text \<open>The parts of a request identity: the seed of a session, the next index, the remembered identity.\<close>

definition durable_seed :: "string \<Rightarrow> history_lookups option \<Rightarrow> string option \<Rightarrow> string + u64" where
  "durable_seed session history route_id =
     (case (history, route_id) of
        (Some store, Some r) \<Rightarrow> hl_conversation_route_exchange_count store session r
      | _ \<Rightarrow> Inr 0)"

definition seed_turn_index ::
  "string \<Rightarrow> history_lookups option \<Rightarrow> string option \<Rightarrow> grok_session_state \<Rightarrow> grok_error + grok_session_state"
where
  "seed_turn_index session history route_id st =
     (if map_of (gs_turn_indexes st) session \<noteq> None then Inr st
      else case durable_seed session history route_id of
             Inl e \<Rightarrow> Inl (ExchangeCountFailed e)
           | Inr seed \<Rightarrow>
               (case fifo_evict GROK_SESSION_LRU_LIMIT (gs_turn_index_order st @ [session])
                       (AList.update session seed (gs_turn_indexes st)) of
                  (order, indexes) \<Rightarrow> Inr (st\<lparr>gs_turn_indexes := indexes, gs_turn_index_order := order\<rparr>)))"

definition next_turn_index :: "string \<Rightarrow> grok_session_state \<Rightarrow> u64 \<times> grok_session_state" where
  "next_turn_index session st =
     (let turn_index = (case map_of (gs_turn_indexes st) session of Some n \<Rightarrow> n | None \<Rightarrow> 0)
      in (turn_index, st\<lparr>gs_turn_indexes := AList.update session (saturating_add turn_index 1) (gs_turn_indexes st)\<rparr>))"

definition remember_identity ::
  "string \<times> string \<Rightarrow> grok_request_identity \<Rightarrow> grok_session_state \<Rightarrow> grok_session_state"
where
  "remember_identity key identity st =
     (case fifo_evict GROK_SESSION_LRU_LIMIT (gs_request_identity_order st @ [key])
             (AList.update key identity (gs_request_identities st)) of
        (order, identities) \<Rightarrow> st\<lparr>gs_request_identities := identities, gs_request_identity_order := order\<rparr>)"

definition request_identity ::
  "(string \<Rightarrow> string) \<Rightarrow> (json \<Rightarrow> string) \<Rightarrow> string \<Rightarrow> json \<Rightarrow> history_lookups option \<Rightarrow> string option
     \<Rightarrow> grok_session_state \<Rightarrow> (grok_error + grok_request_identity) \<times> grok_session_state"
where
  "request_identity sha print session request history route_id st =
     (let fingerprint = grok_request_fingerprint sha print session request; key = (session, fingerprint) in
      case map_of (gs_request_identities st) key of
        Some identity \<Rightarrow> (Inr identity, st)
      | None \<Rightarrow>
          (case seed_turn_index session history route_id st of
             Inl e \<Rightarrow> (Inl e, st)
           | Inr st1 \<Rightarrow>
               (case next_turn_index session st1 of
                  (turn_index, st2) \<Rightarrow>
                    let identity = \<lparr>gi_session_id = session, gi_turn_index = Some turn_index,
                                    gi_request_id = ''vellum-'' @ take 32 fingerprint\<rparr>
                    in (Inr identity, remember_identity key identity st2))))"

definition compaction_identity ::
  "(string \<Rightarrow> string) \<Rightarrow> (json \<Rightarrow> string) \<Rightarrow> string \<Rightarrow> json \<Rightarrow> grok_session_state \<Rightarrow> grok_request_identity \<times> grok_session_state"
where
  "compaction_identity sha print session identity_seed st =
     (let fingerprint = grok_request_fingerprint sha print session identity_seed;
          key = (session, ''compaction:'' @ fingerprint) in
      case map_of (gs_request_identities st) key of
        Some identity \<Rightarrow> (identity, st)
      | None \<Rightarrow>
          let identity = \<lparr>gi_session_id = session, gi_turn_index = None,
                          gi_request_id = ''xai-compact-'' @ take 32 fingerprint\<rparr>
          in (identity, remember_identity key identity st))"

definition resolve_turn ::
  "(string \<Rightarrow> string) \<Rightarrow> (json \<Rightarrow> string) \<Rightarrow> json \<Rightarrow> history_lookups option \<Rightarrow> string \<Rightarrow> bool \<Rightarrow> string
     \<Rightarrow> grok_session_state \<Rightarrow> (grok_error + grok_request_identity) \<times> grok_session_state"
where
  "resolve_turn sha print request history route_id compaction random st =
     (case resolve_session sha request history random st of
        (Inl e, st1) \<Rightarrow> (Inl e, st1)
      | (Inr session_id, st1) \<Rightarrow>
          if compaction then (case compaction_identity sha print session_id request st1 of (i, st2) \<Rightarrow> (Inr i, st2))
          else request_identity sha print session_id request history (Some route_id) st1)"

text \<open>
  Every call on the registry, as one operation. A call takes the lock once; only \<open>resolve_session\<close> takes it
  again to bind what the history said, which with other calls in between is an \<open>OpBind\<close> of its own.
\<close>

datatype grok_op =
    OpBind string string
  | OpResolve json "history_lookups option" string
  | OpRequest string json "history_lookups option" "string option"
  | OpCompaction string json

fun grok_step :: "(string \<Rightarrow> string) \<Rightarrow> (json \<Rightarrow> string) \<Rightarrow> grok_op \<Rightarrow> grok_session_state \<Rightarrow> grok_session_state" where
  "grok_step sha print (OpBind r session) st = bind_response r session st"
| "grok_step sha print (OpResolve request history random) st = snd (resolve_session sha request history random st)"
| "grok_step sha print (OpRequest session request history route_id) st =
     snd (request_identity sha print session request history route_id st)"
| "grok_step sha print (OpCompaction session seed) st = snd (compaction_identity sha print session seed st)"

section \<open>The three maps are bounded queues\<close>

definition response_cache :: "grok_session_state \<Rightarrow> (string, string) fifo" where
  "response_cache st = (gs_response_session_order st, gs_response_sessions st)"

definition turn_cache :: "grok_session_state \<Rightarrow> (string, u64) fifo" where
  "turn_cache st = (gs_turn_index_order st, gs_turn_indexes st)"

definition identity_cache :: "grok_session_state \<Rightarrow> (string \<times> string, grok_request_identity) fifo" where
  "identity_cache st = (gs_request_identity_order st, gs_request_identities st)"

lemmas grok_caches = response_cache_def turn_cache_def identity_cache_def

lemma limit_pos [simp]: "0 < GROK_SESSION_LRU_LIMIT" "Suc 0 \<le> GROK_SESSION_LRU_LIMIT"
  by (simp_all add: GROK_SESSION_LRU_LIMIT_def)

lemma bind_response_caches:
  "response_cache (bind_response r session st) =
     (if r = [] \<or> session = [] then response_cache st else fifo_insert GROK_SESSION_LRU_LIMIT r session (response_cache st))"
  "turn_cache (bind_response r session st) = turn_cache st"
  "identity_cache (bind_response r session st) = identity_cache st"
  by (simp_all add: bind_response_def grok_caches fifo_insert_def split: prod.split)

lemma remember_identity_caches:
  "map_of (gs_request_identities st) key = None \<Longrightarrow>
     identity_cache (remember_identity key identity st) =
       fifo_insert GROK_SESSION_LRU_LIMIT key identity (identity_cache st)"
  "response_cache (remember_identity key identity st) = response_cache st"
  "turn_cache (remember_identity key identity st) = turn_cache st"
  by (simp_all add: remember_identity_def grok_caches fifo_insert_def split: prod.split)

lemma seed_turn_index_caches:
  assumes "seed_turn_index session history route_id st = Inr st'"
  shows "response_cache st' = response_cache st" "identity_cache st' = identity_cache st"
    "map_of (gs_turn_indexes st) session \<noteq> None \<and> st' = st \<or>
     map_of (gs_turn_indexes st) session = None \<and>
       (\<exists>n. durable_seed session history route_id = Inr n \<and>
          turn_cache st' = fifo_insert GROK_SESSION_LRU_LIMIT session n (turn_cache st))"
  using assms
  by (auto simp: seed_turn_index_def grok_caches fifo_insert_def split: if_splits sum.splits prod.splits)

lemma next_turn_index_caches:
  "response_cache (snd (next_turn_index session st)) = response_cache st"
  "identity_cache (snd (next_turn_index session st)) = identity_cache st"
  "gs_turn_index_order (snd (next_turn_index session st)) = gs_turn_index_order st"
  by (simp_all add: next_turn_index_def grok_caches Let_def)

text \<open>An update of an entry that is there is an insertion as well, so a seed and a count are one insertion.\<close>

lemma fifo_insert_present:
  "fifo_inv limit c \<Longrightarrow> map_of (snd c) k = Some w \<Longrightarrow> fifo_insert limit k v c = (fst c, AList.update k v (snd c))"
  by (simp add: fifo_insert_def fifo_evict_eq fifo_inv_def)

lemma update_filter:
  "P k \<Longrightarrow> AList.update k v (filter (\<lambda>p. P (fst p)) m) = filter (\<lambda>p. P (fst p)) (AList.update k v m)"
  by (induction m) auto

lemma update_twice: "AList.update k w (AList.update k v m) = AList.update k w m"
  by (induction m) auto

lemma fifo_insert_twice:
  assumes "fifo_inv limit c" "0 < limit" "map_of (snd c) k = None"
  shows "(fst (fifo_insert limit k v c), AList.update k w (snd (fifo_insert limit k v c))) = fifo_insert limit k w c"
proof -
  let ?order = "fst c @ [k]"
  have "distinct ?order" using assms by (auto simp: fifo_inv_def map_of_eq_None_iff)
  moreover have "k \<in> set (drop (length ?order - limit) ?order)" using assms(2) by simp
  ultimately have "k \<notin> set (take (length ?order - limit) ?order)" by (rule not_taken)
  note upd = update_filter [where P = "\<lambda>x. x \<notin> set (take (length ?order - limit) ?order)", OF this]
  show ?thesis using assms(3)
    by (simp only: fifo_insert_def fifo_evict_eq upd update_twice fst_conv snd_conv if_True refl simp_thms)
qed

lemma turn_index_cache:
  assumes "fifo_inv GROK_SESSION_LRU_LIMIT (turn_cache st)" "seed_turn_index session history route_id st = Inr st1"
  shows "\<exists>n. turn_cache (snd (next_turn_index session st1)) =
    fifo_insert GROK_SESSION_LRU_LIMIT session n (turn_cache st)"
  using seed_turn_index_caches(3) [OF assms(2)]
proof
  assume "map_of (gs_turn_indexes st) session \<noteq> None \<and> st1 = st"
  then show ?thesis using fifo_insert_present [OF assms(1), of session]
    by (auto simp: next_turn_index_def turn_cache_def Let_def)
next
  assume new: "map_of (gs_turn_indexes st) session = None \<and>
    (\<exists>n. durable_seed session history route_id = Inr n \<and> turn_cache st1 = fifo_insert GROK_SESSION_LRU_LIMIT session n (turn_cache st))"
  then obtain n where n: "turn_cache st1 = fifo_insert GROK_SESSION_LRU_LIMIT session n (turn_cache st)" by blast
  obtain m where "turn_cache (snd (next_turn_index session st1)) =
      (fst (turn_cache st1), AList.update session m (snd (turn_cache st1)))"
    by (auto simp: next_turn_index_def turn_cache_def Let_def)
  with n new fifo_insert_twice [OF assms(1), of session n m] show ?thesis by (auto simp: turn_cache_def)
qed

text \<open>What each operation does to each map.\<close>

lemma resolve_session_state:
  obtains "snd (resolve_session sha request history random st) = st"
  | r session where "snd (resolve_session sha request history random st) = bind_response r session st"
      "map_of (gs_response_sessions st) r = None"
proof -
  have "snd (resolve_session sha request history random st) = st \<or>
    (\<exists>r session. snd (resolve_session sha request history random st) = bind_response r session st \<and>
       map_of (gs_response_sessions st) r = None)"
    by (auto simp: resolve_session_def Let_def split: option.split sum.split)
  then show thesis using that by blast
qed

lemma request_identity_state:
  obtains "snd (request_identity sha print session request history route_id st) = st"
  | st1 i where "seed_turn_index session history route_id st = Inr st1"
      "map_of (gs_request_identities st) (session, grok_request_fingerprint sha print session request) = None"
      "i = \<lparr>gi_session_id = session, gi_turn_index = Some (fst (next_turn_index session st1)),
            gi_request_id = ''vellum-'' @ take 32 (grok_request_fingerprint sha print session request)\<rparr>"
      "request_identity sha print session request history route_id st =
        (Inr i, remember_identity (session, grok_request_fingerprint sha print session request) i
          (snd (next_turn_index session st1)))"
proof (cases "map_of (gs_request_identities st) (session, grok_request_fingerprint sha print session request)")
  case None
  show thesis
  proof (cases "seed_turn_index session history route_id st")
    case (Inl e)
    with None show thesis by (intro that(1)) (simp add: request_identity_def)
  next
    case (Inr st1)
    with None show thesis by (intro that(2) [OF Inr None refl]) (simp add: request_identity_def Let_def split: prod.split)
  qed
qed (rule that(1), simp add: request_identity_def)

lemma compaction_identity_state:
  obtains "snd (compaction_identity sha print session seed st) = st"
  | key i where "map_of (gs_request_identities st) key = None" "gi_turn_index i = None"
      "snd (compaction_identity sha print session seed st) = remember_identity key i st"
proof (cases "map_of (gs_request_identities st) (session, ''compaction:'' @ grok_request_fingerprint sha print session seed)")
  case None
  let ?i = "\<lparr>gi_session_id = session, gi_turn_index = None,
    gi_request_id = ''xai-compact-'' @ take 32 (grok_request_fingerprint sha print session seed)\<rparr>"
  show thesis by (rule that(2) [OF None, of ?i]) (simp_all add: compaction_identity_def None [simplified] Let_def)
qed (rule that(1), simp add: compaction_identity_def)

lemma identities_of_cache: "gs_request_identities st = snd (identity_cache st)"
  and sessions_of_cache: "gs_response_sessions st = snd (response_cache st)"
  and indexes_of_cache: "gs_turn_indexes st = snd (turn_cache st)"
  by (simp_all add: grok_caches)

lemma identity_cache_step:
  "identity_cache (grok_step sha print x st) = identity_cache st \<or>
   (\<exists>k v. map_of (gs_request_identities st) k = None \<and>
      identity_cache (grok_step sha print x st) = fifo_insert GROK_SESSION_LRU_LIMIT k v (identity_cache st))"
proof (cases x)
  case (OpResolve request history random)
  then show ?thesis
    by (cases rule: resolve_session_state [of sha request history random st]) (simp_all add: bind_response_caches)
next
  case (OpRequest session request history route_id)
  show ?thesis
  proof (cases rule: request_identity_state [of sha print session request history route_id st])
    case (2 st1 i)
    have frame: "identity_cache (snd (next_turn_index session st1)) = identity_cache st"
      using seed_turn_index_caches(2) [OF 2(1)] by (simp add: next_turn_index_caches)
    with 2(2) have fresh: "map_of (gs_request_identities (snd (next_turn_index session st1)))
        (session, grok_request_fingerprint sha print session request) = None"
      by (simp add: identities_of_cache)
    show ?thesis using 2(2,4) remember_identity_caches(1) [OF fresh] frame OpRequest by auto
  qed (simp add: OpRequest)
next
  case (OpCompaction session seed)
  then show ?thesis
    by (cases rule: compaction_identity_state [of sha print session seed st]) (auto simp: remember_identity_caches)
qed (simp add: bind_response_caches)

lemma response_cache_step:
  "response_cache (grok_step sha print x st) = response_cache st \<or>
   (\<exists>k v. (map_of (gs_response_sessions st) k = None \<or> x = OpBind k v) \<and>
      response_cache (grok_step sha print x st) = fifo_insert GROK_SESSION_LRU_LIMIT k v (response_cache st))"
proof (cases x)
  case (OpResolve request history random)
  then show ?thesis
    by (cases rule: resolve_session_state [of sha request history random st]) (auto simp: bind_response_caches)
next
  case (OpRequest session request history route_id)
  then show ?thesis
    by (cases rule: request_identity_state [of sha print session request history route_id st])
      (auto simp: remember_identity_caches next_turn_index_caches dest: seed_turn_index_caches(1))
next
  case (OpCompaction session seed)
  then show ?thesis
    by (cases rule: compaction_identity_state [of sha print session seed st]) (simp_all add: remember_identity_caches)
qed (auto simp: bind_response_caches)

lemma turn_cache_step:
  assumes "fifo_inv GROK_SESSION_LRU_LIMIT (turn_cache st)"
  shows "turn_cache (grok_step sha print x st) = turn_cache st \<or>
   (\<exists>k v. turn_cache (grok_step sha print x st) = fifo_insert GROK_SESSION_LRU_LIMIT k v (turn_cache st))"
proof (cases x)
  case (OpResolve request history random)
  then show ?thesis
    by (cases rule: resolve_session_state [of sha request history random st]) (simp_all add: bind_response_caches)
next
  case (OpRequest session request history route_id)
  then show ?thesis
    by (cases rule: request_identity_state [of sha print session request history route_id st])
      (auto simp: remember_identity_caches dest: turn_index_cache [OF assms])
next
  case (OpCompaction session seed)
  then show ?thesis
    by (cases rule: compaction_identity_state [of sha print session seed st]) (simp_all add: remember_identity_caches)
qed (simp add: bind_response_caches)

interpretation identities: fifo_system GROK_SESSION_LRU_LIMIT "grok_step sha print" identity_cache "\<lambda>_ _. False"
proof (unfold_locales, goal_cases)
  case (1 s x)
  then show ?case using identity_cache_step [of sha print x s] by blast
next
  case (2 s x k v)
  then show ?case using identity_cache_step [of sha print x s] fifo_insert_lookup_other [of k]
    by (metis identities_of_cache insertCI option.distinct(1))
qed

interpretation responses: fifo_system GROK_SESSION_LRU_LIMIT "grok_step sha print" response_cache
  "\<lambda>x r. \<exists>session. x = OpBind r session"
proof (unfold_locales, goal_cases)
  case (1 s x)
  then show ?case using response_cache_step [of sha print x s] by blast
next
  case (2 s x k v)
  then show ?case using response_cache_step [of sha print x s] fifo_insert_lookup_other [of k]
    by (metis sessions_of_cache insertCI option.distinct(1))
qed

interpretation turns: fifo_system GROK_SESSION_LRU_LIMIT "grok_step sha print" turn_cache
  "\<lambda>x session. \<exists>request history route_id. x = OpRequest session request history route_id"
proof (unfold_locales, goal_cases)
  case (1 s x)
  then show ?case by (rule turn_cache_step)
next
  case (2 s x k v)
  have other: "map_of (snd (fifo_insert GROK_SESSION_LRU_LIMIT session n (turn_cache s))) k \<in> {Some v, None}"
    if "session \<noteq> k" for session n
    using fifo_insert_lookup_other [of k session _ n "turn_cache s"] that 2(3) by auto
  show ?case
  proof (cases x)
    case (OpResolve request history random)
    then show ?thesis using 2(3)
      by (cases rule: resolve_session_state [of sha request history random s]) (simp_all add: bind_response_caches)
  next
    case (OpRequest session request history route_id)
    with 2(2) have "session \<noteq> k" by blast
    show ?thesis
    proof (cases rule: request_identity_state [of sha print session request history route_id s])
      case (2 st1 i)
      from turn_index_cache [OF \<open>fifo_inv _ _\<close> 2(1)] obtain n where
        "turn_cache (snd (next_turn_index session st1)) = fifo_insert GROK_SESSION_LRU_LIMIT session n (turn_cache s)" ..
      with 2(4) other [OF \<open>session \<noteq> k\<close>, of n] OpRequest show ?thesis by (simp add: remember_identity_caches)
    qed (use 2(3) OpRequest in simp)
  next
    case (OpCompaction session seed)
    then show ?thesis using 2(3)
      by (cases rule: compaction_identity_state [of sha print session seed s]) (simp_all add: remember_identity_caches)
  qed (use 2(3) in \<open>simp add: bind_response_caches\<close>)
qed

section \<open>Retries and continuations\<close>

lemma new_registry_caches:
  "identity_cache new_registry = ([], [])" "response_cache new_registry = ([], [])" "turn_cache new_registry = ([], [])"
  by (simp_all add: new_registry_def grok_caches)

lemma fifo_inv_empty [simp]: "fifo_inv limit ([], [])"
  by (simp add: fifo_inv_def)

lemma run_caches_bounded:
  "fifo_inv GROK_SESSION_LRU_LIMIT (identity_cache (fold (grok_step sha print) ops new_registry))"
  "fifo_inv GROK_SESSION_LRU_LIMIT (response_cache (fold (grok_step sha print) ops new_registry))"
  "fifo_inv GROK_SESSION_LRU_LIMIT (turn_cache (fold (grok_step sha print) ops new_registry))"
  using identities.bounded.run_invar [of new_registry sha print ops] responses.bounded.run_invar [of new_registry sha print ops]
    turns.bounded.run_invar [of new_registry sha print ops]
  by (simp_all add: new_registry_caches)

lemma remembered_identity:
  assumes "fifo_inv GROK_SESSION_LRU_LIMIT (identity_cache st)" "map_of (gs_request_identities st) key = None"
    and "length ops < GROK_SESSION_LRU_LIMIT"
  shows "map_of (gs_request_identities (fold (grok_step sha print) ops (remember_identity key i st))) key = Some i"
proof -
  have ins: "identity_cache (remember_identity key i st) = fifo_insert GROK_SESSION_LRU_LIMIT key i (identity_cache st)"
    by (rule remember_identity_caches) (rule assms(2))
  note found = fifo_insert_lookup [OF assms(1) limit_pos(1), of key i, folded identities_of_cache, OF assms(2)]
  show ?thesis unfolding identities_of_cache
    by (rule identities.run_keeps [where n = 1])
      (use assms(1,3) found in \<open>auto simp: ins fifo_insert_inv identities_of_cache\<close>)
qed

text \<open>
  C24: A retry is recognised: fewer than 4096 calls of whatever sessions after the call that created the
  identity of a request, the same body on the same session gets the same request id and the same turn
  index, whatever the history says by then, and the registry is as it was. The count starts at the
  creation: a retry in between does not renew the entry (\<open>hit_does_not_refresh\<close>).
\<close>

theorem grok_retry_same_identity:
  assumes "request_identity sha print session request history route_id (fold (grok_step sha print) earlier new_registry) = (Inr i, st)"
    and "map_of (gs_request_identities (fold (grok_step sha print) earlier new_registry))
           (session, grok_request_fingerprint sha print session request) = None"
    and "length ops < GROK_SESSION_LRU_LIMIT"
  shows "request_identity sha print session request history' route_id' (fold (grok_step sha print) ops st) =
    (Inr i, fold (grok_step sha print) ops st)"
proof -
  let ?st = "fold (grok_step sha print) earlier new_registry"
  let ?key = "(session, grok_request_fingerprint sha print session request)"
  obtain st1 where st1: "seed_turn_index session history route_id ?st = Inr st1"
    using assms(1,2) by (auto simp: request_identity_def Let_def split: sum.splits)
  have i: "st = remember_identity ?key i (snd (next_turn_index session st1))"
    using assms(1,2) by (auto simp: request_identity_def st1 Let_def split: prod.splits)
  have cache: "identity_cache (snd (next_turn_index session st1)) = identity_cache ?st"
    using seed_turn_index_caches(2) [OF st1] by (simp add: next_turn_index_caches)
  have "map_of (gs_request_identities (fold (grok_step sha print) ops st)) ?key = Some i" unfolding i
    by (rule remembered_identity) (use run_caches_bounded(1) assms(2,3) cache in \<open>auto simp: identities_of_cache\<close>)
  then show ?thesis by (simp add: request_identity_def)
qed

text \<open>
  A response leads back to its session: once a response id has been bound, and unless it is bound
  again, a request that names it as its predecessor is placed in the same session while fewer than 4096
  calls have come in between, without a look at the history.
\<close>

theorem bound_response_resolves:
  assumes "map_of (gs_response_sessions (fold (grok_step sha print) earlier new_registry)) r = None"
    and "r \<noteq> []" and "session \<noteq> []" and "length ops < GROK_SESSION_LRU_LIMIT"
    and "\<forall>x \<in> set ops. \<forall>s. x \<noteq> OpBind r s"
    and "map_option trim (get_str request ''previous_response_id'') = Some r"
  shows "let st = fold (grok_step sha print) ops (bind_response r session (fold (grok_step sha print) earlier new_registry))
    in resolve_session sha request history random st = (Inr session, st)"
proof -
  let ?st = "fold (grok_step sha print) earlier new_registry"
  have ins: "response_cache (bind_response r session ?st) = fifo_insert GROK_SESSION_LRU_LIMIT r session (response_cache ?st)"
    using assms(2,3) by (simp add: bind_response_caches)
  note found = fifo_insert_lookup [OF run_caches_bounded(2) limit_pos(1), where v = session,
      folded sessions_of_cache, OF assms(1)]
  have "map_of (snd (response_cache (fold (grok_step sha print) ops (bind_response r session ?st)))) r = Some session"
    by (rule responses.run_keeps [where n = 1])
      (use assms(4,5) found run_caches_bounded(2) in \<open>auto simp: ins fifo_insert_inv sessions_of_cache\<close>)
  then show ?thesis using assms(2,6) by (auto simp: resolve_session_def sessions_of_cache Let_def)
qed

text \<open>A hit leaves the queue alone: an entry is evicted by its age, also when it was used just before.\<close>

lemma hit_does_not_refresh:
  "map_of (gs_request_identities st) (session, grok_request_fingerprint sha print session request) = Some i \<Longrightarrow>
   request_identity sha print session request history route_id st = (Inr i, st)"
  by (simp add: request_identity_def)

section \<open>Turn indexes\<close>

text \<open>A count of the history that leaves room for one registry of turns.\<close>

fun small_seed :: "grok_op \<Rightarrow> bool" where
  "small_seed (OpRequest session request history route_id) =
     (case durable_seed session history route_id of Inr n \<Rightarrow> unat n + GROK_SESSION_LRU_LIMIT < 2 ^ 64 | Inl _ \<Rightarrow> True)"
| "small_seed _ = True"

lemma fifo_insert_small:
  assumes "length (fst c) < limit"
  shows "map_of (snd (fifo_insert limit k v c)) = (map_of (snd c))(k \<mapsto> v)"
    and "length (fst (fifo_insert limit k v c)) \<le> Suc (length (fst c))"
  using assms by (auto simp: fifo_insert_def fifo_evict_eq update_conv')

lemma granted_turn:
  assumes "seed_turn_index session history route_id st = Inr st1" "next_turn_index session st1 = (t, st2)"
    and "length (gs_turn_index_order st) < GROK_SESSION_LRU_LIMIT"
  shows "map_of (gs_turn_indexes st) session = Some t \<or>
      map_of (gs_turn_indexes st) session = None \<and> durable_seed session history route_id = Inr t"
    and "map_of (gs_turn_indexes st2) = (map_of (gs_turn_indexes st))(session \<mapsto> saturating_add t 1)"
    and "length (gs_turn_index_order st2) \<le> Suc (length (gs_turn_index_order st))"
proof -
  have len: "length (fst (turn_cache st)) < GROK_SESSION_LRU_LIMIT" using assms(3) by (simp add: turn_cache_def)
  have st2: "map_of (gs_turn_indexes st2) = (map_of (gs_turn_indexes st1))(session \<mapsto> saturating_add t 1)"
    "gs_turn_index_order st2 = gs_turn_index_order st1"
    and t: "t = (case map_of (gs_turn_indexes st1) session of Some n \<Rightarrow> n | None \<Rightarrow> 0)"
    using assms(2) by (auto simp: next_turn_index_def Let_def update_conv')
  from seed_turn_index_caches(3) [OF assms(1)]
  have "(map_of (gs_turn_indexes st) session = Some t \<or>
      map_of (gs_turn_indexes st) session = None \<and> durable_seed session history route_id = Inr t) \<and>
    map_of (gs_turn_indexes st2) = (map_of (gs_turn_indexes st))(session \<mapsto> saturating_add t 1) \<and>
    length (gs_turn_index_order st2) \<le> Suc (length (gs_turn_index_order st))"
  proof
    assume "map_of (gs_turn_indexes st) session \<noteq> None \<and> st1 = st"
    then show ?thesis using st2 t by auto
  next
    assume "map_of (gs_turn_indexes st) session = None \<and> (\<exists>n. durable_seed session history route_id = Inr n \<and>
      turn_cache st1 = fifo_insert GROK_SESSION_LRU_LIMIT session n (turn_cache st))"
    then obtain n where new: "map_of (gs_turn_indexes st) session = None" "durable_seed session history route_id = Inr n"
      "turn_cache st1 = fifo_insert GROK_SESSION_LRU_LIMIT session n (turn_cache st)" by blast
    have "map_of (gs_turn_indexes st1) = (map_of (gs_turn_indexes st))(session \<mapsto> n)"
      "length (gs_turn_index_order st1) \<le> Suc (length (gs_turn_index_order st))"
      using fifo_insert_small [OF len, of session n] unfolding new(3) [symmetric] by (simp_all add: turn_cache_def)
    then show ?thesis using st2 t new(1,2) by simp
  qed
  then show "map_of (gs_turn_indexes st) session = Some t \<or>
      map_of (gs_turn_indexes st) session = None \<and> durable_seed session history route_id = Inr t"
    and "map_of (gs_turn_indexes st2) = (map_of (gs_turn_indexes st))(session \<mapsto> saturating_add t 1)"
    and "length (gs_turn_index_order st2) \<le> Suc (length (gs_turn_index_order st))" by blast+
qed

text \<open>
  After \<open>j\<close> calls no index has been evicted, every index is small, every granted index is below the next
  one of its session, and none was granted twice.
\<close>

definition turn_inv :: "nat \<Rightarrow> grok_session_state \<Rightarrow> bool" where
  "turn_inv j st \<longleftrightarrow>
     length (gs_turn_index_order st) \<le> j \<and>
     (\<forall>session n. map_of (gs_turn_indexes st) session = Some n \<longrightarrow> unat n + GROK_SESSION_LRU_LIMIT < 2 ^ 64 + j) \<and>
     (\<forall>session f i t. map_of (gs_request_identities st) (session, f) = Some i \<and> gi_turn_index i = Some t \<longrightarrow>
        (\<exists>n. map_of (gs_turn_indexes st) session = Some n \<and> unat t < unat n)) \<and>
     (\<forall>session f f' i i' t. map_of (gs_request_identities st) (session, f) = Some i \<and> gi_turn_index i = Some t \<and>
        map_of (gs_request_identities st) (session, f') = Some i' \<and> gi_turn_index i' = Some t \<longrightarrow> f = f')"

lemma turn_inv_mono:
  assumes "turn_inv j st" "j \<le> j'" "gs_turn_index_order st' = gs_turn_index_order st" "gs_turn_indexes st' = gs_turn_indexes st"
    and "\<And>k i t. map_of (gs_request_identities st') k = Some i \<Longrightarrow> gi_turn_index i = Some t \<Longrightarrow>
      map_of (gs_request_identities st) k = Some i"
  shows "turn_inv j' st'"
  using assms(1) unfolding turn_inv_def assms(3,4) by (meson assms(2,5) add_left_mono le_trans less_le_trans)

lemma remember_identity_lookup:
  assumes "map_of (gs_request_identities st) key = None"
  shows "map_of (gs_request_identities (remember_identity key i st)) k \<in>
    {None, if k = key then Some i else map_of (gs_request_identities st) k}"
  by (auto simp: identities_of_cache remember_identity_caches(1) [OF assms] fifo_insert_def fifo_lookup update_conv')

lemma turn_inv_request:
  assumes inv: "turn_inv j st" and j: "Suc j \<le> GROK_SESSION_LRU_LIMIT"
    and small: "small_seed (OpRequest session request history route_id)"
  shows "turn_inv (Suc j) (snd (request_identity sha print session request history route_id st))"
proof (cases rule: request_identity_state [of sha print session request history route_id st])
  case 1
  then show ?thesis using inv by (auto elim!: turn_inv_mono)
next
  case (2 st1 i)
  let ?key = "(session, grok_request_fingerprint sha print session request)"
  obtain t st2 where nxt: "next_turn_index session st1 = (t, st2)" by fastforce
  let ?st = "remember_identity ?key i st2"
  have len: "length (gs_turn_index_order st) < GROK_SESSION_LRU_LIMIT" using inv j by (simp add: turn_inv_def)
  note turn = granted_turn [OF 2(1) nxt len]
  have t: "unat t + GROK_SESSION_LRU_LIMIT < 2 ^ 64 + j"
    using turn(1) inv small by (auto simp: turn_inv_def)
  have "unat t + 1 < 2 ^ 64" using t j by linarith
  then have suc: "unat (saturating_add t 1) = unat t + 1" by (simp add: sat_arith)
  have ids: "gs_request_identities st2 = gs_request_identities st"
    using seed_turn_index_caches(2) [OF 2(1)] next_turn_index_caches(2) [of session st1] nxt by (simp add: identities_of_cache)
  have look: "map_of (gs_request_identities ?st) k \<in> {None, if k = ?key then Some i else map_of (gs_request_identities st) k}" for k
    using remember_identity_lookup [of st2 ?key i k, unfolded ids, OF 2(2)] .
  have frame: "gs_turn_indexes ?st = gs_turn_indexes st2" "gs_turn_index_order ?st = gs_turn_index_order st2"
    using remember_identity_caches(3) [of ?key i st2] by (simp_all add: turn_cache_def)
  have it: "gi_turn_index i = Some t" using 2(3) nxt by simp
  have old: "unat t' < unat t" if "map_of (gs_request_identities st) (session, f) = Some i'" "gi_turn_index i' = Some t'" for f i' t'
    using that turn(1) inv unfolding turn_inv_def by (metis option.distinct(1) option.inject)
  have "turn_inv (Suc j) ?st" unfolding turn_inv_def frame
  proof (intro conjI allI impI)
    show "length (gs_turn_index_order st2) \<le> Suc j" using turn(3) inv by (simp add: turn_inv_def)
  next
    fix session' n assume "map_of (gs_turn_indexes st2) session' = Some n"
    then show "unat n + GROK_SESSION_LRU_LIMIT < 2 ^ 64 + Suc j"
      using inv suc t by (auto simp: turn(2) turn_inv_def split: if_splits) force
  next
    fix session' f i' t' assume a: "map_of (gs_request_identities ?st) (session', f) = Some i' \<and> gi_turn_index i' = Some t'"
    show "\<exists>n. map_of (gs_turn_indexes st2) session' = Some n \<and> unat t' < unat n"
    proof (cases "(session', f) = ?key")
      case True
      then show ?thesis using a look [of ?key] it suc by (auto simp: turn(2))
    next
      case False
      then have "map_of (gs_request_identities st) (session', f) = Some i'" using a look [of "(session', f)"] by auto
      with a old inv suc show ?thesis by (fastforce simp: turn(2) turn_inv_def)
    qed
  next
    fix session' f f' i1 i2 t'
    assume a: "map_of (gs_request_identities ?st) (session', f) = Some i1 \<and> gi_turn_index i1 = Some t' \<and>
      map_of (gs_request_identities ?st) (session', f') = Some i2 \<and> gi_turn_index i2 = Some t'"
    have "(session', f) = ?key \<and> i1 = i \<or> map_of (gs_request_identities st) (session', f) = Some i1"
      "(session', f') = ?key \<and> i2 = i \<or> map_of (gs_request_identities st) (session', f') = Some i2"
      using a look [of "(session', f)"] look [of "(session', f')"] by (auto split: if_splits)
    then show "f = f'" using a it old inv unfolding turn_inv_def
      by (metis less_irrefl option.inject prod.inject)
  qed
  then show ?thesis using 2(4) nxt by simp
qed

lemma turn_inv_step:
  assumes "turn_inv j st" "Suc j \<le> GROK_SESSION_LRU_LIMIT" "small_seed x"
  shows "turn_inv (Suc j) (grok_step sha print x st)"
proof (cases x)
  case (OpBind r session)
  then show ?thesis using assms(1) bind_response_caches(2,3) [of r session st]
    by (auto simp: grok_caches elim!: turn_inv_mono)
next
  case (OpResolve request history random)
  show ?thesis
  proof (cases rule: resolve_session_state [of sha request history random st])
    case (2 r session)
    then show ?thesis using assms(1) bind_response_caches(2,3) [of r session st] OpResolve
      by (auto simp: grok_caches elim!: turn_inv_mono)
  qed (use assms(1) OpResolve in \<open>auto elim!: turn_inv_mono\<close>)
next
  case (OpRequest session request history route_id)
  then show ?thesis using turn_inv_request assms by simp
next
  case (OpCompaction session seed)
  show ?thesis
  proof (cases rule: compaction_identity_state [of sha print session seed st])
    case (2 key i)
    have "turn_inv (Suc j) (remember_identity key i st)"
    proof (rule turn_inv_mono [OF assms(1)])
      fix k i' t assume "map_of (gs_request_identities (remember_identity key i st)) k = Some i'" "gi_turn_index i' = Some t"
      then show "map_of (gs_request_identities st) k = Some i'"
        using remember_identity_lookup [OF 2(1), of i k] 2(2) by (auto split: if_splits)
    qed (use remember_identity_caches(3) [of key i st] in \<open>simp_all add: turn_cache_def\<close>)
    with 2(3) OpCompaction show ?thesis by simp
  qed (use assms(1) OpCompaction in \<open>auto elim!: turn_inv_mono\<close>)
qed

lemma run_turn_inv:
  "turn_inv j st \<Longrightarrow> j + length ops \<le> GROK_SESSION_LRU_LIMIT \<Longrightarrow> list_all small_seed ops \<Longrightarrow>
   turn_inv (j + length ops) (fold (grok_step sha print) ops st)"
proof (induction ops arbitrary: j st)
  case (Cons x ops)
  have "turn_inv (Suc j) (grok_step sha print x st)" using Cons.prems by (intro turn_inv_step) auto
  from Cons.IH [OF this] Cons.prems show ?case by simp
qed simp

text \<open>
  Within the first 4096 calls on a registry no turn index of a session is given to two requests: two
  remembered identities of a session with one index belong to one request body. What the history
  counted may be anything that leaves room below the largest 64-bit number.
\<close>

theorem grok_turns_distinct:
  assumes "length ops \<le> GROK_SESSION_LRU_LIMIT" and "list_all small_seed ops"
    and "map_of (gs_request_identities (fold (grok_step sha print) ops new_registry)) (session, f) = Some i"
    and "map_of (gs_request_identities (fold (grok_step sha print) ops new_registry)) (session, f') = Some i'"
    and "gi_turn_index i = Some t" and "gi_turn_index i' = Some t"
  shows "f = f'"
proof -
  have "turn_inv 0 new_registry" by (simp add: turn_inv_def new_registry_def)
  from run_turn_inv [OF this _ assms(2)] assms(1) have "turn_inv (length ops) (fold (grok_step sha print) ops new_registry)"
    by simp
  with assms(3-6) show ?thesis unfolding turn_inv_def by blast
qed

section \<open>Failures of the history\<close>

lemma resolve_session_fails_iff:
  "fst (resolve_session sha request (Some store) random st) = Inl err \<longleftrightarrow>
     (\<exists>r e. err = ConversationKeyLookupFailed e \<and> map_option trim (get_str request ''previous_response_id'') = Some r \<and>
        r \<noteq> [] \<and> map_of (gs_response_sessions st) r = None \<and> hl_response_conversation_key store r = Inl e)"
  by (auto simp: resolve_session_def Let_def split: option.split sum.split)

lemma request_identity_fails_iff:
  "fst (request_identity sha print session request (Some store) (Some route_id) st) = Inl err \<longleftrightarrow>
     (\<exists>e. err = ExchangeCountFailed e \<and> map_of (gs_turn_indexes st) session = None \<and>
        map_of (gs_request_identities st) (session, grok_request_fingerprint sha print session request) = None \<and>
        hl_conversation_route_exchange_count store session route_id = Inl e)"
  by (auto simp: request_identity_def seed_turn_index_def durable_seed_def Let_def split: option.split sum.split prod.split)

text \<open>
  C31: A failed lookup of the history is never taken for a miss: a turn is refused exactly when a lookup
  it needs has failed (the session of an unknown predecessor, or the number of turns of a session that
  has no index yet), and a refused turn takes no index and leaves no identity behind.
\<close>

theorem history_failure_fails_closed:
  "(fst (resolve_turn sha print request (Some store) route_id compaction random st) = Inl err \<longleftrightarrow>
      (\<exists>r e. err = ConversationKeyLookupFailed e \<and> map_option trim (get_str request ''previous_response_id'') = Some r \<and>
         r \<noteq> [] \<and> map_of (gs_response_sessions st) r = None \<and> hl_response_conversation_key store r = Inl e) \<or>
      (\<exists>session e. err = ExchangeCountFailed e \<and> \<not> compaction \<and>
         fst (resolve_session sha request (Some store) random st) = Inr session \<and>
         map_of (gs_turn_indexes st) session = None \<and>
         map_of (gs_request_identities st) (session, grok_request_fingerprint sha print session request) = None \<and>
         hl_conversation_route_exchange_count store session route_id = Inl e)) \<and>
   (fst (resolve_turn sha print request (Some store) route_id compaction random st) = Inl err \<longrightarrow>
      turn_cache (snd (resolve_turn sha print request (Some store) route_id compaction random st)) = turn_cache st \<and>
      identity_cache (snd (resolve_turn sha print request (Some store) route_id compaction random st)) = identity_cache st)"
proof -
  let ?rs = "resolve_session sha request (Some store) random st"
  obtain st1 where rs: "?rs = (fst ?rs, st1)" by (cases ?rs) simp
  have frame: "turn_cache st1 = turn_cache st" "identity_cache st1 = identity_cache st"
    using resolve_session_state [of sha request "Some store" random st] rs bind_response_caches(2,3) by (metis snd_conv)+
  show ?thesis
  proof (cases "fst ?rs")
    case (Inl e)
    then have "resolve_turn sha print request (Some store) route_id compaction random st = (Inl e, st1)"
      using rs by (auto simp: resolve_turn_def)
    with Inl frame show ?thesis using resolve_session_fails_iff [of sha request store random st err] by auto
  next
    case (Inr session)
    then have none: "\<not> (\<exists>r e. err = ConversationKeyLookupFailed e \<and> map_option trim (get_str request ''previous_response_id'') = Some r \<and>
         r \<noteq> [] \<and> map_of (gs_response_sessions st) r = None \<and> hl_response_conversation_key store r = Inl e)"
      using resolve_session_fails_iff [of sha request store random st err] by simp
    have tables: "gs_turn_indexes st1 = gs_turn_indexes st" "gs_request_identities st1 = gs_request_identities st"
      using frame by (simp_all add: grok_caches)
    have run: "resolve_turn sha print request (Some store) route_id compaction random st =
        (if compaction then map_prod Inr id (compaction_identity sha print session request st1)
         else request_identity sha print session request (Some store) (Some route_id) st1)"
      using rs Inr by (auto simp: resolve_turn_def split: prod.split)
    let ?rt = "resolve_turn sha print request (Some store) route_id compaction random st"
    have "fst ?rt = Inl err \<longleftrightarrow> \<not> compaction \<and>
      (\<exists>e. err = ExchangeCountFailed e \<and> map_of (gs_turn_indexes st) session = None \<and>
        map_of (gs_request_identities st) (session, grok_request_fingerprint sha print session request) = None \<and>
        hl_conversation_route_exchange_count store session route_id = Inl e)"
      unfolding run by (simp add: request_identity_fails_iff tables)
    moreover have "snd ?rt = st1" if "fst ?rt = Inl err"
      using that unfolding run
      by (cases rule: request_identity_state [of sha print session request "Some store" "Some route_id" st1])
        (simp_all split: if_splits)
    ultimately show ?thesis using none Inr frame by auto
  qed
qed

section \<open>Examples\<close>

definition sample_turn :: json where
  "sample_turn = JObject [(''previous_response_id'', JString ''r''), (''input'', JString ''hi'')]"

theorem grok_retry_same_identity_witness:
  "\<exists>i st. request_identity id (\<lambda>_. ''b'') ''s'' sample_turn None None new_registry = (Inr i, st) \<and>
     request_identity id (\<lambda>_. ''b'') ''s'' sample_turn None None
       (fold (grok_step id (\<lambda>_. ''b'')) [OpBind ''r'' ''s'', OpRequest ''t'' JNull None None] st) =
     (Inr i, fold (grok_step id (\<lambda>_. ''b'')) [OpBind ''r'' ''s'', OpRequest ''t'' JNull None None] st)"
proof -
  obtain i st where run: "request_identity id (\<lambda>_. ''b'') ''s'' sample_turn None None new_registry = (Inr i, st)"
    by (simp add: request_identity_def seed_turn_index_def durable_seed_def next_turn_index_def new_registry_def Let_def
        GROK_SESSION_LRU_LIMIT_def)
  have "request_identity id (\<lambda>_. ''b'') ''s'' sample_turn None None
      (fold (grok_step id (\<lambda>_. ''b'')) [OpBind ''r'' ''s'', OpRequest ''t'' JNull None None] st) =
     (Inr i, fold (grok_step id (\<lambda>_. ''b'')) [OpBind ''r'' ''s'', OpRequest ''t'' JNull None None] st)"
    by (rule grok_retry_same_identity [where earlier = "[]" and history = None and route_id = None])
      (use run in \<open>simp_all add: new_registry_def GROK_SESSION_LRU_LIMIT_def\<close>)
  with run show ?thesis by blast
qed

theorem bound_response_resolves_witness:
  "let st = fold (grok_step id (\<lambda>_. ''b'')) [OpRequest ''t'' JNull None None] (bind_response ''r'' ''s'' new_registry)
   in resolve_session id sample_turn None [] st = (Inr ''s'', st)"
proof -
  have trim: "map_option trim (get_str sample_turn ''previous_response_id'') = Some ''r''" by code_simp
  show ?thesis
    using bound_response_resolves [where earlier = "[]" and r = "''r''" and session = "''s''" and sha = id
        and print = "\<lambda>_. ''b''" and ops = "[OpRequest ''t'' JNull None None]" and history = None and random = "[]", OF _ _ _ _ _ trim]
    by (simp add: new_registry_def GROK_SESSION_LRU_LIMIT_def)
qed

theorem grok_turns_distinct_witness:
  "\<exists>i. map_of (gs_request_identities (grok_step id (\<lambda>_. ''b'') (OpRequest ''s'' JNull None None) new_registry))
       (''s'', [CHR ''s'', CHR 0x00, CHR ''b'']) = Some i \<and> gi_turn_index i = Some 0 \<and>
     (\<forall>f i'. map_of (gs_request_identities (grok_step id (\<lambda>_. ''b'') (OpRequest ''s'' JNull None None) new_registry)) (''s'', f) = Some i' \<and>
        gi_turn_index i' = Some 0 \<longrightarrow> f = [CHR ''s'', CHR 0x00, CHR ''b''])"
proof -
  let ?st = "fold (grok_step id (\<lambda>_. ''b'')) [OpRequest ''s'' JNull None None] new_registry"
  obtain i where i: "map_of (gs_request_identities ?st) (''s'', [CHR ''s'', CHR 0x00, CHR ''b'']) = Some i" "gi_turn_index i = Some 0"
    by (simp add: request_identity_def seed_turn_index_def durable_seed_def next_turn_index_def remember_identity_def
        grok_request_fingerprint_def new_registry_def GROK_SESSION_LRU_LIMIT_def Let_def)
  have "f = [CHR ''s'', CHR 0x00, CHR ''b'']" if "map_of (gs_request_identities ?st) (''s'', f) = Some i'" "gi_turn_index i' = Some 0" for f i'
    by (rule grok_turns_distinct [OF _ _ that(1) i(1) that(2) i(2)])
      (simp_all add: GROK_SESSION_LRU_LIMIT_def durable_seed_def)
  moreover have "?st = grok_step id (\<lambda>_. ''b'') (OpRequest ''s'' JNull None None) new_registry" by simp
  ultimately show ?thesis using i by metis
qed

definition broken_history :: history_lookups where
  "broken_history = \<lparr>hl_response_conversation_key = (\<lambda>_. Inl ''io''), hl_conversation_route_exchange_count = (\<lambda>_ _. Inl ''io'')\<rparr>"

theorem history_failure_fails_closed_witness:
  "fst (resolve_turn id (\<lambda>_. ''b'') sample_turn (Some broken_history) ''grok'' False [] new_registry) =
     Inl (ConversationKeyLookupFailed ''io'') \<and>
   identity_cache (snd (resolve_turn id (\<lambda>_. ''b'') sample_turn (Some broken_history) ''grok'' False [] new_registry)) =
     identity_cache new_registry"
proof -
  have prev: "map_option trim (get_str sample_turn ''previous_response_id'') = Some ''r''"
    "map_of (gs_response_sessions new_registry) ''r'' = None" "hl_response_conversation_key broken_history ''r'' = Inl ''io''"
    by code_simp+
  show ?thesis
    using history_failure_fails_closed [where sha = id and print = "\<lambda>_. ''b''" and request = sample_turn and store = broken_history
        and route_id = "''grok''" and compaction = False and random = "[]" and st = new_registry
        and err = "ConversationKeyLookupFailed ''io''"] prev by blast
qed

end
