(* ===== verification/Codex_Metadata.thy ===== *)
theory Codex_Metadata
  imports Codex_Identity Json_Value "HOL-Library.List_Lexorder" "HOL-Library.Char_ord"
begin

text \<open>
  From headers and bodies to the identity of a Codex turn (\<open>codex_metadata.rs\<close>): the structured metadata
  of the body and of the header, the flat compatibility fields, their merge with the detection of
  conflicts, and the capability profile. The header map of the HTTP library, its \<open>to_str\<close>, the derived
  decoder of the wire format and SHA-256 (as hexadecimal text) are arguments; a slice of a text inside
  a character panics, which is the result \<open>None\<close>.
\<close>

section \<open>Data\<close>

definition X_CODEX_TURN_METADATA :: string where
  "X_CODEX_TURN_METADATA = ''x-codex-turn-metadata''"

definition X_CODEX_PARENT_THREAD_ID :: string where
  "X_CODEX_PARENT_THREAD_ID = ''x-codex-parent-thread-id''"

definition X_OPENAI_SUBAGENT :: string where
  "X_OPENAI_SUBAGENT = ''x-openai-subagent''"

definition X_CODEX_WINDOW_ID :: string where
  "X_CODEX_WINDOW_ID = ''x-codex-window-id''"

definition MAX_CODEX_TURN_METADATA_BYTES :: nat where
  "MAX_CODEX_TURN_METADATA_BYTES = 16 * 1024"

definition MAX_UNKNOWN_METADATA_KEYS :: nat where
  "MAX_UNKNOWN_METADATA_KEYS = 32"

record codex_turn_metadata_wire =
  w_installation_id :: "string option"
  w_session_id :: "string option"
  w_thread_id :: "string option"
  w_agent_name :: "string option"
  w_turn_id :: "string option"
  w_root_turn_id :: "string option"
  w_parent_thread_id :: "string option"
  w_parent_turn_id :: "string option"
  w_forked_from_thread_id :: "string option"
  w_window_id :: "string option"
  w_context_window_id :: "string option"
  w_request_kind :: "string option"
  w_subagent_kind :: "string option"
  w_thread_source :: "json option"
  w_extra :: "(string \<times> json) list"

datatype codex_metadata_header_scope = SameRequest | ConnectionProjection

record codex_compatibility_projection =
  cp_session_id :: "codex_opaque_id option"
  cp_thread_id :: "codex_opaque_id option"
  cp_turn_id :: "codex_opaque_id option"
  cp_parent_thread_id :: "codex_opaque_id option"
  cp_parent_turn_id :: "codex_opaque_id option"
  cp_root_turn_id :: "codex_opaque_id option"
  cp_subagent_header :: "string option"
  cp_window_id :: "codex_opaque_id option"

definition empty_projection :: codex_compatibility_projection where
  "empty_projection =
     \<lparr>cp_session_id = None, cp_thread_id = None, cp_turn_id = None, cp_parent_thread_id = None, cp_parent_turn_id = None,
      cp_root_turn_id = None, cp_subagent_header = None, cp_window_id = None\<rparr>"

text \<open>A header map: the value of a name as bytes, and \<open>HeaderValue::to_str\<close>.\<close>

record header_map =
  hm_get :: "string \<Rightarrow> string option"
  hm_to_str :: "string \<Rightarrow> string option"

section \<open>Flat fields\<close>

definition ok_id :: "string \<Rightarrow> string \<Rightarrow> codex_opaque_id option" where
  "ok_id field s = (case parse_codex_opaque_id field s of Inr i \<Rightarrow> Some i | Inl _ \<Rightarrow> None)"

definition ok_label :: "string \<Rightarrow> string option" where
  "ok_label s = (let trimmed = trim s in if trimmed \<noteq> [] \<and> length trimmed \<le> MAX_CODEX_ID_BYTES then Some trimmed else None)"

definition header_text :: "header_map \<Rightarrow> string \<Rightarrow> string option" where
  "header_text h name = Option.bind (hm_get h name) (hm_to_str h)"

definition parse_flat_header_compatibility :: "header_map \<Rightarrow> codex_compatibility_projection" where
  "parse_flat_header_compatibility h =
     empty_projection
       \<lparr>cp_parent_thread_id := Option.bind (header_text h X_CODEX_PARENT_THREAD_ID) (ok_id ''parent_thread_id''),
        cp_subagent_header := Option.bind (header_text h X_OPENAI_SUBAGENT) ok_label,
        cp_window_id := Option.bind (header_text h X_CODEX_WINDOW_ID) (ok_id ''window_id'')\<rparr>"

definition client_metadata :: "json \<Rightarrow> json option" where
  "client_metadata body =
     (case json_get body ''client_metadata'' of Some (JObject kvs) \<Rightarrow> Some (JObject kvs) | _ \<Rightarrow> None)"

definition parse_flat_body_compatibility :: "json \<Rightarrow> codex_compatibility_projection" where
  "parse_flat_body_compatibility body =
     (case client_metadata body of
        None \<Rightarrow> empty_projection
      | Some m \<Rightarrow>
          let either = (\<lambda>k k'. Option.bind (or_else (json_get m k) (json_get m k')) json_as_str)
          in \<lparr>cp_session_id = Option.bind (get_str m ''session_id'') (ok_id ''session_id''),
              cp_thread_id = Option.bind (get_str m ''thread_id'') (ok_id ''thread_id''),
              cp_turn_id = Option.bind (get_str m ''turn_id'') (ok_id ''turn_id''),
              cp_parent_thread_id = Option.bind (either ''parent_thread_id'' X_CODEX_PARENT_THREAD_ID) (ok_id ''parent_thread_id''),
              cp_parent_turn_id = Option.bind (get_str m ''parent_turn_id'') (ok_id ''parent_turn_id''),
              cp_root_turn_id = Option.bind (get_str m ''root_turn_id'') (ok_id ''root_turn_id''),
              cp_subagent_header = Option.bind (either ''subagent'' X_OPENAI_SUBAGENT) ok_label,
              cp_window_id = Option.bind (either ''window_id'' X_CODEX_WINDOW_ID) (ok_id ''window_id'')\<rparr>)"

definition parse_compatibility_projection :: "header_map \<Rightarrow> json \<Rightarrow> codex_compatibility_projection" where
  "parse_compatibility_projection h body =
     (let header_proj = parse_flat_header_compatibility h; body_proj = parse_flat_body_compatibility body in
      body_proj
        \<lparr>cp_parent_thread_id := or_else (cp_parent_thread_id body_proj) (cp_parent_thread_id header_proj),
         cp_parent_turn_id := or_else (cp_parent_turn_id body_proj) (cp_parent_turn_id header_proj),
         cp_root_turn_id := or_else (cp_root_turn_id body_proj) (cp_root_turn_id header_proj),
         cp_subagent_header := or_else (cp_subagent_header body_proj) (cp_subagent_header header_proj),
         cp_window_id := or_else (cp_window_id body_proj) (cp_window_id header_proj)\<rparr>)"

section \<open>Structured metadata\<close>

definition schema_fingerprint :: "(string \<Rightarrow> string) \<Rightarrow> string list \<Rightarrow> string list \<Rightarrow> string" where
  "schema_fingerprint sha known unknown = take 16 (sha (join_with '','' (sort (known @ unknown))))"

definition wire_id :: "string \<Rightarrow> string option \<Rightarrow> codex_metadata_error + codex_opaque_id option" where
  "wire_id field v =
     (case v of
        None \<Rightarrow> Inr None
      | Some s \<Rightarrow> if trim s = [] then Inr None else map_sum id Some (parse_codex_opaque_id field s))"

fun sum_bind :: "'e + 'a \<Rightarrow> ('a \<Rightarrow> 'e + 'b) \<Rightarrow> 'e + 'b" where
  "sum_bind (Inl e) f = Inl e"
| "sum_bind (Inr a) f = f a"

definition known_fields :: "codex_turn_identity \<Rightarrow> string list" where
  "known_fields t =
     (let present = (\<lambda>name present. if present then [name] else []) in
      present ''installation_id'' (ti_installation_id t \<noteq> None) @ present ''session_id'' (ti_session_id t \<noteq> None) @
      present ''thread_id'' (ti_thread_id t \<noteq> None) @ present ''agent_name'' (ti_agent_name t \<noteq> None) @
      present ''turn_id'' (ti_turn_id t \<noteq> None) @ present ''root_turn_id'' (ti_root_turn_id t \<noteq> None) @
      present ''parent_thread_id'' (ti_parent_thread_id t \<noteq> None) @ present ''parent_turn_id'' (ti_parent_turn_id t \<noteq> None) @
      present ''forked_from_thread_id'' (ti_forked_from_thread_id t \<noteq> None) @ present ''window_id'' (ti_window_id t \<noteq> None) @
      present ''context_window_id'' (ti_context_window_id t \<noteq> None) @ present ''request_kind'' (ti_request_kind t \<noteq> None) @
      present ''subagent_kind'' (ti_subagent_kind t \<noteq> None) @ present ''thread_source'' (ti_thread_source t \<noteq> None))"

definition wire_trust :: "'a option \<Rightarrow> 'a option \<Rightarrow> 'a option \<Rightarrow> codex_identity_trust" where
  "wire_trust session_id thread_id parent_thread_id =
     (if session_id \<noteq> None \<and> thread_id \<noteq> None then (if parent_thread_id \<noteq> None then Exact else Structured)
      else if thread_id \<noteq> None \<or> parent_thread_id \<noteq> None then Partial
      else NoTrust)"

definition normalize_wire_metadata ::
  "(string \<Rightarrow> string) \<Rightarrow> codex_turn_metadata_wire \<Rightarrow> codex_identity_source \<Rightarrow> codex_metadata_error + codex_turn_identity"
where
  "normalize_wire_metadata sha w source =
     sum_bind (wire_id ''installation_id'' (w_installation_id w)) (\<lambda>installation_id.
     sum_bind (wire_id ''session_id'' (w_session_id w)) (\<lambda>session_id.
     sum_bind (wire_id ''thread_id'' (w_thread_id w)) (\<lambda>thread_id.
     sum_bind (wire_id ''turn_id'' (w_turn_id w)) (\<lambda>turn_id.
     sum_bind (wire_id ''root_turn_id'' (w_root_turn_id w)) (\<lambda>root_turn_id.
     sum_bind (wire_id ''parent_thread_id'' (w_parent_thread_id w)) (\<lambda>parent_thread_id.
     sum_bind (wire_id ''parent_turn_id'' (w_parent_turn_id w)) (\<lambda>parent_turn_id.
     sum_bind (wire_id ''forked_from_thread_id'' (w_forked_from_thread_id w)) (\<lambda>forked_from_thread_id.
     sum_bind (wire_id ''window_id'' (w_window_id w)) (\<lambda>window_id.
     sum_bind (wire_id ''context_window_id'' (w_context_window_id w)) (\<lambda>context_window_id.
       let unknown_fields = sort (take MAX_UNKNOWN_METADATA_KEYS (map fst (w_extra w)));
           t = \<lparr>ti_installation_id = installation_id, ti_session_id = session_id, ti_thread_id = thread_id,
                ti_agent_name = map_option trim (w_agent_name w), ti_turn_id = turn_id, ti_root_turn_id = root_turn_id,
                ti_parent_thread_id = parent_thread_id, ti_parent_turn_id = parent_turn_id,
                ti_forked_from_thread_id = forked_from_thread_id, ti_window_id = window_id,
                ti_context_window_id = context_window_id, ti_request_kind = map_option trim (w_request_kind w),
                ti_subagent_kind = map_option trim (w_subagent_kind w), ti_subagent_header = None,
                ti_thread_source = w_thread_source w, ti_source = source,
                ti_trust = wire_trust session_id thread_id parent_thread_id, ti_conflict_fields = [],
                ti_unknown_fields = unknown_fields, ti_schema_fingerprint = None\<rparr>
       in Inr (t\<lparr>ti_schema_fingerprint := Some (schema_fingerprint sha (known_fields t) unknown_fields)\<rparr>)))))))))))"

definition bounded_error_reason :: "string \<Rightarrow> string option" where
  "bounded_error_reason msg =
     (if length msg \<le> 128 then Some msg
      else if is_char_boundary msg 128 then Some (take 128 msg @ ''...'') else None)"

text \<open>The decoder of the wire format, with the text of its error, and what is made of the error.\<close>

definition decode_wire ::
  "(string \<Rightarrow> string + codex_turn_metadata_wire) \<Rightarrow> metadata_source_name \<Rightarrow> string
     \<Rightarrow> (codex_metadata_error + codex_turn_metadata_wire) option"
where
  "decode_wire decode source_name s =
     (case decode s of
        Inr w \<Rightarrow> Some (Inr w)
      | Inl e \<Rightarrow> map_option (\<lambda>reason. Inl (MalformedTurnMetadata source_name reason)) (bounded_error_reason e))"

definition parse_canonical_client_metadata ::
  "(string \<Rightarrow> string) \<Rightarrow> (string \<Rightarrow> string + codex_turn_metadata_wire) \<Rightarrow> (json \<Rightarrow> string) \<Rightarrow> json
     \<Rightarrow> (codex_metadata_error + codex_turn_identity option) option"
where
  "parse_canonical_client_metadata sha decode print body =
     (case Option.bind (client_metadata body) (\<lambda>m. json_get m X_CODEX_TURN_METADATA) of
        None \<Rightarrow> Some (Inr None)
      | Some wire_val \<Rightarrow>
          let normalize = (\<lambda>s. if MAX_CODEX_TURN_METADATA_BYTES < length s then Some (Inl MetadataTooLarge)
                else map_option (\<lambda>r. sum_bind r (\<lambda>w. map_sum id Some (normalize_wire_metadata sha w CanonicalClientMetadata)))
                       (decode_wire decode CanonicalBody s))
          in (case wire_val of
                JString s \<Rightarrow> normalize s
              | JObject kvs \<Rightarrow> normalize (print wire_val)
              | _ \<Rightarrow> Some (Inl (MalformedTurnMetadata CanonicalBody
                       ''x-codex-turn-metadata in client_metadata must be a JSON string or object''))))"

definition parse_turn_metadata_header ::
  "(string \<Rightarrow> string + codex_turn_metadata_wire) \<Rightarrow> header_map
     \<Rightarrow> (codex_metadata_error + codex_turn_metadata_wire option) option"
where
  "parse_turn_metadata_header decode h =
     (case hm_get h X_CODEX_TURN_METADATA of
        None \<Rightarrow> Some (Inr None)
      | Some raw_bytes \<Rightarrow>
          if MAX_CODEX_TURN_METADATA_BYTES < length raw_bytes then Some (Inl MetadataTooLarge)
          else case hm_to_str h raw_bytes of
                 None \<Rightarrow> Some (Inl (MalformedTurnMetadata TurnMetadataHeaderName ''Header contains non-ASCII characters''))
               | Some s \<Rightarrow> map_option (map_sum id Some) (decode_wire decode TurnMetadataHeaderName s))"

section \<open>Merging the sources\<close>

definition check_field_conflict ::
  "string \<Rightarrow> codex_opaque_id option \<Rightarrow> codex_opaque_id option \<Rightarrow> string list \<Rightarrow> string list"
where
  "check_field_conflict field_name a b conflicts =
     (case (a, b) of
        (Some val_a, Some val_b) \<Rightarrow> if val_a \<noteq> val_b then conflicts @ [field_name] else conflicts
      | _ \<Rightarrow> conflicts)"

definition check_fields :: "(string \<times> codex_opaque_id option \<times> codex_opaque_id option) list \<Rightarrow> string list" where
  "check_fields checks = fold (\<lambda>(field_name, a, b). check_field_conflict field_name a b) checks []"

definition frame_checks ::
  "codex_turn_identity \<Rightarrow> codex_compatibility_projection \<Rightarrow> (string \<times> codex_opaque_id option \<times> codex_opaque_id option) list"
where
  "frame_checks can flat_body =
     [(''session_id'', ti_session_id can, cp_session_id flat_body), (''thread_id'', ti_thread_id can, cp_thread_id flat_body),
      (''turn_id'', ti_turn_id can, cp_turn_id flat_body),
      (''parent_thread_id'', ti_parent_thread_id can, cp_parent_thread_id flat_body),
      (''parent_turn_id'', ti_parent_turn_id can, cp_parent_turn_id flat_body),
      (''root_turn_id'', ti_root_turn_id can, cp_root_turn_id flat_body), (''window_id'', ti_window_id can, cp_window_id flat_body)]"

definition structured_checks ::
  "codex_turn_identity \<Rightarrow> codex_turn_identity \<Rightarrow> (string \<times> codex_opaque_id option \<times> codex_opaque_id option) list"
where
  "structured_checks frame hdr =
     [(''session_id'', ti_session_id frame, ti_session_id hdr), (''thread_id'', ti_thread_id frame, ti_thread_id hdr),
      (''turn_id'', ti_turn_id frame, ti_turn_id hdr), (''parent_thread_id'', ti_parent_thread_id frame, ti_parent_thread_id hdr),
      (''parent_turn_id'', ti_parent_turn_id frame, ti_parent_turn_id hdr),
      (''root_turn_id'', ti_root_turn_id frame, ti_root_turn_id hdr),
      (''context_window_id'', ti_context_window_id frame, ti_context_window_id hdr),
      (''window_id'', ti_window_id frame, ti_window_id hdr)]"

definition flat_header_checks ::
  "codex_turn_identity \<Rightarrow> codex_compatibility_projection \<Rightarrow> (string \<times> codex_opaque_id option \<times> codex_opaque_id option) list"
where
  "flat_header_checks t flat_headers =
     [(''parent_thread_id'', ti_parent_thread_id t, cp_parent_thread_id flat_headers),
      (''window_id'', ti_window_id t, cp_window_id flat_headers)]"

definition conflict_identity :: "codex_turn_identity option \<Rightarrow> string list \<Rightarrow> codex_turn_identity" where
  "conflict_identity t conflicts =
     (case t of Some x \<Rightarrow> x | None \<Rightarrow> default_turn_identity)\<lparr>ti_trust := Conflict, ti_conflict_fields := conflicts\<rparr>"

definition fill_from_flat_body :: "codex_turn_identity \<Rightarrow> codex_compatibility_projection \<Rightarrow> codex_turn_identity" where
  "fill_from_flat_body can flat_body =
     can\<lparr>ti_session_id := or_else (ti_session_id can) (cp_session_id flat_body),
         ti_thread_id := or_else (ti_thread_id can) (cp_thread_id flat_body),
         ti_turn_id := or_else (ti_turn_id can) (cp_turn_id flat_body),
         ti_parent_thread_id := or_else (ti_parent_thread_id can) (cp_parent_thread_id flat_body),
         ti_parent_turn_id := or_else (ti_parent_turn_id can) (cp_parent_turn_id flat_body),
         ti_root_turn_id := or_else (ti_root_turn_id can) (cp_root_turn_id flat_body),
         ti_window_id := or_else (ti_window_id can) (cp_window_id flat_body),
         ti_subagent_header := or_else (ti_subagent_header can) (cp_subagent_header flat_body),
         ti_source :=
           (if ti_session_id can = None \<and> cp_session_id flat_body \<noteq> None \<or> ti_thread_id can = None \<and> cp_thread_id flat_body \<noteq> None \<or>
               ti_turn_id can = None \<and> cp_turn_id flat_body \<noteq> None \<or>
               ti_parent_thread_id can = None \<and> cp_parent_thread_id flat_body \<noteq> None
            then MergedStructuredAndCompatibility else ti_source can)\<rparr>"

definition has_flat :: "codex_compatibility_projection \<Rightarrow> bool" where
  "has_flat p \<longleftrightarrow>
     cp_session_id p \<noteq> None \<or> cp_thread_id p \<noteq> None \<or> cp_turn_id p \<noteq> None \<or> cp_parent_thread_id p \<noteq> None \<or>
     cp_parent_turn_id p \<noteq> None \<or> cp_root_turn_id p \<noteq> None \<or> cp_subagent_header p \<noteq> None \<or> cp_window_id p \<noteq> None"

definition flat_identity :: "codex_compatibility_projection \<Rightarrow> codex_turn_identity" where
  "flat_identity p =
     default_turn_identity
       \<lparr>ti_session_id := cp_session_id p, ti_thread_id := cp_thread_id p, ti_turn_id := cp_turn_id p,
        ti_parent_thread_id := cp_parent_thread_id p, ti_parent_turn_id := cp_parent_turn_id p,
        ti_root_turn_id := cp_root_turn_id p, ti_window_id := cp_window_id p, ti_subagent_header := cp_subagent_header p,
        ti_source := FlatCompatibilityHeaders, ti_trust := Partial\<rparr>"

definition flat_known_fields :: "codex_compatibility_projection \<Rightarrow> string list" where
  "flat_known_fields p =
     (let present = (\<lambda>name present. if present then [name] else []) in
      present ''session_id'' (cp_session_id p \<noteq> None) @ present ''thread_id'' (cp_thread_id p \<noteq> None) @
      present ''turn_id'' (cp_turn_id p \<noteq> None) @ present ''parent_thread_id'' (cp_parent_thread_id p \<noteq> None) @
      present ''parent_turn_id'' (cp_parent_turn_id p \<noteq> None) @ present ''root_turn_id'' (cp_root_turn_id p \<noteq> None) @
      present ''window_id'' (cp_window_id p \<noteq> None) @ present ''subagent_header'' (cp_subagent_header p \<noteq> None))"

definition fingerprinted_flat_identity :: "(string \<Rightarrow> string) \<Rightarrow> codex_compatibility_projection \<Rightarrow> codex_turn_identity" where
  "fingerprinted_flat_identity sha p =
     (flat_identity p)\<lparr>ti_schema_fingerprint := Some (schema_fingerprint sha (flat_known_fields p) [])\<rparr>"

text \<open>The identity of the frame itself: the structured metadata of the body, or its flat fields alone.\<close>

definition frame_identity ::
  "(string \<Rightarrow> string) \<Rightarrow> codex_turn_identity option \<Rightarrow> codex_compatibility_projection \<Rightarrow> codex_turn_identity option"
where
  "frame_identity sha canonical flat_body =
     (case canonical of
        Some can \<Rightarrow> Some (fill_from_flat_body can flat_body)
      | None \<Rightarrow> if has_flat flat_body then Some (fingerprinted_flat_identity sha flat_body) else None)"

definition fill_from_header :: "codex_turn_identity \<Rightarrow> codex_turn_identity \<Rightarrow> codex_turn_identity" where
  "fill_from_header frame hdr =
     frame\<lparr>ti_installation_id := or_else (ti_installation_id frame) (ti_installation_id hdr),
           ti_agent_name := or_else (ti_agent_name frame) (ti_agent_name hdr),
           ti_forked_from_thread_id := or_else (ti_forked_from_thread_id frame) (ti_forked_from_thread_id hdr),
           ti_window_id := or_else (ti_window_id frame) (ti_window_id hdr),
           ti_context_window_id := or_else (ti_context_window_id frame) (ti_context_window_id hdr),
           ti_request_kind := or_else (ti_request_kind frame) (ti_request_kind hdr),
           ti_subagent_kind := or_else (ti_subagent_kind frame) (ti_subagent_kind hdr),
           ti_thread_source := or_else (ti_thread_source frame) (ti_thread_source hdr),
           ti_session_id := or_else (ti_session_id frame) (ti_session_id hdr),
           ti_thread_id := or_else (ti_thread_id frame) (ti_thread_id hdr),
           ti_turn_id := or_else (ti_turn_id frame) (ti_turn_id hdr),
           ti_parent_thread_id := or_else (ti_parent_thread_id frame) (ti_parent_thread_id hdr),
           ti_parent_turn_id := or_else (ti_parent_turn_id frame) (ti_parent_turn_id hdr),
           ti_root_turn_id := or_else (ti_root_turn_id frame) (ti_root_turn_id hdr),
           ti_source := MergedStructuredAndCompatibility\<rparr>"

definition fill_from_flat_headers :: "bool \<Rightarrow> codex_turn_identity \<Rightarrow> codex_compatibility_projection \<Rightarrow> codex_turn_identity" where
  "fill_from_flat_headers structured t flat_headers =
     t\<lparr>ti_parent_thread_id := or_else (ti_parent_thread_id t) (cp_parent_thread_id flat_headers),
       ti_window_id := or_else (ti_window_id t) (cp_window_id flat_headers),
       ti_subagent_header := or_else (ti_subagent_header t) (cp_subagent_header flat_headers),
       ti_source :=
         (if structured \<and> ti_parent_thread_id t = None \<and> cp_parent_thread_id flat_headers \<noteq> None
          then MergedStructuredAndCompatibility else ti_source t)\<rparr>"

definition upgrade_trust :: "codex_turn_identity \<Rightarrow> codex_turn_identity" where
  "upgrade_trust t =
     (if ti_session_id t \<noteq> None \<and> ti_thread_id t \<noteq> None
      then if ti_parent_thread_id t \<noteq> None then t\<lparr>ti_trust := Exact\<rparr>
           else if ti_trust t = NoTrust \<or> ti_trust t = Partial then t\<lparr>ti_trust := Structured\<rparr>
           else t
      else t)"

definition merge_same_request ::
  "codex_turn_identity option \<Rightarrow> codex_turn_identity option \<Rightarrow> codex_compatibility_projection \<Rightarrow> codex_turn_identity"
where
  "merge_same_request frame structured_header flat_headers =
     (let conflicts = check_fields
            (case frame of
               Some f \<Rightarrow> (case structured_header of Some hdr \<Rightarrow> structured_checks f hdr | None \<Rightarrow> []) @ flat_header_checks f flat_headers
             | None \<Rightarrow> (case structured_header of Some hdr \<Rightarrow> flat_header_checks hdr flat_headers | None \<Rightarrow> []))
      in if conflicts \<noteq> [] then conflict_identity (or_else frame structured_header) conflicts
         else let (primary, has_structured) =
                    (case (frame, structured_header) of
                       (Some f, Some hdr) \<Rightarrow> (fill_from_header f hdr, True)
                     | (Some f, None) \<Rightarrow> (f, ti_source f \<noteq> FlatCompatibilityHeaders)
                     | (None, Some hdr) \<Rightarrow> (hdr, True)
                     | (None, None) \<Rightarrow> (default_turn_identity, False))
              in upgrade_trust
                   (if has_structured then fill_from_flat_headers True primary flat_headers
                    else if ti_source primary = FlatCompatibilityHeaders then fill_from_flat_headers False primary flat_headers
                    else if has_flat flat_headers then flat_identity flat_headers
                    else primary))"

definition enrich_from_connection :: "codex_turn_identity \<Rightarrow> codex_turn_identity option \<Rightarrow> codex_turn_identity" where
  "enrich_from_connection frame structured_header =
     (case structured_header of
        None \<Rightarrow> frame
      | Some hdr \<Rightarrow>
          frame\<lparr>ti_installation_id := or_else (ti_installation_id frame) (ti_installation_id hdr),
                ti_agent_name := or_else (ti_agent_name frame) (ti_agent_name hdr),
                ti_request_kind := or_else (ti_request_kind frame) (ti_request_kind hdr),
                ti_thread_source := or_else (ti_thread_source frame) (ti_thread_source hdr)\<rparr>)"

definition merge_connection ::
  "(string \<Rightarrow> string) \<Rightarrow> codex_turn_identity option \<Rightarrow> codex_turn_identity option \<Rightarrow> codex_compatibility_projection \<Rightarrow> codex_turn_identity"
where
  "merge_connection sha frame structured_header flat_headers =
     (case frame of
        Some f \<Rightarrow> upgrade_trust (enrich_from_connection f structured_header)
      | None \<Rightarrow>
          (case structured_header of
             Some hdr \<Rightarrow>
               (let conflicts = check_fields (flat_header_checks hdr flat_headers)
                in if conflicts \<noteq> [] then conflict_identity (Some hdr) conflicts
                   else upgrade_trust (fill_from_flat_headers True hdr flat_headers))
           | None \<Rightarrow> if has_flat flat_headers then fingerprinted_flat_identity sha flat_headers else default_turn_identity))"

definition merge_identity_sources ::
  "(string \<Rightarrow> string) \<Rightarrow> codex_turn_identity option \<Rightarrow> codex_turn_identity option \<Rightarrow> codex_compatibility_projection
     \<Rightarrow> codex_compatibility_projection \<Rightarrow> codex_metadata_header_scope \<Rightarrow> codex_turn_identity"
where
  "merge_identity_sources sha canonical structured_header flat_body flat_headers header_scope =
     (let conflicts = check_fields (case canonical of Some can \<Rightarrow> frame_checks can flat_body | None \<Rightarrow> [])
      in if conflicts \<noteq> [] then conflict_identity (or_else canonical structured_header) conflicts
         else (case header_scope of
                 SameRequest \<Rightarrow> merge_same_request (frame_identity sha canonical flat_body) structured_header flat_headers
               | ConnectionProjection \<Rightarrow> merge_connection sha (frame_identity sha canonical flat_body) structured_header flat_headers))"

definition extract_codex_turn_identity ::
  "(string \<Rightarrow> string) \<Rightarrow> (string \<Rightarrow> string + codex_turn_metadata_wire) \<Rightarrow> (json \<Rightarrow> string) \<Rightarrow> header_map \<Rightarrow> json
     \<Rightarrow> codex_metadata_header_scope \<Rightarrow> (codex_metadata_error + codex_turn_identity) option"
where
  "extract_codex_turn_identity sha decode print h body header_scope =
     (case parse_canonical_client_metadata sha decode print body of
        None \<Rightarrow> None
      | Some (Inl e) \<Rightarrow> Some (Inl e)
      | Some (Inr canonical_body) \<Rightarrow>
          (case parse_turn_metadata_header decode h of
             None \<Rightarrow> None
           | Some (Inl e) \<Rightarrow> Some (Inl e)
           | Some (Inr wire) \<Rightarrow>
               Some (sum_bind
                 (case wire of
                    Some w \<Rightarrow> map_sum id Some (normalize_wire_metadata sha w TurnMetadataHeader)
                  | None \<Rightarrow> Inr None)
                 (\<lambda>structured_header_identity.
                   Inr (merge_identity_sources sha canonical_body structured_header_identity
                     (parse_flat_body_compatibility body) (parse_flat_header_compatibility h) header_scope)))))"

section \<open>Capabilities\<close>

datatype codex_release_channel = StableChannel | Prerelease | Head | UnknownChannel

datatype codex_support_level =
  HeadObserved | StableQualified | PrereleaseQualified | BackwardCompatible | LegacyFallback | Unsupported

record codex_capability_profile =
  cap_observed_version :: "string option"
  cap_channel :: codex_release_channel
  cap_multi_agent_v2 :: bool
  cap_native_subagent_defaults :: bool
  cap_canonical_turn_metadata :: bool
  cap_thread_identity :: bool
  cap_parent_thread_identity :: bool
  cap_parent_turn_identity :: bool
  cap_root_turn_identity :: bool
  cap_context_window_identity :: bool
  cap_subagent_activity_identity :: bool
  cap_agent_status_tracking :: bool
  cap_fork_none :: bool
  cap_fork_full_history :: bool
  cap_fork_last_n_turns :: bool
  cap_support_level :: codex_support_level

definition default_capabilities :: codex_capability_profile where
  "default_capabilities =
     \<lparr>cap_observed_version = None, cap_channel = UnknownChannel, cap_multi_agent_v2 = False, cap_native_subagent_defaults = False,
      cap_canonical_turn_metadata = False, cap_thread_identity = False, cap_parent_thread_identity = False,
      cap_parent_turn_identity = False, cap_root_turn_identity = False, cap_context_window_identity = False,
      cap_subagent_activity_identity = False, cap_agent_status_tracking = False, cap_fork_none = False,
      cap_fork_full_history = False, cap_fork_last_n_turns = False, cap_support_level = Unsupported\<rparr>"

definition parse_version_number :: "string \<Rightarrow> nat option" where
  "parse_version_number s =
     (case parse_digits (case s of c # cs \<Rightarrow> if c = CHR ''+'' then cs else s | [] \<Rightarrow> []) of
        Some n \<Rightarrow> if n < 2 ^ 64 then Some n else None
      | None \<Rightarrow> None)"

function trim_start_matches :: "string \<Rightarrow> string \<Rightarrow> string" where
  "trim_start_matches p s = (if p \<noteq> [] \<and> s \<noteq> [] \<and> starts_with s p then trim_start_matches p (drop (length p) s) else s)"
  by pat_completeness auto
termination by (relation "measure (\<lambda>(p, s). length s)") auto

fun split_dots :: "string \<Rightarrow> string \<Rightarrow> string list" where
  "split_dots acc [] = [acc]"
| "split_dots acc (c # cs) = (if c = CHR ''.'' then acc # split_dots [] cs else split_dots (acc @ [c]) cs)"

definition parse_version_triplet :: "string \<Rightarrow> (nat \<times> nat \<times> nat \<times> string option) option" where
  "parse_version_triplet s =
     (let clean = trim_start_matches ''codex-cli '' (trim_start_matches ''v'' (trim s));
          ver_part = takeWhile (\<lambda>c. c \<noteq> CHR ''-'') clean;
          prerelease = (case dropWhile (\<lambda>c. c \<noteq> CHR ''-'') clean of _ # rest \<Rightarrow> Some rest | [] \<Rightarrow> None)
      in (case split_dots [] ver_part of
            a # b # c # _ \<Rightarrow>
              Option.bind (parse_version_number a) (\<lambda>major.
              Option.bind (parse_version_number b) (\<lambda>minor.
              Option.bind (parse_version_number c) (\<lambda>patch. Some (major, minor, patch, prerelease))))
          | _ \<Rightarrow> None))"

definition capabilities_of_version :: "string option \<Rightarrow> codex_capability_profile \<Rightarrow> codex_capability_profile" where
  "capabilities_of_version installed_version p =
     (case Option.bind installed_version parse_version_triplet of
        Some (major, minor, _, prerelease) \<Rightarrow>
          let p1 = p\<lparr>cap_channel := (if prerelease \<noteq> None then if 150 \<le> minor \<or> 0 < major then Head else Prerelease else StableChannel)\<rparr>
          in if (major = 0 \<and> 147 \<le> minor) \<or> 0 < major
             then p1\<lparr>cap_multi_agent_v2 := True, cap_native_subagent_defaults := True, cap_fork_none := True,
                     cap_fork_full_history := True, cap_fork_last_n_turns := True,
                     cap_agent_status_tracking := (148 \<le> minor \<or> 0 < major)\<rparr>
             else p1
      | None \<Rightarrow>
          (case installed_version of
             Some v \<Rightarrow>
               p\<lparr>cap_channel := (if contains_str v ''head'' \<or> contains_str v ''alpha'' \<or> contains_str v ''beta''
                                 then Head else UnknownChannel)\<rparr>
           | None \<Rightarrow> p))"

definition capabilities_of_identity :: "codex_turn_identity option \<Rightarrow> codex_capability_profile \<Rightarrow> codex_capability_profile" where
  "capabilities_of_identity observed_identity p =
     (case observed_identity of
        None \<Rightarrow> p
      | Some t \<Rightarrow>
          p\<lparr>cap_canonical_turn_metadata := (ti_source t = CanonicalClientMetadata \<or> cap_canonical_turn_metadata p),
            cap_thread_identity := (ti_session_id t \<noteq> None \<and> ti_thread_id t \<noteq> None \<or> cap_thread_identity p),
            cap_parent_thread_identity := (ti_parent_thread_id t \<noteq> None \<or> cap_parent_thread_identity p),
            cap_parent_turn_identity := (ti_parent_turn_id t \<noteq> None \<or> cap_parent_turn_identity p),
            cap_root_turn_identity := (ti_root_turn_id t \<noteq> None \<or> cap_root_turn_identity p),
            cap_context_window_identity := (ti_context_window_id t \<noteq> None \<or> cap_context_window_identity p),
            cap_multi_agent_v2 := (ti_subagent_kind t \<noteq> None \<or> ti_subagent_header t \<noteq> None \<or> cap_multi_agent_v2 p)\<rparr>)"

definition resolve_codex_capabilities :: "string option \<Rightarrow> codex_turn_identity option \<Rightarrow> codex_capability_profile" where
  "resolve_codex_capabilities installed_version observed_identity =
     (let p = capabilities_of_identity observed_identity
                (capabilities_of_version installed_version
                  (default_capabilities\<lparr>cap_observed_version := map_option trim installed_version\<rparr>))
      in p\<lparr>cap_support_level :=
            (if cap_context_window_identity p \<or> cap_channel p = Head then HeadObserved
             else if cap_thread_identity p \<and> cap_channel p = StableChannel then StableQualified
             else if cap_channel p = Prerelease then PrereleaseQualified
             else if cap_multi_agent_v2 p \<or> cap_thread_identity p \<or> cap_parent_thread_identity p then BackwardCompatible
             else if installed_version \<noteq> None \<or> observed_identity \<noteq> None then LegacyFallback
             else Unsupported)\<rparr>)"

section \<open>Identifiers are valid and trust is earned\<close>

definition valid_id :: "string \<Rightarrow> bool" where
  "valid_id s \<longleftrightarrow> s \<noteq> [] \<and> length s \<le> MAX_CODEX_ID_BYTES \<and> \<not> list_ex is_control (chars s)"

definition identity_ids :: "codex_turn_identity \<Rightarrow> codex_opaque_id option list" where
  "identity_ids t =
     [ti_installation_id t, ti_session_id t, ti_thread_id t, ti_turn_id t, ti_root_turn_id t, ti_parent_thread_id t,
      ti_parent_turn_id t, ti_forked_from_thread_id t, ti_window_id t, ti_context_window_id t]"

definition projection_ids :: "codex_compatibility_projection \<Rightarrow> codex_opaque_id option list" where
  "projection_ids p =
     [cp_session_id p, cp_thread_id p, cp_turn_id p, cp_parent_thread_id p, cp_parent_turn_id p, cp_root_turn_id p, cp_window_id p]"

definition valid_ids :: "codex_opaque_id option list \<Rightarrow> bool" where
  "valid_ids xs \<longleftrightarrow> list_all (pred_option valid_id) xs"

text \<open>Trust and the fields it stands for; a conflict names the fields.\<close>

definition trust_sound :: "codex_turn_identity \<Rightarrow> bool" where
  "trust_sound t =
     (case ti_trust t of
        Exact \<Rightarrow> ti_session_id t \<noteq> None \<and> ti_thread_id t \<noteq> None \<and> ti_parent_thread_id t \<noteq> None \<and> ti_conflict_fields t = []
      | Structured \<Rightarrow> ti_session_id t \<noteq> None \<and> ti_thread_id t \<noteq> None \<and> ti_parent_thread_id t = None \<and> ti_conflict_fields t = []
      | Conflict \<Rightarrow> ti_conflict_fields t \<noteq> []
      | _ \<Rightarrow> (ti_session_id t = None \<or> ti_thread_id t = None) \<and> ti_conflict_fields t = [])"

lemma parse_id_valid: "parse_codex_opaque_id field s = Inr i \<Longrightarrow> valid_id i"
  by (auto simp: parse_codex_opaque_id_def valid_id_def Let_def split: if_splits)

lemma map_sum_Inr: "map_sum id f x = Inr y \<longleftrightarrow> (\<exists>a. x = Inr a \<and> y = f a)"
  by (cases x) auto

lemma valid_ok_id: "pred_option valid_id (ok_id field s)"
  by (auto simp: ok_id_def dest: parse_id_valid split: sum.split)

lemma pred_option_bind: "(\<And>y. pred_option P (f y)) \<Longrightarrow> pred_option P (Option.bind x f)"
  by (cases x) simp_all

lemma valid_wire_id: "wire_id field v = Inr x \<Longrightarrow> pred_option valid_id x"
  by (auto simp: wire_id_def map_sum_Inr dest: parse_id_valid split: option.splits if_splits)

lemma valid_or_else: "pred_option P a \<Longrightarrow> pred_option P b \<Longrightarrow> pred_option P (or_else a b)"
  by (cases a) (simp_all add: or_else_def)

lemma or_else_None: "or_else a b = None \<longleftrightarrow> a = None \<and> b = None" "or_else a None = a" "or_else None b = b"
  by (auto simp: or_else_def split: option.splits)

lemma sum_bind_Inr: "sum_bind x f = Inr y \<longleftrightarrow> (\<exists>a. x = Inr a \<and> f a = Inr y)"
  by (cases x) auto

lemmas id_lists = valid_ids_def identity_ids_def projection_ids_def

lemma projections_valid:
  "valid_ids (projection_ids (parse_flat_body_compatibility body))"
  "valid_ids (projection_ids (parse_flat_header_compatibility h))"
  by (auto simp: id_lists parse_flat_body_compatibility_def parse_flat_header_compatibility_def empty_projection_def
      Let_def intro!: pred_option_bind valid_ok_id split: option.split)

lemma normalized_wire:
  assumes "normalize_wire_metadata sha w source = Inr t"
  shows "valid_ids (identity_ids t)" "trust_sound t" "ti_trust t \<noteq> Conflict" "length (ti_unknown_fields t) \<le> MAX_UNKNOWN_METADATA_KEYS"
    "ti_source t = source" "ti_trust t = wire_trust (ti_session_id t) (ti_thread_id t) (ti_parent_thread_id t)"
proof -
  have "list_all (pred_option valid_id) (identity_ids t) \<and>
    ti_trust t = wire_trust (ti_session_id t) (ti_thread_id t) (ti_parent_thread_id t) \<and> ti_conflict_fields t = [] \<and>
    length (ti_unknown_fields t) \<le> MAX_UNKNOWN_METADATA_KEYS \<and> ti_source t = source"
    using assms unfolding normalize_wire_metadata_def sum_bind_Inr Let_def
    by (elim exE conjE) (drule sum.inject(2) [THEN iffD1], drule sym, simp add: valid_wire_id identity_ids_def)
  then show "valid_ids (identity_ids t)" "trust_sound t" "ti_trust t \<noteq> Conflict"
    "length (ti_unknown_fields t) \<le> MAX_UNKNOWN_METADATA_KEYS" "ti_source t = source"
    "ti_trust t = wire_trust (ti_session_id t) (ti_thread_id t) (ti_parent_thread_id t)"
    by (auto simp: id_lists trust_sound_def wire_trust_def)
qed

text \<open>What the parsers hand to the merge.\<close>

definition source_ok :: "codex_turn_identity option \<Rightarrow> bool" where
  "source_ok x \<longleftrightarrow>
     pred_option (\<lambda>t. valid_ids (identity_ids t) \<and> trust_sound t \<and> ti_trust t \<noteq> Conflict \<and>
       length (ti_unknown_fields t) \<le> MAX_UNKNOWN_METADATA_KEYS) x"

definition identity_ok :: "codex_turn_identity \<Rightarrow> bool" where
  "identity_ok t \<longleftrightarrow> valid_ids (identity_ids t) \<and> trust_sound t \<and> length (ti_unknown_fields t) \<le> MAX_UNKNOWN_METADATA_KEYS"

text \<open>Between the steps of the merge trust may lag behind the fields; the last step brings it up.\<close>

definition identity_pre :: "codex_turn_identity \<Rightarrow> bool" where
  "identity_pre t \<longleftrightarrow>
     valid_ids (identity_ids t) \<and> length (ti_unknown_fields t) \<le> MAX_UNKNOWN_METADATA_KEYS \<and> ti_trust t \<noteq> Conflict \<and>
     ti_conflict_fields t = [] \<and>
     (ti_trust t \<in> {Exact, Structured} \<longrightarrow> ti_session_id t \<noteq> None \<and> ti_thread_id t \<noteq> None) \<and>
     (ti_trust t = Exact \<longrightarrow> ti_parent_thread_id t \<noteq> None)"

lemma source_pre: "source_ok (Some t) \<Longrightarrow> identity_pre t"
  by (cases "ti_trust t") (auto simp: source_ok_def identity_pre_def trust_sound_def)

lemma upgrade_trust_ok: "identity_pre t \<Longrightarrow> identity_ok (upgrade_trust t)"
  by (cases "ti_trust t") (auto simp: identity_pre_def identity_ok_def upgrade_trust_def trust_sound_def id_lists)

lemma conflict_identity_ok:
  "pred_option identity_pre x \<Longrightarrow> conflicts \<noteq> [] \<Longrightarrow> identity_ok (conflict_identity x conflicts)"
  by (cases x) (auto simp: identity_ok_def conflict_identity_def identity_pre_def trust_sound_def id_lists default_turn_identity_def)

lemma fill_pre:
  "identity_pre t \<Longrightarrow> valid_ids (projection_ids p) \<Longrightarrow> identity_pre (fill_from_flat_body t p)"
  "identity_pre t \<Longrightarrow> valid_ids (projection_ids p) \<Longrightarrow> identity_pre (fill_from_flat_headers b t p)"
  "identity_pre t \<Longrightarrow> identity_pre t' \<Longrightarrow> identity_pre (fill_from_header t t')"
  "identity_pre t \<Longrightarrow> pred_option identity_pre x \<Longrightarrow> identity_pre (enrich_from_connection t x)"
  by (auto simp: identity_pre_def id_lists valid_or_else or_else_None fill_from_flat_body_def fill_from_flat_headers_def
      fill_from_header_def enrich_from_connection_def split: option.split)

lemma flat_identity_pre:
  "valid_ids (projection_ids p) \<Longrightarrow> identity_pre (flat_identity p)"
  "valid_ids (projection_ids p) \<Longrightarrow> identity_pre (fingerprinted_flat_identity sha p)"
  "identity_pre default_turn_identity"
  by (auto simp: identity_pre_def id_lists flat_identity_def fingerprinted_flat_identity_def default_turn_identity_def)

lemma frame_pre:
  "source_ok canonical \<Longrightarrow> valid_ids (projection_ids flat_body) \<Longrightarrow> pred_option identity_pre (frame_identity sha canonical flat_body)"
  by (cases canonical) (auto simp: frame_identity_def source_pre fill_pre flat_identity_pre)

lemma or_else_pre: "pred_option P x \<Longrightarrow> pred_option P y \<Longrightarrow> pred_option P (or_else x y)"
  by (rule valid_or_else)

lemma merge_same_request_ok:
  assumes "pred_option identity_pre frame" "pred_option identity_pre hdr" "valid_ids (projection_ids flat_headers)"
  shows "identity_ok (merge_same_request frame hdr flat_headers)"
  using assms
  by (cases frame; cases hdr)
    (auto simp: merge_same_request_def Let_def or_else_None fill_pre flat_identity_pre
      intro!: upgrade_trust_ok conflict_identity_ok or_else_pre)

lemma default_identity_ok: "identity_ok default_turn_identity"
  by (simp add: identity_ok_def default_turn_identity_def id_lists trust_sound_def)

lemma merge_connection_ok:
  assumes "pred_option identity_pre frame" "pred_option identity_pre hdr" "valid_ids (projection_ids flat_headers)"
    and "cp_session_id flat_headers = None"
  shows "identity_ok (merge_connection sha frame hdr flat_headers)"
proof -
  have "identity_ok (fingerprinted_flat_identity sha flat_headers)"
    using assms(3,4) by (simp add: identity_ok_def fingerprinted_flat_identity_def flat_identity_def default_turn_identity_def
        id_lists trust_sound_def)
  then show ?thesis using assms default_identity_ok
    by (cases frame; cases hdr)
      (auto simp: merge_connection_def Let_def fill_pre intro!: upgrade_trust_ok conflict_identity_ok)
qed

lemma merge_identity_sources_ok:
  assumes "source_ok canonical" "source_ok hdr" "valid_ids (projection_ids flat_body)" "valid_ids (projection_ids flat_headers)"
    and "cp_session_id flat_headers = None"
  shows "identity_ok (merge_identity_sources sha canonical hdr flat_body flat_headers scope)"
proof -
  have pre: "pred_option identity_pre canonical" "pred_option identity_pre hdr"
    using assms(1,2) source_pre by (cases canonical; cases hdr; simp)+
  then show ?thesis
    using assms(3-) merge_same_request_ok [OF frame_pre [OF assms(1,3), of sha] pre(2) assms(4)]
      merge_connection_ok [OF frame_pre [OF assms(1,3), of sha] pre(2) assms(4,5), of sha]
    by (auto simp: merge_identity_sources_def Let_def intro!: conflict_identity_ok or_else_pre
        split: codex_metadata_header_scope.split)
qed

lemma normalized_source_ok: "normalize_wire_metadata sha w source = Inr t \<Longrightarrow> source_ok (Some t)"
  using normalized_wire [of sha w source t] by (simp add: source_ok_def)

lemma no_source_ok [simp]: "source_ok None"
  by (simp add: source_ok_def)

lemma canonical_source_ok:
  "parse_canonical_client_metadata sha decode print body = Some (Inr x) \<Longrightarrow> source_ok x"
  by (auto simp: parse_canonical_client_metadata_def sum_bind_Inr map_sum_Inr Let_def
      dest: normalized_source_ok split: option.splits json.splits if_splits)

text \<open>The identity the structured header stands for, if there is one.\<close>

definition header_names :: "(string \<Rightarrow> string) \<Rightarrow> (string \<Rightarrow> string + codex_turn_metadata_wire) \<Rightarrow> header_map \<Rightarrow> codex_turn_identity option \<Rightarrow> bool" where
  "header_names sha decode h hdr \<longleftrightarrow>
     (case parse_turn_metadata_header decode h of
        Some (Inr (Some w)) \<Rightarrow> (\<exists>x. normalize_wire_metadata sha w TurnMetadataHeader = Inr x \<and> hdr = Some x)
      | Some (Inr None) \<Rightarrow> hdr = None
      | _ \<Rightarrow> False)"

lemma header_source_ok: "header_names sha decode h hdr \<Longrightarrow> source_ok hdr"
  by (auto simp: header_names_def intro: normalized_source_ok split: option.splits sum.splits)

lemma extract_sources:
  assumes "extract_codex_turn_identity sha decode print h body scope = Some (Inr t)"
  obtains canonical hdr where "parse_canonical_client_metadata sha decode print body = Some (Inr canonical)"
    "header_names sha decode h hdr"
    "t = merge_identity_sources sha canonical hdr (parse_flat_body_compatibility body) (parse_flat_header_compatibility h) scope"
  using assms by (auto simp: extract_codex_turn_identity_def header_names_def sum_bind_Inr map_sum_Inr
      split: option.splits sum.splits)

text \<open>
  Trust below the level of a session with its thread: a structured source is believed in part when it
  names a thread or a parent, flat fields always. The first source there is decides: structured body,
  flat body, structured header, flat headers.
\<close>

definition lower_trust ::
  "codex_turn_identity option \<Rightarrow> codex_turn_identity option \<Rightarrow> codex_compatibility_projection \<Rightarrow> codex_compatibility_projection
     \<Rightarrow> codex_identity_trust"
where
  "lower_trust canonical hdr flat_body flat_headers =
     (let names_thread = (\<lambda>t. ti_thread_id t \<noteq> None \<or> ti_parent_thread_id t \<noteq> None);
          known = (case canonical of
                     Some c \<Rightarrow> names_thread c
                   | None \<Rightarrow> has_flat flat_body \<or>
                       (case hdr of Some x \<Rightarrow> names_thread x | None \<Rightarrow> has_flat flat_headers))
      in if known then Partial else NoTrust)"

definition below_session :: "codex_identity_trust \<Rightarrow> bool" where
  "below_session trust \<longleftrightarrow> trust = Partial \<or> trust = NoTrust"

lemma below_session_upgrade: "below_session (ti_trust (upgrade_trust t)) \<Longrightarrow> ti_trust (upgrade_trust t) = ti_trust t"
  by (auto simp: upgrade_trust_def below_session_def split: if_splits)

lemma source_lower:
  assumes "ti_trust t = wire_trust (ti_session_id t) (ti_thread_id t) (ti_parent_thread_id t)" "below_session (ti_trust t)"
  shows "ti_trust t = (if ti_thread_id t \<noteq> None \<or> ti_parent_thread_id t \<noteq> None then Partial else NoTrust)"
  using assms by (auto simp: wire_trust_def below_session_def split: if_splits)

lemma fill_trust [simp]:
  "ti_trust (fill_from_flat_body t p) = ti_trust t" "ti_trust (fill_from_flat_headers b t p) = ti_trust t"
  "ti_trust (fill_from_header t t') = ti_trust t" "ti_trust (enrich_from_connection t x) = ti_trust t"
  "ti_trust (flat_identity p) = Partial" "ti_trust (fingerprinted_flat_identity sha p) = Partial"
  "ti_trust default_turn_identity = NoTrust" "\<not> below_session (ti_trust (conflict_identity x cs))"
  by (auto simp: fill_from_flat_body_def fill_from_flat_headers_def fill_from_header_def enrich_from_connection_def flat_identity_def
      fingerprinted_flat_identity_def default_turn_identity_def conflict_identity_def below_session_def split: option.split)

text \<open>The source that decides.\<close>

definition primary_trust :: "codex_turn_identity option \<Rightarrow> codex_turn_identity option \<Rightarrow> codex_compatibility_projection \<Rightarrow> codex_identity_trust" where
  "primary_trust frame hdr flat_headers =
     (case frame of
        Some f \<Rightarrow> ti_trust f
      | None \<Rightarrow> (case hdr of Some x \<Rightarrow> ti_trust x | None \<Rightarrow> if has_flat flat_headers then Partial else NoTrust))"

lemma merge_same_request_trust:
  "below_session (ti_trust (merge_same_request frame hdr flat_headers)) \<Longrightarrow>
     ti_trust (merge_same_request frame hdr flat_headers) = primary_trust frame hdr flat_headers"
  by (cases frame; cases hdr)
    (auto simp: merge_same_request_def primary_trust_def Let_def default_turn_identity_def dest!: below_session_upgrade split: if_splits)

lemma merge_connection_trust:
  "below_session (ti_trust (merge_connection sha frame hdr flat_headers)) \<Longrightarrow>
     ti_trust (merge_connection sha frame hdr flat_headers) = primary_trust frame hdr flat_headers"
  by (cases frame; cases hdr)
    (auto simp: merge_connection_def primary_trust_def Let_def default_turn_identity_def dest!: below_session_upgrade split: if_splits)

lemma merge_identity_sources_trust:
  "below_session (ti_trust (merge_identity_sources sha canonical hdr flat_body flat_headers scope)) \<Longrightarrow>
     ti_trust (merge_identity_sources sha canonical hdr flat_body flat_headers scope) =
       primary_trust (frame_identity sha canonical flat_body) hdr flat_headers"
  by (auto simp: merge_identity_sources_def Let_def dest: merge_same_request_trust merge_connection_trust
      split: if_splits codex_metadata_header_scope.splits)

lemma merged_lower_trust:
  assumes "\<And>c. canonical = Some c \<Longrightarrow> ti_trust c = wire_trust (ti_session_id c) (ti_thread_id c) (ti_parent_thread_id c)"
    and "\<And>x. hdr = Some x \<Longrightarrow> ti_trust x = wire_trust (ti_session_id x) (ti_thread_id x) (ti_parent_thread_id x)"
    and "below_session (ti_trust (merge_identity_sources sha canonical hdr flat_body flat_headers scope))"
  shows "ti_trust (merge_identity_sources sha canonical hdr flat_body flat_headers scope) =
    lower_trust canonical hdr flat_body flat_headers"
proof -
  let ?t = "merge_identity_sources sha canonical hdr flat_body flat_headers scope"
  have t: "ti_trust ?t = primary_trust (frame_identity sha canonical flat_body) hdr flat_headers"
    using assms(3) by (rule merge_identity_sources_trust)
  show ?thesis
  proof (cases canonical)
    case None
    show ?thesis
    proof (cases hdr)
      case (Some x)
      with None t assms(3) source_lower [OF assms(2) [OF Some]] show ?thesis
        by (simp add: lower_trust_def primary_trust_def frame_identity_def split: if_splits)
    qed (use None t in \<open>simp add: lower_trust_def primary_trust_def frame_identity_def\<close>)
  next
    case (Some c)
    with t assms(3) source_lower [OF assms(1) [OF Some]] show ?thesis
      by (simp add: lower_trust_def primary_trust_def frame_identity_def)
  qed
qed

lemma canonical_trust:
  "parse_canonical_client_metadata sha decode print body = Some (Inr (Some c)) \<Longrightarrow>
     ti_trust c = wire_trust (ti_session_id c) (ti_thread_id c) (ti_parent_thread_id c)"
  by (auto simp: parse_canonical_client_metadata_def sum_bind_Inr map_sum_Inr Let_def
      dest: normalized_wire(6) split: option.splits json.splits if_splits)

lemma header_trust:
  "header_names sha decode h (Some x) \<Longrightarrow> ti_trust x = wire_trust (ti_session_id x) (ti_thread_id x) (ti_parent_thread_id x)"
  by (auto simp: header_names_def dest: normalized_wire(6) split: option.splits sum.splits)

text \<open>
  C30: An extracted identity is well formed, whatever headers and body came in: every identifier in it is
  non-empty, has at most 256 bytes and no control character, at most 32 unknown fields are kept, and
  the trust says which fields are there (exact: session, thread and parent; structured: session and
  thread and no parent; less: not both), and a conflict names its fields and nothing else does. Below
  the level of a session with its thread the first source there is decides between partial trust and
  none: partial when flat fields are all there is or the structured source names a thread or a parent.
\<close>

theorem extracted_identity_valid:
  assumes "extract_codex_turn_identity sha decode print h body scope = Some (Inr t)"
  shows "valid_ids (identity_ids t) \<and> trust_sound t \<and> length (ti_unknown_fields t) \<le> 32 \<and>
    (\<exists>canonical hdr. parse_canonical_client_metadata sha decode print body = Some (Inr canonical) \<and>
       header_names sha decode h hdr \<and>
       (below_session (ti_trust t) \<longrightarrow>
          ti_trust t = lower_trust canonical hdr (parse_flat_body_compatibility body) (parse_flat_header_compatibility h)))"
proof -
  from assms obtain canonical hdr where canonical: "parse_canonical_client_metadata sha decode print body = Some (Inr canonical)"
    and hdr: "header_names sha decode h hdr"
    and t: "t = merge_identity_sources sha canonical hdr (parse_flat_body_compatibility body) (parse_flat_header_compatibility h) scope"
    by (rule extract_sources)
  have "cp_session_id (parse_flat_header_compatibility h) = None"
    by (simp add: parse_flat_header_compatibility_def empty_projection_def)
  then have "identity_ok t"
    using projections_valid canonical_source_ok [OF canonical] header_source_ok [OF hdr] unfolding t
    by (intro merge_identity_sources_ok) auto
  moreover have "ti_trust t = lower_trust canonical hdr (parse_flat_body_compatibility body) (parse_flat_header_compatibility h)"
    if "below_session (ti_trust t)"
    using that canonical hdr unfolding t by (intro merged_lower_trust) (auto dest: canonical_trust header_trust)
  ultimately show ?thesis using canonical hdr by (auto simp: identity_ok_def MAX_UNKNOWN_METADATA_KEYS_def)
qed

section \<open>Headers of a connection\<close>

text \<open>
  C21: On a persistent connection the headers of the handshake cannot change who a frame belongs to: for a
  frame that carries an identity of its own, two sets of headers lead to identities that differ at most
  in the installation, the agent name, the request kind and the thread source.
\<close>

theorem connection_headers_isolated:
  assumes "extract_codex_turn_identity sha decode print h body ConnectionProjection = Some (Inr t)"
    and "extract_codex_turn_identity sha decode print h' body ConnectionProjection = Some (Inr t')"
    and "has_flat (parse_flat_body_compatibility body) \<or>
      (\<exists>can. parse_canonical_client_metadata sha decode print body = Some (Inr (Some can)))"
  shows "t' = t\<lparr>ti_installation_id := ti_installation_id t', ti_agent_name := ti_agent_name t',
    ti_request_kind := ti_request_kind t', ti_thread_source := ti_thread_source t'\<rparr>"
proof -
  obtain canonical hdr hdr' where can: "parse_canonical_client_metadata sha decode print body = Some (Inr canonical)"
    and t: "t = merge_identity_sources sha canonical hdr (parse_flat_body_compatibility body)
        (parse_flat_header_compatibility h) ConnectionProjection"
    and t': "t' = merge_identity_sources sha canonical hdr' (parse_flat_body_compatibility body)
        (parse_flat_header_compatibility h') ConnectionProjection"
    using extract_sources [OF assms(1)] extract_sources [OF assms(2)] by (metis option.inject sum.inject(2))
  obtain f where f: "frame_identity sha canonical (parse_flat_body_compatibility body) = Some f"
    using assms(3) can by (cases canonical) (auto simp: frame_identity_def)
  have enrich: "upgrade_trust (enrich_from_connection f x) =
      (upgrade_trust f)\<lparr>ti_installation_id := ti_installation_id (enrich_from_connection f x),
        ti_agent_name := ti_agent_name (enrich_from_connection f x), ti_request_kind := ti_request_kind (enrich_from_connection f x),
        ti_thread_source := ti_thread_source (enrich_from_connection f x)\<rparr>" for x
    by (cases x) (simp_all add: enrich_from_connection_def upgrade_trust_def)
  show ?thesis
  proof (cases "check_fields (case canonical of Some can \<Rightarrow> frame_checks can (parse_flat_body_compatibility body) | None \<Rightarrow> []) = []")
    case True
    then have "t = upgrade_trust (enrich_from_connection f hdr)" "t' = upgrade_trust (enrich_from_connection f hdr')"
      by (simp_all add: t t' merge_identity_sources_def merge_connection_def f)
    then show ?thesis using enrich [of hdr] enrich [of hdr'] by simp
  next
    case False
    then obtain c where "canonical = Some c" by (cases canonical) (auto simp: check_fields_def)
    with False have "t' = t" by (simp add: t t' merge_identity_sources_def or_else_def Let_def)
    then show ?thesis by simp
  qed
qed

section \<open>Agreement of the sources\<close>

definition critical_fields ::
  "((codex_turn_identity \<Rightarrow> codex_opaque_id option) \<times> (codex_compatibility_projection \<Rightarrow> codex_opaque_id option)) list"
where
  "critical_fields =
     [(ti_session_id, cp_session_id), (ti_thread_id, cp_thread_id), (ti_turn_id, cp_turn_id),
      (ti_parent_thread_id, cp_parent_thread_id), (ti_parent_turn_id, cp_parent_turn_id),
      (ti_root_turn_id, cp_root_turn_id), (ti_window_id, cp_window_id)]"

definition agree :: "'a option \<Rightarrow> 'a option \<Rightarrow> bool" where
  "agree a b \<longleftrightarrow> (\<forall>x y. a = Some x \<longrightarrow> b = Some y \<longrightarrow> x = y)"

lemma check_fold:
  "fold (\<lambda>(field_name, a, b). check_field_conflict field_name a b) checks acc = [] \<longleftrightarrow>
     acc = [] \<and> (\<forall>(field_name, a, b) \<in> set checks. agree a b)"
  by (induction checks arbitrary: acc)
    (auto simp: check_field_conflict_def agree_def split: option.splits if_splits)

lemma check_fields_Nil: "check_fields checks = [] \<longleftrightarrow> (\<forall>(field_name, a, b) \<in> set checks. agree a b)"
  by (simp add: check_fields_def check_fold)

lemma or_else_agree:
  "agree a b \<Longrightarrow> a = Some v \<or> b = Some v \<Longrightarrow> or_else a b = Some v"
  by (cases a; cases b) (auto simp: agree_def or_else_def)

lemma frame_field:
  assumes "(field, flat) \<in> set critical_fields"
  shows "Option.bind (frame_identity sha canonical flat_body) field = or_else (Option.bind canonical field) (flat flat_body)"
proof (cases canonical)
  case None
  then show ?thesis using assms
    by (auto simp: frame_identity_def critical_fields_def fingerprinted_flat_identity_def flat_identity_def has_flat_def or_else_def
        split: option.split)
qed (use assms in \<open>auto simp: frame_identity_def critical_fields_def fill_from_flat_body_def\<close>)

lemma fill_field:
  assumes "(field, flat) \<in> set critical_fields"
  shows "field (fill_from_header t hdr) = or_else (field t) (field hdr)"
    and "field t = Some v \<Longrightarrow> field (fill_from_flat_headers b t p) = Some v"
    and "field (upgrade_trust t) = field t"
    and "field default_turn_identity = None"
  using assms
  by (auto simp: critical_fields_def fill_from_header_def fill_from_flat_headers_def upgrade_trust_def default_turn_identity_def or_else_def)

lemma critical_checks:
  assumes "(field, flat) \<in> set critical_fields"
  shows "check_fields (frame_checks can flat_body) = [] \<Longrightarrow> agree (field can) (flat flat_body)"
    and "check_fields (structured_checks f hdr @ flat_header_checks f flat_headers) = [] \<Longrightarrow> agree (field f) (field hdr)"
  using assms by (auto simp: critical_fields_def check_fields_Nil frame_checks_def structured_checks_def)

lemma merge_same_request_field:
  assumes crit: "(field, flat) \<in> set critical_fields" and ok: "ti_trust (merge_same_request frame hdr flat_headers) \<noteq> Conflict"
    and v: "Option.bind frame field = Some v \<or> Option.bind hdr field = Some v"
  shows "field (merge_same_request frame hdr flat_headers) = Some v"
proof -
  note no_conflict = ok [unfolded merge_same_request_def Let_def]
  show ?thesis
  proof (cases frame)
    case None
    then obtain x where x: "hdr = Some x" "field x = Some v" using v by (cases hdr) auto
    then show ?thesis using no_conflict None fill_field(2,3) [OF crit]
      by (auto simp: merge_same_request_def conflict_identity_def or_else_def split: if_splits)
  next
    case (Some f)
    show ?thesis
    proof (cases hdr)
      case None
      then show ?thesis using no_conflict Some v fill_field(2,3) [OF crit]
        by (auto simp: merge_same_request_def conflict_identity_def or_else_def split: if_splits)
    next
      case (Some x)
      have checks: "check_fields (structured_checks f x @ flat_header_checks f flat_headers) = []"
        using no_conflict \<open>frame = Some f\<close> Some by (auto simp: conflict_identity_def or_else_def split: if_splits)
      then have "or_else (field f) (field x) = Some v"
        using or_else_agree [OF critical_checks(2) [OF crit checks]] v \<open>frame = Some f\<close> Some by simp
      then show ?thesis using checks \<open>frame = Some f\<close> Some fill_field [OF crit]
        by (simp add: merge_same_request_def Let_def)
    qed
  qed
qed

text \<open>The two fields that also come as headers of their own.\<close>

definition header_fields ::
  "((codex_turn_identity \<Rightarrow> codex_opaque_id option) \<times> (codex_compatibility_projection \<Rightarrow> codex_opaque_id option)) list"
where
  "header_fields = [(ti_parent_thread_id, cp_parent_thread_id), (ti_window_id, cp_window_id)]"

text \<open>
  The flat header is looked at beside the others: nothing in the body, or a body that names the field
  itself, or no value of it in the structured header.
\<close>

definition header_compared ::
  "codex_turn_identity option \<Rightarrow> codex_turn_identity option \<Rightarrow> codex_compatibility_projection \<Rightarrow>
     (codex_turn_identity \<Rightarrow> codex_opaque_id option) \<Rightarrow> (codex_compatibility_projection \<Rightarrow> codex_opaque_id option) \<Rightarrow> bool"
where
  "header_compared canonical hdr flat_body field flat \<longleftrightarrow>
     canonical = None \<and> \<not> has_flat flat_body \<or> Option.bind canonical field \<noteq> None \<or> flat flat_body \<noteq> None \<or>
     Option.bind hdr field = None"

lemma header_field_critical: "(field, flat) \<in> set header_fields \<Longrightarrow> (field, flat) \<in> set critical_fields"
  by (auto simp: header_fields_def critical_fields_def)

lemma fill_header_field:
  assumes "(field, flat) \<in> set header_fields"
  shows "field (fill_from_flat_headers b t p) = or_else (field t) (flat p)" "field (flat_identity p) = flat p"
    "check_fields (flat_header_checks t p) = [] \<Longrightarrow> flat p = Some v \<Longrightarrow> or_else (field t) (Some v) = Some v"
    "check_fields (xs @ flat_header_checks t p) = [] \<Longrightarrow> agree (field t) (flat p)"
  using assms
  by (auto simp: header_fields_def fill_from_flat_headers_def flat_identity_def check_fields_Nil flat_header_checks_def or_else_agree)

lemma merge_same_request_header_field:
  assumes crit: "(field, flat) \<in> set header_fields" and ok: "ti_trust (merge_same_request frame hdr flat_headers) \<noteq> Conflict"
    and v: "flat flat_headers = Some v" and seen: "frame = None \<or> Option.bind frame field \<noteq> None \<or> Option.bind hdr field = None"
  shows "field (merge_same_request frame hdr flat_headers) = Some v"
proof -
  note no_conflict = ok [unfolded merge_same_request_def Let_def]
  note fields = fill_header_field [OF crit] fill_field [OF header_field_critical [OF crit]]
  have flat: "has_flat flat_headers" using crit v by (auto simp: header_fields_def has_flat_def)
  show ?thesis
  proof (cases frame)
    case None
    with no_conflict v flat show ?thesis
      by (cases hdr) (auto simp: merge_same_request_def conflict_identity_def fields default_turn_identity_def split: if_splits)
  next
    case (Some f)
    show ?thesis
    proof (cases hdr)
      case None
      with Some no_conflict v flat show ?thesis
        by (auto simp: merge_same_request_def conflict_identity_def fields split: if_splits)
    next
      case (Some x)
      have checks: "check_fields (structured_checks f x @ flat_header_checks f flat_headers) = []"
        using no_conflict \<open>frame = Some f\<close> Some by (auto simp: conflict_identity_def split: if_splits)
      have "or_else (or_else (field f) (field x)) (flat flat_headers) = Some v"
        using fields(4) [OF checks] v seen \<open>frame = Some f\<close> Some by (auto simp: or_else_def agree_def split: option.splits)
      then show ?thesis using checks \<open>frame = Some f\<close> Some
        by (simp add: merge_same_request_def Let_def fields)
    qed
  qed
qed

text \<open>
  C20: An identity extracted from one request that is not marked as a conflict carries, in each of the seven
  fields of the agent graph, the value of every one of these sources that has the field: the structured
  metadata of the body, its flat fields and the structured header. The parent and the window, which
  also come as flat headers, have the value of that header too, unless the body names something else,
  but not this field, and the structured header names it.
\<close>

theorem accepted_identity_agrees:
  assumes "(field, flat) \<in> set critical_fields"
    and "ti_trust (merge_identity_sources sha canonical hdr flat_body flat_headers SameRequest) \<noteq> Conflict"
    and "Option.bind canonical field = Some v \<or> flat flat_body = Some v \<or> Option.bind hdr field = Some v \<or>
      (field, flat) \<in> set header_fields \<and> flat flat_headers = Some v \<and> header_compared canonical hdr flat_body field flat"
  shows "field (merge_identity_sources sha canonical hdr flat_body flat_headers SameRequest) = Some v"
proof -
  have checks: "check_fields (case canonical of Some can \<Rightarrow> frame_checks can flat_body | None \<Rightarrow> []) = []"
    using assms(2) by (auto simp: merge_identity_sources_def conflict_identity_def Let_def split: if_splits)
  then have merged: "merge_identity_sources sha canonical hdr flat_body flat_headers SameRequest =
      merge_same_request (frame_identity sha canonical flat_body) hdr flat_headers"
    by (simp add: merge_identity_sources_def)
  have agree: "agree (Option.bind canonical field) (flat flat_body)"
    using checks critical_checks(1) [OF assms(1)] by (cases canonical) (auto simp: agree_def)
  consider "Option.bind canonical field = Some v \<or> flat flat_body = Some v" | "Option.bind hdr field = Some v" |
    "(field, flat) \<in> set header_fields" "flat flat_headers = Some v" "header_compared canonical hdr flat_body field flat"
    using assms(3) by blast
  then show ?thesis
  proof cases
    case 1
    with agree have "Option.bind (frame_identity sha canonical flat_body) field = Some v"
      unfolding frame_field [OF assms(1)] by (rule or_else_agree)
    then show ?thesis unfolding merged using merge_same_request_field [OF assms(1) assms(2) [unfolded merged]] by blast
  next
    case 2
    then show ?thesis unfolding merged using merge_same_request_field [OF assms(1) assms(2) [unfolded merged]] by blast
  next
    case 3
    then have "frame_identity sha canonical flat_body = None \<or>
        Option.bind (frame_identity sha canonical flat_body) field \<noteq> None \<or> Option.bind hdr field = None"
      unfolding frame_field [OF assms(1)] by (auto simp: header_compared_def frame_identity_def or_else_None)
    then show ?thesis
      unfolding merged by (rule merge_same_request_header_field [OF 3(1) assms(2) [unfolded merged] 3(2)])
  qed
qed

text \<open>
  The flat headers are compared with the structured header only if the body carries nothing: a turn id in
  the body hides that the two headers name different parents, and the structured one wins.
\<close>

definition parent_header :: "string \<Rightarrow> codex_turn_identity" where
  "parent_header parent = default_turn_identity\<lparr>ti_parent_thread_id := Some parent, ti_source := TurnMetadataHeader, ti_trust := Partial\<rparr>"

lemmas merge_eval =
  merge_identity_sources_def merge_same_request_def frame_identity_def has_flat_def empty_projection_def
  parent_header_def check_fields_def check_field_conflict_def structured_checks_def flat_header_checks_def conflict_identity_def
  fingerprinted_flat_identity_def flat_identity_def fill_from_header_def fill_from_flat_headers_def upgrade_trust_def
  default_turn_identity_def or_else_def

lemma frame_hides_header_conflict:
  "ti_trust (merge_identity_sources sha None (Some (parent_header ''a'')) empty_projection
     (empty_projection\<lparr>cp_parent_thread_id := Some ''b''\<rparr>) SameRequest) = Conflict"
  "ti_trust (merge_identity_sources sha None (Some (parent_header ''a'')) (empty_projection\<lparr>cp_turn_id := Some ''t''\<rparr>)
     (empty_projection\<lparr>cp_parent_thread_id := Some ''b''\<rparr>) SameRequest) = Partial"
  "ti_parent_thread_id (merge_identity_sources sha None (Some (parent_header ''a'')) (empty_projection\<lparr>cp_turn_id := Some ''t''\<rparr>)
     (empty_projection\<lparr>cp_parent_thread_id := Some ''b''\<rparr>) SameRequest) = Some ''a''"
  by (simp_all add: merge_eval)

text \<open>An error text with a character of two bytes across byte 128 makes the slice panic.\<close>

lemma error_reason_panics: "bounded_error_reason (replicate 127 (CHR ''a'') @ [CHR 0xC3, CHR 0xA9]) = None"
  by (simp add: bounded_error_reason_def is_char_boundary_def nth_append byte_val_def)

lemma unsupported_iff_nothing_observed:
  "cap_support_level (resolve_codex_capabilities version t) = Unsupported \<longleftrightarrow> version = None \<and> t = None"
  by (auto simp: resolve_codex_capabilities_def capabilities_of_version_def capabilities_of_identity_def default_capabilities_def Let_def)

section \<open>Examples\<close>

definition sample_headers :: "string \<Rightarrow> header_map" where
  "sample_headers parent =
     \<lparr>hm_get = (\<lambda>name. if name = X_CODEX_PARENT_THREAD_ID then Some parent else None), hm_to_str = Some\<rparr>"

definition sample_frame :: json where
  "sample_frame = JObject [(''client_metadata'', JObject [(''session_id'', JString '' s ''), (''thread_id'', JString ''t'')])]"

definition no_wire :: "string \<Rightarrow> string + codex_turn_metadata_wire" where
  "no_wire s = Inl ''expected value''"

lemma sample_frame_parsed:
  "parse_canonical_client_metadata id no_wire (\<lambda>_. []) sample_frame = Some (Inr None)"
  "parse_turn_metadata_header no_wire (sample_headers p) = Some (Inr None)"
  "cp_session_id (parse_flat_body_compatibility sample_frame) = Some ''s''"
  "cp_thread_id (parse_flat_body_compatibility sample_frame) = Some ''t''"
  by code_simp+

theorem extracted_identity_valid_witness:
  "\<exists>t. extract_codex_turn_identity id no_wire (\<lambda>_. []) (sample_headers ''p'') sample_frame SameRequest = Some (Inr t) \<and>
     trust_sound t \<and> valid_ids (identity_ids t)"
proof -
  obtain t where t: "extract_codex_turn_identity id no_wire (\<lambda>_. []) (sample_headers ''p'') sample_frame SameRequest = Some (Inr t)"
    by (simp add: extract_codex_turn_identity_def sample_frame_parsed)
  from extracted_identity_valid [OF t] t show ?thesis by blast
qed

theorem connection_headers_isolated_witness:
  "\<exists>t t'. extract_codex_turn_identity id no_wire (\<lambda>_. []) (sample_headers ''p'') sample_frame ConnectionProjection = Some (Inr t) \<and>
     extract_codex_turn_identity id no_wire (\<lambda>_. []) (sample_headers ''q'') sample_frame ConnectionProjection = Some (Inr t') \<and>
     ti_parent_thread_id t = ti_parent_thread_id t'"
proof -
  have flat: "has_flat (parse_flat_body_compatibility sample_frame)" by (simp add: has_flat_def sample_frame_parsed)
  obtain t t' where t: "extract_codex_turn_identity id no_wire (\<lambda>_. []) (sample_headers ''p'') sample_frame ConnectionProjection = Some (Inr t)"
    and t': "extract_codex_turn_identity id no_wire (\<lambda>_. []) (sample_headers ''q'') sample_frame ConnectionProjection = Some (Inr t')"
    by (simp add: extract_codex_turn_identity_def sample_frame_parsed)
  have "t' = t\<lparr>ti_installation_id := ti_installation_id t', ti_agent_name := ti_agent_name t',
      ti_request_kind := ti_request_kind t', ti_thread_source := ti_thread_source t'\<rparr>"
    using connection_headers_isolated [OF t t'] flat by blast
  then have "ti_parent_thread_id t' = ti_parent_thread_id t" by (metis codex_turn_identity.select_convs codex_turn_identity.surjective
      codex_turn_identity.update_convs)
  with t t' show ?thesis by metis
qed

theorem accepted_identity_agrees_witness:
  "ti_turn_id (merge_identity_sources id None (Some (parent_header ''a'')) (empty_projection\<lparr>cp_turn_id := Some ''t''\<rparr>)
     empty_projection SameRequest) = Some ''t''"
proof (rule accepted_identity_agrees [where flat = cp_turn_id])
  show "(ti_turn_id, cp_turn_id) \<in> set critical_fields" by (simp add: critical_fields_def)
  show "ti_trust (merge_identity_sources id None (Some (parent_header ''a'')) (empty_projection\<lparr>cp_turn_id := Some ''t''\<rparr>)
      empty_projection SameRequest) \<noteq> Conflict"
    by (simp add: merge_eval)
qed (simp add: empty_projection_def)

end
