(* ===== verification/Official_Replay.thy ===== *)
theory Official_Replay
  imports History Subagent_Graph Codex_Metadata
begin

text \<open>
  The volatile cache of the official realm (\<open>official_replay.rs\<close>): the wire history of recent responses,
  which only the account that produced it may get back, and the routing metadata of recent responses.
  Instants are numbers of nanoseconds on one clock, the JSON encoder of an entry is a function that may
  fail, a poisoned lock is not modelled.
\<close>

section \<open>Request metadata\<close>

record official_cache_affinity =
  ca_session_id :: "string option"
  ca_session_id_legacy :: "string option"

record official_socket_affinity =
  sa_account_hash :: string
  sa_turn_in_progress :: bool
  sa_input_tokens :: u64
  sa_quota_exhausted :: bool

record request_metadata =
  rm_official_cache_affinity :: official_cache_affinity
  rm_request_id :: string
  rm_received_at_ms :: u64
  rm_review_run_id :: "string option"
  rm_review_role :: "string option"
  rm_guardian_dispatch :: bool
  rm_primary_failure_reason :: "string option"
  rm_connection_id :: "string option"
  rm_official_socket_affinity :: "official_socket_affinity option"
  rm_codex_identity :: "codex_turn_identity option"
  rm_codex_capabilities :: "codex_capability_profile option"
  rm_force_portable_official_handoff :: bool
  rm_review_official_account_id :: "string option"

definition hash_account :: "(string \<Rightarrow> string) \<Rightarrow> string \<Rightarrow> string" where
  "hash_account sha account_id = sha account_id"

definition is_account :: "(string \<Rightarrow> string) \<Rightarrow> official_socket_affinity \<Rightarrow> string \<Rightarrow> bool" where
  "is_account sha a account_id \<longleftrightarrow> sa_account_hash a = hash_account sha account_id"

definition metadata_thread_key :: "request_metadata \<Rightarrow> codex_thread_key option" where
  "metadata_thread_key m =
     (case rm_codex_identity m of
        None \<Rightarrow> None
      | Some identity \<Rightarrow>
          if ti_trust identity = Conflict then None
          else case ti_session_id identity of
                 None \<Rightarrow> None
               | Some session_id \<Rightarrow>
                   (case ti_thread_id identity of
                      None \<Rightarrow> None
                    | Some thread_id \<Rightarrow> Some \<lparr>tk_session_id = session_id, tk_thread_id = thread_id\<rparr>))"

definition has_exact_codex_parent :: "request_metadata \<Rightarrow> bool" where
  "has_exact_codex_parent m =
     (case rm_codex_identity m of
        None \<Rightarrow> False
      | Some identity \<Rightarrow>
          (ti_trust identity = Exact \<or> ti_trust identity = Structured) \<and> ti_thread_id identity \<noteq> None \<and>
          ti_parent_thread_id identity \<noteq> None \<and> ti_trust identity \<noteq> Conflict)"

definition codex_identity_conflicted :: "request_metadata \<Rightarrow> bool" where
  "codex_identity_conflicted m =
     (case rm_codex_identity m of Some identity \<Rightarrow> ti_trust identity = Conflict | None \<Rightarrow> False)"

section \<open>The cache\<close>

definition MAX_BYTES :: nat where
  "MAX_BYTES = 32 * 1024 * 1024"

definition MAX_ENTRIES :: nat where
  "MAX_ENTRIES = 256"

definition MAX_CONTEXTS :: nat where
  "MAX_CONTEXTS = 1024"

definition seconds :: "nat \<Rightarrow> nat" where
  "seconds n = n * 1000000000"

definition REPLAY_TTL :: nat where
  "REPLAY_TTL = seconds (20 * 60)"

definition CONTEXT_TTL :: nat where
  "CONTEXT_TTL = seconds 7200"

record replay_snapshot =
  sn_entry :: history_entry
  sn_bytes :: nat
  sn_created :: nat

record routing_context =
  cc_response_id :: string
  cc_route :: string
  cc_metadata :: request_metadata
  cc_created :: nat

record official_replay_cache =
  oc_snapshots :: "replay_snapshot list"
  oc_contexts :: "routing_context list"

definition new_cache :: official_replay_cache where
  "new_cache = \<lparr>oc_snapshots = [], oc_contexts = []\<rparr>"

definition elapsed :: "nat \<Rightarrow> nat \<Rightarrow> nat" where
  "elapsed now created = now - created"

fun pop_contexts :: "routing_context list \<Rightarrow> routing_context list" where
  "pop_contexts [] = []"
| "pop_contexts (x # xs) = (if MAX_CONTEXTS \<le> length (x # xs) then pop_contexts xs else x # xs)"

definition remember_context ::
  "nat \<Rightarrow> string \<Rightarrow> string \<Rightarrow> request_metadata \<Rightarrow> official_replay_cache \<Rightarrow> official_replay_cache"
where
  "remember_context now i route metadata c =
     (let kept = filter (\<lambda>x. elapsed now (cc_created x) < CONTEXT_TTL \<and> \<not> (cc_response_id x = i \<and> cc_route x = route)) (oc_contexts c)
      in c\<lparr>oc_contexts := pop_contexts kept @
             [\<lparr>cc_response_id = i, cc_route = route, cc_metadata = metadata, cc_created = now\<rparr>]\<rparr>)"

definition live_contexts :: "nat \<Rightarrow> official_replay_cache \<Rightarrow> routing_context list" where
  "live_contexts now c = filter (\<lambda>x. elapsed now (cc_created x) < CONTEXT_TTL) (oc_contexts c)"

definition continuation_context ::
  "nat \<Rightarrow> string \<Rightarrow> string \<Rightarrow> official_replay_cache \<Rightarrow> request_metadata option \<times> official_replay_cache"
where
  "continuation_context now i route c =
     (map_option cc_metadata (find (\<lambda>x. cc_response_id x = i \<and> cc_route x = route) (rev (live_contexts now c))),
      c\<lparr>oc_contexts := live_contexts now c\<rparr>)"

definition thread_context ::
  "nat \<Rightarrow> codex_thread_key \<Rightarrow> string \<Rightarrow> official_replay_cache \<Rightarrow> request_metadata option \<times> official_replay_cache"
where
  "thread_context now key route c =
     (map_option cc_metadata
        (find (\<lambda>x. cc_route x = route \<and> metadata_thread_key (cc_metadata x) = Some key) (rev (live_contexts now c))),
      c\<lparr>oc_contexts := live_contexts now c\<rparr>)"

definition get_snapshot ::
  "nat \<Rightarrow> string \<Rightarrow> string \<Rightarrow> string option \<Rightarrow> official_replay_cache \<Rightarrow> history_entry option \<times> official_replay_cache"
where
  "get_snapshot now i route realm c =
     (case realm of
        None \<Rightarrow> (None, c)
      | Some r \<Rightarrow>
          let live = filter (\<lambda>s. elapsed now (sn_created s) < REPLAY_TTL) (oc_snapshots c)
          in (map_option sn_entry
                (find (\<lambda>s. he_response_id (sn_entry s) = i \<and> he_route_id (sn_entry s) = route \<and>
                   he_continuation_realm (sn_entry s) = Some r) (rev live)),
              c\<lparr>oc_snapshots := live\<rparr>))"

definition official_entry :: "int \<Rightarrow> json \<Rightarrow> json \<Rightarrow> string \<Rightarrow> string \<Rightarrow> string \<Rightarrow> history_entry" where
  "official_entry unix_secs body response route realm i =
     \<lparr>he_response_id = i, he_previous_response_id = None, he_route_id = route, he_continuation_realm = Some realm,
      he_input_items = request_input_items body,
      he_output_items = (case get_array response ''output'' of Some xs \<Rightarrow> xs | None \<Rightarrow> []),
      he_created_at = unix_secs\<rparr>"

lemma official_entry_simps [simp]:
  "he_response_id (official_entry unix_secs body response route realm i) = i"
  "he_route_id (official_entry unix_secs body response route realm i) = route"
  "he_continuation_realm (official_entry unix_secs body response route realm i) = Some realm"
  by (simp_all add: official_entry_def)

fun evict_snapshots :: "nat \<Rightarrow> nat \<Rightarrow> replay_snapshot list \<Rightarrow> replay_snapshot list" where
  "evict_snapshots bytes total_bytes [] = []"
| "evict_snapshots bytes total_bytes (oldest # entries) =
     (if MAX_ENTRIES \<le> length (oldest # entries) \<or> MAX_BYTES < total_bytes + bytes
      then evict_snapshots bytes (total_bytes - sn_bytes oldest) entries
      else oldest # entries)"

definition record_snapshot ::
  "(history_entry \<Rightarrow> string option) \<Rightarrow> nat \<Rightarrow> int \<Rightarrow> json \<Rightarrow> json \<Rightarrow> string \<Rightarrow> string option
     \<Rightarrow> official_replay_cache \<Rightarrow> official_replay_cache"
where
  "record_snapshot encode now unix_secs body response route realm c =
     (case (realm, get_str response ''id'') of
        (Some r, Some i) \<Rightarrow>
          (let entry = official_entry unix_secs body response route r i in
           case encode entry of
             None \<Rightarrow> c
           | Some encoded \<Rightarrow>
               let bytes = length encoded in
               if MAX_BYTES < bytes then c
               else let kept = filter (\<lambda>s. elapsed now (sn_created s) < REPLAY_TTL \<and>
                          \<not> (he_response_id (sn_entry s) = i \<and> he_continuation_realm (sn_entry s) = Some r)) (oc_snapshots c)
                    in c\<lparr>oc_snapshots := evict_snapshots bytes (sum_list (map sn_bytes kept)) kept @
                           [\<lparr>sn_entry = entry, sn_bytes = bytes, sn_created = now\<rparr>]\<rparr>)
      | _ \<Rightarrow> c)"

datatype official_op =
    ORecord nat int json json string "string option"
  | OGet nat string string "string option"
  | ORemember nat string string request_metadata
  | OContinuation nat string string
  | OThread nat codex_thread_key string

fun official_step :: "(history_entry \<Rightarrow> string option) \<Rightarrow> official_op \<Rightarrow> official_replay_cache \<Rightarrow> official_replay_cache" where
  "official_step encode (ORecord now unix_secs body response route realm) c =
     record_snapshot encode now unix_secs body response route realm c"
| "official_step encode (OGet now i route realm) c = snd (get_snapshot now i route realm c)"
| "official_step encode (ORemember now i route metadata) c = remember_context now i route metadata c"
| "official_step encode (OContinuation now i route) c = snd (continuation_context now i route c)"
| "official_step encode (OThread now key route) c = snd (thread_context now key route c)"

section \<open>Bounds\<close>

definition bytes_of :: "replay_snapshot list \<Rightarrow> nat" where
  "bytes_of ss = sum_list (map sn_bytes ss)"

lemma bytes_of_simps [simp]: "bytes_of [] = 0" "bytes_of (s # ss) = sn_bytes s + bytes_of ss" "bytes_of (xs @ ys) = bytes_of xs + bytes_of ys"
  by (simp_all add: bytes_of_def)

lemma bytes_of_filter: "bytes_of (filter P ss) \<le> bytes_of ss"
  by (induction ss) auto

text \<open>The eviction drops the oldest entries until there is room for the new one, and no more.\<close>

lemma evict_snapshots_fits:
  "bytes \<le> MAX_BYTES \<Longrightarrow>
   length (evict_snapshots bytes (bytes_of ss) ss) < MAX_ENTRIES \<and> bytes_of (evict_snapshots bytes (bytes_of ss) ss) + bytes \<le> MAX_BYTES"
  by (induction ss) (auto simp: MAX_ENTRIES_def)

lemma evict_snapshots_subseq: "subseq (evict_snapshots bytes n ss) ss"
  by (induction ss arbitrary: n) auto

lemma evict_snapshots_keeps:
  "length zs < MAX_ENTRIES \<Longrightarrow> bytes_of zs + bytes \<le> MAX_BYTES \<Longrightarrow>
   \<exists>ys'. evict_snapshots bytes (bytes_of (ys @ zs)) (ys @ zs) = ys' @ zs \<and> set ys' \<subseteq> set ys"
proof (induction ys)
  case Nil
  then show ?case by (cases zs) simp_all
qed auto

lemma length_pop_contexts: "length (pop_contexts xs) < MAX_CONTEXTS"
  by (induction xs) (auto simp: MAX_CONTEXTS_def)

definition cache_bounded :: "official_replay_cache \<Rightarrow> bool" where
  "cache_bounded c \<longleftrightarrow>
     length (oc_snapshots c) \<le> MAX_ENTRIES \<and> bytes_of (oc_snapshots c) \<le> MAX_BYTES \<and> length (oc_contexts c) \<le> MAX_CONTEXTS"

text \<open>The four cases of an operation on the snapshots.\<close>

lemma record_snapshot_cases:
  obtains "record_snapshot encode now unix_secs body response route realm c = c"
  | r i encoded where "realm = Some r" "get_str response ''id'' = Some i"
      "encode (official_entry unix_secs body response route r i) = Some encoded" "length encoded \<le> MAX_BYTES"
      "record_snapshot encode now unix_secs body response route realm c =
         (let kept = filter (\<lambda>s. elapsed now (sn_created s) < REPLAY_TTL \<and>
            \<not> (he_response_id (sn_entry s) = i \<and> he_continuation_realm (sn_entry s) = Some r)) (oc_snapshots c)
          in c\<lparr>oc_snapshots := evict_snapshots (length encoded) (bytes_of kept) kept @
             [\<lparr>sn_entry = official_entry unix_secs body response route r i, sn_bytes = length encoded, sn_created = now\<rparr>]\<rparr>)"
proof -
  have "record_snapshot encode now unix_secs body response route realm c = c \<or> (\<exists>r i encoded. realm = Some r \<and>
      get_str response ''id'' = Some i \<and> encode (official_entry unix_secs body response route r i) = Some encoded \<and>
      length encoded \<le> MAX_BYTES \<and> record_snapshot encode now unix_secs body response route realm c =
         (let kept = filter (\<lambda>s. elapsed now (sn_created s) < REPLAY_TTL \<and>
            \<not> (he_response_id (sn_entry s) = i \<and> he_continuation_realm (sn_entry s) = Some r)) (oc_snapshots c)
          in c\<lparr>oc_snapshots := evict_snapshots (length encoded) (bytes_of kept) kept @
             [\<lparr>sn_entry = official_entry unix_secs body response route r i, sn_bytes = length encoded, sn_created = now\<rparr>]\<rparr>))"
    by (auto simp: record_snapshot_def bytes_of_def Let_def split: option.split)
  then show thesis using that by blast
qed

lemma cache_bounded_step: "cache_bounded c \<Longrightarrow> cache_bounded (official_step encode x c)"
proof (cases x)
  case (ORecord now unix_secs body response route realm)
  assume "cache_bounded c"
  then show ?thesis unfolding ORecord official_step.simps
  proof (cases rule: record_snapshot_cases [of encode now unix_secs body response route realm c])
    case (2 r i encoded)
    with \<open>cache_bounded c\<close> evict_snapshots_fits [OF 2(4)]
    show "cache_bounded (record_snapshot encode now unix_secs body response route realm c)"
      by (simp add: cache_bounded_def Let_def Suc_le_eq)
  qed simp
next
  case (OGet now i route realm)
  assume "cache_bounded c"
  then show ?thesis unfolding OGet
    by (auto simp: cache_bounded_def get_snapshot_def Let_def split: option.split
        intro: order_trans [OF length_filter_le] order_trans [OF bytes_of_filter])
next
  case (ORemember now i route metadata)
  assume "cache_bounded c"
  then show ?thesis unfolding ORemember
    by (simp add: cache_bounded_def remember_context_def Let_def Suc_le_eq length_pop_contexts)
qed (auto simp: cache_bounded_def continuation_context_def thread_context_def live_contexts_def intro: order_trans [OF length_filter_le])

interpretation official: step_system "official_step encode" cache_bounded
  by unfold_locales (rule cache_bounded_step)

section \<open>What the cache returns\<close>

text \<open>The reference: the records that were accepted, in order, and those of them that no later one replaced.\<close>

fun accepted :: "(history_entry \<Rightarrow> string option) \<Rightarrow> official_op \<Rightarrow> replay_snapshot option" where
  "accepted encode (ORecord now unix_secs body response route (Some r)) =
     (case get_str response ''id'' of
        None \<Rightarrow> None
      | Some i \<Rightarrow>
          let entry = official_entry unix_secs body response route r i in
          (case encode entry of
             Some encoded \<Rightarrow>
               if length encoded \<le> MAX_BYTES then Some \<lparr>sn_entry = entry, sn_bytes = length encoded, sn_created = now\<rparr> else None
           | None \<Rightarrow> None))"
| "accepted encode _ = None"

definition same_slot :: "replay_snapshot \<Rightarrow> replay_snapshot \<Rightarrow> bool" where
  "same_slot s s' \<longleftrightarrow> he_response_id (sn_entry s') = he_response_id (sn_entry s) \<and>
     he_continuation_realm (sn_entry s') = he_continuation_realm (sn_entry s)"

fun latest :: "replay_snapshot list \<Rightarrow> replay_snapshot list" where
  "latest [] = []"
| "latest (s # ss) = (if list_ex (same_slot s) ss then latest ss else s # latest ss)"

fun op_time :: "official_op \<Rightarrow> nat" where
  "op_time (ORecord now _ _ _ _ _) = now"
| "op_time (OGet now _ _ _) = now"
| "op_time (ORemember now _ _ _) = now"
| "op_time (OContinuation now _ _) = now"
| "op_time (OThread now _ _) = now"

lemma map_filter_append: "List.map_filter f (xs @ ys) = List.map_filter f xs @ List.map_filter f ys"
  by (simp add: List.map_filter_def)

lemma find_in_set: "find P xs = Some x \<Longrightarrow> x \<in> set xs \<and> P x"
  by (auto simp: find_Some_iff)

lemma same_slot_sym: "same_slot s s' \<longleftrightarrow> same_slot s' s"
  by (auto simp: same_slot_def)

lemma latest_snoc: "latest (ss @ [s]) = filter (\<lambda>s'. \<not> same_slot s s') (latest ss) @ [s]"
  by (induction ss) (auto simp: same_slot_sym)

lemma latest_split: "s \<in> set (latest ss) \<Longrightarrow> \<exists>xs ys. ss = xs @ s # ys \<and> (\<forall>s' \<in> set ys. \<not> same_slot s s')"
proof (induction ss)
  case (Cons x ss)
  show ?case
  proof (cases "s \<in> set (latest ss)")
    case True
    then show ?thesis using Cons.IH by (metis append_Cons)
  next
    case False
    then have "s = x" "\<not> list_ex (same_slot x) ss" using Cons.prems by (auto split: if_splits)
    then show ?thesis by (intro exI [of _ "[]"] exI [of _ ss]) (auto simp: list_ex_iff)
  qed
qed simp

text \<open>One step on the snapshots: a record, or at most a removal of what has expired.\<close>

lemma snapshots_step_record:
  assumes "accepted encode x = Some s"
  shows "oc_snapshots (official_step encode x c) =
    (let kept = filter (\<lambda>s'. elapsed (op_time x) (sn_created s') < REPLAY_TTL \<and> \<not> same_slot s s') (oc_snapshots c)
     in evict_snapshots (sn_bytes s) (bytes_of kept) kept @ [s])"
  using assms
proof (cases x)
  case (ORecord now unix_secs body response route realm)
  then show ?thesis using assms
    by (cases realm) (auto simp: record_snapshot_def same_slot_def Let_def bytes_of_def
        split: option.splits if_splits)
qed auto

lemma snapshots_step_other:
  assumes "accepted encode x = None"
  shows "\<exists>P. oc_snapshots (official_step encode x c) = filter P (oc_snapshots c) \<and>
    (\<forall>s. elapsed (op_time x) (sn_created s) < REPLAY_TTL \<longrightarrow> P s)"
proof -
  have "oc_snapshots (official_step encode x c) = filter (\<lambda>_. True) (oc_snapshots c) \<or>
    oc_snapshots (official_step encode x c) = filter (\<lambda>s. elapsed (op_time x) (sn_created s) < REPLAY_TTL) (oc_snapshots c)"
  proof (cases x)
    case (ORecord now unix_secs body response route realm)
    then show ?thesis using assms
      by (cases realm) (auto simp: record_snapshot_def Let_def split: option.splits if_splits)
  qed (auto simp: get_snapshot_def remember_context_def continuation_context_def thread_context_def Let_def split: option.split)
  then show ?thesis by blast
qed

lemma snapshots_are_latest:
  "subseq (oc_snapshots (fold (official_step encode) ops new_cache)) (latest (List.map_filter (accepted encode) ops))"
proof (induction ops rule: rev_induct)
  case Nil
  show ?case by (simp add: new_cache_def)
next
  case (snoc x ops)
  let ?c = "fold (official_step encode) ops new_cache"
  let ?acc = "List.map_filter (accepted encode) ops"
  show ?case
  proof (cases "accepted encode x")
    case None
    have "subseq (oc_snapshots (official_step encode x ?c)) (oc_snapshots ?c)"
      using snapshots_step_other [OF None, of ?c] by (auto intro: subseq_filter_left)
    with snoc.IH None show ?thesis by (auto simp: map_filter_append List.map_filter_simps intro: subseq_order.order_trans)
  next
    case (Some s)
    let ?kept = "filter (\<lambda>s'. elapsed (op_time x) (sn_created s') < REPLAY_TTL \<and> \<not> same_slot s s') (oc_snapshots ?c)"
    have "subseq (evict_snapshots (sn_bytes s) (bytes_of ?kept) ?kept) ?kept"
      by (rule evict_snapshots_subseq)
    also have "subseq ?kept (filter (\<lambda>s'. \<not> same_slot s s') (oc_snapshots ?c))"
      using subseq_filter_left [of "\<lambda>s'. elapsed (op_time x) (sn_created s') < REPLAY_TTL" "filter (\<lambda>s'. \<not> same_slot s s') (oc_snapshots ?c)"]
      by (simp add: conj_commute)
    also have "subseq \<dots> (filter (\<lambda>s'. \<not> same_slot s s') (latest ?acc))" using snoc.IH by (rule subseq_filter)
    finally show ?thesis
      using Some by (simp add: map_filter_append List.map_filter_simps latest_snoc snapshots_step_record [OF Some] Let_def)
  qed
qed

text \<open>
  C22: What the cache hands out is what was recorded, for nobody else and not for long: an entry that a
  lookup returns was recorded under the response id, the route and the account realm of the lookup,
  less than twenty minutes before, and no later accepted record of that id and realm has replaced it.
\<close>

theorem official_replay_scoped:
  assumes "fst (get_snapshot now i route realm (fold (official_step encode) ops new_cache)) = Some e"
  shows "\<exists>xs s ys. List.map_filter (accepted encode) ops = xs @ s # ys \<and> sn_entry s = e \<and>
    he_response_id e = i \<and> he_route_id e = route \<and> realm \<noteq> None \<and> he_continuation_realm e = realm \<and>
    elapsed now (sn_created s) < REPLAY_TTL \<and> (\<forall>s' \<in> set ys. \<not> same_slot s s')"
proof -
  let ?c = "fold (official_step encode) ops new_cache"
  obtain r s where r: "realm = Some r" and e: "e = sn_entry s" and s: "s \<in> set (oc_snapshots ?c)"
    "elapsed now (sn_created s) < REPLAY_TTL" "he_response_id (sn_entry s) = i" "he_route_id (sn_entry s) = route"
    "he_continuation_realm (sn_entry s) = Some r"
    using assms by (auto simp: get_snapshot_def Let_def dest!: find_in_set split: option.splits)
  have "s \<in> set (latest (List.map_filter (accepted encode) ops))"
    using list_emb_set [OF snapshots_are_latest s(1)] by blast
  from latest_split [OF this] r e s(2-) show ?thesis by blast
qed

lemma subseq_bytes: "subseq xs ys \<Longrightarrow> bytes_of xs \<le> bytes_of ys"
  by (induction rule: list_emb.induct) auto

lemma accepted_realm: "accepted encode x = Some s \<Longrightarrow> \<exists>r. he_continuation_realm (sn_entry s) = Some r"
proof (cases x)
  case (ORecord now unix_secs body response route realm)
  assume "accepted encode x = Some s"
  with ORecord show ?thesis by (cases realm) (auto simp: Let_def split: option.splits if_splits)
qed auto

lemma elapsed_mono: "t \<le> now \<Longrightarrow> elapsed t created \<le> elapsed now created"
  by (simp add: elapsed_def)

text \<open>A snapshot with room for itself and all that came after it is not evicted.\<close>

lemma snapshot_survives:
  assumes "A0 @ s # B0 = oc_snapshots c" and "subseq B0 ys0"
    and "length (ys0 @ List.map_filter (accepted encode) ops) < MAX_ENTRIES"
    and "bytes_of (s # ys0 @ List.map_filter (accepted encode) ops) \<le> MAX_BYTES"
    and "\<forall>x \<in> set ops. elapsed (op_time x) (sn_created s) < REPLAY_TTL"
    and "\<forall>s' \<in> set (List.map_filter (accepted encode) ops). \<not> same_slot s s'"
  shows "\<exists>A B. oc_snapshots (fold (official_step encode) ops c) = A @ s # B \<and> subseq B (ys0 @ List.map_filter (accepted encode) ops)"
  using assms
proof (induction ops arbitrary: c A0 B0 ys0)
  case Nil
  then have "oc_snapshots c = A0 @ s # B0 \<and> subseq B0 ys0" by simp
  then show ?case by (intro exI [of _ A0] exI [of _ B0]) (simp add: List.map_filter_simps)
next
  case (Cons x ops)
  note c = Cons.prems(1) [symmetric]
  show ?case
  proof (cases "accepted encode x")
    case None
    obtain P where "P s" "oc_snapshots (official_step encode x c) = filter P (oc_snapshots c)"
      using snapshots_step_other [OF None, of c] Cons.prems(5) by auto
    then have "filter P A0 @ s # filter P B0 = oc_snapshots (official_step encode x c)" by (simp add: c)
    moreover have "subseq (filter P B0) ys0"
      using Cons.prems(2) subseq_filter_left subseq_order.order_trans by blast
    ultimately show ?thesis using Cons.IH [of "filter P A0" "filter P B0" "official_step encode x c" ys0] Cons.prems None
      by (simp add: List.map_filter_simps)
  next
    case (Some s')
    let ?P = "\<lambda>s''. elapsed (op_time x) (sn_created s'') < REPLAY_TTL \<and> \<not> same_slot s' s''"
    have sub: "subseq (filter ?P B0) ys0"
      using Cons.prems(2) subseq_filter_left subseq_order.order_trans by blast
    have "?P s" using Cons.prems(5,6) Some by (simp add: List.map_filter_simps same_slot_sym)
    then have kept: "filter ?P (oc_snapshots c) = filter ?P A0 @ s # filter ?P B0" by (simp add: c)
    have "length (s # filter ?P B0) < MAX_ENTRIES"
      using list_emb_length [OF sub] Cons.prems(3) Some by (simp add: List.map_filter_simps)
    moreover have "bytes_of (s # filter ?P B0) + sn_bytes s' \<le> MAX_BYTES"
      using subseq_bytes [OF sub] Cons.prems(4) Some by (simp add: List.map_filter_simps)
    ultimately obtain A where "evict_snapshots (sn_bytes s') (bytes_of (filter ?P A0 @ s # filter ?P B0)) (filter ?P A0 @ s # filter ?P B0) =
        A @ s # filter ?P B0"
      using evict_snapshots_keeps [of "s # filter ?P B0" "sn_bytes s'" "filter ?P A0"] by blast
    then have "A @ s # (filter ?P B0 @ [s']) = oc_snapshots (official_step encode x c)"
      by (simp only: snapshots_step_record [OF Some] Let_def kept append_Cons append_assoc)
    moreover have "subseq (filter ?P B0 @ [s']) (ys0 @ [s'])" using sub by simp
    ultimately show ?thesis
      using Cons.IH [of A "filter ?P B0 @ [s']" "official_step encode x c" "ys0 @ [s']"] Cons.prems Some
      by (simp add: List.map_filter_simps)
  qed
qed

text \<open>
  C23: A recorded response can be replayed: as long as it has not expired, no later accepted record
  replaces it, and it and the records after it are at most 256 and fit into 32 MiB, a lookup with its
  id, route and realm returns it, whatever else was recorded before and looked up in between.
\<close>

theorem official_replay_available:
  assumes "accepted encode x = Some s"
    and "length (List.map_filter (accepted encode) ops) < MAX_ENTRIES"
    and "bytes_of (s # List.map_filter (accepted encode) ops) \<le> MAX_BYTES"
    and "\<forall>s' \<in> set (List.map_filter (accepted encode) ops). \<not> same_slot s s'"
    and "\<forall>y \<in> set ops. op_time y \<le> now" and "elapsed now (sn_created s) < REPLAY_TTL"
  shows "fst (get_snapshot now (he_response_id (sn_entry s)) (he_route_id (sn_entry s)) (he_continuation_realm (sn_entry s))
    (fold (official_step encode) (earlier @ x # ops) new_cache)) = Some (sn_entry s)"
proof -
  let ?c = "fold (official_step encode) (earlier @ x # ops) new_cache"
  let ?start = "official_step encode x (fold (official_step encode) earlier new_cache)"
  obtain A0 where "A0 @ s # [] = oc_snapshots ?start"
    by (simp add: snapshots_step_record [OF assms(1)] Let_def)
  moreover have "\<forall>y \<in> set ops. elapsed (op_time y) (sn_created s) < REPLAY_TTL"
    using assms(5,6) elapsed_mono [where created = "sn_created s" and now = now] by (meson le_less_trans)
  ultimately obtain A B where AB: "oc_snapshots ?c = A @ s # B"
    "subseq B (List.map_filter (accepted encode) ops)"
    using snapshot_survives [of A0 s "[]" ?start "[]" encode ops] assms(2-4) by auto
  have B: "\<not> same_slot s s'" if "s' \<in> set B" for s' using list_emb_set [OF AB(2) that] assms(4) by blast
  obtain r where r: "he_continuation_realm (sn_entry s) = Some r"
    using accepted_realm [OF assms(1)] ..
  let ?live = "filter (\<lambda>s. elapsed now (sn_created s) < REPLAY_TTL)"
  let ?Q = "\<lambda>s'. he_response_id (sn_entry s') = he_response_id (sn_entry s) \<and> he_route_id (sn_entry s') = he_route_id (sn_entry s) \<and>
    he_continuation_realm (sn_entry s') = Some r"
  have "find ?Q (rev (?live B)) = None" using B r by (auto simp: find_None_iff same_slot_def)
  moreover have "rev (?live (oc_snapshots ?c)) = rev (?live B) @ s # rev (?live A)"
    unfolding AB(1) using assms(6) by simp
  moreover have "find ?Q (xs @ s # ys) = Some s" if "find ?Q xs = None" for xs ys
    using that r by (induction xs) (auto split: if_splits)
  ultimately have "find ?Q (rev (?live (oc_snapshots ?c))) = Some s" by simp
  then show ?thesis by (simp add: get_snapshot_def r Let_def)
qed

text \<open>
  Whatever is recorded and looked up, the cache keeps at most 256 snapshots of together at most 32 MiB
  and at most 1024 routing contexts; so the additions and subtractions of the eviction stay in range.
\<close>

theorem official_cache_bounded:
  "let c = fold (official_step encode) ops new_cache in
     length (oc_snapshots c) \<le> 256 \<and> sum_list (map sn_bytes (oc_snapshots c)) \<le> 32 * 1024 * 1024 \<and> length (oc_contexts c) \<le> 1024"
proof -
  have "cache_bounded new_cache" by (simp add: cache_bounded_def new_cache_def)
  from official.run_invar [OF this, of encode ops] show ?thesis
    by (simp add: cache_bounded_def bytes_of_def MAX_ENTRIES_def MAX_BYTES_def MAX_CONTEXTS_def Let_def)
qed

text \<open>A routing context is found under its id and route, and only there; another route keeps its own.\<close>

lemma remembered_context_found:
  "fst (continuation_context now i route (remember_context now i route metadata c)) = Some metadata"
  by (simp add: continuation_context_def remember_context_def live_contexts_def Let_def elapsed_def CONTEXT_TTL_def seconds_def)

lemma find_filter: "(\<And>x. P x \<Longrightarrow> Q x) \<Longrightarrow> find P (filter Q xs) = find P xs"
  by (induction xs) auto

lemma pop_contexts_short: "length xs < MAX_CONTEXTS \<Longrightarrow> pop_contexts xs = xs"
  by (cases xs) auto

lemma context_of_other_route_kept:
  assumes "(i, route) \<noteq> (i', route')" "length (oc_contexts c) < MAX_CONTEXTS"
  shows "fst (continuation_context now i route (remember_context now i' route' metadata c)) = fst (continuation_context now i route c)"
proof -
  let ?N = "\<lambda>x. \<not> (cc_response_id x = i' \<and> cc_route x = route')"
  let ?P = "\<lambda>x. cc_response_id x = i \<and> cc_route x = route"
  let ?kept = "filter (\<lambda>x. elapsed now (cc_created x) < CONTEXT_TTL \<and> ?N x) (oc_contexts c)"
  have "length ?kept < MAX_CONTEXTS" using assms(2) by (rule le_less_trans [OF length_filter_le])
  then have pop: "pop_contexts ?kept = ?kept" by (rule pop_contexts_short)
  have "live_contexts now (remember_context now i' route' metadata c) =
      filter ?N (live_contexts now c) @ [\<lparr>cc_response_id = i', cc_route = route', cc_metadata = metadata, cc_created = now\<rparr>]"
    unfolding live_contexts_def remember_context_def Let_def pop
    by (simp add: filter_filter elapsed_def CONTEXT_TTL_def seconds_def conj_commute conj_left_commute)
  moreover have "find ?P (filter ?N xs) = find ?P xs" for xs :: "routing_context list" by (rule find_filter) (use assms(1) in auto)
  ultimately show ?thesis using assms(1) by (auto simp: continuation_context_def rev_filter simp del: de_Morgan_conj)
qed

section \<open>Examples\<close>

text \<open>
  A record of an id and realm replaces the one on another route, while a routing context survives there:
  after a record on a second route the first route finds nothing.
\<close>

definition sample_response :: json where
  "sample_response = JObject [(''id'', JString ''resp'')]"

lemma other_route_erases_snapshot:
  "fst (get_snapshot 2 ''resp'' ''a'' (Some ''realm'')
     (fold (official_step (\<lambda>_. Some ''{}''))
       [ORecord 0 0 JNull sample_response ''a'' (Some ''realm''), ORecord 1 0 JNull sample_response ''b'' (Some ''realm'')] new_cache)) = None"
  by (simp add: get_snapshot_def record_snapshot_def sample_response_def new_cache_def get_str_def official_entry_def Let_def)

theorem official_replay_scoped_witness:
  "\<exists>e (s :: replay_snapshot). fst (get_snapshot 1 ''resp'' ''a'' (Some ''realm'')
       (fold (official_step (\<lambda>_. Some ''{}'')) [ORecord 0 0 JNull sample_response ''a'' (Some ''realm'')] new_cache)) = Some e \<and>
     sn_entry s = e \<and> he_continuation_realm e = Some ''realm'' \<and> elapsed 1 (sn_created s) < REPLAY_TTL"
proof -
  obtain e where e: "fst (get_snapshot 1 ''resp'' ''a'' (Some ''realm'')
      (fold (official_step (\<lambda>_. Some ''{}'')) [ORecord 0 0 JNull sample_response ''a'' (Some ''realm'')] new_cache)) = Some e"
    by (simp add: get_snapshot_def record_snapshot_def sample_response_def new_cache_def get_str_def elapsed_def REPLAY_TTL_def
        seconds_def MAX_BYTES_def Let_def)
  from official_replay_scoped [OF e] obtain s :: replay_snapshot where "sn_entry s = e" "he_continuation_realm e = Some ''realm''"
    "elapsed 1 (sn_created s) < REPLAY_TTL" by blast
  with e show ?thesis by (intro exI [of _ e] exI [of _ s] conjI)
qed

theorem official_replay_available_witness:
  "\<exists>s. accepted (\<lambda>_. Some ''{}'') (ORecord 0 0 JNull sample_response ''a'' (Some ''realm'')) = Some s \<and>
     fst (get_snapshot 1 ''resp'' ''a'' (Some ''realm'')
       (fold (official_step (\<lambda>_. Some ''{}'')) [ORecord 0 0 JNull sample_response ''a'' (Some ''realm''), OGet 1 ''x'' ''y'' (Some ''z'')]
          new_cache)) = Some (sn_entry s)"
proof -
  obtain s where s: "accepted (\<lambda>_. Some ''{}'') (ORecord 0 0 JNull sample_response ''a'' (Some ''realm'')) = Some s"
    "he_response_id (sn_entry s) = ''resp''" "he_route_id (sn_entry s) = ''a''" "he_continuation_realm (sn_entry s) = Some ''realm''"
    "sn_bytes s = 2" "sn_created s = 0"
    by (simp add: sample_response_def get_str_def MAX_BYTES_def Let_def)
  from official_replay_available [OF s(1), where ops = "[OGet 1 ''x'' ''y'' (Some ''z'')]" and now = 1 and earlier = "[]"] s
  show ?thesis
    by (auto simp: List.map_filter_simps MAX_ENTRIES_def MAX_BYTES_def elapsed_def REPLAY_TTL_def seconds_def)
qed

end
