(* ===== verification/Investigation.thy ===== *)
theory Investigation
  imports Task_Stall "HOL-Library.Product_Lexorder"
begin

text \<open>
  The investigation ledger (\<open>investigation_reducer.rs\<close>, \<open>investigation_linker.rs\<close>,
  \<open>investigation_diagnostics.rs\<close>): completed evidence operations are linked to an investigation; revisits
  that bring nothing new are counted, and after a threshold the agent is told so, twice at most. The
  channel of a command line (\<open>classify_channel\<close>) is text analysis of another module and an argument; so are
  the length of the derived JSON encoding of a state, SHA-256 and the optional semantic ranking.
\<close>

section \<open>Material progress\<close>

record material_progress_state =
  mp_workspace_revision :: u64
  mp_vcs_revision :: u64
  mp_test_revision :: u64
  mp_user_instruction_revision :: u64
  mp_external_revision :: u64

type_synonym material_progress_snapshot = material_progress_state

record material_progress_delta =
  md_workspace :: u64
  md_vcs :: u64
  md_test :: u64
  md_user_instruction :: u64
  md_external :: u64

definition no_delta :: material_progress_delta where
  "no_delta = \<lparr>md_workspace = 0, md_vcs = 0, md_test = 0, md_user_instruction = 0, md_external = 0\<rparr>"

definition progress_delta_from_operation :: "evidence_operation \<Rightarrow> material_progress_delta" where
  "progress_delta_from_operation op =
     (case eo_operation op of
        Mutate \<Rightarrow> (case channel op of
                     Workspace \<Rightarrow> no_delta\<lparr>md_workspace := 1\<rparr>
                   | Vcs \<Rightarrow> no_delta\<lparr>md_vcs := 1\<rparr>
                   | External \<Rightarrow> no_delta\<lparr>md_external := 1\<rparr>
                   | _ \<Rightarrow> no_delta)
      | Verify \<Rightarrow> if eo_result op = Completed \<or> eo_result op = Found then no_delta\<lparr>md_test := 1\<rparr> else no_delta
      | _ \<Rightarrow> no_delta)"

definition apply_progress_delta :: "material_progress_delta \<Rightarrow> material_progress_state \<Rightarrow> material_progress_state" where
  "apply_progress_delta d s =
     \<lparr>mp_workspace_revision = saturating_add (mp_workspace_revision s) (md_workspace d),
      mp_vcs_revision = saturating_add (mp_vcs_revision s) (md_vcs d),
      mp_test_revision = saturating_add (mp_test_revision s) (md_test d),
      mp_user_instruction_revision = saturating_add (mp_user_instruction_revision s) (md_user_instruction d),
      mp_external_revision = saturating_add (mp_external_revision s) (md_external d)\<rparr>"

definition snapshot_for :: "material_progress_state \<Rightarrow> evidence_channel list \<Rightarrow> material_progress_snapshot" where
  "snapshot_for s channels =
     s\<lparr>mp_vcs_revision := (if Vcs \<in> set channels then mp_vcs_revision s else 0),
       mp_external_revision := (if External \<in> set channels then mp_external_revision s else 0)\<rparr>"

definition channel_progressed ::
  "material_progress_state \<Rightarrow> material_progress_snapshot \<Rightarrow> evidence_channel \<Rightarrow> bool"
where
  "channel_progressed s seen c =
     (case c of
        Workspace \<Rightarrow> mp_workspace_revision seen < mp_workspace_revision s
      | Vcs \<Rightarrow> mp_vcs_revision seen < mp_vcs_revision s
      | External \<Rightarrow> mp_external_revision seen < mp_external_revision s
      | _ \<Rightarrow> False)"

definition relevant_progress_since ::
  "material_progress_state \<Rightarrow> material_progress_snapshot \<Rightarrow> evidence_channel list \<Rightarrow> bool"
where
  "relevant_progress_since s seen depends_on \<longleftrightarrow>
     mp_user_instruction_revision seen < mp_user_instruction_revision s \<or>
     list_ex (channel_progressed s seen) depends_on \<or>
     (Workspace \<in> set depends_on \<and> mp_test_revision seen < mp_test_revision s)"

section \<open>Identities and links\<close>

datatype investigation_predicate = Locate | Exists | InspectPredicate | VerifyPredicate | Diagnose | Resolve | UnknownPredicate

fun debug_predicate :: "investigation_predicate \<Rightarrow> string" where
  "debug_predicate Locate = ''Locate''"
| "debug_predicate Exists = ''Exists''"
| "debug_predicate InspectPredicate = ''Inspect''"
| "debug_predicate VerifyPredicate = ''Verify''"
| "debug_predicate Diagnose = ''Diagnose''"
| "debug_predicate Resolve = ''Resolve''"
| "debug_predicate UnknownPredicate = ''Unknown''"

fun debug_subject_kind :: "canonical_subject_kind \<Rightarrow> string" where
  "debug_subject_kind File = ''File''"
| "debug_subject_kind Symbol = ''Symbol''"
| "debug_subject_kind TaskLiteral = ''TaskLiteral''"
| "debug_subject_kind ErrorFamilySubject = ''ErrorFamily''"
| "debug_subject_kind TestSubject = ''Test''"
| "debug_subject_kind SessionState = ''SessionState''"
| "debug_subject_kind RepositoryState = ''RepositoryState''"
| "debug_subject_kind OtherSubject = ''Other''"

text \<open>The derived orders: the position of the variant, then the fields.\<close>

fun subject_kind_rank :: "canonical_subject_kind \<Rightarrow> nat" where
  "subject_kind_rank File = 0"
| "subject_kind_rank Symbol = 1"
| "subject_kind_rank TaskLiteral = 2"
| "subject_kind_rank ErrorFamilySubject = 3"
| "subject_kind_rank TestSubject = 4"
| "subject_kind_rank SessionState = 5"
| "subject_kind_rank RepositoryState = 6"
| "subject_kind_rank OtherSubject = 7"

fun channel_rank :: "evidence_channel \<Rightarrow> nat" where
  "channel_rank Workspace = 0"
| "channel_rank Session = 1"
| "channel_rank Vcs = 2"
| "channel_rank Database = 3"
| "channel_rank Process = 4"
| "channel_rank External = 5"
| "channel_rank UnknownChannel = 6"

definition channel_insert :: "evidence_channel \<Rightarrow> evidence_channel list \<Rightarrow> evidence_channel list" where
  "channel_insert c cs = (if c \<in> set cs then cs else insort_key channel_rank c cs)"

record investigation_identity =
  ii_predicate :: investigation_predicate
  ii_subjects :: "canonical_subject list"
  ii_task_revision :: u64

definition predicate_for_operation ::
  "(string \<Rightarrow> evidence_channel) \<Rightarrow> evidence_operation_kind \<Rightarrow> string \<Rightarrow> investigation_predicate"
where
  "predicate_for_operation channel_of operation command =
     (if contains_str (to_ascii_lowercase command) ''test-path'' then Exists
      else if channel_of command \<in> {Session, Vcs, Database} \<and> operation \<in> {Query, Inspect} then Locate
      else case operation of
             Query \<Rightarrow> Locate
           | Inspect \<Rightarrow> InspectPredicate
           | Verify \<Rightarrow> VerifyPredicate
           | Mutate \<Rightarrow> Resolve
           | Execute \<Rightarrow> Diagnose)"

definition descriptor_command :: "evidence_operation \<Rightarrow> string" where
  "descriptor_command op =
     (case split_on (\<lambda>c. c = CHR '']'') (descriptor op) [] of _ # second # _ \<Rightarrow> trim second | _ \<Rightarrow> descriptor op)"

definition identity_from_operation ::
  "(string \<Rightarrow> evidence_channel) \<Rightarrow> evidence_operation \<Rightarrow> u64 \<Rightarrow> investigation_identity"
where
  "identity_from_operation channel_of op revision =
     \<lparr>ii_predicate = predicate_for_operation channel_of (eo_operation op) (descriptor_command op),
      ii_subjects = remdups_adj (sort_key (\<lambda>s. (subject_kind_rank (cs_kind s), cs_key s)) (subjects op)),
      ii_task_revision = revision\<rparr>"

datatype link_method = ExactLink | Symbolic | SemanticShadow | Provisional | LegacyLiteral

datatype investigation_link_confidence = NoLink | LowLink | MediumLink | HighLink | ExactConfidence

record ledger_descriptor =
  ld_ledger_id :: string
  ld_identity :: investigation_identity
  ld_bounded_descriptor :: string

text \<open>The similarity of a ranked candidate is a 32-bit float that nothing computes with: any type.\<close>

record 'f link_candidate =
  lc_ledger_id :: string
  lc_confidence :: investigation_link_confidence
  lc_method :: link_method
  lc_similarity :: "'f option"

record 'f link_decision =
  dn_ledger_id :: "string option"
  dn_method :: link_method
  dn_confidence :: investigation_link_confidence
  dn_created :: bool
  dn_shadow_candidates :: "'f link_candidate list"

type_synonym 'f semantic_linker = "string \<Rightarrow> ledger_descriptor list \<Rightarrow> string + 'f link_candidate list"
type_synonym 'f investigation_linker =
  "evidence_operation \<Rightarrow> investigation_identity \<Rightarrow> ledger_descriptor list \<Rightarrow> 'f link_decision"

definition null_semantic_linker :: "'f semantic_linker" where
  "null_semantic_linker _ _ = Inr []"

definition shadow_rank :: "'f semantic_linker \<Rightarrow> evidence_operation \<Rightarrow> ledger_descriptor list \<Rightarrow> 'f link_candidate list" where
  "shadow_rank semantic op candidates = (case semantic (descriptor op) candidates of Inr cs \<Rightarrow> cs | Inl _ \<Rightarrow> [])"

definition identities_exact :: "investigation_identity \<Rightarrow> investigation_identity \<Rightarrow> bool" where
  "identities_exact a b \<longleftrightarrow>
     ii_predicate a = ii_predicate b \<and> ii_task_revision a = ii_task_revision b \<and> ii_subjects a = ii_subjects b \<and> ii_subjects a \<noteq> []"

definition subject_overlap :: "canonical_subject list \<Rightarrow> canonical_subject list \<Rightarrow> nat" where
  "subject_overlap a b = length (filter (\<lambda>s. s \<in> set b) a)"

definition identities_symbolic :: "investigation_identity \<Rightarrow> investigation_identity \<Rightarrow> bool" where
  "identities_symbolic a b \<longleftrightarrow>
     ii_predicate a = ii_predicate b \<and> ii_task_revision a = ii_task_revision b \<and> 1 \<le> subject_overlap (ii_subjects a) (ii_subjects b)"

text \<open>\<open>Iterator::max_by_key\<close>: the last of the greatest elements.\<close>

fun max_by_key :: "('a \<Rightarrow> nat) \<Rightarrow> 'a list \<Rightarrow> 'a option" where
  "max_by_key f [] = None"
| "max_by_key f (x # xs) =
     (case max_by_key f xs of None \<Rightarrow> Some x | Some y \<Rightarrow> if f x \<le> f y then Some y else Some x)"

definition symbolic_link :: "'f semantic_linker \<Rightarrow> 'f investigation_linker" where
  "symbolic_link semantic op identity candidates =
     (case find (\<lambda>c. identities_exact (ld_identity c) identity) candidates of
        Some exact \<Rightarrow>
          \<lparr>dn_ledger_id = Some (ld_ledger_id exact), dn_method = ExactLink, dn_confidence = ExactConfidence, dn_created = False,
           dn_shadow_candidates = shadow_rank semantic op candidates\<rparr>
      | None \<Rightarrow>
          (case max_by_key (\<lambda>c. subject_overlap (ii_subjects (ld_identity c)) (ii_subjects identity))
                  (filter (\<lambda>c. identities_symbolic (ld_identity c) identity) candidates) of
             Some symbolic \<Rightarrow>
               \<lparr>dn_ledger_id = Some (ld_ledger_id symbolic), dn_method = Symbolic, dn_confidence = HighLink, dn_created = False,
                dn_shadow_candidates = shadow_rank semantic op candidates\<rparr>
           | None \<Rightarrow>
               \<lparr>dn_ledger_id = None, dn_method = Provisional, dn_confidence = NoLink, dn_created = True,
                dn_shadow_candidates = shadow_rank semantic op candidates\<rparr>))"

section \<open>Ledgers\<close>

datatype ledger_recovery_state = NoRecovery | Warned | Escalated

fun recovery_state_str :: "ledger_recovery_state \<Rightarrow> string" where
  "recovery_state_str NoRecovery = ''none''"
| "recovery_state_str Warned = ''warned''"
| "recovery_state_str Escalated = ''escalated''"

datatype link_provenance = ExactProvenance | SymbolicProvenance | SemanticShadowProvenance | LegacyLiteralProvenance | ProvisionalProvenance

fun provenance_of_method :: "link_method \<Rightarrow> link_provenance" where
  "provenance_of_method ExactLink = ExactProvenance"
| "provenance_of_method Symbolic = SymbolicProvenance"
| "provenance_of_method SemanticShadow = SemanticShadowProvenance"
| "provenance_of_method Provisional = ProvisionalProvenance"
| "provenance_of_method LegacyLiteral = LegacyLiteralProvenance"

record investigation_ledger_entry =
  le_ledger_id :: string
  le_identity :: investigation_identity
  le_channels_seen :: "evidence_channel list"
  le_depends_on :: "evidence_channel list"
  le_evidence_frontier :: "evidence_signature list"
  le_attempts_without_frontier_progress :: u32
  le_redundant_revisits :: u32
  le_last_seen_progress :: material_progress_snapshot
  le_recovery_count :: u32
  le_recovery_state :: ledger_recovery_state
  le_last_activity_seq :: u64
  le_link_provenance :: link_provenance
  le_bounded_descriptor :: string
  le_resolved :: bool

record investigation_ledger_state =
  is_schema_version :: u32
  is_ledgers :: "investigation_ledger_entry list"
  is_progress :: material_progress_state
  is_next_seq :: u64
  is_task_stall :: task_stall_state

definition INVESTIGATION_LEDGER_SCHEMA_VERSION :: u32 where
  "INVESTIGATION_LEDGER_SCHEMA_VERSION = 3"

definition DEFAULT_LEDGER_BYTE_BUDGET :: nat where
  "DEFAULT_LEDGER_BYTE_BUDGET = 8192"

definition DEFAULT_REDUNDANT_REVISIT_THRESHOLD :: u32 where
  "DEFAULT_REDUNDANT_REVISIT_THRESHOLD = 3"

datatype investigation_ledger_mode = LedgerOff | LedgerShadow | LedgerRecover

definition parse_ledger_mode :: "string \<Rightarrow> investigation_ledger_mode" where
  "parse_ledger_mode raw =
     (let lower = to_ascii_lowercase raw in
      if lower = ''off'' then LedgerOff else if lower = ''shadow'' then LedgerShadow else LedgerRecover)"

definition ledger_mode_from_env :: "(string \<Rightarrow> string option) \<Rightarrow> investigation_ledger_mode" where
  "ledger_mode_from_env env =
     parse_ledger_mode
       (case or_else (env ''VELLUM_INVESTIGATION_LEDGER_MODE'') (env ''INVESTIGATION_LEDGER_MODE'') of
          Some raw \<Rightarrow> raw | None \<Rightarrow> ''recover'')"

definition ledger_injects_recovery :: "investigation_ledger_mode \<Rightarrow> bool" where
  "ledger_injects_recovery m \<longleftrightarrow> m = LedgerRecover"

record investigation_policy =
  ip_redundant_revisit_recovery_threshold :: u32
  ip_serialized_budget_bytes :: nat
  ip_mode :: investigation_ledger_mode

definition default_investigation_policy :: "(string \<Rightarrow> string option) \<Rightarrow> investigation_policy" where
  "default_investigation_policy env =
     \<lparr>ip_redundant_revisit_recovery_threshold = DEFAULT_REDUNDANT_REVISIT_THRESHOLD,
      ip_serialized_budget_bytes = DEFAULT_LEDGER_BYTE_BUDGET, ip_mode = ledger_mode_from_env env\<rparr>"

definition policy_in_mode :: "investigation_ledger_mode \<Rightarrow> investigation_policy" where
  "policy_in_mode m =
     \<lparr>ip_redundant_revisit_recovery_threshold = DEFAULT_REDUNDANT_REVISIT_THRESHOLD,
      ip_serialized_budget_bytes = DEFAULT_LEDGER_BYTE_BUDGET, ip_mode = m\<rparr>"

record recovery_action =
  ra_ledger_id :: string
  ra_message :: string
  ra_recovery_count :: u32
  ra_level :: ledger_recovery_state

record investigation_transition =
  tr_ledger_id :: string
  tr_link_method :: link_method
  tr_link_confidence :: investigation_link_confidence
  tr_created :: bool
  tr_frontier_expanded :: bool
  tr_coverage_expanded :: bool
  tr_relevant_progress :: bool
  tr_redundant_revisit :: bool
  tr_redundant_revisit_count :: u32
  tr_recovery_state :: ledger_recovery_state
  tr_recovery :: "recovery_action option"
  tr_skipped :: bool

section \<open>The reducer\<close>

definition can_resolve ::
  "investigation_predicate \<Rightarrow> evidence_channel \<Rightarrow> fact_provenance \<Rightarrow> evidence_result \<Rightarrow> bool"
where
  "can_resolve predicate c provenance result =
     (if result \<noteq> Found then False
      else if provenance \<noteq> Independent then False
      else if predicate \<in> {Locate, Exists} \<and> (c = Session \<or> provenance = SelfGeneratedConversation) then False
      else True)"

definition can_resolve_ledger :: "investigation_predicate \<Rightarrow> evidence_operation \<Rightarrow> bool" where
  "can_resolve_ledger predicate op \<longleftrightarrow>
     list_ex (\<lambda>signature. can_resolve predicate (channel op) (es_provenance signature) (eo_result op)) (stable_evidence op)"

definition is_investigation_operation :: "evidence_operation \<Rightarrow> bool" where
  "is_investigation_operation op =
     (case eo_operation op of Mutate \<Rightarrow> False | Execute \<Rightarrow> subjects op \<noteq> [] | _ \<Rightarrow> True)"

definition stable_ledger_id :: "(string \<Rightarrow> string) \<Rightarrow> investigation_identity \<Rightarrow> string" where
  "stable_ledger_id sha identity =
     (let payload = debug_predicate (ii_predicate identity) @ ''|'' @ show_nat (unat (ii_task_revision identity)) @
            concat (map (\<lambda>s. ''|'' @ debug_subject_kind (cs_kind s) @ '':'' @ cs_key s) (ii_subjects identity))
      in ''inv:'' @ take 16 (sha payload))"

definition recovery_message :: "investigation_ledger_entry \<Rightarrow> ledger_recovery_state \<Rightarrow> string" where
  "recovery_message e level =
     (let known = take 6 (List.map_filter es_fact (le_evidence_frontier e));
          channels = join_with '', '' (map debug_channel (le_channels_seen e));
          subject_list = join_with '', '' (map cs_key (take 4 (ii_subjects (le_identity e))));
          nl = [CHR 0x0A];
          header = (if level = Escalated
            then ''You returned to the same unresolved investigation after recovery, and the evidence frontier still has not changed.''
            else ''You have already investigated the same unresolved question with multiple methods, and there is currently no new independent evidence.'')
      in header @ nl @ nl @ ''Known:'' @ nl @
         (if known = [] then ''- explored channels: '' @ channels else join_with nl (map (\<lambda>l. ''- '' @ l) known)) @ nl @ nl @
         ''Still missing:'' @ nl @ ''- independent evidence for '' @ subject_list @ nl @ nl @
         ''Do not repeat:'' @ nl @ ''- equivalent investigation of already-explored sources ('' @ channels @ '')'' @ nl @ nl @
         ''Next action must change:'' @ nl @ ''evidence source / strategy / task execution'')"

definition maybe_recovery ::
  "investigation_policy \<Rightarrow> bool \<Rightarrow> investigation_ledger_entry \<Rightarrow> recovery_action option \<times> investigation_ledger_entry"
where
  "maybe_recovery policy redundant_revisit e =
     (if le_resolved e then (None, e)
      else if le_link_provenance e = LegacyLiteralProvenance \<and> le_redundant_revisits e = 0 then (None, e)
      else if \<not> redundant_revisit then (None, e)
      else if le_redundant_revisits e < ip_redundant_revisit_recovery_threshold policy then (None, e)
      else if \<not> ledger_injects_recovery (ip_mode policy) then (None, e)
      else if 2 \<le> le_recovery_count e then (None, e)
      else let level = (if le_recovery_count e = 0 then Warned else Escalated);
               e1 = e\<lparr>le_recovery_count := saturating_add (le_recovery_count e) 1, le_recovery_state := level\<rparr>
           in (Some \<lparr>ra_ledger_id = le_ledger_id e1, ra_message = recovery_message e1 level,
                     ra_recovery_count = le_recovery_count e1, ra_level = level\<rparr>, e1))"

definition extend_frontier :: "evidence_operation \<Rightarrow> evidence_signature list \<Rightarrow> evidence_signature list" where
  "extend_frontier op frontier =
     fold (\<lambda>signature frontier.
        if es_provenance signature = SelfGeneratedConversation \<or> signature \<in> set frontier then frontier else frontier @ [signature])
       (stable_evidence op) frontier"

text \<open>
  The block of \<open>reduce_investigation\<close> on the entry of a linked operation, in two halves: what the operation
  brings, and what follows for the counters.
\<close>

definition observe_entry ::
  "u64 \<Rightarrow> evidence_operation \<Rightarrow> material_progress_state \<Rightarrow> investigation_ledger_entry
     \<Rightarrow> bool \<times> bool \<times> bool \<times> investigation_ledger_entry"
where
  "observe_entry seq op progress e0 =
     (let depends_on = channel_insert (channel op) (le_depends_on e0);
          relevant_progress = relevant_progress_since progress (le_last_seen_progress e0) depends_on;
          frontier = extend_frontier op (le_evidence_frontier e0);
          frontier_expanded = (frontier \<noteq> le_evidence_frontier e0);
          coverage_expanded = (channel op \<notin> set (le_channels_seen e0));
          resolves = can_resolve_ledger (ii_predicate (le_identity e0)) op
      in (frontier_expanded, coverage_expanded, relevant_progress,
          e0\<lparr>le_last_activity_seq := seq, le_depends_on := depends_on,
             le_last_seen_progress := (if relevant_progress then snapshot_for progress depends_on else le_last_seen_progress e0),
             le_recovery_state := (if relevant_progress then NoRecovery else le_recovery_state e0),
             le_channels_seen := channel_insert (channel op) (le_channels_seen e0),
             le_evidence_frontier := frontier,
             le_resolved := (le_resolved e0 \<or> resolves),
             le_attempts_without_frontier_progress := (if resolves then 0 else le_attempts_without_frontier_progress e0)\<rparr>))"

definition reduce_entry ::
  "investigation_policy \<Rightarrow> u64 \<Rightarrow> evidence_operation \<Rightarrow> material_progress_state \<Rightarrow> investigation_ledger_entry
     \<Rightarrow> (bool \<times> bool \<times> bool \<times> bool \<times> recovery_action option) \<times> investigation_ledger_entry"
where
  "reduce_entry policy seq op progress e0 =
     (case observe_entry seq op progress e0 of
        (frontier_expanded, coverage_expanded, relevant_progress, e1) \<Rightarrow>
          let redundant_revisit = (\<not> coverage_expanded \<and> \<not> frontier_expanded \<and> \<not> relevant_progress \<and> \<not> le_resolved e1 \<and>
                channel op \<in> set (le_channels_seen e1));
              e2 = (if redundant_revisit
                    then e1\<lparr>le_redundant_revisits := saturating_add (le_redundant_revisits e1) 1,
                            le_attempts_without_frontier_progress := saturating_add (le_attempts_without_frontier_progress e1) 1\<rparr>
                    else if frontier_expanded \<or> coverage_expanded \<or> relevant_progress
                    then e1\<lparr>le_attempts_without_frontier_progress := 0\<rparr>
                    else e1)
          in (case maybe_recovery policy redundant_revisit e2 of
                (recovery, e3) \<Rightarrow> ((frontier_expanded, coverage_expanded, relevant_progress, redundant_revisit, recovery), e3)))"

definition is_warned :: "investigation_ledger_entry \<Rightarrow> bool" where
  "is_warned e \<longleftrightarrow> le_recovery_state e \<noteq> NoRecovery"

definition retention_key :: "investigation_policy \<Rightarrow> investigation_ledger_entry \<Rightarrow> nat \<times> nat \<times> int \<times> int \<times> nat" where
  "retention_key policy e =
     (if is_warned e \<or> ip_redundant_revisit_recovery_threshold policy \<le> le_redundant_revisits e then 0 else 1,
      if \<not> le_resolved e then 0 else 1, - uint (le_last_activity_seq e), - uint (le_redundant_revisits e),
      if le_resolved e then 1 else 0)"

definition ledgers_fit :: "(investigation_ledger_state \<Rightarrow> nat) \<Rightarrow> investigation_policy \<Rightarrow> investigation_ledger_state \<Rightarrow> bool" where
  "ledgers_fit encoded_len policy st \<longleftrightarrow>
     encoded_len st \<le> ip_serialized_budget_bytes policy \<and> length (is_ledgers st) \<le> 24"

text \<open>The argument is the order of dropping: what \<open>pop\<close> takes first comes first.\<close>

fun bound_loop ::
  "(investigation_ledger_state \<Rightarrow> nat) \<Rightarrow> investigation_policy \<Rightarrow> string list \<Rightarrow> investigation_ledger_state \<Rightarrow> investigation_ledger_state"
where
  "bound_loop encoded_len policy [] st = st"
| "bound_loop encoded_len policy (drop_id # drop_order) st =
     (if length (is_ledgers st) \<le> 1 then st
      else if ledgers_fit encoded_len policy st then st
      else if (case find (\<lambda>e. le_ledger_id e = drop_id) (is_ledgers st) of Some e \<Rightarrow> is_warned e | None \<Rightarrow> False)
      then bound_loop encoded_len policy drop_order st
      else bound_loop encoded_len policy drop_order
             (st\<lparr>is_ledgers := filter (\<lambda>e. le_ledger_id e \<noteq> drop_id) (is_ledgers st)\<rparr>))"

definition bound_ledgers ::
  "(investigation_ledger_state \<Rightarrow> nat) \<Rightarrow> investigation_policy \<Rightarrow> investigation_ledger_state \<Rightarrow> investigation_ledger_state"
where
  "bound_ledgers encoded_len policy st =
     (if length (is_ledgers st) \<le> 1 then st
      else if ledgers_fit encoded_len policy st then st
      else bound_loop encoded_len policy (rev (map le_ledger_id (sort_key (retention_key policy) (is_ledgers st)))) st)"

definition skipped_transition :: "string \<Rightarrow> link_method \<Rightarrow> investigation_link_confidence \<Rightarrow> bool \<Rightarrow> investigation_transition" where
  "skipped_transition i method confidence created =
     \<lparr>tr_ledger_id = i, tr_link_method = method, tr_link_confidence = confidence, tr_created = created, tr_frontier_expanded = False,
      tr_coverage_expanded = False, tr_relevant_progress = False, tr_redundant_revisit = False, tr_redundant_revisit_count = 0,
      tr_recovery_state = NoRecovery, tr_recovery = None, tr_skipped = True\<rparr>"

definition new_entry ::
  "string \<Rightarrow> investigation_identity \<Rightarrow> material_progress_state \<Rightarrow> u64 \<Rightarrow> link_method \<Rightarrow> evidence_operation \<Rightarrow> investigation_ledger_entry"
where
  "new_entry i identity progress seq method op =
     \<lparr>le_ledger_id = i, le_identity = identity, le_channels_seen = [], le_depends_on = [], le_evidence_frontier = [],
      le_attempts_without_frontier_progress = 0, le_redundant_revisits = 0, le_last_seen_progress = snapshot_for progress [],
      le_recovery_count = 0, le_recovery_state = NoRecovery, le_last_activity_seq = seq,
      le_link_provenance = provenance_of_method method, le_bounded_descriptor = concat (take 160 (chars (descriptor op))),
      le_resolved = False\<rparr>"

fun modify_first :: "('a \<Rightarrow> bool) \<Rightarrow> ('a \<Rightarrow> 'a) \<Rightarrow> 'a list \<Rightarrow> 'a list" where
  "modify_first P f [] = []"
| "modify_first P f (x # xs) = (if P x then f x # xs else x # modify_first P f xs)"

text \<open>What stays fixed over a run: the digest, the reader of commands, the encoder and the linker.\<close>

record 'f reducer_env =
  re_sha :: "string \<Rightarrow> string"
  re_channel_of :: "string \<Rightarrow> evidence_channel"
  re_encoded_len :: "investigation_ledger_state \<Rightarrow> nat"
  re_linker :: "'f investigation_linker"

definition descriptors_of :: "investigation_ledger_entry list \<Rightarrow> ledger_descriptor list" where
  "descriptors_of ledgers =
     map (\<lambda>e. \<lparr>ld_ledger_id = le_ledger_id e, ld_identity = le_identity e, ld_bounded_descriptor = le_bounded_descriptor e\<rparr>) ledgers"

definition reduce_linked ::
  "'f reducer_env \<Rightarrow> investigation_policy \<Rightarrow> evidence_operation \<Rightarrow> material_progress_state \<Rightarrow> investigation_identity
     \<Rightarrow> investigation_ledger_state \<Rightarrow> investigation_transition \<times> investigation_ledger_state"
where
  "reduce_linked env policy op progress identity st =
     (let seq = is_next_seq st;
          decision = re_linker env op identity (descriptors_of (is_ledgers st));
          ledger_id = (case dn_ledger_id decision of Some i \<Rightarrow> i | None \<Rightarrow> stable_ledger_id (re_sha env) identity);
          created = (dn_created decision \<or> \<not> list_ex (\<lambda>e. le_ledger_id e = ledger_id) (is_ledgers st));
          ledgers = (if created then is_ledgers st @ [new_entry ledger_id identity progress seq (dn_method decision) op]
                     else is_ledgers st)
      in case find (\<lambda>e. le_ledger_id e = ledger_id) ledgers of
           None \<Rightarrow> (skipped_transition ledger_id (dn_method decision) (dn_confidence decision) created, st\<lparr>is_ledgers := ledgers\<rparr>)
         | Some e \<Rightarrow>
             (case reduce_entry policy seq op progress e of
                ((frontier_expanded, coverage_expanded, relevant_progress, redundant_revisit, recovery), e') \<Rightarrow>
                  (\<lparr>tr_ledger_id = ledger_id, tr_link_method = dn_method decision, tr_link_confidence = dn_confidence decision,
                    tr_created = created, tr_frontier_expanded = frontier_expanded, tr_coverage_expanded = coverage_expanded,
                    tr_relevant_progress = relevant_progress, tr_redundant_revisit = redundant_revisit,
                    tr_redundant_revisit_count = le_redundant_revisits e', tr_recovery_state = le_recovery_state e',
                    tr_recovery = recovery, tr_skipped = False\<rparr>,
                   bound_ledgers (re_encoded_len env) policy
                     (st\<lparr>is_ledgers := modify_first (\<lambda>e. le_ledger_id e = ledger_id) (\<lambda>_. e') ledgers\<rparr>))))"

definition reduce_investigation ::
  "'f reducer_env \<Rightarrow> investigation_policy \<Rightarrow> evidence_operation \<Rightarrow> material_progress_state \<Rightarrow> investigation_ledger_state
     \<Rightarrow> investigation_transition \<times> investigation_ledger_state"
where
  "reduce_investigation env policy op progress st0 =
     (let st = st0\<lparr>is_schema_version := INVESTIGATION_LEDGER_SCHEMA_VERSION, is_progress := progress,
                   is_next_seq := saturating_add (is_next_seq st0) 1\<rparr>;
          identity = identity_from_operation (re_channel_of env) op (mp_user_instruction_revision progress)
      in if \<not> completed op \<or> \<not> is_investigation_operation op \<or> ii_subjects identity = []
         then (skipped_transition [] Provisional NoLink False, st)
         else reduce_linked env policy op progress identity st)"

section \<open>Recovery across requests\<close>

definition rsplit_once :: "char \<Rightarrow> string \<Rightarrow> (string \<times> string) option" where
  "rsplit_once c s =
     (if c \<in> set s then Some (rev (tl (dropWhile (\<lambda>x. x \<noteq> c) (rev s))), rev (takeWhile (\<lambda>x. x \<noteq> c) (rev s))) else None)"

definition INVESTIGATION_RECOVERY_PREFIX :: string where
  "INVESTIGATION_RECOVERY_PREFIX = ''synthetic:investigation_recovery:''"

definition parse_recovery_marker :: "string \<Rightarrow> (string \<times> u32) option" where
  "parse_recovery_marker i =
     (case strip_prefix i INVESTIGATION_RECOVERY_PREFIX of
        None \<Rightarrow> None
      | Some rest \<Rightarrow>
          (case rsplit_once (CHR '':'') rest of
             None \<Rightarrow> None
           | Some (ledger_id, count_str) \<Rightarrow> map_option (\<lambda>n. (ledger_id, word_of_nat n)) (parse_u32 count_str)))"

definition apply_recovery_marker :: "json \<Rightarrow> investigation_ledger_state \<Rightarrow> investigation_ledger_state" where
  "apply_recovery_marker item st =
     (if get_str item ''role'' \<noteq> Some ''developer'' then st
      else let i = (case Option.bind (or_else (json_get item ''id'')
                           (Option.bind (json_get item ''metadata'') (\<lambda>m. json_get m ''occurrence_id''))) json_as_str of
                      Some s \<Rightarrow> s | None \<Rightarrow> [])
           in (case parse_recovery_marker i of
                 None \<Rightarrow> st
               | Some (ledger_id, count) \<Rightarrow>
                   st\<lparr>is_ledgers := modify_first (\<lambda>e. le_ledger_id e = ledger_id)
                        (\<lambda>e. e\<lparr>le_recovery_count := max (le_recovery_count e) count,
                               le_recovery_state := (if 2 \<le> count then Escalated else Warned)\<rparr>) (is_ledgers st)\<rparr>))"

definition apply_recovery_markers :: "json list \<Rightarrow> investigation_ledger_state \<Rightarrow> investigation_ledger_state" where
  "apply_recovery_markers items st = fold apply_recovery_marker items st"

definition recovery_marker_counts :: "json list \<Rightarrow> string \<rightharpoonup> u32" where
  "recovery_marker_counts items =
     fold (\<lambda>item counts.
        case parse_recovery_marker (case get_str item ''id'' of Some s \<Rightarrow> s | None \<Rightarrow> []) of
          None \<Rightarrow> counts
        | Some (ledger_id, count) \<Rightarrow>
            counts(ledger_id \<mapsto> max (case counts ledger_id of Some n \<Rightarrow> n | None \<Rightarrow> 0) count))
       items Map.empty"

definition reconcile_recovery_counts :: "(string \<rightharpoonup> u32) \<Rightarrow> investigation_ledger_state \<Rightarrow> investigation_ledger_state" where
  "reconcile_recovery_counts markers st =
     st\<lparr>is_ledgers := map (\<lambda>e.
          case markers (le_ledger_id e) of
            None \<Rightarrow> e
          | Some count \<Rightarrow>
              let n = max (le_recovery_count e) count
              in e\<lparr>le_recovery_count := n,
                   le_recovery_state := (if 2 \<le> n then Escalated else if 1 \<le> n then Warned else le_recovery_state e)\<rparr>)
          (is_ledgers st)\<rparr>"

definition live_candidate :: "investigation_policy \<Rightarrow> investigation_ledger_entry \<Rightarrow> bool" where
  "live_candidate policy e \<longleftrightarrow>
     \<not> le_resolved e \<and>
     \<not> (le_link_provenance e = LegacyLiteralProvenance \<and> le_redundant_revisits e < ip_redundant_revisit_recovery_threshold policy) \<and>
     \<not> le_redundant_revisits e < ip_redundant_revisit_recovery_threshold policy"

definition live_recovery_action ::
  "investigation_policy \<Rightarrow> (string \<rightharpoonup> u32) \<Rightarrow> investigation_ledger_state \<Rightarrow> recovery_action option"
where
  "live_recovery_action policy existing_counts st =
     (if \<not> ledger_injects_recovery (ip_mode policy) then None
      else case fold (\<lambda>e best.
                  if live_candidate policy e \<and>
                     (case best of None \<Rightarrow> True | Some cur \<Rightarrow> le_redundant_revisits cur < le_redundant_revisits e)
                  then Some e else best) (is_ledgers st) None of
             None \<Rightarrow> None
           | Some e \<Rightarrow>
               let already = max (le_recovery_count e) (case existing_counts (le_ledger_id e) of Some n \<Rightarrow> n | None \<Rightarrow> 0);
                   level = (if already = 0 then Warned else Escalated)
               in if 2 \<le> already then None
                  else Some \<lparr>ra_ledger_id = le_ledger_id e, ra_message = recovery_message e level,
                             ra_recovery_count = saturating_add already 1, ra_level = level\<rparr>)"

section \<open>Diagnostics\<close>

definition result_class :: "evidence_result \<Rightarrow> string" where
  "result_class r =
     (case r of
        Found \<Rightarrow> ''found''
      | NoResult \<Rightarrow> ''no_result''
      | ErrorResult family \<Rightarrow> ''error:'' @ debug_error_family family
      | Completed \<Rightarrow> ''completed''
      | UnknownResult \<Rightarrow> ''unknown'')"

record investigation_operation_diagnostic =
  od_operation_kind :: evidence_operation_kind
  od_channel :: evidence_channel
  od_bounded_subjects :: "string list"
  od_result_class :: string
  od_stable_evidence_digest :: "string option"
  od_source_index :: nat

definition operation_diagnostic :: "evidence_operation \<Rightarrow> investigation_operation_diagnostic" where
  "operation_diagnostic op =
     \<lparr>od_operation_kind = eo_operation op, od_channel = channel op, od_bounded_subjects = take 6 (map cs_key (subjects op)),
      od_result_class = result_class (eo_result op),
      od_stable_evidence_digest = (case stable_evidence op of s # _ \<Rightarrow> Some (es_digest s) | [] \<Rightarrow> None),
      od_source_index = source_index op\<rparr>"

definition error_family_label :: "error_family \<Rightarrow> string" where
  "error_family_label family = debug_error_family family"

record 'f investigation_link_diagnostic =
  kd_candidate_ledger :: "string option"
  kd_link_method :: link_method
  kd_confidence_tier :: investigation_link_confidence
  kd_model :: "string option"
  kd_model_version :: "string option"
  kd_similarity :: "'f option"
  kd_top2_margin :: "'f option"

definition link_diagnostic ::
  "string option \<Rightarrow> link_method \<Rightarrow> investigation_link_confidence \<Rightarrow> 'f investigation_link_diagnostic"
where
  "link_diagnostic ledger_id method confidence =
     \<lparr>kd_candidate_ledger = ledger_id, kd_link_method = method, kd_confidence_tier = confidence, kd_model = None,
      kd_model_version = None, kd_similarity = None, kd_top2_margin = None\<rparr>"

record investigation_transition_diagnostic =
  td_ledger_id :: string
  td_frontier_expanded :: bool
  td_channel_coverage_expanded :: bool
  td_relevant_progress :: bool
  td_redundant_revisit_count :: u32
  td_recovery_state :: string

definition transition_diagnostic ::
  "investigation_transition \<Rightarrow> ledger_recovery_state \<Rightarrow> u32 \<Rightarrow> investigation_transition_diagnostic"
where
  "transition_diagnostic t state_now redundant_revisits =
     \<lparr>td_ledger_id = tr_ledger_id t, td_frontier_expanded = tr_frontier_expanded t,
      td_channel_coverage_expanded = tr_coverage_expanded t, td_relevant_progress = tr_relevant_progress t,
      td_redundant_revisit_count = redundant_revisits, td_recovery_state = recovery_state_str state_now\<rparr>"

record investigation_recovery_diagnostic =
  rd_ledger_id :: string
  rd_why :: string
  rd_known_evidence_signatures :: "string list"
  rd_missing_state :: string
  rd_recovery_count :: u32
  rd_post_recovery_repeated :: bool

definition recovery_diagnostic :: "recovery_action \<Rightarrow> investigation_ledger_entry \<Rightarrow> investigation_recovery_diagnostic" where
  "recovery_diagnostic action e =
     \<lparr>rd_ledger_id = ra_ledger_id action, rd_why = ''redundant_revisit_without_frontier_or_relevant_progress'',
      rd_known_evidence_signatures = take 8 (map es_digest (le_evidence_frontier e)),
      rd_missing_state = ''independent evidence still absent'', rd_recovery_count = ra_recovery_count action,
      rd_post_recovery_repeated = (ra_level action = Escalated)\<rparr>"

section \<open>Runs\<close>

text \<open>A run is a list of operations, each with the policy and the progress of its request.\<close>

type_synonym reducer_input = "investigation_policy \<times> evidence_operation \<times> material_progress_state"

fun reduce_run ::
  "'f reducer_env \<Rightarrow> reducer_input list \<Rightarrow> investigation_ledger_state \<Rightarrow> investigation_transition list \<times> investigation_ledger_state"
where
  "reduce_run env [] st = ([], st)"
| "reduce_run env ((policy, op, progress) # xs) st =
     (case reduce_investigation env policy op progress st of
        (t, st1) \<Rightarrow> (case reduce_run env xs st1 of (ts, st2) \<Rightarrow> (t # ts, st2)))"

definition lookup_ledger :: "string \<Rightarrow> investigation_ledger_state \<Rightarrow> investigation_ledger_entry option" where
  "lookup_ledger i st = find (\<lambda>e. le_ledger_id e = i) (is_ledgers st)"

definition recoveries_of :: "string \<Rightarrow> investigation_transition list \<Rightarrow> recovery_action list" where
  "recoveries_of i ts = filter (\<lambda>a. ra_ledger_id a = i) (List.map_filter tr_recovery ts)"

definition creations_of :: "string \<Rightarrow> investigation_transition list \<Rightarrow> nat" where
  "creations_of i ts = length (filter (\<lambda>t. tr_created t \<and> tr_ledger_id t = i) ts)"

section \<open>Two recoveries per ledger\<close>

lemma find_modify_first_other:
  "(\<And>x. P x \<Longrightarrow> \<not> Q x) \<Longrightarrow> (\<And>x. P x \<Longrightarrow> P (f x)) \<Longrightarrow> find Q (modify_first P f xs) = find Q xs"
  by (induction xs) auto

lemma find_modify_first_same: "find P xs = Some x \<Longrightarrow> P (f x) \<Longrightarrow> find P (modify_first P f xs) = Some (f x)"
  by (induction xs) (auto split: if_splits)

lemma find_filter_other: "find (\<lambda>e. f e = i) (filter (\<lambda>e. f e \<noteq> j) xs) = (if i = j then None else find (\<lambda>e. f e = i) xs)"
  by (induction xs) auto

lemma observe_entry_fields:
  "observe_entry seq op progress e = (f, c, r, e') \<Longrightarrow>
   le_ledger_id e' = le_ledger_id e \<and> le_recovery_count e' = le_recovery_count e \<and>
   le_redundant_revisits e' = le_redundant_revisits e \<and> le_identity e' = le_identity e"
  by (auto simp: observe_entry_def Let_def)

lemma maybe_recovery_cases:
  "maybe_recovery policy redundant e = (rec, e') \<Longrightarrow>
   rec = None \<and> e' = e \<or>
   (\<exists>a. rec = Some a \<and> ra_ledger_id a = le_ledger_id e \<and> le_recovery_count e < 2 \<and>
      le_recovery_count e' = saturating_add (le_recovery_count e) 1 \<and> le_ledger_id e' = le_ledger_id e)"
  by (auto simp: maybe_recovery_def Let_def not_le split: if_splits)

lemma reduce_entry_steps:
  assumes "reduce_entry policy seq op progress e = ((f, c, r, rr, rec), e')"
  obtains e1 n m where "observe_entry seq op progress e = (f, c, r, e1)"
    and "maybe_recovery policy rr (e1\<lparr>le_redundant_revisits := n, le_attempts_without_frontier_progress := m\<rparr>) = (rec, e')"
proof -
  obtain f' c' r' e1 where obs: "observe_entry seq op progress e = (f', c', r', e1)" by (cases "observe_entry seq op progress e") auto
  define redundant where "redundant = (\<not> c' \<and> \<not> f' \<and> \<not> r' \<and> \<not> le_resolved e1 \<and> channel op \<in> set (le_channels_seen e1))"
  define e2 where "e2 = (if redundant
      then e1\<lparr>le_redundant_revisits := saturating_add (le_redundant_revisits e1) 1,
              le_attempts_without_frontier_progress := saturating_add (le_attempts_without_frontier_progress e1) 1\<rparr>
      else if f' \<or> c' \<or> r' then e1\<lparr>le_attempts_without_frontier_progress := 0\<rparr> else e1)"
  obtain rec' e3 where may: "maybe_recovery policy redundant e2 = (rec', e3)" by fastforce
  have "((f', c', r', redundant, rec'), e3) = ((f, c, r, rr, rec), e')"
    using assms unfolding reduce_entry_def obs prod.case Let_def redundant_def [symmetric] e2_def [symmetric] may .
  then have same: "f' = f" "c' = c" "r' = r" "redundant = rr" "rec' = rec" "e3 = e'" by simp_all
  have e2: "e2 = e1\<lparr>le_redundant_revisits := le_redundant_revisits e2,
      le_attempts_without_frontier_progress := le_attempts_without_frontier_progress e2\<rparr>" by (simp add: e2_def)
  have "maybe_recovery policy rr (e1\<lparr>le_redundant_revisits := le_redundant_revisits e2,
      le_attempts_without_frontier_progress := le_attempts_without_frontier_progress e2\<rparr>) = (rec, e')"
    using may unfolding same e2 [symmetric] .
  with obs show thesis unfolding same by (rule that)
qed

lemma reduce_entry_recovery:
  assumes "reduce_entry policy seq op progress e = ((f, c, r, rr, rec), e')"
  shows "le_ledger_id e' = le_ledger_id e"
    and "rec = None \<and> le_recovery_count e' = le_recovery_count e \<or>
      (\<exists>a. rec = Some a \<and> ra_ledger_id a = le_ledger_id e \<and> le_recovery_count e < 2 \<and>
         unat (le_recovery_count e') = Suc (unat (le_recovery_count e)))"
proof -
  obtain e1 n m where obs: "observe_entry seq op progress e = (f, c, r, e1)"
    and may: "maybe_recovery policy rr (e1\<lparr>le_redundant_revisits := n, le_attempts_without_frontier_progress := m\<rparr>) = (rec, e')"
    using reduce_entry_steps [OF assms] by blast
  have small: "unat (saturating_add n 1) = Suc (unat n)" if "n < 2" for n :: u32
  proof -
    have "unat n < 2" using that unat_mono [of n 2] by simp
    then show ?thesis by (simp add: sat_arith)
  qed
  from maybe_recovery_cases [OF may] observe_entry_fields [OF obs] small
  show "le_ledger_id e' = le_ledger_id e" "rec = None \<and> le_recovery_count e' = le_recovery_count e \<or>
      (\<exists>a. rec = Some a \<and> ra_ledger_id a = le_ledger_id e \<and> le_recovery_count e < 2 \<and>
         unat (le_recovery_count e') = Suc (unat (le_recovery_count e)))"
    by auto
qed

lemma bound_loop_lookup: "lookup_ledger i (bound_loop encoded_len policy order st) \<in> {lookup_ledger i st, None}"
proof (induction order arbitrary: st)
  case (Cons j order)
  let ?st = "st\<lparr>is_ledgers := filter (\<lambda>e. le_ledger_id e \<noteq> j) (is_ledgers st)\<rparr>"
  have "lookup_ledger i ?st \<in> {lookup_ledger i st, None}" by (simp add: lookup_ledger_def find_filter_other)
  then show ?case using Cons.IH [of st] Cons.IH [of ?st] by auto
qed simp

lemma bound_ledgers_lookup: "lookup_ledger i (bound_ledgers encoded_len policy st) \<in> {lookup_ledger i st, None}"
  using bound_loop_lookup by (simp add: bound_ledgers_def)

definition recovery_credit :: "string \<Rightarrow> investigation_ledger_state \<Rightarrow> nat" where
  "recovery_credit i st = (case lookup_ledger i st of Some e \<Rightarrow> 2 - unat (le_recovery_count e) | None \<Rightarrow> 0)"

lemma bound_ledgers_credit: "recovery_credit i (bound_ledgers encoded_len policy st) \<le> recovery_credit i st"
  using bound_ledgers_lookup [of i encoded_len policy st] by (auto simp: recovery_credit_def)

lemma recoveries_Cons:
  "length (recoveries_of i (t # ts)) = length (recoveries_of i [t]) + length (recoveries_of i ts)"
  "creations_of i (t # ts) = creations_of i [t] + creations_of i ts"
  by (simp_all add: recoveries_of_def creations_of_def List.map_filter_def)

lemma find_append: "find P (xs @ ys) = (case find P xs of Some x \<Rightarrow> Some x | None \<Rightarrow> find P ys)"
  by (induction xs) auto

lemma reduce_linked_credit:
  assumes "reduce_linked env policy op progress identity st = (t, st')"
  shows "length (recoveries_of i [t]) + recovery_credit i st' \<le> recovery_credit i st + 2 * creations_of i [t]"
proof -
  define decision where "decision = re_linker env op identity (descriptors_of (is_ledgers st))"
  define j where "j = (case dn_ledger_id decision of Some i \<Rightarrow> i | None \<Rightarrow> stable_ledger_id (re_sha env) identity)"
  define created where "created = (dn_created decision \<or> \<not> list_ex (\<lambda>e. le_ledger_id e = j) (is_ledgers st))"
  define ledgers where "ledgers = (if created then is_ledgers st @ [new_entry j identity progress (is_next_seq st) (dn_method decision) op]
      else is_ledgers st)"
  let ?st = "st\<lparr>is_ledgers := ledgers\<rparr>"
  have grown: "recovery_credit i ?st \<le> recovery_credit i st + (if created \<and> j = i then 2 else 0)"
    by (auto simp: recovery_credit_def lookup_ledger_def ledgers_def new_entry_def find_append split: option.split)
  note run = assms [unfolded reduce_linked_def Let_def, folded decision_def, folded j_def, folded created_def, folded ledgers_def]
  show ?thesis
  proof (cases "find (\<lambda>e. le_ledger_id e = j) ledgers")
    case None
    then have "t = skipped_transition j (dn_method decision) (dn_confidence decision) created" "st' = ?st" using run by auto
    then show ?thesis using grown by (auto simp: recoveries_of_def creations_of_def skipped_transition_def List.map_filter_def)
  next
    case (Some e)
    then have j: "le_ledger_id e = j" by (auto simp: find_Some_iff)
    obtain f c r rr rec e' where red: "reduce_entry policy (is_next_seq st) op progress e = ((f, c, r, rr, rec), e')"
      by (metis surj_pair)
    note facts = reduce_entry_recovery [OF red]
    let ?st2 = "st\<lparr>is_ledgers := modify_first (\<lambda>e. le_ledger_id e = j) (\<lambda>_. e') ledgers\<rparr>"
    have t: "tr_recovery t = rec" "tr_created t = created" "tr_ledger_id t = j"
      and st': "st' = bound_ledgers (re_encoded_len env) policy ?st2" using run Some red by auto
    have "length (recoveries_of i [t]) + recovery_credit i ?st2 \<le> recovery_credit i ?st"
    proof (cases "i = j")
      case True
      have "lookup_ledger i ?st2 = Some e'" "lookup_ledger i ?st = Some e"
        using find_modify_first_same [OF Some, of "\<lambda>_. e'"] Some True j facts(1) by (simp_all add: lookup_ledger_def)
      moreover have "le_recovery_count e < 2 \<Longrightarrow> unat (le_recovery_count e) < 2" using unat_mono [of "le_recovery_count e" 2] by simp
      ultimately show ?thesis using facts(2)
        by (auto simp: recovery_credit_def recoveries_of_def t List.map_filter_def)
    next
      case False
      have "lookup_ledger i ?st2 = lookup_ledger i ?st" using False facts(1) j
        by (simp add: lookup_ledger_def find_modify_first_other)
      then show ?thesis using False facts(2) j by (auto simp: recovery_credit_def recoveries_of_def t List.map_filter_def)
    qed
    with grown bound_ledgers_credit [of i "re_encoded_len env" policy ?st2] show ?thesis
      by (auto simp: st' creations_of_def t)
  qed
qed

lemma reduce_credit:
  assumes "reduce_investigation env policy op progress st = (t, st')"
  shows "length (recoveries_of i [t]) + recovery_credit i st' \<le> recovery_credit i st + 2 * creations_of i [t]"
proof -
  let ?st = "st\<lparr>is_schema_version := INVESTIGATION_LEDGER_SCHEMA_VERSION, is_progress := progress,
    is_next_seq := saturating_add (is_next_seq st) 1\<rparr>"
  have same: "recovery_credit i ?st = recovery_credit i st" by (simp add: recovery_credit_def lookup_ledger_def)
  show ?thesis using assms reduce_linked_credit [of env policy op progress _ ?st t st' i]
    by (auto simp: reduce_investigation_def Let_def same [simplified] recoveries_of_def creations_of_def skipped_transition_def
        List.map_filter_def recovery_credit_def lookup_ledger_def split: if_splits)
qed

text \<open>
  C37: The agent is warned about an investigation once and reminded once: along any run of operations,
  with any policies and any linker, the recoveries of a ledger are at most two per creation of it.
\<close>

theorem two_recoveries_per_ledger:
  assumes "reduce_run env inputs st = (ts, st')" and "is_ledgers st = []"
  shows "length (recoveries_of i ts) \<le> 2 * creations_of i ts"
proof -
  have "length (recoveries_of i ts) + recovery_credit i st' \<le> recovery_credit i st + 2 * creations_of i ts"
    using assms(1)
  proof (induction inputs arbitrary: st ts)
    case (Cons x xs)
    obtain policy op progress where x: "x = (policy, op, progress)" by (cases x)
    obtain t st1 where red: "reduce_investigation env policy op progress st = (t, st1)" by fastforce
    obtain ts' where rest: "reduce_run env xs st1 = (ts', st')" "ts = t # ts'"
      using Cons.prems x red by (auto split: prod.splits)
    show ?case unfolding rest(2) using Cons.IH [OF rest(1)] reduce_credit [OF red, of i] recoveries_Cons [of i t ts'] by linarith
  qed (simp add: recoveries_of_def creations_of_def List.map_filter_def)
  then show ?thesis using assms(2) by (simp add: recovery_credit_def lookup_ledger_def)
qed

text \<open>A probe that never finds anything new, repeated: the first visit covers its channel, then revisits add up.\<close>

definition sample_env :: "unit reducer_env" where
  "sample_env = \<lparr>re_sha = (\<lambda>_. ''0123456789abcdef0123''), re_channel_of = (\<lambda>_. Workspace), re_encoded_len = (\<lambda>st. 100 * length (is_ledgers st)),
     re_linker = symbolic_link null_semantic_linker\<rparr>"

definition sample_progress :: material_progress_state where
  "sample_progress = \<lparr>mp_workspace_revision = 0, mp_vcs_revision = 0, mp_test_revision = 0, mp_user_instruction_revision = 0,
     mp_external_revision = 0\<rparr>"

definition sample_probe :: "evidence_result \<Rightarrow> evidence_operation" where
  "sample_probe result =
     \<lparr>source_index = 1, occurrence_id = ''occ'', eo_operation = Query, channel = Workspace,
      subjects = [\<lparr>cs_kind = TaskLiteral, cs_key = ''NEEDLE''\<rparr>], eo_result = result,
      stable_evidence = [\<lparr>es_level = StructuredFact, es_digest = ''d1'', es_provenance = Independent, es_fact = Some ''seen''\<rparr>],
      descriptor = ''Query [N] rg'', completed = True\<rparr>"

definition empty_ledger_state :: investigation_ledger_state where
  "empty_ledger_state = \<lparr>is_schema_version = 0, is_ledgers = [], is_progress = sample_progress, is_next_seq = 0,
     is_task_stall = default_stall_state\<rparr>"

definition sample_probes :: "nat \<Rightarrow> evidence_result \<Rightarrow> reducer_input list" where
  "sample_probes n result = replicate n (policy_in_mode LedgerRecover, sample_probe result, sample_progress)"

definition sample_identity :: investigation_identity where
  "sample_identity = \<lparr>ii_predicate = Locate, ii_subjects = [\<lparr>cs_kind = TaskLiteral, cs_key = ''NEEDLE''\<rparr>], ii_task_revision = 0\<rparr>"

lemma sample_identity_eq: "identity_from_operation (\<lambda>_. Workspace) (sample_probe result) 0 = sample_identity"
  by (simp add: identity_from_operation_def sample_probe_def sample_identity_def descriptor_command_def) code_simp

definition probed :: "u64 \<Rightarrow> u32 \<Rightarrow> u32 \<Rightarrow> ledger_recovery_state \<Rightarrow> investigation_ledger_state" where
  "probed seq visits count level = empty_ledger_state\<lparr>is_schema_version := 3, is_next_seq := seq,
     is_ledgers := [\<lparr>le_ledger_id = ''inv:0123456789abcdef'', le_identity = sample_identity, le_channels_seen = [Workspace],
       le_depends_on = [Workspace], le_evidence_frontier = stable_evidence (sample_probe NoResult),
       le_attempts_without_frontier_progress = visits, le_redundant_revisits = visits, le_last_seen_progress = sample_progress,
       le_recovery_count = count, le_recovery_state = level, le_last_activity_seq = seq,
       le_link_provenance = ProvisionalProvenance, le_bounded_descriptor = ''Query [N] rg'', le_resolved = False\<rparr>]\<rparr>"

lemma sample_ledger_id: "stable_ledger_id (\<lambda>_. ''0123456789abcdef0123'') i = ''inv:0123456789abcdef''"
  by (simp add: stable_ledger_id_def)

lemma sample_probe_fields:
  "eo_operation (sample_probe result) = Query" "channel (sample_probe result) = Workspace" "completed (sample_probe result)"
  "eo_result (sample_probe result) = result" "stable_evidence (sample_probe result) =
     [\<lparr>es_level = StructuredFact, es_digest = ''d1'', es_provenance = Independent, es_fact = Some ''seen''\<rparr>]"
  "concat (take 160 (chars (descriptor (sample_probe result)))) = ''Query [N] rg''"
proof -
  show "concat (take 160 (chars (descriptor (sample_probe result)))) = ''Query [N] rg''"
    unfolding sample_probe_def evidence_operation.select_convs by code_simp
qed (simp_all add: sample_probe_def)

lemma saturating_add_small:
  "saturating_add 0 (1 :: u64) = 1" "saturating_add 0 (1 :: u32) = 1"
  "saturating_add 1 (1 :: u64) = 2" "saturating_add 2 (1 :: u64) = 3" "saturating_add 3 (1 :: u64) = 4" "saturating_add 4 (1 :: u64) = 5"
  "saturating_add 5 (1 :: u64) = 6"
  "saturating_add 1 (1 :: u32) = 2" "saturating_add 2 (1 :: u32) = 3" "saturating_add 3 (1 :: u32) = 4" "saturating_add 4 (1 :: u32) = 5"
  by (simp_all add: saturating_add_def)

lemmas probe_simps = sample_identity_eq [unfolded sample_identity_def] sample_ledger_id sample_probe_fields saturating_add_small
  reduce_investigation_def Let_def reduce_linked_def sample_env_def symbolic_link_def shadow_rank_def identities_exact_def
  descriptors_of_def reduce_entry_def observe_entry_def is_investigation_operation_def bound_ledgers_def ledgers_fit_def channel_insert_def
  relevant_progress_since_def channel_progressed_def extend_frontier_def can_resolve_ledger_def can_resolve_def maybe_recovery_def
  probed_def empty_ledger_state_def sample_progress_def sample_identity_def new_entry_def snapshot_for_def INVESTIGATION_LEDGER_SCHEMA_VERSION_def
  policy_in_mode_def ledger_injects_recovery_def DEFAULT_REDUNDANT_REVISIT_THRESHOLD_def

lemma probe_first:
  "\<exists>t. reduce_investigation sample_env (policy_in_mode LedgerRecover) (sample_probe NoResult) sample_progress empty_ledger_state =
     (t, probed 1 0 0 NoRecovery) \<and> tr_recovery t = None"
  by (simp add: probe_simps)

lemma probe_again:
  "\<exists>t. reduce_investigation sample_env (policy_in_mode LedgerRecover) (sample_probe NoResult) sample_progress (probed 1 0 0 NoRecovery) =
     (t, probed 2 1 0 NoRecovery) \<and> tr_recovery t = None"
  "\<exists>t. reduce_investigation sample_env (policy_in_mode LedgerRecover) (sample_probe NoResult) sample_progress (probed 2 1 0 NoRecovery) =
     (t, probed 3 2 0 NoRecovery) \<and> tr_recovery t = None"
  "\<exists>t a. reduce_investigation sample_env (policy_in_mode LedgerRecover) (sample_probe NoResult) sample_progress (probed 3 2 0 NoRecovery) =
     (t, probed 4 3 1 Warned) \<and> tr_recovery t = Some a \<and> ra_level a = Warned"
  "\<exists>t a. reduce_investigation sample_env (policy_in_mode LedgerRecover) (sample_probe NoResult) sample_progress (probed 4 3 1 Warned) =
     (t, probed 5 4 2 Escalated) \<and> tr_recovery t = Some a \<and> ra_level a = Escalated"
  "\<exists>t. reduce_investigation sample_env (policy_in_mode LedgerRecover) (sample_probe NoResult) sample_progress (probed 5 4 2 Escalated) =
     (t, probed 6 5 2 Escalated) \<and> tr_recovery t = None"
  by (simp_all add: probe_simps word_le_nat_alt)

theorem two_recoveries_per_ledger_witness:
  "\<exists>ts st'. reduce_run sample_env (sample_probes 6 NoResult) empty_ledger_state = (ts, st') \<and>
     map (map_option ra_level \<circ> tr_recovery) ts = [None, None, None, Some Warned, Some Escalated, None] \<and>
     length (recoveries_of ''inv:0123456789abcdef'' ts) \<le> 2 * creations_of ''inv:0123456789abcdef'' ts"
proof -
  obtain ts st' where run: "reduce_run sample_env (sample_probes 6 NoResult) empty_ledger_state = (ts, st')" by fastforce
  moreover have "map (map_option ra_level \<circ> tr_recovery) ts = [None, None, None, Some Warned, Some Escalated, None]"
    using run probe_first probe_again by (auto simp: sample_probes_def eval_nat_numeral)
  moreover have "length (recoveries_of ''inv:0123456789abcdef'' ts) \<le> 2 * creations_of ''inv:0123456789abcdef'' ts"
    by (rule two_recoveries_per_ledger [OF run]) (simp add: empty_ledger_state_def)
  ultimately show ?thesis by (intro exI conjI)
qed

text \<open>
  The revisits are not counted anew when evidence arrives: one revisit after the frontier has grown
  draws the escalation, whose text says that the frontier has not changed.
\<close>

lemma escalation_after_new_evidence:
  fixes op :: evidence_operation
  defines "op \<equiv> (sample_probe NoResult)\<lparr>stable_evidence :=
    [\<lparr>es_level = StructuredFact, es_digest = ''d2'', es_provenance = Independent, es_fact = None\<rparr>]\<rparr>"
  shows "\<exists>e1 e2 a. reduce_entry (policy_in_mode LedgerRecover) 5 op sample_progress (hd (is_ledgers (probed 4 3 1 Warned))) =
      ((True, False, False, False, None), e1) \<and>
    reduce_entry (policy_in_mode LedgerRecover) 6 op sample_progress e1 = ((False, False, False, True, Some a), e2) \<and> ra_level a = Escalated"
  by (simp add: op_def probe_simps word_le_nat_alt)

section \<open>Retention\<close>

lemma distinct_find: "distinct (map f xs) \<Longrightarrow> x \<in> set xs \<Longrightarrow> find (\<lambda>y. f y = f x) xs = Some x"
  by (induction xs) (auto simp: rev_image_eqI)

lemma filter_key_distinct:
  "distinct (map f xs) \<Longrightarrow> x \<in> set xs \<Longrightarrow> filter (\<lambda>y. f y \<noteq> f x) xs = filter (\<lambda>y. y \<noteq> x) xs"
  by (rule filter_cong [OF refl]) (metis distinct_map inj_onD)

lemma filter_neq_nonempty: "distinct xs \<Longrightarrow> 1 < length xs \<Longrightarrow> filter (\<lambda>y. y \<noteq> x) xs \<noteq> []"
  by (cases xs rule: remdups_adj.cases) auto

text \<open>The loop drops those of a first part of the order that carry no warning.\<close>

lemma bound_loop_spec:
  assumes "distinct (map le_ledger_id (is_ledgers st))" and "distinct order" and "set order \<subseteq> set (is_ledgers st)"
  shows "\<exists>n. is_ledgers (bound_loop encoded_len policy (map le_ledger_id order) st) =
      filter (\<lambda>e. e \<notin> set (filter (\<lambda>e. \<not> is_warned e) (take n order))) (is_ledgers st) \<and>
    (is_ledgers st \<noteq> [] \<longrightarrow> is_ledgers (bound_loop encoded_len policy (map le_ledger_id order) st) \<noteq> []) \<and>
    (length order \<le> n \<or> length (is_ledgers (bound_loop encoded_len policy (map le_ledger_id order) st)) \<le> 1 \<or>
     ledgers_fit encoded_len policy (bound_loop encoded_len policy (map le_ledger_id order) st))"
  using assms
proof (induction order arbitrary: st)
  case Nil
  show ?case by (rule exI [of _ 0]) simp
next
  case (Cons e order)
  have found: "find (\<lambda>x. le_ledger_id x = le_ledger_id e) (is_ledgers st) = Some e"
    using Cons.prems by (intro distinct_find) auto
  show ?case
  proof (cases "length (is_ledgers st) \<le> 1 \<or> ledgers_fit encoded_len policy st")
    case True
    then show ?thesis by (intro exI [of _ 0]) auto
  next
    case more: False
    show ?thesis
    proof (cases "is_warned e")
      case True
      have "distinct order" "set order \<subseteq> set (is_ledgers st)" using Cons.prems by auto
      from Cons.IH [OF Cons.prems(1) this] obtain n where n:
        "is_ledgers (bound_loop encoded_len policy (map le_ledger_id order) st) =
           filter (\<lambda>e. e \<notin> set (filter (\<lambda>e. \<not> is_warned e) (take n order))) (is_ledgers st)"
        "is_ledgers st \<noteq> [] \<longrightarrow> is_ledgers (bound_loop encoded_len policy (map le_ledger_id order) st) \<noteq> []"
        "length order \<le> n \<or> length (is_ledgers (bound_loop encoded_len policy (map le_ledger_id order) st)) \<le> 1 \<or>
         ledgers_fit encoded_len policy (bound_loop encoded_len policy (map le_ledger_id order) st)"
        by blast
      show ?thesis using more True found n by (intro exI [of _ "Suc n"]) simp
    next
      case False
      let ?st = "st\<lparr>is_ledgers := filter (\<lambda>x. x \<noteq> e) (is_ledgers st)\<rparr>"
      have drop: "filter (\<lambda>x. le_ledger_id x \<noteq> le_ledger_id e) (is_ledgers st) = filter (\<lambda>x. x \<noteq> e) (is_ledgers st)"
        using Cons.prems by (intro filter_key_distinct) auto
      have "distinct (map le_ledger_id (is_ledgers ?st))" "set order \<subseteq> set (is_ledgers ?st)" "distinct order"
        using Cons.prems by (auto intro: distinct_map_filter)
      from Cons.IH [OF this(1,3,2)] obtain n where n:
        "is_ledgers (bound_loop encoded_len policy (map le_ledger_id order) ?st) =
           filter (\<lambda>e. e \<notin> set (filter (\<lambda>e. \<not> is_warned e) (take n order))) (is_ledgers ?st)"
        "is_ledgers ?st \<noteq> [] \<longrightarrow> is_ledgers (bound_loop encoded_len policy (map le_ledger_id order) ?st) \<noteq> []"
        "length order \<le> n \<or> length (is_ledgers (bound_loop encoded_len policy (map le_ledger_id order) ?st)) \<le> 1 \<or>
         ledgers_fit encoded_len policy (bound_loop encoded_len policy (map le_ledger_id order) ?st)"
        by blast
      have loop: "bound_loop encoded_len policy (map le_ledger_id (e # order)) st = bound_loop encoded_len policy (map le_ledger_id order) ?st"
        using more False found by (simp add: drop)
      have nonempty: "is_ledgers ?st \<noteq> []" using more Cons.prems(1) filter_neq_nonempty [of "is_ledgers st" e]
        by (simp add: distinct_map)
      have led: "is_ledgers ?st = filter (\<lambda>x. x \<noteq> e) (is_ledgers st)" by simp
      have eq: "filter (\<lambda>x. x \<notin> set (filter (\<lambda>e. \<not> is_warned e) (take n order))) (is_ledgers ?st) =
          filter (\<lambda>x. x \<notin> set (filter (\<lambda>e. \<not> is_warned e) (take (Suc n) (e # order)))) (is_ledgers st)"
        unfolding led filter_filter by (rule filter_cong) (use False in auto)
      show ?thesis unfolding loop length_Cons Suc_le_mono
        using trans [OF n(1) eq] n(2) nonempty n(3) by (intro exI [of _ "Suc n"] conjI impI) (unfold Suc_le_mono, blast+)
    qed
  qed
qed

text \<open>
  Retention never forgets a warning: trimming the ledgers keeps every ledger whose warning stands and at
  least one ledger, drops the others from the least important up (what was dropped ranks behind every
  kept ledger without a warning), and stops only when the state fits, one ledger is left, or all that is
  left carries a warning.
\<close>

theorem bound_ledgers_retention:
  assumes "distinct (map le_ledger_id (is_ledgers st))"
  shows "let kept = is_ledgers (bound_ledgers encoded_len policy st) in
    set kept \<subseteq> set (is_ledgers st) \<and> (is_ledgers st \<noteq> [] \<longrightarrow> kept \<noteq> []) \<and>
    (\<forall>e \<in> set (is_ledgers st). is_warned e \<longrightarrow> e \<in> set kept) \<and>
    (\<forall>e \<in> set (is_ledgers st) - set kept. \<forall>e' \<in> set kept. \<not> is_warned e' \<longrightarrow> retention_key policy e' \<le> retention_key policy e) \<and>
    (length kept \<le> 1 \<or> ledgers_fit encoded_len policy (bound_ledgers encoded_len policy st) \<or> list_all is_warned kept)"
proof (cases "length (is_ledgers st) \<le> 1 \<or> ledgers_fit encoded_len policy st")
  case True
  then show ?thesis by (auto simp: bound_ledgers_def Let_def)
next
  case False
  let ?order = "rev (sort_key (retention_key policy) (is_ledgers st))"
  let ?r = "bound_loop encoded_len policy (map le_ledger_id ?order) st"
  have r: "bound_ledgers encoded_len policy st = ?r" using False by (simp add: bound_ledgers_def rev_map)
  have order: "distinct ?order" "set ?order = set (is_ledgers st)" using assms by (auto simp: distinct_map)
  from bound_loop_spec [OF assms order(1), of encoded_len policy] order(2) obtain n where n:
    "is_ledgers ?r = filter (\<lambda>e. e \<notin> set (filter (\<lambda>e. \<not> is_warned e) (take n ?order))) (is_ledgers st)"
    "is_ledgers st \<noteq> [] \<longrightarrow> is_ledgers ?r \<noteq> []"
    "length ?order \<le> n \<or> length (is_ledgers ?r) \<le> 1 \<or> ledgers_fit encoded_len policy ?r"
    by blast
  have "sorted_wrt (\<lambda>x y. retention_key policy y \<le> retention_key policy x) (take n ?order @ drop n ?order)"
    using sorted_sort_key [of "retention_key policy" "is_ledgers st"] by (simp add: sorted_map sorted_wrt_rev)
  then have sorted: "retention_key policy e' \<le> retention_key policy e" if "e \<in> set (take n ?order)" "e' \<in> set (drop n ?order)" for e e'
    unfolding sorted_wrt_append using that by blast
  have kept: "e \<in> set (is_ledgers ?r) \<longleftrightarrow> e \<in> set (is_ledgers st) \<and> (is_warned e \<or> e \<notin> set (take n ?order))" for e
    by (auto simp: n(1))
  have split: "e \<in> set (is_ledgers st) \<longleftrightarrow> e \<in> set (take n ?order) \<or> e \<in> set (drop n ?order)" for e
    using order(2) by (metis Un_iff append_take_drop_id set_append)
  have "list_all is_warned (is_ledgers ?r)" if "length ?order \<le> n"
    using that order(2) kept by (auto simp: list_all_iff)
  then show ?thesis unfolding r Let_def using n(2,3) kept split sorted by blast
qed

definition sample_entry :: "string \<Rightarrow> u64 \<Rightarrow> ledger_recovery_state \<Rightarrow> investigation_ledger_entry" where
  "sample_entry i seq level = (new_entry i (identity_from_operation (\<lambda>_. Workspace) (sample_probe NoResult) 0) sample_progress seq
     Provisional (sample_probe NoResult))\<lparr>le_recovery_state := level\<rparr>"

definition sample_ledgers :: investigation_ledger_state where
  "sample_ledgers = empty_ledger_state\<lparr>is_ledgers := [sample_entry ''a'' 1 Warned, sample_entry ''b'' 2 NoRecovery, sample_entry ''c'' 3 NoRecovery]\<rparr>"

theorem bound_ledgers_retention_witness:
  "map le_ledger_id (is_ledgers (bound_ledgers (re_encoded_len sample_env)
     ((policy_in_mode LedgerRecover)\<lparr>ip_serialized_budget_bytes := 200\<rparr>) sample_ledgers)) = [''a'', ''c''] \<and>
   sample_entry ''a'' 1 Warned \<in> set (is_ledgers (bound_ledgers (re_encoded_len sample_env)
     ((policy_in_mode LedgerRecover)\<lparr>ip_serialized_budget_bytes := 200\<rparr>) sample_ledgers))"
proof
  show "map le_ledger_id (is_ledgers (bound_ledgers (re_encoded_len sample_env)
     ((policy_in_mode LedgerRecover)\<lparr>ip_serialized_budget_bytes := 200\<rparr>) sample_ledgers)) = [''a'', ''c'']" by code_simp
  have "distinct (map le_ledger_id (is_ledgers sample_ledgers))" by code_simp
  note kept = bound_ledgers_retention [OF this, of "re_encoded_len sample_env"
      "(policy_in_mode LedgerRecover)\<lparr>ip_serialized_budget_bytes := 200\<rparr>"]
  have "sample_entry ''a'' 1 Warned \<in> set (is_ledgers sample_ledgers)" by (simp add: sample_ledgers_def)
  moreover have "is_warned (sample_entry ''a'' 1 Warned)" by (simp add: is_warned_def sample_entry_def)
  ultimately show "sample_entry ''a'' 1 Warned \<in> set (is_ledgers (bound_ledgers (re_encoded_len sample_env)
     ((policy_in_mode LedgerRecover)\<lparr>ip_serialized_budget_bytes := 200\<rparr>) sample_ledgers))"
    using kept unfolding Let_def by blast
qed

section \<open>Evidence\<close>

lemma set_modify_first: "set (modify_first P (\<lambda>_. y) xs) \<subseteq> insert y (set xs)"
  by (induction xs) auto

lemma bound_loop_subset: "set (is_ledgers (bound_loop encoded_len policy order st)) \<subseteq> set (is_ledgers st)"
proof (induction order arbitrary: st)
  case (Cons j order)
  let ?st = "st\<lparr>is_ledgers := filter (\<lambda>e. le_ledger_id e \<noteq> j) (is_ledgers st)\<rparr>"
  have "set (is_ledgers ?st) \<subseteq> set (is_ledgers st)" by auto
  then show ?case using Cons.IH [of st] Cons.IH [of ?st] by auto
qed simp

lemma bound_ledgers_subset: "set (is_ledgers (bound_ledgers encoded_len policy st)) \<subseteq> set (is_ledgers st)"
  using bound_loop_subset by (auto simp: bound_ledgers_def)

lemma extend_frontier_sound:
  "s \<in> set (extend_frontier op frontier) \<Longrightarrow>
   s \<in> set frontier \<or> s \<in> set (stable_evidence op) \<and> es_provenance s \<noteq> SelfGeneratedConversation"
proof -
  have "s \<in> set (fold (\<lambda>signature frontier. if es_provenance signature = SelfGeneratedConversation \<or> signature \<in> set frontier
       then frontier else frontier @ [signature]) sigs frontier) \<Longrightarrow>
     s \<in> set frontier \<or> s \<in> set sigs \<and> es_provenance s \<noteq> SelfGeneratedConversation" for sigs
  proof (induction sigs arbitrary: frontier)
    case (Cons x sigs)
    show ?case using Cons.IH [of frontier] Cons.IH [of "frontier @ [x]"] Cons.prems
      by (cases "es_provenance x = SelfGeneratedConversation \<or> x \<in> set frontier") auto
  qed simp
  then show "s \<in> set (extend_frontier op frontier) \<Longrightarrow> ?thesis" by (simp add: extend_frontier_def)
qed

lemma can_resolve_ledger_iff:
  "can_resolve_ledger predicate op \<longleftrightarrow>
     eo_result op = Found \<and> (\<exists>s \<in> set (stable_evidence op). es_provenance s = Independent) \<and>
     (predicate \<in> {Locate, Exists} \<longrightarrow> channel op \<noteq> Session)"
  by (auto simp: can_resolve_ledger_def can_resolve_def list_ex_iff)

lemma maybe_recovery_evidence:
  "maybe_recovery policy redundant e = (rec, e') \<Longrightarrow>
   le_identity e' = le_identity e \<and> le_evidence_frontier e' = le_evidence_frontier e \<and> le_resolved e' = le_resolved e"
  by (auto simp: maybe_recovery_def Let_def split: if_splits)

lemma reduce_entry_evidence:
  assumes "reduce_entry policy seq op progress e = (r, e')"
  shows "le_identity e' = le_identity e \<and> le_evidence_frontier e' = extend_frontier op (le_evidence_frontier e) \<and>
    (le_resolved e' \<longleftrightarrow> le_resolved e \<or> can_resolve_ledger (ii_predicate (le_identity e)) op)"
proof -
  obtain f c p rr rec where r: "r = (f, c, p, rr, rec)" by (cases r) auto
  obtain e1 n m where obs: "observe_entry seq op progress e = (f, c, p, e1)"
    and may: "maybe_recovery policy rr (e1\<lparr>le_redundant_revisits := n, le_attempts_without_frontier_progress := m\<rparr>) = (rec, e')"
    using reduce_entry_steps [OF assms [unfolded r]] by blast
  from obs have "le_identity e1 = le_identity e" "le_evidence_frontier e1 = extend_frontier op (le_evidence_frontier e)"
    "le_resolved e1 \<longleftrightarrow> le_resolved e \<or> can_resolve_ledger (ii_predicate (le_identity e)) op"
    by (auto simp: observe_entry_def Let_def)
  then show ?thesis using maybe_recovery_evidence [OF may] by simp
qed

text \<open>What an entry may hold when the completed operations so far are \<open>ops\<close>.\<close>

definition evidence_backed :: "evidence_operation set \<Rightarrow> investigation_ledger_entry \<Rightarrow> bool" where
  "evidence_backed ops e \<longleftrightarrow>
     (\<forall>s \<in> set (le_evidence_frontier e).
        es_provenance s \<noteq> SelfGeneratedConversation \<and> (\<exists>op \<in> ops. s \<in> set (stable_evidence op))) \<and>
     (le_resolved e \<longrightarrow> (\<exists>op \<in> ops. can_resolve_ledger (ii_predicate (le_identity e)) op))"

lemma evidence_backed_mono: "evidence_backed ops e \<Longrightarrow> ops \<subseteq> ops' \<Longrightarrow> evidence_backed ops' e"
  unfolding evidence_backed_def by blast

lemma reduce_entry_backed:
  assumes "reduce_entry policy seq op progress e = (r, e')" and "evidence_backed ops e"
  shows "evidence_backed (insert op ops) e'"
proof -
  note facts = reduce_entry_evidence [OF assms(1)]
  have "es_provenance s \<noteq> SelfGeneratedConversation \<and> (\<exists>op' \<in> insert op ops. s \<in> set (stable_evidence op'))"
    if "s \<in> set (le_evidence_frontier e')" for s
    using that facts extend_frontier_sound [of s op "le_evidence_frontier e"] assms(2) unfolding evidence_backed_def by auto
  moreover have "\<exists>op' \<in> insert op ops. can_resolve_ledger (ii_predicate (le_identity e')) op'" if "le_resolved e'"
    using that facts assms(2) unfolding evidence_backed_def by auto
  ultimately show ?thesis unfolding evidence_backed_def by blast
qed

lemma new_entry_backed: "evidence_backed ops (new_entry i identity progress seq method op)"
  by (simp add: evidence_backed_def new_entry_def)

lemma reduce_linked_backed:
  assumes "reduce_linked env policy op progress identity st = (t, st')" and "\<forall>e \<in> set (is_ledgers st). evidence_backed ops e"
  shows "\<forall>e \<in> set (is_ledgers st'). evidence_backed (insert op ops) e"
proof -
  define decision where "decision = re_linker env op identity (descriptors_of (is_ledgers st))"
  define j where "j = (case dn_ledger_id decision of Some i \<Rightarrow> i | None \<Rightarrow> stable_ledger_id (re_sha env) identity)"
  define created where "created = (dn_created decision \<or> \<not> list_ex (\<lambda>e. le_ledger_id e = j) (is_ledgers st))"
  define ledgers where "ledgers = (if created then is_ledgers st @ [new_entry j identity progress (is_next_seq st) (dn_method decision) op]
      else is_ledgers st)"
  note run = assms(1) [unfolded reduce_linked_def Let_def, folded decision_def, folded j_def, folded created_def, folded ledgers_def]
  have grown: "\<forall>e \<in> set ledgers. evidence_backed ops e" using assms(2) new_entry_backed by (auto simp: ledgers_def)
  show ?thesis
  proof (cases "find (\<lambda>e. le_ledger_id e = j) ledgers")
    case None
    then have "is_ledgers st' = ledgers" using run by auto
    then show ?thesis using grown evidence_backed_mono [of ops _ "insert op ops"] by blast
  next
    case (Some e)
    obtain r e' where red: "reduce_entry policy (is_next_seq st) op progress e = (r, e')" by fastforce
    let ?st2 = "st\<lparr>is_ledgers := modify_first (\<lambda>e. le_ledger_id e = j) (\<lambda>_. e') ledgers\<rparr>"
    have "st' = bound_ledgers (re_encoded_len env) policy ?st2"
      using run unfolding Some option.case red by (simp split: prod.splits)
    moreover have "set (is_ledgers ?st2) \<subseteq> insert e' (set ledgers)" using set_modify_first by simp
    ultimately have "set (is_ledgers st') \<subseteq> insert e' (set ledgers)" using bound_ledgers_subset by blast
    moreover have "e \<in> set ledgers" using Some by (auto simp: find_Some_iff)
    ultimately show ?thesis using reduce_entry_backed [OF red] grown evidence_backed_mono [of ops _ "insert op ops"] by blast
  qed
qed

lemma reduce_backed:
  assumes "reduce_investigation env policy op progress st = (t, st')" and "\<forall>e \<in> set (is_ledgers st). evidence_backed ops e"
  shows "\<forall>e \<in> set (is_ledgers st'). evidence_backed (if completed op \<and> is_investigation_operation op then insert op ops else ops) e"
proof -
  let ?st = "st\<lparr>is_schema_version := INVESTIGATION_LEDGER_SCHEMA_VERSION, is_progress := progress,
    is_next_seq := saturating_add (is_next_seq st) 1\<rparr>"
  have same: "\<forall>e \<in> set (is_ledgers ?st). evidence_backed ops e" using assms(2) by simp
  let ?identity = "identity_from_operation (re_channel_of env) op (mp_user_instruction_revision progress)"
  show ?thesis
  proof (cases "\<not> completed op \<or> \<not> is_investigation_operation op \<or> ii_subjects ?identity = []")
    case True
    then have "is_ledgers st' = is_ledgers st" using assms(1) by (auto simp: reduce_investigation_def Let_def)
    moreover have "ops \<subseteq> (if completed op \<and> is_investigation_operation op then insert op ops else ops)" by auto
    ultimately show ?thesis using assms(2) evidence_backed_mono by metis
  next
    case False
    then have "reduce_linked env policy op progress ?identity ?st = (t, st')"
      using assms(1) by (simp add: reduce_investigation_def Let_def)
    from reduce_linked_backed [OF this same] False show ?thesis by simp
  qed
qed

lemma reduce_run_backed:
  assumes "reduce_run env inputs st = (ts, st')" and "\<forall>e \<in> set (is_ledgers st). evidence_backed ops e"
  shows "\<forall>e \<in> set (is_ledgers st').
    evidence_backed (ops \<union> {op. op \<in> fst ` snd ` set inputs \<and> completed op \<and> is_investigation_operation op}) e"
  using assms
proof (induction inputs arbitrary: st ts ops)
  case (Cons x xs)
  obtain policy op progress where x: "x = (policy, op, progress)" by (cases x)
  obtain t st1 where red: "reduce_investigation env policy op progress st = (t, st1)" by fastforce
  obtain ts' where rest: "reduce_run env xs st1 = (ts', st')" using Cons.prems x red by (auto split: prod.splits)
  let ?ops = "if completed op \<and> is_investigation_operation op then insert op ops else ops"
  have "?ops \<union> {op. op \<in> fst ` snd ` set xs \<and> completed op \<and> is_investigation_operation op}
      \<subseteq> ops \<union> {op. op \<in> fst ` snd ` set (x # xs) \<and> completed op \<and> is_investigation_operation op}"
    by (auto simp: x)
  with Cons.IH [OF rest reduce_backed [OF red Cons.prems(2)]] show ?case by (meson evidence_backed_mono)
qed simp

text \<open>
  C39: The ledger rests on real evidence: after any run from an empty ledger, no frontier holds the
  agent's own words and every signature in one came from a completed investigation of the run; a ledger
  is resolved only because one of them found something with independent evidence, and, where the
  question is whether or where something exists, not by reading the session itself.
\<close>

theorem ledger_evidence_sound:
  assumes "reduce_run env inputs st = (ts, st')" and "is_ledgers st = []" and "e \<in> set (is_ledgers st')"
  shows "let ops = {op. op \<in> fst ` snd ` set inputs \<and> completed op \<and> is_investigation_operation op} in
    (\<forall>s \<in> set (le_evidence_frontier e).
       es_provenance s \<noteq> SelfGeneratedConversation \<and> (\<exists>op \<in> ops. s \<in> set (stable_evidence op))) \<and>
    (le_resolved e \<longrightarrow> (\<exists>op \<in> ops. eo_result op = Found \<and>
       (\<exists>s \<in> set (stable_evidence op). es_provenance s = Independent) \<and>
       (ii_predicate (le_identity e) \<in> {Locate, Exists} \<longrightarrow> channel op \<noteq> Session)))"
proof -
  have "evidence_backed {op. op \<in> fst ` snd ` set inputs \<and> completed op \<and> is_investigation_operation op} e"
    using reduce_run_backed [OF assms(1), of "{}"] assms(2,3) by simp
  then show ?thesis unfolding evidence_backed_def can_resolve_ledger_iff Let_def .
qed

lemma probe_found:
  "\<exists>t e. reduce_investigation sample_env (policy_in_mode LedgerRecover) (sample_probe Found) sample_progress empty_ledger_state =
     (t, (probed 1 0 0 NoRecovery)\<lparr>is_ledgers := [e]\<rparr>) \<and> le_resolved e"
  by (simp add: probe_simps)

theorem ledger_evidence_sound_witness:
  "\<exists>ts st' e. reduce_run sample_env (sample_probes 1 Found) empty_ledger_state = (ts, st') \<and> is_ledgers st' = [e] \<and>
     le_resolved e \<and> (\<exists>op \<in> fst ` snd ` set (sample_probes 1 Found). eo_result op = Found)"
proof -
  obtain t st' e where "reduce_investigation sample_env (policy_in_mode LedgerRecover) (sample_probe Found) sample_progress empty_ledger_state =
      (t, st')" "is_ledgers st' = [e]" "le_resolved e" using probe_found by force
  then have run: "reduce_run sample_env (sample_probes 1 Found) empty_ledger_state = ([t], st')" "is_ledgers st' = [e]" "le_resolved e"
    by (simp_all add: sample_probes_def)
  have "is_ledgers empty_ledger_state = []" "e \<in> set (is_ledgers st')" using run(2) by (simp_all add: empty_ledger_state_def)
  from ledger_evidence_sound [OF run(1) this] run(3)
  have "\<exists>op \<in> fst ` snd ` set (sample_probes 1 Found). eo_result op = Found" unfolding Let_def by blast
  with run show ?thesis by blast
qed

end
