(* ===== verification/Spec2Isabelle.thy ===== *)
theory Spec2Isabelle
  imports Notifications Gateway Lockfile Turn_Hooks Subagent_Graph Sse_Normalizer Adapter Task_Stall Actor_Recovery
    Lifecycle Chat_Projection Materialize Grok_Session Codex_Metadata Official_Replay Investigation
begin

text \<open>
  Vellum runs the Codex coding agent behind a local proxy: a Rust runtime that translates between the
  official Responses protocol and third-party providers, watches the agents' turns and tool calls, and
  recovers from overflow, stalls and early stops. A broker keeps the agent's threads alive on a remote
  host and connects several devices to them. This development models the core of the runtime and of the
  broker and proves what makes them correct.

  \<^bold>\<open>Parts and theories.\<close> The crates are \<open>crates/vellum-enhanced-codex\<close> (E),
  \<open>crates/vellum-proxy-runtime\<close> (R) and \<open>crates/vellum-remote-broker\<close> (B) with the types of
  \<open>crates/vellum-remote-protocol\<close>.

  \<^item> \<open>Prelude\<close>: machine integers with Rust's saturating operations, bytes and ASCII text, lines,
    ordered maps, the locales \<open>ordered_map\<close>, \<open>step_system\<close>, \<open>monotone_system\<close> and \<open>credit_system\<close>.
    \<open>F64\<close>: the IEEE comparison used by the pruning trigger. \<open>Json_Value\<close>: \<open>serde_json::Value\<close> and the
    accessors the code uses, with the locale \<open>json_rewriting\<close> for recursive rewriters.
  \<^item> \<open>Config\<close> (E \<open>config.rs\<close>), \<open>Telemetry\<close> (E \<open>telemetry.rs\<close>), \<open>Notifications\<close> (E \<open>notifications.rs\<close>),
    \<open>Gateway\<close> (E \<open>gateway.rs\<close>): features and profiles, telemetry events and their sink, what is reported
    to the client, and the guard that keeps the gateway apart.
  \<^item> \<open>Digest\<close>, \<open>Lockfile\<close> (E \<open>digest.rs\<close>, \<open>lockfile.rs\<close>): the identity of an installed runtime.
  \<^item> \<open>Bounded_Continuation\<close> (E \<open>bounded_continuation.rs\<close>): the budget of automatic continuations.
  \<^item> \<open>Context_Pruner\<close>, \<open>Context_Recovery\<close> (E \<open>context_pruner.rs\<close>, \<open>context_recovery.rs\<close>): pruning tool
    results under pressure, and the one retry after an overflow.
  \<^item> \<open>Tool_Reliability\<close>, \<open>Tool_Observation\<close> (E \<open>tool_reliability.rs\<close>, \<open>tool_observation.rs\<close>): the ledger
    that executes each provider call once, and the observer of repeated results.
  \<^item> \<open>Turn_Hooks\<close> (E \<open>hooks.rs\<close>): the hooks the runtime calls, over the states of all components above.
  \<^item> \<open>Codex_Identity\<close>, \<open>Codex_Metadata\<close> (R \<open>codex_metadata.rs\<close>): the identity of a turn, its extraction from
    headers and bodies, conflicts and trust, and the capabilities of a client. \<open>Subagent_Graph\<close>
    (R \<open>subagent_graph.rs\<close>): the registry of agent threads and their executions, the cancellation fan-out
    and the pruning of old nodes.
  \<^item> \<open>Sse\<close>, \<open>Streaming\<close>, \<open>Sse_Normalizer\<close> (R \<open>sse.rs\<close>, \<open>streaming.rs\<close>): decoding and framing the
    event stream, collecting the completed response, validating and normalizing third-party streams.
  \<^item> \<open>Adapter\<close> (R \<open>adapter.rs\<close>): patch documents, tool and namespace restoration, and the scrubbers that
    take a conversation from one provider's realm to another.
  \<^item> \<open>Lifecycle\<close> (R \<open>lifecycle.rs\<close>): admission and draining of requests as the atomic steps of
    interleaved tasks on one word, and the generations of the proxy.
  \<^item> \<open>History\<close> (R \<open>history.rs\<close>): the exchanges of a conversation, their chains and heads, the compaction
    journals, and the file that keeps them. \<open>Replay\<close> (R \<open>replay.rs\<close> to \<open>is_user_message_item\<close>,
    \<open>continuation.rs\<close>, \<open>recovery_policy.rs\<close>): how the stored history is put in front of a request.
    \<open>Chat_Transcript\<close> (the rest of \<open>replay.rs\<close>): compaction markers, diagnostics, the checks of a Chat
    transcript, the fixed messages of its tail. \<open>Chat_Projection\<close> (R \<open>profile_adapter.rs\<close>): from input items
    to Chat messages, and calls whose results have not arrived. \<open>Materialize\<close> (R \<open>exec.rs\<close>, the functions on
    replay identities and \<open>materialize_local_compactions\<close>): markers become the journals they stand for.
  \<^item> \<open>Grok_Session\<close> (R \<open>grok_session.rs\<close>): sessions, request ids and turn indexes, in maps bounded by
    queues (locale \<open>fifo_system\<close>, interpreted on each of the three maps). \<open>Official_Replay\<close>
    (R \<open>official_replay.rs\<close>, the metadata of \<open>request.rs\<close>): the volatile cache of the official realm.
  \<^item> \<open>Progress_Fingerprint\<close>, \<open>Task_Stall\<close> (R \<open>progress_fingerprint.rs\<close>, \<open>task_stall.rs\<close>,
    \<open>stall_recovery.rs\<close>): what counts as progress, and the recovery of a task that makes none.
  \<^item> \<open>Investigation\<close> (R \<open>investigation_reducer.rs\<close>, \<open>investigation_linker.rs\<close>, \<open>investigation_diagnostics.rs\<close>,
    \<open>predicate_for_operation\<close>): the ledgers of open questions, how an operation is linked to one, the count of
    revisits without new evidence, the warnings that follow, and which ledgers are kept.
  \<^item> \<open>Broker_Store\<close> (B \<open>event_store.rs\<close>, \<open>snapshot_store.rs\<close>, \<open>lease_manager.rs\<close>, \<open>approval_registry.rs\<close>,
    \<open>migrations/\<close>): the database of the broker, a table as an association list on its primary key or
    as the list of its rows, and a definition per operation with the constraints its statements can
    violate. \<open>Thread_Actor\<close> (B \<open>thread_actor.rs\<close>, \<open>command_router.rs\<close>, \<open>recovery.rs\<close>): the actor that owns
    a thread, a step per message of its mailbox, over a world of actor, database, counters, what was
    sent upstream and what was broadcast. \<open>Actor_Recovery\<close>: what restarts and reconnecting clients see.

  \<^bold>\<open>How state and operations correspond.\<close> A struct is a \<open>record\<close> with its fields, an enum a
  \<open>datatype\<close> with its variants, a method one definition that takes the state last and returns the
  result together with the new state; errors and early returns are values of sum and option types.
  Unsigned integers keep their width where they are counted or stored (\<open>u8\<close>, \<open>u32\<close>, \<open>u64\<close> as words with
  saturation where the code saturates); \<open>usize\<close> lengths are naturals. A \<open>String\<close> is the list of its
  UTF-8 bytes. A \<open>HashMap\<close> or \<open>HashSet\<close> whose iteration order can be seen is a list, and the theorems
  hold for every order; others are maps. A mutex-protected state is the state its critical sections
  see, one operation at a time; where the code works on atomic words, every atomic access is a step of
  its own and the steps of the tasks interleave in any order (\<open>Lifecycle\<close>). A panic is the value
  \<open>None\<close> (\<open>role_sequence_summary\<close>, \<open>bounded_error_reason\<close>).

  \<^bold>\<open>Parameters.\<close> SHA-256, the JSON parser and printer and the derived \<open>serde\<close> decoders are arguments of
  the definitions that use them. What a theorem needs of them is a hypothesis of the theorem: that the
  parser builds objects with distinct keys, or that it reads back what the printer wrote. Time and
  environment variables are arguments too. For the actor an \<open>actor_env\<close> holds the answers of the
  app-server, the clock, a fresh identifier and the epoch at one message; a run may use another one for
  every message, so the theorems hold for every behaviour of the app-server.

  \<^bold>\<open>What is shown.\<close> Along every sequence of hook calls a provider call is executed once, continuations
  and overflow retries stay within their budgets, features that are off change nothing, and the hooks
  refine their components (\<open>hooks_refine_components\<close> below). The agent threads always form a forest,
  and depth, descendants, cycle check and cancellation fan-out are exact with respect to it. Pruning
  equals a reference description and keeps the pairing of calls and results. The stream decoder,
  the framing and the completion tracker do not depend on how the bytes are cut; framing and wire
  format are round trips; the normalizer forwards a replayed event once and no private diagnostic;
  the scrubbers leave nothing opaque at any depth. A task that moves in a circle of fingerprints is
  always noticed, and its recoveries climb a ladder of two rungs. An investigation is warned about twice at most,
  it is resolved by independent evidence only, and a ledger with a standing warning is never dropped. Once the proxy drains, no request is
  admitted in any interleaving, and admission itself ends. A stored conversation survives a restart; its
  chains end even when their links form a circle, and hydration puts exactly the missing items in front
  of a request. The pairing check of Chat transcripts is equivalent to a grammar, and every snapshot
  with unfinished calls is brought into that grammar without losing a result. Compaction markers are
  replaced in place and give back what was recorded. An identity extracted from a request is well formed
  and agrees with every source it came from, and the headers of a connection cannot change the owner of
  a frame. A retried Grok request keeps its id and turn index, turn indexes are distinct, and a failed
  lookup never starts a new session; the official cache returns an entry to its own account only. In the broker a command goes upstream
  at most once per idempotency key even if the broker crashes in the middle of it, and only for the
  device that holds the writer lease; a lease is exclusive until it expires; the event log of a thread
  has no gaps; a client that attaches gets every event it has not seen; a restarted actor rebuilds the
  timeline. These follow from invariants of the store (locales \<open>event_log\<close> and \<open>step_system\<close>) because every
  message of the actor is a sequence of store operations (\<open>db_reach\<close>).

  \<^bold>\<open>Loops.\<close> All definitions are total. The recursive JSON rewriters terminate by \<open>json_weight\<close>, block
  draining by the length of the buffer, the graph traversals by the nodes not yet visited, the walk along a chain by
  the ids not yet seen, the reconciliation by the messages left, the evictions by the length of the queue; no
  fuel is used. The retry loop of
  admission may run long under contention: a run of it is a sequence of steps, and \<open>begin_terminates\<close>
  bounds their number by the changes of other tasks.

  \<^bold>\<open>Not modelled.\<close> The asynchronous HTTP, WebSocket and process I/O around these parts (the rest of
  \<open>exec.rs\<close>, \<open>websocket.rs\<close>, the broker's gateway and the agent's sockets), the desktop shell and the evaluation harness:
  they are effects on the outside world around calls of the modelled operations. The harness profiles and
  the image compression of \<open>profile_adapter.rs\<close>, the compaction engine and the conversion of Chat responses in
  \<open>adapter.rs\<close>. The classification of
  command lines (\<open>evidence_operation.rs\<close>, \<open>investigation.rs\<close>) is text heuristics; of it the data and
  \<open>predicate_for_operation\<close> are modelled, with the channel of a command as an argument. The quota router is dominated by floating-point scores. Of the broker's
  database, failures of the disk are not modelled; the clock is read once per message, and the random
  identifiers of the envelopes sent to clients are left out.
\<close>

section \<open>Composition\<close>

text \<open>
  The hooks delegate: along any run that restores no ledger, the continuation budget and the tool-call
  ledger evolve exactly as under the component operations the calls stand for.
\<close>

lemma hooks_refine_components:
  assumes "list_all (\<lambda>op. \<not> is_restore op) ops"
  shows "let h = fst (fold (hook_step sha fd) ops (new_hooks f, t)) in
    features h = f \<and>
    continuation h = fold budget_step (concat (map (budget_ops f) ops)) default_budget \<and>
    ledger h = fold (ledger_step sha) (concat (map (ledger_ops f) ops)) new_ledger"
  using continuation_run [of sha fd ops "(new_hooks f, t)"] ledger_run [OF assms, of sha fd "(new_hooks f, t)"]
  by (simp add: Let_def)

end
